(* ===== verification/Monosat_Prelude.thy ===== *)
theory Monosat_Prelude
  imports Main "HOL-Library.Word" "HOL-Library.Multiset" "HOL-Library.Monad_Syntax"
    "HOL-Library.While_Combinator"
begin

text \<open>
  What every component theory shares: the named collections of rewrite rules that the component
  proofs pass to \<open>simp\<close> and \<open>auto\<close>, the operations of C++ \<open>vec\<close> and \<open>std::vector\<close> that the
  sources use (\<open>push\<close>, \<open>pop\<close>, \<open>growTo\<close> / \<open>resize\<close>, element exchange) on HOL lists, and the generic facts
  about lists, options and relations that more than one component needs.

  A C++ vector is a HOL list. Reads and writes are written \<open>xs ! i\<close> and \<open>xs[i := v]\<close>; an access
  that the source can perform out of range is guarded explicitly, and then the result is \<open>None\<close>
  (undefined behaviour in C++).
\<close>

named_theorems lit_simps \<open>algebra of literals: variable, sign, complement\<close>
named_theorems sem_simps \<open>semantics of literals, clauses and solver states\<close>
named_theorems graph_simps \<open>projections of graph operations\<close>

subsection \<open>Vectors\<close>

definition vec_grow :: "nat \<Rightarrow> 'a \<Rightarrow> 'a list \<Rightarrow> 'a list" where
  "vec_grow n d xs = (if length xs < n then xs @ replicate (n - length xs) d else xs)"

definition vec_resize :: "nat \<Rightarrow> 'a \<Rightarrow> 'a list \<Rightarrow> 'a list" where
  "vec_resize n d xs = take n xs @ replicate (n - length xs) d"

definition swap_at :: "nat \<Rightarrow> nat \<Rightarrow> 'a list \<Rightarrow> 'a list" where
  "swap_at i j xs = xs[i := xs ! j, j := xs ! i]"

lemma length_vec_grow [simp]: "length (vec_grow n d xs) = max n (length xs)"
  by (simp add: vec_grow_def)

lemma nth_vec_grow:
  "i < max n (length xs) \<Longrightarrow> vec_grow n d xs ! i = (if i < length xs then xs ! i else d)"
  by (auto simp: vec_grow_def nth_append)

lemma length_vec_resize [simp]: "length (vec_resize n d xs) = n"
  by (simp add: vec_resize_def)

lemma nth_vec_resize:
  "i < n \<Longrightarrow> vec_resize n d xs ! i = (if i < length xs then xs ! i else d)"
  by (auto simp: vec_resize_def nth_append)

lemma length_swap_at [simp]: "length (swap_at i j xs) = length xs"
  by (simp add: swap_at_def)

lemma mset_swap_at [simp]:
  "i < length xs \<Longrightarrow> j < length xs \<Longrightarrow> mset (swap_at i j xs) = mset xs"
  by (simp add: swap_at_def mset_swap)

lemma set_swap_at [simp]:
  "i < length xs \<Longrightarrow> j < length xs \<Longrightarrow> set (swap_at i j xs) = set xs"
  using mset_swap_at by (metis set_mset_mset)

lemma nth_swap_at:
  "i < length xs \<Longrightarrow> j < length xs \<Longrightarrow> k < length xs \<Longrightarrow>
     swap_at i j xs ! k = (if k = i then xs ! j else if k = j then xs ! i else xs ! k)"
  by (auto simp: swap_at_def nth_list_update)

end
