(* ===== verification/Solver_Types.thy ===== *)
theory Solver_Types
  imports Monosat_Prelude
begin

unbundle bit_operations_syntax

text \<open>
  Literals, lifted booleans and clauses of \<open>core/SolverTypes.h\<close>, with \<open>remove\<close> and \<open>find\<close> of
  \<open>mtl/Alg.h\<close>.

  A literal is the integer \<open>2 * var + sign\<close>; \<open>lit_Undef\<close> is \<open>-2\<close> and \<open>lit_Error\<close> is \<open>-1\<close>. The integer is
  a HOL \<open>int\<close>; \<open>literal_encoding_bounds\<close> shows for which variables the 32-bit encoding of the source agrees.
  A lifted boolean is the byte of the source: 0 is true, 1 is false, and every byte with bit 1 set
  is undefined, so the C++ comparison \<open>lbool_eq\<close> is coarser than equality of bytes.
\<close>

subsection \<open>Literals\<close>

datatype Lit = Lit (litx: int)

definition lit_less :: "Lit \<Rightarrow> Lit \<Rightarrow> bool" where
  "lit_less p q \<longleftrightarrow> litx p < litx q"

instantiation Lit :: linorder
begin

definition less_eq_Lit :: "Lit \<Rightarrow> Lit \<Rightarrow> bool" where
  "less_eq_Lit p q \<longleftrightarrow> litx p \<le> litx q"

definition less_Lit :: "Lit \<Rightarrow> Lit \<Rightarrow> bool" where
  "less_Lit p q \<longleftrightarrow> lit_less p q"

instance
  by standard (auto simp: less_eq_Lit_def less_Lit_def lit_less_def Lit.expand)

end

definition mkLit :: "int \<Rightarrow> bool \<Rightarrow> Lit" where
  "mkLit v s = Lit (v + v + of_bool s)"

definition neg :: "Lit \<Rightarrow> Lit" where
  "neg p = Lit (litx p XOR 1)"

definition xor_lit :: "Lit \<Rightarrow> bool \<Rightarrow> Lit" where
  "xor_lit p b = Lit (litx p XOR of_bool b)"

definition sign :: "Lit \<Rightarrow> bool" where
  "sign p \<longleftrightarrow> litx p AND 1 \<noteq> 0"

definition var :: "Lit \<Rightarrow> int" where
  "var p = drop_bit 1 (litx p)"

definition toInt :: "Lit \<Rightarrow> int" where
  "toInt p = litx p"

definition toLit :: "int \<Rightarrow> Lit" where
  "toLit i = Lit i"

definition dimacs :: "Lit \<Rightarrow> int" where
  "dimacs l = (if sign l then - (var l + 1) else var l + 1)"

definition var_Undef :: int where
  "var_Undef = -1"

definition lit_Undef :: Lit where
  "lit_Undef = Lit (-2)"

definition lit_Error :: Lit where
  "lit_Error = Lit (-1)"

lemma var_div [lit_simps]: "var p = litx p div 2"
  by (simp add: var_def drop_bit_eq_div)

lemma sign_odd [lit_simps]: "sign p \<longleftrightarrow> odd (litx p)"
  by (simp add: sign_def and_one_eq odd_iff_mod_2_eq_one)

lemma xor_one_int: "(x::int) XOR 1 = (if even x then x + 1 else x - 1)"
  by (simp add: xor_one_eq)

lemma neg_val [lit_simps]: "litx (neg p) = (if even (litx p) then litx p + 1 else litx p - 1)"
  by (simp add: neg_def xor_one_int)

lemma mkLit_val [lit_simps]: "litx (mkLit v s) = 2 * v + of_bool s"
  by (simp add: mkLit_def)

lemma var_mkLit [simp]: "var (mkLit v s) = v"
  by (simp add: lit_simps)

lemma sign_mkLit [simp]: "sign (mkLit v s) = s"
  by (simp add: lit_simps)

lemma mkLit_var_sign [simp]: "mkLit (var p) (sign p) = p"
  by (cases p) (auto simp: mkLit_def var_div sign_odd elim!: evenE oddE)

lemma Lit_eq_iff: "p = q \<longleftrightarrow> var p = var q \<and> sign p = sign q"
proof
  assume "var p = var q \<and> sign p = sign q"
  then have "mkLit (var p) (sign p) = mkLit (var q) (sign q)"
    by (simp only:)
  then show "p = q"
    by simp
qed simp

lemma var_neg [simp]: "var (neg p) = var p"
  by (auto simp: lit_simps elim!: oddE)

lemma sign_neg [simp]: "sign (neg p) \<longleftrightarrow> \<not> sign p"
  by (simp add: lit_simps)

lemma neg_neg [simp]: "neg (neg p) = p"
  by (simp add: Lit_eq_iff)

lemma neg_neq [simp]: "neg p \<noteq> p" "p \<noteq> neg p"
  by (simp_all add: Lit_eq_iff)

lemma neg_inj [simp]: "neg p = neg q \<longleftrightarrow> p = q"
  by (metis neg_neg)

lemma neg_swap: "neg p = q \<longleftrightarrow> p = neg q"
  by (metis neg_neg)

lemma neg_mkLit [simp]: "neg (mkLit v s) = mkLit v (\<not> s)"
  by (simp add: Lit_eq_iff)

lemma same_var_cases: "var p = var q \<Longrightarrow> p = q \<or> p = neg q"
  by (auto simp: Lit_eq_iff)

lemma xor_lit_eq [simp]: "xor_lit p b = (if b then neg p else p)"
  by (auto simp: xor_lit_def neg_def)

lemma toLit_toInt [simp]: "toLit (toInt p) = p" "toInt (toLit i) = i"
  by (simp_all add: toLit_def toInt_def)

lemma var_lit_Undef [simp]: "var lit_Undef = var_Undef" "\<not> sign lit_Undef"
  by (simp_all add: lit_Undef_def var_Undef_def lit_simps)

subsection \<open>The 32-bit encoding\<close>

definition mkLit32 :: "32 word \<Rightarrow> bool \<Rightarrow> 32 word" where
  "mkLit32 v s = v + v + (if s then 1 else 0)"

definition var32 :: "32 word \<Rightarrow> 32 word" where
  "var32 x = signed_drop_bit 1 x"

lemma sint_word32:
  fixes x :: int
  assumes "- (2 ^ 31) \<le> x" "x < 2 ^ 31"
  shows "sint (word_of_int x :: 32 word) = x"
  using assms by (simp add: sint_uint unsigned_of_int signed_take_bit_int_eq_self signed_take_bit_take_bit)

lemma sint_word32_bounds: "- (2 ^ 31) \<le> sint (w :: 32 word)" "sint (w :: 32 word) < 2 ^ 31"
  using sint_greater_eq [of w] sint_less [of w] by simp_all

lemma mkLit32_eq: "mkLit32 (word_of_int v) s = word_of_int (litx (mkLit v s))"
  by (simp add: mkLit32_def mkLit_def)

lemma mkLit32_exact:
  "(sint (mkLit32 (word_of_int v) s) = litx (mkLit v s)) = (- (2 ^ 30) \<le> v \<and> v < 2 ^ 30)"
proof
  assume "sint (mkLit32 (word_of_int v) s) = litx (mkLit v s)"
  with sint_word32_bounds [of "mkLit32 (word_of_int v) s"] show "- (2 ^ 30) \<le> v \<and> v < 2 ^ 30"
    by (cases s) (simp_all add: mkLit_def)
next
  assume "- (2 ^ 30) \<le> v \<and> v < 2 ^ 30"
  then show "sint (mkLit32 (word_of_int v) s) = litx (mkLit v s)"
    unfolding mkLit32_eq by (intro sint_word32) (cases s; simp add: mkLit_def)+
qed

lemma var32_exact:
  "sint (mkLit32 (word_of_int v) s) = litx (mkLit v s) \<Longrightarrow> sint (var32 (mkLit32 (word_of_int v) s)) = v"
  using var_mkLit [of v s] by (simp add: var32_def var_def sint_signed_drop_bit_eq)

text \<open>C29: the 32-bit arithmetic of mkLit and var is exact for exactly the variables between -2^30 and
  2^30 - 1: there the literal is 2 v + sign and var gives v back; for every other variable the doubled
  variable wraps around and the literal differs from the one of the integer model.\<close>
theorem literal_encoding_bounds:
  "(sint (mkLit32 (word_of_int v) s) = litx (mkLit v s) \<and> sint (var32 (mkLit32 (word_of_int v) s)) = v) =
    (- (2 ^ 30) \<le> v \<and> v < 2 ^ 30)"
  using mkLit32_exact [of v s] var32_exact [of v s] by blast

subsection \<open>Lifted booleans\<close>

datatype lbool = Lbool (lb: "8 word")

definition l_True :: lbool where "l_True = Lbool 0"
definition l_False :: lbool where "l_False = Lbool 1"
definition l_Undef :: lbool where "l_Undef = Lbool 2"

definition lbool_of :: "bool \<Rightarrow> lbool" where
  "lbool_of x = Lbool (of_bool (\<not> x))"

definition lbool_eq :: "lbool \<Rightarrow> lbool \<Rightarrow> bool" where
  "lbool_eq a b \<longleftrightarrow>
     ((lb b AND 2) AND (lb a AND 2)) OR
       (of_bool (lb b AND 2 = 0) AND of_bool (lb a = lb b)) \<noteq> 0"

definition lbool_xor :: "lbool \<Rightarrow> bool \<Rightarrow> lbool" where
  "lbool_xor a b = Lbool (lb a XOR of_bool b)"

definition lbool_and :: "lbool \<Rightarrow> lbool \<Rightarrow> lbool" where
  "lbool_and a b =
     (let sel = push_bit 1 (lb a) OR push_bit 3 (lb b);
          v = drop_bit (unat sel) (0xF7F755F4 :: 32 word) AND 3
      in Lbool (ucast v))"

definition lbool_or :: "lbool \<Rightarrow> lbool \<Rightarrow> lbool" where
  "lbool_or a b =
     (let sel = push_bit 1 (lb a) OR push_bit 3 (lb b);
          v = drop_bit (unat sel) (0xFCFCF400 :: 32 word) AND 3
      in Lbool (ucast v))"

text \<open>The value a byte stands for. A well-formed lifted boolean is one of the bytes 0 to 3.\<close>

definition tri :: "lbool \<Rightarrow> bool option" where
  "tri a = (if lb a AND 2 = 0 then Some (lb a = 0) else None)"

definition wf_lbool :: "lbool \<Rightarrow> bool" where
  "wf_lbool a \<longleftrightarrow> lb a \<in> {0, 1, 2, 3}"

lemma wf_lbool_cases:
  assumes "wf_lbool a"
  obtains "a = Lbool 0" | "a = Lbool 1" | "a = Lbool 2" | "a = Lbool 3"
  using assms by (cases a) (auto simp: wf_lbool_def)

lemma wf_lbool_consts [simp]:
  "wf_lbool l_True" "wf_lbool l_False" "wf_lbool l_Undef" "wf_lbool (lbool_of b)"
  by (auto simp: wf_lbool_def l_True_def l_False_def l_Undef_def lbool_of_def)

lemma tri_consts [simp]:
  "tri l_True = Some True" "tri l_False = Some False" "tri l_Undef = None"
  "tri (lbool_of b) = Some b"
  by (auto simp: tri_def l_True_def l_False_def l_Undef_def lbool_of_def)

lemma wf_lbool_xor [simp]: "wf_lbool a \<Longrightarrow> wf_lbool (lbool_xor a b)"
  by (elim wf_lbool_cases) (auto simp: lbool_xor_def wf_lbool_def)

lemma tri_xor [simp]: "wf_lbool a \<Longrightarrow> tri (lbool_xor a b) = map_option (\<lambda>x. x \<noteq> b) (tri a)"
  by (elim wf_lbool_cases) (auto simp: lbool_xor_def tri_def)

lemma lbool_eq_tri [simp]: "wf_lbool a \<Longrightarrow> wf_lbool b \<Longrightarrow> lbool_eq a b \<longleftrightarrow> tri a = tri b"
  by (elim wf_lbool_cases) (auto simp: lbool_eq_def tri_def)

text \<open>Kleene's three-valued connectives, which the lookup tables of the source implement.\<close>

fun kleene_and :: "bool option \<Rightarrow> bool option \<Rightarrow> bool option" where
  "kleene_and (Some False) y = Some False"
| "kleene_and x (Some False) = Some False"
| "kleene_and (Some True) y = y"
| "kleene_and None y = None"

fun kleene_or :: "bool option \<Rightarrow> bool option \<Rightarrow> bool option" where
  "kleene_or (Some True) y = Some True"
| "kleene_or x (Some True) = Some True"
| "kleene_or (Some False) y = y"
| "kleene_or None y = None"

text \<open>The shift-table implementations of \<open>&&\<close> and \<open>||\<close> on lifted booleans are Kleene's three-valued
  conjunction and disjunction on every pair of representations, the two bytes for "undefined"
  included.\<close>

theorem lbool_connectives:
  assumes "wf_lbool a" "wf_lbool b"
  shows "wf_lbool (lbool_and a b) \<and> tri (lbool_and a b) = kleene_and (tri a) (tri b) \<and>
    wf_lbool (lbool_or a b) \<and> tri (lbool_or a b) = kleene_or (tri a) (tri b)"
  using assms
  by (elim wf_lbool_cases)
     (auto simp: lbool_and_def lbool_or_def tri_def wf_lbool_def)

theorem lbool_connectives_witness:
  "tri (lbool_and l_Undef l_False) = Some False \<and> tri (lbool_or l_Undef l_False) = None"
  using lbool_connectives [of l_Undef l_False] by simp

subsection \<open>Semantics of literals and clauses\<close>

type_synonym assignment = "int \<Rightarrow> bool"

definition lit_holds :: "assignment \<Rightarrow> Lit \<Rightarrow> bool" where
  "lit_holds \<sigma> l \<longleftrightarrow> \<sigma> (var l) \<noteq> sign l"

definition clause_holds :: "assignment \<Rightarrow> Lit list \<Rightarrow> bool" where
  "clause_holds \<sigma> c \<longleftrightarrow> (\<exists>l \<in> set c. lit_holds \<sigma> l)"

lemma lit_holds_neg [simp]: "lit_holds \<sigma> (neg l) \<longleftrightarrow> \<not> lit_holds \<sigma> l"
  by (auto simp: lit_holds_def)

lemma lit_holds_mkLit [simp]: "lit_holds \<sigma> (mkLit v s) \<longleftrightarrow> \<sigma> v \<noteq> s"
  by (simp add: lit_holds_def)

lemma clause_holds_Nil [simp]: "\<not> clause_holds \<sigma> []"
  by (simp add: clause_holds_def)

lemma clause_holds_Cons [simp]: "clause_holds \<sigma> (l # c) \<longleftrightarrow> lit_holds \<sigma> l \<or> clause_holds \<sigma> c"
  by (auto simp: clause_holds_def)

lemma clause_holds_append [simp]:
  "clause_holds \<sigma> (c @ d) \<longleftrightarrow> clause_holds \<sigma> c \<or> clause_holds \<sigma> d"
  by (auto simp: clause_holds_def)

lemma clause_holds_mono: "set c \<subseteq> set d \<Longrightarrow> clause_holds \<sigma> c \<Longrightarrow> clause_holds \<sigma> d"
  by (auto simp: clause_holds_def)

lemma clause_holds_cong_set: "set c = set d \<Longrightarrow> clause_holds \<sigma> c = clause_holds \<sigma> d"
  by (simp add: clause_holds_def)

lemma lit_holds_agree: "\<sigma> (var l) = \<tau> (var l) \<Longrightarrow> lit_holds \<sigma> l = lit_holds \<tau> l"
  by (simp add: lit_holds_def)

lemma clause_holds_agree:
  "(\<And>l. l \<in> set c \<Longrightarrow> \<sigma> (var l) = \<tau> (var l)) \<Longrightarrow> clause_holds \<sigma> c = clause_holds \<tau> c"
  by (auto simp: clause_holds_def lit_holds_def)

subsection \<open>Clauses\<close>

text \<open>
  \<open>Clause\<close> of the source: the literals, the header bits and the extra word, which is the activity of a
  learnt clause and the abstraction (a 32-bit signature of the variables) of an original one. The
  extra word exists only when \<open>has_extra\<close> is set; activities are heuristics and are not modelled.
\<close>

record Clause =
  lits :: "Lit list"
  mark :: nat
  learnt :: bool
  has_extra :: bool
  derived :: bool
  abs_word :: "32 word"

definition calcAbstraction :: "Clause \<Rightarrow> Clause" where
  "calcAbstraction c =
     c\<lparr>abs_word := fold (\<lambda>l a. a OR push_bit (nat (var l AND 31)) 1) (lits c) 0\<rparr>"

definition mkClause :: "Lit list \<Rightarrow> bool \<Rightarrow> bool \<Rightarrow> Clause" where
  "mkClause ps use_extra is_learnt =
     (let c = \<lparr>lits = ps, mark = 0, learnt = is_learnt, has_extra = use_extra, derived = False,
               abs_word = 0\<rparr>
      in if use_extra \<and> \<not> is_learnt then calcAbstraction c else c)"

text \<open>\<open>remove\<close> of \<open>mtl/Alg.h\<close>: deletes the first occurrence; the element must be present.\<close>

fun vec_remove :: "'a \<Rightarrow> 'a list \<Rightarrow> 'a list option" where
  "vec_remove t [] = None"
| "vec_remove t (x # xs) = (if x = t then Some xs else map_option ((#) x) (vec_remove t xs))"

fun vec_find :: "'a \<Rightarrow> 'a list \<Rightarrow> bool" where
  "vec_find t [] = False"
| "vec_find t (x # xs) = (x = t \<or> vec_find t xs)"

definition strengthen :: "Lit \<Rightarrow> Clause \<Rightarrow> Clause option" where
  "strengthen p c = do {
     ls \<leftarrow> vec_remove p (lits c);
     Some (calcAbstraction (c\<lparr>lits := ls\<rparr>))
   }"

text \<open>
  The inner loop of \<open>subsumes\<close>: the scan of the other clause for \<open>c[i]\<close> or, while no literal has been
  resolved on, for its complement. \<open>None\<close> is falling out of the loop (\<open>return lit_Error\<close>), \<open>Some ret\<close> the
  jump to \<open>ok\<close> with the new \<open>ret\<close>.
\<close>

fun subsumes_scan :: "Lit \<Rightarrow> Lit \<Rightarrow> Lit list \<Rightarrow> Lit option" where
  "subsumes_scan ret p [] = None"
| "subsumes_scan ret p (d # ds) =
     (if p = d then Some ret
      else if ret = lit_Undef \<and> p = neg d then Some p
      else subsumes_scan ret p ds)"

fun subsumes_loop :: "Lit \<Rightarrow> Lit list \<Rightarrow> Lit list \<Rightarrow> Lit" where
  "subsumes_loop ret [] ds = ret"
| "subsumes_loop ret (p # ps) ds =
     (case subsumes_scan ret p ds of
        None \<Rightarrow> lit_Error
      | Some ret' \<Rightarrow> subsumes_loop ret' ps ds)"

definition subsumes :: "Clause \<Rightarrow> Clause \<Rightarrow> Lit" where
  "subsumes c other =
     (if length (lits other) < length (lits c) \<or> abs_word c AND NOT (abs_word other) \<noteq> 0
      then lit_Error
      else subsumes_loop lit_Undef (lits c) (lits other))"

definition valid_lit :: "Lit \<Rightarrow> bool" where
  "valid_lit l \<longleftrightarrow> 0 \<le> litx l"

definition tautology :: "Lit list \<Rightarrow> bool" where
  "tautology c \<longleftrightarrow> (\<exists>l \<in> set c. neg l \<in> set c)"

lemma valid_lit_neq [simp]: "valid_lit l \<Longrightarrow> l \<noteq> lit_Undef" "valid_lit l \<Longrightarrow> l \<noteq> lit_Error"
  by (auto simp: valid_lit_def lit_Undef_def lit_Error_def)

lemma valid_lit_var: "valid_lit l \<longleftrightarrow> 0 \<le> var l"
  by (auto simp: valid_lit_def var_div)

lemma valid_lit_neg [simp]: "valid_lit (neg l) = valid_lit l"
  by (simp add: valid_lit_var)

lemma valid_lit_mkLit [simp]: "valid_lit (mkLit v s) \<longleftrightarrow> 0 \<le> v"
  by (simp add: valid_lit_var)

lemma vec_remove_in: "t \<in> set xs \<Longrightarrow> vec_remove t xs = Some (remove1 t xs)"
  by (induction xs) auto

lemma vec_find_in [simp]: "vec_find t xs \<longleftrightarrow> t \<in> set xs"
  by (induction xs) auto

lemma set_remove1_neq: "x \<in> set xs \<Longrightarrow> x \<noteq> t \<Longrightarrow> x \<in> set (remove1 t xs)"
  by simp

lemma bit_calcAbstraction:
  "bit (abs_word (calcAbstraction c)) n \<longleftrightarrow>
     n < 32 \<and> (\<exists>l \<in> set (lits c). nat (var l AND 31) = n)"
proof -
  have "bit (fold (\<lambda>l a. a OR push_bit (nat (var l AND 31)) 1) ls (a :: 32 word)) n \<longleftrightarrow>
    bit a n \<or> (n < 32 \<and> (\<exists>l \<in> set ls. nat (var l AND 31) = n))" for ls a
  proof (induction ls arbitrary: a)
    case (Cons l ls)
    have "bit (push_bit (nat (var l AND 31)) (1 :: 32 word)) n \<longleftrightarrow> n < 32 \<and> nat (var l AND 31) = n"
      by (simp add: push_bit_of_1 bit_exp_iff possible_bit_word)
         auto
    then show ?case
      unfolding fold.simps comp_def Cons.IH by (simp add: bit_or_iff) blast
  qed simp
  then show ?thesis
    by (simp add: calcAbstraction_def)
qed

lemma abstraction_filter:
  assumes "\<forall>l \<in> set (lits c). \<exists>k \<in> set (lits d). var k = var l"
  shows "abs_word (calcAbstraction c) AND NOT (abs_word (calcAbstraction d)) = 0"
proof (rule bit_eqI)
  fix n
  show "bit (abs_word (calcAbstraction c) AND NOT (abs_word (calcAbstraction d))) n
      = bit (0 :: 32 word) n"
    using assms by (auto simp: bit_and_iff bit_not_iff bit_calcAbstraction) metis
qed

lemma subsumes_scan_Some:
  "subsumes_scan ret p ds = Some r \<Longrightarrow>
     (r = ret \<and> p \<in> set ds) \<or> (ret = lit_Undef \<and> r = p \<and> neg p \<in> set ds)"
  by (induction ret p ds rule: subsumes_scan.induct) (auto split: if_splits)

lemma subsumes_scan_member:
  "p \<in> set ds \<Longrightarrow> neg p \<notin> set ds \<Longrightarrow> subsumes_scan ret p ds = Some ret"
  by (induction ret p ds rule: subsumes_scan.induct) auto

lemma subsumes_loop_resolved:
  assumes "subsumes_loop ret ps ds = r" "r \<noteq> lit_Error" "ret \<noteq> lit_Undef"
  shows "r = ret \<and> set ps \<subseteq> set ds"
  using assms
  by (induction ret ps ds rule: subsumes_loop.induct)
     (auto split: option.splits dest!: subsumes_scan_Some)

lemma subsumes_loop_result:
  assumes "subsumes_loop lit_Undef ps ds = r" "r \<noteq> lit_Error" "\<forall>p \<in> set ps. valid_lit p"
  shows "(r = lit_Undef \<and> set ps \<subseteq> set ds) \<or>
         (r \<in> set ps \<and> neg r \<in> set ds \<and> set ps - {r} \<subseteq> set ds)"
  using assms
proof (induction ps)
  case (Cons p ps)
  from Cons.prems obtain r' where r': "subsumes_scan lit_Undef p ds = Some r'"
    and rest: "subsumes_loop r' ps ds = r"
    by (auto split: option.splits)
  from subsumes_scan_Some [OF r'] consider
      "r' = lit_Undef" "p \<in> set ds" | "r' = p" "neg p \<in> set ds" by auto
  then show ?case
  proof cases
    case 1
    with Cons rest show ?thesis by auto
  next
    case 2
    with Cons.prems rest have "r = p \<and> set ps \<subseteq> set ds"
      using subsumes_loop_resolved [of p ps ds r] by auto
    with 2 show ?thesis by auto
  qed
qed simp

lemma subsumes_loop_complete:
  "set ps \<subseteq> set ds \<Longrightarrow> \<not> tautology ds \<Longrightarrow> subsumes_loop ret ps ds = ret"
  by (induction ret ps ds rule: subsumes_loop.induct)
     (auto simp: tautology_def subsumes_scan_member)

lemma subsumes_cases:
  assumes "subsumes c d = r" "r \<noteq> lit_Error" "\<forall>p \<in> set (lits c). valid_lit p"
  shows "(r = lit_Undef \<and> set (lits c) \<subseteq> set (lits d)) \<or>
         (r \<in> set (lits c) \<and> neg r \<in> set (lits d) \<and> set (lits c) - {r} \<subseteq> set (lits d))"
  using assms subsumes_loop_result [of "lits c" "lits d" r]
  by (auto simp: subsumes_def split: if_splits)

lemma lits_calcAbstraction [simp]: "lits (calcAbstraction c) = lits c"
  by (simp add: calcAbstraction_def)

lemma subsumes_iff_aux:
  assumes "set (lits c) \<subseteq> set (lits d)" "distinct (lits c)" "\<not> tautology (lits d)"
  shows "subsumes (calcAbstraction c) (calcAbstraction d) = lit_Undef"
proof -
  have "length (lits c) \<le> length (lits d)"
    using assms(1,2) by (metis card_mono card_length distinct_card finite_set le_trans)
  moreover have "abs_word (calcAbstraction c) AND NOT (abs_word (calcAbstraction d)) = 0"
    using assms(1) by (intro abstraction_filter) auto
  ultimately show ?thesis
    using assms subsumes_loop_complete [of "lits c" "lits d" lit_Undef]
    by (simp add: subsumes_def)
qed

text \<open>C40: For an original clause with distinct literals and a clause that is not a tautology, both with
  up-to-date abstractions, \<open>Clause::subsumes\<close> answers \<open>lit_Undef\<close> exactly when the literals of the first
  are among the literals of the second: neither the size test nor the 32-bit abstraction filter
  rejects a real subsumption, and none is reported that is not one.\<close>

theorem subsumes_correct:
  assumes "\<forall>p \<in> set (lits c). valid_lit p" "distinct (lits c)" "\<not> tautology (lits d)"
  shows "subsumes (calcAbstraction c) (calcAbstraction d) = lit_Undef \<longleftrightarrow>
           set (lits c) \<subseteq> set (lits d)"
  using assms subsumes_iff_aux [of c d]
    subsumes_cases [of "calcAbstraction c" "calcAbstraction d" lit_Undef]
  by (fastforce simp: lit_Error_def lit_Undef_def valid_lit_def)

theorem subsumes_correct_witness:
  "subsumes (calcAbstraction (mkClause [mkLit 1 False, mkLit 34 True] True False))
     (calcAbstraction (mkClause [mkLit 34 True, mkLit 2 True, mkLit 1 False] True False)) = lit_Undef"
  using subsumes_correct [of "mkClause [mkLit 1 False, mkLit 34 True] True False"
      "mkClause [mkLit 34 True, mkLit 2 True, mkLit 1 False] True False"]
  by (simp add: mkClause_def tautology_def mkLit_def neg_def valid_lit_def)

text \<open>C39: When \<open>Clause::subsumes\<close> returns a literal \<open>p\<close>, strengthening the other clause by \<open>~p\<close> (what
  \<open>backwardSubsumptionCheck\<close> does with the answer) succeeds, shortens it by one literal, and, in the
  presence of the first clause, changes the meaning of the other clause for no assignment.\<close>

theorem subsumption_resolution_sound:
  assumes "subsumes c d = p" "p \<noteq> lit_Undef" "p \<noteq> lit_Error"
    and "\<forall>q \<in> set (lits c). valid_lit q" "\<not> tautology (lits c)"
  shows "\<exists>d'. strengthen (neg p) d = Some d' \<and> length (lits d') + 1 = length (lits d) \<and>
           (\<forall>\<sigma>. clause_holds \<sigma> (lits c) \<longrightarrow> clause_holds \<sigma> (lits d) \<longleftrightarrow> clause_holds \<sigma> (lits d'))"
proof -
  have c: "p \<in> set (lits c)" "neg p \<in> set (lits d)" "set (lits c) - {p} \<subseteq> set (lits d)"
    using subsumes_cases [of c d p] assms by auto
  define ls where "ls = remove1 (neg p) (lits d)"
  have st: "strengthen (neg p) d = Some (calcAbstraction (d\<lparr>lits := ls\<rparr>))"
    using c(2) by (simp add: strengthen_def vec_remove_in ls_def)
  have "clause_holds \<sigma> (lits d) \<longleftrightarrow> clause_holds \<sigma> ls" if "clause_holds \<sigma> (lits c)" for \<sigma>
  proof
    assume "clause_holds \<sigma> ls"
    then show "clause_holds \<sigma> (lits d)"
      using set_remove1_subset [of "neg p" "lits d"] by (auto simp: clause_holds_def ls_def)
  next
    assume d: "clause_holds \<sigma> (lits d)"
    show "clause_holds \<sigma> ls"
    proof (cases "lit_holds \<sigma> p")
      case True
      with d show ?thesis
        by (auto simp: clause_holds_def ls_def) (metis in_set_remove1 lit_holds_neg)
    next
      case False
      with that obtain q where "q \<in> set (lits c)" "q \<noteq> p" "lit_holds \<sigma> q"
        by (auto simp: clause_holds_def)
      moreover have "q \<noteq> neg p"
        using \<open>q \<in> set (lits c)\<close> assms(5) c(1) by (auto simp: tautology_def)
      ultimately show ?thesis
        using c(3) by (auto simp: clause_holds_def ls_def intro!: bexI [of _ q])
    qed
  qed
  moreover have "length ls + 1 = length (lits d)"
    using c(2) by (simp add: ls_def length_remove1) (metis Suc_pred length_pos_if_in_set)
  ultimately show ?thesis
    using st by auto
qed

theorem subsumption_resolution_sound_witness:
  "\<exists>d'. strengthen (mkLit 1 True) (mkClause [mkLit 2 False, mkLit 1 True] True False) = Some d' \<and>
     length (lits d') + 1 = 2"
proof -
  let ?c = "mkClause [mkLit 1 False] True False"
  let ?d = "mkClause [mkLit 2 False, mkLit 1 True] True False"
  have "subsumes ?c ?d = mkLit 1 False" "mkLit 1 False \<noteq> lit_Undef" "mkLit 1 False \<noteq> lit_Error"
    "\<forall>q \<in> set (lits ?c). valid_lit q" "\<not> tautology (lits ?c)" "length (lits ?d) = 2"
    by code_simp+
  then show ?thesis
    using subsumption_resolution_sound [of ?c ?d "mkLit 1 False"] by auto
qed

text \<open>The literal that \<open>Clause::subsumes\<close> returns for a subsumption resolution is a literal of the
  subsuming clause; it does not occur in the other clause, whose complementary literal is the one
  that can be deleted. (The comment above the function says that the returned literal can be deleted
  from the other clause.)\<close>

theorem subsumes_returns_own_literal:
  assumes "subsumes c d = p" "p \<noteq> lit_Undef" "p \<noteq> lit_Error"
    and "\<forall>q \<in> set (lits c). valid_lit q" "\<not> tautology (lits d)"
  shows "p \<notin> set (lits d) \<and> neg p \<in> set (lits d)"
  using subsumes_cases [of c d p] assms by (auto simp: tautology_def) 

theorem subsumes_returns_own_literal_witness:
  "mkLit 1 False \<notin> set [mkLit 2 False, mkLit 1 True]"
proof -
  let ?c = "mkClause [mkLit 1 False] True False"
  let ?d = "mkClause [mkLit 2 False, mkLit 1 True] True False"
  have "subsumes ?c ?d = mkLit 1 False" "mkLit 1 False \<noteq> lit_Undef" "mkLit 1 False \<noteq> lit_Error"
    "\<forall>q \<in> set (lits ?c). valid_lit q" "\<not> tautology (lits ?d)"
    "lits ?d = [mkLit 2 False, mkLit 1 True]"
    by code_simp+
  then show ?thesis
    using subsumes_returns_own_literal [of ?c ?d "mkLit 1 False"] by auto
qed

end
