(* ===== verification/Vec_Sort.thy ===== *)
theory Vec_Sort
  imports Solver_Types
begin

text \<open>
  The sorting routines of \<open>mtl/Sort.h\<close>, which \<open>Solver::addClause_\<close> applies to every clause: a selection
  sort for arrays of at most 15 elements and, above, a quicksort with Hoare's partition around the
  middle element. The scans of the partition have no bounds test in the source; the model makes a
  read outside the array the result \<open>None\<close>, so that \<open>sort_array_correct\<close> also shows that no scan ever
  leaves the array.

  What the routines need of the comparator is the locale \<open>strict_weak_order\<close>, interpreted for the
  order of literals (\<open>LessThan_default<Lit>\<close>).
\<close>

subsection \<open>Model\<close>

definition sel_best :: "('a \<Rightarrow> 'a \<Rightarrow> bool) \<Rightarrow> 'a list \<Rightarrow> nat \<Rightarrow> nat" where
  "sel_best lt a i =
     foldl (\<lambda>best_i j. if lt (a ! j) (a ! best_i) then j else best_i) i [Suc i..<length a]"

definition selectionSort :: "('a \<Rightarrow> 'a \<Rightarrow> bool) \<Rightarrow> 'a list \<Rightarrow> 'a list" where
  "selectionSort lt a = foldl (\<lambda>a i. swap_at i (sel_best lt a i) a) a [0..<length a - 1]"

text \<open>
  \<open>scan_up\<close> is \<open>do i++; while (lt(array[i], pivot))\<close> and \<open>scan_down\<close> is
  \<open>do j--; while (lt(pivot, array[j]))\<close>. The argument of \<open>scan_up\<close> is the next index to be read (one
  more than the \<open>i\<close> of the source, which starts at -1).
\<close>

function scan_up :: "('a \<Rightarrow> 'a \<Rightarrow> bool) \<Rightarrow> 'a \<Rightarrow> 'a list \<Rightarrow> nat \<Rightarrow> nat option" where
  "scan_up lt pivot a i =
     (if i < length a then (if lt (a ! i) pivot then scan_up lt pivot a (Suc i) else Some i)
      else None)"
  by pat_completeness auto
termination
  by (relation "measure (\<lambda>(lt, pivot, a, i). length a - i)") auto

fun scan_down :: "('a \<Rightarrow> 'a \<Rightarrow> bool) \<Rightarrow> 'a \<Rightarrow> 'a list \<Rightarrow> nat \<Rightarrow> nat option" where
  "scan_down lt pivot a 0 = None"
| "scan_down lt pivot a (Suc j) =
     (if lt pivot (a ! j) then scan_down lt pivot a j else Some j)"

partial_function (option) partition_loop ::
  "('a \<Rightarrow> 'a \<Rightarrow> bool) \<Rightarrow> 'a \<Rightarrow> 'a list \<Rightarrow> nat \<Rightarrow> nat \<Rightarrow> (nat \<times> 'a list) option" where
  "partition_loop lt pivot a i j = do {
     i' \<leftarrow> scan_up lt pivot a i;
     j' \<leftarrow> scan_down lt pivot a j;
     if i' \<ge> j' then Some (i', a)
     else partition_loop lt pivot (swap_at i' j' a) (Suc i') j'
   }"

partial_function (option) sort_array ::
  "('a \<Rightarrow> 'a \<Rightarrow> bool) \<Rightarrow> 'a list \<Rightarrow> 'a list option" where
  "sort_array lt a =
     (if length a \<le> 15 then Some (selectionSort lt a)
      else do {
        (i, a') \<leftarrow> partition_loop lt (a ! (length a div 2)) a 0 (length a);
        l \<leftarrow> sort_array lt (take i a');
        r \<leftarrow> sort_array lt (drop i a');
        Some (l @ r)
      })"

definition sort_vec :: "'a::linorder list \<Rightarrow> 'a list option" where
  "sort_vec v = sort_array (<) v"

declare scan_up.simps [simp del]

lemma scan_up_Some:
  "scan_up lt p a i = Some k \<Longrightarrow>
     i \<le> k \<and> k < length a \<and> \<not> lt (a ! k) p \<and> (\<forall>m. i \<le> m \<and> m < k \<longrightarrow> lt (a ! m) p)"
proof (induction lt p a i rule: scan_up.induct)
  case (1 lt p a i)
  show ?case
  proof (cases "i < length a \<and> lt (a ! i) p")
    case True
    with "1.prems" have "scan_up lt p a (Suc i) = Some k"
      by (simp add: scan_up.simps [of lt p a i])
    with "1.IH" True have "Suc i \<le> k" "k < length a" "\<not> lt (a ! k) p"
      "\<forall>m. Suc i \<le> m \<and> m < k \<longrightarrow> lt (a ! m) p" by auto
    moreover have "lt (a ! m) p" if "i \<le> m" "m < k" for m
      using that True calculation by (cases "m = i") auto
    ultimately show ?thesis
      by auto
  next
    case False
    with "1.prems" show ?thesis
      by (auto simp: scan_up.simps [of lt p a i] split: if_splits)
  qed
qed

lemma scan_up_returns:
  "i \<le> k \<Longrightarrow> k < length a \<Longrightarrow> \<not> lt (a ! k) p \<Longrightarrow> \<exists>k'. scan_up lt p a i = Some k' \<and> k' \<le> k"
proof (induction lt p a i rule: scan_up.induct)
  case (1 lt p a i)
  show ?case
  proof (cases "i = k")
    case True
    with "1.prems" show ?thesis
      using scan_up.simps [of lt p a i] by auto
  next
    case False
    with 1 show ?thesis
      by (auto simp: scan_up.simps [of lt p a i])
  qed
qed

lemma scan_down_Some:
  "scan_down lt p a j = Some k \<Longrightarrow>
     k < j \<and> \<not> lt p (a ! k) \<and> (\<forall>m. k < m \<and> m < j \<longrightarrow> lt p (a ! m))"
  by (induction lt p a j rule: scan_down.induct) (auto split: if_splits simp: less_Suc_eq)

lemma scan_down_returns:
  "k < j \<Longrightarrow> \<not> lt p (a ! k) \<Longrightarrow> \<exists>k'. scan_down lt p a j = Some k' \<and> k \<le> k'"
  by (induction lt p a j rule: scan_down.induct) (auto simp: less_Suc_eq)

subsection \<open>What a comparator has to satisfy\<close>

locale strict_weak_order =
  fixes lt :: "'a \<Rightarrow> 'a \<Rightarrow> bool"
  assumes lt_asym: "lt x y \<Longrightarrow> \<not> lt y x"
    and lt_negtrans: "\<not> lt x y \<Longrightarrow> \<not> lt y z \<Longrightarrow> \<not> lt x z"
begin

definition leq :: "'a \<Rightarrow> 'a \<Rightarrow> bool" where
  "leq x y \<longleftrightarrow> \<not> lt y x"

lemma leq_refl [simp]: "leq x x"
  using lt_asym by (auto simp: leq_def)

lemma leq_trans: "leq x y \<Longrightarrow> leq y z \<Longrightarrow> leq x z"
  using lt_negtrans by (auto simp: leq_def)

lemma lt_leq: "lt x y \<Longrightarrow> leq x y"
  using lt_asym by (auto simp: leq_def)

lemma sel_best_min:
  assumes "i < length a"
  shows "i \<le> sel_best lt a i \<and> sel_best lt a i < length a \<and>
    (\<forall>k. i \<le> k \<and> k < length a \<longrightarrow> leq (a ! sel_best lt a i) (a ! k))"
proof -
  define st where
    "st js = foldl (\<lambda>best_i j. if lt (a ! j) (a ! best_i) then j else best_i) i js" for js
  have "n \<le> length a \<Longrightarrow> i \<le> st [Suc i..<n] \<and> st [Suc i..<n] < length a \<and>
    (\<forall>k. i \<le> k \<and> k < n \<longrightarrow> leq (a ! st [Suc i..<n]) (a ! k))" if "Suc i \<le> n" for n
    using that
  proof (induction n rule: dec_induct)
    case base
    then show ?case using assms by (auto simp: st_def less_Suc_eq_le dest: le_antisym)
  next
    case (step n)
    then have IH: "i \<le> st [Suc i..<n]" "st [Suc i..<n] < length a"
      "\<forall>k. i \<le> k \<and> k < n \<longrightarrow> leq (a ! st [Suc i..<n]) (a ! k)" by auto
    have eq: "st [Suc i..<Suc n] =
        (if lt (a ! n) (a ! st [Suc i..<n]) then n else st [Suc i..<n])"
      using step.hyps by (simp add: st_def)
    show ?case
    proof (cases "lt (a ! n) (a ! st [Suc i..<n])")
      case True
      then have "leq (a ! n) (a ! st [Suc i..<n])" by (rule lt_leq)
      with IH True eq step show ?thesis
        by (auto simp: less_Suc_eq intro: leq_trans)
    next
      case False
      with IH eq step show ?thesis by (auto simp: less_Suc_eq leq_def)
    qed
  qed
  from this [of "length a"] assms show ?thesis
    by (simp add: sel_best_def st_def)
qed

lemma selectionSort_prefix:
  assumes "n \<le> length a - 1"
  defines "b \<equiv> foldl (\<lambda>a i. swap_at i (sel_best lt a i) a) a [0..<n]"
  shows "mset b = mset a \<and> length b = length a \<and>
    (\<forall>p q. p < n \<and> p < q \<and> q < length a \<longrightarrow> leq (b ! p) (b ! q))"
  using assms(1) unfolding b_def
proof (induction n)
  case (Suc n)
  define c where "c = foldl (\<lambda>a i. swap_at i (sel_best lt a i) a) a [0..<n]"
  define m where "m = sel_best lt c n"
  from Suc have IH: "mset c = mset a" "length c = length a"
    "\<And>p q. p < n \<Longrightarrow> p < q \<Longrightarrow> q < length a \<Longrightarrow> leq (c ! p) (c ! q)"
    by (auto simp: c_def)
  have n: "n < length c" using Suc.prems IH by simp
  then have m: "n \<le> m" "m < length c" "\<And>k. n \<le> k \<Longrightarrow> k < length c \<Longrightarrow> leq (c ! m) (c ! k)"
    using sel_best_min [OF n] by (auto simp: m_def)
  have "leq (swap_at n m c ! p) (swap_at n m c ! q)" if "p < Suc n" "p < q" "q < length a" for p q
    using that n m IH(2) IH(3) [of p] by (auto simp: nth_swap_at less_Suc_eq)
  then show ?case
    using n m IH by (auto simp: c_def [symmetric] m_def [symmetric])
qed simp

lemma selectionSort_sorted:
  "mset (selectionSort lt a) = mset a \<and> sorted_wrt leq (selectionSort lt a)"
proof -
  have "p < length a - 1" if "p < q" "q < length a" for p q using that by simp
  then show ?thesis
    using selectionSort_prefix [of "length a - 1" a]
    by (auto simp: selectionSort_def sorted_wrt_iff_nth_less)
qed

lemma partition_loop_correct:
  assumes "i \<le> j" "j \<le> length a"
    and "\<And>k. k < i \<Longrightarrow> leq (a ! k) p"
    and "\<And>k. j \<le> k \<Longrightarrow> k < length a \<Longrightarrow> leq p (a ! k)"
    and up: "\<exists>k \<ge> i. k < length a \<and> \<not> lt (a ! k) p"
    and down: "\<exists>k < j. (0 < i \<or> 0 < k) \<and> \<not> lt p (a ! k)"
  shows "\<exists>i' b. partition_loop lt p a i j = Some (i', b) \<and> mset b = mset a \<and>
    0 < i' \<and> i' < length a \<and> (\<forall>k < i'. leq (b ! k) p) \<and>
    (\<forall>k. i' \<le> k \<and> k < length a \<longrightarrow> leq p (b ! k))"
  using assms
proof (induction j arbitrary: i a rule: less_induct)
  case (less j)
  obtain i' where i': "scan_up lt p a i = Some i'"
    using less.prems(5) scan_up_returns [of i _ a lt p] by blast
  obtain k0 where k0: "k0 < j" "0 < i \<or> 0 < k0" "\<not> lt p (a ! k0)"
    using less.prems(6) by blast
  obtain j' where j': "scan_down lt p a j = Some j'" "k0 \<le> j'"
    using scan_down_returns [of k0 j lt p a] k0 by blast
  note I = scan_up_Some [OF i'] and J = scan_down_Some [OF j'(1)]
  have low: "leq (a ! k) p" if "k < i'" for k
    using less.prems(3) [of k] I that lt_leq by (cases "k < i") auto
  have high: "leq p (a ! k)" if "j' < k" "k < length a" for k
    using less.prems(4) [of k] J that lt_leq by (cases "k < j") auto
  have ends: "leq p (a ! i')" "leq (a ! j') p"
    using I J by (auto simp: leq_def)
  show ?case
  proof (cases "i' \<ge> j'")
    case True
    have "0 < i'" using k0 j'(2) I True by auto
    moreover have "leq p (a ! k)" if "i' \<le> k" "k < length a" for k
      using that high [of k] ends True by (cases "k = i'") auto
    ultimately show ?thesis
      using True i' j' I low by (subst partition_loop.simps) auto
  next
    case False
    let ?a = "swap_at i' j' a"
    have j'len: "j' < length a" using J less.prems(2) by simp
    have "\<exists>m b. partition_loop lt p ?a (Suc i') j' = Some (m, b) \<and> mset b = mset ?a \<and>
      0 < m \<and> m < length ?a \<and> (\<forall>k < m. leq (b ! k) p) \<and>
      (\<forall>k. m \<le> k \<and> k < length ?a \<longrightarrow> leq p (b ! k))"
    proof (rule less.IH)
      show "j' < j" "Suc i' \<le> j'" "j' \<le> length ?a"
        using J False j'len by auto
      show "leq (?a ! k) p" if "k < Suc i'" for k
        using that low ends False I j'len by (auto simp: nth_swap_at less_Suc_eq)
      show "leq p (?a ! k)" if "j' \<le> k" "k < length ?a" for k
        using that high ends False I j'len by (auto simp: nth_swap_at)
      show "\<exists>k \<ge> Suc i'. k < length ?a \<and> \<not> lt (?a ! k) p"
        using False I j'len by (intro exI [of _ j']) (auto simp: nth_swap_at)
      show "\<exists>k < j'. (0 < Suc i' \<or> 0 < k) \<and> \<not> lt p (?a ! k)"
        using False I J j'len by (intro exI [of _ i']) (auto simp: nth_swap_at)
    qed
    then show ?thesis
      using False i' j' I j'len by (subst partition_loop.simps) auto
  qed
qed

lemma sort_array_sorted:
  "\<exists>b. sort_array lt a = Some b \<and> mset b = mset a \<and> sorted_wrt leq b"
proof (induction "length a" arbitrary: a rule: less_induct)
  case less
  show ?case
  proof (cases "length a \<le> 15")
    case True
    then show ?thesis
      using selectionSort_sorted [of a] by (simp add: sort_array.simps)
  next
    case False
    let ?m = "length a div 2" and ?p = "a ! (length a div 2)"
    have "\<not> lt ?p ?p" using lt_asym by blast
    moreover have "0 < ?m" "?m < length a" using False by auto
    ultimately have mid: "\<exists>k \<ge> 0. k < length a \<and> \<not> lt (a ! k) ?p"
      "\<exists>k < length a. (0 < (0 :: nat) \<or> 0 < k) \<and> \<not> lt ?p (a ! k)" by auto
    obtain i b where part: "partition_loop lt ?p a 0 (length a) = Some (i, b)"
      and b: "mset b = mset a" "0 < i" "i < length a" "\<forall>k < i. leq (b ! k) ?p"
        "\<forall>k. i \<le> k \<and> k < length a \<longrightarrow> leq ?p (b ! k)"
      using partition_loop_correct [of 0 "length a" a ?p] mid by auto
    have len: "length b = length a" using b(1) by (metis size_mset)
    have shorter: "length (take i b) < length a" "length (drop i b) < length a"
      using b(2,3) len by auto
    obtain l where l: "sort_array lt (take i b) = Some l" "mset l = mset (take i b)"
      "sorted_wrt leq l"
      using less [OF shorter(1)] by auto
    obtain r where r: "sort_array lt (drop i b) = Some r" "mset r = mset (drop i b)"
      "sorted_wrt leq r"
      using less [OF shorter(2)] by auto
    have "leq x y" if "x \<in> set l" "y \<in> set r" for x y
    proof -
      have "x \<in> set (take i b)" "y \<in> set (drop i b)"
        using that l(2) r(2) by (metis set_mset_mset)+
      then have "leq x ?p" "leq ?p y"
        using b(4,5) len by (auto simp: in_set_conv_nth)
      then show ?thesis by (rule leq_trans)
    qed
    moreover have "mset (l @ r) = mset a"
      using l(2) r(2) b(1) by (metis append_take_drop_id mset_append)
    ultimately show ?thesis
      using False part l r by (subst sort_array.simps) (auto simp: sorted_wrt_append)
  qed
qed

end

interpretation default_lt: strict_weak_order "(<) :: 'a::linorder \<Rightarrow> 'a \<Rightarrow> bool"
  by unfold_locales auto

lemma sort_vec_eq [simp]: "sort_vec (xs :: 'a::linorder list) = Some (sort xs)"
proof -
  obtain b where b: "sort_vec xs = Some b" "mset b = mset xs"
    "sorted_wrt (default_lt.leq :: 'a \<Rightarrow> 'a \<Rightarrow> bool) b"
    using default_lt.sort_array_sorted [of xs] by (auto simp: sort_vec_def)
  have "default_lt.leq = ((\<le>) :: 'a \<Rightarrow> 'a \<Rightarrow> bool)"
    by (auto simp: default_lt.leq_def fun_eq_iff not_less)
  with b show ?thesis
    by (simp add: properties_for_sort)
qed

text \<open>C38: Sorting a vector with the default comparator always returns (no scan of the partition leaves
  the array and the recursion ends), and the result is the sorted permutation of the input.\<close>

theorem sort_array_correct:
  "\<exists>b. sort_array (<) (a :: Lit list) = Some b \<and> mset b = mset a \<and> sorted b"
  using sort_vec_eq [of a] unfolding sort_vec_def by simp

end
