(* ===== verification/Sat_Interface.thy ===== *)
theory Sat_Interface
  imports Solver_Types
begin

text \<open>
  The contract between \<open>Circuit<Solver>\<close> of \<open>api/Circuit.h\<close> and the solver class it is instantiated with:
  what \<open>newVar\<close> and \<open>addClause\<close> promise, and what a client can build from them.

  A state \<open>s\<close> has live literals \<open>liv s\<close> and models \<open>mods s\<close>. The relation \<open>sat_ext wfs liv mods s \<phi> s'\<close> says
  that \<open>s'\<close> was reached from \<open>s\<close> by operations whose only effect on the old literals is the constraint \<open>\<phi>\<close>:
  every model of \<open>s'\<close> is a model of \<open>s\<close> with \<open>\<phi>\<close>, and every model of \<open>s\<close> with \<open>\<phi>\<close> can be extended, without a
  change to the literals that were live in \<open>s\<close>, to a model of \<open>s'\<close>. A gate is an extension with the
  constraint \<open>True\<close>; an assertion is one with the asserted formula.
\<close>

definition agree :: "('s \<Rightarrow> Lit \<Rightarrow> bool) \<Rightarrow> 's \<Rightarrow> assignment \<Rightarrow> assignment \<Rightarrow> bool" where
  "agree liv s \<sigma> \<tau> \<longleftrightarrow> (\<forall>l. liv s l \<longrightarrow> lit_holds \<tau> l = lit_holds \<sigma> l)"

definition local_to :: "('s \<Rightarrow> Lit \<Rightarrow> bool) \<Rightarrow> 's \<Rightarrow> (assignment \<Rightarrow> bool) \<Rightarrow> bool" where
  "local_to liv s \<phi> \<longleftrightarrow> (\<forall>\<sigma> \<tau>. agree liv s \<sigma> \<tau> \<longrightarrow> \<phi> \<tau> = \<phi> \<sigma>)"

definition sat_ext ::
  "('s \<Rightarrow> bool) \<Rightarrow> ('s \<Rightarrow> Lit \<Rightarrow> bool) \<Rightarrow> ('s \<Rightarrow> assignment set) \<Rightarrow> 's \<Rightarrow> (assignment \<Rightarrow> bool) \<Rightarrow> 's \<Rightarrow> bool"
  where
  "sat_ext wfs liv mods s \<phi> s' \<longleftrightarrow> wfs s' \<and> (\<forall>l. liv s l \<longrightarrow> liv s' l) \<and>
     (\<forall>\<sigma> \<in> mods s'. \<sigma> \<in> mods s \<and> \<phi> \<sigma>) \<and>
     (\<forall>\<sigma> \<in> mods s. \<phi> \<sigma> \<longrightarrow> (\<exists>\<tau> \<in> mods s'. agree liv s \<sigma> \<tau>))"

lemma agree_trans:
  "agree liv s \<sigma> \<tau> \<Longrightarrow> agree liv s' \<tau> \<upsilon> \<Longrightarrow> (\<forall>l. liv s l \<longrightarrow> liv s' l) \<Longrightarrow> agree liv s \<sigma> \<upsilon>"
  by (simp add: agree_def)

lemma local_to_lit [intro]: "liv s l \<Longrightarrow> local_to liv s (\<lambda>\<sigma>. lit_holds \<sigma> l)"
  by (simp add: local_to_def agree_def)

lemma local_to_const [intro, simp]: "local_to liv s (\<lambda>_. b)"
  by (simp add: local_to_def)

lemma local_to_Not [intro]: "local_to liv s \<phi> \<Longrightarrow> local_to liv s (\<lambda>\<sigma>. \<not> \<phi> \<sigma>)"
  by (simp add: local_to_def)

lemma local_to_conj [intro]:
  "local_to liv s \<phi> \<Longrightarrow> local_to liv s \<psi> \<Longrightarrow> local_to liv s (\<lambda>\<sigma>. \<phi> \<sigma> \<and> \<psi> \<sigma>)"
  by (simp add: local_to_def)

lemma local_to_disj [intro]:
  "local_to liv s \<phi> \<Longrightarrow> local_to liv s \<psi> \<Longrightarrow> local_to liv s (\<lambda>\<sigma>. \<phi> \<sigma> \<or> \<psi> \<sigma>)"
  by (simp add: local_to_def)

lemma local_to_imp [intro]:
  "local_to liv s \<phi> \<Longrightarrow> local_to liv s \<psi> \<Longrightarrow> local_to liv s (\<lambda>\<sigma>. \<phi> \<sigma> \<longrightarrow> \<psi> \<sigma>)"
  by (simp add: local_to_def)

lemma local_to_eq [intro]:
  "local_to liv s \<phi> \<Longrightarrow> local_to liv s \<psi> \<Longrightarrow> local_to liv s (\<lambda>\<sigma>. \<phi> \<sigma> = \<psi> \<sigma>)"
  by (simp add: local_to_def)

lemma local_to_mono:
  "local_to liv s \<phi> \<Longrightarrow> (\<forall>l. liv s l \<longrightarrow> liv s' l) \<Longrightarrow> local_to liv s' \<phi>"
  by (auto simp: local_to_def agree_def)

lemma local_to_clause: "list_all (liv s) ps \<Longrightarrow> local_to liv s (\<lambda>\<sigma>. clause_holds \<sigma> ps)"
  by (auto simp: local_to_def agree_def clause_holds_def list_all_iff)

locale sat_interface =
  fixes wfs :: "'s \<Rightarrow> bool"
    and liv :: "'s \<Rightarrow> Lit \<Rightarrow> bool"
    and mods :: "'s \<Rightarrow> assignment set"
    and fresh :: "bool \<Rightarrow> 's \<Rightarrow> int \<times> 's"
    and add :: "Lit list \<Rightarrow> 's \<Rightarrow> 's option"
  assumes fresh_law: "wfs s \<Longrightarrow> fresh d s = (v, s') \<Longrightarrow>
      wfs s' \<and> mods s' = mods s \<and> 0 \<le> v \<and> (\<forall>l. liv s' l \<longleftrightarrow> liv s l \<or> var l = v) \<and>
      (\<forall>l. liv s l \<longrightarrow> var l \<noteq> v)"
    and add_law: "wfs s \<Longrightarrow> list_all (liv s) ps \<Longrightarrow>
      \<exists>s'. add ps s = Some s' \<and> wfs s' \<and> liv s' = liv s \<and> mods s' = mods s \<inter> {\<sigma>. clause_holds \<sigma> ps}"
    and mods_local: "wfs s \<Longrightarrow> local_to liv s (\<lambda>\<sigma>. \<sigma> \<in> mods s)"
begin

lemma ext_refl: "wfs s \<Longrightarrow> sat_ext wfs liv mods s (\<lambda>_. True) s"
  by (auto simp: sat_ext_def agree_def)

lemma ext_trans:
  assumes "sat_ext wfs liv mods s \<phi> s1" "sat_ext wfs liv mods s1 \<psi> s2" "local_to liv s \<psi>"
  shows "sat_ext wfs liv mods s (\<lambda>\<sigma>. \<phi> \<sigma> \<and> \<psi> \<sigma>) s2"
proof -
  have "\<exists>\<tau> \<in> mods s2. agree liv s \<sigma> \<tau>" if "\<sigma> \<in> mods s" "\<phi> \<sigma>" "\<psi> \<sigma>" for \<sigma>
  proof -
    obtain \<sigma>1 where 1: "\<sigma>1 \<in> mods s1" "agree liv s \<sigma> \<sigma>1"
      using assms(1) \<open>\<sigma> \<in> mods s\<close> \<open>\<phi> \<sigma>\<close> by (auto simp: sat_ext_def)
    then have "\<psi> \<sigma>1" using assms(3) \<open>\<psi> \<sigma>\<close> by (auto simp: local_to_def)
    then obtain \<sigma>2 where "\<sigma>2 \<in> mods s2" "agree liv s1 \<sigma>1 \<sigma>2"
      using assms(2) 1 by (auto simp: sat_ext_def)
    then show ?thesis
      using 1 assms(1) agree_trans [of liv s \<sigma> \<sigma>1 s1 \<sigma>2] by (auto simp: sat_ext_def)
  qed
  then show ?thesis using assms(1,2) by (auto simp: sat_ext_def)
qed

lemma ext_cong:
  "sat_ext wfs liv mods s \<phi> s' \<Longrightarrow> (\<And>\<sigma>. \<sigma> \<in> mods s \<Longrightarrow> \<phi> \<sigma> = \<psi> \<sigma>) \<Longrightarrow> sat_ext wfs liv mods s \<psi> s'"
  by (auto simp: sat_ext_def)

lemma ext_add:
  assumes "wfs s" "list_all (liv s) ps"
  shows "\<exists>s'. add ps s = Some s' \<and> sat_ext wfs liv mods s (\<lambda>\<sigma>. clause_holds \<sigma> ps) s' \<and> liv s' = liv s"
proof -
  obtain s' where "add ps s = Some s'" "wfs s'" "liv s' = liv s"
    "mods s' = mods s \<inter> {\<sigma>. clause_holds \<sigma> ps}"
    using add_law [OF assms] by blast
  then show ?thesis by (auto simp: sat_ext_def agree_def)
qed

lemma ext_fresh:
  assumes "wfs s" "fresh d s = (v, s')"
  shows "sat_ext wfs liv mods s (\<lambda>_. True) s' \<and> liv s' (mkLit v b)"
  using fresh_law [OF assms] by (auto simp: sat_ext_def agree_def lit_simps)

text \<open>
  A definitional extension: constraints on a fresh variable that, for every model, some value of the
  variable satisfies.
\<close>

lemma ext_define:
  assumes "wfs s" "fresh d s = (v, s1)" and ext: "sat_ext wfs liv mods s1 \<phi> s2"
    and sol: "\<And>\<sigma>. \<sigma> \<in> mods s \<Longrightarrow> \<exists>b. \<phi> (\<sigma>(v := b))"
  shows "sat_ext wfs liv mods s (\<lambda>_. True) s2"
proof -
  note f = fresh_law [OF assms(1,2)]
  have "\<exists>\<tau> \<in> mods s2. agree liv s \<sigma> \<tau>" if \<sigma>: "\<sigma> \<in> mods s" for \<sigma>
  proof -
    obtain b where b: "\<phi> (\<sigma>(v := b))" using sol \<sigma> by blast
    have ag: "agree liv s \<sigma> (\<sigma>(v := b))" using f by (auto simp: agree_def lit_holds_def)
    then have "\<sigma>(v := b) \<in> mods s1"
      using mods_local [OF assms(1)] \<sigma> f by (auto simp: local_to_def)
    then obtain \<tau> where "\<tau> \<in> mods s2" "agree liv s1 (\<sigma>(v := b)) \<tau>"
      using ext b by (auto simp: sat_ext_def)
    then show ?thesis using ag f agree_trans [of liv s \<sigma> _ s1 \<tau>] by blast
  qed
  then show ?thesis using ext f by (auto simp: sat_ext_def)
qed

end

end
