(* ===== verification/Solver_Core.thy ===== *)
theory Solver_Core
  imports Vec_Sort Sat_Interface
begin

text \<open>
  The clause database, the trail and unit propagation of \<open>core/Solver.cc\<close>: \<open>newVar\<close>, \<open>value\<close>, \<open>level\<close>,
  \<open>attachClause\<close>, \<open>uncheckedEnqueue\<close>, \<open>cancelUntil\<close>, \<open>propagate\<close> with two watched literals, \<open>addClause_\<close>,
  \<open>addClause\<close> and \<open>True\<close>.

  The model is a solver to which no theory solver is attached, so that the loops over \<open>theories\<close>, over
  the theory variables of a literal and over the theory queues have no iterations. Heuristic state
  (activities, phases, the order heap, priorities, statistics) is left out: no modelled operation
  reads it. A clause reference is the position of the clause in the list \<open>ca\<close>; \<open>None\<close> stands for
  \<open>CRef_Undef\<close>. Clauses are never detached by the modelled operations, so \<open>watches.cleanAll()\<close> has
  nothing to clean; \<open>db S\<close> are the references of all attached clauses, those of the problem and the
  learnt ones.

  \<open>models S\<close> is what a state means: the assignments that satisfy every clause and every literal fixed
  at level 0, none if \<open>ok\<close> is false. The invariant \<open>wf_solver\<close> ties trail, assignment, levels and watch
  lists together; every operation keeps it, propagation at every decision level, and \<open>addClause\<close> intersects the models with those of the
  clause.
\<close>

subsection \<open>State\<close>

datatype Watcher = Watcher (cref: nat) (blocker: Lit)

record VarData =
  vd_reason :: "nat option"
  vd_level :: nat

record Solver =
  ok :: bool
  assigns :: "lbool list"
  vardata :: "VarData list"
  decision :: "bool list"
  free_vars :: "int list"
  trail :: "Lit list"
  trail_lim :: "nat list"
  qhead :: nat
  ca :: "Clause list"
  clauses :: "nat list"
  learnts :: "nat list"
  watches :: "Watcher list list"
  const_true :: Lit

definition init_solver :: Solver where
  "init_solver = \<lparr>ok = True, assigns = [], vardata = [], decision = [], free_vars = [], trail = [],
     trail_lim = [], qhead = 0, ca = [], clauses = [], learnts = [], watches = [], const_true = lit_Undef\<rparr>"

abbreviation nVars :: "Solver \<Rightarrow> nat" where
  "nVars S \<equiv> length (assigns S)"

abbreviation decisionLevel :: "Solver \<Rightarrow> nat" where
  "decisionLevel S \<equiv> length (trail_lim S)"

definition db :: "Solver \<Rightarrow> nat list" where
  "db S = clauses S @ learnts S"

abbreviation clause_of :: "Solver \<Rightarrow> nat \<Rightarrow> Lit list" where
  "clause_of S cr \<equiv> lits (ca S ! cr)"

definition in_range :: "Solver \<Rightarrow> Lit \<Rightarrow> bool" where
  "in_range S l \<longleftrightarrow> 0 \<le> var l \<and> var l < int (nVars S)"

text \<open>
  \<open>value\<close> and \<open>level\<close> of a literal. Reading the vectors at a variable that does not exist is undefined
  behaviour in C++; the model answers \<open>l_Undef\<close> there, and the operations that would use such a
  literal (\<open>addClause\<close>) are undefined.
\<close>

definition lit_value :: "Solver \<Rightarrow> Lit \<Rightarrow> lbool" where
  "lit_value S p =
     (if in_range S p then lbool_xor (assigns S ! nat (var p)) (sign p) else l_Undef)"

definition level :: "Solver \<Rightarrow> int \<Rightarrow> nat" where
  "level S x = vd_level (vardata S ! nat x)"

subsection \<open>Operations\<close>

definition newVar :: "bool \<Rightarrow> Solver \<Rightarrow> int \<times> Solver" where
  "newVar dvar S =
     (let (v, S1) =
        (if free_vars S \<noteq> [] then (last (free_vars S), S\<lparr>free_vars := butlast (free_vars S)\<rparr>)
         else (int (nVars S),
               S\<lparr>assigns := assigns S @ [l_Undef],
                 vardata := vardata S @ [\<lparr>vd_reason = None, vd_level = 0\<rparr>],
                 decision := decision S @ [False]\<rparr>));
        w = vec_grow (nat (toInt (mkLit v True)) + 1) [] (watches S1)
      in (v, S1\<lparr>watches := w[nat (toInt (mkLit v False)) := [], nat (toInt (mkLit v True)) := []],
                assigns := (assigns S1)[nat v := l_Undef],
                vardata := (vardata S1)[nat v := \<lparr>vd_reason = None, vd_level = 0\<rparr>],
                decision := (decision S1)[nat v := dvar]\<rparr>))"

definition push_watch :: "Lit \<Rightarrow> Watcher \<Rightarrow> Solver \<Rightarrow> Solver" where
  "push_watch p w S =
     S\<lparr>watches := (watches S)[nat (toInt p) := watches S ! nat (toInt p) @ [w]]\<rparr>"

definition attachClause :: "nat \<Rightarrow> Solver \<Rightarrow> Solver" where
  "attachClause cr S =
     (let c = clause_of S cr
      in push_watch (neg (c ! 1)) (Watcher cr (c ! 0))
           (push_watch (neg (c ! 0)) (Watcher cr (c ! 1)) S))"

definition satisfied :: "Solver \<Rightarrow> Lit list \<Rightarrow> bool" where
  "satisfied S c \<longleftrightarrow> list_ex (\<lambda>l. lbool_eq (lit_value S l) l_True) c"

definition uncheckedEnqueue :: "Lit \<Rightarrow> nat option \<Rightarrow> Solver \<Rightarrow> Solver" where
  "uncheckedEnqueue p from S =
     S\<lparr>assigns := (assigns S)[nat (var p) := lbool_of (\<not> sign p)],
       vardata := (vardata S)[nat (var p) := \<lparr>vd_reason = from, vd_level = decisionLevel S\<rparr>],
       trail := trail S @ [p]\<rparr>"

definition enqueue :: "Lit \<Rightarrow> nat option \<Rightarrow> Solver \<Rightarrow> bool \<times> Solver" where
  "enqueue p from S =
     (if \<not> lbool_eq (lit_value S p) l_Undef then (\<not> lbool_eq (lit_value S p) l_False, S)
      else (True, uncheckedEnqueue p from S))"

definition newDecisionLevel :: "Solver \<Rightarrow> Solver" where
  "newDecisionLevel S = S\<lparr>trail_lim := trail_lim S @ [length (trail S)]\<rparr>"

definition cancelUntil :: "nat \<Rightarrow> Solver \<Rightarrow> Solver" where
  "cancelUntil lev S =
     (if decisionLevel S > lev then
        let lim = trail_lim S ! lev;
            undone = filter (\<lambda>l. \<not> level S (var l) \<le> lev) (drop lim (trail S));
            to_reenqueue = filter (\<lambda>l. level S (var l) \<le> lev) (drop lim (trail S))
        in S\<lparr>assigns := foldl (\<lambda>a l. a[nat (var l) := l_Undef]) (assigns S) undone,
             qhead := lim,
             trail := take lim (trail S) @ to_reenqueue,
             trail_lim := take lev (trail_lim S)\<rparr>
      else S)"

text \<open>
  The loop over the watch list of \<open>p\<close> inside \<open>propagate\<close>. The first list holds the watchers from \<open>i\<close> on,
  the second those already copied to the positions below \<open>j\<close>; the result has the watchers that remain in
  the list of \<open>p\<close> and the conflicting clause, if any.
\<close>

fun find_watch :: "Solver \<Rightarrow> Lit list \<Rightarrow> nat list \<Rightarrow> nat option" where
  "find_watch S c [] = None"
| "find_watch S c (k # ks) =
     (if \<not> lbool_eq (lit_value S (c ! k)) l_False then Some k else find_watch S c ks)"

definition set_lits :: "nat \<Rightarrow> Lit list \<Rightarrow> Solver \<Rightarrow> Solver" where
  "set_lits cr c S = S\<lparr>ca := (ca S)[cr := (ca S ! cr)\<lparr>lits := c\<rparr>]\<rparr>"

fun propagate_watches ::
  "Lit \<Rightarrow> Watcher list \<Rightarrow> Watcher list \<Rightarrow> Solver \<Rightarrow> Watcher list \<times> Solver \<times> nat option" where
  "propagate_watches p [] js S = (js, S, None)"
| "propagate_watches p (w # is) js S =
     (if lbool_eq (lit_value S (blocker w)) l_True then propagate_watches p is (js @ [w]) S
      else
        let cr = cref w;
            c0 = clause_of S cr;
            false_lit = neg p;
            c = (if c0 ! 0 = false_lit then c0[0 := c0 ! 1, 1 := false_lit] else c0);
            S1 = set_lits cr c S;
            first = c ! 0;
            w' = Watcher cr first
        in if first \<noteq> blocker w \<and> lbool_eq (lit_value S1 first) l_True
           then propagate_watches p is (js @ [w']) S1
           else (case find_watch S1 c [2..<length c] of
                   Some k \<Rightarrow>
                     let c' = c[1 := c ! k, k := false_lit]
                     in propagate_watches p is js
                          (push_watch (neg (c' ! 1)) w' (set_lits cr c' S1))
                 | None \<Rightarrow>
                     if lbool_eq (lit_value S1 first) l_False
                     then (js @ [w'] @ is, S1\<lparr>qhead := length (trail S1)\<rparr>, Some cr)
                     else propagate_watches p is (js @ [w'])
                            (uncheckedEnqueue first (Some cr) S1)))"

definition set_watches :: "Lit \<Rightarrow> Watcher list \<Rightarrow> Solver \<Rightarrow> Solver" where
  "set_watches p ws S = S\<lparr>watches := (watches S)[nat (toInt p) := ws]\<rparr>"

partial_function (option) propagate_loop ::
  "nat option \<Rightarrow> Solver \<Rightarrow> (nat option \<times> Solver) option" where
  [code]: "propagate_loop confl S =
     (if qhead S < length (trail S) then
        let p = trail S ! qhead S;
            S1 = S\<lparr>qhead := Suc (qhead S)\<rparr>;
            r = propagate_watches p (watches S1 ! nat (toInt p)) [] S1;
            S2 = set_watches p (fst r) (fst (snd r))
        in propagate_loop (case snd (snd r) of None \<Rightarrow> confl | Some cr \<Rightarrow> Some cr) S2
      else Some (confl, S))"

definition propagate :: "Solver \<Rightarrow> (nat option \<times> Solver) option" where
  "propagate S = propagate_loop None S"

text \<open>
  The loop of \<open>addClause_\<close> over the sorted literals: \<open>None\<close> is the early return (a true literal or a
  complementary pair), otherwise the literals that are kept.
\<close>

fun simplify_clause :: "Solver \<Rightarrow> Lit \<Rightarrow> Lit list \<Rightarrow> Lit list option" where
  "simplify_clause S p [] = Some []"
| "simplify_clause S p (l # ls) =
     (if lbool_eq (lit_value S l) l_True \<or> l = neg p then None
      else if \<not> lbool_eq (lit_value S l) l_False \<and> l \<noteq> p
      then map_option ((#) l) (simplify_clause S l ls)
      else simplify_clause S p ls)"

definition alloc_clause :: "Lit list \<Rightarrow> Solver \<Rightarrow> nat \<times> Solver" where
  "alloc_clause ps S = (length (ca S), S\<lparr>ca := ca S @ [mkClause ps False False]\<rparr>)"

definition addClause_impl :: "Lit list \<Rightarrow> Solver \<Rightarrow> (bool \<times> Solver) option" where
  "addClause_impl ps S =
     (if \<not> ok S then Some (False, S)
      else if \<not> list_all (in_range S) ps then None
      else do {
        sorted_ps \<leftarrow> sort_vec ps;
        case simplify_clause S lit_Undef sorted_ps of
          None \<Rightarrow> Some (True, S)
        | Some [] \<Rightarrow> Some (False, S\<lparr>ok := False\<rparr>)
        | Some [l] \<Rightarrow> do {
            (confl, S') \<leftarrow> propagate (uncheckedEnqueue l None S);
            Some (confl = None, S'\<lparr>ok := (confl = None)\<rparr>)
          }
        | Some ls \<Rightarrow>
            (let (cr, S1) = alloc_clause ls S
             in Some (True, attachClause cr (S1\<lparr>clauses := clauses S1 @ [cr]\<rparr>)))
      })"

definition addClause :: "Lit list \<Rightarrow> Solver \<Rightarrow> Solver option" where
  "addClause ps S = map_option snd (addClause_impl ps (cancelUntil 0 S))"

text \<open>\<open>Solver::True()\<close>: the constant, created and asserted on first use.\<close>

definition solver_True :: "Solver \<Rightarrow> (Lit \<times> Solver) option" where
  "solver_True S =
     (if const_true S = lit_Undef then
        let (v, S1) = newVar False (cancelUntil 0 S);
            t = mkLit v False;
            S2 = S1\<lparr>const_true := t\<rparr>
        in if ok S2 then do { S3 \<leftarrow> addClause [t] S2; Some (t, S3) } else Some (t, S2)
      else Some (const_true S, S))"

subsection \<open>Invariant and meaning\<close>

definition wf_vars :: "Solver \<Rightarrow> bool" where
  "wf_vars S \<longleftrightarrow> length (vardata S) = nVars S \<and> length (decision S) = nVars S \<and>
     length (watches S) = 2 * nVars S \<and> (\<forall>a \<in> set (assigns S). wf_lbool a)"

definition wf_trail :: "Solver \<Rightarrow> bool" where
  "wf_trail S \<longleftrightarrow> (\<forall>l \<in> set (trail S). in_range S l) \<and> distinct (map var (trail S)) \<and>
     qhead S \<le> length (trail S) \<and> (\<forall>n \<in> set (trail_lim S). n \<le> length (trail S)) \<and>
     (\<forall>l. in_range S l \<longrightarrow> (tri (lit_value S l) = Some True \<longleftrightarrow> l \<in> set (trail S))) \<and>
     (\<forall>l \<in> set (take (case trail_lim S of [] \<Rightarrow> length (trail S) | n # _ \<Rightarrow> n) (trail S)).
        level S (var l) = 0)"

definition wf_clauses :: "Solver \<Rightarrow> bool" where
  "wf_clauses S \<longleftrightarrow> distinct (db S) \<and>
     (\<forall>cr \<in> set (db S). cr < length (ca S) \<and> 2 \<le> length (clause_of S cr) \<and>
        distinct (clause_of S cr) \<and> (\<forall>l \<in> set (clause_of S cr). in_range S l))"

definition watch_ok :: "Solver \<Rightarrow> Lit \<Rightarrow> Watcher list \<Rightarrow> bool" where
  "watch_ok S p ws \<longleftrightarrow> distinct (map cref ws) \<and>
     cref ` set ws =
       {cr \<in> set (db S). neg p = clause_of S cr ! 0 \<or> neg p = clause_of S cr ! 1}"

definition wf_watches :: "Solver \<Rightarrow> bool" where
  "wf_watches S \<longleftrightarrow> (\<forall>p. in_range S p \<longrightarrow> watch_ok S p (watches S ! nat (toInt p)))"

definition wf_free :: "Solver \<Rightarrow> bool" where
  "wf_free S \<longleftrightarrow> distinct (free_vars S) \<and>
     (\<forall>v \<in> set (free_vars S). 0 \<le> v \<and> v < int (nVars S) \<and> v \<noteq> var (const_true S) \<and>
        v \<notin> var ` set (trail S) \<and> (\<forall>cr \<in> set (db S). v \<notin> var ` set (clause_of S cr)))"

definition fixed_lits :: "Solver \<Rightarrow> Lit set" where
  "fixed_lits S = {l \<in> set (trail S). level S (var l) = 0}"

definition wf_const :: "Solver \<Rightarrow> bool" where
  "wf_const S \<longleftrightarrow> const_true S = lit_Undef \<or>
     in_range S (const_true S) \<and> (ok S \<longrightarrow> const_true S \<in> fixed_lits S)"

definition wf_solver :: "Solver \<Rightarrow> bool" where
  "wf_solver S \<longleftrightarrow> wf_vars S \<and> wf_trail S \<and> wf_clauses S \<and> wf_watches S \<and> wf_free S \<and> wf_const S"

definition models :: "Solver \<Rightarrow> assignment set" where
  "models S = {\<sigma>. ok S \<and> (\<forall>cr \<in> set (db S). clause_holds \<sigma> (clause_of S cr)) \<and>
     (\<forall>l \<in> fixed_lits S. lit_holds \<sigma> l)}"

subsection \<open>Values\<close>

lemma db_simps [simp]:
  "db (S\<lparr>ok := x0\<rparr>) = db S" "db (S\<lparr>assigns := x1\<rparr>) = db S" "db (S\<lparr>vardata := x2\<rparr>) = db S"
  "db (S\<lparr>decision := x3\<rparr>) = db S" "db (S\<lparr>free_vars := x4\<rparr>) = db S" "db (S\<lparr>trail := x5\<rparr>) = db S"
  "db (S\<lparr>trail_lim := x6\<rparr>) = db S" "db (S\<lparr>qhead := x7\<rparr>) = db S" "db (S\<lparr>ca := x8\<rparr>) = db S"
  "db (S\<lparr>watches := x9\<rparr>) = db S" "db (S\<lparr>const_true := x10\<rparr>) = db S"
  by (simp_all add: db_def)

lemma in_range_neg [simp]: "in_range S (neg l) = in_range S l"
  by (simp add: in_range_def)

lemma in_range_valid: "in_range S l \<Longrightarrow> valid_lit l"
  by (simp add: in_range_def valid_lit_var)

lemma in_range_neq [simp]: "in_range S l \<Longrightarrow> l \<noteq> lit_Undef" "\<not> in_range S lit_Undef"
  by (auto simp: in_range_def var_Undef_def)

lemma litx_var_sign: "litx l = 2 * var l + of_bool (sign l)"
  using mkLit_val [of "var l" "sign l"] by simp

lemma watch_index:
  assumes "in_range S p"
  shows "nat (toInt p) < 2 * nVars S"
proof -
  have "litx p < 2 * int (nVars S)" "0 \<le> litx p"
    using assms litx_var_sign [of p] by (auto simp: in_range_def)
  then show ?thesis by (simp add: toInt_def)
qed

lemma watch_index_eq:
  "in_range S p \<Longrightarrow> in_range S q \<Longrightarrow> nat (toInt p) = nat (toInt q) \<longleftrightarrow> p = q"
  using in_range_valid [of S p] in_range_valid [of S q]
  by (auto simp: valid_lit_def toInt_def Lit.expand)

lemma var_index: "in_range S p \<Longrightarrow> nat (var p) < nVars S"
  by (auto simp: in_range_def)

lemma var_index_eq:
  "in_range S p \<Longrightarrow> in_range S q \<Longrightarrow> nat (var p) = nat (var q) \<longleftrightarrow> var p = var q"
  by (auto simp: in_range_def)

lemma wf_lit_value [simp]: "wf_vars S \<Longrightarrow> wf_lbool (lit_value S l)"
  by (auto simp: lit_value_def wf_vars_def in_range_def)

lemma tri_lit_value:
  "wf_vars S \<Longrightarrow> in_range S l \<Longrightarrow>
     tri (lit_value S l) = map_option (\<lambda>b. b \<noteq> sign l) (tri (assigns S ! nat (var l)))"
  using var_index [of S l] by (auto simp: lit_value_def wf_vars_def)

lemma tri_lit_value_neg:
  "wf_vars S \<Longrightarrow> in_range S l \<Longrightarrow> tri (lit_value S (neg l)) = map_option Not (tri (lit_value S l))"
  by (cases "tri (assigns S ! nat (var l))") (auto simp: tri_lit_value)

lemma value_True:
  "wf_vars S \<Longrightarrow> wf_trail S \<Longrightarrow> in_range S l \<Longrightarrow>
     lbool_eq (lit_value S l) l_True \<longleftrightarrow> l \<in> set (trail S)"
  by (simp add: wf_trail_def)

lemma value_False:
  assumes "wf_vars S" "wf_trail S" "in_range S l"
  shows "lbool_eq (lit_value S l) l_False \<longleftrightarrow> neg l \<in> set (trail S)"
proof -
  have "tri (lit_value S (neg l)) = Some True \<longleftrightarrow> neg l \<in> set (trail S)"
    using assms by (simp add: wf_trail_def)
  then show ?thesis
    using assms by (cases "tri (lit_value S l)") (auto simp: tri_lit_value_neg)
qed

lemma value_Undef:
  assumes "wf_vars S" "wf_trail S" "in_range S l"
  shows "lbool_eq (lit_value S l) l_Undef \<longleftrightarrow> l \<notin> set (trail S) \<and> neg l \<notin> set (trail S)"
proof -
  have "lbool_eq (lit_value S l) l_Undef \<longleftrightarrow>
      \<not> lbool_eq (lit_value S l) l_True \<and> \<not> lbool_eq (lit_value S l) l_False"
    using assms by (cases "tri (lit_value S l)") auto
  then show ?thesis
    using assms by (simp only: value_True value_False)
qed

lemma trail_consistent: "wf_trail S \<Longrightarrow> l \<in> set (trail S) \<Longrightarrow> neg l \<notin> set (trail S)"
  unfolding wf_trail_def
  by (metis (no_types, lifting) distinct_map inj_onD neg_neq(1) var_neg)

lemma wf_trail_length: "wf_vars S \<Longrightarrow> wf_trail S \<Longrightarrow> length (trail S) \<le> nVars S"
proof -
  assume wf: "wf_vars S" "wf_trail S"
  have "card (set (map var (trail S))) = length (trail S)"
    using wf by (metis distinct_card length_map wf_trail_def)
  moreover have "set (map var (trail S)) \<subseteq> {0..<int (nVars S)}"
    using wf by (auto simp: wf_trail_def in_range_def)
  then have "card (set (map var (trail S))) \<le> card {0..<int (nVars S)}"
    by (intro card_mono) auto
  ultimately show ?thesis by simp
qed

subsection \<open>Unit propagation\<close>

text \<open>
  The invariant of the loop over the watch list of \<open>p\<close>: the solver is well formed if the list of \<open>p\<close> is
  taken to be \<open>xs\<close> (the watchers kept so far followed by those still to be visited).
\<close>

definition wf_watches_with :: "Lit \<Rightarrow> Watcher list \<Rightarrow> Solver \<Rightarrow> bool" where
  "wf_watches_with p xs S \<longleftrightarrow> (\<forall>q. in_range S q \<longrightarrow>
     watch_ok S q (if q = p then xs else watches S ! nat (toInt q)))"

definition prop_inv :: "Lit \<Rightarrow> Watcher list \<Rightarrow> Solver \<Rightarrow> bool" where
  "prop_inv p xs S \<longleftrightarrow> wf_vars S \<and> wf_trail S \<and> wf_clauses S \<and> wf_watches_with p xs S \<and>
     p \<in> set (trail S)"

text \<open>What a propagation step keeps of the state, and that it changes its meaning for no assignment.\<close>

definition prop_rel :: "Solver \<Rightarrow> Solver \<Rightarrow> bool" where
  "prop_rel S S' \<longleftrightarrow> ok S' = ok S \<and> nVars S' = nVars S \<and> db S' = db S \<and>
     trail_lim S' = trail_lim S \<and> const_true S' = const_true S \<and> free_vars S' = free_vars S \<and>
     (\<forall>cr \<in> set (db S). set (clause_of S' cr) = set (clause_of S cr)) \<and>
     (\<exists>ls. trail S' = trail S @ ls \<and>
        (\<forall>l \<in> set ls. \<exists>cr \<in> set (db S). var l \<in> var ` set (clause_of S cr))) \<and>
     models S' = models S"

lemma prop_rel_refl [simp]: "prop_rel S S"
  by (auto simp: prop_rel_def)

lemma prop_rel_trans: "prop_rel S T \<Longrightarrow> prop_rel T U \<Longrightarrow> prop_rel S U"
  unfolding prop_rel_def by (auto simp: ball_Un) 

lemma wf_watches_with_cong:
  "map cref xs = map cref ys \<Longrightarrow> wf_watches_with p xs S = wf_watches_with p ys S"
proof -
  assume eq: "map cref xs = map cref ys"
  then have "cref ` set xs = cref ` set ys" by (metis set_map)
  with eq show ?thesis unfolding wf_watches_with_def watch_ok_def by auto
qed

lemma prop_inv_cong: "map cref xs = map cref ys \<Longrightarrow> prop_inv p xs S = prop_inv p ys S"
  using wf_watches_with_cong [of xs ys p S] by (simp add: prop_inv_def)

lemma prop_inv_p: "prop_inv p xs S \<Longrightarrow> in_range S p"
  by (auto simp: prop_inv_def wf_trail_def)

lemma set_lits_simps [simp]:
  "ok (set_lits cr c S) = ok S" "assigns (set_lits cr c S) = assigns S"
  "vardata (set_lits cr c S) = vardata S" "decision (set_lits cr c S) = decision S"
  "free_vars (set_lits cr c S) = free_vars S" "trail (set_lits cr c S) = trail S"
  "trail_lim (set_lits cr c S) = trail_lim S" "qhead (set_lits cr c S) = qhead S"
  "db (set_lits cr c S) = db S" "watches (set_lits cr c S) = watches S"
  "const_true (set_lits cr c S) = const_true S" "length (ca (set_lits cr c S)) = length (ca S)"
  by (simp_all add: set_lits_def)

lemma clause_of_set_lits:
  "cr < length (ca S) \<Longrightarrow> clause_of (set_lits cr c S) cr' = (if cr' = cr then c else clause_of S cr')"
  by (auto simp: set_lits_def nth_list_update)

lemma push_watch_simps [simp]:
  "ok (push_watch q w S) = ok S" "assigns (push_watch q w S) = assigns S"
  "vardata (push_watch q w S) = vardata S" "decision (push_watch q w S) = decision S"
  "free_vars (push_watch q w S) = free_vars S" "trail (push_watch q w S) = trail S"
  "trail_lim (push_watch q w S) = trail_lim S" "qhead (push_watch q w S) = qhead S"
  "db (push_watch q w S) = db S" "ca (push_watch q w S) = ca S"
  "const_true (push_watch q w S) = const_true S"
  "length (watches (push_watch q w S)) = length (watches S)"
  by (simp_all add: push_watch_def)

lemma watches_push_watch:
  assumes "in_range S q" "in_range S r" "wf_vars S"
  shows "watches (push_watch q w S) ! nat (toInt r) =
    (if r = q then watches S ! nat (toInt r) @ [w] else watches S ! nat (toInt r))"
  using assms watch_index [of S q] watch_index_eq [of S q r]
  by (auto simp: push_watch_def nth_list_update wf_vars_def)

lemma frame_in_range [simp]:
  "in_range (set_lits cr c S) l = in_range S l" "in_range (push_watch q w S) l = in_range S l"
  "lit_value (set_lits cr c S) l = lit_value S l" "lit_value (push_watch q w S) l = lit_value S l"
  "level (set_lits cr c S) x = level S x" "level (push_watch q w S) x = level S x"
  "fixed_lits (set_lits cr c S) = fixed_lits S" "fixed_lits (push_watch q w S) = fixed_lits S"
  "wf_vars (set_lits cr c S) = wf_vars S" "wf_vars (push_watch q w S) = wf_vars S"
  "wf_trail (set_lits cr c S) = wf_trail S" "wf_trail (push_watch q w S) = wf_trail S"
  by (simp_all add: in_range_def lit_value_def level_def fixed_lits_def wf_vars_def wf_trail_def
      split: list.split)

lemma frame_qhead [simp]:
  "in_range (S\<lparr>qhead := n\<rparr>) = in_range S" "lit_value (S\<lparr>qhead := n\<rparr>) = lit_value S"
  "level (S\<lparr>qhead := n\<rparr>) = level S" "fixed_lits (S\<lparr>qhead := n\<rparr>) = fixed_lits S"
  "wf_vars (S\<lparr>qhead := n\<rparr>) = wf_vars S" "wf_clauses (S\<lparr>qhead := n\<rparr>) = wf_clauses S"
  "watch_ok (S\<lparr>qhead := n\<rparr>) = watch_ok S" "models (S\<lparr>qhead := n\<rparr>) = models S"
  "wf_watches_with p xs (S\<lparr>qhead := n\<rparr>) = wf_watches_with p xs S"
  by (simp_all add: fun_eq_iff in_range_def lit_value_def level_def fixed_lits_def wf_vars_def
      wf_clauses_def watch_ok_def models_def wf_watches_with_def)

lemma prop_inv_qhead:
  "prop_inv p xs S \<Longrightarrow> n \<le> length (trail S) \<Longrightarrow> prop_inv p xs (S\<lparr>qhead := n\<rparr>)"
  by (cases "trail_lim S") (simp_all add: prop_inv_def wf_trail_def)

lemma prop_rel_qhead [simp]: "prop_rel S (T\<lparr>qhead := n\<rparr>) = prop_rel S T"
  by (simp add: prop_rel_def)

lemma models_set_lits:
  assumes "cr < length (ca S)" "set c = set (clause_of S cr)"
  shows "models (set_lits cr c S) = models S"
proof -
  have "clause_holds \<sigma> (clause_of (set_lits cr c S) cr') = clause_holds \<sigma> (clause_of S cr')" for \<sigma> cr'
    using assms by (auto simp: clause_of_set_lits clause_holds_def)
  then show ?thesis by (simp add: models_def)
qed

lemma models_push_watch [simp]: "models (push_watch q w S) = models S"
  by (simp add: models_def)

lemma wf_clauses_set_lits:
  assumes "wf_clauses S" "cr \<in> set (db S)" "set c = set (clause_of S cr)"
    "length c = length (clause_of S cr)"
  shows "wf_clauses (set_lits cr c S)"
proof -
  have "cr < length (ca S)" "distinct c"
    using assms card_distinct [of c] distinct_card [of "clause_of S cr"]
    by (auto simp: wf_clauses_def)
  then show ?thesis
    using assms by (auto simp: wf_clauses_def clause_of_set_lits)
qed

lemma prop_rel_set_lits:
  assumes "wf_clauses S" "cr \<in> set (db S)" "set c = set (clause_of S cr)"
  shows "prop_rel S (set_lits cr c S)"
  using assms models_set_lits [of cr S c]
  by (auto simp: prop_rel_def wf_clauses_def clause_of_set_lits)

text \<open>Exchanging the two watched literals.\<close>

lemma prop_inv_swap:
  assumes inv: "prop_inv p xs S" and cr: "cr \<in> set (db S)"
    and c: "set c = set (clause_of S cr)" "length c = length (clause_of S cr)"
    and w: "{c ! 0, c ! 1} = {clause_of S cr ! 0, clause_of S cr ! 1}"
  shows "prop_inv p xs (set_lits cr c S)"
proof -
  have "cr < length (ca S)" using inv cr by (auto simp: prop_inv_def wf_clauses_def)
  moreover have "x = c ! 0 \<or> x = c ! 1 \<longleftrightarrow> x = clause_of S cr ! 0 \<or> x = clause_of S cr ! 1" for x
    using w by (metis empty_iff insert_iff)
  ultimately have "{cr' \<in> set (db S). neg q = clause_of (set_lits cr c S) cr' ! 0 \<or>
        neg q = clause_of (set_lits cr c S) cr' ! 1} =
      {cr' \<in> set (db S). neg q = clause_of S cr' ! 0 \<or> neg q = clause_of S cr' ! 1}" for q
    by (intro Collect_cong) (auto simp: clause_of_set_lits [OF \<open>cr < length (ca S)\<close>])
  then have "watch_ok (set_lits cr c S) q ws = watch_ok S q ws" for q ws
    by (simp add: watch_ok_def)
  then have "wf_watches_with p xs (set_lits cr c S)"
    using inv by (auto simp: prop_inv_def wf_watches_with_def)
  then show ?thesis
    using inv wf_clauses_set_lits [OF _ cr c] by (auto simp: prop_inv_def)
qed

text \<open>Moving the second watch from \<open>~p\<close> to the literal at position \<open>k\<close>.\<close>

lemma prop_inv_move:
  assumes inv: "prop_inv p (js @ w # is) S" and cr: "cref w \<in> set (db S)"
    and c: "clause_of S (cref w) = c" "c ! 1 = neg p"
    and k: "2 \<le> k" "k < length c" "neg (c ! k) \<notin> set (trail S)"
    and w': "cref w' = cref w"
  defines "c' \<equiv> c[1 := c ! k, k := neg p]"
  shows "prop_inv p (js @ is) (push_watch (neg (c' ! 1)) w' (set_lits (cref w) c' S))"
proof -
  have wf: "wf_vars S" "wf_trail S" "wf_clauses S" "wf_watches_with p (js @ w # is) S"
    "p \<in> set (trail S)" "in_range S p"
    using inv prop_inv_p by (auto simp: prop_inv_def)
  have len: "cref w < length (ca S)" "distinct c" "\<And>l. l \<in> set c \<Longrightarrow> in_range S l"
    using wf(3) cr c by (auto simp: wf_clauses_def)
  have c'1: "c' ! 1 = c ! k" "c' ! 0 = c ! 0" using k by (auto simp: c'_def)
  have sw: "c' = swap_at 1 k c" using c k by (simp add: c'_def swap_at_def)
  have set': "set c' = set c" "length c' = length c"
    using k sw by auto
  have ck: "c ! k \<noteq> c ! 1" "c ! k \<noteq> c ! 0" "c ! 0 \<noteq> c ! 1"
    using k(1,2) len(2) nth_eq_iff_index_eq [of c k 1] nth_eq_iff_index_eq [of c k 0]
      nth_eq_iff_index_eq [of c 0 1] by (auto simp del: One_nat_def length_greater_0_conv)
  have neg_ck: "neg (c ! k) \<noteq> p" using k wf by auto
  have rng: "in_range S (c ! k)" using len(3) k by auto
  let ?S = "push_watch (neg (c' ! 1)) w' (set_lits (cref w) c' S)"
  have old: "distinct (map cref (if q = p then js @ w # is else watches S ! nat (toInt q)))"
    "cref ` set (if q = p then js @ w # is else watches S ! nat (toInt q)) =
       {cr \<in> set (db S). neg q = clause_of S cr ! 0 \<or> neg q = clause_of S cr ! 1}"
    if "in_range S q" for q
    using wf(4) that by (auto simp: wf_watches_with_def watch_ok_def)
  have "wf_watches_with p (js @ is) ?S"
    unfolding wf_watches_with_def
  proof (intro allI impI)
    fix q assume "in_range ?S q"
    then have q: "in_range S q" by simp
    have new: "{cr \<in> set (db ?S). neg q = clause_of ?S cr ! 0 \<or> neg q = clause_of ?S cr ! 1} =
      {cr \<in> set (db S) - {cref w}. neg q = clause_of S cr ! 0 \<or> neg q = clause_of S cr ! 1} \<union>
      (if neg q = c ! 0 \<or> neg q = c ! k then {cref w} else {})"
      using len(1) cr c'1 by (auto simp: clause_of_set_lits)
    consider "q = p" | "q \<noteq> p" "q = neg (c ! k)" | "q \<noteq> p" "q \<noteq> neg (c ! k)" by blast
    then show "watch_ok ?S q (if q = p then js @ is else watches ?S ! nat (toInt q))"
    proof cases
      case 1
      have "neg q \<noteq> c ! 0" "neg q \<noteq> c ! k" using 1 c ck by auto
      moreover have "cref ` set (js @ is) = cref ` set (js @ w # is) - {cref w}"
        using old(1) [OF wf(6)] by (simp add: image_Un)
      moreover have "{cr \<in> set (db S). neg p = clause_of S cr ! 0 \<or> neg p = clause_of S cr ! 1} -
          {cref w} =
        {cr \<in> set (db S) - {cref w}. neg p = clause_of S cr ! 0 \<or> neg p = clause_of S cr ! 1}"
        by blast
      moreover have "distinct (map cref (js @ is))" "cref ` set (js @ w # is) =
        {cr \<in> set (db S). neg p = clause_of S cr ! 0 \<or> neg p = clause_of S cr ! 1}"
        using old [OF wf(6)] by simp_all
      ultimately show ?thesis
        unfolding watch_ok_def new using 1 by (simp only: if_True refl if_False Un_empty_right simp_thms)
    next
      case 2
      have "cref w \<notin> cref ` set (watches S ! nat (toInt q))"
        using old(2) [OF q] 2 c ck neg_ck by auto
      moreover have "watches ?S ! nat (toInt q) = watches S ! nat (toInt q) @ [w']"
        using 2 rng q wf(1) c'1 by (simp add: watches_push_watch)
      ultimately show ?thesis
        unfolding watch_ok_def new using old [OF q] 2 w' by auto
    next
      case 3
      have eqw: "watches ?S ! nat (toInt q) = watches S ! nat (toInt q)"
        using 3 rng q wf(1) c'1 by (simp add: watches_push_watch)
      have "neg q \<noteq> c ! k" "neg q \<noteq> c ! 1" using 3 c by (auto simp: neg_swap)
      then have "{cr \<in> set (db S). neg q = clause_of S cr ! 0 \<or> neg q = clause_of S cr ! 1} =
        {cr \<in> set (db S) - {cref w}. neg q = clause_of S cr ! 0 \<or> neg q = clause_of S cr ! 1} \<union>
        (if neg q = c ! 0 \<or> neg q = c ! k then {cref w} else {})"
        using c cr by auto
      then show ?thesis
        unfolding watch_ok_def new using old [OF q] 3 eqw by auto
    qed
  qed
  moreover have "wf_clauses ?S"
    using wf_clauses_set_lits [OF wf(3) cr, of c'] set' c by (simp add: wf_clauses_def)
  ultimately show ?thesis
    using inv by (auto simp: prop_inv_def)
qed
lemma uncheckedEnqueue_simps [simp]:
  "ok (uncheckedEnqueue l r S) = ok S" "nVars (uncheckedEnqueue l r S) = nVars S"
  "decision (uncheckedEnqueue l r S) = decision S" "free_vars (uncheckedEnqueue l r S) = free_vars S"
  "trail (uncheckedEnqueue l r S) = trail S @ [l]"
  "trail_lim (uncheckedEnqueue l r S) = trail_lim S" "qhead (uncheckedEnqueue l r S) = qhead S"
  "db (uncheckedEnqueue l r S) = db S" "ca (uncheckedEnqueue l r S) = ca S"
  "watches (uncheckedEnqueue l r S) = watches S"
  "const_true (uncheckedEnqueue l r S) = const_true S"
  "in_range (uncheckedEnqueue l r S) q = in_range S q"
  "wf_clauses (uncheckedEnqueue l r S) = wf_clauses S"
  by (simp_all add: uncheckedEnqueue_def in_range_def wf_clauses_def)

lemma watch_uncheckedEnqueue [simp]:
  "watch_ok (uncheckedEnqueue l r S) = watch_ok S"
  "wf_watches (uncheckedEnqueue l r S) = wf_watches S"
  "wf_watches_with p xs (uncheckedEnqueue l r S) = wf_watches_with p xs S"
  by (simp_all add: fun_eq_iff watch_ok_def wf_watches_def wf_watches_with_def)

lemma level_uncheckedEnqueue:
  "wf_vars S \<Longrightarrow> in_range S l \<Longrightarrow> 0 \<le> x \<Longrightarrow>
     level (uncheckedEnqueue l r S) x = (if x = var l then decisionLevel S else level S x)"
  using var_index [of S l]
  by (auto simp: level_def uncheckedEnqueue_def nth_list_update wf_vars_def in_range_def)

lemma wf_vars_uncheckedEnqueue: "wf_vars S \<Longrightarrow> wf_vars (uncheckedEnqueue l r S)"
  by (auto simp: wf_vars_def uncheckedEnqueue_def dest!: set_update_subset_insert [THEN subsetD])

lemma wf_trail_uncheckedEnqueue:
  assumes wf: "wf_vars S" "wf_trail S" and l: "in_range S l" "lbool_eq (lit_value S l) l_Undef"
  shows "wf_trail (uncheckedEnqueue l r S)"
proof -
  have fresh: "l \<notin> set (trail S)" "neg l \<notin> set (trail S)"
    using value_Undef [OF wf l(1)] l(2) by auto
  then have "var l \<notin> var ` set (trail S)"
    using same_var_cases by fastforce
  moreover have "tri (lit_value (uncheckedEnqueue l r S) q) = Some True \<longleftrightarrow> q \<in> set (trail S) \<or> q = l"
    if q: "in_range S q" for q
  proof (cases "var q = var l")
    case True
    have "tri (lit_value (uncheckedEnqueue l r S) q) = Some (sign l = sign q)"
      using True q var_index [OF l(1)] by (auto simp: lit_value_def uncheckedEnqueue_def in_range_def)
    then show ?thesis
      using fresh same_var_cases [OF True] by (elim disjE) auto
  next
    case False
    then have "lit_value (uncheckedEnqueue l r S) q = lit_value S q"
      using q l(1) by (auto simp: lit_value_def uncheckedEnqueue_def in_range_def nth_list_update)
    then show ?thesis
      using q wf False by (auto simp: wf_trail_def)
  qed
  moreover have "level (uncheckedEnqueue l r S) (var q) = level S (var q)" if "q \<in> set (trail S)" for q
    using that wf l calculation(1)
    by (subst level_uncheckedEnqueue) (auto simp: wf_trail_def in_range_def image_iff)
  then have "\<forall>q \<in> set (take (case trail_lim S of [] \<Rightarrow> Suc (length (trail S)) | n # _ \<Rightarrow> n)
      (trail S @ [l])). level (uncheckedEnqueue l r S) (var q) = 0"
    using wf l set_take_subset [of _ "trail S"] by (cases "trail_lim S")
      (auto simp: wf_trail_def level_uncheckedEnqueue in_range_def subset_iff)
  ultimately show ?thesis
    using wf l by (cases "trail_lim S") (auto simp: wf_trail_def)
qed

lemma fixed_lits_level0: "wf_trail S \<Longrightarrow> trail_lim S = [] \<Longrightarrow> fixed_lits S = set (trail S)"
  by (auto simp: fixed_lits_def wf_trail_def)

lemma models_uncheckedEnqueue:
  assumes "wf_vars S" "wf_trail S" "in_range S l" "lbool_eq (lit_value S l) l_Undef"
    "trail_lim S = []"
  shows "models (uncheckedEnqueue l r S) = models S \<inter> {\<sigma>. lit_holds \<sigma> l}"
  using assms fixed_lits_level0 [of S]
    fixed_lits_level0 [OF wf_trail_uncheckedEnqueue [of S l r]]
  by (auto simp: models_def)

text \<open>Above level 0 a new literal on the trail constrains no model; at level 0 it does, unless a clause
  already implies it.\<close>

lemma models_enqueue_above:
  assumes wf: "wf_vars S" "wf_trail S" and l: "in_range S l" "lbool_eq (lit_value S l) l_Undef"
    and lim: "trail_lim S \<noteq> []"
  shows "models (uncheckedEnqueue l r S) = models S"
proof -
  have "l \<notin> set (trail S)" "neg l \<notin> set (trail S)" using value_Undef [OF wf l(1)] l(2) by auto
  then have "level (uncheckedEnqueue l r S) (var q) = level S (var q)" if "q \<in> set (trail S)" for q
    using that wf l(1) same_var_cases [of q l]
    by (subst level_uncheckedEnqueue) (auto simp: wf_trail_def in_range_def)
  then have "fixed_lits (uncheckedEnqueue l r S) = fixed_lits S"
    using wf(1) l(1) lim by (auto simp: fixed_lits_def level_uncheckedEnqueue in_range_def)
  then show ?thesis by (simp add: models_def)
qed

lemma models_unit:
  assumes wf: "wf_vars S" "wf_trail S" "in_range S l" "lbool_eq (lit_value S l) l_Undef"
    and cr: "cr \<in> set (db S)"
    and others: "\<And>q. q \<in> set (clause_of S cr) \<Longrightarrow> q \<noteq> l \<Longrightarrow> neg q \<in> set (trail S)"
  shows "models (uncheckedEnqueue l r S) = models S"
proof (cases "trail_lim S = []")
  case True
  have "lit_holds \<sigma> l" if "\<sigma> \<in> models S" for \<sigma>
  proof -
    have "clause_holds \<sigma> (clause_of S cr)" "\<And>q. q \<in> set (trail S) \<Longrightarrow> lit_holds \<sigma> q"
      using that cr fixed_lits_level0 [OF wf(2) True] by (auto simp: models_def)
    then show ?thesis using others unfolding clause_holds_def by (metis lit_holds_neg)
  qed
  then show ?thesis using models_uncheckedEnqueue [OF wf True] by auto
qed (rule models_enqueue_above [OF wf])

lemma models_conflict:
  assumes "wf_trail S" "trail_lim S = []" "cr \<in> set (db S)"
    and "\<And>q. q \<in> set (clause_of S cr) \<Longrightarrow> neg q \<in> set (trail S)"
  shows "models S = {}"
  using assms fixed_lits_level0 [OF assms(1,2)] unfolding models_def clause_holds_def by fastforce

lemma find_watch_Some:
  "find_watch S c ks = Some k \<Longrightarrow> k \<in> set ks \<and> \<not> lbool_eq (lit_value S (c ! k)) l_False"
  by (induction S c ks rule: find_watch.induct) (auto split: if_splits)

lemma find_watch_None:
  "find_watch S c ks = None \<Longrightarrow> k \<in> set ks \<Longrightarrow> lbool_eq (lit_value S (c ! k)) l_False"
  by (induction S c ks rule: find_watch.induct) (auto split: if_splits)

text \<open>The state after the exchange that makes \<open>~p\<close> the second literal of the clause of \<open>w\<close>.\<close>

definition swapped_clause :: "Lit \<Rightarrow> Lit list \<Rightarrow> Lit list" where
  "swapped_clause p c0 = (if c0 ! 0 = neg p then c0[0 := c0 ! 1, 1 := neg p] else c0)"

text \<open>
  The iterations of the loop over the watch list, as steps on the watchers still to be visited, those
  kept, and the solver; and the situation in which the loop stops with a conflict.
\<close>

type_synonym watch_config = "Watcher list \<times> Watcher list \<times> Solver"

definition swapped_state :: "Lit \<Rightarrow> Watcher \<Rightarrow> Solver \<Rightarrow> Solver" where
  "swapped_state p w S = set_lits (cref w) (swapped_clause p (clause_of S (cref w))) S"

definition undetermined :: "Lit \<Rightarrow> Watcher \<Rightarrow> Lit list \<Rightarrow> Solver \<Rightarrow> bool" where
  "undetermined p w c S \<longleftrightarrow> \<not> lbool_eq (lit_value S (blocker w)) l_True \<and>
     c = swapped_clause p (clause_of S (cref w)) \<and>
     \<not> (c ! 0 \<noteq> blocker w \<and> lbool_eq (lit_value S (c ! 0)) l_True)"

inductive watch_step :: "Lit \<Rightarrow> watch_config \<Rightarrow> watch_config \<Rightarrow> bool" for p where
  blocked: "lbool_eq (lit_value S (blocker w)) l_True \<Longrightarrow>
    watch_step p (w # is, js, S) (is, js @ [w], S)"
| satisfied: "\<lbrakk>\<not> lbool_eq (lit_value S (blocker w)) l_True;
    c = swapped_clause p (clause_of S (cref w)); lbool_eq (lit_value S (c ! 0)) l_True\<rbrakk> \<Longrightarrow>
    watch_step p (w # is, js, S) (is, js @ [Watcher (cref w) (c ! 0)], swapped_state p w S)"
| moved: "\<lbrakk>undetermined p w c S; find_watch S c [2..<length c] = Some k;
    c' = c[1 := c ! k, k := neg p]\<rbrakk> \<Longrightarrow>
    watch_step p (w # is, js, S)
      (is, js, push_watch (neg (c' ! 1)) (Watcher (cref w) (c ! 0))
         (set_lits (cref w) c' (swapped_state p w S)))"
| unit: "\<lbrakk>undetermined p w c S; find_watch S c [2..<length c] = None;
    \<not> lbool_eq (lit_value S (c ! 0)) l_False\<rbrakk> \<Longrightarrow>
    watch_step p (w # is, js, S)
      (is, js @ [Watcher (cref w) (c ! 0)],
       uncheckedEnqueue (c ! 0) (Some (cref w)) (swapped_state p w S))"

definition watch_conflict :: "Lit \<Rightarrow> Watcher \<Rightarrow> Solver \<Rightarrow> bool" where
  "watch_conflict p w S \<longleftrightarrow> (\<exists>c. undetermined p w c S \<and> find_watch S c [2..<length c] = None \<and>
     lbool_eq (lit_value S (c ! 0)) l_False)"

lemma find_watch_cong: "(\<And>l. lit_value S l = lit_value T l) \<Longrightarrow> find_watch S c ks = find_watch T c ks"
  by (induction ks) auto

lemma swapped_state_simps [simp]:
  "lit_value (swapped_state p w S) = lit_value S" "trail (swapped_state p w S) = trail S"
  "level (swapped_state p w S) = level S" "qhead (swapped_state p w S) = qhead S"
  "trail_lim (swapped_state p w S) = trail_lim S" "db (swapped_state p w S) = db S"
  "vardata (swapped_state p w S) = vardata S" "watches (swapped_state p w S) = watches S"
  "find_watch (swapped_state p w S) = find_watch S" "in_range (swapped_state p w S) = in_range S"
  by (auto simp: swapped_state_def fun_eq_iff intro!: find_watch_cong)

lemma propagate_watches_Cons:
  assumes "\<not> lbool_eq (lit_value S (blocker w)) l_True"
    "c = swapped_clause p (clause_of S (cref w))" "T = swapped_state p w S"
  shows "propagate_watches p (w # is) js S =
    (if c ! 0 \<noteq> blocker w \<and> lbool_eq (lit_value S (c ! 0)) l_True
     then propagate_watches p is (js @ [Watcher (cref w) (c ! 0)]) T
     else (case find_watch S c [2..<length c] of
             Some k \<Rightarrow>
               let c' = c[1 := c ! k, k := neg p]
               in propagate_watches p is js
                    (push_watch (neg (c' ! 1)) (Watcher (cref w) (c ! 0)) (set_lits (cref w) c' T))
           | None \<Rightarrow>
               if lbool_eq (lit_value S (c ! 0)) l_False
               then (js @ Watcher (cref w) (c ! 0) # is, T\<lparr>qhead := length (trail S)\<rparr>, Some (cref w))
               else propagate_watches p is (js @ [Watcher (cref w) (c ! 0)])
                      (uncheckedEnqueue (c ! 0) (Some (cref w)) T)))"
proof -
  have T: "set_lits (cref w) c S = T" using assms by (simp add: swapped_state_def)
  have c: "(if clause_of S (cref w) ! 0 = neg p then (clause_of S (cref w))[0 := clause_of S (cref w) ! 1, 1 := neg p]
      else clause_of S (cref w)) = c" using assms by (simp add: swapped_clause_def)
  have eqs: "lit_value T = lit_value S" "trail T = trail S" "find_watch T = find_watch S"
    using assms by simp_all
  show ?thesis
    using assms(1) by (simp only: propagate_watches.simps Let_def if_False c T eqs append_Cons append_Nil)
qed

lemma propagate_watches_steps:
  "case propagate_watches p is js S of (js', S', confl) \<Rightarrow>
     (case confl of
        None \<Rightarrow> (watch_step p)\<^sup>*\<^sup>* (is, js, S) ([], js', S')
      | Some cr \<Rightarrow> \<exists>w is1 js1 S1. (watch_step p)\<^sup>*\<^sup>* (is, js, S) (w # is1, js1, S1) \<and>
          watch_conflict p w S1 \<and> cr = cref w \<and>
          js' = js1 @ Watcher cr (swapped_clause p (clause_of S1 cr) ! 0) # is1 \<and>
          S' = (swapped_state p w S1)\<lparr>qhead := length (trail S1)\<rparr>)"
proof (induction "is" arbitrary: js S)
  case (Cons w "is")
  define c where "c = swapped_clause p (clause_of S (cref w))"
  note unf = propagate_watches_Cons [OF _ c_def refl, of "is" js, unfolded Let_def]
  have step: ?case if "propagate_watches p (w # is) js S = propagate_watches p is js2 S2"
    "watch_step p (w # is, js, S) (is, js2, S2)" for js2 S2
  proof -
    obtain js' S' confl where r: "propagate_watches p is js2 S2 = (js', S', confl)"
      by (metis prod_cases3)
    show ?thesis
      using Cons.IH [of js2 S2] converse_rtranclp_into_rtranclp [of "watch_step p", OF that(2)]
      unfolding that(1) r by (cases confl) (simp, simp, blast)
  qed
  consider (blocked) "lbool_eq (lit_value S (blocker w)) l_True"
    | (sat) "\<not> lbool_eq (lit_value S (blocker w)) l_True" "c ! 0 \<noteq> blocker w" "lbool_eq (lit_value S (c ! 0)) l_True"
    | (und) "undetermined p w c S"
    by (auto simp: undetermined_def c_def)
  then show ?case
  proof cases
    case blocked
    then show ?thesis by (intro step [of "js @ [w]" S] watch_step.blocked) auto
  next
    case sat
    then show ?thesis
      by (intro step [of "js @ [Watcher (cref w) (c ! 0)]" "swapped_state p w S"] watch_step.satisfied)
        (simp_all only: unf c_def simp_thms if_True)
  next
    case und
    then have nb: "\<not> lbool_eq (lit_value S (blocker w)) l_True"
      and ns: "\<not> (c ! 0 \<noteq> blocker w \<and> lbool_eq (lit_value S (c ! 0)) l_True)"
      by (auto simp: undetermined_def)
    show ?thesis
    proof (cases "find_watch S c [2..<length c]")
      case None
      show ?thesis
      proof (cases "lbool_eq (lit_value S (c ! 0)) l_False")
        case True
        then have "watch_conflict p w S" using und None by (auto simp: watch_conflict_def)
        then show ?thesis
          using unf [OF nb] ns None True
          by (simp only: if_False if_True option.case prod.case) (auto simp: c_def)
      next
        case False
        then show ?thesis
          using unf [OF nb] ns None
          by (intro step [OF _ watch_step.unit [OF und None False]]) (simp only: if_False option.case)
      qed
    next
      case (Some k)
      then show ?thesis
        using unf [OF nb] ns
        by (intro step [OF _ watch_step.moved [OF und Some refl]]) (simp only: if_False option.case)
    qed
  qed
qed simp

lemma swap_step:
  assumes inv: "prop_inv p (js @ w # is) S"
  defines "c \<equiv> swapped_clause p (clause_of S (cref w))"
  defines "S1 \<equiv> swapped_state p w S"
  shows "prop_inv p (js @ w # is) S1 \<and> prop_rel S S1 \<and> cref w \<in> set (db S1) \<and>
    clause_of S1 (cref w) = c \<and> c ! 1 = neg p \<and> 2 \<le> length c"
proof -
  have ok: "watch_ok S p (js @ w # is)"
    using inv prop_inv_p [OF inv] by (auto simp: prop_inv_def wf_watches_with_def)
  then have cr: "cref w \<in> set (db S)"
    and np: "neg p = clause_of S (cref w) ! 0 \<or> neg p = clause_of S (cref w) ! 1"
    by (auto simp: watch_ok_def)
  have len: "cref w < length (ca S)" "2 \<le> length (clause_of S (cref w))" "wf_clauses S"
    using inv cr by (auto simp: prop_inv_def wf_clauses_def)
  have c: "set c = set (clause_of S (cref w))" "length c = length (clause_of S (cref w))"
    "{c ! 0, c ! 1} = {clause_of S (cref w) ! 0, clause_of S (cref w) ! 1}" "c ! 1 = neg p"
  proof -
    define d where "d = clause_of S (cref w)"
    have sw: "c = (if d ! 0 = neg p then swap_at 0 1 d else d)" and d: "2 \<le> length d"
      using len(2) by (auto simp: c_def d_def swapped_clause_def swap_at_def)
    have "0 < length d" "1 < length d" using d by linarith+
    then have "set (swap_at 0 1 d) = set d" by (rule set_swap_at)
    then show "set c = set (clause_of S (cref w))" "length c = length (clause_of S (cref w))"
      unfolding d_def [symmetric] sw by simp_all
    show "{c ! 0, c ! 1} = {clause_of S (cref w) ! 0, clause_of S (cref w) ! 1}"
      using \<open>0 < length d\<close> \<open>1 < length d\<close> unfolding d_def [symmetric] sw
      by (simp add: nth_swap_at insert_commute)
    show "c ! 1 = neg p"
      using np \<open>0 < length d\<close> \<open>1 < length d\<close> unfolding d_def [symmetric] sw
      by (simp add: nth_swap_at) metis
  qed
  show ?thesis
    using prop_inv_swap [OF inv cr c(1-3)] prop_rel_set_lits [OF len(3) cr c(1)] cr c len
    by (simp add: S1_def swapped_state_def c_def [symmetric] clause_of_set_lits)
qed

text \<open>When no other literal of the clause can be watched, all literals but the first are false.\<close>

lemma unit_clause:
  assumes inv: "prop_inv p (js @ w # is) S" and und: "undetermined p w c S"
    and none: "find_watch S c [2..<length c] = None"
  shows "c ! 0 \<in> set c" "\<forall>q \<in> set (tl c). neg q \<in> set (trail S)" "set c \<subseteq> insert (c ! 0) (set (tl c))"
proof -
  have c: "c = swapped_clause p (clause_of S (cref w))" using und by (simp add: undetermined_def)
  have st: "cref w \<in> set (db S)" "clause_of (swapped_state p w S) (cref w) = c" "c ! 1 = neg p" "2 \<le> length c"
    "wf_clauses (swapped_state p w S)"
    using swap_step [OF inv] by (auto simp: c prop_inv_def)
  have wf: "wf_vars S" "wf_trail S" "p \<in> set (trail S)" using inv by (auto simp: prop_inv_def)
  have rng: "in_range S l" if "l \<in> set c" for l using st that by (auto simp: wf_clauses_def)
  show "c ! 0 \<in> set c" using st(4) by (intro nth_mem) linarith
  show "set c \<subseteq> insert (c ! 0) (set (tl c))" by (cases c) auto
  show "\<forall>q \<in> set (tl c). neg q \<in> set (trail S)"
  proof
    fix q assume "q \<in> set (tl c)"
    then obtain i where i: "i < length (tl c)" "q = tl c ! i" by (metis in_set_conv_nth)
    then have q: "q = c ! Suc i" "Suc i < length c" by (simp_all add: nth_tl)
    show "neg q \<in> set (trail S)"
    proof (cases i)
      case 0
      then show ?thesis using q st(3) wf(3) by simp
    next
      case (Suc k)
      then have "Suc i \<in> set [2..<length c]" using q by auto
      then show ?thesis
        using find_watch_None [OF none] q value_False [OF wf(1,2) rng [of q]] by simp
    qed
  qed
qed

lemma undetermined_undef:
  assumes inv: "prop_inv p (js @ w # is) S" and und: "undetermined p w c S"
    and nf: "\<not> lbool_eq (lit_value S (c ! 0)) l_False"
  shows "lbool_eq (lit_value S (c ! 0)) l_Undef"
proof -
  have "\<not> lbool_eq (lit_value S (c ! 0)) l_True" using und by (auto simp: undetermined_def)
  then show ?thesis using inv nf by (cases "tri (lit_value S (c ! 0))") (auto simp: prop_inv_def)
qed

lemma watch_step_inv:
  assumes "watch_step p (xs, js, S) (is', js', S')" "prop_inv p (js @ xs) S"
  shows "prop_inv p (js' @ is') S' \<and> prop_rel S S' \<and> qhead S' = qhead S"
  using assms(1)
proof cases
  case (blocked w)
  then show ?thesis using assms(2) by simp
next
  case (satisfied w c)
  have st: "prop_inv p (js @ w # is') S'" "prop_rel S S'"
    using swap_step [of p js w is' S] assms(2) satisfied by simp_all
  have "map cref (js' @ is') = map cref (js @ w # is')" using satisfied by simp
  then have "prop_inv p (js' @ is') S'" using st(1) prop_inv_cong by metis
  then show ?thesis using st(2) satisfied(3) by simp
next
  case (moved w c k c')
  let ?S1 = "swapped_state p w S"
  have st: "prop_inv p (js @ w # is') ?S1" "prop_rel S ?S1" "cref w \<in> set (db ?S1)"
    "clause_of ?S1 (cref w) = c" "c ! 1 = neg p" "2 \<le> length c"
    using swap_step [of p js w is' S] assms(2) moved by (auto simp: undetermined_def)
  have wf1: "wf_vars ?S1" "wf_trail ?S1" "wf_clauses ?S1" using st(1) by (auto simp: prop_inv_def)
  have k: "2 \<le> k" "k < length c" "\<not> lbool_eq (lit_value S (c ! k)) l_False"
    using find_watch_Some [OF moved(5)] by auto
  then have nk: "neg (c ! k) \<notin> set (trail ?S1)"
    using value_False [OF wf1(1,2), of "c ! k"] wf1(3) st(3,4) by (auto simp: wf_clauses_def)
  have "c' = swap_at 1 k c" using st(5) moved by (simp add: swap_at_def)
  then have "set c' = set c" using k by simp
  then have "prop_rel ?S1 S'"
    using prop_rel_set_lits [OF wf1(3) st(3), of c'] st(4) moved by (simp add: prop_rel_def)
  moreover have "prop_inv p (js' @ is') S'"
    using prop_inv_move [OF st(1,3,4,5) k(1,2) nk, of "Watcher (cref w) (c ! 0)"] moved by simp
  ultimately show ?thesis using prop_rel_trans [OF st(2)] moved by simp
next
  case (unit w c)
  let ?S1 = "swapped_state p w S"
  have inv: "prop_inv p (js @ w # is') S" using assms(2) unit by simp
  have st: "prop_inv p (js @ w # is') ?S1" "prop_rel S ?S1" "cref w \<in> set (db ?S1)"
    "clause_of ?S1 (cref w) = c"
    using swap_step [OF inv] unit by (auto simp: undetermined_def)
  have wf1: "wf_vars ?S1" "wf_trail ?S1" "wf_clauses ?S1" using st(1) by (auto simp: prop_inv_def)
  note cl = unit_clause [OF inv unit(4,5)]
  have rng: "in_range ?S1 (c ! 0)" using wf1(3) st(3,4) cl(1) by (auto simp: wf_clauses_def)
  have und: "lbool_eq (lit_value ?S1 (c ! 0)) l_Undef" using undetermined_undef [OF inv unit(4,6)] by simp
  have "models S' = models ?S1"
    unfolding unit(3) using cl st(4) by (intro models_unit [OF wf1(1,2) rng und st(3)]) auto
  then have "prop_rel ?S1 S'"
    using st(3,4) cl(1) unit(3) by (auto simp: prop_rel_def intro!: bexI [of _ "cref w"])
  moreover have "map cref (js' @ is') = map cref (js @ w # is')" using unit by simp
  then have "prop_inv p (js' @ is') ?S1" using st(1) prop_inv_cong [of _ _ p ?S1] by metis
  then have "prop_inv p (js' @ is') S'"
    using wf_vars_uncheckedEnqueue [OF wf1(1)] wf_trail_uncheckedEnqueue [OF wf1(1,2) rng und] unit(3)
    by (simp add: prop_inv_def)
  ultimately show ?thesis using prop_rel_trans [OF st(2)] unit by simp
qed

lemma watch_steps_inv:
  assumes "(watch_step p)\<^sup>*\<^sup>* (xs, js, S) (is', js', S')" "prop_inv p (js @ xs) S"
  shows "prop_inv p (js' @ is') S' \<and> prop_rel S S' \<and> qhead S' = qhead S"
  using assms
proof (induction "(is', js', S')" arbitrary: is' js' S')
  case (step y)
  then show ?case
    using watch_step_inv prop_rel_trans by (cases y) (metis (no_types, lifting))
qed simp

definition falsified :: "Solver \<Rightarrow> nat \<Rightarrow> bool" where
  "falsified S cr \<longleftrightarrow> cr \<in> set (db S) \<and> (\<forall>q \<in> set (clause_of S cr). neg q \<in> set (trail S))"

lemma watch_conflict_inv:
  assumes inv: "prop_inv p (js @ w # is) S" and con: "watch_conflict p w S"
    and T: "T = (swapped_state p w S)\<lparr>qhead := length (trail S)\<rparr>"
  shows "prop_inv p (js @ Watcher (cref w) b # is) T \<and> prop_rel S T \<and> falsified T (cref w) \<and>
    neg p \<in> set (clause_of T (cref w))"
proof -
  obtain c where und: "undetermined p w c S" and none: "find_watch S c [2..<length c] = None"
    and f: "lbool_eq (lit_value S (c ! 0)) l_False"
    using con by (auto simp: watch_conflict_def)
  have st: "prop_inv p (js @ w # is) (swapped_state p w S)" "prop_rel S (swapped_state p w S)"
    "cref w \<in> set (db S)" "clause_of (swapped_state p w S) (cref w) = c" "c ! 1 = neg p" "2 \<le> length c"
    using swap_step [OF inv] und by (auto simp: undetermined_def)
  have wf1: "wf_clauses (swapped_state p w S)" "wf_vars S" "wf_trail S"
    using st(1) inv by (auto simp: prop_inv_def)
  note cl = unit_clause [OF inv und none]
  have "neg (c ! 0) \<in> set (trail S)"
    using value_False [OF wf1(2,3), of "c ! 0"] f wf1(1) st(3,4) cl(1) by (auto simp: wf_clauses_def)
  then have "falsified T (cref w)" using cl st(3,4) by (auto simp: falsified_def T)
  moreover have "neg p \<in> set (clause_of T (cref w))"
    using st(4-6) nth_mem [of 1 c] by (simp add: T)
  moreover have "prop_inv p (js @ Watcher (cref w) b # is) (swapped_state p w S)"
    using st(1) prop_inv_cong [of "js @ Watcher (cref w) b # is" "js @ w # is"] by simp
  then have "prop_inv p (js @ Watcher (cref w) b # is) T" unfolding T by (rule prop_inv_qhead) simp
  ultimately show ?thesis using st(2) by (simp add: T)
qed

lemma propagate_watches_correct:
  assumes "prop_inv p (js @ xs) S"
  shows "case propagate_watches p xs js S of (js', S', confl) \<Rightarrow>
    prop_inv p js' S' \<and> prop_rel S S' \<and>
    (case confl of None \<Rightarrow> qhead S' = qhead S
     | Some cr \<Rightarrow> qhead S' = length (trail S') \<and> falsified S' cr)"
proof -
  obtain js' S' confl where r: "propagate_watches p xs js S = (js', S', confl)" by (metis prod_cases3)
  show ?thesis
  proof (cases confl)
    case None
    then show ?thesis
      using propagate_watches_steps [of p xs js S] watch_steps_inv [of p xs js S "[]" js' S'] assms
      unfolding r by simp
  next
    case (Some cr)
    then obtain w is1 js1 S1 where s: "(watch_step p)\<^sup>*\<^sup>* (xs, js, S) (w # is1, js1, S1)"
      "watch_conflict p w S1" "cr = cref w"
      "js' = js1 @ Watcher cr (swapped_clause p (clause_of S1 cr) ! 0) # is1"
      "S' = (swapped_state p w S1)\<lparr>qhead := length (trail S1)\<rparr>"
      using propagate_watches_steps [of p xs js S] unfolding r by auto
    have i1: "prop_inv p (js1 @ w # is1) S1" "prop_rel S S1"
      using watch_steps_inv [OF s(1) assms] by auto
    have "qhead S' = length (trail S')" by (simp add: s(5))
    then show ?thesis
      using watch_conflict_inv [OF i1(1) s(2,5)] prop_rel_trans [OF i1(2), of S'] s(3,4) unfolding r Some by simp
  qed
qed

lemma set_watches_simps [simp]:
  "ok (set_watches q ws S) = ok S" "assigns (set_watches q ws S) = assigns S"
  "vardata (set_watches q ws S) = vardata S" "decision (set_watches q ws S) = decision S"
  "free_vars (set_watches q ws S) = free_vars S" "trail (set_watches q ws S) = trail S"
  "trail_lim (set_watches q ws S) = trail_lim S" "qhead (set_watches q ws S) = qhead S"
  "db (set_watches q ws S) = db S" "ca (set_watches q ws S) = ca S"
  "const_true (set_watches q ws S) = const_true S"
  by (simp_all add: set_watches_def)

lemma frame_set_watches [simp]:
  "in_range (set_watches q ws S) = in_range S" "lit_value (set_watches q ws S) = lit_value S"
  "level (set_watches q ws S) = level S" "fixed_lits (set_watches q ws S) = fixed_lits S"
  "wf_vars (set_watches q ws S) = wf_vars S" "wf_clauses (set_watches q ws S) = wf_clauses S"
  "watch_ok (set_watches q ws S) = watch_ok S" "models (set_watches q ws S) = models S"
  "wf_trail (set_watches q ws S) = wf_trail S" "prop_rel T (set_watches q ws S) = prop_rel T S"
proof -
  show *: "in_range (set_watches q ws S) = in_range S" "lit_value (set_watches q ws S) = lit_value S"
    "level (set_watches q ws S) = level S"
    by (simp_all add: fun_eq_iff in_range_def lit_value_def level_def)
  show "fixed_lits (set_watches q ws S) = fixed_lits S"
    by (simp add: fixed_lits_def *)
  then show "models (set_watches q ws S) = models S" "prop_rel T (set_watches q ws S) = prop_rel T S"
    by (simp_all add: models_def prop_rel_def)
  show "wf_vars (set_watches q ws S) = wf_vars S" "wf_clauses (set_watches q ws S) = wf_clauses S"
    "watch_ok (set_watches q ws S) = watch_ok S" "wf_trail (set_watches q ws S) = wf_trail S"
    by (simp_all add: fun_eq_iff wf_vars_def wf_clauses_def watch_ok_def wf_trail_def * split: list.split)
      (simp add: set_watches_def)?
qed

lemma wf_watches_with_self:
  "wf_watches S \<Longrightarrow> wf_watches_with p (watches S ! nat (toInt p)) S"
  by (simp add: wf_watches_def wf_watches_with_def)

lemma wf_watches_set_watches:
  assumes "wf_vars S" "wf_watches_with p ws S" "in_range S p"
  shows "wf_watches (set_watches p ws S)"
  unfolding wf_watches_def frame_set_watches
proof (intro allI impI)
  fix q assume q: "in_range S q"
  have "watches (set_watches p ws S) ! nat (toInt q) = (if q = p then ws else watches S ! nat (toInt q))"
    using assms q watch_index [OF assms(3)] watch_index_eq [OF assms(3) q]
    by (auto simp: set_watches_def nth_list_update wf_vars_def)
  then show "watch_ok S q (watches (set_watches p ws S) ! nat (toInt q))"
    using assms(2) q by (simp add: wf_watches_with_def)
qed

text \<open>
  The part of the invariant that propagation itself needs. The rest follows from \<open>prop_rel\<close>; the constant
  is kept apart because \<open>True()\<close> declares it before it asserts it.
\<close>

definition wf_core :: "Solver \<Rightarrow> bool" where
  "wf_core S \<longleftrightarrow> wf_vars S \<and> wf_trail S \<and> wf_clauses S \<and> wf_watches S"

definition wf_base :: "Solver \<Rightarrow> bool" where
  "wf_base S \<longleftrightarrow> wf_core S \<and> wf_free S"

lemma wf_solver_base: "wf_solver S \<longleftrightarrow> wf_base S \<and> wf_const S"
  by (auto simp: wf_solver_def wf_core_def wf_base_def)

lemma prop_rel_wf:
  assumes rel: "prop_rel S S'" and core: "wf_core S'" and wf: "wf_base S"
  shows "wf_base S'"
proof -
  have eq: "db S' = db S" "free_vars S' = free_vars S" "nVars S' = nVars S"
    "const_true S' = const_true S"
    and sets: "\<forall>cr \<in> set (db S). set (clause_of S' cr) = set (clause_of S cr)"
    using rel by (auto simp: prop_rel_def)
  obtain ls where ls: "trail S' = trail S @ ls"
    "\<forall>l \<in> set ls. \<exists>cr \<in> set (db S). var l \<in> var ` set (clause_of S cr)"
    using rel by (auto simp: prop_rel_def)
  have "wf_free S'"
    unfolding wf_free_def eq ls(1) set_append image_Un
  proof (intro conjI ballI)
    show "distinct (free_vars S)" using wf by (simp add: wf_base_def wf_free_def)
    fix v assume "v \<in> set (free_vars S)"
    then have v: "0 \<le> v \<and> v < int (nVars S) \<and> v \<noteq> var (const_true S) \<and> v \<notin> var ` set (trail S)"
      and vc: "\<forall>cr \<in> set (db S). v \<notin> var ` set (clause_of S cr)"
      using wf by (auto simp: wf_base_def wf_free_def)
    show "0 \<le> v" "v < int (nVars S)" "v \<noteq> var (const_true S)" using v by auto
    show "v \<notin> var ` set (trail S) \<union> var ` set ls" using v vc ls(2) by blast
    show "v \<notin> var ` set (clause_of S' cr)" if "cr \<in> set (db S)" for cr
      using sets vc that by auto
  qed
  then show ?thesis using core by (simp add: wf_base_def)
qed

text \<open>One round of the outer loop.\<close>

lemma propagate_loop_step:
  assumes "wf_core S" and q: "qhead S < length (trail S)"
    and p: "p = trail S ! qhead S" and S1: "S1 = S\<lparr>qhead := Suc (qhead S)\<rparr>"
    and r: "propagate_watches p (watches S1 ! nat (toInt p)) [] S1 = (js, S2, c)"
    and S3: "S3 = set_watches p js S2"
  shows "wf_core S3" "prop_rel S S3" "nVars S3 - qhead S3 < nVars S - qhead S"
    "\<forall>cr. c = Some cr \<longrightarrow> falsified S3 cr" "prop_inv p ([] @ watches S1 ! nat (toInt p)) S1"
proof -
  have core: "wf_vars S" "wf_trail S" "wf_clauses S" "wf_watches S"
    using assms(1) by (auto simp: wf_core_def)
  show inv: "prop_inv p ([] @ watches S1 ! nat (toInt p)) S1"
    using core q wf_watches_with_self [OF core(4), of p]
    by (cases "trail_lim S") (auto simp: S1 prop_inv_def p wf_trail_def)
  from propagate_watches_correct [OF this]
  have w: "prop_inv p js S2" "prop_rel S1 S2"
    "case c of None \<Rightarrow> qhead S2 = Suc (qhead S) | Some cr \<Rightarrow> qhead S2 = length (trail S2) \<and> falsified S2 cr"
    unfolding r by (auto simp: S1 split: option.splits)
  show rel: "prop_rel S S3"
    using w(2) by (simp add: S3 S1 prop_rel_def)
  show wf3: "wf_core S3"
    using w(1) prop_inv_p [OF w(1)] wf_watches_set_watches [of S2 p js]
    by (auto simp: S3 wf_core_def prop_inv_def)
  show "\<forall>cr. c = Some cr \<longrightarrow> falsified S3 cr"
    using w(3) by (auto simp: S3 falsified_def)
  have "length (trail S) \<le> length (trail S3)" "nVars S3 = nVars S"
    using rel by (auto simp: prop_rel_def)
  moreover have "length (trail S3) \<le> nVars S3" "qhead S3 \<le> length (trail S3)"
    using wf3 wf_trail_length [of S3] by (auto simp: wf_core_def wf_trail_def)
  moreover have "qhead S < qhead S3"
    using w(3) q calculation by (auto simp: S3 split: option.splits)
  ultimately show "nVars S3 - qhead S3 < nVars S - qhead S" by linarith
qed

lemma falsified_prop_rel: "prop_rel S S' \<Longrightarrow> falsified S cr \<Longrightarrow> falsified S' cr"
  by (auto simp: prop_rel_def falsified_def)

lemma propagate_loop_correct:
  assumes "wf_core S"
  shows "\<exists>confl' S'. propagate_loop confl S = Some (confl', S') \<and> wf_core S' \<and> prop_rel S S' \<and>
    qhead S' = length (trail S') \<and>
    (confl' = confl \<or> (\<exists>cr. confl' = Some cr \<and> falsified S' cr))"
  using assms
proof (induction "nVars S - qhead S" arbitrary: S confl rule: less_induct)
  case less
  show ?case
  proof (cases "qhead S < length (trail S)")
    case False
    then show ?thesis
      using less.prems by (subst propagate_loop.simps) (simp add: wf_core_def wf_trail_def)
  next
    case True
    define p where "p = trail S ! qhead S"
    define S1 where "S1 = S\<lparr>qhead := Suc (qhead S)\<rparr>"
    obtain js S2 c where r: "propagate_watches p (watches S1 ! nat (toInt p)) [] S1 = (js, S2, c)"
      by (metis prod_cases3)
    define S3 where "S3 = set_watches p js S2"
    note step = propagate_loop_step [OF less.prems True p_def S1_def r S3_def]
    let ?c = "case c of None \<Rightarrow> confl | Some cr \<Rightarrow> Some cr"
    have eq: "propagate_loop confl S = propagate_loop ?c S3"
      using True by (subst propagate_loop.simps)
        (simp add: Let_def p_def [symmetric] S1_def [symmetric] r S3_def)
    from less.hyps [OF step(3,1), of ?c] obtain c' S' where
      S': "propagate_loop ?c S3 = Some (c', S')" "wf_core S'" "prop_rel S3 S'"
      "qhead S' = length (trail S')" "c' = ?c \<or> (\<exists>cr. c' = Some cr \<and> falsified S' cr)"
      by blast
    have "falsified S' cr" if "c = Some cr" for cr
      using step(4) that falsified_prop_rel [OF S'(3)] by simp
    then show ?thesis
      using eq S' prop_rel_trans [OF step(2)] by (auto split: option.splits)
  qed
qed

lemma propagate_level0:
  assumes "wf_base S" "trail_lim S = []"
  shows "\<exists>confl S'. propagate S = Some (confl, S') \<and> wf_base S' \<and> prop_rel S S' \<and>
    qhead S' = length (trail S') \<and> (confl \<noteq> None \<longrightarrow> models S = {})"
proof -
  have S: "wf_core S" using assms by (simp add: wf_base_def)
  from propagate_loop_correct [OF this, of None] obtain confl S' where
    S': "propagate S = Some (confl, S')" "wf_core S'" "prop_rel S S'" "qhead S' = length (trail S')"
    "confl = None \<or> (\<exists>cr. confl = Some cr \<and> falsified S' cr)"
    unfolding propagate_def by blast
  moreover have "wf_base S'" using prop_rel_wf S' assms by blast
  moreover have "models S = {}" if "confl \<noteq> None"
    using models_conflict [of S'] S' that assms(2)
    by (auto simp: falsified_def prop_rel_def wf_core_def)
  ultimately show ?thesis by blast
qed

subsection \<open>Adding clauses\<close>

text \<open>A literal is live if its variable exists and is not waiting to be reused.\<close>

definition live :: "Solver \<Rightarrow> Lit \<Rightarrow> bool" where
  "live S l \<longleftrightarrow> in_range S l \<and> var l \<notin> set (free_vars S)"

lemma live_neg [simp]: "live S (neg l) = live S l"
  by (simp add: live_def)

lemma live_in_range: "live S l \<Longrightarrow> in_range S l"
  by (simp add: live_def)

lemma value_tri:
  assumes "wf_vars S" "wf_trail S" "in_range S l"
  shows "tri (lit_value S l) = Some True \<longleftrightarrow> l \<in> set (trail S)"
    "tri (lit_value S l) = Some False \<longleftrightarrow> neg l \<in> set (trail S)"
    "tri (lit_value S l) = None \<longleftrightarrow> l \<notin> set (trail S) \<and> neg l \<notin> set (trail S)"
  using value_True [OF assms] value_False [OF assms] value_Undef [OF assms] assms by simp_all

lemma simplify_clause_None:
  assumes "simplify_clause S p ls = None" "wf_vars S" "wf_trail S" "list_all (in_range S) ls"
    "\<And>l. l \<in> set (trail S) \<Longrightarrow> lit_holds \<sigma> l"
  shows "clause_holds \<sigma> ls \<or> in_range S p \<and> lit_holds \<sigma> p"
  using assms
  by (induction S p ls rule: simplify_clause.induct)
    (auto simp: clause_holds_def value_tri split: if_splits)

lemma simplify_clause_sound:
  assumes "simplify_clause S p ls = Some qs" "wf_vars S" "wf_trail S" "list_all (in_range S) ls"
    "\<And>l. l \<in> set (trail S) \<Longrightarrow> lit_holds \<sigma> l"
  shows "clause_holds \<sigma> ls \<or> in_range S p \<and> lit_holds \<sigma> p \<longleftrightarrow>
    clause_holds \<sigma> qs \<or> in_range S p \<and> lit_holds \<sigma> p"
  using assms
proof (induction S p ls arbitrary: qs rule: simplify_clause.induct)
  case (1 S p)
  then show ?case by simp
next
  case (2 S p l ls)
  have rng: "in_range S l" "list_all (in_range S) ls" using "2.prems" by auto
  show ?case
  proof (cases "\<not> lbool_eq (lit_value S l) l_False \<and> l \<noteq> p")
    case True
    then obtain qs' where "qs = l # qs'" "simplify_clause S l ls = Some qs'"
      using "2.prems"(1) by (auto split: if_splits)
    then show ?thesis
      using "2.IH"(1) [of qs'] True "2.prems" rng by (auto simp: clause_holds_def split: if_splits)
  next
    case False
    then have "simplify_clause S p ls = Some qs" "\<not> (lbool_eq (lit_value S l) l_True \<or> l = neg p)"
      using "2.prems"(1) by (auto split: if_splits)
    moreover have "lit_holds \<sigma> l \<Longrightarrow> l = p"
      using False value_False [OF "2.prems"(2,3) rng(1)] "2.prems"(5) [of "neg l"] by auto
    ultimately show ?thesis
      using "2.IH"(2) [of qs] False "2.prems" rng by (auto simp: clause_holds_def)
  qed
qed

lemma simplify_clause_shape:
  assumes "simplify_clause S p ls = Some qs" "sorted (p # ls)"
  shows "set qs \<subseteq> set ls \<and> sorted_wrt (<) (p # qs) \<and>
    (\<forall>q \<in> set qs. \<not> lbool_eq (lit_value S q) l_True \<and> \<not> lbool_eq (lit_value S q) l_False)"
  using assms
proof (induction S p ls arbitrary: qs rule: simplify_clause.induct)
  case (1 S p)
  then show ?case by simp
next
  case (2 S p l ls)
  show ?case
  proof (cases "\<not> lbool_eq (lit_value S l) l_False \<and> l \<noteq> p")
    case True
    then obtain qs' where qs: "qs = l # qs'" "simplify_clause S l ls = Some qs'"
      and nt: "\<not> (lbool_eq (lit_value S l) l_True \<or> l = neg p)"
      using "2.prems"(1) by (auto split: if_splits)
    have "p < l" using True "2.prems"(2) by (auto simp: order.strict_iff_order)
    then show ?thesis
      using "2.IH"(1) [OF nt True qs(2)] "2.prems"(2) qs nt True by (auto intro: less_trans)
  next
    case False
    then have nt: "simplify_clause S p ls = Some qs" "\<not> (lbool_eq (lit_value S l) l_True \<or> l = neg p)"
      using "2.prems"(1) by (auto split: if_splits)
    then show ?thesis
      using "2.IH"(2) [OF nt(2) False nt(1)] "2.prems"(2) by auto
  qed
qed

lemma sorted_Undef: "list_all (in_range S) ls \<Longrightarrow> sorted (lit_Undef # sort ls)"
  by (auto simp: list_all_iff less_eq_Lit_def lit_Undef_def valid_lit_def dest!: bspec in_range_valid)


lemma lits_mkClause [simp]: "lits (mkClause ps e l) = ps"
  by (simp add: mkClause_def calcAbstraction_def Let_def)

text \<open>The new clause, watched by its first two literals.\<close>

lemma attach_wf:
  fixes e b :: bool
  assumes wf: "wf_base S" and qs: "2 \<le> length qs" "distinct qs" "list_all (live S) qs"
  defines "cr \<equiv> length (ca S)"
  assumes cs: "set (cs @ ls) = insert cr (set (db S))" "distinct (cs @ ls)"
  defines "T \<equiv> S\<lparr>ca := ca S @ [mkClause qs e b], clauses := cs, learnts := ls\<rparr>"
  shows "wf_base (attachClause cr T) \<and> models (attachClause cr T) = models S \<inter> {\<sigma>. clause_holds \<sigma> qs}"
proof -
  define A where "A = push_watch (neg (qs ! 0)) (Watcher cr (qs ! 1)) T"
  define B where "B = push_watch (neg (qs ! 1)) (Watcher cr (qs ! 0)) A"
  have core: "wf_vars S" "wf_trail S" "wf_clauses S" "wf_watches S" "wf_free S"
    using wf by (auto simp: wf_base_def wf_core_def)
  have new: "cr \<notin> set (db S)" using core(3) by (auto simp: wf_clauses_def cr_def)
  have rng: "in_range S q" if "q \<in> set qs" for q
    using qs(3) that by (auto simp: list_all_iff live_def)
  have idx: "0 < length qs" "1 < length qs" using qs(1) by linarith+
  have q01: "qs ! 0 \<in> set qs" "qs ! 1 \<in> set qs" "qs ! 0 \<noteq> qs ! 1"
    using idx qs(2) nth_eq_iff_index_eq [of qs 0 1] by (auto simp del: length_greater_0_conv)
  have co: "clause_of T c = (if c = cr then qs else clause_of S c)" if "c < length (ca S) \<or> c = cr" for c
    using that by (auto simp: T_def cr_def nth_append)
  have eqB: "attachClause cr T = B"
    using co [of cr] by (simp add: attachClause_def A_def B_def)
  have inT: "in_range T = in_range S" "lit_value T = lit_value S" "level T = level S"
      "fixed_lits T = fixed_lits S" "watches T = watches S" "free_vars T = free_vars S"
    by (auto simp: T_def in_range_def lit_value_def level_def fixed_lits_def fun_eq_iff)
  have cl: "set (db T) = insert cr (set (db S))" "distinct (db T)"
    using cs by (simp_all add: T_def db_def)
  have wfT: "wf_vars T" "wf_trail T" "wf_clauses T"
  proof -
    show "wf_vars T" using core(1) by (simp add: wf_vars_def T_def)
    show "wf_trail T" 
      using core(2) by (cases "trail_lim S") (simp_all add: wf_trail_def inT, simp_all add: T_def)
    have "c < length (ca T) \<and> 2 \<le> length (clause_of T c) \<and> distinct (clause_of T c) \<and>
        (\<forall>l \<in> set (clause_of T c). in_range S l)" if "c \<in> insert cr (set (db S))" for c
    proof (cases "c = cr")
      case True
      then show ?thesis using co [of cr] qs(1,2) rng by (simp add: T_def cr_def)
    next
      case False
      then have "c \<in> set (db S)" "c < length (ca S)" using that core(3) by (auto simp: wf_clauses_def)
      moreover have "length (ca T) = Suc (length (ca S))" by (simp add: T_def)
      ultimately show ?thesis using core(3) co [of c] False unfolding wf_clauses_def by auto
    qed
    then show "wf_clauses T" using cl unfolding wf_clauses_def inT by simp
  qed
  have cin: "c < length (ca S)" if "c \<in> set (db S)" for c
    using core(3) that by (auto simp: wf_clauses_def)
  have "wf_watches B"
    unfolding wf_watches_def
  proof (intro allI impI)
    fix p assume "in_range B p"
    then have p: "in_range S p" by (simp add: B_def A_def inT)
    have old: "watch_ok S p (watches S ! nat (toInt p))" using core(4) p by (simp add: wf_watches_def)
    have w: "watches B ! nat (toInt p) = watches S ! nat (toInt p) @
        (if neg p = qs ! 0 then [Watcher cr (qs ! 1)]
         else if neg p = qs ! 1 then [Watcher cr (qs ! 0)] else [])"
      unfolding B_def A_def neg_swap [of p] using p rng [OF q01(1)] rng [OF q01(2)] q01(3) wfT(1)
      by (simp add: watches_push_watch inT)
    have "{c \<in> set (db B). neg p = clause_of B c ! 0 \<or> neg p = clause_of B c ! 1} =
      {c \<in> set (db S). neg p = clause_of S c ! 0 \<or> neg p = clause_of S c ! 1} \<union>
      (if neg p = qs ! 0 \<or> neg p = qs ! 1 then {cr} else {})"
      using co cin new by (auto simp: B_def A_def cl)
    moreover have "cr \<notin> cref ` set (watches S ! nat (toInt p))"
      using old new by (auto simp: watch_ok_def)
    ultimately show "watch_ok B p (watches B ! nat (toInt p))"
      using old unfolding watch_ok_def w by auto
  qed
  moreover have "wf_free B"
  proof -
    have eq: "free_vars B = free_vars S" "nVars B = nVars S" "trail B = trail S"
      "const_true B = const_true S" "set (db B) = insert cr (set (db S))" "ca B = ca T"
      using cl by (simp_all add: B_def A_def) (simp_all add: T_def)
    have "v \<notin> var ` set (clause_of T c)" if "v \<in> set (free_vars S)" "c \<in> insert cr (set (db S))" for v c
    proof (cases "c = cr")
      case True
      then show ?thesis using that(1) qs(3) co [of cr] by (auto simp: list_all_iff live_def)
    next
      case False
      then have "c \<in> set (db S)" using that(2) by simp
      then show ?thesis
        using that(1) core(5) co [of c] cin [of c] False by (simp add: wf_free_def)
    qed
    then show ?thesis
      using core(5) unfolding wf_free_def eq by blast
  qed
  moreover have "wf_clauses B" using wfT(3) by (simp add: B_def A_def wf_clauses_def)
  ultimately have "wf_base B"
    using wfT by (simp add: wf_base_def wf_core_def) (simp add: B_def A_def)
  moreover have "models B = models S \<inter> {\<sigma>. clause_holds \<sigma> qs}"
  proof -
    have "clause_holds \<sigma> (clause_of T c) = clause_holds \<sigma> (clause_of S c)"
      if "c \<in> set (db S)" for \<sigma> c
      using co [of c] cin [OF that] new that by auto
    moreover have "ok T = ok S" by (simp add: T_def)
    ultimately show ?thesis
      using co [of cr] unfolding B_def A_def models_push_watch models_def by (auto simp: cl inT)
  qed
  ultimately show ?thesis unfolding eqB by simp
qed

text \<open>Backtracking to level 0 keeps exactly the literals fixed there.\<close>

lemma nth_fold_undef:
  assumes "\<forall>l \<in> set ls. 0 \<le> var l" "0 \<le> v" "nat v < length a"
  shows "foldl (\<lambda>a l. a[nat (var l) := l_Undef]) a ls ! nat v =
    (if v \<in> var ` set ls then l_Undef else a ! nat v)"
  using assms
  by (induction ls arbitrary: a) (auto simp: nth_list_update)

lemma length_fold_undef [simp]:
  "length (foldl (\<lambda>a l. a[nat (var l) := l_Undef]) a ls) = length a"
  by (induction ls arbitrary: a) auto

lemma wf_fold_undef:
  "\<forall>a \<in> set xs. wf_lbool a \<Longrightarrow> \<forall>a \<in> set (foldl (\<lambda>a l. a[nat (var l) := l_Undef]) xs ls). wf_lbool a"
proof (induction ls arbitrary: xs)
  case (Cons l ls)
  have "\<forall>a \<in> set (xs[nat (var l) := l_Undef]). wf_lbool a"
    using Cons.prems by (auto dest!: set_update_subset_insert [THEN subsetD])
  then show ?case using Cons.IH by simp
qed simp

lemma cancelUntil_id [simp]: "trail_lim S = [] \<Longrightarrow> cancelUntil n S = S"
  by (simp add: cancelUntil_def)

lemma cancelUntil_simps [simp]:
  "nVars (cancelUntil 0 S) = nVars S" "ok (cancelUntil n S) = ok S"
  "db (cancelUntil n S) = db S" "ca (cancelUntil n S) = ca S"
  "vardata (cancelUntil n S) = vardata S" "decision (cancelUntil n S) = decision S"
  "watches (cancelUntil n S) = watches S" "free_vars (cancelUntil n S) = free_vars S"
  "const_true (cancelUntil n S) = const_true S" "trail_lim (cancelUntil 0 S) = []"
  by (simp_all add: cancelUntil_def Let_def)

lemma frame_cancelUntil [simp]:
  "in_range (cancelUntil 0 S) = in_range S" "level (cancelUntil 0 S) = level S"
  "live (cancelUntil 0 S) = live S"
  "watch_ok (cancelUntil 0 S) = watch_ok S" "wf_clauses (cancelUntil 0 S) = wf_clauses S"
  by (simp_all add: in_range_def level_def fun_eq_iff live_def watch_ok_def wf_clauses_def)

lemma set_trail_cancelUntil:
  assumes "wf_trail S"
  shows "set (trail (cancelUntil 0 S)) = fixed_lits S"
proof (cases "trail_lim S")
  case Nil
  then show ?thesis using fixed_lits_level0 [OF assms] by simp
next
  case (Cons n ns)
  have "\<forall>l \<in> set (take n (trail S)). level S (var l) = 0"
    using assms Cons by (simp add: wf_trail_def)
  moreover have "set (trail S) = set (take n (trail S)) \<union> set (drop n (trail S))"
    by (metis append_take_drop_id set_append)
  ultimately show ?thesis
    by (auto simp: cancelUntil_def Cons fixed_lits_def)
qed

lemma lit_value_cancelUntil:
  assumes wf: "wf_trail S" and l: "in_range S l"
  shows "tri (lit_value (cancelUntil 0 S) l) = Some True \<longleftrightarrow> l \<in> fixed_lits S"
proof (cases "trail_lim S")
  case Nil
  then show ?thesis using fixed_lits_level0 [OF wf] wf l by (simp add: wf_trail_def)
next
  case (Cons n ns)
  define und where "und = filter (\<lambda>l. \<not> level S (var l) \<le> 0) (drop n (trail S))"
  have sub: "set und \<subseteq> set (trail S)" using set_drop_subset by (force simp: und_def)
  have val: "tri (lit_value S l) = Some True \<longleftrightarrow> l \<in> set (trail S)" using wf l by (simp add: wf_trail_def)
  have pre: "\<forall>l \<in> set (take n (trail S)). level S (var l) = 0"
    using wf Cons by (simp add: wf_trail_def)
  have un: "set (trail S) = set (take n (trail S)) \<union> set (drop n (trail S))"
    by (metis append_take_drop_id set_append)
  have "assigns (cancelUntil 0 S) = foldl (\<lambda>a l. a[nat (var l) := l_Undef]) (assigns S) und"
    by (simp add: cancelUntil_def Cons und_def)
  moreover have "\<forall>l \<in> set und. 0 \<le> var l"
    using sub wf by (auto simp: wf_trail_def in_range_def)
  ultimately have "lit_value (cancelUntil 0 S) l =
      (if var l \<in> var ` set und then lbool_xor l_Undef (sign l) else lit_value S l)"
    using l var_index [OF l] by (auto simp: lit_value_def nth_fold_undef in_range_def)
  moreover have "l \<in> fixed_lits S \<longleftrightarrow> var l \<notin> var ` set und \<and> l \<in> set (trail S)"
  proof
    assume "l \<in> fixed_lits S"
    then show "var l \<notin> var ` set und \<and> l \<in> set (trail S)"
      by (auto simp: fixed_lits_def und_def)
  next
    assume "var l \<notin> var ` set und \<and> l \<in> set (trail S)"
    then show "l \<in> fixed_lits S"
      using un pre by (auto simp: fixed_lits_def und_def)
  qed
  ultimately show ?thesis using val by auto
qed

lemma wf_trail_cancelUntil:
  assumes wf: "wf_vars S" "wf_trail S"
  shows "wf_vars (cancelUntil 0 S) \<and> wf_trail (cancelUntil 0 S)"
proof (cases "trail_lim S")
  case Nil
  then show ?thesis using wf by simp
next
  case (Cons n ns)
  let ?T = "cancelUntil 0 S"
  have n: "n \<le> length (trail S)" using wf(2) Cons by (simp add: wf_trail_def)
  have st: "set (trail ?T) = fixed_lits S" by (rule set_trail_cancelUntil [OF wf(2)])
  have eqs: "trail ?T = take n (trail S) @ filter (\<lambda>l. level S (var l) \<le> 0) (drop n (trail S))"
    "qhead ?T = n" by (simp_all add: cancelUntil_def Cons)
  have "distinct (map var (take n (trail S) @ drop n (trail S)))"
    using wf(2) by (simp only: append_take_drop_id wf_trail_def)
  then have "distinct (map var (trail ?T))"
    unfolding eqs map_append distinct_append
    by (auto intro: distinct_map_filter) 
  moreover have "\<forall>a \<in> set (assigns ?T). wf_lbool a"
    using wf(1) wf_fold_undef [of "assigns S"] by (simp add: cancelUntil_def Cons wf_vars_def)
  ultimately show ?thesis
    using wf n st lit_value_cancelUntil [OF wf(2)]
    unfolding wf_vars_def wf_trail_def by (auto simp: fixed_lits_def eqs(2) eqs(1) Cons)
qed

lemma cancelUntil_wf:
  assumes "wf_base S"
  shows "wf_base (cancelUntil 0 S) \<and> fixed_lits (cancelUntil 0 S) = fixed_lits S \<and>
    models (cancelUntil 0 S) = models S"
proof -
  have wf: "wf_vars S" "wf_trail S" using assms by (auto simp: wf_base_def wf_core_def)
  note T = wf_trail_cancelUntil [OF wf]
  have fx: "fixed_lits (cancelUntil 0 S) = fixed_lits S"
    using fixed_lits_level0 [of "cancelUntil 0 S"] T set_trail_cancelUntil [OF wf(2)] by simp
  have "wf_free (cancelUntil 0 S)"
    using assms set_trail_cancelUntil [OF wf(2)]
    by (auto simp: wf_base_def wf_free_def fixed_lits_def)
  then show ?thesis
    using assms T fx by (simp add: wf_base_def wf_core_def wf_watches_def models_def)
qed

text \<open>What \<open>addClause\<close> keeps: the variables, and the literals fixed so far.\<close>

definition same_vars :: "Solver \<Rightarrow> Solver \<Rightarrow> bool" where
  "same_vars S S' \<longleftrightarrow> nVars S' = nVars S \<and> free_vars S' = free_vars S \<and>
     const_true S' = const_true S \<and> (ok S' \<longrightarrow> ok S \<and> fixed_lits S \<subseteq> fixed_lits S')"

lemma same_vars_refl [simp]: "same_vars S S"
  by (simp add: same_vars_def)

lemma same_vars_live: "same_vars S S' \<Longrightarrow> live S' = live S"
  by (auto simp: same_vars_def live_def in_range_def fun_eq_iff)

lemma same_vars_const: "same_vars S S' \<Longrightarrow> wf_const S \<Longrightarrow> wf_const S'"
  by (auto simp: same_vars_def wf_const_def in_range_def)

lemma wf_base_ok: "wf_base (S\<lparr>ok := b\<rparr>) = wf_base S"
  by (simp add: wf_base_def wf_core_def wf_vars_def wf_trail_def wf_clauses_def wf_watches_def wf_free_def
      watch_ok_def in_range_def lit_value_def level_def split: list.split)

lemma ok_frame [simp]:
  "fixed_lits (S\<lparr>ok := b\<rparr>) = fixed_lits S" "models (S\<lparr>ok := False\<rparr>) = {}"
  by (simp_all add: fixed_lits_def level_def models_def)

lemma models_ok_True: "ok S \<Longrightarrow> models (S\<lparr>ok := True\<rparr>) = models S"
  by (simp add: models_def)

lemma models_fixed: "\<sigma> \<in> models S \<Longrightarrow> l \<in> fixed_lits S \<Longrightarrow> lit_holds \<sigma> l"
  by (simp add: models_def)

lemma wf_base_uncheckedEnqueue:
  assumes "wf_base S" "live S l" "lbool_eq (lit_value S l) l_Undef"
  shows "wf_base (uncheckedEnqueue l r S)"
  using assms wf_vars_uncheckedEnqueue [of S l r] wf_trail_uncheckedEnqueue [of S l r]
  by (auto simp: wf_base_def wf_core_def wf_free_def live_def)

lemma addClause_unit:
  assumes wf: "wf_base S" "trail_lim S = []" "ok S" and l: "live S l" "lbool_eq (lit_value S l) l_Undef"
  shows "\<exists>confl S'. propagate (uncheckedEnqueue l None S) = Some (confl, S') \<and>
    wf_base (S'\<lparr>ok := (confl = None)\<rparr>) \<and> same_vars S (S'\<lparr>ok := (confl = None)\<rparr>) \<and>
    l \<in> fixed_lits S' \<and> trail_lim S' = [] \<and>
    models (S'\<lparr>ok := (confl = None)\<rparr>) = models S \<inter> {\<sigma>. lit_holds \<sigma> l}"
proof -
  let ?U = "uncheckedEnqueue l None S"
  have core: "wf_vars S" "wf_trail S" "in_range S l"
    using wf l by (auto simp: wf_base_def wf_core_def live_def)
  have mU: "models ?U = models S \<inter> {\<sigma>. lit_holds \<sigma> l}"
    using models_uncheckedEnqueue core l wf by blast
  have "trail_lim ?U = []" using wf by simp
  from propagate_level0 [OF wf_base_uncheckedEnqueue [OF wf(1) l, of None] this]
  obtain confl S' where S': "propagate ?U = Some (confl, S')" "wf_base S'" "prop_rel ?U S'"
    "confl \<noteq> None \<longrightarrow> models ?U = {}"
    by blast
  have tr: "set (trail S) \<union> {l} \<subseteq> set (trail S')" "trail_lim S' = []" "ok S'" "models S' = models ?U"
    and eq: "nVars S' = nVars S" "free_vars S' = free_vars S" "const_true S' = const_true S"
    using S'(3) wf by (auto simp: prop_rel_def)
  have "fixed_lits S = set (trail S)" "fixed_lits S' = set (trail S')"
    using fixed_lits_level0 core wf tr S'(2) by (auto simp: wf_base_def wf_core_def)
  moreover have "models (S'\<lparr>ok := (confl = None)\<rparr>) = models ?U"
    using S'(4) tr(3,4) by (cases confl) (simp_all add: models_ok_True)
  ultimately show ?thesis
    using S'(1,2) tr eq mU wf(3) by (auto simp: wf_base_ok same_vars_def)
qed

lemma addClause_impl_ok:
  assumes wf: "wf_base S" "trail_lim S = []" and ps: "list_all (live S) ps"
  shows "\<exists>b S'. addClause_impl ps S = Some (b, S') \<and> wf_base S' \<and> same_vars S S' \<and> b = ok S' \<and>
    trail_lim S' = [] \<and> models S' = models S \<inter> {\<sigma>. clause_holds \<sigma> ps} \<and>
    (\<forall>l. ps = [l] \<and> ok S' \<longrightarrow> l \<in> fixed_lits S')"
proof (cases "ok S")
  case False
  then show ?thesis using wf by (auto simp: addClause_impl_def models_def)
next
  case True
  have core: "wf_vars S" "wf_trail S" using wf by (auto simp: wf_base_def wf_core_def)
  have fx: "fixed_lits S = set (trail S)" using fixed_lits_level0 core wf by blast
  have rng: "list_all (in_range S) ps" "list_all (in_range S) (sort ps)"
    using ps by (auto simp: list_all_iff live_def)
  have trail: "l \<in> set (trail S) \<Longrightarrow> lit_holds \<sigma> l" if "\<sigma> \<in> models S" for l \<sigma>
    using models_fixed that fx by blast
  have sort: "clause_holds \<sigma> (sort ps) = clause_holds \<sigma> ps" for \<sigma> by (simp add: clause_holds_def)
  show ?thesis
  proof (cases "simplify_clause S lit_Undef (sort ps)")
    case None
    have "clause_holds \<sigma> ps" if "\<sigma> \<in> models S" for \<sigma>
      using simplify_clause_None [OF None core rng(2) trail [OF that]] sort by auto
    moreover have "l \<in> fixed_lits S" if "ps = [l]" for l
    proof -
      have l: "in_range S l" using that rng by simp
      then have "l \<noteq> neg lit_Undef" by (metis in_range_neg in_range_neq(2))
      then show ?thesis
        using None that core fx value_tri(1) [OF core l] by (simp split: if_splits)
    qed
    ultimately show ?thesis
      using None True rng wf by (auto simp: addClause_impl_def)
  next
    case (Some qs)
    have sound: "clause_holds \<sigma> ps \<longleftrightarrow> clause_holds \<sigma> qs" if "\<sigma> \<in> models S" for \<sigma>
      using simplify_clause_sound [OF Some core rng(2) trail [OF that]] sort by simp
    have shape: "set qs \<subseteq> set ps" "sorted_wrt (<) qs"
      "\<And>q. q \<in> set qs \<Longrightarrow> \<not> lbool_eq (lit_value S q) l_True \<and> \<not> lbool_eq (lit_value S q) l_False"
      using simplify_clause_shape [OF Some sorted_Undef [OF rng(1)]] by auto
    have lv: "list_all (live S) qs" using shape(1) ps by (auto simp: list_all_iff)
    have und: "lbool_eq (lit_value S q) l_Undef" if "q \<in> set qs" for q
      using shape(3) [OF that] core(1) by (cases "tri (lit_value S q)") auto
    have mod: "models S \<inter> {\<sigma>. clause_holds \<sigma> ps} = models S \<inter> {\<sigma>. clause_holds \<sigma> qs}"
      using sound by blast
    consider "qs = []" | q where "qs = [q]" | a b r where "qs = a # b # r" by (metis list.exhaust)
    then show ?thesis
    proof cases
      case 1
      then show ?thesis
        using Some True rng wf mod by (auto simp: addClause_impl_def wf_base_ok same_vars_def clause_holds_def)
    next
      case 2
      from addClause_unit [OF wf True _ und [of q]] lv 2 obtain confl S' where
        S': "propagate (uncheckedEnqueue q None S) = Some (confl, S')"
        "wf_base (S'\<lparr>ok := (confl = None)\<rparr>)" "same_vars S (S'\<lparr>ok := (confl = None)\<rparr>)"
        "q \<in> fixed_lits S'" "trail_lim S' = []"
        "models (S'\<lparr>ok := (confl = None)\<rparr>) = models S \<inter> {\<sigma>. lit_holds \<sigma> q}"
        by auto
      moreover have "ps = [l] \<Longrightarrow> l = q" for l using shape(1) 2 by auto
      ultimately show ?thesis
        using Some True rng 2 mod by (auto simp: addClause_impl_def clause_holds_def)
    next
      case 3
      have d: "2 \<le> length qs" "distinct qs"
        using 3 shape(2) by (auto simp: strict_sorted_iff)
      let ?cr = "length (ca S)"
      let ?T = "S\<lparr>ca := ca S @ [mkClause qs False False], clauses := clauses S @ [?cr], learnts := learnts S\<rparr>"
      let ?S = "attachClause ?cr ?T"
      have fresh: "distinct (db S)" "?cr \<notin> set (db S)"
        using wf(1) by (auto simp: wf_base_def wf_core_def wf_clauses_def)
      have eq: "addClause_impl ps S = Some (True, ?S)"
        using Some True rng 3 by (simp add: addClause_impl_def alloc_clause_def)
      have "ok ?S" "trail_lim ?S = []" "same_vars S ?S"
        using True wf(2) by (simp_all add: attachClause_def same_vars_def Let_def)
          (auto simp: fixed_lits_def level_def)
      moreover have "ps \<noteq> [l]" for l
        using shape(1) d 3 by (cases ps) auto
      ultimately show ?thesis
        using eq attach_wf [OF wf(1) d lv, of "clauses S @ [?cr]" "learnts S"] fresh mod by (auto simp: db_def)
    qed
  qed
qed

lemma addClause_base:
  assumes "wf_base S" "list_all (live S) ps"
  shows "\<exists>S'. addClause ps S = Some S' \<and> wf_base S' \<and> same_vars S S' \<and> trail_lim S' = [] \<and>
    models S' = models S \<inter> {\<sigma>. clause_holds \<sigma> ps} \<and> (\<forall>l. ps = [l] \<and> ok S' \<longrightarrow> l \<in> fixed_lits S')"
proof -
  have T: "wf_base (cancelUntil 0 S)" "fixed_lits (cancelUntil 0 S) = fixed_lits S"
    "models (cancelUntil 0 S) = models S"
    using cancelUntil_wf [OF assms(1)] by auto
  from addClause_impl_ok [OF T(1) _, of ps] assms(2) obtain b S' where
    "addClause_impl ps (cancelUntil 0 S) = Some (b, S')" "wf_base S'" "same_vars (cancelUntil 0 S) S'"
    "trail_lim S' = []" "models S' = models (cancelUntil 0 S) \<inter> {\<sigma>. clause_holds \<sigma> ps}"
    "\<forall>l. ps = [l] \<and> ok S' \<longrightarrow> l \<in> fixed_lits S'"
    by auto
  then show ?thesis
    using T by (auto simp: addClause_def same_vars_def)
qed

subsection \<open>New variables\<close>

lemma live_trail: "wf_base S \<Longrightarrow> l \<in> set (trail S) \<Longrightarrow> live S l"
  by (auto simp: wf_base_def wf_core_def wf_trail_def wf_free_def live_def)

lemma live_clause: "wf_base S \<Longrightarrow> cr \<in> set (db S) \<Longrightarrow> l \<in> set (clause_of S cr) \<Longrightarrow> live S l"
  unfolding wf_base_def wf_core_def wf_clauses_def wf_free_def live_def by blast

lemma models_cong:
  assumes "wf_base S" "\<And>l. live S l \<Longrightarrow> \<sigma> (var l) = \<tau> (var l)"
  shows "\<sigma> \<in> models S \<longleftrightarrow> \<tau> \<in> models S"
proof -
  have "lit_holds \<sigma> l = lit_holds \<tau> l" if "live S l" for l
    using assms(2) [OF that] by (simp add: lit_holds_def)
  then show ?thesis
    using live_trail [OF assms(1)] live_clause [OF assms(1)]
    unfolding models_def clause_holds_def fixed_lits_def mem_Collect_eq by blast
qed

lemma newVar_cases:
  assumes "newVar d S = (v, S')" "wf_base S"
  obtains (reuse) "free_vars S \<noteq> []" "v = last (free_vars S)"
      "S' = S\<lparr>free_vars := butlast (free_vars S),
        watches := (watches S)[nat (2 * v) := [], nat (2 * v + 1) := []],
        assigns := (assigns S)[nat v := l_Undef],
        vardata := (vardata S)[nat v := \<lparr>vd_reason = None, vd_level = 0\<rparr>],
        decision := (decision S)[nat v := d]\<rparr>"
  | (fresh) "free_vars S = []" "v = int (nVars S)"
      "S' = S\<lparr>watches := watches S @ [[], []], assigns := assigns S @ [l_Undef],
        vardata := vardata S @ [\<lparr>vd_reason = None, vd_level = 0\<rparr>],
        decision := decision S @ [d]\<rparr>"
proof (cases "free_vars S = []")
  case True
  have "length (watches S) = 2 * nVars S" "length (vardata S) = nVars S" "length (decision S) = nVars S"
    using assms(2) by (auto simp: wf_base_def wf_core_def wf_vars_def)
  then show ?thesis
    using assms(1) True
    by (intro fresh) (auto simp: newVar_def vec_grow_def mkLit_val toInt_def nat_add_distrib nat_mult_distrib
       list_update_append numeral_2_eq_2)
next
  case False
  have "last (free_vars S) \<in> set (free_vars S)" using False by simp
  then have v: "0 \<le> last (free_vars S)" "last (free_vars S) < int (nVars S)"
    "length (watches S) = 2 * nVars S"
    using assms(2) by (auto simp: wf_base_def wf_free_def wf_core_def wf_vars_def)
  then have "vec_grow (nat (2 * last (free_vars S) + 1) + 1) [] (watches S) = watches S"
    by (simp add: vec_grow_def)
  then show ?thesis
    using assms(1) False by (intro reuse) (auto simp: newVar_def mkLit_val toInt_def)
qed


text \<open>Every variable that is not live is unconstrained, and the new variable is one of them.\<close>

lemma watch_ok_unused:
  assumes "\<forall>cr \<in> set (db S). var p \<notin> var ` set (clause_of S cr) \<and> 2 \<le> length (clause_of S cr)"
  shows "watch_ok S p []"
proof -
  have "neg p \<noteq> clause_of S cr ! 0 \<and> neg p \<noteq> clause_of S cr ! 1" if "cr \<in> set (db S)" for cr
  proof -
    have "0 < length (clause_of S cr)" "1 < length (clause_of S cr)" using assms that by force+
    then have "clause_of S cr ! 0 \<in> set (clause_of S cr)" "clause_of S cr ! 1 \<in> set (clause_of S cr)"
      by (blast intro: nth_mem)+
    then show ?thesis using assms that by (metis image_eqI var_neg)
  qed
  then show ?thesis by (auto simp: watch_ok_def)
qed

lemma toInt_index:
  assumes "0 \<le> var p"
  shows "nat (toInt p) = (if sign p then nat (2 * var p + 1) else nat (2 * var p))"
  using litx_var_sign [of p] by (simp add: toInt_def)

lemma wf_trail_cong:
  assumes "wf_trail S" "trail S' = trail S" "trail_lim S' = trail_lim S" "qhead S' = qhead S"
    "\<And>l. l \<in> set (trail S) \<Longrightarrow> in_range S' l \<and> level S' (var l) = level S (var l)"
    "\<And>l. in_range S' l \<Longrightarrow> tri (lit_value S' l) = Some True \<longleftrightarrow> l \<in> set (trail S)"
  shows "wf_trail S'"
  using assms(1,5,6) set_take_subset [of _ "trail S"] unfolding wf_trail_def assms(2-4)
  by (simp add: subset_iff) 

lemma newVar_fresh_wf:
  fixes d :: bool
  assumes wf: "wf_base S" and fv: "free_vars S = []"
  defines "S' \<equiv> S\<lparr>watches := watches S @ [[], []], assigns := assigns S @ [l_Undef],
        vardata := vardata S @ [\<lparr>vd_reason = None, vd_level = 0\<rparr>],
        decision := decision S @ [d]\<rparr>"
  shows "wf_base S' \<and> models S' = models S \<and> fixed_lits S' = fixed_lits S"
proof -
  have core: "wf_vars S" "wf_trail S" "wf_clauses S" "wf_watches S"
    using wf by (auto simp: wf_base_def wf_core_def)
  have rng: "in_range S' p \<longleftrightarrow> in_range S p \<or> var p = int (nVars S)" for p
    by (auto simp: in_range_def S'_def)
  have lv: "level S' (var p) = level S (var p)" "lit_value S' p = lit_value S p" if "in_range S p" for p
    using that core(1) var_index [OF that] rng [of p] 
    by (simp_all add: level_def lit_value_def wf_vars_def) (simp_all add: S'_def nth_append)
  have new: "tri (lit_value S' p) = None" if "var p = int (nVars S)" for p
    using that by (simp add: lit_value_def rng) (simp add: S'_def)
  have tr: "in_range S p" if "p \<in> set (trail S)" for p using that core(2) by (simp add: wf_trail_def)
  have fx: "fixed_lits S' = fixed_lits S"
    using tr lv(1) by (auto simp: fixed_lits_def) (auto simp: S'_def)
  have "wf_vars S'" using core(1) by (auto simp: wf_vars_def S'_def)
  moreover have "wf_trail S'"
  proof -
    have "tri (lit_value S' l) = Some True \<longleftrightarrow> l \<in> set (trail S)" if "in_range S' l" for l
      using that core(2) lv(2) [of l] new [of l] tr [of l] unfolding rng wf_trail_def
      by (auto simp: in_range_def)
    then show ?thesis
      using tr lv(1) rng by (intro wf_trail_cong [OF core(2)]) (auto simp: S'_def)
  qed
  moreover have "wf_clauses S'"
    using core(3) by (auto simp: wf_clauses_def rng) (auto simp: S'_def)
  moreover have "wf_watches S'"
    unfolding wf_watches_def
  proof (intro allI impI)
    fix p assume p: "in_range S' p"
    have eq: "watch_ok S' = watch_ok S" by (simp add: fun_eq_iff watch_ok_def S'_def)
    have len: "length (watches S) = 2 * nVars S" using core(1) by (simp add: wf_vars_def)
    show "watch_ok S' p (watches S' ! nat (toInt p))"
    proof (cases "in_range S p")
      case True
      then show ?thesis
        using core(4) watch_index [OF True] len unfolding eq wf_watches_def
        by (simp add: S'_def nth_append)
    next
      case False
      then have v: "var p = int (nVars S)" using p rng by blast
      have "\<forall>cr \<in> set (db S). var p \<notin> var ` set (clause_of S cr) \<and> 2 \<le> length (clause_of S cr)"
        using core(3) v by (fastforce simp: wf_clauses_def in_range_def)
      moreover have "watches S' ! nat (toInt p) = []"
        using v len by (auto simp: toInt_index S'_def nth_append nat_add_distrib nat_mult_distrib)
      ultimately show ?thesis unfolding eq using watch_ok_unused [of S p] by simp
    qed
  qed
  moreover have "wf_free S'" using fv by (simp add: wf_free_def S'_def)
  moreover have "models S' = models S" using fx by (simp add: models_def) (simp add: S'_def)
  ultimately show ?thesis using fx by (simp add: wf_base_def wf_core_def)
qed


lemma newVar_reuse_wf:
  fixes d :: bool
  assumes wf: "wf_base S" and fv: "free_vars S \<noteq> []"
  defines "v \<equiv> last (free_vars S)"
  defines "S' \<equiv> S\<lparr>free_vars := butlast (free_vars S),
        watches := (watches S)[nat (2 * v) := [], nat (2 * v + 1) := []],
        assigns := (assigns S)[nat v := l_Undef],
        vardata := (vardata S)[nat v := \<lparr>vd_reason = None, vd_level = 0\<rparr>],
        decision := (decision S)[nat v := d]\<rparr>"
  shows "wf_base S' \<and> models S' = models S \<and> fixed_lits S' = fixed_lits S"
proof -
  have core: "wf_vars S" "wf_trail S" "wf_clauses S" "wf_watches S" "wf_free S"
    using wf by (auto simp: wf_base_def wf_core_def)
  have vin: "v \<in> set (free_vars S)" using fv by (simp add: v_def)
  then have v: "0 \<le> v" "v < int (nVars S)" "v \<notin> var ` set (trail S)"
    "\<forall>cr \<in> set (db S). v \<notin> var ` set (clause_of S cr)"
    using core(5) by (auto simp: wf_free_def)
  have rng: "in_range S' = in_range S" by (simp add: fun_eq_iff in_range_def S'_def)
  have lv: "level S' (var p) = level S (var p)" "lit_value S' p = lit_value S p"
    if "in_range S p" "var p \<noteq> v" for p
    using that v(1) by (auto simp: level_def lit_value_def rng S'_def nth_list_update in_range_def)
  have new: "tri (lit_value S' p) = None" if "var p = v" for p
    using that v by (auto simp: lit_value_def S'_def)
  have tr: "in_range S p \<and> var p \<noteq> v" if "p \<in> set (trail S)" for p
    using that core(2) v(3) by (auto simp: wf_trail_def)
  have fx: "fixed_lits S' = fixed_lits S"
    using tr lv(1) by (auto simp: fixed_lits_def) (auto simp: S'_def)
  have "wf_vars S'"
    using core(1) by (auto simp: wf_vars_def S'_def dest!: set_update_subset_insert [THEN subsetD])
  moreover have "wf_trail S'"
  proof -
    have "tri (lit_value S' l) = Some True \<longleftrightarrow> l \<in> set (trail S)" if "in_range S l" for l
      using that core(2) lv(2) [of l] new [of l] tr [of l] unfolding wf_trail_def
      by (cases "var l = v") auto
    then show ?thesis
      using tr lv(1) rng by (intro wf_trail_cong [OF core(2)]) (auto simp: S'_def)
  qed
  moreover have "wf_clauses S'"
    using core(3) by (simp add: wf_clauses_def rng) (simp add: S'_def)
  moreover have "wf_watches S'"
    unfolding wf_watches_def rng
  proof (intro allI impI)
    fix p assume p: "in_range S p"
    have eq: "watch_ok S' = watch_ok S" by (simp add: fun_eq_iff watch_ok_def S'_def)
    have len: "length (watches S) = 2 * nVars S" using core(1) by (simp add: wf_vars_def)
    show "watch_ok S' p (watches S' ! nat (toInt p))"
    proof (cases "var p = v")
      case False
      then have "watches S' ! nat (toInt p) = watches S ! nat (toInt p)"
        using p v(1) by (auto simp: toInt_index S'_def in_range_def nth_list_update)
      then show ?thesis using core(4) p unfolding eq wf_watches_def by simp
    next
      case True
      have "\<forall>cr \<in> set (db S). var p \<notin> var ` set (clause_of S cr) \<and> 2 \<le> length (clause_of S cr)"
        using core(3) v(4) True by (simp add: wf_clauses_def)
      moreover have "watches S' ! nat (toInt p) = []"
        using True v len by (auto simp: toInt_index S'_def nth_list_update)
      ultimately show ?thesis unfolding eq using watch_ok_unused [of S p] by simp
    qed
  qed
  moreover have "wf_free S'"
    using core(5) fv in_set_butlastD [of _ "free_vars S"]
    by (simp add: wf_free_def S'_def distinct_butlast)
  moreover have "models S' = models S" using fx by (simp add: models_def) (simp add: S'_def)
  ultimately show ?thesis using fx by (simp add: wf_base_def wf_core_def)
qed

lemma newVar_ok:
  assumes "newVar d S = (v, S')" "wf_base S"
  shows "wf_base S' \<and> models S' = models S \<and> fixed_lits S' = fixed_lits S \<and> ok S' = ok S \<and>
    trail_lim S' = trail_lim S \<and> const_true S' = const_true S \<and> 0 \<le> v \<and>
    (\<forall>l. live S' l \<longleftrightarrow> live S l \<or> var l = v) \<and> (\<forall>l. live S l \<longrightarrow> var l \<noteq> v)"
  using assms
proof (cases rule: newVar_cases)
  case reuse
  have "distinct (butlast (free_vars S) @ [v])"
    using reuse(1,2) assms(2) by (simp add: wf_base_def wf_free_def)
  moreover have "set (free_vars S) = insert v (set (butlast (free_vars S)))"
    using reuse(1,2) by (metis append_butlast_last_id list.simps(15) set_append rotate1.simps(2) set_rotate1)
  moreover have "0 \<le> v" "v < int (nVars S)"
    using reuse(1,2) assms(2) by (auto simp: wf_base_def wf_free_def)
  ultimately have "0 \<le> v" "\<forall>l. live S' l \<longleftrightarrow> live S l \<or> var l = v" "\<forall>l. live S l \<longrightarrow> var l \<noteq> v"
    using reuse(3) by (auto simp: live_def in_range_def)
  then show ?thesis
    using newVar_reuse_wf [OF assms(2) reuse(1), of d] reuse(2,3) by simp
next
  case fresh
  then have "0 \<le> v" "\<forall>l. live S' l \<longleftrightarrow> live S l \<or> var l = v" "\<forall>l. live S l \<longrightarrow> var l \<noteq> v"
    by (auto simp: live_def in_range_def)
  then show ?thesis
    using newVar_fresh_wf [OF assms(2) fresh(1), of d] fresh by simp
qed

subsection \<open>The solver implements the interface of the circuits\<close>

lemma wf_init [simp]: "wf_solver init_solver"
  by (auto simp: wf_solver_def init_solver_def db_def wf_vars_def wf_trail_def wf_clauses_def wf_watches_def
      wf_free_def wf_const_def in_range_def)

lemma newVar_wf:
  assumes "wf_solver S" "newVar d S = (v, S')"
  shows "wf_solver S' \<and> models S' = models S \<and> 0 \<le> v \<and> (\<forall>l. live S' l \<longleftrightarrow> live S l \<or> var l = v) \<and>
    (\<forall>l. live S l \<longrightarrow> var l \<noteq> v) \<and> const_true S' = const_true S"
proof -
  have n: "wf_base S'" "models S' = models S" "fixed_lits S' = fixed_lits S" "ok S' = ok S"
    "const_true S' = const_true S" "0 \<le> v" "\<forall>l. live S' l \<longleftrightarrow> live S l \<or> var l = v"
    "\<forall>l. live S l \<longrightarrow> var l \<noteq> v"
    using newVar_ok [OF assms(2)] assms(1) by (auto simp: wf_solver_base)
  have "const_true S = lit_Undef \<or> live S (const_true S)"
    using assms(1) by (auto simp: wf_solver_base wf_const_def wf_base_def wf_free_def live_def)
  then have "wf_const S'"
    using assms(1) n by (auto simp: wf_solver_base wf_const_def live_in_range)
  then show ?thesis using n by (simp add: wf_solver_base)
qed

lemma addClause_wf:
  assumes "wf_solver S" "list_all (live S) ps"
  shows "\<exists>S'. addClause ps S = Some S' \<and> wf_solver S' \<and> live S' = live S \<and>
    models S' = models S \<inter> {\<sigma>. clause_holds \<sigma> ps} \<and> const_true S' = const_true S"
proof -
  from addClause_base [OF _ assms(2)] assms(1) obtain S' where
    "addClause ps S = Some S'" "wf_base S'" "same_vars S S'"
    "models S' = models S \<inter> {\<sigma>. clause_holds \<sigma> ps}"
    by (auto simp: wf_solver_base)
  moreover have "const_true S' = const_true S" using calculation by (simp add: same_vars_def)
  ultimately show ?thesis
    using assms(1) same_vars_live [of S S'] same_vars_const [of S S'] by (simp add: wf_solver_base)
qed

lemma agree_live:
  assumes "agree live S \<sigma> \<tau>" "live S l"
  shows "\<tau> (var l) = \<sigma> (var l)"
  using assms by (auto simp: agree_def lit_holds_def)

interpretation sol: sat_interface wf_solver live models newVar addClause
proof
  show "local_to live S (\<lambda>\<sigma>. \<sigma> \<in> models S)" if "wf_solver S" for S
    unfolding local_to_def
  proof (intro allI impI)
    fix \<sigma> \<tau> assume "agree live S \<sigma> \<tau>"
    then show "(\<tau> \<in> models S) = (\<sigma> \<in> models S)"
      using that agree_live by (intro models_cong) (auto simp: wf_solver_base)
  qed
qed (use newVar_wf addClause_wf in blast)+

lemma prop_rel_same_vars:
  assumes "prop_rel S S'" "wf_trail S" "wf_trail S'" "trail_lim S = []"
  shows "same_vars S S'"
  using assms fixed_lits_level0 [of S] fixed_lits_level0 [of S']
  by (auto simp: prop_rel_def same_vars_def)

lemma const_true_fixed:
  "wf_solver S \<Longrightarrow> const_true S \<noteq> lit_Undef \<Longrightarrow>
     live S (const_true S) \<and> (\<forall>\<sigma> \<in> models S. lit_holds \<sigma> (const_true S))"
  by (auto simp: wf_solver_base wf_const_def wf_base_def wf_free_def live_def models_def)

lemma solver_True_wf:
  assumes wf: "wf_solver S"
  shows "\<exists>S'. solver_True S = Some (const_true S', S') \<and> const_true S' \<noteq> lit_Undef \<and>
    sat_ext wf_solver live models S (\<lambda>_. True) S'"
proof (cases "const_true S = lit_Undef")
  case False
  then show ?thesis using wf sol.ext_refl by (simp add: solver_True_def)
next
  case True
  obtain v S1 where nv: "newVar False (cancelUntil 0 S) = (v, S1)" by (metis surj_pair)
  define T where "T = S1\<lparr>const_true := mkLit v False\<rparr>"
  have c: "wf_solver (cancelUntil 0 S)" "models (cancelUntil 0 S) = models S"
    using cancelUntil_wf [of S] wf True by (auto simp: wf_solver_base wf_const_def)
  note n = newVar_wf [OF c(1) nv]
  have lT: "live T = live S1" by (auto simp: T_def live_def in_range_def fun_eq_iff)
  have mT: "models T = models S1" by (simp add: T_def models_def fixed_lits_def level_def)
  have bT: "wf_base T"
  proof -
    have "live S1 (mkLit v False)" using n by (simp add: lit_simps)
    then show ?thesis
      using n unfolding wf_solver_base T_def wf_base_def wf_core_def wf_vars_def wf_clauses_def wf_free_def
      by (auto simp: wf_trail_def wf_watches_def watch_ok_def in_range_def lit_value_def level_def live_def
          lit_simps split: list.splits)
  qed
  have nU: "mkLit v False \<noteq> lit_Undef" using n by (auto simp: mkLit_def lit_Undef_def)
  have ext: "sat_ext wf_solver live models S (\<lambda>_. True) S'"
    if "wf_base S'" "wf_const S'" "live S' = live S1" "models S' = models S1 \<inter> {\<sigma>. lit_holds \<sigma> (mkLit v False)}" for S'
  proof -
    have "\<exists>\<tau> \<in> models S'. agree live S \<sigma> \<tau>" if \<sigma>: "\<sigma> \<in> models S" for \<sigma>
    proof (rule bexI [of _ "\<sigma>(v := True)"])
      show ag: "agree live S \<sigma> (\<sigma>(v := True))"
        using n by (auto simp: agree_def lit_holds_def)
      then show "\<sigma>(v := True) \<in> models S'"
        using sol.mods_local [OF wf] \<sigma> n c(2) that \<open>models S' = _\<close>
        by (auto simp: local_to_def lit_holds_def lit_simps)
    qed
    then show ?thesis
      using that n c(2) by (auto simp: sat_ext_def wf_solver_base)
  qed
  show ?thesis
  proof (cases "ok T")
    case False
    have "in_range T (mkLit v False)" using n lT live_in_range [of T] by (simp add: lit_simps)
    then have "wf_const T" using False by (simp add: wf_const_def) (simp add: T_def)
    moreover have "models S1 = {}" using False by (simp add: T_def models_def)
    ultimately have "sat_ext wf_solver live models S (\<lambda>_. True) T"
      using ext [of T] bT lT mT by simp
    then show ?thesis
      using False nv nU True by (simp add: solver_True_def T_def [symmetric]) (simp add: T_def)
  next
    case ok: True
    have "list_all (live T) [mkLit v False]" using n lT by (simp add: lit_simps)
    from addClause_base [OF bT this] obtain S' where S':
      "addClause [mkLit v False] T = Some S'" "wf_base S'" "same_vars T S'"
      "models S' = models T \<inter> {\<sigma>. clause_holds \<sigma> [mkLit v False]}"
      "ok S' \<longrightarrow> mkLit v False \<in> fixed_lits S'"
      by auto
    have eq: "const_true S' = mkLit v False" "live S' = live S1"
      using S'(3) lT same_vars_live [OF S'(3)] by (auto simp: same_vars_def T_def)
    have "wf_const S'"
      using eq S'(5) n by (auto simp: wf_const_def live_in_range lit_simps)
    moreover have "models S' = models S1 \<inter> {\<sigma>. lit_holds \<sigma> (mkLit v False)}"
      using S'(4) mT by (simp add: clause_holds_def)
    ultimately show ?thesis
      using ext [OF S'(2)] S'(1) ok nv nU True eq
      by (simp add: solver_True_def Let_def T_def [symmetric]) (simp add: T_def)
  qed
qed


subsection \<open>Properties\<close>

text \<open>C8: Adding a clause over existing variables is always defined; it keeps the invariant of the
  solver, backtracks to level 0 and leaves exactly the models that also satisfy the clause. The solver
  may do so by dropping the clause, shortening it, enqueuing and propagating a unit, attaching two
  watches, or setting \<open>ok\<close> to false.\<close>

theorem addClause_correct:
  assumes "wf_solver S" "list_all (live S) ps"
  shows "\<exists>S'. addClause ps S = Some S' \<and> wf_solver S' \<and> decisionLevel S' = 0 \<and> nVars S' = nVars S \<and>
    models S' = models S \<inter> {\<sigma>. clause_holds \<sigma> ps}"
proof -
  from addClause_base [OF _ assms(2)] assms(1) obtain S' where
    "addClause ps S = Some S'" "wf_base S'" "same_vars S S'" "trail_lim S' = []"
    "models S' = models S \<inter> {\<sigma>. clause_holds \<sigma> ps}"
    by (auto simp: wf_solver_base)
  then show ?thesis
    using assms(1) same_vars_const [of S S'] by (auto simp: wf_solver_base same_vars_def)
qed

definition three_vars :: Solver where
  "three_vars = snd (newVar True (snd (newVar True (snd (newVar True init_solver)))))"

lemma three_vars_wf: "wf_solver three_vars"
  unfolding three_vars_def by (metis newVar_wf prod.collapse wf_init)

lemma three_vars_live: "0 \<le> var l \<Longrightarrow> var l < 3 \<Longrightarrow> live three_vars l"
  by (simp add: three_vars_def newVar_def init_solver_def live_def in_range_def Let_def)

lemma three_vars_models: "models three_vars = UNIV"
  by (simp add: three_vars_def newVar_def init_solver_def db_def models_def fixed_lits_def Let_def)

theorem addClause_correct_witness:
  "\<exists>S'. addClause [mkLit 2 True, mkLit 0 False, mkLit 2 True] three_vars = Some S' \<and> wf_solver S' \<and>
     decisionLevel S' = 0 \<and> nVars S' = nVars three_vars \<and>
     models S' = models three_vars \<inter> {\<sigma>. clause_holds \<sigma> [mkLit 2 True, mkLit 0 False, mkLit 2 True]}"
  using addClause_correct [of three_vars "[mkLit 2 True, mkLit 0 False, mkLit 2 True]"]
  by (simp add: three_vars_wf three_vars_live lit_simps)

text \<open>Unit propagation at level 0 always returns, keeps the invariant, empties the propagation queue
  and changes the set of models for no assignment; if it reports a conflicting clause, there is no model
  at all.\<close>

theorem propagate_correct:
  assumes "wf_solver S" "decisionLevel S = 0"
  shows "\<exists>confl S'. propagate S = Some (confl, S') \<and> wf_solver S' \<and> models S' = models S \<and>
    qhead S' = length (trail S') \<and> (confl \<noteq> None \<longrightarrow> models S = {})"
proof -
  have lim: "trail_lim S = []" using assms by simp
  from propagate_level0 [OF _ lim] assms obtain confl S' where
    "propagate S = Some (confl, S')" "wf_base S'" "prop_rel S S'" "qhead S' = length (trail S')"
    "confl \<noteq> None \<longrightarrow> models S = {}"
    by (auto simp: wf_solver_base)
  then show ?thesis
    using assms lim same_vars_const [of S S'] prop_rel_same_vars [of S S']
    by (auto simp: wf_solver_base prop_rel_def wf_base_def wf_core_def)
qed

text \<open>A state with the clause \<open>~x0 | x1\<close> in which \<open>x0\<close> has been enqueued but not yet propagated.\<close>

definition pending_unit :: Solver where
  "pending_unit =
     uncheckedEnqueue (mkLit 0 False) None (the (addClause [mkLit 0 True, mkLit 1 False] three_vars))"

lemma pending_unit_wf: "wf_solver pending_unit \<and> trail_lim pending_unit = []"
proof -
  have "list_all (live three_vars) [mkLit 0 True, mkLit 1 False]"
    by (simp add: three_vars_live lit_simps)
  from addClause_base [OF _ this] three_vars_wf obtain S where
    S: "addClause [mkLit 0 True, mkLit 1 False] three_vars = Some S" "wf_base S" "same_vars three_vars S"
      "trail_lim S = []" and m: "models S = {\<sigma>. clause_holds \<sigma> [mkLit 0 True, mkLit 1 False]}"
    by (auto simp: wf_solver_base three_vars_models)
  have wf: "wf_vars S" "wf_trail S" using S(2) by (auto simp: wf_base_def wf_core_def)
  have "(\<lambda>_. False) \<in> models S" "(\<lambda>_. True) \<in> models S"
    unfolding m by (auto simp: clause_holds_def lit_holds_def lit_simps)
  then have "mkLit 0 False \<notin> fixed_lits S" "mkLit 0 True \<notin> fixed_lits S"
    using models_fixed [of _ S] by (force simp: lit_holds_def lit_simps)+
  moreover have l: "live S (mkLit 0 False)"
    using S(3) same_vars_live three_vars_live by (simp add: lit_simps)
  ultimately have "lbool_eq (lit_value S (mkLit 0 False)) l_Undef"
    using value_Undef [OF wf live_in_range [OF l]] fixed_lits_level0 [OF wf(2) S(4)] by (simp add: lit_simps)
  then have "wf_base pending_unit"
    using wf_base_uncheckedEnqueue [OF S(2) l] S(1) by (simp add: pending_unit_def)
  moreover have "const_true pending_unit = lit_Undef"
    using S by (simp add: pending_unit_def same_vars_def)
     (simp add: three_vars_def newVar_def init_solver_def Let_def)
  ultimately show ?thesis using S by (simp add: wf_solver_base wf_const_def) (simp add: pending_unit_def)
qed

theorem propagate_correct_witness:
  "\<exists>confl S'. propagate pending_unit = Some (confl, S') \<and> wf_solver S' \<and> models S' = models pending_unit \<and>
     qhead S' = length (trail S') \<and> (confl \<noteq> None \<longrightarrow> models pending_unit = {})"
  using propagate_correct [of pending_unit] pending_unit_wf by simp


text \<open>Backtracking to level 0 keeps the invariant and the meaning of the state, and leaves on the trail
  exactly the literals that were assigned at level 0.\<close>

theorem cancelUntil_correct:
  assumes "wf_solver S"
  shows "wf_solver (cancelUntil 0 S) \<and> decisionLevel (cancelUntil 0 S) = 0 \<and>
    models (cancelUntil 0 S) = models S \<and>
    set (trail (cancelUntil 0 S)) = {l \<in> set (trail S). level S (var l) = 0} \<and>
    (\<forall>l. in_range S l \<and> var l \<notin> var ` fixed_lits S \<longrightarrow> lbool_eq (lit_value (cancelUntil 0 S) l) l_Undef)"
proof -
  have b: "wf_base S" "wf_const S" "wf_trail S" using assms by (auto simp: wf_solver_base wf_base_def wf_core_def)
  have c: "wf_base (cancelUntil 0 S)" "fixed_lits (cancelUntil 0 S) = fixed_lits S"
    using cancelUntil_wf [OF b(1)] by auto
  have t: "set (trail (cancelUntil 0 S)) = fixed_lits S" by (rule set_trail_cancelUntil [OF b(3)])
  have "lbool_eq (lit_value (cancelUntil 0 S) l) l_Undef"
    if "in_range S l" "var l \<notin> var ` fixed_lits S" for l
  proof -
    have "l \<notin> fixed_lits S" "neg l \<notin> fixed_lits S" using that(2) by (metis image_eqI var_neg)+
    then show ?thesis
      using value_Undef [of "cancelUntil 0 S" l] c(1) t that(1) by (simp add: wf_base_def wf_core_def)
  qed
  moreover have "wf_const (cancelUntil 0 S)" using b(2) c(2) by (simp add: wf_const_def)
  ultimately show ?thesis
    using c(1) cancelUntil_wf [OF b(1)] t by (auto simp: wf_solver_base fixed_lits_def)
qed

lemma newDecisionLevel_wf: "wf_solver S \<Longrightarrow> wf_solver (newDecisionLevel S)"
  by (auto simp: wf_solver_def newDecisionLevel_def wf_vars_def wf_trail_def wf_clauses_def wf_watches_def
      watch_ok_def wf_free_def wf_const_def fixed_lits_def in_range_def lit_value_def level_def
      split: list.splits)

definition decided_solver :: Solver where
  "decided_solver = uncheckedEnqueue (mkLit 1 True) None (newDecisionLevel three_vars)"

lemma decided_wf: "wf_solver decided_solver"
proof -
  let ?S = "newDecisionLevel three_vars"
  have wf: "wf_solver ?S" using newDecisionLevel_wf three_vars_wf by blast
  have l: "live ?S (mkLit 1 True)"
    using three_vars_live [of "mkLit 1 True"] by (simp add: newDecisionLevel_def live_def in_range_def lit_simps)
  have t: "trail ?S = []"
    by (simp add: newDecisionLevel_def three_vars_def newVar_def init_solver_def Let_def)
  have "const_true decided_solver = lit_Undef"
    by (simp add: decided_solver_def newDecisionLevel_def three_vars_def newVar_def init_solver_def Let_def)
  moreover have "wf_base decided_solver"
    unfolding decided_solver_def using wf l t value_Undef [of ?S "mkLit 1 True"] live_in_range [OF l]
    by (intro wf_base_uncheckedEnqueue) (auto simp: wf_solver_base wf_base_def wf_core_def)
  ultimately show ?thesis by (simp add: wf_solver_base wf_const_def)
qed

theorem cancelUntil_correct_witness:
  "trail decided_solver = [mkLit 1 True] \<and> set (trail (cancelUntil 0 decided_solver)) = {} \<and>
   wf_solver (cancelUntil 0 decided_solver)"
proof -
  have "trail decided_solver = [mkLit 1 True]" "level decided_solver 1 = 1"
    by (simp_all add: decided_solver_def newDecisionLevel_def three_vars_def newVar_def init_solver_def Let_def
        uncheckedEnqueue_def level_def lit_simps)
  then show ?thesis
    using cancelUntil_correct [OF decided_wf] by (auto simp: lit_simps)
qed

text \<open>A new variable (a recycled one, if any is free) occurs nowhere in the solver: the invariant and
  the set of models are kept, exactly its two literals become live, and every model stays one when the
  variable is flipped.\<close>

theorem newVar_correct:
  assumes "wf_solver S" "newVar d S = (v, S')"
  shows "wf_solver S' \<and> models S' = models S \<and> {l. live S' l} = {l. live S l} \<union> {l. var l = v} \<and>
    (\<forall>l. live S l \<longrightarrow> var l \<noteq> v) \<and> (\<forall>\<sigma> b. \<sigma>(v := b) \<in> models S' \<longleftrightarrow> \<sigma> \<in> models S')"
proof -
  note n = newVar_wf [OF assms]
  then have "\<sigma>(v := b) \<in> models S \<longleftrightarrow> \<sigma> \<in> models S" for \<sigma> b
    using assms(1) by (intro models_cong) (auto simp: wf_solver_base)
  then show ?thesis using n by auto
qed

theorem newVar_correct_witness:
  "\<forall>\<sigma> b. \<sigma>(3 := b) \<in> models (snd (newVar True three_vars)) \<longleftrightarrow> \<sigma> \<in> models (snd (newVar True three_vars))"
proof -
  have "newVar True three_vars = (3, snd (newVar True three_vars))"
    by (simp add: three_vars_def newVar_def init_solver_def Let_def)
  from newVar_correct [OF three_vars_wf this] show ?thesis by blast
qed

text \<open>\<open>True()\<close> returns the same literal ever after; it is defined in every state, adds no constraint on
  the existing literals, and the literal holds in every model.\<close>

theorem solver_True_correct:
  assumes "wf_solver S"
  shows "\<exists>t S'. solver_True S = Some (t, S') \<and> solver_True S' = Some (t, S') \<and> live S' t \<and>
    (\<forall>\<sigma> \<in> models S'. lit_holds \<sigma> t) \<and> sat_ext wf_solver live models S (\<lambda>_. True) S'"
proof -
  from solver_True_wf [OF assms] obtain S' where
    S': "solver_True S = Some (const_true S', S')" "const_true S' \<noteq> lit_Undef"
      "sat_ext wf_solver live models S (\<lambda>_. True) S'"
    by blast
  then have "wf_solver S'" by (simp add: sat_ext_def)
  then show ?thesis
    using S' const_true_fixed [of S'] by (auto simp: solver_True_def)
qed

theorem solver_True_correct_witness:
  "\<exists>t S'. solver_True init_solver = Some (t, S') \<and> solver_True S' = Some (t, S') \<and> live S' t \<and>
     (\<forall>\<sigma> \<in> models S'. lit_holds \<sigma> t)"
  using solver_True_correct [OF wf_init] by blast

end
