(* ===== verification/Circuit_Base.thy ===== *)
theory Circuit_Base
  imports Solver_Core
begin

text \<open>
  The ground on which the operations of \<open>api/Circuit.h\<close> stand: the constants, clauses added one after the
  other, the assertions that the gates themselves use, and the specification predicates.

  A circuit is the solver state it works on. The constructor \<open>Circuit(Solver\& S)\<close> stores \<open>S.True()\<close> in
  \<open>lit_True\<close>; the solver never changes that literal afterwards, so \<open>getTrue\<close> reads it from the solver. The
  vectors \<open>tmp\<close>, \<open>tmp2\<close>, \<open>store\<close> and \<open>assert_tmp\<close> are scratch space, cleared before each use, and are not part
  of the state, except where the code reads one of them after clearing it through another name
  (\<open>Circuit_Assert\<close>). Writing the clauses to \<open>outfile\<close> is left out. Overloads have names of their own: \<open>And2\<close>
  for two literals, \<open>Ands\<close> for a vector, \<open>And2_out\<close> and \<open>Ands_out\<close> for the variants with an output literal,
  which is \<open>lit_Undef\<close> when it is to be created. An operation that would pass an invalid literal to the
  solver has the result \<open>None\<close>.
\<close>

subsection \<open>Constants and clauses\<close>

definition Circuit_init :: "Solver \<Rightarrow> Solver option" where
  "Circuit_init S = map_option snd (solver_True S)"

definition getTrue :: "Solver \<Rightarrow> Lit" where
  "getTrue S = const_true S"

definition getFalse :: "Solver \<Rightarrow> Lit" where
  "getFalse S = neg (const_true S)"

definition isConstTrue :: "Solver \<Rightarrow> Lit \<Rightarrow> bool" where
  "isConstTrue S l \<longleftrightarrow> lbool_eq (lit_value S l) l_True \<and> level S (var l) = 0"

definition isConstFalse :: "Solver \<Rightarrow> Lit \<Rightarrow> bool" where
  "isConstFalse S l \<longleftrightarrow> lbool_eq (lit_value S l) l_False \<and> level S (var l) = 0"

definition isConst :: "Solver \<Rightarrow> Lit \<Rightarrow> bool" where
  "isConst S l \<longleftrightarrow> isConstTrue S l \<or> isConstFalse S l"

definition newLit :: "bool \<Rightarrow> Solver \<Rightarrow> Lit \<times> Solver" where
  "newLit decisionLit S = (let (v, S') = newVar decisionLit S in (mkLit v False, S'))"

fun addClauses :: "Lit list list \<Rightarrow> Solver \<Rightarrow> Solver option" where
  "addClauses [] S = Some S"
| "addClauses (c # cs) S = do { S \<leftarrow> addClause c S; addClauses cs S }"

definition Assert :: "Lit \<Rightarrow> Solver \<Rightarrow> Solver option" where
  "Assert l S = addClause [l] S"

definition AssertXnor2 :: "Lit \<Rightarrow> Lit \<Rightarrow> Solver \<Rightarrow> Solver option" where
  "AssertXnor2 a b S = addClauses [[neg a, b], [a, neg b]] S"

definition AssertEqual :: "Lit \<Rightarrow> Lit \<Rightarrow> Solver \<Rightarrow> Solver option" where
  "AssertEqual a b S = AssertXnor2 a b S"

definition AssertImplies :: "Lit \<Rightarrow> Lit \<Rightarrow> Solver \<Rightarrow> Solver option" where
  "AssertImplies a b S = addClause [neg a, b] S"

text \<open>The output literal of a gate: the given one, or a new one if it is \<open>lit_Undef\<close>.\<close>

definition out_lit :: "Lit \<Rightarrow> Solver \<Rightarrow> Lit \<times> Solver" where
  "out_lit out S = (if out = lit_Undef then newLit True S else (out, S))"

subsection \<open>Specification predicates\<close>

definition wf_circuit :: "Solver \<Rightarrow> bool" where
  "wf_circuit S \<longleftrightarrow> wf_solver S \<and> const_true S \<noteq> lit_Undef"

abbreviation ext :: "Solver \<Rightarrow> (assignment \<Rightarrow> bool) \<Rightarrow> Solver \<Rightarrow> bool" where
  "ext S \<phi> S' \<equiv> sat_ext wf_circuit live models S \<phi> S'"

definition asserts :: "Solver \<Rightarrow> Solver option \<Rightarrow> (assignment \<Rightarrow> bool) \<Rightarrow> bool" where
  "asserts S r \<phi> \<longleftrightarrow> (\<exists>S'. r = Some S' \<and> ext S \<phi> S')"

text \<open>The operation returns, changes nothing for the old literals but \<open>\<phi>\<close>, and its result satisfies \<open>Q\<close>.\<close>

definition runs ::
  "Solver \<Rightarrow> ('a \<times> Solver) option \<Rightarrow> (assignment \<Rightarrow> bool) \<Rightarrow> ('a \<Rightarrow> Solver \<Rightarrow> bool) \<Rightarrow> bool" where
  "runs S r \<phi> Q \<longleftrightarrow> (\<exists>x S'. r = Some (x, S') \<and> ext S \<phi> S' \<and> Q x S')"

text \<open>In every model of the state the literal has the value of the formula.\<close>

definition means :: "(assignment \<Rightarrow> bool) \<Rightarrow> Lit \<Rightarrow> Solver \<Rightarrow> bool" where
  "means \<phi> l S \<longleftrightarrow> live S l \<and> (\<forall>\<sigma> \<in> models S. lit_holds \<sigma> l = \<phi> \<sigma>)"

abbreviation gate :: "Solver \<Rightarrow> (Lit \<times> Solver) option \<Rightarrow> (assignment \<Rightarrow> bool) \<Rightarrow> bool" where
  "gate S r \<phi> \<equiv> runs S r (\<lambda>_. True) (means \<phi>)"

text \<open>A gate with an output literal constrains it, if it was given, to the value of the gate.\<close>

abbreviation out_constraint :: "Lit \<Rightarrow> (assignment \<Rightarrow> bool) \<Rightarrow> assignment \<Rightarrow> bool" where
  "out_constraint out \<phi> \<equiv> \<lambda>\<sigma>. out \<noteq> lit_Undef \<longrightarrow> lit_holds \<sigma> out = \<phi> \<sigma>"

abbreviation out_gate :: "Solver \<Rightarrow> (Lit \<times> Solver) option \<Rightarrow> Lit \<Rightarrow> (assignment \<Rightarrow> bool) \<Rightarrow> bool" where
  "out_gate S r out \<phi> \<equiv> runs S r (out_constraint out \<phi>) (means \<phi>)"

subsection \<open>The interface on circuits\<close>

interpretation circ: sat_interface wf_circuit live models newVar addClause
proof
  fix S ps assume "wf_circuit S" "list_all (live S) ps"
  then show "\<exists>S'. addClause ps S = Some S' \<and> wf_circuit S' \<and> live S' = live S \<and>
      models S' = models S \<inter> {\<sigma>. clause_holds \<sigma> ps}"
    using addClause_wf by (fastforce simp: wf_circuit_def)
next
  fix S d v S' assume "wf_circuit S" "newVar d S = (v, S')"
  then show "wf_circuit S' \<and> models S' = models S \<and> 0 \<le> v \<and> (\<forall>l. live S' l = (live S l \<or> var l = v)) \<and>
      (\<forall>l. live S l \<longrightarrow> var l \<noteq> v)"
    using newVar_wf [of S d v S'] by (simp add: wf_circuit_def)
qed (use sol.mods_local in \<open>simp add: wf_circuit_def\<close>)

named_theorems ext_dest \<open>what an extension keeps\<close>

lemma ext_wf [ext_dest]: "ext S \<phi> S' \<Longrightarrow> wf_circuit S'"
  by (simp add: sat_ext_def)

lemma ext_live [ext_dest]: "ext S \<phi> S' \<Longrightarrow> live S l \<Longrightarrow> live S' l"
  by (simp add: sat_ext_def)

lemma ext_models [ext_dest]: "ext S \<phi> S' \<Longrightarrow> \<sigma> \<in> models S' \<Longrightarrow> \<sigma> \<in> models S"
  by (simp add: sat_ext_def)

lemma ext_holds: "ext S \<phi> S' \<Longrightarrow> \<sigma> \<in> models S' \<Longrightarrow> \<phi> \<sigma>"
  by (simp add: sat_ext_def)

lemma ext_const: "ext S \<phi> S' \<Longrightarrow> list_all (live S) ls \<Longrightarrow> list_all (live S') ls"
  by (auto simp: sat_ext_def list_all_iff)

lemma means_ext: "means \<phi> l S \<Longrightarrow> ext S \<psi> S' \<Longrightarrow> means \<phi> l S'"
  by (auto simp: means_def sat_ext_def)

lemma means_live: "means \<phi> l S \<Longrightarrow> live S l"
  by (simp add: means_def)

lemma means_holds: "means \<phi> l S \<Longrightarrow> \<sigma> \<in> models S \<Longrightarrow> lit_holds \<sigma> l = \<phi> \<sigma>"
  by (simp add: means_def)

lemma means_lit: "live S l \<Longrightarrow> means (\<lambda>\<sigma>. lit_holds \<sigma> l) l S"
  by (simp add: means_def)

lemma means_neg: "means \<phi> l S \<Longrightarrow> means (\<lambda>\<sigma>. \<not> \<phi> \<sigma>) (neg l) S"
  by (simp add: means_def)

lemma means_cong: "means \<phi> l S \<Longrightarrow> (\<And>\<sigma>. \<sigma> \<in> models S \<Longrightarrow> \<phi> \<sigma> = \<psi> \<sigma>) \<Longrightarrow> means \<psi> l S"
  by (simp add: means_def)

lemma means_True: "wf_circuit S \<Longrightarrow> means (\<lambda>_. True) (getTrue S) S"
  using const_true_fixed [of S] by (simp add: means_def wf_circuit_def getTrue_def)

lemma means_False: "wf_circuit S \<Longrightarrow> means (\<lambda>_. False) (getFalse S) S"
  using const_true_fixed [of S] by (simp add: means_def wf_circuit_def getFalse_def)

subsection \<open>Rules\<close>

lemma runs_return: "wf_circuit S \<Longrightarrow> Q x S \<Longrightarrow> runs S (Some (x, S)) (\<lambda>_. True) Q"
  using circ.ext_refl by (auto simp: runs_def)

lemma runs_weaken:
  "runs S r \<phi> Q \<Longrightarrow> (\<And>\<sigma>. \<sigma> \<in> models S \<Longrightarrow> \<phi> \<sigma> = \<psi> \<sigma>) \<Longrightarrow>
     (\<And>x S'. ext S \<phi> S' \<Longrightarrow> Q x S' \<Longrightarrow> R x S') \<Longrightarrow> runs S r \<psi> R"
  unfolding runs_def using circ.ext_cong by blast

lemma runs_bind:
  assumes "runs S r \<phi> Q"
    "\<And>x S1. ext S \<phi> S1 \<Longrightarrow> Q x S1 \<Longrightarrow> runs S1 (g x S1) \<psi> R" "local_to live S \<psi>"
  shows "runs S (r \<bind> (\<lambda>(x, S1). g x S1)) (\<lambda>\<sigma>. \<phi> \<sigma> \<and> \<psi> \<sigma>) R"
proof -
  obtain x S1 where 1: "r = Some (x, S1)" "ext S \<phi> S1" "Q x S1"
    using assms(1) by (auto simp: runs_def)
  then obtain y S2 where "g x S1 = Some (y, S2)" "ext S1 \<psi> S2" "R y S2"
    using assms(2) [OF 1(2,3)] by (auto simp: runs_def)
  then show ?thesis using 1 circ.ext_trans assms(3) by (auto simp: runs_def)
qed

lemma gate_bind:
  assumes "runs S r (\<lambda>_. True) Q"
    "\<And>x S1. ext S (\<lambda>_. True) S1 \<Longrightarrow> Q x S1 \<Longrightarrow> runs S1 (g x S1) (\<lambda>_. True) R"
  shows "runs S (r \<bind> (\<lambda>(x, S1). g x S1)) (\<lambda>_. True) R"
  using runs_bind [OF assms] by simp

lemma asserts_bind:
  assumes "asserts S r \<phi>" "\<And>S1. ext S \<phi> S1 \<Longrightarrow> asserts S1 (g S1) \<psi>" "local_to live S \<psi>"
  shows "asserts S (r \<bind> g) (\<lambda>\<sigma>. \<phi> \<sigma> \<and> \<psi> \<sigma>)"
proof -
  obtain S1 where 1: "r = Some S1" "ext S \<phi> S1"
    using assms(1) by (auto simp: asserts_def)
  then obtain S2 where "g S1 = Some S2" "ext S1 \<psi> S2"
    using assms(2) [OF 1(2)] by (auto simp: asserts_def)
  then show ?thesis using 1 circ.ext_trans assms(3) by (auto simp: asserts_def)
qed

lemma runs_asserts:
  assumes "runs S r (\<lambda>_. True) Q"
    "\<And>x S1. ext S (\<lambda>_. True) S1 \<Longrightarrow> Q x S1 \<Longrightarrow> asserts S1 (g x S1) \<psi>" "local_to live S \<psi>"
  shows "asserts S (r \<bind> (\<lambda>(x, S1). g x S1)) \<psi>"
proof -
  obtain x S1 where 1: "r = Some (x, S1)" "ext S (\<lambda>_. True) S1" "Q x S1"
    using assms(1) by (auto simp: runs_def)
  then obtain S2 where "g x S1 = Some S2" "ext S1 \<psi> S2"
    using assms(2) [OF 1(2,3)] by (auto simp: asserts_def)
  then show ?thesis using 1 circ.ext_trans [OF 1(2) _ assms(3)] by (auto simp: asserts_def)
qed

lemma asserts_return:
  assumes "asserts S r \<phi>" "\<And>S'. ext S \<phi> S' \<Longrightarrow> Q x S'"
  shows "runs S (r \<bind> (\<lambda>S'. Some (x, S'))) \<phi> Q"
  using assms by (auto simp: asserts_def runs_def)

lemma asserts_weaken:
  "asserts S r \<phi> \<Longrightarrow> (\<And>\<sigma>. \<sigma> \<in> models S \<Longrightarrow> \<phi> \<sigma> = \<psi> \<sigma>) \<Longrightarrow> asserts S r \<psi>"
  unfolding asserts_def using circ.ext_cong by blast

lemma asserts_Some: "wf_circuit S \<Longrightarrow> (\<And>\<sigma>. \<sigma> \<in> models S \<Longrightarrow> \<phi> \<sigma>) \<Longrightarrow> asserts S (Some S) \<phi>"
  by (auto simp: asserts_def intro: circ.ext_cong [OF circ.ext_refl])

lemma asserts_addClause:
  "wf_circuit S \<Longrightarrow> list_all (live S) ps \<Longrightarrow> asserts S (addClause ps S) (\<lambda>\<sigma>. clause_holds \<sigma> ps)"
  using circ.ext_add by (fastforce simp: asserts_def)

lemma asserts_addClauses:
  "wf_circuit S \<Longrightarrow> list_all (list_all (live S)) cs \<Longrightarrow>
     asserts S (addClauses cs S) (\<lambda>\<sigma>. \<forall>c \<in> set cs. clause_holds \<sigma> c)"
proof (induction cs arbitrary: S)
  case Nil
  then show ?case by (simp add: asserts_Some)
next
  case (Cons c cs)
  have "asserts S (addClause c S \<bind> addClauses cs)
      (\<lambda>\<sigma>. clause_holds \<sigma> c \<and> (\<forall>c \<in> set cs. clause_holds \<sigma> c))"
  proof (rule asserts_bind)
    show "asserts S (addClause c S) (\<lambda>\<sigma>. clause_holds \<sigma> c)"
      using Cons.prems by (simp add: asserts_addClause)
    show "asserts S1 (addClauses cs S1) (\<lambda>\<sigma>. \<forall>c \<in> set cs. clause_holds \<sigma> c)"
      if "ext S (\<lambda>\<sigma>. clause_holds \<sigma> c) S1" for S1
      using Cons.prems that ext_const [OF that] by (intro Cons.IH ext_wf [OF that]) (auto simp: list_all_iff)
    show "local_to live S (\<lambda>\<sigma>. \<forall>c \<in> set cs. clause_holds \<sigma> c)"
      using Cons.prems(2) local_to_clause [of live S] by (auto simp: local_to_def list_all_iff)
  qed
  then show ?case by simp
qed

lemma asserts_Assert [intro]:
  "wf_circuit S \<Longrightarrow> live S l \<Longrightarrow> asserts S (Assert l S) (\<lambda>\<sigma>. lit_holds \<sigma> l)"
  using asserts_addClause [of S "[l]"] by (simp add: Assert_def clause_holds_def)

lemma asserts_AssertXnor2:
  assumes "wf_circuit S" "live S a" "live S b"
  shows "asserts S (AssertXnor2 a b S) (\<lambda>\<sigma>. lit_holds \<sigma> a = lit_holds \<sigma> b)"
proof -
  have "asserts S (addClauses [[neg a, b], [a, neg b]] S)
      (\<lambda>\<sigma>. \<forall>c \<in> set [[neg a, b], [a, neg b]]. clause_holds \<sigma> c)"
    using assms by (intro asserts_addClauses) auto
  then show ?thesis
    unfolding AssertXnor2_def by (auto simp: clause_holds_def elim!: asserts_weaken)
qed

lemma asserts_AssertEqual [intro]:
  "wf_circuit S \<Longrightarrow> live S a \<Longrightarrow> live S b \<Longrightarrow>
     asserts S (AssertEqual a b S) (\<lambda>\<sigma>. lit_holds \<sigma> a = lit_holds \<sigma> b)"
  using asserts_AssertXnor2 by (simp add: AssertEqual_def)

lemma asserts_AssertImplies [intro]:
  "wf_circuit S \<Longrightarrow> live S a \<Longrightarrow> live S b \<Longrightarrow>
     asserts S (AssertImplies a b S) (\<lambda>\<sigma>. lit_holds \<sigma> a \<longrightarrow> lit_holds \<sigma> b)"
  using asserts_addClause [of S "[neg a, b]"]
  by (auto simp: AssertImplies_def clause_holds_def elim!: asserts_weaken)

lemma isConstTrue_fixed:
  assumes "wf_circuit S" "live S l" "isConstTrue S l"
  shows "\<sigma> \<in> models S \<Longrightarrow> lit_holds \<sigma> l"
proof -
  have "l \<in> fixed_lits S"
    using assms value_True [OF _ _ live_in_range]
    by (auto simp: wf_circuit_def wf_solver_def isConstTrue_def fixed_lits_def)
  then show "\<sigma> \<in> models S \<Longrightarrow> lit_holds \<sigma> l" by (simp add: models_def)
qed

lemma isConstFalse_fixed:
  assumes "wf_circuit S" "live S l" "isConstFalse S l"
  shows "\<sigma> \<in> models S \<Longrightarrow> \<not> lit_holds \<sigma> l"
proof -
  have "neg l \<in> fixed_lits S"
    using assms value_False [OF _ _ live_in_range]
    by (auto simp: wf_circuit_def wf_solver_def isConstFalse_def fixed_lits_def)
  then show "\<sigma> \<in> models S \<Longrightarrow> \<not> lit_holds \<sigma> l" by (auto simp: models_def)
qed

lemma newLit_runs:
  assumes "wf_circuit S"
  shows "runs S (Some (newLit d S)) (\<lambda>_. True) (\<lambda>l S'. live S' l)"
proof -
  obtain v S' where "newVar d S = (v, S')" by (metis surj_pair)
  then show ?thesis
    using circ.ext_fresh [OF assms, of d v S' False] by (simp add: runs_def newLit_def)
qed

text \<open>
  A gate: an output literal, and clauses that force it to the value \<open>\<phi>\<close>, where \<open>\<phi>\<close> does not depend on the
  output. If the output is new, nothing else is constrained.
\<close>

lemma define_gate:
  assumes wf: "wf_circuit S" and loc: "local_to live S \<phi>" and out: "out = lit_Undef \<or> live S out"
    and lv: "\<And>ou S'. live S' ou \<Longrightarrow> (\<And>l. live S l \<Longrightarrow> live S' l) \<Longrightarrow> list_all (list_all (live S')) (cs ou)"
    and cs: "\<And>ou \<sigma>. (\<forall>c \<in> set (cs ou). clause_holds \<sigma> c) \<longleftrightarrow> lit_holds \<sigma> ou = \<phi> \<sigma>"
  shows "out_gate S (let (ou, S1) = out_lit out S in addClauses (cs ou) S1 \<bind> (\<lambda>S2. Some (ou, S2))) out \<phi>"
proof (cases "out = lit_Undef")
  case False
  then have ou: "live S out" using out by simp
  have "asserts S (addClauses (cs out) S) (\<lambda>\<sigma>. lit_holds \<sigma> out = \<phi> \<sigma>)"
    using asserts_addClauses [OF wf lv [OF ou]] cs by simp
  then have "runs S (addClauses (cs out) S \<bind> (\<lambda>S2. Some (out, S2))) (\<lambda>\<sigma>. lit_holds \<sigma> out = \<phi> \<sigma>) (means \<phi>)"
    using ou by (rule_tac asserts_return) (auto simp: means_def dest: ext_live ext_holds)
  then show ?thesis using False by (simp add: out_lit_def)
next
  case True
  obtain v S1 where v: "newVar True S = (v, S1)" by (metis surj_pair)
  let ?ou = "mkLit v False"
  note f = circ.fresh_law [OF wf v]
  have l1: "live S1 ?ou" using circ.ext_fresh [OF wf v] by blast
  have "asserts S1 (addClauses (cs ?ou) S1) (\<lambda>\<sigma>. lit_holds \<sigma> ?ou = \<phi> \<sigma>)"
    using asserts_addClauses [OF _ lv [OF l1]] cs f by simp
  then obtain S2 where 2: "addClauses (cs ?ou) S1 = Some S2" "ext S1 (\<lambda>\<sigma>. lit_holds \<sigma> ?ou = \<phi> \<sigma>) S2"
    by (auto simp: asserts_def)
  have "\<exists>b. lit_holds (\<sigma>(v := b)) ?ou = \<phi> (\<sigma>(v := b))" for \<sigma>
  proof (rule exI [of _ "\<phi> \<sigma>"])
    have "agree live S \<sigma> (\<sigma>(v := \<phi> \<sigma>))" using f by (auto simp: agree_def lit_holds_def)
    then show "lit_holds (\<sigma>(v := \<phi> \<sigma>)) ?ou = \<phi> (\<sigma>(v := \<phi> \<sigma>))"
      using loc by (simp add: local_to_def lit_holds_def lit_simps)
  qed
  then have "ext S (\<lambda>_. True) S2" by (intro circ.ext_define [OF wf v 2(2)])
  moreover have "means \<phi> ?ou S2" using 2(2) l1 by (auto simp: means_def sat_ext_def)
  ultimately show ?thesis
    using True v 2(1) by (simp add: runs_def out_lit_def newLit_def)
qed

end
