(* ===== verification/Circuit_Gates.thy ===== *)
theory Circuit_Gates
  imports Circuit_Base
begin

text \<open>
  The gates of \<open>api/Circuit.h\<close>: \<open>And\<close>, \<open>Or\<close>, \<open>Nand\<close>, \<open>Nor\<close>, \<open>Xor\<close>, \<open>Xnor\<close>, \<open>Implies\<close>, \<open>Ite\<close> and the one-sided
  \<open>ImpliesAnd\<close>, \<open>ImpliesOr\<close>, for two literals and for vectors, with and without a given output literal.

  The properties say that each gate is a definitional extension of the solver whose result has, in every
  model, the value of the boolean operation. \<open>Xor_\<close> and \<open>Xnor_\<close> are the exceptions: see \<open>Xor2_out_detached\<close>
  and \<open>Xnor2_out_wrong\<close>.
\<close>

subsection \<open>Operations\<close>

definition And2 :: "Lit \<Rightarrow> Lit \<Rightarrow> Solver \<Rightarrow> (Lit \<times> Solver) option" where
  "And2 a b S =
     (if a = b then Some (a, S)
      else if var a = var b then Some (getFalse S, S)
      else if (isConst S a \<or> isConst S b) \<and> isConstTrue S a then Some (b, S)
      else if (isConst S a \<or> isConst S b) \<and> isConstFalse S a then Some (a, S)
      else if (isConst S a \<or> isConst S b) \<and> isConstTrue S b then Some (a, S)
      else if (isConst S a \<or> isConst S b) \<and> isConstFalse S b then Some (b, S)
      else let (out, S) = newLit True S
           in do { S \<leftarrow> addClauses [[a, neg out], [b, neg out], [neg a, neg b, out]] S; Some (out, S) })"

definition Or2 :: "Lit \<Rightarrow> Lit \<Rightarrow> Solver \<Rightarrow> (Lit \<times> Solver) option" where
  "Or2 a b S =
     (if a = b then Some (a, S)
      else if var a = var b then Some (getTrue S, S)
      else if isConstTrue S a then Some (getTrue S, S)
      else if isConstTrue S b then Some (getTrue S, S)
      else if isConstFalse S a then Some (b, S)
      else if isConstFalse S b then Some (a, S)
      else let (out, S) = newLit True S
           in do { S \<leftarrow> addClauses [[neg a, out], [neg b, out], [a, b, neg out]] S; Some (out, S) })"

text \<open>An assertion made only if the output literal was given.\<close>

definition when_out :: "Lit \<Rightarrow> (Solver \<Rightarrow> Solver option) \<Rightarrow> Solver \<Rightarrow> Solver option" where
  "when_out out f S = (if out \<noteq> lit_Undef then f S else Some S)"

definition And2_out :: "Lit \<Rightarrow> Lit \<Rightarrow> Lit \<Rightarrow> Solver \<Rightarrow> (Lit \<times> Solver) option" where
  "And2_out a b out S =
     (if isConstTrue S a \<and> isConstTrue S b then
        (if out \<noteq> lit_Undef then do { S \<leftarrow> Assert out S; Some (out, S) } else Some (getTrue S, S))
      else if isConstFalse S a \<or> isConstFalse S b then
        (if out \<noteq> lit_Undef then do { S \<leftarrow> Assert (neg out) S; Some (out, S) } else Some (getFalse S, S))
      else if isConstTrue S a then
        (if out \<noteq> lit_Undef then do { S \<leftarrow> AssertEqual b out S; Some (out, S) } else Some (b, S))
      else if isConstTrue S b then
        (if out \<noteq> lit_Undef then do { S \<leftarrow> AssertEqual a out S; Some (out, S) } else Some (a, S))
      else let (out, S) = out_lit out S
           in do { S \<leftarrow> addClauses [[a, neg out], [b, neg out], [neg a, neg b, out]] S; Some (out, S) })"

definition Or2_out :: "Lit \<Rightarrow> Lit \<Rightarrow> Lit \<Rightarrow> Solver \<Rightarrow> (Lit \<times> Solver) option" where
  "Or2_out a b out S =
     (if isConstFalse S a \<and> isConstFalse S b then
        do { S \<leftarrow> when_out out (Assert (neg out)) S; Some (getFalse S, S) }
      else if isConstTrue S a \<or> isConstTrue S b then
        do { S \<leftarrow> when_out out (Assert out) S; Some (getTrue S, S) }
      else if isConstFalse S a then do { S \<leftarrow> when_out out (AssertEqual b out) S; Some (b, S) }
      else if isConstFalse S b then do { S \<leftarrow> when_out out (AssertEqual a out) S; Some (a, S) }
      else let (out, S) = out_lit out S
           in do { S \<leftarrow> addClauses [[neg a, out], [neg b, out], [a, b, neg out]] S; Some (out, S) })"

text \<open>
  The loop of the vector gates over their arguments: \<open>stop\<close> is the constant that decides the gate (then
  the loop returns early: \<open>None\<close>), \<open>skip\<close> the neutral constant, which is left out of \<open>tmp\<close>.
\<close>

fun drop_consts :: "(Lit \<Rightarrow> bool) \<Rightarrow> (Lit \<Rightarrow> bool) \<Rightarrow> Lit list \<Rightarrow> Lit list option" where
  "drop_consts stop skip [] = Some []"
| "drop_consts stop skip (l # ls) =
     (if stop l then None
      else if skip l then drop_consts stop skip ls
      else map_option ((#) l) (drop_consts stop skip ls))"

definition Ands_out :: "Lit list \<Rightarrow> Lit \<Rightarrow> Solver \<Rightarrow> (Lit \<times> Solver) option" where
  "Ands_out vals out S =
     (case drop_consts (isConstFalse S) (isConstTrue S) vals of
        None \<Rightarrow> do { S \<leftarrow> when_out out (Assert (neg out)) S; Some (getFalse S, S) }
      | Some [] \<Rightarrow> do { S \<leftarrow> when_out out (Assert out) S; Some (getTrue S, S) }
      | Some [l] \<Rightarrow>
          (if out \<noteq> lit_Undef then do { S \<leftarrow> AssertEqual l out S; Some (out, S) } else Some (l, S))
      | Some tmp \<Rightarrow>
          let (out, S) = out_lit out S
          in do { S \<leftarrow> addClauses (map (\<lambda>l. [l, neg out]) tmp @ [map neg tmp @ [out]]) S; Some (out, S) })"

definition Ands :: "Lit list \<Rightarrow> Solver \<Rightarrow> (Lit \<times> Solver) option" where
  "Ands vals S = Ands_out vals lit_Undef S"

definition Ors_out :: "Lit list \<Rightarrow> Lit \<Rightarrow> Solver \<Rightarrow> (Lit \<times> Solver) option" where
  "Ors_out vals out S =
     (case drop_consts (isConstTrue S) (isConstFalse S) vals of
        None \<Rightarrow> do { S \<leftarrow> when_out out (Assert out) S; Some (getTrue S, S) }
      | Some [] \<Rightarrow> do { S \<leftarrow> when_out out (Assert (neg out)) S; Some (getFalse S, S) }
      | Some [l] \<Rightarrow>
          (if out \<noteq> lit_Undef then do { S \<leftarrow> AssertEqual l out S; Some (out, S) } else Some (l, S))
      | Some tmp \<Rightarrow>
          let (out, S) = out_lit out S
          in do { S \<leftarrow> addClauses (map (\<lambda>l. [neg l, out]) tmp @ [tmp @ [neg out]]) S; Some (out, S) })"

definition Ors :: "Lit list \<Rightarrow> Solver \<Rightarrow> (Lit \<times> Solver) option" where
  "Ors vals S = Ors_out vals lit_Undef S"

definition neg_result :: "(Lit \<times> Solver) option \<Rightarrow> (Lit \<times> Solver) option" where
  "neg_result r = do { (l, S) \<leftarrow> r; Some (neg l, S) }"

definition Nor2 :: "Lit \<Rightarrow> Lit \<Rightarrow> Solver \<Rightarrow> (Lit \<times> Solver) option" where
  "Nor2 a b S = neg_result (Or2 a b S)"

definition Nors :: "Lit list \<Rightarrow> Solver \<Rightarrow> (Lit \<times> Solver) option" where
  "Nors vals S = neg_result (Ors vals S)"

definition Nand2 :: "Lit \<Rightarrow> Lit \<Rightarrow> Solver \<Rightarrow> (Lit \<times> Solver) option" where
  "Nand2 a b S = neg_result (And2 a b S)"

definition Nands :: "Lit list \<Rightarrow> Solver \<Rightarrow> (Lit \<times> Solver) option" where
  "Nands vals S = neg_result (Ands vals S)"

definition Xor1 :: "Lit \<Rightarrow> Solver \<Rightarrow> (Lit \<times> Solver) option" where
  "Xor1 a S = Some (neg a, S)"

definition xor_clauses :: "Lit \<Rightarrow> Lit \<Rightarrow> Lit \<Rightarrow> Lit list list" where
  "xor_clauses a b out =
     [[a, b, neg out], [neg a, b, out], [a, neg b, out], [neg a, neg b, neg out]]"

definition Xor2 :: "Lit \<Rightarrow> Lit \<Rightarrow> Solver \<Rightarrow> (Lit \<times> Solver) option" where
  "Xor2 a b S =
     (if isConstTrue S a then Some (neg b, S)
      else if isConstFalse S a then Some (b, S)
      else if isConstTrue S b then Some (neg a, S)
      else if isConstFalse S b then Some (a, S)
      else let (out, S) = newLit True S in do { S \<leftarrow> addClauses (xor_clauses a b out) S; Some (out, S) })"

text \<open>\<open>Xor_\<close> creates a new output literal exactly if one was given, and uses \<open>lit_Undef\<close> otherwise.\<close>

definition Xor2_out :: "Lit \<Rightarrow> Lit \<Rightarrow> Lit \<Rightarrow> Solver \<Rightarrow> (Lit \<times> Solver) option" where
  "Xor2_out a b out S =
     (if isConstTrue S a then do { S \<leftarrow> when_out out (AssertEqual (neg b) out) S; Some (neg b, S) }
      else if isConstFalse S a then do { S \<leftarrow> when_out out (AssertEqual b out) S; Some (b, S) }
      else if isConstTrue S b then do { S \<leftarrow> when_out out (AssertEqual (neg a) out) S; Some (neg a, S) }
      else if isConstFalse S b then do { S \<leftarrow> when_out out (AssertEqual a out) S; Some (a, S) }
      else let (out, S) = (if out \<noteq> lit_Undef then newLit True S else (out, S))
           in do { S \<leftarrow> addClauses (xor_clauses a b out) S; Some (out, S) })"

text \<open>
  \<open>bin_op\<close> combines neighbours in rounds, each round into the front of the same vector; a vector of odd
  length passes its last element on.
\<close>

fun bin_round ::
  "(Lit \<Rightarrow> Lit \<Rightarrow> Solver \<Rightarrow> (Lit \<times> Solver) option) \<Rightarrow> Lit list \<Rightarrow> Solver \<Rightarrow> (Lit list \<times> Solver) option" where
  "bin_round f (a # b # ls) S =
     do { (l, S) \<leftarrow> f a b S; (ls', S) \<leftarrow> bin_round f ls S; Some (l # ls', S) }"
| "bin_round f ls S = Some (ls, S)"

lemma bin_round_length:
  "bin_round f ls S = Some (ls', S') \<Longrightarrow> length ls' = (length ls + 1) div 2"
proof (induction f ls S arbitrary: ls' S' rule: bin_round.induct)
  case (1 f a b ls S)
  then obtain l S1 ls1 where "f a b S = Some (l, S1)" "bin_round f ls S1 = Some (ls1, S')" "ls' = l # ls1"
    by (auto simp: bind_eq_Some_conv)
  then show ?case using "1.IH" [of "(l, S1)" l S1 ls1 S'] by simp
qed auto

function bin_op ::
  "(Lit \<Rightarrow> Lit \<Rightarrow> Solver \<Rightarrow> (Lit \<times> Solver) option) \<Rightarrow> Lit list \<Rightarrow> Solver \<Rightarrow> (Lit \<times> Solver) option" where
  "bin_op f [] S = Some (getTrue S, S)"
| "bin_op f [a] S = Some (a, S)"
| "bin_op f (a # b # ls) S =
     (case bin_round f (a # b # ls) S of None \<Rightarrow> None | Some (ls', S') \<Rightarrow> bin_op f ls' S')"
  by pat_completeness auto
termination
proof (relation "measure (\<lambda>(f, ls, S). length ls)")
  fix f a b ls S x and ls' :: "Lit list" and S' :: Solver
  assume "bin_round f (a # b # ls) S = Some x" "(ls', S') = x"
  then show "((f, ls', S'), f, a # b # ls, S) \<in> measure (\<lambda>(f, ls, S). length ls)"
    using bin_round_length [of f "a # b # ls" S ls' S'] by auto
qed auto

definition Xors :: "Lit list \<Rightarrow> Solver \<Rightarrow> (Lit \<times> Solver) option" where
  "Xors vals S = bin_op Xor2 vals S"

definition Xnor2 :: "Lit \<Rightarrow> Lit \<Rightarrow> Solver \<Rightarrow> (Lit \<times> Solver) option" where
  "Xnor2 a b S = neg_result (Xor2 a b S)"

definition Xnors :: "Lit list \<Rightarrow> Solver \<Rightarrow> (Lit \<times> Solver) option" where
  "Xnors vals S = neg_result (Xors vals S)"

text \<open>\<open>Xnor_\<close> resolves to the variadic \<open>Xnor\<close> with three arguments.\<close>

definition Xnor2_out :: "Lit \<Rightarrow> Lit \<Rightarrow> Lit \<Rightarrow> Solver \<Rightarrow> (Lit \<times> Solver) option" where
  "Xnor2_out a b out S = neg_result (Xnors [a, b, out] S)"

definition Implies2 :: "Lit \<Rightarrow> Lit \<Rightarrow> Solver \<Rightarrow> (Lit \<times> Solver) option" where
  "Implies2 a b S = Or2 (neg a) b S"

definition Implies2_out :: "Lit \<Rightarrow> Lit \<Rightarrow> Lit \<Rightarrow> Solver \<Rightarrow> (Lit \<times> Solver) option" where
  "Implies2_out a b out S = Or2_out (neg a) b out S"

definition Ite :: "Lit \<Rightarrow> Lit \<Rightarrow> Lit \<Rightarrow> Solver \<Rightarrow> (Lit \<times> Solver) option" where
  "Ite cond thn els S =
     do { (l, S) \<leftarrow> And2 cond (neg thn) S; (r, S) \<leftarrow> And2 (neg cond) (neg els) S; And2 (neg l) (neg r) S }"

definition Ite_out :: "Lit \<Rightarrow> Lit \<Rightarrow> Lit \<Rightarrow> Lit \<Rightarrow> Solver \<Rightarrow> (Lit \<times> Solver) option" where
  "Ite_out cond thn els out S =
     do { (l, S) \<leftarrow> And2 cond (neg thn) S; (r, S) \<leftarrow> And2 (neg cond) (neg els) S;
          And2_out (neg l) (neg r) out S }"

subsection \<open>Two-input gates\<close>

lemma out_lit_Undef [simp]: "out_lit lit_Undef S = newLit True S"
  by (simp add: out_lit_def)

lemma gate_lit: "wf_circuit S \<Longrightarrow> live S l \<Longrightarrow> (\<And>\<sigma>. \<sigma> \<in> models S \<Longrightarrow> lit_holds \<sigma> l = \<phi> \<sigma>) \<Longrightarrow> gate S (Some (l, S)) \<phi>"
  by (simp add: runs_return means_def)

lemma runs_if:
  "(c \<Longrightarrow> runs S x \<phi> Q) \<Longrightarrow> (\<not> c \<Longrightarrow> runs S y \<phi> Q) \<Longrightarrow> runs S (if c then x else y) \<phi> Q"
  by simp

lemma getTrue_live [simp]: "wf_circuit S \<Longrightarrow> live S (getTrue S)"
    "wf_circuit S \<Longrightarrow> live S (getFalse S)"
  using means_True means_False means_live by blast+

lemma getTrue_holds [simp]: "wf_circuit S \<Longrightarrow> \<sigma> \<in> models S \<Longrightarrow> lit_holds \<sigma> (getTrue S)"
    "wf_circuit S \<Longrightarrow> \<sigma> \<in> models S \<Longrightarrow> \<not> lit_holds \<sigma> (getFalse S)"
  using means_True means_False means_holds by blast+

lemmas isConst_fixed = isConstTrue_fixed isConstFalse_fixed

lemma and_clauses:
  "(\<forall>c \<in> set [[a, neg out], [b, neg out], [neg a, neg b, out]]. clause_holds \<sigma> c) \<longleftrightarrow>
     lit_holds \<sigma> out = (lit_holds \<sigma> a \<and> lit_holds \<sigma> b)"
  by (auto simp: clause_holds_def)

lemma or_clauses:
  "(\<forall>c \<in> set [[neg a, out], [neg b, out], [a, b, neg out]]. clause_holds \<sigma> c) \<longleftrightarrow>
     lit_holds \<sigma> out = (lit_holds \<sigma> a \<or> lit_holds \<sigma> b)"
  by (auto simp: clause_holds_def)

lemma xor_clauses_holds:
  "(\<forall>c \<in> set (xor_clauses a b out). clause_holds \<sigma> c) \<longleftrightarrow>
     lit_holds \<sigma> out = (lit_holds \<sigma> a \<noteq> lit_holds \<sigma> b)"
  by (auto simp: xor_clauses_def clause_holds_def)

lemma new_gate:
  assumes "wf_circuit S" "local_to live S \<phi>"
    "\<And>ou S'. live S' ou \<Longrightarrow> (\<And>l. live S l \<Longrightarrow> live S' l) \<Longrightarrow> list_all (list_all (live S')) (cs ou)"
    "\<And>ou \<sigma>. (\<forall>c \<in> set (cs ou). clause_holds \<sigma> c) \<longleftrightarrow> lit_holds \<sigma> ou = \<phi> \<sigma>"
  shows "gate S (let (ou, S1) = newLit True S in addClauses (cs ou) S1 \<bind> (\<lambda>S2. Some (ou, S2))) \<phi>"
  using define_gate [of S \<phi> lit_Undef cs] assms by simp

lemma same_var_neg: "var a = var b \<Longrightarrow> a \<noteq> b \<Longrightarrow> lit_holds \<sigma> a = (\<not> lit_holds \<sigma> b)"
  using same_var_cases by fastforce

lemma And2_gate:
  assumes wf: "wf_circuit S" and lv: "live S a" "live S b"
  shows "gate S (And2 a b S) (\<lambda>\<sigma>. lit_holds \<sigma> a \<and> lit_holds \<sigma> b)"
proof -
  let ?new = "let (ou, S1) = newLit True S
    in addClauses [[a, neg ou], [b, neg ou], [neg a, neg b, ou]] S1 \<bind> (\<lambda>S2. Some (ou, S2))"
  have new: "gate S ?new (\<lambda>\<sigma>. lit_holds \<sigma> a \<and> lit_holds \<sigma> b)"
    using wf lv by (intro new_gate [where cs = "\<lambda>ou. [[a, neg ou], [b, neg ou], [neg a, neg b, ou]]"])
      (auto simp: clause_holds_def)
  note fx = isConst_fixed [OF wf lv(1)] isConst_fixed [OF wf lv(2)]
  show ?thesis
    unfolding And2_def using wf lv fx same_var_neg [of a b]
    by (intro runs_if new gate_lit) auto
qed

lemma Or2_gate:
  assumes wf: "wf_circuit S" and lv: "live S a" "live S b"
  shows "gate S (Or2 a b S) (\<lambda>\<sigma>. lit_holds \<sigma> a \<or> lit_holds \<sigma> b)"
proof -
  let ?new = "let (ou, S1) = newLit True S
    in addClauses [[neg a, ou], [neg b, ou], [a, b, neg ou]] S1 \<bind> (\<lambda>S2. Some (ou, S2))"
  have new: "gate S ?new (\<lambda>\<sigma>. lit_holds \<sigma> a \<or> lit_holds \<sigma> b)"
    using wf lv by (intro new_gate [where cs = "\<lambda>ou. [[neg a, ou], [neg b, ou], [a, b, neg ou]]"])
      (auto simp: clause_holds_def)
  note fx = isConst_fixed [OF wf lv(1)] isConst_fixed [OF wf lv(2)]
  show ?thesis
    unfolding Or2_def using wf lv fx same_var_neg [of a b]
    by (intro runs_if new gate_lit) auto
qed

lemma Xor2_gate:
  assumes wf: "wf_circuit S" and lv: "live S a" "live S b"
  shows "gate S (Xor2 a b S) (\<lambda>\<sigma>. lit_holds \<sigma> a \<noteq> lit_holds \<sigma> b)"
proof -
  have new: "gate S (let (ou, S1) = newLit True S in addClauses (xor_clauses a b ou) S1 \<bind> (\<lambda>S2. Some (ou, S2)))
     (\<lambda>\<sigma>. lit_holds \<sigma> a \<noteq> lit_holds \<sigma> b)"
  proof (rule new_gate [OF wf])
    show "local_to live S (\<lambda>\<sigma>. lit_holds \<sigma> a \<noteq> lit_holds \<sigma> b)" using lv by (auto simp: local_to_def agree_def)
    show "list_all (list_all (live S')) (xor_clauses a b ou)"
      if "live S' ou" "\<And>l. live S l \<Longrightarrow> live S' l" for ou S'
      using that lv by (simp add: xor_clauses_def)
  qed (rule xor_clauses_holds)
  note fx = isConst_fixed [OF wf lv(1)] isConst_fixed [OF wf lv(2)]
  show ?thesis
    unfolding Xor2_def using wf lv fx by (intro runs_if new gate_lit) auto
qed


subsection \<open>Gates with an output literal\<close>

lemma asserts_when_out:
  assumes "wf_circuit S" "out \<noteq> lit_Undef \<Longrightarrow> asserts S (f S) \<phi>"
  shows "asserts S (when_out out f S) (\<lambda>\<sigma>. out \<noteq> lit_Undef \<longrightarrow> \<phi> \<sigma>)"
  using assms asserts_Some [of S "\<lambda>_. True"] by (simp add: when_out_def)

lemma asserts_Assert_neg [intro]:
  "wf_circuit S \<Longrightarrow> live S l \<Longrightarrow> asserts S (Assert (neg l) S) (\<lambda>\<sigma>. \<not> lit_holds \<sigma> l)"
  using asserts_Assert [of S "neg l"] by simp

lemma asserts_return_of:
  assumes "asserts S r \<phi>" "\<And>S'. ext S \<phi> S' \<Longrightarrow> Q (f S') S'"
  shows "runs S (r \<bind> (\<lambda>S'. Some (f S', S'))) \<phi> Q"
  using assms by (auto simp: asserts_def runs_def)

text \<open>
  A gate decided by constants: the given output is forced to the constant or to the other input. The
  result is the output literal in the first group of rules, the known literal in the second.
\<close>

lemma means_const:
  "ext S \<psi> S' \<Longrightarrow> (\<And>\<sigma>. \<sigma> \<in> models S \<Longrightarrow> \<phi> \<sigma>) \<Longrightarrow> means \<phi> (getTrue S') S'"
  "ext S \<psi> S' \<Longrightarrow> (\<And>\<sigma>. \<sigma> \<in> models S \<Longrightarrow> \<not> \<phi> \<sigma>) \<Longrightarrow> means \<phi> (getFalse S') S'"
  using ext_wf [of S \<psi> S'] ext_models [of S \<psi> S'] by (auto simp: means_def)

lemma means_old:
  "ext S \<psi> S' \<Longrightarrow> live S l \<Longrightarrow> (\<And>\<sigma>. \<sigma> \<in> models S \<Longrightarrow> lit_holds \<sigma> l = \<phi> \<sigma>) \<Longrightarrow> means \<phi> l S'"
  using ext_live [of S \<psi> S'] ext_models [of S \<psi> S'] by (auto simp: means_def)

lemma return_out:
  assumes "asserts S r \<chi>" "live S out" "out \<noteq> lit_Undef"
    "\<And>\<sigma>. \<sigma> \<in> models S \<Longrightarrow> \<chi> \<sigma> \<longleftrightarrow> lit_holds \<sigma> out = \<phi> \<sigma>"
  shows "out_gate S (r \<bind> (\<lambda>S'. Some (out, S'))) out \<phi>"
proof -
  have "asserts S r (out_constraint out \<phi>)"
    using assms(1,3,4) by (auto elim!: asserts_weaken)
  then show ?thesis
    using assms(2,3) by (rule_tac asserts_return) (auto simp: means_def dest: ext_live ext_holds)
qed

lemma out_Assert:
  assumes "wf_circuit S" "out = lit_Undef \<or> live S out"
  shows "(\<And>\<sigma>. \<sigma> \<in> models S \<Longrightarrow> \<phi> \<sigma>) \<Longrightarrow> out_gate S
      (if out \<noteq> lit_Undef then Assert out S \<bind> (\<lambda>S'. Some (out, S')) else Some (getTrue S, S)) out \<phi>"
    "(\<And>\<sigma>. \<sigma> \<in> models S \<Longrightarrow> \<not> \<phi> \<sigma>) \<Longrightarrow> out_gate S
      (if out \<noteq> lit_Undef then Assert (neg out) S \<bind> (\<lambda>S'. Some (out, S')) else Some (getFalse S, S)) out \<phi>"
    "live S l \<Longrightarrow> (\<And>\<sigma>. \<sigma> \<in> models S \<Longrightarrow> lit_holds \<sigma> l = \<phi> \<sigma>) \<Longrightarrow> out_gate S
      (if out \<noteq> lit_Undef then AssertEqual l out S \<bind> (\<lambda>S'. Some (out, S')) else Some (l, S)) out \<phi>"
  using assms return_out [OF asserts_Assert [of S out], of out \<phi>]
    return_out [OF asserts_Assert [of S "neg out"], of out \<phi>]
    return_out [OF asserts_AssertEqual [of S l out], of out \<phi>] gate_lit [of S _ \<phi>]
  by auto

lemma when_out_gate:
  assumes "wf_circuit S" "out = lit_Undef \<or> live S out"
  shows "(\<And>\<sigma>. \<sigma> \<in> models S \<Longrightarrow> \<phi> \<sigma>) \<Longrightarrow>
      out_gate S (when_out out (Assert out) S \<bind> (\<lambda>S'. Some (getTrue S', S'))) out \<phi>"
    "(\<And>\<sigma>. \<sigma> \<in> models S \<Longrightarrow> \<not> \<phi> \<sigma>) \<Longrightarrow>
      out_gate S (when_out out (Assert (neg out)) S \<bind> (\<lambda>S'. Some (getFalse S', S'))) out \<phi>"
    "live S l \<Longrightarrow> (\<And>\<sigma>. \<sigma> \<in> models S \<Longrightarrow> lit_holds \<sigma> l = \<phi> \<sigma>) \<Longrightarrow>
      out_gate S (when_out out (AssertEqual l out) S \<bind> (\<lambda>S'. Some (l, S'))) out \<phi>"
proof -
  have ol: "out \<noteq> lit_Undef \<Longrightarrow> live S out" using assms(2) by simp
  have w: "asserts S (when_out out f S) (out_constraint out \<phi>)"
    if "out \<noteq> lit_Undef \<Longrightarrow> asserts S (f S) \<chi>"
      "\<And>\<sigma>. \<sigma> \<in> models S \<Longrightarrow> \<chi> \<sigma> \<longleftrightarrow> lit_holds \<sigma> out = \<phi> \<sigma>" for f \<chi>
  proof -
    have "asserts S (when_out out f S) (\<lambda>\<sigma>. out \<noteq> lit_Undef \<longrightarrow> \<chi> \<sigma>)"
      by (rule asserts_when_out) (use assms(1) that(1) in auto)
    then show ?thesis by (rule asserts_weaken) (use that(2) in auto)
  qed
  show "out_gate S (when_out out (Assert out) S \<bind> (\<lambda>S'. Some (getTrue S', S'))) out \<phi>"
    if "\<And>\<sigma>. \<sigma> \<in> models S \<Longrightarrow> \<phi> \<sigma>"
    by (rule asserts_return_of [OF w [where f = "Assert out" and \<chi> = "\<lambda>\<sigma>. lit_holds \<sigma> out"]])
      (use that assms(1) ol in \<open>auto intro: means_const\<close>)
  show "out_gate S (when_out out (Assert (neg out)) S \<bind> (\<lambda>S'. Some (getFalse S', S'))) out \<phi>"
    if "\<And>\<sigma>. \<sigma> \<in> models S \<Longrightarrow> \<not> \<phi> \<sigma>"
    by (rule asserts_return_of [OF w
          [where f = "Assert (neg out)" and \<chi> = "\<lambda>\<sigma>. lit_holds \<sigma> (neg out)"]])
      (use that assms(1) ol in \<open>auto intro: means_const\<close>)
  show "out_gate S (when_out out (AssertEqual l out) S \<bind> (\<lambda>S'. Some (l, S'))) out \<phi>"
    if "live S l" "\<And>\<sigma>. \<sigma> \<in> models S \<Longrightarrow> lit_holds \<sigma> l = \<phi> \<sigma>"
    by (rule asserts_return_of [OF w
          [where f = "AssertEqual l out" and \<chi> = "\<lambda>\<sigma>. lit_holds \<sigma> l = lit_holds \<sigma> out"]])
      (use that assms(1) ol in \<open>auto intro: means_old\<close>)
qed

lemma And2_out_gate:
  assumes wf: "wf_circuit S" and lv: "live S a" "live S b" and out: "out = lit_Undef \<or> live S out"
  shows "out_gate S (And2_out a b out S) out (\<lambda>\<sigma>. lit_holds \<sigma> a \<and> lit_holds \<sigma> b)"
proof -
  have new: "out_gate S (let (ou, S1) = out_lit out S
      in addClauses [[a, neg ou], [b, neg ou], [neg a, neg b, ou]] S1 \<bind> (\<lambda>S2. Some (ou, S2))) out
      (\<lambda>\<sigma>. lit_holds \<sigma> a \<and> lit_holds \<sigma> b)"
    using wf lv out
    by (intro define_gate [where cs = "\<lambda>ou. [[a, neg ou], [b, neg ou], [neg a, neg b, ou]]"])
      (auto simp: clause_holds_def)
  note fx = isConst_fixed [OF wf lv(1)] isConst_fixed [OF wf lv(2)]
  show ?thesis
    unfolding And2_out_def using wf lv fx out
    by (intro out_Assert [OF wf out] new runs_if [of _ _ _ "out_constraint out _"]) auto
qed

lemma Or2_out_gate:
  assumes wf: "wf_circuit S" and lv: "live S a" "live S b" and out: "out = lit_Undef \<or> live S out"
  shows "out_gate S (Or2_out a b out S) out (\<lambda>\<sigma>. lit_holds \<sigma> a \<or> lit_holds \<sigma> b)"
proof -
  have new: "out_gate S (let (ou, S1) = out_lit out S
      in addClauses [[neg a, ou], [neg b, ou], [a, b, neg ou]] S1 \<bind> (\<lambda>S2. Some (ou, S2))) out
      (\<lambda>\<sigma>. lit_holds \<sigma> a \<or> lit_holds \<sigma> b)"
    using wf lv out
    by (intro define_gate [where cs = "\<lambda>ou. [[neg a, ou], [neg b, ou], [a, b, neg ou]]"])
      (auto simp: clause_holds_def)
  note fx = isConst_fixed [OF wf lv(1)] isConst_fixed [OF wf lv(2)]
  show ?thesis
    unfolding Or2_out_def using wf lv fx out
    by (intro when_out_gate [OF wf out] new runs_if) auto
qed


subsection \<open>Vector gates\<close>

lemma drop_consts_None: "drop_consts stop skip ls = None \<Longrightarrow> \<exists>l \<in> set ls. stop l"
  by (induction ls) (auto split: if_splits)

lemma drop_consts_Some:
  "drop_consts stop skip ls = Some tmp \<Longrightarrow>
     set tmp \<subseteq> set ls \<and> (\<forall>l \<in> set ls. l \<in> set tmp \<or> skip l)"
  by (induction ls arbitrary: tmp) (auto split: if_splits)

lemma local_to_all: "list_all (live S) ls \<Longrightarrow> local_to live S (\<lambda>\<sigma>. \<forall>l \<in> set ls. lit_holds \<sigma> l)"
  "list_all (live S) ls \<Longrightarrow> local_to live S (\<lambda>\<sigma>. \<exists>l \<in> set ls. lit_holds \<sigma> l)"
  by (auto simp: local_to_def agree_def list_all_iff)

lemma out_gate_cong:
  assumes "out_gate S r out \<phi>" "\<And>\<sigma>. \<sigma> \<in> models S \<Longrightarrow> \<phi> \<sigma> = \<psi> \<sigma>"
  shows "out_gate S r out \<psi>"
proof (rule runs_weaken [OF assms(1)])
  fix l S' assume "ext S (out_constraint out \<phi>) S'" "means \<phi> l S'"
  then show "means \<psi> l S'" using assms(2) ext_models by (blast intro: means_cong)
qed (use assms(2) in auto)

lemma Ands_out_gate:
  assumes wf: "wf_circuit S" and lv: "list_all (live S) vals" and out: "out = lit_Undef \<or> live S out"
  shows "out_gate S (Ands_out vals out S) out (\<lambda>\<sigma>. \<forall>l \<in> set vals. lit_holds \<sigma> l)"
proof (cases "drop_consts (isConstFalse S) (isConstTrue S) vals")
  case None
  then obtain l where "l \<in> set vals" "isConstFalse S l" using drop_consts_None by blast
  then have "\<not> (\<forall>l \<in> set vals. lit_holds \<sigma> l)" if "\<sigma> \<in> models S" for \<sigma>
    using isConstFalse_fixed [OF wf _ _ that] lv by (auto simp: list_all_iff)
  then show ?thesis unfolding Ands_out_def None option.case by (rule when_out_gate(2) [OF wf out])
next
  case (Some tmp)
  note d = drop_consts_Some [OF Some]
  have lt: "list_all (live S) tmp" using d lv by (auto simp: list_all_iff)
  have eq: "(\<forall>l \<in> set vals. lit_holds \<sigma> l) \<longleftrightarrow> (\<forall>l \<in> set tmp. lit_holds \<sigma> l)" if "\<sigma> \<in> models S" for \<sigma>
    using d isConstTrue_fixed [OF wf _ _ that] lv by (auto simp: list_all_iff)
  consider "tmp = []" | l where "tmp = [l]" | a b ls where "tmp = a # b # ls" by (metis list.exhaust)
  then show ?thesis
  proof cases
    case 1
    then show ?thesis
      unfolding Ands_out_def Some option.case list.case using eq
      by (simp only: list.case) (rule when_out_gate(1) [OF wf out], simp)
  next
    case 2
    then show ?thesis
      unfolding Ands_out_def Some option.case using eq lt
      by (simp only: list.case) (rule out_Assert(3) [OF wf out], auto)
  next
    case 3
    have "out_gate S (let (ou, S1) = out_lit out S
      in addClauses (map (\<lambda>l. [l, neg ou]) tmp @ [map neg tmp @ [ou]]) S1 \<bind> (\<lambda>S2. Some (ou, S2))) out
      (\<lambda>\<sigma>. \<forall>l \<in> set tmp. lit_holds \<sigma> l)"
      using wf lt out local_to_all(1) [OF lt]
      by (intro define_gate [where cs = "\<lambda>ou. map (\<lambda>l. [l, neg ou]) tmp @ [map neg tmp @ [ou]]"])
        (auto simp: clause_holds_def list_all_iff)
    then have "out_gate S (Ands_out vals out S) out (\<lambda>\<sigma>. \<forall>l \<in> set tmp. lit_holds \<sigma> l)"
      unfolding Ands_out_def Some option.case 3 list.case .
    then show ?thesis
      by (rule out_gate_cong) (simp add: eq)
  qed
qed

lemma Ors_out_gate:
  assumes wf: "wf_circuit S" and lv: "list_all (live S) vals" and out: "out = lit_Undef \<or> live S out"
  shows "out_gate S (Ors_out vals out S) out (\<lambda>\<sigma>. \<exists>l \<in> set vals. lit_holds \<sigma> l)"
proof (cases "drop_consts (isConstTrue S) (isConstFalse S) vals")
  case None
  then obtain l where "l \<in> set vals" "isConstTrue S l" using drop_consts_None by blast
  then have "\<exists>l \<in> set vals. lit_holds \<sigma> l" if "\<sigma> \<in> models S" for \<sigma>
    using isConstTrue_fixed [OF wf _ _ that] lv by (auto simp: list_all_iff)
  then show ?thesis unfolding Ors_out_def None option.case by (rule when_out_gate(1) [OF wf out])
next
  case (Some tmp)
  note d = drop_consts_Some [OF Some]
  have lt: "list_all (live S) tmp" using d lv by (auto simp: list_all_iff)
  have eq: "(\<exists>l \<in> set vals. lit_holds \<sigma> l) \<longleftrightarrow> (\<exists>l \<in> set tmp. lit_holds \<sigma> l)" if "\<sigma> \<in> models S" for \<sigma>
    using d isConstFalse_fixed [OF wf _ _ that] lv by (auto simp: list_all_iff)
  consider "tmp = []" | l where "tmp = [l]" | a b ls where "tmp = a # b # ls" by (metis list.exhaust)
  then show ?thesis
  proof cases
    case 1
    then show ?thesis
      unfolding Ors_out_def Some option.case list.case using eq
      by (simp only: list.case) (rule when_out_gate(2) [OF wf out], simp)
  next
    case 2
    then show ?thesis
      unfolding Ors_out_def Some option.case using eq lt
      by (simp only: list.case) (rule out_Assert(3) [OF wf out], auto)
  next
    case 3
    have "out_gate S (let (ou, S1) = out_lit out S
      in addClauses (map (\<lambda>l. [neg l, ou]) tmp @ [tmp @ [neg ou]]) S1 \<bind> (\<lambda>S2. Some (ou, S2))) out
      (\<lambda>\<sigma>. \<exists>l \<in> set tmp. lit_holds \<sigma> l)"
      using wf lt out local_to_all(2) [OF lt]
      by (intro define_gate [where cs = "\<lambda>ou. map (\<lambda>l. [neg l, ou]) tmp @ [tmp @ [neg ou]]"])
        (auto simp: clause_holds_def list_all_iff)
    then have "out_gate S (Ors_out vals out S) out (\<lambda>\<sigma>. \<exists>l \<in> set tmp. lit_holds \<sigma> l)"
      unfolding Ors_out_def Some option.case 3 list.case .
    then show ?thesis
      by (rule out_gate_cong) (simp add: eq)
  qed
qed

lemma gate_of_out: "out_gate S r lit_Undef \<phi> \<Longrightarrow> gate S r \<phi>"
  by simp

lemma Ands_gate:
  "wf_circuit S \<Longrightarrow> list_all (live S) vals \<Longrightarrow> gate S (Ands vals S) (\<lambda>\<sigma>. \<forall>l \<in> set vals. lit_holds \<sigma> l)"
  unfolding Ands_def by (rule gate_of_out [OF Ands_out_gate]) auto

lemma Ors_gate:
  "wf_circuit S \<Longrightarrow> list_all (live S) vals \<Longrightarrow> gate S (Ors vals S) (\<lambda>\<sigma>. \<exists>l \<in> set vals. lit_holds \<sigma> l)"
  unfolding Ors_def by (rule gate_of_out [OF Ors_out_gate]) auto

lemma neg_result_gate: "gate S r \<phi> \<Longrightarrow> gate S (neg_result r) (\<lambda>\<sigma>. \<not> \<phi> \<sigma>)"
  by (auto simp: runs_def neg_result_def intro: means_neg)

text \<open>\<open>bin_op\<close> with \<open>Xor\<close>: the parity of the arguments; of no arguments, true.\<close>

definition parity_of :: "assignment \<Rightarrow> Lit list \<Rightarrow> bool" where
  "parity_of \<sigma> ls \<longleftrightarrow> odd (length (filter (lit_holds \<sigma>) ls))"

lemma parity_simps [simp]:
  "\<not> parity_of \<sigma> []" "parity_of \<sigma> (l # ls) = (lit_holds \<sigma> l \<noteq> parity_of \<sigma> ls)"
  by (auto simp: parity_of_def)

lemma bin_round_Xor:
  "wf_circuit S \<Longrightarrow> list_all (live S) ls \<Longrightarrow>
     runs S (bin_round Xor2 ls S) (\<lambda>_. True)
       (\<lambda>ls' S'. list_all (live S') ls' \<and> (\<forall>\<sigma> \<in> models S'. parity_of \<sigma> ls' = parity_of \<sigma> ls) \<and>
          (ls = [] \<longleftrightarrow> ls' = []))"
proof (induction Xor2 ls S rule: bin_round.induct)
  case (1 a b ls S)
  obtain l S1 where 1: "Xor2 a b S = Some (l, S1)" "ext S (\<lambda>_. True) S1"
    "means (\<lambda>\<sigma>. lit_holds \<sigma> a \<noteq> lit_holds \<sigma> b) l S1"
    using Xor2_gate [of S a b] "1.prems" by (auto simp: runs_def)
  have "list_all (live S1) ls" using "1.prems" ext_const [OF 1(2)] by simp
  from "1.hyps" [OF 1(1) refl ext_wf [OF 1(2)] this] obtain ls' S2 where
    2: "bin_round Xor2 ls S1 = Some (ls', S2)" "ext S1 (\<lambda>_. True) S2" "list_all (live S2) ls'"
      "\<forall>\<sigma> \<in> models S2. parity_of \<sigma> ls' = parity_of \<sigma> ls"
    by (auto simp: runs_def)
  have "ext S (\<lambda>_. True) S2" using circ.ext_trans [OF 1(2) 2(2)] by simp
  moreover have "means (\<lambda>\<sigma>. lit_holds \<sigma> a \<noteq> lit_holds \<sigma> b) l S2" by (rule means_ext [OF 1(3) 2(2)])
  ultimately show ?case
    using 1 2 by (auto simp: runs_def means_def)
qed (simp_all add: runs_return)

lemma Xors_gate:
  "wf_circuit S \<Longrightarrow> list_all (live S) vals \<Longrightarrow>
     gate S (Xors vals S) (\<lambda>\<sigma>. if vals = [] then True else parity_of \<sigma> vals)"
  unfolding Xors_def
proof (induction Xor2 vals S rule: bin_op.induct)
  case (1 S)
  then show ?case using gate_lit [of S "getTrue S" "\<lambda>_. True"] by simp
next
  case (2 a S)
  then show ?case using gate_lit [of S a "\<lambda>\<sigma>. lit_holds \<sigma> a"] by simp
next
  case (3 a b ls S)
  obtain ls' S1 where r: "bin_round Xor2 (a # b # ls) S = Some (ls', S1)" "ext S (\<lambda>_. True) S1"
    "list_all (live S1) ls'" "\<forall>\<sigma> \<in> models S1. parity_of \<sigma> ls' = parity_of \<sigma> (a # b # ls)" "ls' \<noteq> []"
    using bin_round_Xor [OF "3.prems"] by (auto simp: runs_def)
  from "3.hyps" [OF r(1) refl ext_wf [OF r(2)] r(3)] r(5) obtain l S2 where
    2: "bin_op Xor2 ls' S1 = Some (l, S2)" "ext S1 (\<lambda>_. True) S2" "means (\<lambda>\<sigma>. parity_of \<sigma> ls') l S2"
    by (auto simp: runs_def)
  have "means (\<lambda>\<sigma>. parity_of \<sigma> (a # b # ls)) l S2"
    by (rule means_cong [OF 2(3)]) (use r(4) ext_models [OF 2(2)] in simp)
  then show ?case
    using r 2 circ.ext_trans [OF r(2) 2(2)] by (simp add: runs_def)
qed

lemma gate_cong: "gate S r \<phi> \<Longrightarrow> (\<And>\<sigma>. \<sigma> \<in> models S \<Longrightarrow> \<phi> \<sigma> = \<psi> \<sigma>) \<Longrightarrow> gate S r \<psi>"
  using out_gate_cong [of S r lit_Undef \<phi> \<psi>] by simp

lemma Xnor2_gate:
  "wf_circuit S \<Longrightarrow> live S a \<Longrightarrow> live S b \<Longrightarrow> gate S (Xnor2 a b S) (\<lambda>\<sigma>. lit_holds \<sigma> a = lit_holds \<sigma> b)"
  unfolding Xnor2_def using neg_result_gate [OF Xor2_gate] by simp

lemma Implies2_gate:
  "wf_circuit S \<Longrightarrow> live S a \<Longrightarrow> live S b \<Longrightarrow>
     gate S (Implies2 a b S) (\<lambda>\<sigma>. lit_holds \<sigma> a \<longrightarrow> lit_holds \<sigma> b)"
  unfolding Implies2_def by (rule gate_cong [OF Or2_gate]) auto

lemma Ite_gate:
  assumes "wf_circuit S" "live S c" "live S t" "live S e"
  shows "gate S (Ite c t e S) (\<lambda>\<sigma>. if lit_holds \<sigma> c then lit_holds \<sigma> t else lit_holds \<sigma> e)"
  unfolding Ite_def
proof (rule gate_bind [OF And2_gate])
  fix l S1 assume 1: "ext S (\<lambda>_. True) S1" "means (\<lambda>\<sigma>. lit_holds \<sigma> c \<and> lit_holds \<sigma> (neg t)) l S1"
  show "gate S1 (And2 (neg c) (neg e) S1 \<bind> (\<lambda>(r, S). And2 (neg l) (neg r) S))
    (\<lambda>\<sigma>. if lit_holds \<sigma> c then lit_holds \<sigma> t else lit_holds \<sigma> e)"
  proof (rule gate_bind [OF And2_gate])
    fix r S2 assume 2: "ext S1 (\<lambda>_. True) S2" "means (\<lambda>\<sigma>. lit_holds \<sigma> (neg c) \<and> lit_holds \<sigma> (neg e)) r S2"
    note l2 = means_ext [OF 1(2) 2(1)]
    show "gate S2 (And2 (neg l) (neg r) S2) (\<lambda>\<sigma>. if lit_holds \<sigma> c then lit_holds \<sigma> t else lit_holds \<sigma> e)"
      by (rule gate_cong [OF And2_gate])
        (use l2 2 in \<open>auto simp: means_holds [OF l2] means_holds [OF 2(2)] dest: means_live ext_wf\<close>)
  qed (use 1 assms in \<open>auto dest: ext_dest\<close>)
qed (use assms in auto)

lemma Ite_out_gate:
  assumes "wf_circuit S" "live S c" "live S t" "live S e" and out: "out = lit_Undef \<or> live S out"
  shows "out_gate S (Ite_out c t e out S) out
    (\<lambda>\<sigma>. if lit_holds \<sigma> c then lit_holds \<sigma> t else lit_holds \<sigma> e)"
proof -
  let ?ite = "\<lambda>\<sigma>. if lit_holds \<sigma> c then lit_holds \<sigma> t else lit_holds \<sigma> e"
  obtain l S1 where 1: "And2 c (neg t) S = Some (l, S1)" "ext S (\<lambda>_. True) S1"
    "means (\<lambda>\<sigma>. lit_holds \<sigma> c \<and> lit_holds \<sigma> (neg t)) l S1"
    using And2_gate [of S c "neg t"] assms by (auto simp: runs_def)
  obtain r S2 where 2: "And2 (neg c) (neg e) S1 = Some (r, S2)" "ext S1 (\<lambda>_. True) S2"
    "means (\<lambda>\<sigma>. lit_holds \<sigma> (neg c) \<and> lit_holds \<sigma> (neg e)) r S2"
    using And2_gate [of S1 "neg c" "neg e"] assms ext_wf [OF 1(2)] ext_live [OF 1(2)] by (auto simp: runs_def)
  note l2 = means_ext [OF 1(3) 2(2)]
  have "out_gate S2 (And2_out (neg l) (neg r) out S2) out ?ite"
  proof (rule out_gate_cong [OF And2_out_gate])
    show "out = lit_Undef \<or> live S2 out" using out ext_live 1(2) 2(2) by blast
  qed (use l2 2 in \<open>auto simp: means_holds [OF l2] means_holds [OF 2(3)] dest: means_live ext_wf\<close>)
  then obtain o' S3 where 3: "And2_out (neg l) (neg r) out S2 = Some (o', S3)"
    "ext S2 (out_constraint out ?ite) S3" "means ?ite o' S3"
    by (auto simp: runs_def)
  have "ext S (\<lambda>_. True) S2" using circ.ext_trans [OF 1(2) 2(2)] by simp
  moreover have "local_to live S (out_constraint out ?ite)"
    using assms by (auto simp: local_to_def agree_def)
  ultimately have "ext S (out_constraint out ?ite) S3"
    using circ.ext_trans [OF _ 3(2), of S "\<lambda>_. True"] by simp
  then show ?thesis using 1(1) 2(1) 3 by (simp add: Ite_out_def runs_def)
qed

subsection \<open>Properties\<close>

lemma Circuit_init_wf:
  assumes "wf_solver S"
  shows "\<exists>S'. Circuit_init S = Some S' \<and> wf_circuit S' \<and> sat_ext wf_solver live models S (\<lambda>_. True) S'"
  using solver_True_wf [OF assms] by (auto simp: Circuit_init_def wf_circuit_def sat_ext_def)

text \<open>The circuit used by the witnesses: the constant and three inputs.\<close>

definition demo_circuit :: Solver where
  "demo_circuit = the (Circuit_init three_vars)"

lemma demo_circuit: "wf_circuit demo_circuit" "0 \<le> var l \<Longrightarrow> var l < 3 \<Longrightarrow> live demo_circuit l"
  using Circuit_init_wf [OF three_vars_wf] three_vars_live [of l]
  by (auto simp: demo_circuit_def sat_ext_def)

text \<open>C30: Each two-input gate always returns. The state it returns is a definitional extension: no model
  is lost on the existing literals, and in every model the result has the value of the gate, also when
  inputs are equal, complementary or constant.\<close>

theorem binary_gates_correct:
  assumes "wf_circuit S" "live S a" "live S b"
  shows "gate S (And2 a b S) (\<lambda>\<sigma>. lit_holds \<sigma> a \<and> lit_holds \<sigma> b) \<and>
    gate S (Or2 a b S) (\<lambda>\<sigma>. lit_holds \<sigma> a \<or> lit_holds \<sigma> b) \<and>
    gate S (Nand2 a b S) (\<lambda>\<sigma>. \<not> (lit_holds \<sigma> a \<and> lit_holds \<sigma> b)) \<and>
    gate S (Nor2 a b S) (\<lambda>\<sigma>. \<not> (lit_holds \<sigma> a \<or> lit_holds \<sigma> b)) \<and>
    gate S (Xor2 a b S) (\<lambda>\<sigma>. lit_holds \<sigma> a \<noteq> lit_holds \<sigma> b) \<and>
    gate S (Xnor2 a b S) (\<lambda>\<sigma>. lit_holds \<sigma> a = lit_holds \<sigma> b) \<and>
    gate S (Implies2 a b S) (\<lambda>\<sigma>. lit_holds \<sigma> a \<longrightarrow> lit_holds \<sigma> b)"
  unfolding Nand2_def Nor2_def
  by (intro conjI neg_result_gate And2_gate Or2_gate Xor2_gate Xnor2_gate Implies2_gate assms)

theorem binary_gates_correct_witness:
  "gate demo_circuit (Xor2 (mkLit 0 False) (mkLit 2 True) demo_circuit)
     (\<lambda>\<sigma>. lit_holds \<sigma> (mkLit 0 False) \<noteq> lit_holds \<sigma> (mkLit 2 True))"
  using binary_gates_correct [of demo_circuit "mkLit 0 False" "mkLit 2 True"]
  by (simp add: demo_circuit lit_simps)


text \<open>C31: The vector gates, with a given output literal or none: constants among the arguments are
  dropped or decide the gate, and in every case a given output literal is constrained to exactly the
  conjunction or disjunction of the arguments, nothing else is constrained, and the result has that
  value.\<close>

theorem vector_gates_correct:
  assumes "wf_circuit S" "list_all (live S) vals" "out = lit_Undef \<or> live S out"
  shows "out_gate S (Ands_out vals out S) out (\<lambda>\<sigma>. \<forall>l \<in> set vals. lit_holds \<sigma> l) \<and>
    out_gate S (Ors_out vals out S) out (\<lambda>\<sigma>. \<exists>l \<in> set vals. lit_holds \<sigma> l) \<and>
    gate S (Nands vals S) (\<lambda>\<sigma>. \<not> (\<forall>l \<in> set vals. lit_holds \<sigma> l)) \<and>
    gate S (Nors vals S) (\<lambda>\<sigma>. \<not> (\<exists>l \<in> set vals. lit_holds \<sigma> l))"
  unfolding Nands_def Nors_def
  by (intro conjI neg_result_gate Ands_out_gate Ors_out_gate Ands_gate Ors_gate assms)

theorem vector_gates_correct_witness:
  "out_gate demo_circuit (Ands_out [mkLit 0 False, mkLit 1 True, getTrue demo_circuit] (mkLit 2 False) demo_circuit)
     (mkLit 2 False) (\<lambda>\<sigma>. \<forall>l \<in> set [mkLit 0 False, mkLit 1 True, getTrue demo_circuit]. lit_holds \<sigma> l)"
proof -
  have "live demo_circuit (getTrue demo_circuit)" by (rule getTrue_live(1) [OF demo_circuit(1)])
  then show ?thesis
    using vector_gates_correct [of demo_circuit "[mkLit 0 False, mkLit 1 True, getTrue demo_circuit]" "mkLit 2 False"]
    by (simp add: demo_circuit lit_simps)
qed

text \<open>The binary gates with an output literal, and \<open>Ite\<close> with and without one.\<close>

theorem out_gates_correct:
  assumes "wf_circuit S" "live S a" "live S b" "live S c" "out = lit_Undef \<or> live S out"
  shows "out_gate S (And2_out a b out S) out (\<lambda>\<sigma>. lit_holds \<sigma> a \<and> lit_holds \<sigma> b) \<and>
    out_gate S (Or2_out a b out S) out (\<lambda>\<sigma>. lit_holds \<sigma> a \<or> lit_holds \<sigma> b) \<and>
    out_gate S (Implies2_out a b out S) out (\<lambda>\<sigma>. lit_holds \<sigma> a \<longrightarrow> lit_holds \<sigma> b) \<and>
    out_gate S (Ite_out c a b out S) out
      (\<lambda>\<sigma>. if lit_holds \<sigma> c then lit_holds \<sigma> a else lit_holds \<sigma> b) \<and>
    gate S (Ite c a b S) (\<lambda>\<sigma>. if lit_holds \<sigma> c then lit_holds \<sigma> a else lit_holds \<sigma> b)"
proof (intro conjI And2_out_gate Or2_out_gate Ite_gate Ite_out_gate assms)
  show "out_gate S (Implies2_out a b out S) out (\<lambda>\<sigma>. lit_holds \<sigma> a \<longrightarrow> lit_holds \<sigma> b)"
    unfolding Implies2_out_def by (rule out_gate_cong [OF Or2_out_gate]) (use assms in auto)
qed

theorem out_gates_correct_witness:
  "out_gate demo_circuit (Or2_out (mkLit 0 False) (mkLit 1 True) lit_Undef demo_circuit) lit_Undef
     (\<lambda>\<sigma>. lit_holds \<sigma> (mkLit 0 False) \<or> lit_holds \<sigma> (mkLit 1 True))"
  using out_gates_correct [of demo_circuit "mkLit 0 False" "mkLit 1 True" "mkLit 2 True" lit_Undef]
  by (simp add: demo_circuit lit_simps)

text \<open>\<open>Xor\<close> of a vector combines neighbours in rounds until one literal is left; the result is the
  parity of the arguments. Of an empty vector the result is the constant true, and the one-argument
  overload \<open>Xor(Lit)\<close> returns the complement of its argument, where the vector of that one literal gives
  the literal itself.\<close>

theorem Xors_parity:
  assumes "wf_circuit S" "list_all (live S) vals" "live S a"
  shows "gate S (Xors vals S) (\<lambda>\<sigma>. vals = [] \<or> odd (length (filter (lit_holds \<sigma>) vals))) \<and>
    gate S (Xors [a] S) (\<lambda>\<sigma>. lit_holds \<sigma> a) \<and> gate S (Xor1 a S) (\<lambda>\<sigma>. \<not> lit_holds \<sigma> a)"
proof (intro conjI)
  show "gate S (Xors vals S) (\<lambda>\<sigma>. vals = [] \<or> odd (length (filter (lit_holds \<sigma>) vals)))"
    using gate_cong [OF Xors_gate [OF assms(1,2)]] by (simp add: parity_of_def)
  show "gate S (Xors [a] S) (\<lambda>\<sigma>. lit_holds \<sigma> a)"
    using gate_cong [OF Xors_gate [of S "[a]"]] assms by simp
  show "gate S (Xor1 a S) (\<lambda>\<sigma>. \<not> lit_holds \<sigma> a)"
    unfolding Xor1_def using assms by (intro gate_lit) auto
qed

theorem Xors_parity_witness:
  "gate demo_circuit (Xors [mkLit 0 False, mkLit 1 True, mkLit 2 False] demo_circuit)
     (\<lambda>\<sigma>. odd (length (filter (lit_holds \<sigma>) [mkLit 0 False, mkLit 1 True, mkLit 2 False])))"
  using Xors_parity [of demo_circuit "[mkLit 0 False, mkLit 1 True, mkLit 2 False]" "mkLit 0 False"]
  by (simp add: demo_circuit lit_simps)

text \<open>\<open>Xor_\<close> with inputs that are not constant ignores the output literal it is given: it returns a new
  literal, and the given one is left unconstrained. Without an output literal it passes \<open>lit_Undef\<close> to the
  solver, which is undefined (as long as the solver is not already contradictory).\<close>

theorem Xor2_out_detached:
  assumes "wf_circuit S" "live S a" "live S b" "\<not> isConst S a" "\<not> isConst S b"
  shows "(out \<noteq> lit_Undef \<longrightarrow>
      gate S (Xor2_out a b out S) (\<lambda>\<sigma>. lit_holds \<sigma> a \<noteq> lit_holds \<sigma> b)) \<and>
    (ok S \<longrightarrow> Xor2_out a b lit_Undef S = None)"
proof -
  have nc: "\<not> isConstTrue S a" "\<not> isConstFalse S a" "\<not> isConstTrue S b" "\<not> isConstFalse S b"
    using assms by (auto simp: isConst_def)
  have "Xor2_out a b out S = Xor2 a b S" if "out \<noteq> lit_Undef"
    using that nc by (simp add: Xor2_out_def Xor2_def)
  moreover have "Xor2_out a b lit_Undef S = None" if "ok S"
  proof -
    have "\<not> in_range (cancelUntil 0 S) (neg lit_Undef)" unfolding in_range_neg by simp
    then have "addClause [a, b, neg lit_Undef] S = None"
      using that by (simp add: addClause_def addClause_impl_def)
    then show ?thesis using nc by (simp add: Xor2_out_def xor_clauses_def)
  qed
  ultimately show ?thesis using Xor2_gate assms by simp
qed

lemma demo_not_const:
  "\<not> isConst demo_circuit (mkLit 0 False) \<and> \<not> isConst demo_circuit (mkLit 1 False) \<and> ok demo_circuit"
proof -
  obtain S' where S': "demo_circuit = S'" "wf_circuit S'" "sat_ext wf_solver live models three_vars (\<lambda>_. True) S'"
    using Circuit_init_wf [OF three_vars_wf] by (auto simp: demo_circuit_def)
  have ex: "\<exists>\<tau> \<in> models S'. \<forall>l. live three_vars l \<longrightarrow> lit_holds \<tau> l = lit_holds (\<lambda>_. b) l" for b
    using S'(3) three_vars_models by (auto simp: sat_ext_def agree_def)
  have "\<not> isConst S' (mkLit v False)" if v: "0 \<le> v" "v < 3" for v
  proof -
    have l3: "live three_vars (mkLit v False)" and l: "live S' (mkLit v False)"
      using three_vars_live [of "mkLit v False"] demo_circuit(2) [of "mkLit v False"] S'(1) v
      by (simp_all add: lit_simps)
    have h: "lit_holds (\<lambda>_. b) (mkLit v False) = b" for b by (simp add: lit_holds_def lit_simps)
    obtain \<tau> \<upsilon> where "\<tau> \<in> models S'" "lit_holds \<tau> (mkLit v False)"
      "\<upsilon> \<in> models S'" "\<not> lit_holds \<upsilon> (mkLit v False)"
      using ex [of True] ex [of False] l3 h by blast
    then show ?thesis
      unfolding isConst_def using isConstTrue_fixed [OF S'(2) l] isConstFalse_fixed [OF S'(2) l] by blast
  qed
  moreover have "ok S'" using ex [of True] by (auto simp: models_def)
  ultimately show ?thesis using S'(1) by simp
qed

theorem Xor2_out_detached_witness:
  "gate demo_circuit (Xor2_out (mkLit 0 False) (mkLit 1 False) (mkLit 2 False) demo_circuit)
     (\<lambda>\<sigma>. lit_holds \<sigma> (mkLit 0 False) \<noteq> lit_holds \<sigma> (mkLit 1 False)) \<and>
   Xor2_out (mkLit 0 False) (mkLit 1 False) lit_Undef demo_circuit = None"
  using Xor2_out_detached [of demo_circuit "mkLit 0 False" "mkLit 1 False" "mkLit 2 False"] demo_not_const
  by (simp add: demo_circuit lit_simps lit_Undef_def mkLit_def)

text \<open>\<open>Xnor_(a, b, out)\<close> does not tie \<open>out\<close> to the equivalence of \<open>a\<close> and \<open>b\<close>: it resolves to the variadic
  \<open>Xnor\<close> with \<open>out\<close> as a third argument and returns the parity of the three literals, with \<open>out\<close> left
  unconstrained.\<close>

theorem Xnor2_out_wrong:
  assumes "wf_circuit S" "live S a" "live S b" "live S out"
  shows "gate S (Xnor2_out a b out S) (\<lambda>\<sigma>. lit_holds \<sigma> a \<noteq> (lit_holds \<sigma> b \<noteq> lit_holds \<sigma> out))"
proof -
  have "gate S (Xnors [a, b, out] S) (\<lambda>\<sigma>. \<not> (if [a, b, out] = [] then True else parity_of \<sigma> [a, b, out]))"
    unfolding Xnors_def using assms by (intro neg_result_gate Xors_gate) auto
  from neg_result_gate [OF this] show ?thesis
    unfolding Xnor2_out_def by (rule gate_cong) auto
qed

theorem Xnor2_out_wrong_witness:
  "gate demo_circuit (Xnor2_out (mkLit 0 False) (mkLit 1 False) (mkLit 2 False) demo_circuit)
     (\<lambda>\<sigma>. lit_holds \<sigma> (mkLit 0 False) \<noteq> (lit_holds \<sigma> (mkLit 1 False) \<noteq> lit_holds \<sigma> (mkLit 2 False)))"
  using Xnor2_out_wrong [of demo_circuit "mkLit 0 False" "mkLit 1 False" "mkLit 2 False"]
  by (simp add: demo_circuit lit_simps)

end
