(* ===== verification/Circuit_Arith.thy ===== *)
theory Circuit_Arith
  imports Circuit_Gates
begin

text \<open>
  The arithmetic of \<open>api/Circuit.h\<close>: \<open>HalfAdder\<close>, \<open>FullAdder\<close>, \<open>HalfSubtractor\<close>, the ripple-carry \<open>Add\<close> and
  \<open>Subtract\<close>, two's complement \<open>Negate\<close>, the array multiplier \<open>Multiply\<close> with its blocks, and the comparators
  \<open>Equal\<close>, \<open>LEQ\<close> and \<open>LT\<close> on bit vectors, least significant bit first. \<open>bv\<close> is the number that an assignment
  gives to a vector of literals; the properties state each operation as arithmetic on these numbers.
  Reference parameters (\<open>carry_out\<close>, \<open>store_out\<close>) are returned as results. Reading a vector past its end is
  \<open>None\<close>.
\<close>

subsection \<open>Operations\<close>

definition HalfAdder :: "Lit \<Rightarrow> Lit \<Rightarrow> Solver \<Rightarrow> ((Lit \<times> Lit) \<times> Solver) option" where
  "HalfAdder a b S =
     do { (carry_out, S) \<leftarrow> And2 a b S; (out, S) \<leftarrow> Xor2 a b S; Some ((out, carry_out), S) }"

definition FullAdder :: "Lit \<Rightarrow> Lit \<Rightarrow> Lit \<Rightarrow> Solver \<Rightarrow> ((Lit \<times> Lit) \<times> Solver) option" where
  "FullAdder a b c_in S =
     do { (a_xor_b, S) \<leftarrow> Xor2 a b S;
          (a_and_b, S) \<leftarrow> And2 a b S;
          (c, S) \<leftarrow> And2 c_in a_xor_b S;
          (carry_out, S) \<leftarrow> Or2 a_and_b c S;
          (out, S) \<leftarrow> Xor2 a_xor_b c_in S;
          Some ((out, carry_out), S) }"

definition HalfSubtractor :: "Lit \<Rightarrow> Lit \<Rightarrow> Solver \<Rightarrow> ((Lit \<times> Lit) \<times> Solver) option" where
  "HalfSubtractor a b S =
     do { (borrow_out, S) \<leftarrow> And2 (neg a) b S; (out, S) \<leftarrow> Xor2 a b S; Some ((out, borrow_out), S) }"

text \<open>One iteration of the loop of \<open>Add\<close>: the next bit of the sum and the next carry.\<close>

definition add_bit :: "Lit \<Rightarrow> Lit \<Rightarrow> Lit \<Rightarrow> Solver \<Rightarrow> ((Lit \<times> Lit) \<times> Solver) option" where
  "add_bit a b carry S =
     do { (x1, S) \<leftarrow> Xor2 a b S;
          (s, S) \<leftarrow> Xor2 x1 carry S;
          (c1, S) \<leftarrow> And2 x1 carry S;
          (ab, S) \<leftarrow> And2 a b S;
          (carry, S) \<leftarrow> Or2 ab c1 S;
          Some ((s, carry), S) }"

fun add_loop :: "Lit list \<Rightarrow> Lit list \<Rightarrow> Lit \<Rightarrow> Solver \<Rightarrow> ((Lit list \<times> Lit) \<times> Solver) option" where
  "add_loop [] bs carry S = Some (([], carry), S)"
| "add_loop (a # as) [] carry S = None"
| "add_loop (a # as) (b # bs) carry S =
     do { ((s, carry), S) \<leftarrow> add_bit a b carry S;
          ((ss, c), S) \<leftarrow> add_loop as bs carry S;
          Some ((s # ss, c), S) }"

fun Add :: "Lit list \<Rightarrow> Lit list \<Rightarrow> Solver \<Rightarrow> ((Lit list \<times> Lit) \<times> Solver) option" where
  "Add (a # as) (b # bs) S =
     do { ((s, carry), S) \<leftarrow> HalfAdder a b S;
          ((ss, c), S) \<leftarrow> add_loop as bs carry S;
          Some ((s # ss, c), S) }"
| "Add as bs S = None"

definition subtract_bit :: "Lit \<Rightarrow> Lit \<Rightarrow> Lit \<Rightarrow> Solver \<Rightarrow> ((Lit \<times> Lit) \<times> Solver) option" where
  "subtract_bit a b borrow S =
     do { (x1, S) \<leftarrow> Xor2 a b S;
          (d, S) \<leftarrow> Xor2 x1 borrow S;
          (c1, S) \<leftarrow> And2 (neg x1) borrow S;
          (ab, S) \<leftarrow> And2 (neg a) b S;
          (borrow, S) \<leftarrow> Or2 ab c1 S;
          Some ((d, borrow), S) }"

fun subtract_loop :: "Lit list \<Rightarrow> Lit list \<Rightarrow> Lit \<Rightarrow> Solver \<Rightarrow> ((Lit list \<times> Lit) \<times> Solver) option" where
  "subtract_loop [] bs borrow S = Some (([], borrow), S)"
| "subtract_loop (a # as) [] borrow S = None"
| "subtract_loop (a # as) (b # bs) borrow S =
     do { ((d, borrow), S) \<leftarrow> subtract_bit a b borrow S;
          ((ds, c), S) \<leftarrow> subtract_loop as bs borrow S;
          Some ((d # ds, c), S) }"

fun Subtract :: "Lit list \<Rightarrow> Lit list \<Rightarrow> Solver \<Rightarrow> ((Lit list \<times> Lit) \<times> Solver) option" where
  "Subtract (a # as) (b # bs) S =
     do { ((d, borrow), S) \<leftarrow> HalfSubtractor a b S;
          ((ds, c), S) \<leftarrow> subtract_loop as bs borrow S;
          Some ((d # ds, c), S) }"
| "Subtract as bs S = None"

definition negate_bit :: "Lit \<Rightarrow> Lit \<Rightarrow> Solver \<Rightarrow> ((Lit \<times> Lit) \<times> Solver) option" where
  "negate_bit a carry S =
     do { (x1, S) \<leftarrow> Xor2 (neg a) carry S; (carry, S) \<leftarrow> And2 (neg a) carry S; Some ((x1, carry), S) }"

fun negate_loop :: "Lit list \<Rightarrow> Lit \<Rightarrow> Solver \<Rightarrow> (Lit list \<times> Solver) option" where
  "negate_loop [] carry S = Some ([], S)"
| "negate_loop (a # as) carry S =
     do { ((x1, carry), S) \<leftarrow> negate_bit a carry S;
          (xs, S) \<leftarrow> negate_loop as carry S;
          Some (x1 # xs, S) }"

fun Negate :: "Lit list \<Rightarrow> Solver \<Rightarrow> (Lit list \<times> Solver) option" where
  "Negate [] S = None"
| "Negate (a # as) S =
     do { ((s, carry), S) \<leftarrow> HalfAdder (neg a) (getTrue S) S;
          (xs, S) \<leftarrow> negate_loop as carry S;
          Some (s # xs, S) }"

definition mBlock :: "Lit \<Rightarrow> Lit \<Rightarrow> Lit \<Rightarrow> Lit \<Rightarrow> Lit \<Rightarrow> Solver \<Rightarrow> ((Lit \<times> Lit) \<times> Solver) option" where
  "mBlock m0 m1 q0 q1 c_in S =
     do { (a, S) \<leftarrow> And2 q1 m0 S; (b, S) \<leftarrow> And2 q0 m1 S; FullAdder a b c_in S }"

definition nBlock :: "Lit \<Rightarrow> Lit \<Rightarrow> Lit \<Rightarrow> Lit \<Rightarrow> Solver \<Rightarrow> ((Lit \<times> Lit) \<times> Solver) option" where
  "nBlock m0 m1 q0 c_in S = do { (a, S) \<leftarrow> And2 q0 m0 S; FullAdder a m1 c_in S }"

text \<open>
  The first row of \<open>Multiply\<close> for the bits \<open>m[i - 1], m[i]\<close>, \<open>getFalse()\<close> after the last; a further row for
  the pairs of \<open>prev_passthrough[i - 1]\<close>, which is always \<open>m[i - 1]\<close>, and \<open>prev_results[i]\<close>.
\<close>

fun first_row :: "Lit \<Rightarrow> Lit \<Rightarrow> Lit list \<Rightarrow> Lit \<Rightarrow> Solver \<Rightarrow> ((Lit list \<times> Lit) \<times> Solver) option" where
  "first_row q0 q1 [] c S = Some (([], c), S)"
| "first_row q0 q1 (m0 # ms) c S =
     do { ((res, c), S) \<leftarrow> mBlock m0 (case ms of [] \<Rightarrow> getFalse S | m1 # _ \<Rightarrow> m1) q0 q1 c S;
          ((rs, c), S) \<leftarrow> first_row q0 q1 ms c S;
          Some ((res # rs, c), S) }"

fun next_row :: "Lit \<Rightarrow> Lit list \<Rightarrow> Lit list \<Rightarrow> Lit \<Rightarrow> Solver \<Rightarrow> ((Lit list \<times> Lit) \<times> Solver) option" where
  "next_row q_in [] rs c S = Some (([], c), S)"
| "next_row q_in (m0 # ms) [] c S = None"
| "next_row q_in (m0 # ms) (m1 # rs) c S =
     do { ((res, c), S) \<leftarrow> nBlock m0 m1 q_in c S;
          ((rs', c), S) \<leftarrow> next_row q_in ms rs c S;
          Some ((res # rs', c), S) }"

text \<open>The remaining rows and the last one: \<open>cur_results\<close> in, the rest of \<open>store_out\<close> out.\<close>

fun rows :: "Lit list \<Rightarrow> Lit list \<Rightarrow> Lit list \<Rightarrow> Solver \<Rightarrow> (Lit list \<times> Solver) option" where
  "rows m [] cur_results S = Some (tl cur_results, S)"
| "rows m (q_in # qs) cur_results S =
     do { ((rs, c), S) \<leftarrow> next_row q_in m (tl cur_results) (getFalse S) S;
          (out, S) \<leftarrow> rows m qs (rs @ [c]) S;
          Some (hd rs # out, S) }"

fun Multiply :: "Lit list \<Rightarrow> Lit list \<Rightarrow> Solver \<Rightarrow> (Lit list \<times> Solver) option" where
  "Multiply (m0 # ms) (q0 # qs) S =
     do { (res, S) \<leftarrow> And2 m0 q0 S;
          if ms = [] then Some ([res], S)
          else (case qs of
                  [] \<Rightarrow> None
                | q1 # qs \<Rightarrow>
                    do { ((rs, c), S) \<leftarrow> first_row q0 q1 (m0 # ms) (getFalse S) S;
                         (out, S) \<leftarrow> rows (m0 # ms) qs (rs @ [c]) S;
                         Some (res # hd rs # out, S) }) }"
| "Multiply m q S = None"

text \<open>\<open>B\<close> copied to \<open>assert_tmp\<close> and filled up with \<open>getFalse()\<close> to the length of \<open>A\<close>.\<close>

definition pad_false :: "Lit list \<Rightarrow> Lit list \<Rightarrow> Solver \<Rightarrow> Lit list" where
  "pad_false A B S = vec_grow (length A) (getFalse S) B"

fun xnor_bits :: "(Lit \<times> Lit) list \<Rightarrow> Solver \<Rightarrow> (Lit list \<times> Solver) option" where
  "xnor_bits [] S = Some ([], S)"
| "xnor_bits ((a, b) # prs) S =
     do { (x, S) \<leftarrow> Xnor2 a b S; (xs, S) \<leftarrow> xnor_bits prs S; Some (x # xs, S) }"

definition Equal_bv :: "Lit list \<Rightarrow> Lit list \<Rightarrow> Solver \<Rightarrow> (Lit \<times> Solver) option" where
  "Equal_bv A B S = do { (xnors, S) \<leftarrow> xnor_bits (zip A (pad_false A B S)) S; Ands xnors S }"

text \<open>
  One iteration of the loops of \<open>LEQ\<close> and \<open>LT\<close> up to the new \<open>p_lt_n\<close>, and the loops, from the most significant pair of bits down; \<open>LT\<close> does not update \<open>p_eq_n\<close> for
  the last pair. The second loop goes over the bits of \<open>B\<close> beyond the length of \<open>A\<close>.
\<close>

definition compare_bit :: "Lit \<Rightarrow> Lit \<Rightarrow> Lit \<Rightarrow> Lit \<Rightarrow> Solver \<Rightarrow> ((Lit \<times> Lit) \<times> Solver) option" where
  "compare_bit a b p_lt_n p_eq_n S =
     do { (pj_eq_n, S) \<leftarrow> Xnor2 a b S;
          (pj_ltn, S) \<leftarrow> And2 (neg a) b S;
          (lt, S) \<leftarrow> And2 p_eq_n pj_ltn S;
          (p_lt_n, S) \<leftarrow> Or2 lt p_lt_n S;
          Some ((pj_eq_n, p_lt_n), S) }"

fun leq_loop :: "(Lit \<times> Lit) list \<Rightarrow> Lit \<Rightarrow> Lit \<Rightarrow> Solver \<Rightarrow> ((Lit \<times> Lit) \<times> Solver) option" where
  "leq_loop [] p_lt_n p_eq_n S = Some ((p_lt_n, p_eq_n), S)"
| "leq_loop ((a, b) # prs) p_lt_n p_eq_n S =
     do { ((pj_eq_n, p_lt_n), S) \<leftarrow> compare_bit a b p_lt_n p_eq_n S;
          (p_eq_n, S) \<leftarrow> And2 pj_eq_n p_eq_n S;
          leq_loop prs p_lt_n p_eq_n S }"

fun lt_loop :: "(Lit \<times> Lit) list \<Rightarrow> Lit \<Rightarrow> Lit \<Rightarrow> Solver \<Rightarrow> (Lit \<times> Solver) option" where
  "lt_loop [] p_lt_n p_eq_n S = Some (p_lt_n, S)"
| "lt_loop ((a, b) # prs) p_lt_n p_eq_n S =
     do { ((pj_eq_n, p_lt_n), S) \<leftarrow> compare_bit a b p_lt_n p_eq_n S;
          (p_eq_n, S) \<leftarrow> (if prs \<noteq> [] then And2 pj_eq_n p_eq_n S else Some (p_eq_n, S));
          lt_loop prs p_lt_n p_eq_n S }"

fun or_high :: "Lit list \<Rightarrow> Lit \<Rightarrow> Solver \<Rightarrow> (Lit \<times> Solver) option" where
  "or_high [] p_lt_n S = Some (p_lt_n, S)"
| "or_high (b # bs) p_lt_n S = do { (p_lt_n, S) \<leftarrow> Or2 b p_lt_n S; or_high bs p_lt_n S }"

definition LEQ :: "Lit list \<Rightarrow> Lit list \<Rightarrow> Solver \<Rightarrow> (Lit \<times> Solver) option" where
  "LEQ A B S =
     do { ((p_lt_n, p_eq_n), S) \<leftarrow> leq_loop (rev (zip A (pad_false A B S))) (getFalse S) (getTrue S) S;
          (p_lt_n, S) \<leftarrow> or_high (drop (length A) B) p_lt_n S;
          Or2 p_lt_n p_eq_n S }"

definition LT :: "Lit list \<Rightarrow> Lit list \<Rightarrow> Solver \<Rightarrow> (Lit \<times> Solver) option" where
  "LT A B S =
     do { (p_lt_n, S) \<leftarrow> lt_loop (rev (zip A (pad_false A B S))) (getFalse S) (getTrue S) S;
          or_high (drop (length A) B) p_lt_n S }"

subsection \<open>Numbers\<close>

fun bv :: "assignment \<Rightarrow> Lit list \<Rightarrow> nat" where
  "bv \<sigma> [] = 0"
| "bv \<sigma> (l # ls) = of_bool (lit_holds \<sigma> l) + 2 * bv \<sigma> ls"

lemma bv_append: "bv \<sigma> (ls @ ks) = bv \<sigma> ls + 2 ^ length ls * bv \<sigma> ks"
  by (induction ls) auto

lemma bv_less: "bv \<sigma> ls < 2 ^ length ls"
  by (induction ls) (auto simp: of_bool_def)

subsection \<open>Sequences of gates\<close>

text \<open>
  Symbolic execution of a sequence of gates: \<open>K\<close> collects what is known of every model of the current
  state, and each step adds what the step yields.
\<close>

lemma step:
  assumes "models S \<subseteq> {\<sigma>. K \<sigma>}"
    "runs S r (\<lambda>_. True) (\<lambda>x S1. L x S1 \<and> (\<forall>\<sigma> \<in> models S1. P x \<sigma>))"
    "\<And>x S1. wf_circuit S1 \<Longrightarrow> (\<And>y. live S y \<Longrightarrow> live S1 y) \<Longrightarrow> L x S1 \<Longrightarrow>
       models S1 \<subseteq> {\<sigma>. K \<sigma> \<and> P x \<sigma>} \<Longrightarrow> runs S1 (g x S1) (\<lambda>_. True) Q"
  shows "runs S (r \<bind> (\<lambda>(x, S1). g x S1)) (\<lambda>_. True) Q"
  by (rule gate_bind [OF assms(2)]) (rule assms(3); use assms(1) in \<open>auto simp: sat_ext_def\<close>)

lemma last_step:
  assumes "models S \<subseteq> {\<sigma>. K \<sigma>}"
    "runs S r (\<lambda>_. True) (\<lambda>x S1. L x S1 \<and> (\<forall>\<sigma> \<in> models S1. P x \<sigma>))"
    "\<And>x S1. wf_circuit S1 \<Longrightarrow> (\<And>y. live S y \<Longrightarrow> live S1 y) \<Longrightarrow> L x S1 \<Longrightarrow>
       models S1 \<subseteq> {\<sigma>. K \<sigma> \<and> P x \<sigma>} \<Longrightarrow> Q x S1"
  shows "runs S r (\<lambda>_. True) Q"
  by (rule runs_weaken [OF assms(2)], simp) (rule assms(3); use assms(1) in \<open>auto simp: sat_ext_def\<close>)

lemma start: "(models S \<subseteq> {\<sigma>. True} \<Longrightarrow> runs S r (\<lambda>_. True) Q) \<Longrightarrow> runs S r (\<lambda>_. True) Q"
  by simp

lemmas gate_steps = And2_gate [unfolded means_def] Or2_gate [unfolded means_def]
  Xor2_gate [unfolded means_def] Xnor2_gate [unfolded means_def]

text \<open>The results of an operation that returns a pair of literals, or vectors of literals.\<close>

lemma HalfAdder_runs:
  assumes "wf_circuit S" "live S a" "live S b"
  shows "runs S (HalfAdder a b S) (\<lambda>_. True) (\<lambda>r S'. (live S' (fst r) \<and> live S' (snd r)) \<and>
    (\<forall>\<sigma> \<in> models S'. of_bool (lit_holds \<sigma> (fst r)) + 2 * of_bool (lit_holds \<sigma> (snd r)) =
       (of_bool (lit_holds \<sigma> a) + of_bool (lit_holds \<sigma> b) :: nat)))"
  unfolding HalfAdder_def
  by (rule start, (rule step, assumption, rule gate_steps, (simp_all add: assms)[3])+,
      rule runs_return) (auto simp: subset_iff)

lemma FullAdder_runs:
  assumes "wf_circuit S" "live S a" "live S b" "live S c"
  shows "runs S (FullAdder a b c S) (\<lambda>_. True) (\<lambda>r S'. (live S' (fst r) \<and> live S' (snd r)) \<and>
    (\<forall>\<sigma> \<in> models S'. of_bool (lit_holds \<sigma> (fst r)) + 2 * of_bool (lit_holds \<sigma> (snd r)) =
       (of_bool (lit_holds \<sigma> a) + of_bool (lit_holds \<sigma> b) + of_bool (lit_holds \<sigma> c) :: nat)))"
  unfolding FullAdder_def
  by (rule start, (rule step, assumption, rule gate_steps, (simp_all add: assms)[3])+,
      rule runs_return) (auto simp: subset_iff)

lemma HalfSubtractor_runs:
  assumes "wf_circuit S" "live S a" "live S b"
  shows "runs S (HalfSubtractor a b S) (\<lambda>_. True) (\<lambda>r S'. (live S' (fst r) \<and> live S' (snd r)) \<and>
    (\<forall>\<sigma> \<in> models S'. of_bool (lit_holds \<sigma> a) + 2 * of_bool (lit_holds \<sigma> (snd r)) =
       (of_bool (lit_holds \<sigma> b) + of_bool (lit_holds \<sigma> (fst r)) :: nat)))"
  unfolding HalfSubtractor_def
  by (rule start, (rule step, assumption, rule gate_steps, (simp_all add: assms)[3])+,
      rule runs_return) (auto simp: subset_iff)

lemma add_bit_runs:
  assumes "wf_circuit S" "live S a" "live S b" "live S c"
  shows "runs S (add_bit a b c S) (\<lambda>_. True) (\<lambda>r S'. (live S' (fst r) \<and> live S' (snd r)) \<and>
    (\<forall>\<sigma> \<in> models S'. of_bool (lit_holds \<sigma> (fst r)) + 2 * of_bool (lit_holds \<sigma> (snd r)) =
       (of_bool (lit_holds \<sigma> a) + of_bool (lit_holds \<sigma> b) + of_bool (lit_holds \<sigma> c) :: nat)))"
  unfolding add_bit_def
  by (rule start, (rule step, assumption, rule gate_steps, (simp_all add: assms)[3])+,
      rule runs_return) (auto simp: subset_iff)

lemma subtract_bit_runs:
  assumes "wf_circuit S" "live S a" "live S b" "live S c"
  shows "runs S (subtract_bit a b c S) (\<lambda>_. True) (\<lambda>r S'. (live S' (fst r) \<and> live S' (snd r)) \<and>
    (\<forall>\<sigma> \<in> models S'. of_bool (lit_holds \<sigma> a) + 2 * of_bool (lit_holds \<sigma> (snd r)) =
       (of_bool (lit_holds \<sigma> b) + of_bool (lit_holds \<sigma> c) + of_bool (lit_holds \<sigma> (fst r)) :: nat)))"
  unfolding subtract_bit_def
  by (rule start, (rule step, assumption, rule gate_steps, (simp_all add: assms)[3])+,
      rule runs_return) (auto simp: subset_iff)

lemma negate_bit_runs:
  assumes "wf_circuit S" "live S a" "live S c"
  shows "runs S (negate_bit a c S) (\<lambda>_. True) (\<lambda>r S'. (live S' (fst r) \<and> live S' (snd r)) \<and>
    (\<forall>\<sigma> \<in> models S'. of_bool (lit_holds \<sigma> (fst r)) + 2 * of_bool (lit_holds \<sigma> (snd r)) + of_bool (lit_holds \<sigma> a) =
       (1 + of_bool (lit_holds \<sigma> c) :: nat)))"
  unfolding negate_bit_def
  by (rule start, (rule step, assumption, rule gate_steps, (simp_all add: assms)[3])+,
      rule runs_return) (auto simp: subset_iff)

lemma compare_bit_runs:
  assumes "wf_circuit S" "live S a" "live S b" "live S l" "live S e"
  shows "runs S (compare_bit a b l e S) (\<lambda>_. True) (\<lambda>r S'. (live S' (fst r) \<and> live S' (snd r)) \<and>
    (\<forall>\<sigma> \<in> models S'. lit_holds \<sigma> (fst r) = (lit_holds \<sigma> a = lit_holds \<sigma> b) \<and>
       lit_holds \<sigma> (snd r) =
         (lit_holds \<sigma> l \<or> lit_holds \<sigma> e \<and> \<not> lit_holds \<sigma> a \<and> lit_holds \<sigma> b)))"
  unfolding compare_bit_def
  by (rule start, (rule step, assumption, rule gate_steps, (simp_all add: assms)[3])+,
      rule runs_return) (auto simp: subset_iff)

lemma mBlock_runs:
  assumes "wf_circuit S" "live S m0" "live S m1" "live S q0" "live S q1" "live S c"
  shows "runs S (mBlock m0 m1 q0 q1 c S) (\<lambda>_. True) (\<lambda>r S'. (live S' (fst r) \<and> live S' (snd r)) \<and>
    (\<forall>\<sigma> \<in> models S'. of_bool (lit_holds \<sigma> (fst r)) + 2 * of_bool (lit_holds \<sigma> (snd r)) =
       (of_bool (lit_holds \<sigma> q1) * of_bool (lit_holds \<sigma> m0) + of_bool (lit_holds \<sigma> q0) * of_bool (lit_holds \<sigma> m1) +
        of_bool (lit_holds \<sigma> c) :: nat)))"
  unfolding mBlock_def
  by (rule start, (rule step, assumption, rule gate_steps, (simp_all add: assms)[3])+,
      rule last_step, assumption, rule FullAdder_runs, (simp_all add: assms)[4]) (auto simp: subset_iff)

lemma nBlock_runs:
  assumes "wf_circuit S" "live S m0" "live S m1" "live S q0" "live S c"
  shows "runs S (nBlock m0 m1 q0 c S) (\<lambda>_. True) (\<lambda>r S'. (live S' (fst r) \<and> live S' (snd r)) \<and>
    (\<forall>\<sigma> \<in> models S'. of_bool (lit_holds \<sigma> (fst r)) + 2 * of_bool (lit_holds \<sigma> (snd r)) =
       (of_bool (lit_holds \<sigma> q0) * of_bool (lit_holds \<sigma> m0) + of_bool (lit_holds \<sigma> m1) +
        of_bool (lit_holds \<sigma> c) :: nat)))"
  unfolding nBlock_def
  by (rule start, (rule step, assumption, rule gate_steps, (simp_all add: assms)[3])+,
      rule last_step, assumption, rule FullAdder_runs, (simp_all add: assms)[4]) (auto simp: subset_iff)


subsection \<open>Ripple-carry addition and subtraction\<close>

subsection \<open>Ripple-carry addition, subtraction and negation\<close>

lemma add_loop_runs:
  assumes "wf_circuit S" "list_all (live S) as" "list_all (live S) bs" "live S c" "length bs = length as"
  shows "runs S (add_loop as bs c S) (\<lambda>_. True)
    (\<lambda>r S'. (list_all (live S') (fst r) \<and> live S' (snd r) \<and> length (fst r) = length as) \<and>
      (\<forall>\<sigma> \<in> models S'. bv \<sigma> (fst r) + 2 ^ length as * of_bool (lit_holds \<sigma> (snd r)) =
         bv \<sigma> as + bv \<sigma> bs + of_bool (lit_holds \<sigma> c)))"
  using assms
proof (induction as arbitrary: bs c S)
  case Nil
  then show ?case by (simp add: runs_return)
next
  case (Cons a as)
  then obtain b bs' where bs: "bs = b # bs'" by (cases bs) auto
  have lv: "live S a" "live S b" "live S c" "list_all (live S) as" "list_all (live S) bs'" "length bs' = length as"
    using Cons.prems bs by auto
  note side = Cons.prems(1) lv [unfolded list_all_iff] list_all_iff
  show ?case
    unfolding bs add_loop.simps
    by (rule start, rule step, assumption, rule add_bit_runs, (simp_all add: side)[4], simp only: split_beta,
        rule step, assumption, rule Cons.IH, (simp_all add: side)[5], simp only: split_beta,
        rule runs_return, assumption) (auto simp: subset_iff algebra_simps simp del: of_bool_eq_iff)
qed

lemma subtract_loop_runs:
  assumes "wf_circuit S" "list_all (live S) as" "list_all (live S) bs" "live S c" "length bs = length as"
  shows "runs S (subtract_loop as bs c S) (\<lambda>_. True)
    (\<lambda>r S'. (list_all (live S') (fst r) \<and> live S' (snd r) \<and> length (fst r) = length as) \<and>
      (\<forall>\<sigma> \<in> models S'. bv \<sigma> as + 2 ^ length as * of_bool (lit_holds \<sigma> (snd r)) =
         bv \<sigma> bs + of_bool (lit_holds \<sigma> c) + bv \<sigma> (fst r)))"
  using assms
proof (induction as arbitrary: bs c S)
  case Nil
  then show ?case by (simp add: runs_return)
next
  case (Cons a as)
  then obtain b bs' where bs: "bs = b # bs'" by (cases bs) auto
  have lv: "live S a" "live S b" "live S c" "list_all (live S) as" "list_all (live S) bs'" "length bs' = length as"
    using Cons.prems bs by auto
  note side = Cons.prems(1) lv [unfolded list_all_iff] list_all_iff
  show ?case
    unfolding bs subtract_loop.simps
    by (rule start, rule step, assumption, rule subtract_bit_runs, (simp_all add: side)[4], simp only: split_beta,
        rule step, assumption, rule Cons.IH, (simp_all add: side)[5], simp only: split_beta,
        rule runs_return, assumption) (auto simp: subset_iff algebra_simps simp del: of_bool_eq_iff)
qed


lemma Add_runs:
  assumes "wf_circuit S" "list_all (live S) as" "list_all (live S) bs" "length bs = length as" "as \<noteq> []"
  shows "runs S (Add as bs S) (\<lambda>_. True)
    (\<lambda>r S'. (list_all (live S') (fst r) \<and> live S' (snd r) \<and> length (fst r) = length as) \<and>
      (\<forall>\<sigma> \<in> models S'. bv \<sigma> (fst r) + 2 ^ length as * of_bool (lit_holds \<sigma> (snd r)) = bv \<sigma> as + bv \<sigma> bs))"
proof -
  obtain a as' b bs' where eq: "as = a # as'" "bs = b # bs'" using assms by (cases as; cases bs) auto
  have lv: "live S a" "live S b" "list_all (live S) as'" "list_all (live S) bs'" "length bs' = length as'"
    using assms eq by auto
  note side = assms(1) lv [unfolded list_all_iff] list_all_iff
  show ?thesis
    unfolding eq Add.simps
    by (rule start, rule step, assumption, rule HalfAdder_runs, (simp_all add: side)[3], simp only: split_beta,
        rule step, assumption, rule add_loop_runs, (simp_all add: side)[5], simp only: split_beta,
        rule runs_return, assumption) (auto simp: subset_iff algebra_simps simp del: of_bool_eq_iff)
qed

lemma Subtract_runs:
  assumes "wf_circuit S" "list_all (live S) as" "list_all (live S) bs" "length bs = length as" "as \<noteq> []"
  shows "runs S (Subtract as bs S) (\<lambda>_. True)
    (\<lambda>r S'. (list_all (live S') (fst r) \<and> live S' (snd r) \<and> length (fst r) = length as) \<and>
      (\<forall>\<sigma> \<in> models S'. bv \<sigma> as + 2 ^ length as * of_bool (lit_holds \<sigma> (snd r)) = bv \<sigma> bs + bv \<sigma> (fst r)))"
proof -
  obtain a as' b bs' where eq: "as = a # as'" "bs = b # bs'" using assms by (cases as; cases bs) auto
  have lv: "live S a" "live S b" "list_all (live S) as'" "list_all (live S) bs'" "length bs' = length as'"
    using assms eq by auto
  note side = assms(1) lv [unfolded list_all_iff] list_all_iff
  show ?thesis
    unfolding eq Subtract.simps
    by (rule start, rule step, assumption, rule HalfSubtractor_runs, (simp_all add: side)[3], simp only: split_beta,
        rule step, assumption, rule subtract_loop_runs, (simp_all add: side)[5], simp only: split_beta,
        rule runs_return, assumption) (auto simp: subset_iff algebra_simps simp del: of_bool_eq_iff)
qed

lemma start_consts:
  assumes "wf_circuit S"
    "models S \<subseteq> {\<sigma>. lit_holds \<sigma> (getTrue S) \<and> \<not> lit_holds \<sigma> (getFalse S)} \<Longrightarrow> runs S r (\<lambda>_. True) Q"
  shows "runs S r (\<lambda>_. True) Q"
  by (rule assms(2)) (use assms(1) in auto)

lemma negate_loop_runs:
  assumes "wf_circuit S" "list_all (live S) as" "live S c"
  shows "runs S (negate_loop as c S) (\<lambda>_. True)
    (\<lambda>r S'. (list_all (live S') r \<and> length r = length as) \<and>
      (\<forall>\<sigma> \<in> models S'. bv \<sigma> r + bv \<sigma> as + 1 = 2 ^ length as + of_bool (lit_holds \<sigma> c) \<or>
         bv \<sigma> r = 0 \<and> bv \<sigma> as = 0 \<and> lit_holds \<sigma> c))"
  using assms
proof (induction as arbitrary: c S)
  case Nil
  then show ?case by (auto intro!: runs_return)
next
  case (Cons a as)
  then have lv: "live S a" "live S c" "list_all (live S) as" by auto
  note side = Cons.prems(1) lv [unfolded list_all_iff] list_all_iff
  show ?case
    unfolding negate_loop.simps
    by (rule start, rule step, assumption, rule negate_bit_runs, (simp_all add: side)[3], simp only: split_beta,
        rule step, assumption, rule Cons.IH, (simp_all add: side)[3], rule runs_return, assumption)
      (auto simp: subset_iff of_bool_def split: if_splits)
qed

lemma Negate_runs:
  assumes "wf_circuit S" "list_all (live S) as" "as \<noteq> []"
  shows "runs S (Negate as S) (\<lambda>_. True)
    (\<lambda>r S'. (list_all (live S') r \<and> length r = length as) \<and>
      (\<forall>\<sigma> \<in> models S'. bv \<sigma> r + bv \<sigma> as = 2 ^ length as \<or> bv \<sigma> r = 0 \<and> bv \<sigma> as = 0))"
proof -
  obtain a as' where eq: "as = a # as'" using assms by (cases as) auto
  have lv: "live S a" "list_all (live S) as'" using assms eq by auto
  note side = assms(1) lv [unfolded list_all_iff] list_all_iff
  show ?thesis
    unfolding eq Negate.simps
    by (rule start_consts, rule assms, rule step, assumption, rule HalfAdder_runs, (simp_all add: side)[3],
        simp only: split_beta, rule step, assumption, rule negate_loop_runs, (simp_all add: side)[3],
        rule runs_return, assumption)
      (auto simp: subset_iff of_bool_def split: if_splits)
qed

subsection \<open>Multiplication\<close>

lemma row_arith:
  fixes r :: nat
  assumes "r + 2 * c1 = q1 * m0 + q0 * m1 + c" "R + p * C = q1 * M + q0 * T + c1"
  shows "r + 2 * R + 2 * p * C = q1 * (m0 + 2 * M) + q0 * (m1 + 2 * T) + c"
proof -
  have "r + 2 * R + 2 * p * C = r + 2 * (R + p * C)" by (simp add: algebra_simps)
  also have "\<dots> = (r + 2 * c1) + 2 * (q1 * M + q0 * T)" unfolding assms(2) by simp
  also have "\<dots> = q1 * (m0 + 2 * M) + q0 * (m1 + 2 * T) + c" unfolding assms(1) by (simp add: algebra_simps)
  finally show ?thesis .
qed

lemma first_row_runs:
  assumes "wf_circuit S" "list_all (live S) ms" "live S q0" "live S q1" "live S c"
  shows "runs S (first_row q0 q1 ms c S) (\<lambda>_. True)
    (\<lambda>r S'. (list_all (live S') (fst r) \<and> live S' (snd r) \<and> length (fst r) = length ms) \<and>
      (\<forall>\<sigma> \<in> models S'. bv \<sigma> (fst r) + 2 ^ length ms * of_bool (lit_holds \<sigma> (snd r)) =
         of_bool (lit_holds \<sigma> q1) * bv \<sigma> ms + of_bool (lit_holds \<sigma> q0) * bv \<sigma> (tl ms) + of_bool (lit_holds \<sigma> c)))"
  using assms
proof (induction ms arbitrary: c S)
  case Nil
  then show ?case by (simp add: runs_return)
next
  case (Cons m0 ms)
  let ?m1 = "case ms of [] \<Rightarrow> getFalse S | m1 # _ \<Rightarrow> m1"
  have lv: "live S m0" "live S q0" "live S q1" "live S c" "list_all (live S) ms" "live S ?m1"
    using Cons.prems by (auto split: list.splits)
  note side = Cons.prems(1) lv [unfolded list_all_iff] list_all_iff
  have tl: "bv \<sigma> ms = of_bool (lit_holds \<sigma> ?m1) + 2 * bv \<sigma> (tl ms)" if "\<not> lit_holds \<sigma> (getFalse S)" for \<sigma>
    using that by (cases ms) auto
  show ?case
    unfolding first_row.simps
    apply (rule start_consts, rule Cons.prems, rule step, assumption, rule mBlock_runs, (simp_all add: side)[6],
        simp only: split_beta, rule step, assumption, rule Cons.IH, (simp_all add: side)[5], simp only: split_beta,
        rule runs_return, assumption)
    subgoal premises prems for x S1 y S2
    proof (intro conjI ballI)
      fix \<sigma> assume "\<sigma> \<in> models S2"
      then have k: "\<not> lit_holds \<sigma> (getFalse S)"
        "of_bool (lit_holds \<sigma> (fst x)) + 2 * of_bool (lit_holds \<sigma> (snd x)) =
          (of_bool (lit_holds \<sigma> q1) * of_bool (lit_holds \<sigma> m0) + of_bool (lit_holds \<sigma> q0) * of_bool (lit_holds \<sigma> ?m1) +
           of_bool (lit_holds \<sigma> c) :: nat)"
        "bv \<sigma> (fst y) + 2 ^ length ms * of_bool (lit_holds \<sigma> (snd y)) =
          of_bool (lit_holds \<sigma> q1) * bv \<sigma> ms + of_bool (lit_holds \<sigma> q0) * bv \<sigma> (tl ms) + of_bool (lit_holds \<sigma> (snd x))"
        using prems by blast+
      show "bv \<sigma> (fst (fst x # fst y, snd y)) + 2 ^ length (m0 # ms) * of_bool (lit_holds \<sigma> (snd (fst x # fst y, snd y))) =
        of_bool (lit_holds \<sigma> q1) * bv \<sigma> (m0 # ms) + of_bool (lit_holds \<sigma> q0) * bv \<sigma> (tl (m0 # ms)) + of_bool (lit_holds \<sigma> c)"
        using row_arith [OF k(2,3)] tl [OF k(1)] by simp
    qed (use prems in auto)
    done
qed

lemma next_row_runs:
  assumes "wf_circuit S" "list_all (live S) ms" "list_all (live S) rs" "live S q" "live S c" "length rs = length ms"
  shows "runs S (next_row q ms rs c S) (\<lambda>_. True)
    (\<lambda>r S'. (list_all (live S') (fst r) \<and> live S' (snd r) \<and> length (fst r) = length ms) \<and>
      (\<forall>\<sigma> \<in> models S'. bv \<sigma> (fst r) + 2 ^ length ms * of_bool (lit_holds \<sigma> (snd r)) =
         of_bool (lit_holds \<sigma> q) * bv \<sigma> ms + bv \<sigma> rs + of_bool (lit_holds \<sigma> c)))"
  using assms
proof (induction ms arbitrary: rs c S)
  case Nil
  then show ?case by (simp add: runs_return)
next
  case (Cons m0 ms)
  then obtain m1 rs' where rs: "rs = m1 # rs'" by (cases rs) auto
  have lv: "live S m0" "live S m1" "live S q" "live S c" "list_all (live S) ms" "list_all (live S) rs'"
    "length rs' = length ms"
    using Cons.prems rs by auto
  note side = Cons.prems(1) lv [unfolded list_all_iff] list_all_iff
  show ?case
    unfolding rs next_row.simps
    by (rule start, rule step, assumption, rule nBlock_runs, (simp_all add: side)[5],
        simp only: split_beta, rule step, assumption, rule Cons.IH, (simp_all add: side)[6], simp only: split_beta,
        rule runs_return, assumption)
      (auto simp: subset_iff algebra_simps split: split_of_bool)
qed

lemma add_consts:
  assumes "models S \<subseteq> {\<sigma>. K \<sigma>}" "wf_circuit S"
    "models S \<subseteq> {\<sigma>. K \<sigma> \<and> lit_holds \<sigma> (getTrue S) \<and> \<not> lit_holds \<sigma> (getFalse S)} \<Longrightarrow> runs S r (\<lambda>_. True) Q"
  shows "runs S r (\<lambda>_. True) Q"
  by (rule assms(3)) (use assms(1,2) in auto)

lemma bv_hd_tl: "ls \<noteq> [] \<Longrightarrow> bv \<sigma> ls = of_bool (lit_holds \<sigma> (hd ls)) + 2 * bv \<sigma> (tl ls)"
  by (cases ls) auto

lemma rows_runs:
  assumes "wf_circuit S" "list_all (live S) m" "list_all (live S) qs" "list_all (live S) cur"
    "length cur = Suc (length m)" "m \<noteq> []"
  shows "runs S (rows m qs cur S) (\<lambda>_. True)
    (\<lambda>r S'. (list_all (live S') r \<and> length r = length m + length qs) \<and>
      (\<forall>\<sigma> \<in> models S'. bv \<sigma> r = bv \<sigma> (tl cur) + bv \<sigma> m * bv \<sigma> qs))"
  using assms
proof (induction qs arbitrary: cur S)
  case Nil
  then show ?case by (cases cur) (simp_all add: runs_return)
next
  case (Cons q qs)
  have lv: "live S q" "list_all (live S) m" "list_all (live S) qs" "list_all (live S) (tl cur)"
    "length (tl cur) = length m"
    using Cons.prems by (auto simp: list_all_iff dest: list.set_sel(2) [rotated])
  note side = Cons.prems(1,5,6) lv [unfolded list_all_iff] list_all_iff
  show ?case
    unfolding rows.simps
    apply (rule start_consts, rule Cons.prems, rule step, assumption, rule next_row_runs, (simp_all add: side)[6],
        simp only: split_beta, rule step, assumption, rule Cons.IH, (simp_all add: side)[6],
        rule runs_return, assumption)
    subgoal premises prems for x S1 y S2
    proof (intro conjI ballI)
      fix \<sigma> assume "\<sigma> \<in> models S2"
      then have k: "\<not> lit_holds \<sigma> (getFalse S)"
        "bv \<sigma> (fst x) + 2 ^ length m * of_bool (lit_holds \<sigma> (snd x)) =
          of_bool (lit_holds \<sigma> q) * bv \<sigma> m + bv \<sigma> (tl cur) + of_bool (lit_holds \<sigma> (getFalse S))"
        "bv \<sigma> y = bv \<sigma> (tl (fst x @ [snd x])) + bv \<sigma> m * bv \<sigma> qs"
        using prems by blast+
      have len: "length (fst x) = length m" "fst x \<noteq> []" using prems Cons.prems(6) by auto
      have "bv \<sigma> (hd (fst x) # y) =
          of_bool (lit_holds \<sigma> (hd (fst x))) + 2 * bv \<sigma> (tl (fst x @ [snd x])) + 2 * (bv \<sigma> m * bv \<sigma> qs)"
        using k(3) by simp
      also have "\<dots> = bv \<sigma> (fst x @ [snd x]) + 2 * (bv \<sigma> m * bv \<sigma> qs)"
        using bv_hd_tl [of "fst x @ [snd x]" \<sigma>] len(2) by simp
      also have "\<dots> = bv \<sigma> (tl cur) + bv \<sigma> m * bv \<sigma> (q # qs)"
        using k(1,2) len(1) by (simp add: bv_append algebra_simps)
      finally show "bv \<sigma> (hd (fst x) # y) = bv \<sigma> (tl cur) + bv \<sigma> m * bv \<sigma> (q # qs)" .
    qed (use prems Cons.prems(6) in \<open>cases "fst x"; auto simp: list_all_iff\<close>)+
    done
qed

lemma Multiply_runs:
  assumes "wf_circuit S" "list_all (live S) m" "list_all (live S) q" "length q = length m" "m \<noteq> []"
  shows "runs S (Multiply m q S) (\<lambda>_. True)
    (\<lambda>r S'. (list_all (live S') r \<and> (length m > 1 \<longrightarrow> length r = length m + length q)) \<and>
      (\<forall>\<sigma> \<in> models S'. bv \<sigma> r = bv \<sigma> m * bv \<sigma> q))"
proof -
  obtain m0 ms q0 qs where eq: "m = m0 # ms" "q = q0 # qs" using assms by (cases m; cases q) auto
  have lv: "live S m0" "live S q0" "list_all (live S) ms" "list_all (live S) qs" using assms eq by auto
  note side = assms(1) lv [unfolded list_all_iff] list_all_iff
  show ?thesis
  proof (cases qs)
    case Nil
    then have "ms = []" using assms eq by simp
    then show ?thesis
      unfolding eq Multiply.simps Nil
      by (simp only: simp_thms if_True) (rule start, rule step, assumption, rule gate_steps, (simp_all add: side)[3],
          rule runs_return, assumption, auto)
  next
    case (Cons q1 qs')
    have ms: "ms \<noteq> []" and lq: "live S q1" "list_all (live S) qs'" using assms eq Cons lv by auto
    note side = side lq [unfolded list_all_iff]
    show ?thesis
      unfolding eq Multiply.simps Cons list.case
      apply (simp only: ms if_False)
      apply (rule start, rule step, assumption, rule gate_steps, (simp_all add: side)[3])
      apply (erule add_consts, assumption, erule step, rule first_row_runs, (simp_all add: side)[5], simp only: split_beta)
      apply (rule step, assumption, rule rows_runs, (simp_all add: side)[6], rule runs_return, assumption)
      subgoal premises prems for res S1 x S2 y S3
      proof (intro conjI ballI)
        fix \<sigma> assume "\<sigma> \<in> models S3"
        then have k: "\<not> lit_holds \<sigma> (getFalse S1)" "lit_holds \<sigma> res = (lit_holds \<sigma> m0 \<and> lit_holds \<sigma> q0)"
          "bv \<sigma> (fst x) + 2 ^ length (m0 # ms) * of_bool (lit_holds \<sigma> (snd x)) =
            of_bool (lit_holds \<sigma> q1) * bv \<sigma> (m0 # ms) + of_bool (lit_holds \<sigma> q0) * bv \<sigma> (tl (m0 # ms)) +
            of_bool (lit_holds \<sigma> (getFalse S1))"
          "bv \<sigma> y = bv \<sigma> (tl (fst x @ [snd x])) + bv \<sigma> (m0 # ms) * bv \<sigma> qs'"
          using prems by blast+
        have len: "length (fst x) = length (m0 # ms)" "fst x \<noteq> []" using prems by auto
        let ?M = "bv \<sigma> (m0 # ms)"
        have R: "bv \<sigma> (fst x @ [snd x]) = of_bool (lit_holds \<sigma> q1) * ?M + of_bool (lit_holds \<sigma> q0) * bv \<sigma> ms"
          using k(1,3) len(1) by (simp add: bv_append)
        have "bv \<sigma> (res # hd (fst x) # y) = of_bool (lit_holds \<sigma> res) +
            2 * (of_bool (lit_holds \<sigma> (hd (fst x))) + 2 * bv \<sigma> (tl (fst x @ [snd x]))) + 4 * (?M * bv \<sigma> qs')"
          unfolding bv.simps(2) [of \<sigma> res] bv.simps(2) [of \<sigma> "hd (fst x)"] k(4) by (simp add: algebra_simps)
        also have "\<dots> = of_bool (lit_holds \<sigma> res) + 2 * bv \<sigma> (fst x @ [snd x]) + 4 * (?M * bv \<sigma> qs')"
          using bv_hd_tl [of "fst x @ [snd x]" \<sigma>] len(2) by simp
        also have "\<dots> = ?M * bv \<sigma> (q0 # q1 # qs')"
          unfolding R k(2) by (simp add: algebra_simps of_bool_conj)
        finally show "bv \<sigma> (res # hd (fst x) # y) = ?M * bv \<sigma> (q0 # q1 # qs')" .
      qed (use prems in \<open>cases "fst x"; auto simp: list_all_iff\<close>)+
      done
  qed
qed


subsection \<open>Comparison\<close>

lemma bv_rev_Cons: "bv \<sigma> (rev (l # ls)) = bv \<sigma> (rev ls) + 2 ^ length ls * of_bool (lit_holds \<sigma> l)"
  by (simp add: bv_append)

text \<open>Comparison by the most significant bit, then by the rest.\<close>

lemma msb_compare:
  fixes X Y n :: nat
  assumes "X < 2 ^ n" "Y < 2 ^ n"
  shows "X + 2 ^ n * of_bool a < Y + 2 ^ n * of_bool b \<longleftrightarrow> \<not> a \<and> b \<or> (a = b \<and> X < Y)"
    "X + 2 ^ n * of_bool a = Y + 2 ^ n * of_bool b \<longleftrightarrow> a = b \<and> X = Y"
  using assms by (cases a; cases b; simp)+

lemma zip_bits_less: "bv \<sigma> (rev (map fst prs)) < 2 ^ length prs" "bv \<sigma> (rev (map snd prs)) < 2 ^ length prs"
  using bv_less [of \<sigma> "rev (map fst prs)"] bv_less [of \<sigma> "rev (map snd prs)"] by auto

lemma leq_loop_runs:
  assumes "wf_circuit S" "list_all (\<lambda>(a, b). live S a \<and> live S b) prs" "live S l" "live S e"
  shows "runs S (leq_loop prs l e S) (\<lambda>_. True)
    (\<lambda>r S'. (live S' (fst r) \<and> live S' (snd r)) \<and> (\<forall>\<sigma> \<in> models S'.
       lit_holds \<sigma> (fst r) = (lit_holds \<sigma> l \<or> lit_holds \<sigma> e \<and> bv \<sigma> (rev (map fst prs)) < bv \<sigma> (rev (map snd prs))) \<and>
       lit_holds \<sigma> (snd r) = (lit_holds \<sigma> e \<and> bv \<sigma> (rev (map fst prs)) = bv \<sigma> (rev (map snd prs)))))"
  using assms
proof (induction prs arbitrary: l e S)
  case Nil
  then show ?case by (simp add: runs_return)
next
  case (Cons p prs)
  obtain a b where p: "p = (a, b)" by (cases p)
  have lv: "live S a" "live S b" "live S l" "live S e" "list_all (\<lambda>(a, b). live S a \<and> live S b) prs"
    using Cons.prems p by auto
  note side = Cons.prems(1) lv [unfolded list_all_iff split_beta] list_all_iff split_beta
  show ?case
    unfolding p leq_loop.simps
    by (rule start, erule step, rule compare_bit_runs, (simp_all add: side)[5], simp only: split_beta,
        erule step, rule gate_steps, (simp_all add: side)[3], erule last_step, rule Cons.IH, (simp_all add: side)[4])
      (auto simp: subset_iff bv_append msb_compare zip_bits_less)
qed

lemma lt_loop_runs:
  assumes "wf_circuit S" "list_all (\<lambda>(a, b). live S a \<and> live S b) prs" "live S l" "live S e"
  shows "runs S (lt_loop prs l e S) (\<lambda>_. True)
    (\<lambda>r S'. live S' r \<and> (\<forall>\<sigma> \<in> models S'.
       lit_holds \<sigma> r = (lit_holds \<sigma> l \<or> lit_holds \<sigma> e \<and> bv \<sigma> (rev (map fst prs)) < bv \<sigma> (rev (map snd prs)))))"
  using assms
proof (induction prs arbitrary: l e S)
  case Nil
  then show ?case by (simp add: runs_return)
next
  case (Cons p prs)
  obtain a b where p: "p = (a, b)" by (cases p)
  have lv: "live S a" "live S b" "live S l" "live S e" "list_all (\<lambda>(a, b). live S a \<and> live S b) prs"
    using Cons.prems p by auto
  note side = Cons.prems(1) lv [unfolded list_all_iff split_beta] list_all_iff split_beta
  have last: "runs T (if prs \<noteq> [] then And2 x e T else Some (e, T)) (\<lambda>_. True)
      (\<lambda>r S'. live S' r \<and> (\<forall>\<sigma> \<in> models S'. prs \<noteq> [] \<longrightarrow> lit_holds \<sigma> r = (lit_holds \<sigma> x \<and> lit_holds \<sigma> e)))"
    if "wf_circuit T" "live T x" "live T e" for T x
    using that gate_steps(1) [OF that] by (auto intro: runs_return)
  show ?case
    unfolding p lt_loop.simps
    by (rule start, erule step, rule compare_bit_runs, (simp_all add: side)[5], simp only: split_beta,
        erule step, rule last, (simp_all add: side)[3], erule last_step, rule Cons.IH, (simp_all add: side)[4])
      (cases "prs = []"; auto simp: subset_iff bv_append msb_compare zip_bits_less)
qed

lemma or_high_runs:
  assumes "wf_circuit S" "list_all (live S) bs" "live S l"
  shows "runs S (or_high bs l S) (\<lambda>_. True)
    (\<lambda>r S'. live S' r \<and> (\<forall>\<sigma> \<in> models S'. lit_holds \<sigma> r = (lit_holds \<sigma> l \<or> 0 < bv \<sigma> bs)))"
  using assms
proof (induction bs arbitrary: l S)
  case Nil
  then show ?case by (simp add: runs_return)
next
  case (Cons b bs)
  then have lv: "live S b" "live S l" "list_all (live S) bs" by auto
  note side = Cons.prems(1) lv [unfolded list_all_iff] list_all_iff
  show ?case
    unfolding or_high.simps
    by (rule start, erule step, rule gate_steps, (simp_all add: side)[3],
        erule last_step, rule Cons.IH, (simp_all add: side)[3]) (auto simp: subset_iff)
qed

text \<open>The padded vector: its low part has the length of \<open>A\<close>, and with the high part of \<open>B\<close> it is \<open>B\<close>.\<close>

definition low_bits :: "Lit list \<Rightarrow> Lit list \<Rightarrow> Solver \<Rightarrow> Lit list" where
  "low_bits A B S = take (length A) (pad_false A B S)"

lemma pad_zip:
  "map fst (zip A (pad_false A B S)) = A" "map snd (zip A (pad_false A B S)) = low_bits A B S"
  "length (zip A (pad_false A B S)) = length A" "length (low_bits A B S) = length A"
  by (simp_all add: pad_false_def low_bits_def map_fst_zip_take map_snd_zip_take)

lemma live_pad:
  assumes "wf_circuit S" "list_all (live S) A" "list_all (live S) B"
  shows "list_all (\<lambda>(a, b). live S a \<and> live S b) (rev (zip A (pad_false A B S)))"
    "list_all (\<lambda>(a, b). live S a \<and> live S b) (zip A (pad_false A B S))"
proof -
  have "list_all (live S) (pad_false A B S)"
    using assms by (auto simp: pad_false_def vec_grow_def list_all_iff)
  then show "list_all (\<lambda>(a, b). live S a \<and> live S b) (zip A (pad_false A B S))"
    using assms(2) by (auto simp: list_all_iff dest: set_zip_leftD set_zip_rightD)
  then show "list_all (\<lambda>(a, b). live S a \<and> live S b) (rev (zip A (pad_false A B S)))" by simp
qed

lemma bv_false: "\<not> lit_holds \<sigma> f \<Longrightarrow> bv \<sigma> (replicate n f) = 0"
  by (induction n) auto

lemma bv_low_bits:
  assumes "\<not> lit_holds \<sigma> (getFalse S)"
  shows "bv \<sigma> B = bv \<sigma> (low_bits A B S) + 2 ^ length A * bv \<sigma> (drop (length A) B)"
proof (cases "length B < length A")
  case True
  then show ?thesis
    using assms by (simp add: low_bits_def pad_false_def vec_grow_def bv_append bv_false)
next
  case False
  then show ?thesis
    using bv_append [of \<sigma> "take (length A) B" "drop (length A) B"]
    by (simp add: low_bits_def pad_false_def vec_grow_def)
qed

lemma high_compare:
  fixes X Y n H :: nat
  assumes "X < 2 ^ n" "Y < 2 ^ n"
  shows "X < Y + 2 ^ n * H \<longleftrightarrow> X < Y \<or> 0 < H" "X \<le> Y + 2 ^ n * H \<longleftrightarrow> X < Y \<or> 0 < H \<or> X = Y"
  using assms by (cases H; auto)+

lemma leq_low_bits:
  assumes "\<not> lit_holds \<sigma> (getFalse S)"
  shows "bv \<sigma> A \<le> bv \<sigma> B \<longleftrightarrow> (bv \<sigma> A < bv \<sigma> (low_bits A B S) \<or> 0 < bv \<sigma> (drop (length A) B)) \<or>
      bv \<sigma> A = bv \<sigma> (low_bits A B S)"
  using bv_low_bits [OF assms, of B A] high_compare(2) [of "bv \<sigma> A" "length A" "bv \<sigma> (low_bits A B S)"]
    bv_less [of \<sigma> A] bv_less [of \<sigma> "low_bits A B S"] pad_zip(4) [of A B S] by simp

lemma LEQ_runs:
  assumes "wf_circuit S" "list_all (live S) A" "list_all (live S) B"
  shows "gate S (LEQ A B S) (\<lambda>\<sigma>. bv \<sigma> A \<le> bv \<sigma> B)"
proof -
  have lh: "list_all (live S) (drop (length A) B)"
    using assms(3) by (auto simp: list_all_iff dest: in_set_dropD)
  note side = assms(1) lh [unfolded list_all_iff] list_all_iff
  show ?thesis
    unfolding LEQ_def means_def
    by (rule start_consts, rule assms(1), erule step, rule leq_loop_runs, rule assms(1), rule live_pad(1) [OF assms],
        (simp_all add: side)[2], simp only: split_beta,
        erule step, rule or_high_runs, (simp_all add: side)[3],
        erule last_step, rule gate_steps, (simp_all add: side)[3])
      (auto simp: subset_iff leq_low_bits [where S = S] pad_zip rev_map [symmetric])
qed

lemma LT_runs:
  assumes "wf_circuit S" "list_all (live S) A" "list_all (live S) B"
  shows "gate S (LT A B S) (\<lambda>\<sigma>. bv \<sigma> A < bv \<sigma> B)"
proof -
  have lh: "list_all (live S) (drop (length A) B)"
    using assms(3) by (auto simp: list_all_iff dest: in_set_dropD)
  note side = assms(1) lh [unfolded list_all_iff] list_all_iff
  have cmp: "bv \<sigma> A < bv \<sigma> B \<longleftrightarrow> bv \<sigma> A < bv \<sigma> (low_bits A B S) \<or> 0 < bv \<sigma> (drop (length A) B)"
    if "\<not> lit_holds \<sigma> (getFalse S)" for \<sigma>
    using bv_low_bits [OF that, of B A] high_compare(1) [of "bv \<sigma> A" "length A" "bv \<sigma> (low_bits A B S)"]
      bv_less [of \<sigma> A] bv_less [of \<sigma> "low_bits A B S"] pad_zip(4) [of A B S] by simp
  show ?thesis
    unfolding LT_def means_def
    by (rule start_consts, rule assms(1), erule step, rule lt_loop_runs, rule assms(1), rule live_pad(1) [OF assms],
        (simp_all add: side)[2],
        erule last_step, rule or_high_runs, (simp_all add: side)[3])
      (auto simp: subset_iff cmp pad_zip rev_map [symmetric])
qed

lemma xnor_bits_runs:
  assumes "wf_circuit S" "list_all (\<lambda>(a, b). live S a \<and> live S b) prs"
  shows "runs S (xnor_bits prs S) (\<lambda>_. True)
    (\<lambda>r S'. list_all (live S') r \<and> (\<forall>\<sigma> \<in> models S'.
       (\<forall>l \<in> set r. lit_holds \<sigma> l) \<longleftrightarrow> bv \<sigma> (map fst prs) = bv \<sigma> (map snd prs)))"
  using assms
proof (induction prs arbitrary: S)
  case Nil
  then show ?case by (simp add: runs_return)
next
  case (Cons p prs)
  obtain a b where p: "p = (a, b)" by (cases p)
  have lv: "live S a" "live S b" "list_all (\<lambda>(a, b). live S a \<and> live S b) prs"
    using Cons.prems p by auto
  note side = Cons.prems(1) lv [unfolded list_all_iff split_beta] list_all_iff split_beta
  have bit: "of_bool x + 2 * m = of_bool y + 2 * n \<longleftrightarrow> x = y \<and> m = n" for x y and m n :: nat
    by (cases x; cases y; simp; presburger)
  show ?case
    unfolding p xnor_bits.simps
    by (rule start, erule step, rule gate_steps, (simp_all add: side)[3],
        erule step, rule Cons.IH, (simp_all add: side)[2], rule runs_return, assumption)
      (auto simp: subset_iff list_all_iff bit)
qed

lemma Equal_bv_runs:
  assumes "wf_circuit S" "list_all (live S) A" "list_all (live S) B"
  shows "gate S (Equal_bv A B S) (\<lambda>\<sigma>. bv \<sigma> A = bv \<sigma> (take (length A) B))"
proof -
  have low: "bv \<sigma> (low_bits A B S) = bv \<sigma> (take (length A) B)" if "\<not> lit_holds \<sigma> (getFalse S)" for \<sigma>
    using that by (cases "length B < length A")
      (simp_all add: low_bits_def pad_false_def vec_grow_def bv_append bv_false)
  show ?thesis
    unfolding Equal_bv_def means_def
    by (rule start_consts, rule assms(1), erule step, rule xnor_bits_runs, rule assms(1), rule live_pad(2) [OF assms],
        erule last_step, rule Ands_gate [unfolded means_def], assumption, assumption)
      (auto simp: subset_iff pad_zip low)
qed


subsection \<open>Properties\<close>

text \<open>C33: \<open>Add\<close> is addition: in every model the sum bits and the carry are the sum of the two vectors, for any
  width, and the existing literals are not constrained.\<close>

theorem Add_correct:
  assumes "wf_circuit S" "list_all (live S) as" "list_all (live S) bs" "length bs = length as" "as \<noteq> []"
  shows "runs S (Add as bs S) (\<lambda>_. True) (\<lambda>(sum, carry) S'.
    list_all (live S') sum \<and> live S' carry \<and> length sum = length as \<and>
    (\<forall>\<sigma> \<in> models S'. bv \<sigma> sum + 2 ^ length as * of_bool (lit_holds \<sigma> carry) = bv \<sigma> as + bv \<sigma> bs))"
  using Add_runs [OF assms] by (rule runs_weaken) auto

definition demo_a :: "Lit list" where
  "demo_a = [mkLit 0 False, mkLit 1 True, mkLit 2 False]"

definition demo_b :: "Lit list" where
  "demo_b = [mkLit 1 False, mkLit 2 True, mkLit 0 True]"

lemma demo_live: "list_all (live demo_circuit) demo_a" "list_all (live demo_circuit) demo_b"
  "length demo_b = length demo_a" "demo_a \<noteq> []"
  by (simp_all add: demo_a_def demo_b_def demo_circuit lit_simps)

theorem Add_correct_witness:
  "runs demo_circuit (Add demo_a demo_b demo_circuit) (\<lambda>_. True) (\<lambda>(sum, carry) S'.
     list_all (live S') sum \<and> live S' carry \<and> length sum = length demo_a \<and>
     (\<forall>\<sigma> \<in> models S'. bv \<sigma> sum + 2 ^ length demo_a * of_bool (lit_holds \<sigma> carry) = bv \<sigma> demo_a + bv \<sigma> demo_b))"
  by (rule Add_correct [OF demo_circuit(1) demo_live])

text \<open>\<open>Subtract\<close> is subtraction modulo two to the width, and its borrow is set exactly if the first vector
  is the smaller number.\<close>

theorem Subtract_correct:
  assumes "wf_circuit S" "list_all (live S) as" "list_all (live S) bs" "length bs = length as" "as \<noteq> []"
  shows "runs S (Subtract as bs S) (\<lambda>_. True) (\<lambda>(dif, borrow) S'.
    list_all (live S') dif \<and> live S' borrow \<and> length dif = length as \<and>
    (\<forall>\<sigma> \<in> models S'. int (bv \<sigma> dif) = (int (bv \<sigma> as) - int (bv \<sigma> bs)) mod 2 ^ length as \<and>
       lit_holds \<sigma> borrow = (bv \<sigma> as < bv \<sigma> bs)))"
proof (rule runs_weaken [OF Subtract_runs [OF assms]], simp, clarsimp)
  fix dif borrow S' \<sigma>
  assume len: "length dif = length as" and "\<sigma> \<in> models S'"
    and eq: "\<forall>\<sigma> \<in> models S'. bv \<sigma> as + 2 ^ length as * of_bool (lit_holds \<sigma> borrow) = bv \<sigma> bs + bv \<sigma> dif"
  then have e: "bv \<sigma> as + 2 ^ length as * of_bool (lit_holds \<sigma> borrow) = bv \<sigma> bs + bv \<sigma> dif" by blast
  have lt: "bv \<sigma> dif < 2 ^ length as" using bv_less [of \<sigma> dif] len by simp
  have "int (bv \<sigma> as) - int (bv \<sigma> bs) = int (bv \<sigma> dif) + (- of_bool (lit_holds \<sigma> borrow)) * 2 ^ length as"
    using arg_cong [OF e, of int] by (cases "lit_holds \<sigma> borrow") simp_all
  then have "(int (bv \<sigma> as) - int (bv \<sigma> bs)) mod 2 ^ length as = int (bv \<sigma> dif) mod 2 ^ length as"
    by (simp only: mod_mult_self1)
  moreover have "int (bv \<sigma> dif) mod 2 ^ length as = int (bv \<sigma> dif)"
    using lt by (intro mod_pos_pos_trivial) (simp_all flip: of_nat_power_less_of_nat_cancel_iff)
  ultimately show "int (bv \<sigma> dif) = (int (bv \<sigma> as) - int (bv \<sigma> bs)) mod 2 ^ length as \<and>
      lit_holds \<sigma> borrow = (bv \<sigma> as < bv \<sigma> bs)"
    using e lt bv_less [of \<sigma> bs] bv_less [of \<sigma> as] assms(4) by (cases "lit_holds \<sigma> borrow") auto
qed

theorem Subtract_correct_witness:
  "runs demo_circuit (Subtract demo_a demo_b demo_circuit) (\<lambda>_. True) (\<lambda>(dif, borrow) S'.
     list_all (live S') dif \<and> live S' borrow \<and> length dif = length demo_a \<and>
     (\<forall>\<sigma> \<in> models S'. int (bv \<sigma> dif) = (int (bv \<sigma> demo_a) - int (bv \<sigma> demo_b)) mod 2 ^ length demo_a \<and>
        lit_holds \<sigma> borrow = (bv \<sigma> demo_a < bv \<sigma> demo_b)))"
  by (rule Subtract_correct [OF demo_circuit(1) demo_live])

text \<open>\<open>Negate\<close> is two's complement negation at the width of the vector.\<close>

theorem Negate_correct:
  assumes "wf_circuit S" "list_all (live S) as" "as \<noteq> []"
  shows "runs S (Negate as S) (\<lambda>_. True) (\<lambda>out S'. list_all (live S') out \<and> length out = length as \<and>
    (\<forall>\<sigma> \<in> models S'. bv \<sigma> out = (2 ^ length as - bv \<sigma> as) mod 2 ^ length as))"
proof (rule runs_weaken [OF Negate_runs [OF assms]], simp, clarsimp)
  fix out S' \<sigma>
  assume "length out = length as" "\<sigma> \<in> models S'"
    and "\<forall>\<sigma> \<in> models S'. bv \<sigma> out + bv \<sigma> as = 2 ^ length as \<or> bv \<sigma> out = 0 \<and> bv \<sigma> as = 0"
  then have "bv \<sigma> out + bv \<sigma> as = 2 ^ length as \<or> bv \<sigma> out = 0 \<and> bv \<sigma> as = 0" "bv \<sigma> out < 2 ^ length as"
    using bv_less [of \<sigma> out] by auto
  then show "bv \<sigma> out = (2 ^ length as - bv \<sigma> as) mod 2 ^ length as"
    by (auto simp: add.commute dest!: sym [of "_ + _"])
qed

theorem Negate_correct_witness:
  "runs demo_circuit (Negate demo_a demo_circuit) (\<lambda>_. True) (\<lambda>out S'.
     list_all (live S') out \<and> length out = length demo_a \<and>
     (\<forall>\<sigma> \<in> models S'. bv \<sigma> out = (2 ^ length demo_a - bv \<sigma> demo_a) mod 2 ^ length demo_a))"
  by (rule Negate_correct [OF demo_circuit(1) demo_live(1,4)])

text \<open>C32: \<open>Multiply\<close>, an array of full adders, is multiplication: the result has, in every model, the product
  of the two numbers, without overflow.\<close>

theorem Multiply_correct:
  assumes "wf_circuit S" "list_all (live S) m" "list_all (live S) q" "length q = length m" "m \<noteq> []"
  shows "runs S (Multiply m q S) (\<lambda>_. True) (\<lambda>out S'.
    list_all (live S') out \<and> (\<forall>\<sigma> \<in> models S'. bv \<sigma> out = bv \<sigma> m * bv \<sigma> q))"
  using Multiply_runs [OF assms] by (rule runs_weaken) auto

theorem Multiply_correct_witness:
  "runs demo_circuit (Multiply demo_a demo_b demo_circuit) (\<lambda>_. True) (\<lambda>out S'.
     list_all (live S') out \<and> (\<forall>\<sigma> \<in> models S'. bv \<sigma> out = bv \<sigma> demo_a * bv \<sigma> demo_b))"
  by (rule Multiply_correct [OF demo_circuit(1) demo_live])

text \<open>C35: The comparators on vectors of any two lengths: \<open>LEQ\<close> and \<open>LT\<close> compare the numbers. \<open>Equal\<close> compares the
  first vector with as many bits of the second only: bits of a longer second vector are ignored.\<close>

theorem comparators_correct:
  assumes "wf_circuit S" "list_all (live S) A" "list_all (live S) B"
  shows "gate S (LEQ A B S) (\<lambda>\<sigma>. bv \<sigma> A \<le> bv \<sigma> B) \<and> gate S (LT A B S) (\<lambda>\<sigma>. bv \<sigma> A < bv \<sigma> B) \<and>
    gate S (Equal_bv A B S) (\<lambda>\<sigma>. bv \<sigma> A = bv \<sigma> (take (length A) B))"
  using assms by (intro conjI LEQ_runs LT_runs Equal_bv_runs)

theorem comparators_correct_witness:
  "gate demo_circuit (LT [mkLit 0 False] demo_b demo_circuit) (\<lambda>\<sigma>. bv \<sigma> [mkLit 0 False] < bv \<sigma> demo_b)"
  using comparators_correct [OF demo_circuit(1) _ demo_live(2), of "[mkLit 0 False]"]
  by (simp add: demo_circuit lit_simps)

end
