(* ===== verification/Circuit_Assert.thy ===== *)
theory Circuit_Assert
  imports Circuit_Arith
begin

text \<open>
  The assertions of \<open>api/Circuit.h\<close>: \<open>AssertOr\<close>, \<open>AssertAnd\<close>, \<open>AssertNand\<close>, \<open>AssertNor\<close>, \<open>AssertXor\<close>,
  \<open>AssertXnor\<close>, the one-sided implications, the comparisons of bit vectors, \<open>AssertAMO\<close> and
  \<open>AssertExactlyOne\<close>.

  An assertion that \<open>asserts S r \<phi>\<close> restricts the models on the existing literals to exactly those with \<open>\<phi>\<close>.
  The overloads of \<open>AssertXor\<close> and \<open>AssertXnor\<close> for \<open>std::list\<close> copy their argument to the member \<open>tmp\<close> and
  pass \<open>tmp\<close> on by reference; with three literals or more the callee \<open>Xor(vals)\<close> clears \<open>tmp\<close> before it reads
  \<open>vals\<close>, which is the same vector. The model of these overloads therefore evaluates \<open>Xors []\<close>.
\<close>

subsection \<open>Operations\<close>

definition AssertOrs :: "Lit list \<Rightarrow> Solver \<Rightarrow> Solver option" where
  "AssertOrs vals S = addClause vals S"

definition AssertNands :: "Lit list \<Rightarrow> Solver \<Rightarrow> Solver option" where
  "AssertNands vals S = addClause (map neg vals) S"

definition AssertAnds :: "Lit list \<Rightarrow> Solver \<Rightarrow> Solver option" where
  "AssertAnds vals S = addClauses (map (\<lambda>l. [l]) vals) S"

definition AssertNors :: "Lit list \<Rightarrow> Solver \<Rightarrow> Solver option" where
  "AssertNors vals S = addClauses (map (\<lambda>l. [neg l]) vals) S"

definition AssertXor2 :: "Lit \<Rightarrow> Lit \<Rightarrow> Solver \<Rightarrow> Solver option" where
  "AssertXor2 a b S = addClauses [[a, b], [neg a, neg b]] S"

text \<open>\<open>AssertXor(vec)\<close> and \<open>AssertXnor(vec)\<close>; the first argument is what \<open>Xor\<close> reads when it is called.\<close>

definition AssertXors_reading :: "Lit list \<Rightarrow> Lit list \<Rightarrow> Solver \<Rightarrow> Solver option" where
  "AssertXors_reading seen vals S =
     (case vals of
        [] \<Rightarrow> Assert (getFalse S) S
      | [a] \<Rightarrow> Assert a S
      | [a, b] \<Rightarrow> AssertXor2 a b S
      | _ \<Rightarrow> do { (x, S) \<leftarrow> Xors seen S; Assert x S })"

definition AssertXors :: "Lit list \<Rightarrow> Solver \<Rightarrow> Solver option" where
  "AssertXors vals S = AssertXors_reading vals vals S"

definition AssertXors_list :: "Lit list \<Rightarrow> Solver \<Rightarrow> Solver option" where
  "AssertXors_list vals S = AssertXors_reading [] vals S"

definition AssertXnors_reading :: "Lit list \<Rightarrow> Lit list \<Rightarrow> Solver \<Rightarrow> Solver option" where
  "AssertXnors_reading seen vals S =
     (case vals of
        [] \<Rightarrow> Assert (getFalse S) S
      | [a] \<Rightarrow> Assert a S
      | [a, b] \<Rightarrow> AssertXnor2 a b S
      | _ \<Rightarrow> do { (x, S) \<leftarrow> Xnors seen S; Assert x S })"

definition AssertXnors :: "Lit list \<Rightarrow> Solver \<Rightarrow> Solver option" where
  "AssertXnors vals S = AssertXnors_reading vals vals S"

definition AssertXnors_list :: "Lit list \<Rightarrow> Solver \<Rightarrow> Solver option" where
  "AssertXnors_list vals S = AssertXnors_reading [] vals S"

definition AssertImpliesAnd :: "Lit \<Rightarrow> Lit list \<Rightarrow> Lit \<Rightarrow> Solver \<Rightarrow> Solver option" where
  "AssertImpliesAnd impl vals out S =
     (case drop_consts (isConstFalse S) (isConstTrue S) vals of
        None \<Rightarrow> (if out \<noteq> lit_Undef then AssertImplies impl (neg out) S else Assert (neg impl) S)
      | Some [] \<Rightarrow> (if out = lit_Undef then Some S else Assert out S)
      | Some tmp \<Rightarrow>
          addClauses
            (map (\<lambda>l. if out = lit_Undef then [l, neg impl] else [l, neg out, neg impl]) tmp @
             [map neg tmp @ (if out = lit_Undef then [out] else []) @ [neg impl]]) S)"

definition AssertImpliesOr :: "Lit \<Rightarrow> Lit list \<Rightarrow> Lit \<Rightarrow> Solver \<Rightarrow> Solver option" where
  "AssertImpliesOr impl vals out S =
     (case drop_consts (isConstTrue S) (isConstFalse S) vals of
        None \<Rightarrow> when_out out (AssertImplies impl out) S
      | Some tmp \<Rightarrow>
          if vals = [] then
            (if out \<noteq> lit_Undef then AssertImplies out (neg impl) S else Assert (neg impl) S)
          else if out \<noteq> lit_Undef then addClause (tmp @ [neg out, neg impl]) S
          else addClause (tmp @ [neg impl]) S)"

definition ImpliesAnd :: "Lit list \<Rightarrow> Lit \<Rightarrow> Solver \<Rightarrow> (Lit \<times> Solver) option" where
  "ImpliesAnd vals out S =
     (let (out, S) = out_lit out S
      in do { S \<leftarrow> addClauses (map (\<lambda>l. [neg out, l]) vals) S; Some (out, S) })"

definition ImpliesOr :: "Lit list \<Rightarrow> Lit \<Rightarrow> Solver \<Rightarrow> (Lit \<times> Solver) option" where
  "ImpliesOr vals out S =
     (let (out, S) = out_lit out S
      in do { S \<leftarrow> AssertImpliesOr out vals lit_Undef S; Some (out, S) })"

text \<open>
  \<open>AssertEqual\<close> of two vectors reads \<open>B[i]\<close> where it has prepared the padded copy \<open>assert_tmp[i]\<close>.
\<close>

fun assert_equal_bits :: "Lit list \<Rightarrow> Lit list \<Rightarrow> Solver \<Rightarrow> Solver option" where
  "assert_equal_bits [] bs S = addClauses (map (\<lambda>b. [neg b]) bs) S"
| "assert_equal_bits (a # as) [] S = None"
| "assert_equal_bits (a # as) (b # bs) S = do { S \<leftarrow> AssertEqual a b S; assert_equal_bits as bs S }"

definition AssertEqual_bv :: "Lit list \<Rightarrow> Lit list \<Rightarrow> Solver \<Rightarrow> Solver option" where
  "AssertEqual_bv A B S = assert_equal_bits A B S"

definition AssertLEQ :: "Lit list \<Rightarrow> Lit list \<Rightarrow> Solver \<Rightarrow> Solver option" where
  "AssertLEQ A B S =
     do { ((p_lt_n, p_eq_n), S) \<leftarrow> leq_loop (rev (zip A (pad_false A B S))) (getFalse S) (getTrue S) S;
          (p_lt_n, S) \<leftarrow> or_high (drop (length A) B) p_lt_n S;
          addClause [p_lt_n, p_eq_n] S }"

definition AssertLT :: "Lit list \<Rightarrow> Lit list \<Rightarrow> Solver \<Rightarrow> Solver option" where
  "AssertLT A B S = do { (l, S) \<leftarrow> LT A B S; addClause [l] S }"

text \<open>
  The first loop of \<open>AssertAMO\<close>: the literal that is constantly true, if one was found, and the literals
  that are not constant; \<open>Inl\<close> a second constantly true literal ends the operation.
\<close>

fun amo_scan :: "Solver \<Rightarrow> Lit list \<Rightarrow> Lit \<Rightarrow> Lit list \<Rightarrow> (Lit \<times> Lit) + (Lit \<times> Lit list)" where
  "amo_scan S [] constant_true_lit free = Inr (constant_true_lit, free)"
| "amo_scan S (l # ls) constant_true_lit free =
     (if isConstFalse S l then amo_scan S ls constant_true_lit free
      else if isConstTrue S l then
        (if constant_true_lit = lit_Undef then amo_scan S ls l free else Inl (constant_true_lit, l))
      else amo_scan S ls constant_true_lit (free @ [l]))"

fun amo_pairs :: "Lit list \<Rightarrow> Lit list list" where
  "amo_pairs [] = []"
| "amo_pairs (l # ls) = map (\<lambda>k. [neg l, neg k]) ls @ amo_pairs ls"

definition AssertAMO :: "Lit list \<Rightarrow> Solver \<Rightarrow> Solver option" where
  "AssertAMO vals S =
     (let S = cancelUntil 0 S
      in case amo_scan S vals lit_Undef [] of
           Inl (constant_true_lit, l) \<Rightarrow> addClause [neg constant_true_lit, neg l] S
         | Inr (constant_true_lit, free) \<Rightarrow>
             (if constant_true_lit = lit_Undef then
                (if length free < 2 then Some S else addClauses (amo_pairs free) S)
              else addClauses (map (\<lambda>l. [neg constant_true_lit, neg l])
                     (filter (\<lambda>l. l \<noteq> constant_true_lit) free)) S))"

definition AssertExactlyOne :: "Lit list \<Rightarrow> Solver \<Rightarrow> Solver option" where
  "AssertExactlyOne vals S = do { S \<leftarrow> AssertOrs vals S; AssertAMO vals S }"

subsection \<open>Clausal assertions\<close>

lemma AssertOrs_asserts:
  "wf_circuit S \<Longrightarrow> list_all (live S) vals \<Longrightarrow> asserts S (AssertOrs vals S) (\<lambda>\<sigma>. \<exists>l \<in> set vals. lit_holds \<sigma> l)"
  using asserts_addClause [of S vals] by (simp add: AssertOrs_def clause_holds_def)

lemma AssertNands_asserts:
  "wf_circuit S \<Longrightarrow> list_all (live S) vals \<Longrightarrow>
     asserts S (AssertNands vals S) (\<lambda>\<sigma>. \<not> (\<forall>l \<in> set vals. lit_holds \<sigma> l))"
  unfolding AssertNands_def
  by (rule asserts_weaken [OF asserts_addClause]) (auto simp: clause_holds_def list_all_iff)

lemma AssertAnds_asserts:
  "wf_circuit S \<Longrightarrow> list_all (live S) vals \<Longrightarrow>
     asserts S (AssertAnds vals S) (\<lambda>\<sigma>. \<forall>l \<in> set vals. lit_holds \<sigma> l)"
  unfolding AssertAnds_def
  by (rule asserts_weaken [OF asserts_addClauses]) (auto simp: clause_holds_def list_all_iff)

lemma AssertNors_asserts:
  "wf_circuit S \<Longrightarrow> list_all (live S) vals \<Longrightarrow>
     asserts S (AssertNors vals S) (\<lambda>\<sigma>. \<not> (\<exists>l \<in> set vals. lit_holds \<sigma> l))"
  unfolding AssertNors_def
  by (rule asserts_weaken [OF asserts_addClauses]) (auto simp: clause_holds_def list_all_iff)

lemma AssertXor2_asserts:
  "wf_circuit S \<Longrightarrow> live S a \<Longrightarrow> live S b \<Longrightarrow>
     asserts S (AssertXor2 a b S) (\<lambda>\<sigma>. lit_holds \<sigma> a \<noteq> lit_holds \<sigma> b)"
  unfolding AssertXor2_def
  by (rule asserts_weaken [OF asserts_addClauses]) (auto simp: clause_holds_def list_all_iff)

text \<open>A gate followed by the assertion of its result.\<close>

lemma gate_Assert:
  assumes "gate S r \<phi>" "local_to live S \<phi>"
  shows "asserts S (r \<bind> (\<lambda>(x, S1). Assert x S1)) \<phi>"
  using assms(1)
proof (rule runs_asserts)
  fix x S1 assume "ext S (\<lambda>_. True) S1" "means \<phi> x S1"
  then show "asserts S1 (Assert x S1) \<phi>"
    by (auto dest: ext_wf means_live simp: means_holds intro!: asserts_weaken [OF asserts_Assert])
qed (rule assms(2))

lemma local_parity: "list_all (live S) vals \<Longrightarrow> local_to live S (\<lambda>\<sigma>. parity_of \<sigma> vals)"
  unfolding local_to_def agree_def
proof (intro allI impI)
  fix \<sigma> \<tau> assume "list_all (live S) vals" "\<forall>l. live S l \<longrightarrow> lit_holds \<tau> l = lit_holds \<sigma> l"
  then show "parity_of \<tau> vals = parity_of \<sigma> vals" by (induction vals) auto
qed

lemma AssertXors_reading_asserts:
  assumes "wf_circuit S" "list_all (live S) seen" "list_all (live S) vals"
  shows "asserts S (AssertXors_reading seen vals S) (\<lambda>\<sigma>. vals \<noteq> [] \<and>
    (if length vals \<le> 2 then parity_of \<sigma> vals else seen = [] \<or> parity_of \<sigma> seen))"
proof -
  consider "vals = []" | a where "vals = [a]" | a b where "vals = [a, b]" | a b c ls where "vals = a # b # c # ls"
    by (metis list.exhaust)
  then show ?thesis
  proof cases
    case 1
    show ?thesis
      unfolding AssertXors_reading_def 1 list.case
      by (rule asserts_weaken [OF asserts_Assert]) (use assms in auto)
  next
    case 2
    show ?thesis
      unfolding AssertXors_reading_def 2 list.case
      by (rule asserts_weaken [OF asserts_Assert]) (use assms 2 in auto)
  next
    case 3
    show ?thesis
      unfolding AssertXors_reading_def 3 list.case
      by (rule asserts_weaken [OF AssertXor2_asserts]) (use assms 3 in auto)
  next
    case 4
    have "local_to live S (\<lambda>\<sigma>. if seen = [] then True else parity_of \<sigma> seen)"
      using local_parity [OF assms(2)] by (simp add: local_to_def)
    from gate_Assert [OF Xors_gate [OF assms(1,2)] this] show ?thesis
      unfolding AssertXors_reading_def 4 list.case by (rule asserts_weaken) auto
  qed
qed

lemma AssertXnors_reading_asserts:
  assumes "wf_circuit S" "list_all (live S) seen" "list_all (live S) vals"
  shows "asserts S (AssertXnors_reading seen vals S) (\<lambda>\<sigma>. vals \<noteq> [] \<and>
    (if length vals = 1 then parity_of \<sigma> vals
     else if length vals = 2 then \<not> parity_of \<sigma> vals else seen \<noteq> [] \<and> \<not> parity_of \<sigma> seen))"
proof -
  consider "vals = []" | a where "vals = [a]" | a b where "vals = [a, b]" | a b c ls where "vals = a # b # c # ls"
    by (metis list.exhaust)
  then show ?thesis
  proof cases
    case 1
    show ?thesis
      unfolding AssertXnors_reading_def 1 list.case
      by (rule asserts_weaken [OF asserts_Assert]) (use assms in auto)
  next
    case 2
    show ?thesis
      unfolding AssertXnors_reading_def 2 list.case
      by (rule asserts_weaken [OF asserts_Assert]) (use assms 2 in auto)
  next
    case 3
    show ?thesis
      unfolding AssertXnors_reading_def 3 list.case
      by (rule asserts_weaken [OF asserts_AssertXnor2]) (use assms 3 in auto)
  next
    case 4
    have "local_to live S (\<lambda>\<sigma>. \<not> (if seen = [] then True else parity_of \<sigma> seen))"
      using local_parity [OF assms(2)] by (simp add: local_to_def)
    from gate_Assert [OF neg_result_gate [OF Xors_gate [OF assms(1,2)]] this] show ?thesis
      unfolding AssertXnors_reading_def Xnors_def 4 list.case by (rule asserts_weaken) auto
  qed
qed

subsection \<open>Comparisons\<close>

lemma local_bv: "list_all (live S) ls \<Longrightarrow> agree live S \<sigma> \<tau> \<Longrightarrow> bv \<tau> ls = bv \<sigma> ls"
  by (induction ls) (auto simp: agree_def)

lemma AssertLT_asserts:
  assumes "wf_circuit S" "list_all (live S) A" "list_all (live S) B"
  shows "asserts S (AssertLT A B S) (\<lambda>\<sigma>. bv \<sigma> A < bv \<sigma> B)"
proof -
  have "local_to live S (\<lambda>\<sigma>. bv \<sigma> A < bv \<sigma> B)"
    using local_bv assms(2,3) by (simp add: local_to_def)
  from gate_Assert [OF LT_runs [OF assms] this] show ?thesis
    by (simp add: AssertLT_def Assert_def)
qed

lemma astep:
  assumes "models S \<subseteq> {\<sigma>. K \<sigma>}"
    "runs S r (\<lambda>_. True) (\<lambda>x S1. L x S1 \<and> (\<forall>\<sigma> \<in> models S1. P x \<sigma>))" "local_to live S \<psi>"
    "\<And>x S1. wf_circuit S1 \<Longrightarrow> (\<And>y. live S y \<Longrightarrow> live S1 y) \<Longrightarrow> L x S1 \<Longrightarrow>
       models S1 \<subseteq> {\<sigma>. K \<sigma> \<and> P x \<sigma>} \<Longrightarrow> local_to live S1 \<psi> \<Longrightarrow> asserts S1 (g x S1) \<psi>"
  shows "asserts S (r \<bind> (\<lambda>(x, S1). g x S1)) \<psi>"
  using assms(2)
proof (rule runs_asserts [OF _ _ assms(3)])
  fix x S1 assume e: "ext S (\<lambda>_. True) S1" "L x S1 \<and> (\<forall>\<sigma> \<in> models S1. P x \<sigma>)"
  then have "local_to live S1 \<psi>" using local_to_mono [OF assms(3)] by (simp add: sat_ext_def)
  then show "asserts S1 (g x S1) \<psi>"
    using e assms(1) by (intro assms(4)) (auto simp: sat_ext_def)
qed

lemma AssertLEQ_asserts:
  assumes "wf_circuit S" "list_all (live S) A" "list_all (live S) B"
  shows "asserts S (AssertLEQ A B S) (\<lambda>\<sigma>. bv \<sigma> A \<le> bv \<sigma> B)"
proof -
  have lh: "list_all (live S) (drop (length A) B)"
    using assms(3) by (auto simp: list_all_iff dest: in_set_dropD)
  note side = assms(1) lh [unfolded list_all_iff] list_all_iff
  have loc: "local_to live S (\<lambda>\<sigma>. bv \<sigma> A \<le> bv \<sigma> B)"
    using local_bv assms(2,3) by (simp add: local_to_def)
  have k: "models S \<subseteq> {\<sigma>. \<not> lit_holds \<sigma> (getFalse S) \<and> lit_holds \<sigma> (getTrue S)}" using assms(1) by auto
  show ?thesis
    unfolding AssertLEQ_def
    by (rule astep [OF k], rule leq_loop_runs, rule assms(1), rule live_pad(1) [OF assms], (simp_all add: side)[2],
        rule loc, simp only: split_beta,
        erule astep, rule or_high_runs, (simp_all add: side)[3], assumption,
        rule asserts_weaken, rule asserts_addClause, (simp_all add: side)[2])
      (auto simp: subset_iff leq_low_bits [where S = S] pad_zip rev_map [symmetric] clause_holds_def)
qed


lemma assert_equal_bits_asserts:
  assumes "wf_circuit S" "list_all (live S) A" "list_all (live S) B" "length A \<le> length B"
  shows "asserts S (assert_equal_bits A B S) (\<lambda>\<sigma>. bv \<sigma> A = bv \<sigma> B)"
  using assms
proof (induction A arbitrary: B S)
  case Nil
  have zero: "(\<forall>b \<in> set bs. \<not> lit_holds \<sigma> b) \<longleftrightarrow> 0 = bv \<sigma> bs" for \<sigma> bs
    by (induction bs) auto
  show ?case
    unfolding assert_equal_bits.simps
    by (rule asserts_weaken [OF asserts_addClauses])
      (use Nil in \<open>auto simp: list_all_iff clause_holds_def zero [symmetric]\<close>)
next
  case (Cons a as)
  then obtain b bs where B: "B = b # bs" by (cases B) auto
  have bit: "of_bool x + 2 * m = of_bool y + 2 * n \<longleftrightarrow> x = y \<and> m = n" for x y and m n :: nat
    by (cases x; cases y; simp; presburger)
  have "asserts S (AssertEqual a b S \<bind> assert_equal_bits as bs)
      (\<lambda>\<sigma>. lit_holds \<sigma> a = lit_holds \<sigma> b \<and> bv \<sigma> as = bv \<sigma> bs)"
  proof (rule asserts_bind)
    show "asserts S (AssertEqual a b S) (\<lambda>\<sigma>. lit_holds \<sigma> a = lit_holds \<sigma> b)"
      using Cons.prems B by auto
    show "asserts S1 (assert_equal_bits as bs S1) (\<lambda>\<sigma>. bv \<sigma> as = bv \<sigma> bs)"
      if "ext S (\<lambda>\<sigma>. lit_holds \<sigma> a = lit_holds \<sigma> b) S1" for S1
      using Cons.prems B ext_const [OF that] by (intro Cons.IH ext_wf [OF that]) auto
    show "local_to live S (\<lambda>\<sigma>. bv \<sigma> as = bv \<sigma> bs)"
      using local_bv [of S as] local_bv [of S bs] Cons.prems B by (simp add: local_to_def)
  qed
  then show ?case by (auto simp: B bit elim!: asserts_weaken)
qed

subsection \<open>At most one\<close>

abbreviation count_true :: "assignment \<Rightarrow> Lit list \<Rightarrow> nat" where
  "count_true \<sigma> ls \<equiv> length (filter (lit_holds \<sigma>) ls)"

lemma amo_pairs_holds: "(\<forall>c \<in> set (amo_pairs ls). clause_holds \<sigma> c) \<longleftrightarrow> count_true \<sigma> ls \<le> 1"
proof (induction ls)
  case (Cons l ls)
  have "(\<forall>c \<in> set (map (\<lambda>k. [neg l, neg k]) ls). clause_holds \<sigma> c) \<longleftrightarrow>
      (lit_holds \<sigma> l \<longrightarrow> count_true \<sigma> ls = 0)"
    by (auto simp: clause_holds_def filter_empty_conv)
  moreover have "(\<forall>c \<in> set (amo_pairs (l # ls)). clause_holds \<sigma> c) \<longleftrightarrow>
      (\<forall>c \<in> set (map (\<lambda>k. [neg l, neg k]) ls). clause_holds \<sigma> c) \<and> (\<forall>c \<in> set (amo_pairs ls). clause_holds \<sigma> c)"
    by (simp add: ball_Un)
  ultimately show ?case using Cons.IH by auto
qed simp

lemma amo_pairs_live: "list_all (live S) ls \<Longrightarrow> list_all (list_all (live S)) (amo_pairs ls)"
  by (induction ls) (auto simp: list_all_iff)

text \<open>What the scan returns, and that it counts every literal that a model makes true.\<close>

lemma live_not_Undef [simp]: "\<not> live S lit_Undef"
  by (simp add: live_def)

lemma amo_scan_lits:
  assumes "list_all (live S) vals" "c = lit_Undef \<or> live S c \<and> isConstTrue S c"
  shows "case amo_scan S vals c free of
     Inl (a, b) \<Rightarrow> live S a \<and> live S b \<and> isConstTrue S a \<and> isConstTrue S b
   | Inr (c', free') \<Rightarrow> (c' = lit_Undef \<or> live S c' \<and> isConstTrue S c') \<and>
       set free' \<subseteq> set free \<union> {l \<in> set vals. \<not> isConstTrue S l}"
  using assms
proof (induction vals arbitrary: c free)
  case Nil
  then show ?case by simp
next
  case (Cons l vals)
  then have lv: "live S l" "list_all (live S) vals" "l \<noteq> lit_Undef" by auto
  consider (false) "isConstFalse S l" | (first) "\<not> isConstFalse S l" "isConstTrue S l" "c = lit_Undef"
    | (second) "\<not> isConstFalse S l" "isConstTrue S l" "c \<noteq> lit_Undef"
    | (other) "\<not> isConstFalse S l" "\<not> isConstTrue S l" by blast
  then show ?case
  proof cases
    case false
    then show ?thesis using Cons.IH [OF lv(2) Cons.prems(2), of free] by (auto split: sum.splits prod.splits)
  next
    case first
    then show ?thesis using Cons.IH [OF lv(2), of l free] lv by (auto split: sum.splits prod.splits)
  next
    case second
    then show ?thesis using lv Cons.prems(2) by simp
  next
    case other
    then show ?thesis using Cons.IH [OF lv(2) Cons.prems(2), of "free @ [l]"]
      by (auto split: sum.splits prod.splits)
  qed
qed

lemma amo_scan_count:
  assumes "wf_circuit S" "list_all (live S) vals" "\<sigma> \<in> models S"
  shows "case amo_scan S vals c free of
     Inl (a, b) \<Rightarrow> 2 \<le> of_bool (c \<noteq> lit_Undef) + count_true \<sigma> vals
   | Inr (c', free') \<Rightarrow> of_bool (c \<noteq> lit_Undef) + count_true \<sigma> free + count_true \<sigma> vals =
       of_bool (c' \<noteq> lit_Undef) + count_true \<sigma> free'"
  using assms(2)
proof (induction vals arbitrary: c free)
  case Nil
  then show ?case by simp
next
  case (Cons l vals)
  have lv: "live S l" "list_all (live S) vals" "l \<noteq> lit_Undef" using Cons.prems by auto
  note fx = isConstTrue_fixed [OF assms(1) lv(1) _ assms(3)] isConstFalse_fixed [OF assms(1) lv(1) _ assms(3)]
  consider (false) "isConstFalse S l" | (first) "\<not> isConstFalse S l" "isConstTrue S l" "c = lit_Undef"
    | (second) "\<not> isConstFalse S l" "isConstTrue S l" "c \<noteq> lit_Undef"
    | (other) "\<not> isConstFalse S l" "\<not> isConstTrue S l" by blast
  then show ?case
  proof cases
    case false
    then show ?thesis using Cons.IH [OF lv(2), of c free] fx by (auto split: sum.splits prod.splits)
  next
    case first
    then show ?thesis using Cons.IH [OF lv(2), of l free] lv fx by (auto split: sum.splits prod.splits)
  next
    case second
    then show ?thesis using lv fx by simp
  next
    case other
    then show ?thesis using Cons.IH [OF lv(2), of c "free @ [l]"]
      by (auto split: sum.splits prod.splits)
  qed
qed

lemma cancel_circuit:
  assumes "wf_circuit S"
  shows "wf_circuit (cancelUntil 0 S)" "models (cancelUntil 0 S) = models S"
  using cancelUntil_wf [of S] assms by (auto simp: wf_circuit_def wf_solver_base wf_const_def)

lemma asserts_cancel:
  assumes "wf_circuit S" "asserts (cancelUntil 0 S) r \<phi>"
  shows "asserts S r \<phi>"
  using assms cancel_circuit(2) [OF assms(1)] by (simp add: asserts_def sat_ext_def agree_def)

lemma AssertAMO_asserts:
  assumes "wf_circuit S" "list_all (live S) vals"
  shows "asserts S (AssertAMO vals S) (\<lambda>\<sigma>. count_true \<sigma> vals \<le> 1)"
proof (rule asserts_cancel [OF assms(1)])
  define T where "T = cancelUntil 0 S"
  have T: "wf_circuit T" "list_all (live T) vals"
    using cancel_circuit [OF assms(1)] assms(2) by (auto simp: T_def)
  note lits = amo_scan_lits [OF T(2), of lit_Undef "[]"] and cnt = amo_scan_count [OF T, of _ lit_Undef "[]"]
  have "asserts T (AssertAMO vals S) (\<lambda>\<sigma>. count_true \<sigma> vals \<le> 1)"
  proof (cases "amo_scan T vals lit_Undef []")
    case (Inl p)
    obtain a b where p: "p = (a, b)" by (cases p)
    have ab: "live T a" "live T b" "isConstTrue T a" "isConstTrue T b" using lits Inl p by auto
    have "count_true \<sigma> vals \<ge> 2" "lit_holds \<sigma> a" "lit_holds \<sigma> b" if "\<sigma> \<in> models T" for \<sigma>
      using cnt [OF that] Inl p isConstTrue_fixed [OF T(1) _ _ that] ab by auto
    then show ?thesis
      unfolding AssertAMO_def T_def [symmetric] Let_def Inl p sum.case prod.case
      by (intro asserts_weaken [OF asserts_addClause [OF T(1)]])
        (use ab in \<open>force simp: clause_holds_def\<close>)+
  next
    case (Inr p)
    obtain c free where p: "p = (c, free)" by (cases p)
    have c: "c = lit_Undef \<or> live T c \<and> isConstTrue T c" and fr: "set free \<subseteq> {l \<in> set vals. \<not> isConstTrue T l}"
      using lits Inr p by auto
    have lf: "list_all (live T) free" using fr T(2) by (auto simp: list_all_iff)
    have eq: "count_true \<sigma> vals = of_bool (c \<noteq> lit_Undef) + count_true \<sigma> free" if "\<sigma> \<in> models T" for \<sigma>
      using cnt [OF that] Inr p by simp
    show ?thesis
    proof (cases "c = lit_Undef")
      case True
      have short: "count_true \<sigma> free \<le> 1" if "length free < 2" for \<sigma>
        using that length_filter_le [of "lit_holds \<sigma>" free] by linarith
      have "asserts T (addClauses (amo_pairs free) T) (\<lambda>\<sigma>. count_true \<sigma> vals \<le> 1)"
        by (rule asserts_weaken [OF asserts_addClauses [OF T(1) amo_pairs_live [OF lf]]])
          (simp only: amo_pairs_holds eq True simp_thms of_bool_eq add_0)
      then show ?thesis
        unfolding AssertAMO_def T_def [symmetric] Let_def Inr p sum.case prod.case
        using True eq short asserts_Some [OF T(1)] by simp
    next
      case False
      then have cT: "live T c" "isConstTrue T c" using c by auto
      then have fl: "filter (\<lambda>l. l \<noteq> c) free = free" using fr by (auto intro!: filter_True)
      have none: "count_true \<sigma> vals \<le> 1 \<longleftrightarrow> (\<forall>l \<in> set free. \<not> lit_holds \<sigma> l)" if "\<sigma> \<in> models T" for \<sigma>
        using eq [OF that] False by (simp add: filter_empty_conv)
      have "asserts T (addClauses (map (\<lambda>l. [neg c, neg l]) free) T) (\<lambda>\<sigma>. count_true \<sigma> vals \<le> 1)"
        by (rule asserts_weaken [OF asserts_addClauses [OF T(1)]])
          (use cT lf none isConstTrue_fixed [OF T(1) cT] in \<open>auto simp: list_all_iff clause_holds_def\<close>)
      then show ?thesis
        unfolding AssertAMO_def T_def [symmetric] Let_def Inr p sum.case prod.case
        using False fl by simp
    qed
  qed
  then show "asserts (cancelUntil 0 S) (AssertAMO vals S) (\<lambda>\<sigma>. count_true \<sigma> vals \<le> 1)"
    by (simp add: T_def)
qed

lemma local_count: "list_all (live S) vals \<Longrightarrow> agree live S \<sigma> \<tau> \<Longrightarrow> count_true \<tau> vals = count_true \<sigma> vals"
  by (induction vals) (auto simp: agree_def)

lemma AssertExactlyOne_asserts:
  assumes "wf_circuit S" "list_all (live S) vals"
  shows "asserts S (AssertExactlyOne vals S) (\<lambda>\<sigma>. count_true \<sigma> vals = 1)"
proof -
  have "asserts S (AssertExactlyOne vals S) (\<lambda>\<sigma>. (\<exists>l \<in> set vals. lit_holds \<sigma> l) \<and> count_true \<sigma> vals \<le> 1)"
    unfolding AssertExactlyOne_def
  proof (rule asserts_bind [OF AssertOrs_asserts [OF assms]])
    show "asserts S1 (AssertAMO vals S1) (\<lambda>\<sigma>. count_true \<sigma> vals \<le> 1)"
      if "ext S (\<lambda>\<sigma>. \<exists>l \<in> set vals. lit_holds \<sigma> l) S1" for S1
      using AssertAMO_asserts [OF ext_wf [OF that] ext_const [OF that assms(2)]] .
    show "local_to live S (\<lambda>\<sigma>. count_true \<sigma> vals \<le> 1)"
      using local_count [OF assms(2)] by (simp add: local_to_def)
  qed
  moreover have "(\<exists>l \<in> set vals. lit_holds \<sigma> l) \<and> count_true \<sigma> vals \<le> 1 \<longleftrightarrow> count_true \<sigma> vals = 1" for \<sigma>
    using filter_empty_conv [of "lit_holds \<sigma>" vals] by (cases "count_true \<sigma> vals") auto
  ultimately show ?thesis by simp
qed


subsection \<open>One-sided implications\<close>

lemma implied_out:
  assumes wf: "wf_circuit S" and loc: "local_to live S \<phi>" and out: "out = lit_Undef \<or> live S out"
    and f: "\<And>ou T. wf_circuit T \<Longrightarrow> live T ou \<Longrightarrow> (\<And>l. live S l \<Longrightarrow> live T l) \<Longrightarrow>
      asserts T (f ou T) (\<lambda>\<sigma>. lit_holds \<sigma> ou \<longrightarrow> \<phi> \<sigma>)"
  shows "runs S (let (ou, S1) = out_lit out S in f ou S1 \<bind> (\<lambda>S2. Some (ou, S2)))
    (\<lambda>\<sigma>. out \<noteq> lit_Undef \<longrightarrow> lit_holds \<sigma> out \<longrightarrow> \<phi> \<sigma>)
    (\<lambda>l S'. live S' l \<and> (\<forall>\<sigma> \<in> models S'. lit_holds \<sigma> l \<longrightarrow> \<phi> \<sigma>))"
proof (cases "out = lit_Undef")
  case False
  then have ou: "live S out" using out by simp
  have "runs S (f out S \<bind> (\<lambda>S2. Some (out, S2))) (\<lambda>\<sigma>. lit_holds \<sigma> out \<longrightarrow> \<phi> \<sigma>)
      (\<lambda>l S'. live S' l \<and> (\<forall>\<sigma> \<in> models S'. lit_holds \<sigma> l \<longrightarrow> \<phi> \<sigma>))"
    by (rule asserts_return [OF f [OF wf ou]]) (use ou in \<open>auto dest: ext_live ext_holds\<close>)
  then show ?thesis using False by (simp add: out_lit_def)
next
  case True
  obtain v S1 where v: "newVar True S = (v, S1)" by (metis surj_pair)
  let ?ou = "mkLit v False"
  note fr = circ.fresh_law [OF wf v]
  have l1: "live S1 ?ou" using circ.ext_fresh [OF wf v] by blast
  obtain S2 where 2: "f ?ou S1 = Some S2" "ext S1 (\<lambda>\<sigma>. lit_holds \<sigma> ?ou \<longrightarrow> \<phi> \<sigma>) S2"
    using f [of S1 ?ou] fr l1 by (auto simp: asserts_def)
  have "ext S (\<lambda>_. True) S2"
    by (rule circ.ext_define [OF wf v 2(2)]) (auto intro!: exI [of _ False] simp: lit_holds_def lit_simps)
  then show ?thesis
    using True v 2 ext_live [OF 2(2) l1] ext_holds [OF 2(2)] by (simp add: runs_def out_lit_def newLit_def)
qed

lemma AssertImpliesOr_asserts:
  assumes wf: "wf_circuit S" and lv: "list_all (live S) vals" "live S i"
  shows "asserts S (AssertImpliesOr i vals lit_Undef S) (\<lambda>\<sigma>. lit_holds \<sigma> i \<longrightarrow> (\<exists>l \<in> set vals. lit_holds \<sigma> l))"
proof (cases "drop_consts (isConstTrue S) (isConstFalse S) vals")
  case None
  then obtain l where "l \<in> set vals" "isConstTrue S l" using drop_consts_None by blast
  then have "\<exists>l \<in> set vals. lit_holds \<sigma> l" if "\<sigma> \<in> models S" for \<sigma>
    using isConstTrue_fixed [OF wf _ _ that] lv by (auto simp: list_all_iff)
  then show ?thesis unfolding AssertImpliesOr_def None by (simp add: when_out_def asserts_Some wf)
next
  case (Some tmp)
  note d = drop_consts_Some [OF Some]
  have lt: "list_all (live S) tmp" using d lv by (auto simp: list_all_iff)
  have eq: "(\<exists>l \<in> set vals. lit_holds \<sigma> l) \<longleftrightarrow> (\<exists>l \<in> set tmp. lit_holds \<sigma> l)" if "\<sigma> \<in> models S" for \<sigma>
    using d isConstFalse_fixed [OF wf _ _ that] lv by (auto simp: list_all_iff)
  have "asserts S (addClause (tmp @ [neg i]) S) (\<lambda>\<sigma>. lit_holds \<sigma> i \<longrightarrow> (\<exists>l \<in> set vals. lit_holds \<sigma> l))"
    by (rule asserts_weaken [OF asserts_addClause]) (use wf lt lv eq in \<open>auto simp: clause_holds_def\<close>)
  moreover have "tmp = []" if "vals = []" using that Some by simp
  ultimately show ?thesis unfolding AssertImpliesOr_def Some by (auto simp: Assert_def)
qed

subsection \<open>Properties\<close>

text \<open>C36: The assertions over vectors restrict the models to exactly those with the disjunction, the
  conjunction, their negations, or (for two literals or more) odd or even parity.\<close>

theorem vector_assertions_correct:
  assumes "wf_circuit S" "list_all (live S) vals"
  shows "asserts S (AssertOrs vals S) (\<lambda>\<sigma>. \<exists>l \<in> set vals. lit_holds \<sigma> l) \<and>
    asserts S (AssertAnds vals S) (\<lambda>\<sigma>. \<forall>l \<in> set vals. lit_holds \<sigma> l) \<and>
    asserts S (AssertNands vals S) (\<lambda>\<sigma>. \<not> (\<forall>l \<in> set vals. lit_holds \<sigma> l)) \<and>
    asserts S (AssertNors vals S) (\<lambda>\<sigma>. \<not> (\<exists>l \<in> set vals. lit_holds \<sigma> l)) \<and>
    asserts S (AssertXors vals S) (\<lambda>\<sigma>. odd (count_true \<sigma> vals)) \<and>
    (2 \<le> length vals \<longrightarrow> asserts S (AssertXnors vals S) (\<lambda>\<sigma>. even (count_true \<sigma> vals)))"
proof (intro conjI impI AssertOrs_asserts AssertAnds_asserts AssertNands_asserts AssertNors_asserts assms)
  show "asserts S (AssertXors vals S) (\<lambda>\<sigma>. odd (count_true \<sigma> vals))"
    unfolding AssertXors_def
    by (rule asserts_weaken [OF AssertXors_reading_asserts [OF assms(1,2,2)]]) (auto simp: parity_of_def)
  show "asserts S (AssertXnors vals S) (\<lambda>\<sigma>. even (count_true \<sigma> vals))" if "2 \<le> length vals"
    unfolding AssertXnors_def
    by (rule asserts_weaken [OF AssertXnors_reading_asserts [OF assms(1,2,2)]]) (use that in \<open>auto simp: parity_of_def\<close>)
qed

theorem vector_assertions_correct_witness:
  "asserts demo_circuit (AssertXnors demo_a demo_circuit) (\<lambda>\<sigma>. even (count_true \<sigma> demo_a))"
  using vector_assertions_correct [OF demo_circuit(1) demo_live(1)] by (simp add: demo_a_def)

text \<open>\<open>AssertXor\<close> and \<open>AssertXnor\<close> of a \<open>std::list\<close> with three literals or more ignore their arguments: the
  first asserts nothing at all, the second makes the problem unsatisfiable.\<close>

theorem xor_list_overloads_wrong:
  assumes "wf_circuit S" "list_all (live S) vals" "3 \<le> length vals"
  shows "asserts S (AssertXors_list vals S) (\<lambda>_. True) \<and> asserts S (AssertXnors_list vals S) (\<lambda>_. False)"
proof
  show "asserts S (AssertXors_list vals S) (\<lambda>_. True)"
    unfolding AssertXors_list_def
    by (rule asserts_weaken [OF AssertXors_reading_asserts]) (use assms in auto)
  show "asserts S (AssertXnors_list vals S) (\<lambda>_. False)"
    unfolding AssertXnors_list_def
    by (rule asserts_weaken [OF AssertXnors_reading_asserts]) (use assms in auto)
qed

theorem xor_list_overloads_wrong_witness:
  "asserts demo_circuit (AssertXnors_list demo_a demo_circuit) (\<lambda>_. False)"
  using xor_list_overloads_wrong [OF demo_circuit(1) demo_live(1)] by (simp add: demo_a_def)

text \<open>C34: \<open>AssertAMO\<close> restricts the models to those with at most one true literal (counted with repetition),
  whatever constants are among the arguments, and \<open>AssertExactlyOne\<close> to those with exactly one.\<close>

theorem cardinality_assertions_correct:
  assumes "wf_circuit S" "list_all (live S) vals"
  shows "asserts S (AssertAMO vals S) (\<lambda>\<sigma>. count_true \<sigma> vals \<le> 1) \<and>
    asserts S (AssertExactlyOne vals S) (\<lambda>\<sigma>. count_true \<sigma> vals = 1)"
  using assms by (intro conjI AssertAMO_asserts AssertExactlyOne_asserts)

theorem cardinality_assertions_correct_witness:
  "asserts demo_circuit (AssertExactlyOne demo_a demo_circuit) (\<lambda>\<sigma>. count_true \<sigma> demo_a = 1)"
  using cardinality_assertions_correct [OF demo_circuit(1) demo_live(1)] by simp

text \<open>C37: The asserted comparisons of bit vectors. \<open>AssertEqual\<close> of vectors is defined only if the second is
  not the shorter one: it prepares a padded copy and then reads the vector itself past its end.\<close>

theorem bv_assertions_correct:
  assumes "wf_circuit S" "list_all (live S) A" "list_all (live S) B"
  shows "asserts S (AssertLEQ A B S) (\<lambda>\<sigma>. bv \<sigma> A \<le> bv \<sigma> B) \<and>
    asserts S (AssertLT A B S) (\<lambda>\<sigma>. bv \<sigma> A < bv \<sigma> B) \<and>
    (if length A \<le> length B then asserts S (AssertEqual_bv A B S) (\<lambda>\<sigma>. bv \<sigma> A = bv \<sigma> B)
     else AssertEqual_bv A B S = None)"
proof -
  have "assert_equal_bits A B T = None" if "length B < length A" for T
    using that by (induction A B T rule: assert_equal_bits.induct) (auto split: Option.bind_splits)
  then show ?thesis
    using AssertLEQ_asserts [OF assms] AssertLT_asserts [OF assms] assert_equal_bits_asserts [OF assms]
    by (simp add: AssertEqual_bv_def)
qed

theorem bv_assertions_correct_witness:
  "asserts demo_circuit (AssertEqual_bv demo_a demo_b demo_circuit) (\<lambda>\<sigma>. bv \<sigma> demo_a = bv \<sigma> demo_b) \<and>
   AssertEqual_bv demo_a [mkLit 0 False] demo_circuit = None"
  using bv_assertions_correct [OF demo_circuit(1) demo_live(1,2)]
    bv_assertions_correct [OF demo_circuit(1) demo_live(1), of "[mkLit 0 False]"]
  by (simp add: demo_live(3) demo_circuit lit_simps) (simp add: demo_a_def)

text \<open>The one-sided gates: a true result of \<open>ImpliesAnd\<close> (\<open>ImpliesOr\<close>) makes all (one) of the arguments
  true; a new output literal constrains nothing else.\<close>

theorem one_sided_gates_correct:
  assumes "wf_circuit S" "list_all (live S) vals" "out = lit_Undef \<or> live S out"
  shows "runs S (ImpliesAnd vals out S)
      (\<lambda>\<sigma>. out \<noteq> lit_Undef \<longrightarrow> lit_holds \<sigma> out \<longrightarrow> (\<forall>l \<in> set vals. lit_holds \<sigma> l))
      (\<lambda>l S'. live S' l \<and> (\<forall>\<sigma> \<in> models S'. lit_holds \<sigma> l \<longrightarrow> (\<forall>l \<in> set vals. lit_holds \<sigma> l))) \<and>
    runs S (ImpliesOr vals out S)
      (\<lambda>\<sigma>. out \<noteq> lit_Undef \<longrightarrow> lit_holds \<sigma> out \<longrightarrow> (\<exists>l \<in> set vals. lit_holds \<sigma> l))
      (\<lambda>l S'. live S' l \<and> (\<forall>\<sigma> \<in> models S'. lit_holds \<sigma> l \<longrightarrow> (\<exists>l \<in> set vals. lit_holds \<sigma> l)))"
proof
  show "runs S (ImpliesAnd vals out S)
      (\<lambda>\<sigma>. out \<noteq> lit_Undef \<longrightarrow> lit_holds \<sigma> out \<longrightarrow> (\<forall>l \<in> set vals. lit_holds \<sigma> l))
      (\<lambda>l S'. live S' l \<and> (\<forall>\<sigma> \<in> models S'. lit_holds \<sigma> l \<longrightarrow> (\<forall>l \<in> set vals. lit_holds \<sigma> l)))"
    unfolding ImpliesAnd_def
  proof (rule implied_out [OF assms(1) local_to_all(1) [OF assms(2)] assms(3)])
    fix ou T assume "wf_circuit T" "live T ou" "\<And>l. live S l \<Longrightarrow> live T l"
    then show "asserts T (addClauses (map (\<lambda>l. [neg ou, l]) vals) T)
        (\<lambda>\<sigma>. lit_holds \<sigma> ou \<longrightarrow> (\<forall>l \<in> set vals. lit_holds \<sigma> l))"
      using assms(2) by (intro asserts_weaken [OF asserts_addClauses]) (auto simp: list_all_iff clause_holds_def)
  qed
  show "runs S (ImpliesOr vals out S)
      (\<lambda>\<sigma>. out \<noteq> lit_Undef \<longrightarrow> lit_holds \<sigma> out \<longrightarrow> (\<exists>l \<in> set vals. lit_holds \<sigma> l))
      (\<lambda>l S'. live S' l \<and> (\<forall>\<sigma> \<in> models S'. lit_holds \<sigma> l \<longrightarrow> (\<exists>l \<in> set vals. lit_holds \<sigma> l)))"
    unfolding ImpliesOr_def
    by (rule implied_out [OF assms(1) local_to_all(2) [OF assms(2)] assms(3)])
      (use assms(2) in \<open>auto simp: list_all_iff intro!: AssertImpliesOr_asserts\<close>)
qed

theorem one_sided_gates_correct_witness:
  "runs demo_circuit (ImpliesOr demo_a lit_Undef demo_circuit) (\<lambda>_. True)
     (\<lambda>l S'. live S' l \<and> (\<forall>\<sigma> \<in> models S'. lit_holds \<sigma> l \<longrightarrow> (\<exists>l \<in> set demo_a. lit_holds \<sigma> l)))"
  using one_sided_gates_correct [OF demo_circuit(1) demo_live(1), of lit_Undef] by simp

text \<open>\<open>AssertImpliesAnd_\<close> does not do what its name says when an argument is not constant. Without an
  output literal it passes \<open>lit_Undef\<close> to the solver in its last clause, which is undefined unless the first
  clauses already made the problem contradictory. With one, it leaves the output out of the last clause
  and so asserts, under \<open>implies\<close>, that the arguments are not all true and that the output is false.\<close>

theorem AssertImpliesAnd_wrong:
  assumes "wf_circuit S" "list_all (live S) vals" "live S i" "live S out"
    "list_all (\<lambda>l. \<not> isConst S l) vals" "vals \<noteq> []"
  shows "asserts S (AssertImpliesAnd i vals out S)
      (\<lambda>\<sigma>. lit_holds \<sigma> i \<longrightarrow> \<not> (\<forall>l \<in> set vals. lit_holds \<sigma> l) \<and> \<not> lit_holds \<sigma> out) \<and>
    (\<forall>S1. addClauses (map (\<lambda>l. [l, neg i]) vals) S = Some S1 \<and> ok S1 \<longrightarrow>
       AssertImpliesAnd i vals lit_Undef S = None)"
proof -
  have d: "drop_consts (isConstFalse S) (isConstTrue S) vals = Some vals"
    using assms(5) by (induction vals) (auto simp: isConst_def)
  obtain l ls where v: "vals = l # ls" using assms(6) by (cases vals) auto
  have ou: "out \<noteq> lit_Undef" using assms(4) by auto
  have "asserts S (addClauses (map (\<lambda>l. [l, neg out, neg i]) vals @ [map neg vals @ [neg i]]) S)
      (\<lambda>\<sigma>. lit_holds \<sigma> i \<longrightarrow> \<not> (\<forall>l \<in> set vals. lit_holds \<sigma> l) \<and> \<not> lit_holds \<sigma> out)"
    by (rule asserts_weaken [OF asserts_addClauses])
      (use assms in \<open>auto simp: list_all_iff clause_holds_def\<close>)
  then have "asserts S (AssertImpliesAnd i vals out S)
      (\<lambda>\<sigma>. lit_holds \<sigma> i \<longrightarrow> \<not> (\<forall>l \<in> set vals. lit_holds \<sigma> l) \<and> \<not> lit_holds \<sigma> out)"
    unfolding AssertImpliesAnd_def d using ou v by simp
  moreover have "AssertImpliesAnd i vals lit_Undef S = None"
    if "addClauses (map (\<lambda>l. [l, neg i]) vals) S = Some S1" "ok S1" for S1
  proof -
    have "addClauses (cs @ [c]) T = addClauses cs T \<bind> addClause c" for cs c T
      by (induction cs arbitrary: T) (auto split: Option.bind_split)
    moreover have "addClause (map neg vals @ [lit_Undef] @ [neg i]) S1 = None"
      using that(2) by (simp add: addClause_def addClause_impl_def)
    ultimately have "addClauses (map (\<lambda>l. [l, neg i]) vals @ [map neg vals @ [lit_Undef] @ [neg i]]) S = None"
      using that(1) by (simp only: bind.bind_lunit)
    then show ?thesis
      unfolding AssertImpliesAnd_def d using v by simp
  qed
  ultimately show ?thesis by blast
qed

theorem AssertImpliesAnd_wrong_witness:
  "asserts demo_circuit (AssertImpliesAnd (mkLit 1 False) [mkLit 0 False] (mkLit 2 False) demo_circuit)
     (\<lambda>\<sigma>. lit_holds \<sigma> (mkLit 1 False) \<longrightarrow> \<not> (\<forall>l \<in> set [mkLit 0 False]. lit_holds \<sigma> l) \<and>
        \<not> lit_holds \<sigma> (mkLit 2 False))"
  using AssertImpliesAnd_wrong [of demo_circuit "[mkLit 0 False]" "mkLit 1 False" "mkLit 2 False"] demo_not_const
  by (simp add: demo_circuit lit_simps)

end
