(* ===== verification/Dynamic_Graph.thy ===== *)
theory Dynamic_Graph
  imports Monosat_Prelude
begin

text \<open>
  \<open>DynamicGraph<Weight>\<close> of \<open>dgl/DynamicGraph.h\<close> (interface in \<open>dgl/Graph.h\<close>): the multigraph whose edges are
  declared once and then enabled and disabled, with the change log that the incremental algorithms read.

  Nodes and edge identifiers are vector indices, hence \<open>nat\<close>; the fields of \<open>FullEdge\<close> and the parameter \<open>id\<close>
  of \<open>addEdge\<close>, for which the source uses \<open>-1\<close>, are \<open>int\<close>. The template parameter \<open>Weight\<close> is \<open>int\<close>, the
  modification counters do not overflow, and the writes to the log file \<open>_outfile\<close> are left out. A result
  \<open>None\<close> is an access outside a vector or a thrown exception.
\<close>

subsection \<open>The structures of \<open>dgl/Graph.h\<close> and the state of the graph\<close>

record Edge =
  node :: nat
  eid :: nat

record FullEdge =
  efrom :: int
  eto :: int
  fid :: int

record EdgeChange =
  addition :: bool
  deletion :: bool
  weight_increase :: bool
  weight_decrease :: bool
  cid :: nat
  cmod :: int
  prev_mod :: int

record DynamicGraph =
  edge_status :: "bool list"
  edge_status_const :: "bool list"
  weights :: "int list"
  num_nodes :: nat
  num_edges :: nat
  next_id :: nat
  is_changed :: bool
  dynamic_algs :: "nat list"
  dynamic_history_pos :: "int list"
  history_offset :: int
  disable_history_clears :: bool
  dynamic_history_clears :: int
  adaptive_history_clear :: bool
  historyClearInterval :: int
  modifications :: int
  additions :: int
  deletions :: int
  edge_increases :: int
  edge_decreases :: int
  previous_history_size :: int
  historyclears :: int
  skipped_historyclears :: int
  adjacency_list :: "Edge list list"
  inverted_adjacency_list :: "Edge list list"
  adjacency_undirected_list :: "Edge list list"
  all_edges :: "FullEdge list"
  history :: "EdgeChange list"

definition mkEdge :: "nat \<Rightarrow> nat \<Rightarrow> Edge" where
  "mkEdge v i = \<lparr>node = v, eid = i\<rparr>"

definition FullEdge_default :: FullEdge where
  "FullEdge_default = \<lparr>efrom = -1, eto = -1, fid = -1\<rparr>"

definition mkFullEdge :: "nat \<Rightarrow> nat \<Rightarrow> nat \<Rightarrow> FullEdge" where
  "mkFullEdge u v i = \<lparr>efrom = int u, eto = int v, fid = int i\<rparr>"

definition DynamicGraph_init :: DynamicGraph where
  "DynamicGraph_init =
     \<lparr>edge_status = [], edge_status_const = [], weights = [], num_nodes = 0, num_edges = 0, next_id = 0,
      is_changed = False, dynamic_algs = [], dynamic_history_pos = [], history_offset = 0,
      disable_history_clears = False, dynamic_history_clears = 0, adaptive_history_clear = False,
      historyClearInterval = 1000, modifications = 0, additions = 0, deletions = 0, edge_increases = 0,
      edge_decreases = 0, previous_history_size = 0, historyclears = 0, skipped_historyclears = 0,
      adjacency_list = [], inverted_adjacency_list = [], adjacency_undirected_list = [], all_edges = [],
      history = []\<rparr>"

subsection \<open>Queries\<close>

definition isEdge :: "DynamicGraph \<Rightarrow> nat \<Rightarrow> bool" where
  "isEdge g i \<longleftrightarrow> i < length (all_edges g) \<and> fid (all_edges g ! i) = int i"

definition hasEdge :: "DynamicGraph \<Rightarrow> nat \<Rightarrow> bool" where
  "hasEdge g i = isEdge g i"

definition getEdge :: "DynamicGraph \<Rightarrow> nat \<Rightarrow> FullEdge option" where
  "getEdge g i = (if i < length (all_edges g) then Some (all_edges g ! i) else None)"

definition edgeEnabled :: "DynamicGraph \<Rightarrow> nat \<Rightarrow> bool option" where
  "edgeEnabled g i = (if i < length (edge_status g) then Some (edge_status g ! i) else None)"

definition selfLoop :: "DynamicGraph \<Rightarrow> nat \<Rightarrow> bool" where
  "selfLoop g i \<longleftrightarrow> hasEdge g i \<and> efrom (all_edges g ! i) = eto (all_edges g ! i)"

fun find_enabled :: "DynamicGraph \<Rightarrow> nat \<Rightarrow> Edge list \<Rightarrow> nat option option" where
  "find_enabled g v [] = Some None"
| "find_enabled g v (e # es) =
     (if node e = v
      then do { en \<leftarrow> edgeEnabled g (eid e); if en then Some (Some (eid e)) else find_enabled g v es }
      else find_enabled g v es)"

definition hasEdge2 :: "DynamicGraph \<Rightarrow> nat \<Rightarrow> nat \<Rightarrow> bool option" where
  "hasEdge2 g u v =
     (if u < length (adjacency_list g)
      then do { r \<leftarrow> find_enabled g v (adjacency_list g ! u); Some (r \<noteq> None) } else None)"

definition getEdge2 :: "DynamicGraph \<Rightarrow> nat \<Rightarrow> nat \<Rightarrow> int option" where
  "getEdge2 g u v =
     (if u < length (adjacency_list g)
      then do {
        r \<leftarrow> find_enabled g v (adjacency_list g ! u);
        Some (case r of None \<Rightarrow> -1 | Some i \<Rightarrow> int i)
      } else None)"

definition hasEdgeUndirected :: "DynamicGraph \<Rightarrow> nat \<Rightarrow> nat \<Rightarrow> bool option" where
  "hasEdgeUndirected g u v =
     (if u < length (adjacency_undirected_list g)
      then do { r \<leftarrow> find_enabled g v (adjacency_undirected_list g ! u); Some (r \<noteq> None) } else None)"

definition isConstant :: "DynamicGraph \<Rightarrow> nat \<Rightarrow> bool option" where
  "isConstant g i = (if i < length (edge_status_const g) then Some (edge_status_const g ! i) else None)"

definition nodes :: "DynamicGraph \<Rightarrow> nat" where
  "nodes g = num_nodes g"

definition edges :: "DynamicGraph \<Rightarrow> nat" where
  "edges g = num_edges g"

definition nEdgeIDs :: "DynamicGraph \<Rightarrow> nat" where
  "nEdgeIDs g = num_edges g"

definition vec_row :: "'a list list \<Rightarrow> nat \<Rightarrow> 'a list option" where
  "vec_row xss u = (if u < length xss then Some (xss ! u) else None)"

definition nIncident :: "DynamicGraph \<Rightarrow> nat \<Rightarrow> bool \<Rightarrow> nat option" where
  "nIncident g u undirected =
     (if undirected then map_option length (vec_row (adjacency_undirected_list g) u)
      else map_option length (vec_row (adjacency_list g) u))"

definition nIncoming :: "DynamicGraph \<Rightarrow> nat \<Rightarrow> bool \<Rightarrow> nat option" where
  "nIncoming g u undirected =
     (if undirected then map_option length (vec_row (adjacency_undirected_list g) u)
      else map_option length (vec_row (inverted_adjacency_list g) u))"

definition nDirectedEdges :: "DynamicGraph \<Rightarrow> nat \<Rightarrow> bool \<Rightarrow> nat option" where
  "nDirectedEdges g u incoming = (if incoming then nIncoming g u False else nIncident g u False)"

definition row_nth :: "'a list list \<Rightarrow> nat \<Rightarrow> nat \<Rightarrow> 'a option" where
  "row_nth xss u i = do { r \<leftarrow> vec_row xss u; if i < length r then Some (r ! i) else None }"

definition incident :: "DynamicGraph \<Rightarrow> nat \<Rightarrow> nat \<Rightarrow> bool \<Rightarrow> Edge option" where
  "incident g u i undirected =
     (if undirected then row_nth (adjacency_undirected_list g) u i else row_nth (adjacency_list g) u i)"

definition incoming :: "DynamicGraph \<Rightarrow> nat \<Rightarrow> nat \<Rightarrow> bool \<Rightarrow> Edge option" where
  "incoming g u i undirected =
     (if undirected then row_nth (adjacency_undirected_list g) u i else row_nth (inverted_adjacency_list g) u i)"

definition directedEdges :: "DynamicGraph \<Rightarrow> nat \<Rightarrow> nat \<Rightarrow> bool \<Rightarrow> Edge option" where
  "directedEdges g u i is_incoming = (if is_incoming then incoming g u i False else incident g u i False)"

definition getWeight :: "DynamicGraph \<Rightarrow> nat \<Rightarrow> int option" where
  "getWeight g i = (if i < length (weights g) then Some (weights g ! i) else None)"

definition historySize :: "DynamicGraph \<Rightarrow> int" where
  "historySize g = int (length (history g)) + history_offset g"

definition getChange :: "DynamicGraph \<Rightarrow> int \<Rightarrow> EdgeChange option" where
  "getChange g p =
     (let k = p - history_offset g
      in if 0 \<le> k \<and> k < int (length (history g)) then Some (history g ! nat k) else None)"

definition getCurrentHistory :: "DynamicGraph \<Rightarrow> int" where
  "getCurrentHistory g = modifications g"

definition nHistoryClears :: "DynamicGraph \<Rightarrow> int" where
  "nHistoryClears g = historyclears g"

definition nDeletions :: "DynamicGraph \<Rightarrow> int" where
  "nDeletions g = deletions g"

definition nAdditions :: "DynamicGraph \<Rightarrow> int" where
  "nAdditions g = additions g"

definition changed :: "DynamicGraph \<Rightarrow> bool" where
  "changed g = is_changed g"

subsection \<open>Enabling and disabling declared edges\<close>

definition enableEdge3 :: "nat \<Rightarrow> nat \<Rightarrow> nat \<Rightarrow> DynamicGraph \<Rightarrow> DynamicGraph option" where
  "enableEdge3 u v i g =
     (if i < length (edge_status g) then
        if \<not> edge_status g ! i then
          let m = modifications g + 1
          in Some (g\<lparr>edge_status := (edge_status g)[i := True], modifications := m, additions := m,
                    history := history g @ [\<lparr>addition = True, deletion = False, weight_increase = False,
                      weight_decrease = False, cid = i, cmod = m, prev_mod = m\<rparr>]\<rparr>)
        else Some g
      else None)"

definition disableEdge3 :: "nat \<Rightarrow> nat \<Rightarrow> nat \<Rightarrow> DynamicGraph \<Rightarrow> DynamicGraph option" where
  "disableEdge3 u v i g =
     (if i < length (edge_status g) then
        if edge_status g ! i then
          let m = modifications g + 1
          in Some (g\<lparr>edge_status := (edge_status g)[i := False], modifications := m,
                    history := history g @ [\<lparr>addition = False, deletion = True, weight_increase = False,
                      weight_decrease = False, cid = i, cmod = m, prev_mod = deletions g\<rparr>],
                    deletions := m\<rparr>)
        else Some g
      else None)"

definition enableEdge :: "nat \<Rightarrow> DynamicGraph \<Rightarrow> DynamicGraph option" where
  "enableEdge i g = do { e \<leftarrow> getEdge g i; enableEdge3 (nat (efrom e)) (nat (eto e)) i g }"

definition disableEdge :: "nat \<Rightarrow> DynamicGraph \<Rightarrow> DynamicGraph option" where
  "disableEdge i g = do { e \<leftarrow> getEdge g i; disableEdge3 (nat (efrom e)) (nat (eto e)) i g }"

definition setEdgeEnabled :: "nat \<Rightarrow> bool \<Rightarrow> DynamicGraph \<Rightarrow> DynamicGraph option" where
  "setEdgeEnabled i enable g = (if enable then enableEdge i g else disableEdge i g)"

definition undoEnableEdge :: "nat \<Rightarrow> DynamicGraph \<Rightarrow> (bool \<times> DynamicGraph) option" where
  "undoEnableEdge i g =
     (if history g = [] then Some (False, g)
      else let c = last (history g)
           in if addition c \<and> cid c = i \<and> cmod c = modifications g then
                if i < length (edge_status g)
                then Some (True, g\<lparr>edge_status := (edge_status g)[i := False],
                       modifications := modifications g - 1, additions := prev_mod c,
                       history := butlast (history g)\<rparr>)
                else None
              else Some (False, g))"

definition undoDisableEdge :: "nat \<Rightarrow> DynamicGraph \<Rightarrow> (bool \<times> DynamicGraph) option" where
  "undoDisableEdge i g =
     (if history g = [] then Some (False, g)
      else let c = last (history g)
           in if \<not> addition c \<and> cid c = i \<and> cmod c = modifications g then
                if i < length (edge_status g)
                then Some (True, g\<lparr>edge_status := (edge_status g)[i := True],
                       modifications := modifications g - 1, deletions := prev_mod c,
                       history := butlast (history g)\<rparr>)
                else None
              else Some (False, g))"

fun rewindHistory :: "nat \<Rightarrow> DynamicGraph \<Rightarrow> (bool \<times> DynamicGraph) option" where
  "rewindHistory 0 g = Some (True, g)"
| "rewindHistory (Suc steps) g =
     (if history g = [] then None
      else let e = last (history g)
           in if addition e then do {
                (ok, g) \<leftarrow> undoEnableEdge (cid e) g;
                if ok then rewindHistory steps g else Some (False, g)
              } else if deletion e then do {
                (ok, g) \<leftarrow> undoDisableEdge (cid e) g;
                if ok then rewindHistory steps g else Some (False, g)
              } else rewindHistory steps g)"

definition setEdgeWeight :: "nat \<Rightarrow> int \<Rightarrow> DynamicGraph \<Rightarrow> DynamicGraph option" where
  "setEdgeWeight i w g = do {
     w0 \<leftarrow> getWeight g i;
     if w = w0 then Some g
     else
       let m = modifications g + 1;
           g = g\<lparr>modifications := m\<rparr>;
           g = (if w > w0
                then g\<lparr>history := history g @ [\<lparr>addition = False, deletion = False, weight_increase = True,
                        weight_decrease = False, cid = i, cmod = m, prev_mod = additions g\<rparr>],
                      edge_increases := m\<rparr>
                else g\<lparr>history := history g @ [\<lparr>addition = False, deletion = False, weight_increase = False,
                        weight_decrease = True, cid = i, cmod = m, prev_mod = additions g\<rparr>],
                      edge_decreases := m\<rparr>)
       in Some (g\<lparr>weights := (weights g)[i := w]\<rparr>)
   }"

definition makeEdgeAssignmentConstant :: "nat \<Rightarrow> DynamicGraph \<Rightarrow> DynamicGraph option" where
  "makeEdgeAssignmentConstant i g =
     (if i < length (edge_status_const g)
      then Some (g\<lparr>edge_status_const := (edge_status_const g)[i := True]\<rparr>) else None)"

subsection \<open>The registered algorithms and the change log\<close>

text \<open>An algorithm object is named by a number, the null pointer is \<open>None\<close>. \<open>updateHistory\<close> is the virtual
  method of \<open>DynamicGraphAlgorithm\<close>; \<open>clearHistory\<close> receives, as \<open>upd\<close>, what that method does to the graph.\<close>

definition addDynamicAlgorithm :: "nat option \<Rightarrow> DynamicGraph \<Rightarrow> (nat \<times> DynamicGraph) option" where
  "addDynamicAlgorithm alg g =
     (case alg of None \<Rightarrow> None
      | Some a \<Rightarrow> Some (length (dynamic_algs g),
          g\<lparr>dynamic_algs := dynamic_algs g @ [a], dynamic_history_pos := dynamic_history_pos g @ [0]\<rparr>))"

definition updateAlgorithmHistory :: "nat option \<Rightarrow> int \<Rightarrow> int \<Rightarrow> DynamicGraph \<Rightarrow> DynamicGraph option" where
  "updateAlgorithmHistory alg algorithmID historyPos g =
     (if algorithmID < 0 \<or> algorithmID \<ge> int (length (dynamic_algs g)) \<or>
         Some (dynamic_algs g ! nat algorithmID) \<noteq> alg \<or> alg = None
      then None
      else if nat algorithmID < length (dynamic_history_pos g)
      then Some (g\<lparr>dynamic_history_pos := (dynamic_history_pos g)[nat algorithmID := historyPos]\<rparr>)
      else None)"

definition history_max_size :: int where
  "history_max_size = (2 ^ 63 - 1) div 16"

definition clear_threshold :: "DynamicGraph \<Rightarrow> int" where
  "clear_threshold g =
     min history_max_size
       (if adaptive_history_clear g then max 1000 (historyClearInterval g * int (edges g))
        else historyClearInterval g)"

fun count_uptodate :: "(nat \<Rightarrow> DynamicGraph \<Rightarrow> DynamicGraph) \<Rightarrow> nat list \<Rightarrow> DynamicGraph \<Rightarrow> nat \<times> DynamicGraph"
  where
  "count_uptodate upd [] g = (0, g)"
| "count_uptodate upd (k # ks) g =
     (if dynamic_history_pos g ! k \<noteq> historySize g then
        if dynamic_history_clears g = 2 then
          let g = upd (dynamic_algs g ! k) g; (n, g') = count_uptodate upd ks g
          in (if dynamic_history_pos g ! k = historySize g then Suc n else n, g')
        else count_uptodate upd ks g
      else let (n, g') = count_uptodate upd ks g in (Suc n, g'))"

definition clearHistory :: "(nat \<Rightarrow> DynamicGraph \<Rightarrow> DynamicGraph) \<Rightarrow> bool \<Rightarrow> DynamicGraph \<Rightarrow> DynamicGraph" where
  "clearHistory upd forceClear g =
     (if disable_history_clears g then g
      else if history g \<noteq> [] \<and>
              (forceClear \<or> int (length (history g)) \<ge> clear_threshold g mod 2 ^ 64) then
        let (n, g) = (if \<not> forceClear \<and> dynamic_history_clears g > 0
                      then map_prod Some (\<lambda>g. g) (count_uptodate upd [0..<length (dynamic_algs g)] g)
                      else (None, g))
        in if n = Some (length (dynamic_algs g)) then
             g\<lparr>history_offset := historySize g, skipped_historyclears := skipped_historyclears g + 1,
               history := []\<rparr>
           else
             g\<lparr>previous_history_size := int (length (history g)), history_offset := 0, history := [],
               historyclears := historyclears g + 1\<rparr>
      else g)"

definition invalidate :: "DynamicGraph \<Rightarrow> DynamicGraph" where
  "invalidate g =
     g\<lparr>additions := modifications g + 1, modifications := modifications g + 2,
       deletions := modifications g + 2, is_changed := True\<rparr>"

definition markChanged :: "DynamicGraph \<Rightarrow> DynamicGraph" where
  "markChanged g = g\<lparr>is_changed := True\<rparr>"

definition clearChanged :: "DynamicGraph \<Rightarrow> DynamicGraph" where
  "clearChanged g = g\<lparr>is_changed := False\<rparr>"

subsection \<open>Declaring nodes and edges\<close>

text \<open>A forced \<open>clearHistory\<close> never consults the algorithms, so its callback is immaterial here.\<close>

definition addNode :: "DynamicGraph \<Rightarrow> nat \<times> DynamicGraph" where
  "addNode g =
     (let m = modifications g + 1;
          g = g\<lparr>adjacency_list := adjacency_list g @ [[]],
                adjacency_undirected_list := adjacency_undirected_list g @ [[]],
                inverted_adjacency_list := inverted_adjacency_list g @ [[]],
                modifications := m, additions := m, deletions := m, edge_increases := m, edge_decreases := m\<rparr>;
          g = clearHistory (\<lambda>_ g. g) True (markChanged g)
      in (num_nodes g, g\<lparr>num_nodes := num_nodes g + 1\<rparr>))"

fun addNodes :: "nat \<Rightarrow> DynamicGraph \<Rightarrow> DynamicGraph" where
  "addNodes 0 g = g"
| "addNodes (Suc n) g = addNodes n (snd (addNode g))"

definition addEdge :: "nat \<Rightarrow> nat \<Rightarrow> int \<Rightarrow> int \<Rightarrow> DynamicGraph \<Rightarrow> (nat \<times> DynamicGraph) option" where
  "addEdge u v i0 weight g =
     (if u < length (adjacency_list g) \<and> u < length (adjacency_undirected_list g) \<and>
         v < length (adjacency_undirected_list g) \<and> v < length (inverted_adjacency_list g)
      then
        let i = (if i0 < 0 then next_id g else nat i0);
            g = (if i0 < 0 then g\<lparr>next_id := next_id g + 1\<rparr>
                 else if i \<ge> next_id g then g\<lparr>next_id := i + 1\<rparr> else g);
            g = g\<lparr>num_edges := next_id g,
                  adjacency_list := (adjacency_list g)[u := adjacency_list g ! u @ [mkEdge v i]]\<rparr>;
            und = (adjacency_undirected_list g)[u := adjacency_undirected_list g ! u @ [mkEdge v i]];
            g = g\<lparr>adjacency_undirected_list := und[v := und ! v @ [mkEdge u i]],
                  edge_status := vec_grow (i + 1) False (edge_status g),
                  edge_status_const := vec_grow (i + 1) False (edge_status_const g),
                  inverted_adjacency_list :=
                    (inverted_adjacency_list g)[v := inverted_adjacency_list g ! v @ [mkEdge u i]],
                  all_edges := (vec_grow (i + 1) FullEdge_default (all_edges g))[i := mkFullEdge u v i],
                  weights := (vec_grow (i + 1) 1 (weights g))[i := weight]\<rparr>;
            m = modifications g + 1;
            g = markChanged (g\<lparr>modifications := m, additions := m, edge_increases := m\<rparr>)
        in do { g \<leftarrow> enableEdge3 u v i g; Some (i, g) }
      else None)"

definition clear :: "DynamicGraph \<Rightarrow> DynamicGraph" where
  "clear g =
     clearHistory (\<lambda>_ g. g) True (invalidate
       (g\<lparr>edge_status := [], num_nodes := 0, num_edges := 0, next_id := 0, adjacency_list := [],
         inverted_adjacency_list := [], adjacency_undirected_list := [], all_edges := [], history := []\<rparr>))"

definition copyTo :: "DynamicGraph \<Rightarrow> DynamicGraph \<Rightarrow> DynamicGraph" where
  "copyTo g t =
     (clear t)\<lparr>num_nodes := num_nodes g, num_edges := num_edges g, next_id := next_id g,
       edge_status := edge_status g, historyClearInterval := historyClearInterval g,
       adjacency_list := adjacency_list g, adjacency_undirected_list := adjacency_undirected_list g,
       all_edges := all_edges g, inverted_adjacency_list := inverted_adjacency_list g\<rparr>"

subsection \<open>Well-formed graphs\<close>

text \<open>\<open>declares g i u v\<close>: edge \<open>i\<close> was declared from \<open>u\<close> to \<open>v\<close>. \<open>arcs g\<close> is the abstract graph, the declared
  edges that are enabled, each as (source, identifier, target); it is what every algorithm on the graph is
  specified against.\<close>

definition declares :: "DynamicGraph \<Rightarrow> nat \<Rightarrow> nat \<Rightarrow> nat \<Rightarrow> bool" where
  "declares g i u v \<longleftrightarrow> i < length (all_edges g) \<and> all_edges g ! i = mkFullEdge u v i"

definition arcs :: "DynamicGraph \<Rightarrow> (nat \<times> nat \<times> nat) set" where
  "arcs g = {(u, i, v). declares g i u v \<and> i < length (edge_status g) \<and> edge_status g ! i}"

definition wf_graph :: "DynamicGraph \<Rightarrow> bool" where
  "wf_graph g \<longleftrightarrow>
     length (adjacency_list g) = num_nodes g \<and> length (inverted_adjacency_list g) = num_nodes g \<and>
     length (adjacency_undirected_list g) = num_nodes g \<and>
     next_id g = num_edges g \<and> length (edge_status g) = num_edges g \<and> length (all_edges g) = num_edges g \<and>
     num_edges g \<le> length (weights g) \<and> num_edges g \<le> length (edge_status_const g) \<and>
     length (dynamic_history_pos g) = length (dynamic_algs g) \<and>
     (\<forall>i. isEdge g i \<longrightarrow> (\<exists>u v. u < num_nodes g \<and> v < num_nodes g \<and> declares g i u v)) \<and>
     (\<forall>i < num_edges g. edge_status g ! i \<longrightarrow> isEdge g i) \<and>
     (\<forall>u < num_nodes g.
        (\<forall>e. e \<in> set (adjacency_list g ! u) \<longleftrightarrow> declares g (eid e) u (node e)) \<and>
        (\<forall>e. e \<in> set (inverted_adjacency_list g ! u) \<longleftrightarrow> declares g (eid e) (node e) u) \<and>
        (\<forall>e. e \<in> set (adjacency_undirected_list g ! u) \<longleftrightarrow>
           declares g (eid e) u (node e) \<or> declares g (eid e) (node e) u))"

lemma mkEdge_sel [simp]: "node (mkEdge v i) = v" "eid (mkEdge v i) = i"
  by (simp_all add: mkEdge_def)

lemma mkEdge_collapse [simp]: "mkEdge (node e) (eid e) = e"
  by (simp add: mkEdge_def)

lemma mkFullEdge_sel [simp]: "efrom (mkFullEdge u v i) = int u" "eto (mkFullEdge u v i) = int v"
  "fid (mkFullEdge u v i) = int i"
  by (simp_all add: mkFullEdge_def)

lemma mkFullEdge_inject [simp]: "mkFullEdge u v i = mkFullEdge u' v' i' \<longleftrightarrow> u = u' \<and> v = v' \<and> i = i'"
  by (auto simp: mkFullEdge_def)

lemma FullEdge_default_neq [simp]: "FullEdge_default \<noteq> mkFullEdge u v i" "fid FullEdge_default = -1"
  by (simp_all add: mkFullEdge_def FullEdge_default_def)

lemma declares_isEdge: "declares g i u v \<Longrightarrow> isEdge g i"
  by (simp add: declares_def isEdge_def)

lemma declares_unique: "declares g i u v \<Longrightarrow> declares g i u' v' \<Longrightarrow> u = u' \<and> v = v'"
  by (simp add: declares_def)

lemma wf_graph_lengths:
  assumes "wf_graph g"
  shows "length (adjacency_list g) = num_nodes g" "length (inverted_adjacency_list g) = num_nodes g"
    "length (adjacency_undirected_list g) = num_nodes g" "next_id g = num_edges g"
    "length (edge_status g) = num_edges g" "length (all_edges g) = num_edges g"
    "num_edges g \<le> length (weights g)" "num_edges g \<le> length (edge_status_const g)"
    "length (dynamic_history_pos g) = length (dynamic_algs g)"
  using assms by (simp_all add: wf_graph_def)

lemma wf_graph_declares:
  assumes "wf_graph g" "declares g i u v"
  shows "u < num_nodes g" "v < num_nodes g" "i < num_edges g"
  using assms declares_isEdge [OF assms(2)] declares_unique [OF assms(2)]
  by (auto simp: wf_graph_def declares_def)

lemma wf_graph_isEdge:
  assumes "wf_graph g" "isEdge g i"
  obtains u v where "u < num_nodes g" "v < num_nodes g" "declares g i u v"
  using assms by (auto simp: wf_graph_def)

lemma wf_graph_adj:
  assumes "wf_graph g" "u < num_nodes g"
  shows "e \<in> set (adjacency_list g ! u) \<longleftrightarrow> declares g (eid e) u (node e)"
    "e \<in> set (inverted_adjacency_list g ! u) \<longleftrightarrow> declares g (eid e) (node e) u"
    "e \<in> set (adjacency_undirected_list g ! u) \<longleftrightarrow> declares g (eid e) u (node e) \<or> declares g (eid e) (node e) u"
  using assms by (simp_all add: wf_graph_def)

lemma wf_graph_status: "wf_graph g \<Longrightarrow> i < num_edges g \<Longrightarrow> edge_status g ! i \<Longrightarrow> isEdge g i"
  by (simp add: wf_graph_def)

lemma wf_DynamicGraph_init [simp]: "wf_graph DynamicGraph_init"
  by (simp add: wf_graph_def DynamicGraph_init_def isEdge_def)

lemma arcs_iff: "(u, i, v) \<in> arcs g \<longleftrightarrow> declares g i u v \<and> i < length (edge_status g) \<and> edge_status g ! i"
  by (simp add: arcs_def)

text \<open>Operations that leave the declared graph alone keep the invariant as soon as the enabled edges are
  declared ones.\<close>

definition same_topology :: "DynamicGraph \<Rightarrow> DynamicGraph \<Rightarrow> bool" where
  "same_topology g g' \<longleftrightarrow>
     num_nodes g' = num_nodes g \<and> num_edges g' = num_edges g \<and> next_id g' = next_id g \<and>
     adjacency_list g' = adjacency_list g \<and> inverted_adjacency_list g' = inverted_adjacency_list g \<and>
     adjacency_undirected_list g' = adjacency_undirected_list g \<and> all_edges g' = all_edges g \<and>
     length (edge_status g') = length (edge_status g) \<and> length (weights g') = length (weights g) \<and>
     length (edge_status_const g') = length (edge_status_const g)"

lemma same_topology_refl [simp]: "same_topology g g"
  by (simp add: same_topology_def)

lemma same_topology_trans: "same_topology g h \<Longrightarrow> same_topology h k \<Longrightarrow> same_topology g k"
  by (simp add: same_topology_def)

lemma same_topology_declares: "same_topology g g' \<Longrightarrow> declares g' = declares g \<and> isEdge g' = isEdge g"
  by (simp add: same_topology_def declares_def isEdge_def fun_eq_iff)

lemma wf_graph_same_topology:
  assumes "wf_graph g" "same_topology g g'" "length (dynamic_history_pos g') = length (dynamic_algs g')"
    "\<And>i. i < num_edges g \<Longrightarrow> edge_status g' ! i \<Longrightarrow> isEdge g i"
  shows "wf_graph g'"
  using assms same_topology_declares [OF assms(2)] by (simp add: wf_graph_def same_topology_def)

subsection \<open>Enabling and disabling\<close>

lemma eq_list_update_iff: "i < length xs \<Longrightarrow> xs = xs[i := x] \<longleftrightarrow> xs ! i = x"
  by (metis list_update_id nth_list_update_eq)

lemma enableEdge3_cases:
  assumes "i < length (edge_status g)"
  obtains "edge_status g ! i" "enableEdge3 u v i g = Some g"
  | g' where "\<not> edge_status g ! i" "enableEdge3 u v i g = Some g'" "same_topology g g'"
      "edge_status g' = (edge_status g)[i := True]" "modifications g' = modifications g + 1"
      "dynamic_history_pos g' = dynamic_history_pos g" "dynamic_algs g' = dynamic_algs g"
      "history g' = history g @ [\<lparr>addition = True, deletion = False, weight_increase = False,
          weight_decrease = False, cid = i, cmod = modifications g + 1, prev_mod = modifications g + 1\<rparr>]"
  using assms by (cases "edge_status g ! i") (auto simp: enableEdge3_def same_topology_def Let_def)

lemma disableEdge3_cases:
  assumes "i < length (edge_status g)"
  obtains "\<not> edge_status g ! i" "disableEdge3 u v i g = Some g"
  | g' where "edge_status g ! i" "disableEdge3 u v i g = Some g'" "same_topology g g'"
      "edge_status g' = (edge_status g)[i := False]" "modifications g' = modifications g + 1"
      "dynamic_history_pos g' = dynamic_history_pos g" "dynamic_algs g' = dynamic_algs g"
      "history g' = history g @ [\<lparr>addition = False, deletion = True, weight_increase = False,
          weight_decrease = False, cid = i, cmod = modifications g + 1, prev_mod = deletions g\<rparr>]"
  using assms by (cases "edge_status g ! i") (auto simp: disableEdge3_def same_topology_def Let_def)

lemma setEdgeEnabled_status:
  assumes "wf_graph g" "isEdge g i"
  shows "\<exists>g'. setEdgeEnabled i b g = Some g' \<and> wf_graph g' \<and> same_topology g g' \<and>
           edge_status g' = (edge_status g)[i := b]"
proof -
  have i: "i < length (all_edges g)" "i < length (edge_status g)"
    using assms by (auto simp: isEdge_def wf_graph_lengths)
  have *: "setEdgeEnabled i b g =
      (if b then enableEdge3 (nat (efrom (all_edges g ! i))) (nat (eto (all_edges g ! i))) i g
       else disableEdge3 (nat (efrom (all_edges g ! i))) (nat (eto (all_edges g ! i))) i g)"
    using i by (simp add: setEdgeEnabled_def enableEdge_def disableEdge_def getEdge_def)
  have wf: "wf_graph g'" if "same_topology g g'" "edge_status g' = (edge_status g)[i := b]"
    "dynamic_history_pos g' = dynamic_history_pos g" "dynamic_algs g' = dynamic_algs g" for g'
    using assms i that wf_graph_status [OF assms(1)]
    by (intro wf_graph_same_topology [OF assms(1) that(1)])
      (auto simp: wf_graph_lengths nth_list_update split: if_splits)
  show ?thesis
  proof (cases b)
    case True
    then show ?thesis
      using wf i(2) unfolding *
      by (cases rule: enableEdge3_cases [OF i(2), of "nat (efrom (all_edges g ! i))" "nat (eto (all_edges g ! i))"])
        (use assms in \<open>auto simp: eq_list_update_iff\<close>)
  next
    case False
    then show ?thesis
      using wf i(2) unfolding *
      by (cases rule: disableEdge3_cases [OF i(2), of "nat (efrom (all_edges g ! i))" "nat (eto (all_edges g ! i))"])
        (use assms in \<open>auto simp: eq_list_update_iff\<close>)
  qed
qed

lemma setEdgeEnabled_arcs:
  assumes "wf_graph g" "declares g i u v"
  shows "\<exists>g'. setEdgeEnabled i b g = Some g' \<and> wf_graph g' \<and> num_nodes g' = num_nodes g \<and>
           arcs g' = (if b then insert (u, i, v) (arcs g) else arcs g - {(u, i, v)})"
proof -
  obtain g' where g': "setEdgeEnabled i b g = Some g'" "wf_graph g'" "same_topology g g'"
      "edge_status g' = (edge_status g)[i := b]"
    using setEdgeEnabled_status [OF assms(1) declares_isEdge [OF assms(2)], of b] by blast
  have i: "i < length (edge_status g)"
    using wf_graph_declares [OF assms] wf_graph_lengths [OF assms(1)] by simp
  have "arcs g' = (if b then insert (u, i, v) (arcs g) else arcs g - {(u, i, v)})"
    using same_topology_declares [OF g'(3)] assms(2) i
    by (auto simp: arcs_def g'(4) nth_list_update dest: declares_unique split: if_splits)
  then show ?thesis using g' by (auto simp: same_topology_def)
qed


subsection \<open>Declaring nodes and edges\<close>

lemma addEdge_fields:
  assumes "wf_graph g" "u < num_nodes g" "v < num_nodes g" "i0 < 0 \<or> \<not> isEdge g (nat i0)"
    and i: "i = (if i0 < 0 then next_id g else nat i0)"
  obtains g' where "addEdge u v i0 w g = Some (i, g')"
    "num_nodes g' = num_nodes g" "num_edges g' = max (num_edges g) (i + 1)" "next_id g' = max (num_edges g) (i + 1)"
    "adjacency_list g' = (adjacency_list g)[u := adjacency_list g ! u @ [mkEdge v i]]"
    "inverted_adjacency_list g' = (inverted_adjacency_list g)[v := inverted_adjacency_list g ! v @ [mkEdge u i]]"
    "\<forall>x < num_nodes g. set (adjacency_undirected_list g' ! x) = set (adjacency_undirected_list g ! x) \<union>
        (if x = u then {mkEdge v i} else {}) \<union> (if x = v then {mkEdge u i} else {})"
    "length (adjacency_undirected_list g') = num_nodes g"
    "all_edges g' = (vec_grow (i + 1) FullEdge_default (all_edges g))[i := mkFullEdge u v i]"
    "edge_status g' = (vec_grow (i + 1) False (edge_status g))[i := True]"
    "weights g' = (vec_grow (i + 1) 1 (weights g))[i := w]"
    "edge_status_const g' = vec_grow (i + 1) False (edge_status_const g)"
    "dynamic_history_pos g' = dynamic_history_pos g" "dynamic_algs g' = dynamic_algs g"
    "modifications g < modifications g'" "is_changed g'"
proof -
  have st: "\<not> vec_grow (Suc i) False (edge_status g) ! i"
    using assms wf_graph_status [OF assms(1), of i]
    by (auto simp: nth_vec_grow wf_graph_lengths isEdge_def split: if_splits)
  obtain g' where g': "addEdge u v i0 w g = Some (i, g')"
    "num_nodes g' = num_nodes g" "num_edges g' = max (num_edges g) (i + 1)" "next_id g' = max (num_edges g) (i + 1)"
    "adjacency_list g' = (adjacency_list g)[u := adjacency_list g ! u @ [mkEdge v i]]"
    "inverted_adjacency_list g' = (inverted_adjacency_list g)[v := inverted_adjacency_list g ! v @ [mkEdge u i]]"
    "adjacency_undirected_list g' =
       (let und = (adjacency_undirected_list g)[u := adjacency_undirected_list g ! u @ [mkEdge v i]]
        in und[v := und ! v @ [mkEdge u i]])"
    "all_edges g' = (vec_grow (i + 1) FullEdge_default (all_edges g))[i := mkFullEdge u v i]"
    "edge_status g' = (vec_grow (i + 1) False (edge_status g))[i := True]"
    "weights g' = (vec_grow (i + 1) 1 (weights g))[i := w]"
    "edge_status_const g' = vec_grow (i + 1) False (edge_status_const g)"
    "dynamic_history_pos g' = dynamic_history_pos g" "dynamic_algs g' = dynamic_algs g"
    "modifications g' = modifications g + 2" "is_changed g'"
    using assms(2,3) st i
    by (cases "i0 < 0"; atomize_elim)
      (simp_all add: addEdge_def wf_graph_lengths [OF assms(1)] enableEdge3_def Let_def markChanged_def max_def)
  show ?thesis
    by (rule that [OF g'(1-6)])
      (use g' assms(2,3) in \<open>auto simp: Let_def wf_graph_lengths [OF assms(1)] nth_list_update\<close>)
qed

lemma addEdge_correct:
  assumes "wf_graph g" "u < num_nodes g" "v < num_nodes g" "i0 < 0 \<or> \<not> isEdge g (nat i0)"
    and i: "i = (if i0 < 0 then next_id g else nat i0)"
  shows "\<exists>g'. addEdge u v i0 w g = Some (i, g') \<and> wf_graph g' \<and> num_nodes g' = num_nodes g \<and>
           (\<forall>j x y. declares g' j x y \<longleftrightarrow> declares g j x y \<or> (j, x, y) = (i, u, v)) \<and>
           \<not> isEdge g i \<and> arcs g' = insert (u, i, v) (arcs g)"
proof -
  have ni: "\<not> isEdge g i"
    using assms by (auto simp: isEdge_def wf_graph_lengths)
  obtain g' where g': "addEdge u v i0 w g = Some (i, g')"
    "num_nodes g' = num_nodes g" "num_edges g' = max (num_edges g) (i + 1)" "next_id g' = max (num_edges g) (i + 1)"
    "adjacency_list g' = (adjacency_list g)[u := adjacency_list g ! u @ [mkEdge v i]]"
    "inverted_adjacency_list g' = (inverted_adjacency_list g)[v := inverted_adjacency_list g ! v @ [mkEdge u i]]"
    "\<forall>x < num_nodes g. set (adjacency_undirected_list g' ! x) = set (adjacency_undirected_list g ! x) \<union>
        (if x = u then {mkEdge v i} else {}) \<union> (if x = v then {mkEdge u i} else {})"
    "length (adjacency_undirected_list g') = num_nodes g"
    "all_edges g' = (vec_grow (i + 1) FullEdge_default (all_edges g))[i := mkFullEdge u v i]"
    "edge_status g' = (vec_grow (i + 1) False (edge_status g))[i := True]"
    "weights g' = (vec_grow (i + 1) 1 (weights g))[i := w]"
    "edge_status_const g' = vec_grow (i + 1) False (edge_status_const g)"
    "dynamic_history_pos g' = dynamic_history_pos g" "dynamic_algs g' = dynamic_algs g"
    "modifications g < modifications g'" "is_changed g'"
    by (rule addEdge_fields [OF assms, of w])
  note len = wf_graph_lengths [OF assms(1)]
  have dec: "declares g' j x y \<longleftrightarrow> declares g j x y \<or> (j, x, y) = (i, u, v)" for j x y
    using ni by (auto simp: declares_def g'(9) nth_list_update nth_vec_grow isEdge_def len split: if_splits)
  have isE: "isEdge g' j \<longleftrightarrow> isEdge g j \<or> j = i" for j
    by (auto simp: isEdge_def g'(9) nth_list_update nth_vec_grow len split: if_splits)
  have stat: "j < num_edges g' \<Longrightarrow> edge_status g' ! j \<longleftrightarrow> (j < num_edges g \<and> edge_status g ! j) \<or> j = i" for j
    by (auto simp: g' nth_list_update nth_vec_grow len)
  have "wf_graph g'"
    unfolding wf_graph_def
  proof (intro conjI allI impI)
    fix j assume "isEdge g' j"
    then show "\<exists>u v. u < num_nodes g' \<and> v < num_nodes g' \<and> declares g' j u v"
      using assms(1-3) by (auto simp: isE dec g'(2) elim!: wf_graph_isEdge)
  next
    fix j assume "j < num_edges g'" "edge_status g' ! j"
    then show "isEdge g' j" using stat wf_graph_status [OF assms(1)] by (auto simp: isE)
  next
    fix x e assume x: "x < num_nodes g'"
    show "e \<in> set (adjacency_list g' ! x) \<longleftrightarrow> declares g' (eid e) x (node e)"
      using x wf_graph_adj(1) [OF assms(1)] assms(2,3) mkEdge_collapse [of e]
      by (auto simp: g' dec nth_list_update len)
    show "e \<in> set (inverted_adjacency_list g' ! x) \<longleftrightarrow> declares g' (eid e) (node e) x"
      using x wf_graph_adj(2) [OF assms(1)] assms(2,3) mkEdge_collapse [of e]
      by (auto simp: g' dec nth_list_update len)
    show "e \<in> set (adjacency_undirected_list g' ! x) \<longleftrightarrow>
        declares g' (eid e) x (node e) \<or> declares g' (eid e) (node e) x"
      using x wf_graph_adj(3) [OF assms(1)] assms(2,3) mkEdge_collapse [of e]
      by (auto simp: g'(2,7) dec)
  qed (use len(7,8) in \<open>auto simp: g' len(1-6,9)\<close>)
  moreover have "arcs g' = insert (u, i, v) (arcs g)"
  proof (rule set_eqI, clarify)
    fix x j y
    have l: "length (edge_status g') = num_edges g'" by (simp add: g' len)
    show "(x, j, y) \<in> arcs g' \<longleftrightarrow> (x, j, y) \<in> insert (u, i, v) (arcs g)"
      using dec [of j x y] stat [of j] ni declares_isEdge [of g j x y] wf_graph_declares(3) [OF assms(1), of j x y]
      unfolding arcs_iff insert_iff l len by (auto simp: g'(3))
  qed
  ultimately show ?thesis using g'(1,2) dec ni by blast
qed

text \<open>A quiet step changes neither the declared graph nor the enabled edges: the bookkeeping of the log and
  of the registered algorithms.\<close>

definition quiet :: "DynamicGraph \<Rightarrow> DynamicGraph \<Rightarrow> bool" where
  "quiet g g' \<longleftrightarrow> same_topology g g' \<and> edge_status g' = edge_status g \<and>
     (length (dynamic_history_pos g) = length (dynamic_algs g) \<longrightarrow>
      length (dynamic_history_pos g') = length (dynamic_algs g'))"

lemma quiet_refl [simp]: "quiet g g"
  by (simp add: quiet_def)

lemma quiet_trans [trans]: "quiet g h \<Longrightarrow> quiet h k \<Longrightarrow> quiet g k"
  unfolding quiet_def using same_topology_trans by auto

lemma wf_quiet: "wf_graph g \<Longrightarrow> quiet g g' \<Longrightarrow> wf_graph g'"
  by (rule wf_graph_same_topology [of g])
    (auto simp: quiet_def wf_graph_lengths wf_graph_status)

lemma arcs_quiet: "quiet g g' \<Longrightarrow> arcs g' = arcs g"
  by (auto simp: quiet_def arcs_def dest: same_topology_declares)

lemma quiet_markChanged [simp]: "quiet g (markChanged g)"
  by (simp add: quiet_def same_topology_def markChanged_def)

lemma quiet_clearChanged [simp]: "quiet g (clearChanged g)"
  by (simp add: quiet_def same_topology_def clearChanged_def)

lemma quiet_invalidate [simp]: "quiet g (invalidate g)"
  by (simp add: quiet_def same_topology_def invalidate_def)

lemma quiet_count_uptodate:
  "(\<And>a h. quiet h (upd a h)) \<Longrightarrow> quiet g (snd (count_uptodate upd ks g))"
proof (induction upd ks g rule: count_uptodate.induct)
  case (2 upd k ks g)
  have "quiet g (snd (count_uptodate upd ks (upd (dynamic_algs g ! k) g)))"
    if "dynamic_history_pos g ! k \<noteq> historySize g" "dynamic_history_clears g = 2"
    using "2.IH"(1) [OF that refl "2.prems"] "2.prems" quiet_trans by blast
  then show ?case
    using "2.IH" "2.prems" by (auto simp: Let_def case_prod_beta)
qed simp

lemma quiet_clearHistory:
  assumes "\<And>a h. quiet h (upd a h)"
  shows "quiet g (clearHistory upd force g)"
proof -
  have "quiet h (h\<lparr>history_offset := a, skipped_historyclears := b, history := []\<rparr>)"
    "quiet h (h\<lparr>previous_history_size := a, history_offset := 0, history := [], historyclears := b\<rparr>)" for h a b
    by (simp_all add: quiet_def same_topology_def)
  then show ?thesis
    using quiet_count_uptodate [of upd, OF assms] quiet_trans
    by (simp add: clearHistory_def Let_def case_prod_beta) blast
qed


lemma addNode_fields:
  "fst (addNode g) = num_nodes g" "num_nodes (snd (addNode g)) = num_nodes g + 1"
  "adjacency_list (snd (addNode g)) = adjacency_list g @ [[]]"
  "inverted_adjacency_list (snd (addNode g)) = inverted_adjacency_list g @ [[]]"
  "adjacency_undirected_list (snd (addNode g)) = adjacency_undirected_list g @ [[]]"
  "num_edges (snd (addNode g)) = num_edges g" "next_id (snd (addNode g)) = next_id g"
  "all_edges (snd (addNode g)) = all_edges g" "edge_status (snd (addNode g)) = edge_status g"
  "weights (snd (addNode g)) = weights g" "edge_status_const (snd (addNode g)) = edge_status_const g"
  "dynamic_algs (snd (addNode g)) = dynamic_algs g"
  "dynamic_history_pos (snd (addNode g)) = dynamic_history_pos g"
  "modifications (snd (addNode g)) = modifications g + 1" "is_changed (snd (addNode g))"
  by (simp_all add: addNode_def clearHistory_def markChanged_def Let_def)

lemma wf_addNode:
  assumes "wf_graph g"
  shows "wf_graph (snd (addNode g))" "arcs (snd (addNode g)) = arcs g"
proof -
  have d: "declares (snd (addNode g)) = declares g" "isEdge (snd (addNode g)) = isEdge g"
    by (simp_all add: declares_def isEdge_def addNode_fields fun_eq_iff)
  show "arcs (snd (addNode g)) = arcs g" by (simp add: arcs_def d addNode_fields)
  have nd: "\<not> declares g i u (num_nodes g)" "\<not> declares g i (num_nodes g) u" for i u
    using wf_graph_declares [OF assms] by blast+
  show "wf_graph (snd (addNode g))"
    using assms unfolding wf_graph_def d
    by (simp add: addNode_fields nth_append nd less_Suc_eq all_conj_distrib) blast
qed

lemma wf_addNodes:
  "wf_graph g \<Longrightarrow> wf_graph (addNodes n g) \<and> num_nodes (addNodes n g) = num_nodes g + n \<and> arcs (addNodes n g) = arcs g"
  by (induction n g rule: addNodes.induct) (simp_all add: wf_addNode addNode_fields)

subsection \<open>Queries by end points\<close>

lemma find_enabled_correct:
  assumes "\<And>e. e \<in> set es \<Longrightarrow> eid e < length (edge_status g)"
  shows "\<exists>r. find_enabled g v es = Some r \<and>
     (case r of None \<Rightarrow> \<forall>e \<in> set es. node e = v \<longrightarrow> \<not> edge_status g ! eid e
      | Some i \<Rightarrow> edge_status g ! i \<and> mkEdge v i \<in> set es)"
  using assms
proof (induction es)
  case (Cons e es)
  then obtain r where r: "find_enabled g v es = Some r"
     "case r of None \<Rightarrow> \<forall>e \<in> set es. node e = v \<longrightarrow> \<not> edge_status g ! eid e
      | Some i \<Rightarrow> edge_status g ! i \<and> mkEdge v i \<in> set es"
    by auto
  show ?case
    using r Cons.prems [of e] mkEdge_collapse [of e]
    by (auto simp: edgeEnabled_def split: option.splits)
qed simp

lemma arcs_adj:
  assumes "wf_graph g" "u < num_nodes g"
  shows "(u, i, v) \<in> arcs g \<longleftrightarrow> mkEdge v i \<in> set (adjacency_list g ! u) \<and> edge_status g ! i"
  using assms wf_graph_declares(3) [OF assms(1)]
  by (auto simp: arcs_iff wf_graph_adj wf_graph_lengths)

text \<open>The queries by end points agree with the abstract graph: in a well-formed graph \<open>hasEdge(u,v)\<close>
  answers whether some enabled edge leads from \<open>u\<close> to \<open>v\<close>, and \<open>getEdge(u,v)\<close> returns the identifier of such an
  edge, or \<open>-1\<close> when there is none.\<close>

theorem edge_queries_correct:
  assumes "wf_graph g" "u < num_nodes g"
  shows "hasEdge2 g u v = Some (\<exists>i. (u, i, v) \<in> arcs g) \<and>
         (\<exists>r. getEdge2 g u v = Some r \<and>
            (if r = -1 then \<forall>i. (u, i, v) \<notin> arcs g else 0 \<le> r \<and> (u, nat r, v) \<in> arcs g))"
proof -
  have "eid e < length (edge_status g)" if "e \<in> set (adjacency_list g ! u)" for e
    using that assms wf_graph_declares(3) [OF assms(1)] by (auto simp: wf_graph_adj wf_graph_lengths)
  then obtain r where r: "find_enabled g v (adjacency_list g ! u) = Some r"
     "case r of None \<Rightarrow> \<forall>e \<in> set (adjacency_list g ! u). node e = v \<longrightarrow> \<not> edge_status g ! eid e
      | Some i \<Rightarrow> edge_status g ! i \<and> mkEdge v i \<in> set (adjacency_list g ! u)"
    using find_enabled_correct [of "adjacency_list g ! u" g v] by blast
  show ?thesis
    using r assms
    by (cases r) (fastforce simp: hasEdge2_def getEdge2_def wf_graph_lengths arcs_adj)+
qed


subsection \<open>Sequences of operations\<close>

text \<open>\<open>status_op\<close> is one call that a theory solver makes on a graph whose edges are all declared; \<open>graph_op\<close>
  adds the calls that declare nodes and edges and that trim the log. The callback of \<open>clearHistory\<close> may only
  record positions in \<open>dynamic_history_pos\<close>, as \<open>updateAlgorithmHistory\<close> does. The \<open>undo\<close> operations, which no
  client of the library calls, are treated separately below.\<close>

inductive status_op :: "DynamicGraph \<Rightarrow> DynamicGraph \<Rightarrow> bool" where
  set_enabled: "isEdge g i \<Longrightarrow> setEdgeEnabled i b g = Some g' \<Longrightarrow> status_op g g'"
| set_weight: "isEdge g i \<Longrightarrow> setEdgeWeight i w g = Some g' \<Longrightarrow> status_op g g'"
| make_constant: "makeEdgeAssignmentConstant i g = Some g' \<Longrightarrow> status_op g g'"
| update_algorithm: "updateAlgorithmHistory alg k p g = Some g' \<Longrightarrow> status_op g g'"
| invalidate: "status_op g (invalidate g)"
| mark_changed: "status_op g (markChanged g)"
| clear_changed: "status_op g (clearChanged g)"

inductive graph_op :: "DynamicGraph \<Rightarrow> DynamicGraph \<Rightarrow> bool" where
  status: "status_op g g' \<Longrightarrow> graph_op g g'"
| add_node: "graph_op g (snd (addNode g))"
| add_edge: "u < num_nodes g \<Longrightarrow> v < num_nodes g \<Longrightarrow> i0 < 0 \<or> \<not> isEdge g (nat i0) \<Longrightarrow>
    addEdge u v i0 w g = Some (i, g') \<Longrightarrow> graph_op g g'"
| add_algorithm: "addDynamicAlgorithm alg g = Some (k, g') \<Longrightarrow> graph_op g g'"
| clear_history: "(\<And>a h. \<exists>p. upd a h = h\<lparr>dynamic_history_pos := p\<rparr> \<and> length p = length (dynamic_history_pos h)) \<Longrightarrow>
    graph_op g (clearHistory upd force g)"

definition replay_change :: "EdgeChange \<Rightarrow> bool list \<Rightarrow> bool list" where
  "replay_change c st = (if addition c then st[cid c := True] else if deletion c then st[cid c := False] else st)"

definition replay :: "EdgeChange list \<Rightarrow> bool list \<Rightarrow> bool list" where
  "replay cs st = fold replay_change cs st"

lemma replay_simps [simp]: "replay [] st = st" "replay (c # cs) st = replay cs (replay_change c st)"
  "replay (cs @ ds) st = replay ds (replay cs st)"
  by (simp_all add: replay_def)

lemma status_op_effect:
  assumes "status_op g g'" "wf_graph g"
  shows "wf_graph g' \<and> same_topology g g' \<and> historyclears g' = historyclears g \<and> history_offset g' = history_offset g \<and>
    (\<exists>cs. history g' = history g @ cs \<and> replay cs (edge_status g) = edge_status g' \<and> (\<forall>c \<in> set cs. isEdge g (cid c))) \<and>
    modifications g \<le> modifications g' \<and>
    (modifications g' = modifications g \<longrightarrow> history g' = history g \<and> edge_status g' = edge_status g \<and> weights g' = weights g)"
  using assms
proof (induction rule: status_op.induct)
  case (set_enabled g i b g')
  note wf = set_enabled.prems
  have i: "i < length (all_edges g)" "i < length (edge_status g)"
    using set_enabled by (auto simp: isEdge_def wf_graph_lengths)
  have "wf_graph g' \<and> same_topology g g'"
    using setEdgeEnabled_status [OF wf set_enabled.hyps(1), of b] set_enabled.hyps(2) by auto
  then show ?case
    using set_enabled.hyps i
    by (cases b; cases "edge_status g ! i")
      (auto simp: setEdgeEnabled_def enableEdge_def disableEdge_def getEdge_def enableEdge3_def disableEdge3_def
        Let_def replay_change_def)
next
  case (set_weight g i w g')
  have w: "i < length (weights g)"
    using set_weight by (auto simp: isEdge_def wf_graph_lengths dest!: wf_graph_lengths(7))
  have q: "quiet g g'"
    using set_weight.hyps w by (auto simp: setEdgeWeight_def getWeight_def quiet_def same_topology_def Let_def split: if_splits)
  then have "wf_graph g'" "same_topology g g'" using wf_quiet set_weight.prems by (auto simp: quiet_def)
  then show ?case
    using set_weight.hyps w
    by (auto simp: setEdgeWeight_def getWeight_def Let_def replay_change_def split: if_splits)
next
  case (make_constant i g g')
  then have "quiet g g'"
    by (auto simp: makeEdgeAssignmentConstant_def quiet_def same_topology_def split: if_splits)
  then have "wf_graph g'" "same_topology g g'" using wf_quiet make_constant.prems by (auto simp: quiet_def)
  then show ?case using make_constant.hyps by (auto simp: makeEdgeAssignmentConstant_def split: if_splits)
next
  case (update_algorithm alg k p g g')
  then have "quiet g g'"
    by (auto simp: updateAlgorithmHistory_def quiet_def same_topology_def split: if_splits)
  then have "wf_graph g'" "same_topology g g'" using wf_quiet update_algorithm.prems by (auto simp: quiet_def)
  then show ?case using update_algorithm.hyps by (auto simp: updateAlgorithmHistory_def split: if_splits)
next
  case (invalidate g)
  then show ?case
    using wf_quiet [OF invalidate.prems quiet_invalidate] quiet_invalidate [of g]
    by (simp add: quiet_def) (simp add: invalidate_def)
next
  case (mark_changed g)
  then show ?case
    using wf_quiet [OF mark_changed.prems quiet_markChanged] quiet_markChanged [of g]
    by (simp add: quiet_def) (simp add: markChanged_def)
next
  case (clear_changed g)
  then show ?case
    using wf_quiet [OF clear_changed.prems quiet_clearChanged] quiet_clearChanged [of g]
    by (simp add: quiet_def) (simp add: clearChanged_def)
qed

lemma count_uptodate_pos:
  assumes "\<And>a h. \<exists>p. upd a h = h\<lparr>dynamic_history_pos := p\<rparr> \<and> length p = length (dynamic_history_pos h)"
  shows "\<exists>p. snd (count_uptodate upd ks g) = g\<lparr>dynamic_history_pos := p\<rparr> \<and> length p = length (dynamic_history_pos g)"
  using assms
proof (induction upd ks g rule: count_uptodate.induct)
  case (1 upd g)
  then show ?case by (auto intro!: exI [of _ "dynamic_history_pos g"])
next
  case (2 upd k ks g)
  obtain p where p: "upd (dynamic_algs g ! k) g = g\<lparr>dynamic_history_pos := p\<rparr>" "length p = length (dynamic_history_pos g)"
    using "2.prems" by blast
  show ?case
    using "2.IH" "2.prems" p by (auto simp: Let_def case_prod_beta)
qed

lemma clearHistory_pos:
  assumes "\<And>a h. \<exists>p. upd a h = h\<lparr>dynamic_history_pos := p\<rparr> \<and> length p = length (dynamic_history_pos h)"
  shows "quiet g (clearHistory upd force g) \<and> modifications (clearHistory upd force g) = modifications g \<and>
         weights (clearHistory upd force g) = weights g"
proof -
  have "quiet h (upd a h)" for a h using assms [of a h] by (auto simp: quiet_def same_topology_def)
  moreover obtain p where "snd (count_uptodate upd [0..<length (dynamic_algs g)] g) = g\<lparr>dynamic_history_pos := p\<rparr>"
    using count_uptodate_pos [of upd, OF assms] by blast
  ultimately show ?thesis
    using quiet_clearHistory [of upd g force] by (simp add: clearHistory_def Let_def case_prod_beta)
qed

lemma graph_op_effect:
  assumes "graph_op g g'" "wf_graph g"
  shows "wf_graph g' \<and> modifications g \<le> modifications g' \<and>
    (modifications g' = modifications g \<longrightarrow> quiet g g' \<and> weights g' = weights g)"
  using assms
proof (induction rule: graph_op.induct)
  case (status g g')
  then show ?case using status_op_effect [of g g'] by (auto simp: quiet_def wf_graph_lengths)
next
  case (add_edge u g v i0 w i g')
  obtain h where h: "addEdge u v i0 w g = Some ((if i0 < 0 then next_id g else nat i0), h)" "modifications g < modifications h"
    using addEdge_fields [OF add_edge.prems add_edge.hyps(1-3) refl, of w] by blast
  then have "g' = h" "modifications g < modifications g'" using add_edge.hyps(4) by auto
  moreover have "wf_graph g'"
    using addEdge_correct [OF add_edge.prems add_edge.hyps(1-3) refl, of w] h \<open>g' = h\<close> by auto
  ultimately show ?case by simp
next
  case (add_algorithm alg g k g')
  then have "quiet g g' \<and> modifications g' = modifications g \<and> weights g' = weights g"
    by (auto simp: addDynamicAlgorithm_def quiet_def same_topology_def split: option.splits)
  then show ?case using wf_quiet add_algorithm.prems by auto
next
  case (clear_history upd g force)
  then show ?case using clearHistory_pos [of upd g force] wf_quiet by auto
qed (simp add: wf_addNode addNode_fields)

subsection \<open>What the graph promises\<close>

text \<open>Three nodes and the triangle \<open>0 \<rightarrow> 1 \<rightarrow> 2 \<rightarrow> 0\<close>, all edges enabled.\<close>

definition triangle :: DynamicGraph where
  "triangle =
     (case do { (_, g) \<leftarrow> addEdge 0 1 (-1) 1 (addNodes 3 DynamicGraph_init);
                (_, g) \<leftarrow> addEdge 1 2 (-1) 1 g;
                (_, g) \<leftarrow> addEdge 2 0 (-1) 1 g;
                Some g }
      of Some g \<Rightarrow> g | None \<Rightarrow> DynamicGraph_init)"

lemma triangle_eval:
  "num_nodes triangle = 3" "edge_status triangle = [True, True, True]" "modifications triangle = 9"
  "all_edges triangle = [mkFullEdge 0 1 0, mkFullEdge 1 2 1, mkFullEdge 2 0 2]"
  "adjacency_list triangle = [[mkEdge 1 0], [mkEdge 2 1], [mkEdge 0 2]]"
  by code_simp+

lemma addNodes_reachable: "graph_op\<^sup>*\<^sup>* g (addNodes n g)"
proof (induction n arbitrary: g)
  case (Suc n)
  then show ?case using graph_op.add_node [of g] by (simp add: converse_rtranclp_into_rtranclp)
qed simp

lemma graph_op_rtranclp_effect:
  assumes "graph_op\<^sup>*\<^sup>* g g'" "wf_graph g"
  shows "wf_graph g' \<and> modifications g \<le> modifications g' \<and>
    (modifications g' = modifications g \<longrightarrow> quiet g g' \<and> weights g' = weights g)"
  using assms(1)
proof (induction rule: rtranclp_induct)
  case (step h k)
  then have "wf_graph h" by simp
  from graph_op_effect [OF step.hyps(2) this] step.IH show ?case
    by (auto intro: quiet_trans)
qed (use assms(2) in simp)

lemma addEdge_step:
  assumes "graph_op\<^sup>*\<^sup>* DynamicGraph_init g" "u < num_nodes g" "v < num_nodes g"
  shows "\<exists>i g'. addEdge u v (-1) w g = Some (i, g') \<and> graph_op\<^sup>*\<^sup>* DynamicGraph_init g' \<and> num_nodes g' = num_nodes g"
proof -
  have "wf_graph g" using graph_op_rtranclp_effect [OF assms(1)] by simp
  from addEdge_correct [OF this assms(2,3), of "-1", OF _ refl, of w] obtain g' where
    g': "addEdge u v (-1) w g = Some (next_id g, g')" "num_nodes g' = num_nodes g"
    by auto
  then have "graph_op g g'" using assms by (intro graph_op.add_edge [of u g v "-1"]) auto
  then show ?thesis using g' assms(1) by auto
qed

lemma triangle_reachable: "graph_op\<^sup>*\<^sup>* DynamicGraph_init triangle"
proof -
  let ?g = "addNodes 3 DynamicGraph_init"
  have 0: "graph_op\<^sup>*\<^sup>* DynamicGraph_init ?g" "num_nodes ?g = 3"
    using addNodes_reachable wf_addNodes [OF wf_DynamicGraph_init, of 3] by (auto simp: DynamicGraph_init_def)
  from addEdge_step [OF 0(1), of 0 1 1] 0(2) obtain i g1 where
    1: "addEdge 0 1 (-1) 1 ?g = Some (i, g1)" "graph_op\<^sup>*\<^sup>* DynamicGraph_init g1" "num_nodes g1 = 3" by auto
  from addEdge_step [OF 1(2), of 1 2 1] 1(3) obtain j g2 where
    2: "addEdge 1 2 (-1) 1 g1 = Some (j, g2)" "graph_op\<^sup>*\<^sup>* DynamicGraph_init g2" "num_nodes g2 = 3" by auto
  from addEdge_step [OF 2(2), of 2 0 1] 2(3) obtain k g3 where
    3: "addEdge 2 0 (-1) 1 g2 = Some (k, g3)" "graph_op\<^sup>*\<^sup>* DynamicGraph_init g3" by auto
  have "triangle = g3" unfolding triangle_def using 1 2 3 by simp
  then show ?thesis using 3(2) by simp
qed

lemma wf_triangle [simp]: "wf_graph triangle"
  using graph_op_rtranclp_effect [OF triangle_reachable] by simp

lemma triangle_declares: "declares triangle 0 0 1" "declares triangle 1 1 2" "declares triangle 2 2 0"
  by (simp_all add: declares_def triangle_eval)





text \<open>C23: the change log is faithful. Between two points with no declaration and no trimming of the log, the
  log only grows, and replaying the new entries on the old enabled flags gives the new ones; the entries name
  declared edges. An algorithm that reads the entries behind its own position sees every change.\<close>

theorem history_log_faithful:
  assumes "wf_graph g" "status_op\<^sup>*\<^sup>* g g'"
  shows "\<exists>cs. history g' = history g @ cs \<and> replay cs (edge_status g) = edge_status g' \<and>
           (\<forall>c \<in> set cs. isEdge g (cid c)) \<and> historySize g' = historySize g + int (length cs)"
proof -
  have "\<exists>cs. history g' = history g @ cs \<and> replay cs (edge_status g) = edge_status g' \<and>
      (\<forall>c \<in> set cs. isEdge g (cid c)) \<and> history_offset g' = history_offset g \<and> same_topology g g' \<and> wf_graph g'"
    using assms(2)
  proof (induction rule: rtranclp_induct)
    case (step h k)
    then obtain cs where cs: "history h = history g @ cs" "replay cs (edge_status g) = edge_status h"
      "\<forall>c \<in> set cs. isEdge g (cid c)" "history_offset h = history_offset g" "same_topology g h" "wf_graph h" by blast
    with status_op_effect [OF step.hyps(2) cs(6)] obtain ds where
      "history k = history h @ ds" "replay ds (edge_status h) = edge_status k" "\<forall>c \<in> set ds. isEdge g (cid c)"
      "history_offset k = history_offset g" "same_topology g k" "wf_graph k"
      using same_topology_trans same_topology_declares by metis
    then show ?case using cs by (intro exI [of _ "cs @ ds"]) auto
  qed (use assms(1) in simp)
  then show ?thesis by (auto simp: historySize_def)
qed

theorem history_log_faithful_witness:
  "\<exists>g' cs. setEdgeEnabled 1 False triangle = Some g' \<and> history g' = history triangle @ cs \<and>
     replay cs [True, True, True] = [True, False, True]"
proof -
  obtain g' where g': "setEdgeEnabled 1 False triangle = Some g'" "edge_status g' = [True, False, True]"
    using setEdgeEnabled_status [OF wf_triangle declares_isEdge [OF triangle_declares(2)], of False]
    by (auto simp: triangle_eval)
  have "status_op\<^sup>*\<^sup>* triangle g'"
    using status_op.set_enabled [OF declares_isEdge [OF triangle_declares(2)] g'(1)] by blast
  from history_log_faithful [OF wf_triangle this] show ?thesis
    using g' by (auto simp: triangle_eval)
qed

text \<open>C20: enabling and disabling refine the abstract graph. For a declared edge \<open>i\<close> from \<open>u\<close> to \<open>v\<close>,
  \<open>setEdgeEnabled\<close> returns, keeps the graph well formed, and inserts or removes exactly the arc \<open>(u, i, v)\<close>.\<close>

theorem setEdgeEnabled_refines:
  assumes "wf_graph g" "declares g i u v"
  shows "\<exists>g'. setEdgeEnabled i b g = Some g' \<and> wf_graph g' \<and> num_nodes g' = num_nodes g \<and>
           arcs g' = (if b then insert (u, i, v) (arcs g) else arcs g - {(u, i, v)})"
  by (rule setEdgeEnabled_arcs [OF assms])

theorem setEdgeEnabled_refines_witness:
  "\<exists>g'. setEdgeEnabled 1 False triangle = Some g' \<and> arcs g' = arcs triangle - {(1, 1, 2)}"
  using setEdgeEnabled_refines [OF wf_triangle triangle_declares(2), of False] by auto

text \<open>Declaring an edge. With an automatic or an unused identifier, \<open>addEdge\<close> returns, keeps the graph well
  formed, declares exactly the new edge, which was not declared before, and leaves it enabled.\<close>

theorem addEdge_refines:
  assumes "wf_graph g" "u < num_nodes g" "v < num_nodes g" "i0 < 0 \<or> \<not> isEdge g (nat i0)"
  shows "\<exists>i g'. addEdge u v i0 w g = Some (i, g') \<and> wf_graph g' \<and>
           (\<forall>j x y. declares g' j x y \<longleftrightarrow> declares g j x y \<or> (j, x, y) = (i, u, v)) \<and>
           \<not> isEdge g i \<and> arcs g' = insert (u, i, v) (arcs g)"
  using addEdge_correct [OF assms refl, of w] by blast

theorem addEdge_refines_witness:
  "\<exists>i g'. addEdge 0 2 7 5 triangle = Some (i, g') \<and> \<not> isEdge triangle i \<and> arcs g' = insert (0, i, 2) (arcs triangle)"
  using addEdge_refines [OF wf_triangle, of 0 2 7 5] by (auto simp: triangle_eval isEdge_def)

text \<open>C24: undoing a change. \<open>undoDisableEdge\<close> right after \<open>disableEdge\<close> of an enabled edge gives back exactly
  the old graph. \<open>undoEnableEdge\<close> right after \<open>enableEdge\<close> gives it back except for \<open>additions\<close>, which keeps the
  counter of the undone change, because \<open>enableEdge\<close> stores the new value in \<open>prev_mod\<close>.\<close>

theorem undo_roundtrip:
  assumes "wf_graph g" "isEdge g i"
  shows "if edge_status g ! i
         then \<exists>g'. disableEdge i g = Some g' \<and> undoDisableEdge i g' = Some (True, g)
         else \<exists>g'. enableEdge i g = Some g' \<and>
                undoEnableEdge i g' = Some (True, g\<lparr>additions := modifications g + 1\<rparr>)"
proof -
  have i: "i < length (all_edges g)" "i < length (edge_status g)"
    using assms by (auto simp: isEdge_def wf_graph_lengths)
  then have "(edge_status g)[i := edge_status g ! i] = edge_status g" by simp
  then show ?thesis
    using i by (cases "edge_status g ! i")
      (auto simp: disableEdge_def enableEdge_def getEdge_def disableEdge3_def enableEdge3_def Let_def
        undoDisableEdge_def undoEnableEdge_def)
qed

theorem undo_roundtrip_witness:
  "\<exists>g'. disableEdge 0 triangle = Some g' \<and> undoDisableEdge 0 g' = Some (True, triangle)"
  using undo_roundtrip [OF wf_triangle declares_isEdge [OF triangle_declares(1)]] by (simp add: triangle_eval)

theorem edge_queries_correct_witness:
  "hasEdge2 triangle 0 1 = Some (\<exists>i. (0, i, 1) \<in> arcs triangle)"
  using edge_queries_correct [OF wf_triangle, of 0 1] by (simp add: triangle_eval)

subsection \<open>Clearing and copying\<close>

lemma wf_clear: "wf_graph g \<Longrightarrow> wf_graph (clear g) \<and> arcs (clear g) = {}"
  by (auto simp: clear_def clearHistory_def invalidate_def wf_graph_def isEdge_def arcs_def declares_def)

text \<open>\<open>copyTo\<close> copies the declared edges and their status, but neither \<open>weights\<close> nor \<open>edge_status_const\<close>: the weight
  of an edge of the copy is whatever the target held for that identifier, or outside the vector.\<close>

lemma copyTo_arcs: "arcs (copyTo g t) = arcs g"
  by (simp add: copyTo_def arcs_def declares_def)

lemma copyTo_weights: "weights (copyTo g t) = weights t \<and> edge_status_const (copyTo g t) = edge_status_const t"
  by (simp add: copyTo_def clear_def clearHistory_def invalidate_def)

end
