(* ===== verification/Graph_Walks.thy ===== *)
theory Graph_Walks
  imports Monosat_Prelude
begin

text \<open>
  Walks and cycles in a multigraph given as a set of arcs (source, identifier, target): what the cycle
  detection algorithms of \<open>dgl/\<close> are specified against, and the two criteria by which a depth-first search
  that found nothing proves that there is no cycle.
\<close>

type_synonym arc = "nat \<times> nat \<times> nat"

fun walk :: "arc set \<Rightarrow> nat \<Rightarrow> nat list \<Rightarrow> nat \<Rightarrow> bool" where
  "walk E u [] v \<longleftrightarrow> u = v"
| "walk E u (i # p) v \<longleftrightarrow> (\<exists>w. (u, i, w) \<in> E \<and> walk E w p v)"

definition dicycle :: "arc set \<Rightarrow> nat list \<Rightarrow> bool" where
  "dicycle E p \<longleftrightarrow> p \<noteq> [] \<and> (\<exists>u. walk E u p u)"

definition undir :: "arc set \<Rightarrow> arc set" where
  "undir E = {(u, i, v). (u, i, v) \<in> E \<or> (v, i, u) \<in> E}"

definition ucycle :: "arc set \<Rightarrow> nat list \<Rightarrow> bool" where
  "ucycle E p \<longleftrightarrow> distinct p \<and> dicycle (undir E) p"

lemma walk_append: "walk E u (p @ r) v \<longleftrightarrow> (\<exists>w. walk E u p w \<and> walk E w r v)"
  by (induction p arbitrary: u) auto

lemma walk_mono: "E \<subseteq> F \<Longrightarrow> walk E u p v \<Longrightarrow> walk F u p v"
  by (induction p arbitrary: u) auto

lemma dicycle_mono: "E \<subseteq> F \<Longrightarrow> dicycle E p \<Longrightarrow> dicycle F p"
  by (auto simp: dicycle_def intro: walk_mono)

lemma undir_mono: "E \<subseteq> F \<Longrightarrow> undir E \<subseteq> undir F"
  by (auto simp: undir_def)

lemma undir_sym: "(u, i, v) \<in> undir E \<longleftrightarrow> (v, i, u) \<in> undir E"
  by (auto simp: undir_def)

lemma ucycle_mono: "E \<subseteq> F \<Longrightarrow> ucycle E p \<Longrightarrow> ucycle F p"
  by (auto simp: ucycle_def intro: dicycle_mono [OF undir_mono])

lemma dicycle_edges: "dicycle E p \<Longrightarrow> i \<in> set p \<Longrightarrow> \<exists>u v. (u, i, v) \<in> E"
proof -
  have "walk E u p v \<Longrightarrow> i \<in> set p \<Longrightarrow> \<exists>u v. (u, i, v) \<in> E" for u v
    by (induction p arbitrary: u) auto
  then show "dicycle E p \<Longrightarrow> i \<in> set p \<Longrightarrow> \<exists>u v. (u, i, v) \<in> E" by (auto simp: dicycle_def)
qed

text \<open>A cycle can be rotated to start at any of its edges.\<close>

lemma dicycle_rotate: "dicycle E (p @ r) \<Longrightarrow> dicycle E (r @ p)"
  by (auto simp: dicycle_def walk_append)

text \<open>A potential that strictly grows along every arc excludes directed cycles.\<close>

lemma walk_rank:
  assumes "\<And>u i v. (u, i, v) \<in> E \<Longrightarrow> rank u < (rank v :: 'a :: order)"
  shows "walk E u p v \<Longrightarrow> p \<noteq> [] \<Longrightarrow> rank u < rank v"
proof (induction p arbitrary: u)
  case (Cons i p)
  then obtain w where w: "(u, i, w) \<in> E" "walk E w p v" by auto
  then have "rank u < rank w" using assms by blast
  moreover have "rank w \<le> rank v" using w Cons.IH [of w] by (cases "p = []") auto
  ultimately show ?case by order
qed simp

lemma rank_no_dicycle:
  assumes "\<And>u i v. (u, i, v) \<in> E \<Longrightarrow> rank u < (rank v :: 'a :: order)"
  shows "\<not> dicycle E p"
proof
  assume "dicycle E p"
  then obtain u where "walk E u p u" "p \<noteq> []" by (auto simp: dicycle_def)
  with walk_rank [of E rank] assms have "rank u < rank u" by blast
  then show False by simp
qed

text \<open>\<open>finished E up ds\<close>: the nodes \<open>ds\<close> were completed in this order. Every arc of a completed node leads to a node
  completed before it, with the exception of at most one edge, \<open>up x\<close>, by which a search on the undirected
  graph entered the node.\<close>

definition finished :: "arc set \<Rightarrow> (nat \<Rightarrow> nat option) \<Rightarrow> nat list \<Rightarrow> bool" where
  "finished E up ds \<longleftrightarrow> distinct ds \<and>
     (\<forall>k < length ds. \<forall>i y. (ds ! k, i, y) \<in> E \<and> up (ds ! k) \<noteq> Some i \<longrightarrow> y \<in> set (take k ds))"

lemma finished_Nil [simp]: "finished E up []"
  by (simp add: finished_def)

lemma finished_snoc:
  assumes "finished E up ds" "x \<notin> set ds" "\<And>i y. (x, i, y) \<in> E \<Longrightarrow> up' x \<noteq> Some i \<Longrightarrow> y \<in> set ds"
    "\<And>y. y \<in> set ds \<Longrightarrow> up' y = up y"
  shows "finished E up' (ds @ [x])"
proof -
  have "up' (ds ! k) = up (ds ! k)" if "k < length ds" for k using assms(4) that by simp
  then show ?thesis using assms(1-3) by (auto simp: finished_def nth_append less_Suc_eq)
qed

text \<open>The position in \<open>ds\<close> of a node.\<close>

definition index_of :: "nat list \<Rightarrow> nat \<Rightarrow> nat" where
  "index_of ds x = (LEAST k. k < length ds \<and> ds ! k = x)"

lemma index_of_nth: "x \<in> set ds \<Longrightarrow> index_of ds x < length ds \<and> ds ! index_of ds x = x"
  unfolding index_of_def by (rule LeastI_ex) (auto simp: in_set_conv_nth)

lemma index_of_take: "x \<in> set (take k ds) \<Longrightarrow> index_of ds x < k"
proof -
  assume "x \<in> set (take k ds)"
  then obtain j where "j < k" "j < length ds" "ds ! j = x" by (auto simp: in_set_conv_nth)
  then show ?thesis unfolding index_of_def by (intro le_less_trans [OF Least_le]) auto
qed

lemma finished_index:
  assumes "finished E up ds" "(x, i, y) \<in> E" "x \<in> set ds" "up x \<noteq> Some i"
  shows "y \<in> set ds \<and> index_of ds y < index_of ds x"
proof -
  have "y \<in> set (take (index_of ds x) ds)"
    using assms index_of_nth [OF assms(3)] unfolding finished_def by metis
  then show ?thesis using index_of_take in_set_takeD by fast
qed

lemma finished_no_dicycle:
  assumes "finished E (\<lambda>_. None) ds" "\<And>u i v. (u, i, v) \<in> E \<Longrightarrow> u \<in> set ds"
  shows "\<not> dicycle E p"
proof (rule rank_no_dicycle [where rank = "\<lambda>x. length ds - index_of ds x"])
  fix u i v assume "(u, i, v) \<in> E"
  then show "length ds - index_of ds u < length ds - index_of ds v"
    using finished_index [OF assms(1), of u i v] assms(2) index_of_nth [of u ds] by fastforce
qed


lemma finished_no_ucycle:
  assumes fin: "finished (undir E) up ds" and all: "\<And>u i v. (u, i, v) \<in> undir E \<Longrightarrow> u \<in> set ds"
    and loop: "\<And>x i. up x = Some i \<Longrightarrow> (x, i, x) \<notin> E"
  shows "\<not> ucycle E p"
proof
  let ?P = "\<lambda>x. \<exists>r. r \<noteq> [] \<and> distinct r \<and> walk (undir E) x r x"
  assume "ucycle E p"
  then have "\<exists>x. ?P x" by (auto simp: ucycle_def dicycle_def)
  then obtain x r where r: "r \<noteq> []" "distinct r" "walk (undir E) x r x"
    and least: "\<And>y. ?P y \<Longrightarrow> index_of ds x \<le> index_of ds y"
    using ex_has_least_nat [of ?P _ "index_of ds"] by blast
  from r(1) obtain i r1 where r1: "r = i # r1" by (cases r) auto
  from r(1) obtain r2 j where r2: "r = r2 @ [j]" by (cases r rule: rev_cases) auto
  obtain w where w: "(x, i, w) \<in> undir E" "walk (undir E) w r1 x" using r(3) r1 by auto
  obtain y where y: "walk (undir E) x r2 y" "(y, j, x) \<in> undir E" using r(3) r2 by (auto simp: walk_append)
  have "?P w" using w r(2) r1 by (intro exI [of _ "r1 @ [i]"]) (auto simp: walk_append)
  moreover have "?P y" using y r(2) r2 by (intro exI [of _ "j # r2"]) auto
  ultimately have le: "index_of ds x \<le> index_of ds w" "index_of ds x \<le> index_of ds y" using least by blast+
  have x: "x \<in> set ds" using all w(1) by blast
  have i: "up x = Some i" using finished_index [OF fin w(1) x] le(1) by fastforce
  moreover have "up x = Some j"
    using finished_index [OF fin _ x, of j y] y(2) undir_sym [of y j x E] le(2) by fastforce
  ultimately have "i = j" by simp
  then have "r = [i]" using r(2) r1 r2 by (cases r2) auto
  then have "(x, i, x) \<in> undir E" using r(3) by simp
  then show False using loop [OF i] by (simp add: undir_def)
qed

end
