(* ===== verification/DFS_Cycle.thy ===== *)
theory DFS_Cycle
  imports Dynamic_Graph Graph_Walks
begin

text \<open>
  \<open>DFSCycle<Weight, Graph, directed, undirected>\<close> of \<open>dgl/DFSCycle.h\<close>, the depth-first cycle search, as an
  implementation of the interface \<open>Cycle\<close> of \<open>dgl/Cycle.h\<close>.

  The template flags are the arguments \<open>dir\<close> and \<open>und\<close>. The two copies of the search loop in \<open>computeCycles\<close>, on the
  directed and on the undirected adjacency lists, differ in the lists they read and in the test for the edge by
  which the node was entered; they are one group of definitions with the flag \<open>u\<close>. A search that reports a cycle
  returns \<open>Some\<close> the edges it stores in \<open>directed_cycle\<close> or \<open>undirected_cycle\<close>. The \<open>while\<close> and \<open>for\<close> loops are partial
  functions: \<open>None\<close> is an access outside a vector or a loop that never ends, and the search is proved to return.
\<close>

subsection \<open>State\<close>

record DFSCycle =
  d_last_modification :: int
  d_last_addition :: int
  d_last_deletion :: int
  d_history_qhead :: int
  d_last_history_clear :: int
  d_INF :: int
  q :: "nat list"
  path :: "nat list"
  undirected_cycle :: "nat list"
  directed_cycle :: "nat list"
  processed :: "nat list"
  seen :: "bool list"
  ever_seen :: "bool list"
  has_undirected_cycle :: bool
  has_directed_cycle :: bool
  undirected_prev :: "int list"
  d_stats_full_updates :: nat
  d_stats_skipped_updates :: nat

definition DFSCycle_init :: DFSCycle where
  "DFSCycle_init =
     \<lparr>d_last_modification = -1, d_last_addition = -1, d_last_deletion = -1, d_history_qhead = 0,
      d_last_history_clear = 0, d_INF = 0, q = [], path = [], undirected_cycle = [], directed_cycle = [],
      processed = [], seen = [], ever_seen = [], has_undirected_cycle = False, has_directed_cycle = False,
      undirected_prev = [], d_stats_full_updates = 0, d_stats_skipped_updates = 0\<rparr>"

definition dfs_setNodes :: "DynamicGraph \<Rightarrow> nat \<Rightarrow> DFSCycle \<Rightarrow> DFSCycle" where
  "dfs_setNodes g n s =
     s\<lparr>seen := vec_resize n False (seen s), processed := vec_resize n 0 (processed s),
       ever_seen := vec_resize n False (ever_seen s), undirected_prev := vec_resize n 0 (undirected_prev s),
       d_INF := int (nodes g) + 1\<rparr>"

definition reset_marks :: "DynamicGraph \<Rightarrow> DFSCycle \<Rightarrow> DFSCycle option" where
  "reset_marks g s =
     (let n = nodes g
      in if n \<le> length (seen s) \<and> n \<le> length (ever_seen s) \<and> n \<le> length (processed s) \<and>
            n \<le> length (undirected_prev s)
         then Some (s\<lparr>path := [], q := [], seen := replicate n False @ drop n (seen s),
                ever_seen := replicate n False @ drop n (ever_seen s),
                processed := replicate n 0 @ drop n (processed s),
                undirected_prev := replicate n (-1) @ drop n (undirected_prev s)\<rparr>)
         else None)"

subsection \<open>The search\<close>

fun find_start :: "nat \<Rightarrow> nat list \<Rightarrow> nat" where
  "find_start v [] = 0"
| "find_start v (x # xs) = (if x = v then 0 else Suc (find_start v xs))"

definition cycle_edges :: "nat \<Rightarrow> nat \<Rightarrow> DFSCycle \<Rightarrow> nat list" where
  "cycle_edges i v s =
     i # map (\<lambda>j. path s ! (j - 1)) (filter (\<lambda>j. seen s ! (q s ! j)) [find_start v (q s) + 1..<length (q s)])"

definition incr_processed :: "nat \<Rightarrow> DFSCycle \<Rightarrow> DFSCycle" where
  "incr_processed x s = s\<lparr>processed := (processed s)[x := processed s ! x + 1]\<rparr>"

definition push_node :: "nat \<Rightarrow> nat \<Rightarrow> DFSCycle \<Rightarrow> DFSCycle" where
  "push_node v i s =
     s\<lparr>seen := (seen s)[v := True], ever_seen := (ever_seen s)[v := True], q := q s @ [v], path := path s @ [i]\<rparr>"

definition push_root :: "nat \<Rightarrow> DFSCycle \<Rightarrow> DFSCycle" where
  "push_root k s = s\<lparr>q := q s @ [k], ever_seen := (ever_seen s)[k := True], seen := (seen s)[k := True]\<rparr>"

definition pop_node :: "nat \<Rightarrow> DFSCycle \<Rightarrow> DFSCycle" where
  "pop_node k s =
     (let x = last (q s)
      in s\<lparr>q := butlast (q s), path := (if x \<noteq> k then butlast (path s) else path s), seen := (seen s)[x := False]\<rparr>)"

partial_function (option) dfs_for ::
  "DynamicGraph \<Rightarrow> bool \<Rightarrow> nat option \<Rightarrow> nat \<Rightarrow> DFSCycle \<Rightarrow> (nat list option \<times> DFSCycle) option" where
  [code]: "dfs_for g u fromEdge x s =
     (if x = last (q s) then
        if x < length (processed s) then do {
          n \<leftarrow> nIncident g x u;
          if processed s ! x < n then do {
            e \<leftarrow> incident g x (processed s ! x) u;
            en \<leftarrow> (if hasEdge g (eid e) then edgeEnabled g (eid e) else Some False);
            if \<not> en \<or> (u \<and> fromEdge = Some (eid e)) then dfs_for g u fromEdge x (incr_processed x s)
            else if node e < length (seen s) \<and> node e < length (ever_seen s) then
              if \<not> seen s ! node e then dfs_for g u fromEdge x (incr_processed x (push_node (node e) (eid e) s))
              else Some (Some (cycle_edges (eid e) (node e) s), s)
            else None
          } else Some (None, s)
        } else None
      else Some (None, s))"

partial_function (option) dfs_while ::
  "DynamicGraph \<Rightarrow> bool \<Rightarrow> nat \<Rightarrow> DFSCycle \<Rightarrow> (nat list option \<times> DFSCycle) option" where
  [code]: "dfs_while g u k s =
     (if q s = [] then Some (None, s)
      else if last (q s) < length (processed s) then do {
        n \<leftarrow> nIncident g (last (q s)) u;
        if processed s ! last (q s) = n then dfs_while g u k (pop_node k s)
        else do {
          (r, s) \<leftarrow> dfs_for g u (if last (q s) \<noteq> k then Some (last (path s)) else None) (last (q s)) s;
          if r \<noteq> None then Some (r, s) else dfs_while g u k s
        }
      } else None)"

fun dfs_roots ::
  "DynamicGraph \<Rightarrow> bool \<Rightarrow> nat list \<Rightarrow> DFSCycle \<Rightarrow> (nat list option \<times> DFSCycle) option" where
  "dfs_roots g u [] s = Some (None, s)"
| "dfs_roots g u (k # ks) s =
     (if k < length (ever_seen s) then
        if ever_seen s ! k then dfs_roots g u ks s
        else do {
          (r, s) \<leftarrow> dfs_while g u k (push_root k s);
          if r \<noteq> None then Some (r, s) else dfs_roots g u ks s
        }
      else None)"

definition directed_search :: "DynamicGraph \<Rightarrow> DFSCycle \<Rightarrow> (nat list option \<times> DFSCycle) option" where
  "directed_search g s = dfs_roots g False [0..<nodes g] s"

definition undirected_search :: "DynamicGraph \<Rightarrow> DFSCycle \<Rightarrow> (nat list option \<times> DFSCycle) option" where
  "undirected_search g s = dfs_roots g True [0..<nodes g] s"

definition undirected_phase :: "bool \<Rightarrow> DynamicGraph \<Rightarrow> DFSCycle \<Rightarrow> DFSCycle option" where
  "undirected_phase und g s =
     (if und \<and> \<not> has_undirected_cycle s then do {
        s \<leftarrow> reset_marks g s;
        (r, s) \<leftarrow> undirected_search g s;
        case r of
          Some c \<Rightarrow> Some (s\<lparr>has_undirected_cycle := True, undirected_cycle := undirected_cycle s @ c\<rparr>)
        | None \<Rightarrow> Some s
      } else Some s)"

definition computeCycles :: "bool \<Rightarrow> bool \<Rightarrow> DynamicGraph \<Rightarrow> DFSCycle \<Rightarrow> DFSCycle option" where
  "computeCycles dir und g s = do {
     s \<leftarrow> reset_marks g s;
     let s = s\<lparr>directed_cycle := [], undirected_cycle := []\<rparr>;
     (r, s) \<leftarrow> (if dir then directed_search g s else Some (None, s));
     case r of
       Some c \<Rightarrow>
         let s = s\<lparr>has_directed_cycle := True, directed_cycle := c\<rparr>
         in Some (if und \<and> \<not> has_undirected_cycle s
                  then s\<lparr>has_undirected_cycle := True, undirected_cycle := directed_cycle s\<rparr> else s)
     | None \<Rightarrow>
         undirected_phase und g s
   }"

subsection \<open>The operations of \<open>Cycle\<close>\<close>

definition dfs_update :: "bool \<Rightarrow> bool \<Rightarrow> DynamicGraph \<Rightarrow> DFSCycle \<Rightarrow> DFSCycle option" where
  "dfs_update dir und g s =
     (if d_last_modification s > 0 \<and> getCurrentHistory g = d_last_modification s
      then Some (s\<lparr>d_stats_skipped_updates := d_stats_skipped_updates s + 1\<rparr>)
      else do {
        let s = (if d_last_modification s \<le> 0 \<or> changed g then dfs_setNodes g (nodes g) s else s);
        s \<leftarrow> computeCycles dir und g
              (s\<lparr>has_undirected_cycle := False, has_directed_cycle := False,
                 d_stats_full_updates := d_stats_full_updates s + 1\<rparr>);
        Some (s\<lparr>d_last_modification := getCurrentHistory g, d_last_deletion := nDeletions g,
               d_last_addition := nAdditions g, d_history_qhead := historySize g,
               d_last_history_clear := nHistoryClears g\<rparr>)
      })"

definition dfs_hasDirectedCycle :: "bool \<Rightarrow> bool \<Rightarrow> DynamicGraph \<Rightarrow> DFSCycle \<Rightarrow> (bool \<times> DFSCycle) option" where
  "dfs_hasDirectedCycle dir und g s = do { s \<leftarrow> dfs_update dir und g s; Some (has_directed_cycle s, s) }"

definition dfs_hasUndirectedCycle :: "bool \<Rightarrow> bool \<Rightarrow> DynamicGraph \<Rightarrow> DFSCycle \<Rightarrow> (bool \<times> DFSCycle) option" where
  "dfs_hasUndirectedCycle dir und g s = do { s \<leftarrow> dfs_update dir und g s; Some (has_undirected_cycle s, s) }"

definition dfs_getDirectedCycle :: "bool \<Rightarrow> bool \<Rightarrow> DynamicGraph \<Rightarrow> DFSCycle \<Rightarrow> (nat list \<times> DFSCycle) option" where
  "dfs_getDirectedCycle dir und g s = do { s \<leftarrow> dfs_update dir und g s; Some (directed_cycle s, s) }"

definition dfs_getUndirectedCycle :: "bool \<Rightarrow> bool \<Rightarrow> DynamicGraph \<Rightarrow> DFSCycle \<Rightarrow> (nat list \<times> DFSCycle) option" where
  "dfs_getUndirectedCycle dir und g s = do { s \<leftarrow> dfs_update dir und g s; Some (undirected_cycle s, s) }"

subsection \<open>The adjacency list a search reads\<close>

definition uarcs :: "DynamicGraph \<Rightarrow> bool \<Rightarrow> arc set" where
  "uarcs g u = (if u then undir (arcs g) else arcs g)"

definition row :: "DynamicGraph \<Rightarrow> bool \<Rightarrow> nat \<Rightarrow> Edge list" where
  "row g u x = (if u then adjacency_undirected_list g ! x else adjacency_list g ! x)"

lemma nIncident_row: "wf_graph g \<Longrightarrow> x < nodes g \<Longrightarrow> nIncident g x u = Some (length (row g u x))"
  by (simp add: nIncident_def vec_row_def row_def nodes_def wf_graph_lengths)

lemma incident_row:
  "wf_graph g \<Longrightarrow> x < nodes g \<Longrightarrow> m < length (row g u x) \<Longrightarrow> incident g x m u = Some (row g u x ! m)"
  by (cases u) (simp_all add: incident_def row_nth_def vec_row_def row_def nodes_def wf_graph_lengths)

lemma row_edge:
  assumes "wf_graph g" "x < nodes g" "e \<in> set (row g u x)"
  shows "hasEdge g (eid e)" "edgeEnabled g (eid e) = Some (edge_status g ! eid e)" "node e < nodes g"
proof -
  have d: "declares g (eid e) x (node e) \<or> declares g (eid e) (node e) x"
    using assms wf_graph_adj [OF assms(1), of x e] by (auto simp: row_def nodes_def split: if_splits)
  then show "hasEdge g (eid e)" by (auto simp: hasEdge_def dest: declares_isEdge)
  show "edgeEnabled g (eid e) = Some (edge_status g ! eid e)" "node e < nodes g"
    using d wf_graph_declares [OF assms(1)] by (auto simp: edgeEnabled_def nodes_def wf_graph_lengths [OF assms(1)])
qed

lemma row_uarcs:
  assumes "wf_graph g" "x < nodes g"
  shows "(x, i, y) \<in> uarcs g u \<longleftrightarrow> mkEdge y i \<in> set (row g u x) \<and> edge_status g ! i"
  using assms wf_graph_adj [OF assms(1), of x "mkEdge y i"] wf_graph_declares(3) [OF assms(1)]
  by (auto simp: uarcs_def row_def undir_def arcs_iff nodes_def wf_graph_lengths [OF assms(1)])

lemma uarcs_nodes: "wf_graph g \<Longrightarrow> (x, i, y) \<in> uarcs g u \<Longrightarrow> x < nodes g \<and> y < nodes g"
  using wf_graph_declares by (auto simp: uarcs_def undir_def arcs_iff nodes_def split: if_splits)

lemma uarcs_ends: "(a, i, b) \<in> uarcs g u \<Longrightarrow> (c, i, d) \<in> uarcs g u \<Longrightarrow> {a, b} = {c, d}"
  by (auto simp: uarcs_def undir_def arcs_iff dest: declares_unique split: if_splits)

lemma uarcs_undir: "uarcs g u \<subseteq> undir (arcs g)"
  by (auto simp: uarcs_def undir_def)

subsection \<open>The invariant of the search\<close>

text \<open>\<open>ds\<close> are the completed nodes in the order of completion and \<open>up\<close> the edge by which each was entered. A node
  on the stack has scanned a prefix of its list: every enabled edge of the prefix is the entry edge, or leads to
  a completed node, or to the next node of the stack.\<close>

definition entry :: "bool \<Rightarrow> DFSCycle \<Rightarrow> nat \<Rightarrow> nat option" where
  "entry u s j = (if u \<and> 0 < j then Some (path s ! (j - 1)) else None)"

definition scanned :: "DynamicGraph \<Rightarrow> bool \<Rightarrow> DFSCycle \<Rightarrow> nat list \<Rightarrow> nat \<Rightarrow> bool" where
  "scanned g u s ds j \<longleftrightarrow> (\<forall>m < processed s ! (q s ! j). let e = row g u (q s ! j) ! m in
     edge_status g ! eid e \<longrightarrow>
       entry u s j = Some (eid e) \<or> node e \<in> set ds \<or> (Suc j < length (q s) \<and> node e = q s ! Suc j))"

definition dfs_sizes :: "DynamicGraph \<Rightarrow> DFSCycle \<Rightarrow> bool" where
  "dfs_sizes g s \<longleftrightarrow> length (seen s) = nodes g \<and> length (ever_seen s) = nodes g \<and>
     length (processed s) = nodes g \<and> length (undirected_prev s) = nodes g"

definition stack_ok :: "DynamicGraph \<Rightarrow> bool \<Rightarrow> nat \<Rightarrow> DFSCycle \<Rightarrow> bool" where
  "stack_ok g u k s \<longleftrightarrow> dfs_sizes g s \<and> distinct (q s) \<and> set (q s) \<subseteq> {..<nodes g} \<and>
     (q s \<noteq> [] \<longrightarrow> hd (q s) = k) \<and> length (path s) = length (q s) - 1 \<and>
     (\<forall>j. Suc j < length (q s) \<longrightarrow> (q s ! j, path s ! j, q s ! Suc j) \<in> uarcs g u) \<and>
     (\<forall>x < nodes g. seen s ! x \<longleftrightarrow> x \<in> set (q s))"

definition search_inv ::
  "DynamicGraph \<Rightarrow> bool \<Rightarrow> nat \<Rightarrow> DFSCycle \<Rightarrow> nat list \<Rightarrow> (nat \<Rightarrow> nat option) \<Rightarrow> bool" where
  "search_inv g u k s ds up \<longleftrightarrow> stack_ok g u k s \<and> set ds \<subseteq> {..<nodes g} \<and>
     (\<forall>x < nodes g. ever_seen s ! x \<longleftrightarrow> x \<in> set (q s) \<or> x \<in> set ds) \<and>
     (\<forall>x < nodes g. processed s ! x \<le> length (row g u x)) \<and>
     (\<forall>x < nodes g. \<not> ever_seen s ! x \<longrightarrow> processed s ! x = 0) \<and>
     (\<forall>x \<in> set ds. processed s ! x = length (row g u x)) \<and>
     set (butlast (q s)) \<inter> set ds = {} \<and>
     finished (uarcs g u) up ds \<and>
     (\<forall>x i. up x = Some i \<longrightarrow> u \<and> (x, i, x) \<notin> arcs g) \<and>
     (\<forall>j < length (q s). q s ! j \<notin> set ds \<longrightarrow> scanned g u s ds j)"

lemma stack_sizes:
  assumes "stack_ok g u k s"
  shows "length (seen s) = nodes g" "length (ever_seen s) = nodes g" "length (processed s) = nodes g"
    "length (path s) = length (q s) - 1" "distinct (q s)"
  using assms by (simp_all add: stack_ok_def dfs_sizes_def)

lemma stack_top:
  assumes "stack_ok g u k s" "q s \<noteq> []"
  shows "last (q s) \<in> set (q s)" "last (q s) < nodes g"
proof -
  show t: "last (q s) \<in> set (q s)" using assms(2) by simp
  show "last (q s) < nodes g" using assms(1) subsetD [OF _ t] by (fastforce simp: stack_ok_def)
qed

lemma stack_top_index:
  assumes "stack_ok g u k s" "j < length (q s)" "q s ! j = last (q s)"
  shows "j = length (q s) - 1"
proof -
  have "q s \<noteq> []" using assms(2) by auto
  then show ?thesis
    using assms nth_eq_iff_index_eq [OF stack_sizes(5) [OF assms(1)], of j "length (q s) - 1"]
    by (simp add: last_conv_nth)
qed

lemma search_inv_stack: "search_inv g u k s ds up \<Longrightarrow> stack_ok g u k s"
  by (simp add: search_inv_def)

subsection \<open>A cycle on the stack\<close>

lemma find_start_nth: "v \<in> set xs \<Longrightarrow> find_start v xs < length xs \<and> xs ! find_start v xs = v"
  by (induction xs) auto

lemma map_nth_upt_drop: "map (\<lambda>j. xs ! (j - 1)) [a + 1..<length xs + 1] = drop a xs"
  by (rule nth_equalityI) (auto simp del: upt_Suc)

lemma cycle_edges_drop:
  assumes "stack_ok g u k s" "v \<in> set (q s)"
  shows "cycle_edges i v s = i # drop (find_start v (q s)) (path s)"
proof -
  have "seen s ! x" if "x \<in> set (q s)" for x
    using assms(1) that unfolding stack_ok_def by blast
  then have "filter (\<lambda>j. seen s ! (q s ! j)) [find_start v (q s) + 1..<length (q s)] =
      [find_start v (q s) + 1..<length (q s)]" by (simp add: filter_id_conv)
  moreover have "length (path s) + 1 = length (q s)" using assms by (cases "q s") (auto simp: stack_sizes)
  ultimately show ?thesis
    unfolding cycle_edges_def using map_nth_upt_drop [of "path s" "find_start v (q s)"] by simp
qed

lemma stack_walk:
  assumes "\<And>j. Suc j < length xs \<Longrightarrow> (xs ! j, p ! j, xs ! Suc j) \<in> E" "length p = length xs - 1" "a < length xs"
  shows "walk E (xs ! a) (drop a p) (last xs)"
  using assms(3)
proof (induction "length xs - a" arbitrary: a)
  case (Suc n)
  show ?case
  proof (cases "Suc a = length xs")
    case True
    then have "xs ! a = last xs" by (metis diff_Suc_1 last_conv_nth list.size(3) nat.distinct(1))
    then show ?thesis using True assms(2) by simp
  next
    case False
    then have a: "Suc a < length xs" using Suc.prems by simp
    then have "drop a p = p ! a # drop (Suc a) p" using assms(2) by (simp add: Cons_nth_drop_Suc)
    then show ?thesis using Suc.hyps(1) [of "Suc a"] Suc.hyps(2) a assms(1) [OF a] by auto
  qed
qed simp

lemma stack_path_distinct:
  assumes "stack_ok g u k s"
  shows "distinct (path s)"
proof -
  have "path s ! a \<noteq> path s ! b" if "a < b" "b < length (path s)" for a b
  proof
    assume eq: "path s ! a = path s ! b"
    have l: "Suc b < length (q s)" "Suc a < length (q s)" using that assms by (auto simp: stack_sizes)
    then have "{q s ! a, q s ! Suc a} = {q s ! b, q s ! Suc b}"
      using assms eq uarcs_ends by (metis (no_types, lifting) stack_ok_def)
    then show False
      using that l nth_eq_iff_index_eq [OF stack_sizes(5) [OF assms]] by (auto simp: doubleton_eq_iff)
  qed
  then show ?thesis by (metis distinct_conv_nth linorder_neqE_nat)
qed

lemma cycle_found:
  assumes "stack_ok g u k s" "q s \<noteq> []" "(last (q s), i, v) \<in> uarcs g u" "v \<in> set (q s)"
    "entry u s (length (q s) - 1) \<noteq> Some i"
  shows "distinct (cycle_edges i v s) \<and> dicycle (uarcs g u) (cycle_edges i v s)"
proof -
  let ?a = "find_start v (q s)"
  have a: "?a < length (q s)" "q s ! ?a = v" using find_start_nth [OF assms(4)] by auto
  have arc: "(q s ! j, path s ! j, q s ! Suc j) \<in> uarcs g u" if "Suc j < length (q s)" for j
    using assms(1) that by (simp add: stack_ok_def)
  have len: "length (path s) = length (q s) - 1" using assms(1) by (simp add: stack_sizes)
  have w: "walk (uarcs g u) v (drop ?a (path s)) (last (q s))"
    using stack_walk [of "q s" "path s" "uarcs g u" ?a] arc len a by simp
  have "i \<notin> set (path s)" if "u"
  proof
    assume "i \<in> set (path s)"
    then obtain j where j: "j < length (path s)" "path s ! j = i" by (auto simp: in_set_conv_nth)
    then have l: "Suc j < length (q s)" using len by simp
    have e: "{q s ! j, q s ! Suc j} = {last (q s), v}"
      using uarcs_ends [OF arc [OF l]] assms(3) j(2) by simp
    have "Suc j \<noteq> length (q s) - 1"
    proof
      assume h: "Suc j = length (q s) - 1"
      then have "length (q s) = Suc (Suc j)" by simp
      then show False using assms(5) that j(2) by (simp add: entry_def)
    qed
    then have "last (q s) \<noteq> q s ! j" "last (q s) \<noteq> q s ! Suc j"
      using l assms(2) nth_eq_iff_index_eq [OF stack_sizes(5) [OF assms(1)]] by (auto simp: last_conv_nth)
    then show False using e by (auto simp: doubleton_eq_iff)
  qed
  moreover have "i \<notin> set (path s)" if "\<not> u"
  proof
    assume "i \<in> set (path s)"
    then obtain j where j: "j < length (path s)" "path s ! j = i" by (auto simp: in_set_conv_nth)
    then have l: "Suc j < length (q s)" using len by simp
    have "q s ! j = last (q s)"
      using arc [OF l] assms(3) j(2) that by (auto simp: uarcs_def arcs_iff dest: declares_unique)
    then show False
      using l assms(2) nth_eq_iff_index_eq [OF stack_sizes(5) [OF assms(1)]] by (auto simp: last_conv_nth)
  qed
  ultimately have "i \<notin> set (drop ?a (path s))" by (meson in_set_dropD)
  then show ?thesis
    using w assms(3) stack_path_distinct [OF assms(1)]
    by (auto simp: cycle_edges_drop [OF assms(1,4)] dicycle_def)
qed


subsection \<open>The invariant is kept\<close>

lemma search_inv_incr:
  assumes inv: "search_inv g u k s ds up" and wf: "wf_graph g" and ne: "q s \<noteq> []"
    and top: "last (q s) = x" "x \<notin> set ds" "processed s ! x < length (row g u x)"
    and skip: "edge_status g ! eid (row g u x ! (processed s ! x)) \<Longrightarrow>
       entry u s (length (q s) - 1) = Some (eid (row g u x ! (processed s ! x)))"
  shows "search_inv g u k (incr_processed x s) ds up"
proof -
  note st = search_inv_stack [OF inv]
  have x: "x \<in> set (q s)" "x < nodes g" using stack_top [OF st ne] top(1) by simp_all
  have stk: "stack_ok g u k (incr_processed x s)"
    using st by (auto simp: stack_ok_def dfs_sizes_def incr_processed_def)
  have "scanned g u (incr_processed x s) ds j" if j: "j < length (q s)" "q s ! j \<notin> set ds" for j
  proof -
    have old: "scanned g u s ds j" using inv j by (simp add: search_inv_def)
    have en: "entry u (incr_processed x s) j = entry u s j" by (simp add: entry_def incr_processed_def)
    show ?thesis
    proof (cases "q s ! j = x")
      case True
      then have "j = length (q s) - 1"
        using stack_top_index [OF st j(1)] top(1) by simp
      then show ?thesis
        using old skip True x stack_sizes(3) [OF st] en
        by (auto simp: scanned_def incr_processed_def less_Suc_eq Let_def)
    next
      case False
      then show ?thesis using old en by (simp add: scanned_def incr_processed_def)
    qed
  qed
  then show ?thesis
    using inv stk top(2,3) x stack_sizes(3) [OF st]
    unfolding search_inv_def
    by (auto simp: incr_processed_def nth_list_update)
qed

lemma search_inv_push:
  assumes inv: "search_inv g u k s ds up" and wf: "wf_graph g" and ne: "q s \<noteq> []"
    and top: "last (q s) = x" "x \<notin> set ds" "processed s ! x < length (row g u x)"
    and e: "e = row g u x ! (processed s ! x)" "edge_status g ! eid e" "node e \<notin> set (q s)"
  shows "search_inv g u k (incr_processed x (push_node (node e) (eid e) s)) ds up"
proof -
  define s' where s': "s' = incr_processed x (push_node (node e) (eid e) s)"
  let ?v = "node e"
  note st = search_inv_stack [OF inv]
  have x: "x \<in> set (q s)" "x < nodes g" using stack_top [OF st ne] top(1) by simp_all
  have erow: "e \<in> set (row g u x)" using e(1) top(3) by simp
  have v: "?v < nodes g" "?v \<noteq> x" using row_edge(3) [OF wf x(2) erow] e(3) x(1) by auto
  have arc: "(x, eid e, ?v) \<in> uarcs g u" using row_uarcs [OF wf x(2)] erow e(2) by simp
  have qn: "q s' = q s @ [?v]" "path s' = path s @ [eid e]" "seen s' = (seen s)[?v := True]"
    "ever_seen s' = (ever_seen s)[?v := True]" "processed s' = (processed s)[x := processed s ! x + 1]"
    "undirected_prev s' = undirected_prev s"
    by (simp_all add: s' incr_processed_def push_node_def)
  have lp: "length (path s) = length (q s) - 1" "length (q s) > 0" using st ne by (simp_all add: stack_sizes)
  have "(q s' ! j, path s' ! j, q s' ! Suc j) \<in> uarcs g u" if "Suc j < length (q s')" for j
  proof (cases "Suc j < length (q s)")
    case True
    then have "j < length (path s)" using lp by simp
    then show ?thesis using st True unfolding qn by (simp add: nth_append stack_ok_def)
  next
    case False
    then have jj: "j = length (q s) - 1" using that ne by (simp add: qn)
    then have "q s ! j = x" using top(1) ne by (simp add: last_conv_nth)
    with jj show ?thesis using lp arc unfolding qn by (simp add: nth_append)
  qed
  then have stk: "stack_ok g u k s'"
    using st v e(3) lp unfolding stack_ok_def dfs_sizes_def qn
    by (auto simp: nth_list_update hd_append)
  have "scanned g u s' ds j" if j: "j < length (q s')" "q s' ! j \<notin> set ds" for j
  proof (cases "j = length (q s)")
    case True
    then have "\<not> ever_seen s ! ?v" using inv e(3) j v(1) by (simp add: search_inv_def qn nth_append)
    then have "processed s ! ?v = 0" using inv v(1) by (simp add: search_inv_def)
    then show ?thesis using True v by (simp add: scanned_def qn nth_append)
  next
    case False
    then have jl: "j < length (q s)" using j(1) by (simp add: qn)
    then have qj: "q s' ! j = q s ! j" by (simp add: qn nth_append)
    then have old: "scanned g u s ds j" using inv j jl by (simp add: search_inv_def)
    have en: "entry u s' j = entry u s j" using jl lp by (auto simp: entry_def qn nth_append)
    show ?thesis
    proof (cases "q s ! j = x")
      case True
      then have jj: "j = length (q s) - 1"
        using stack_top_index [OF st jl] top(1) by simp
      then have "q s' ! Suc j = ?v" "Suc j < length (q s')" "\<not> Suc j < length (q s)" using lp by (auto simp: qn nth_append)
      then show ?thesis
        using old True x stack_sizes(3) [OF st] en qj e(1)
        by (auto simp: scanned_def qn(5) less_Suc_eq Let_def)
    next
      case False
      then have "Suc j < length (q s)"
        using top(1) ne jl by (metis Suc_lessI last_conv_nth diff_Suc_1)
      then have "q s' ! Suc j = q s ! Suc j" "Suc j < length (q s')" by (auto simp: qn nth_append)
      then show ?thesis using old en qj False \<open>Suc j < length (q s)\<close> by (simp add: scanned_def qn(5))
    qed
  qed
  moreover have "set (butlast (q s')) \<inter> set ds = {}"
  proof -
    have "set (q s) = insert x (set (butlast (q s)))"
      using ne top(1) by (metis append_butlast_last_id list.simps(15) rotate1.simps(2) set_rotate1)
    then show ?thesis using inv top(2) by (auto simp: search_inv_def qn)
  qed
  ultimately show ?thesis
    unfolding s' [symmetric] using inv stk v x top(2,3) stack_sizes(2,3) [OF st]
    unfolding search_inv_def by (auto simp: qn nth_list_update)
qed


lemma stack_pop:
  assumes st: "stack_ok g u k s" and ne: "q s \<noteq> []"
  shows "stack_ok g u k (pop_node k s)" "path (pop_node k s) = butlast (path s)"
proof -
  have k: "last (q s) \<noteq> k \<longleftrightarrow> 1 < length (q s)"
  proof -
    have "k = q s ! 0" using st ne by (simp add: stack_ok_def hd_conv_nth)
    then show ?thesis
      using stack_top_index [OF st, of 0] ne by (cases "length (q s) = 1") (auto simp: last_conv_nth)
  qed
  then show p: "path (pop_node k s) = butlast (path s)"
    using stack_sizes(4) [OF st] by (auto simp: pop_node_def Let_def)
  obtain ys x where qs: "q s = ys @ [x]" using ne by (cases "q s" rule: rev_cases) auto
  have f: "q (pop_node k s) = ys" "seen (pop_node k s) = (seen s)[x := False]"
    by (simp_all add: pop_node_def Let_def qs)
  have lp: "length (path s) = length ys" using stack_sizes(4) [OF st] by (simp add: qs)
  show "stack_ok g u k (pop_node k s)"
    unfolding stack_ok_def p f
  proof (intro conjI allI impI)
    show "dfs_sizes g (pop_node k s)" using st by (simp add: stack_ok_def dfs_sizes_def pop_node_def Let_def)
    show "distinct ys" using stack_sizes(5) [OF st] by (simp add: qs)
    show "set ys \<subseteq> {..<nodes g}" using st by (simp add: stack_ok_def qs)
    show "hd ys = k" if "ys \<noteq> []" using that st by (simp add: stack_ok_def qs)
    show "length (butlast (path s)) = length ys - 1" using lp by simp
    show "(ys ! j, butlast (path s) ! j, ys ! Suc j) \<in> uarcs g u" if j: "Suc j < length ys" for j
    proof -
      have "(q s ! j, path s ! j, q s ! Suc j) \<in> uarcs g u" using st j unfolding stack_ok_def by (simp add: qs)
      then show ?thesis using j lp by (simp add: nth_butlast qs nth_append)
    qed
    show "(seen s)[x := False] ! y \<longleftrightarrow> y \<in> set ys" if "y < nodes g" for y
      using that st by (auto simp: stack_ok_def dfs_sizes_def qs nth_list_update)
  qed
qed

lemma search_inv_pop:
  assumes inv: "search_inv g u k s ds up" and wf: "wf_graph g" and ne: "q s \<noteq> []"
    and top: "last (q s) = x" "processed s ! x = length (row g u x)"
  shows "\<exists>ds up. search_inv g u k (pop_node k s) ds up"
proof -
  define s' where s': "s' = pop_node k s"
  define ds' where ds': "ds' = (if x \<in> set ds then ds else ds @ [x])"
  define up' where up': "up' = (if x \<in> set ds then up else up(x := entry u s (length (q s) - 1)))"
  note st = search_inv_stack [OF inv]
  note stk = stack_pop [OF st ne, folded s']
  obtain ys where qs: "q s = ys @ [x]" using ne top(1) by (cases "q s" rule: rev_cases) auto
  have x: "x < nodes g" "x \<notin> set ys" using stack_top [OF st ne] stack_sizes(5) [OF st] by (simp_all add: qs)
  have f: "q s' = ys" "ever_seen s' = ever_seen s" "processed s' = processed s"
    by (simp_all add: s' pop_node_def Let_def qs)
  have sds: "set ds' = insert x (set ds)" by (auto simp: ds')
  have top_scanned: "entry u s (length ys) = Some i \<or> y \<in> set ds"
    if "x \<notin> set ds" "(x, i, y) \<in> uarcs g u" for i y
  proof -
    from that(2) obtain m where m: "m < length (row g u x)" "row g u x ! m = mkEdge y i" and "edge_status g ! i"
      using row_uarcs [OF wf x(1)] by (metis in_set_conv_nth)
    moreover have "scanned g u s ds (length ys)" using inv that(1) by (simp add: search_inv_def qs)
    ultimately show ?thesis using top(2) by (fastforce simp: scanned_def Let_def qs)
  qed
  have fin: "finished (uarcs g u) up' ds'"
  proof (cases "x \<in> set ds")
    case False
    have "finished (uarcs g u) up ds" using inv by (simp add: search_inv_def)
    moreover have "y \<in> set ds" if "(x, i, y) \<in> uarcs g u" "entry u s (length ys) \<noteq> Some i" for i y
      using top_scanned [OF False that(1)] that(2) by blast
    ultimately have "finished (uarcs g u) (up(x := entry u s (length ys))) (ds @ [x])"
      using False by (intro finished_snoc [of _ up]) auto
    then show ?thesis using False by (simp add: up' ds' qs)
  qed (use inv in \<open>simp add: search_inv_def up' ds'\<close>)
  have loop: "u \<and> (y, i, y) \<notin> arcs g" if "up' y = Some i" for y i
  proof (cases "x \<notin> set ds \<and> y = x")
    case True
    then have e: "u" "0 < length ys" "path s ! (length ys - 1) = i"
      using that by (auto simp: up' entry_def qs split: if_splits)
    let ?j = "length ys - 1"
    have "Suc ?j < length (q s)" using e(2) by (simp add: qs)
    then have "(q s ! ?j, path s ! ?j, q s ! Suc ?j) \<in> uarcs g u" using st unfolding stack_ok_def by blast
    then have "(ys ! ?j, i, x) \<in> uarcs g u" using e by (simp add: qs nth_append)
    moreover have "ys ! ?j \<noteq> x" using x(2) e(2) by (metis diff_less nth_mem zero_less_one)
    ultimately have "(x, i, x) \<notin> uarcs g u" using uarcs_ends [of "ys ! ?j" i x g u x x] by auto
    then show ?thesis using e(1) True by (simp add: uarcs_def undir_def)
  next
    case False
    then have "up y = Some i" using that by (auto simp: up' split: if_splits)
    then show ?thesis using inv by (simp add: search_inv_def)
  qed
  have "scanned g u s' ds' j" if j: "j < length ys" "ys ! j \<notin> set ds'" for j
  proof -
    have "scanned g u s ds j" using inv j by (simp add: search_inv_def qs sds nth_append)
    moreover have "q s ! Suc j = (if Suc j < length ys then ys ! Suc j else x)"
      using j by (auto simp: qs nth_append)
    moreover have "entry u s' j = entry u s j"
      using j stack_sizes(4) [OF st] by (auto simp: entry_def stk(2) nth_butlast qs)
    ultimately show ?thesis
      using j(1) by (auto simp: scanned_def f Let_def sds qs nth_append split: if_splits)
  qed
  moreover have "set (butlast ys) \<inter> set ds' = {}"
    using inv x(2) by (auto simp: search_inv_def sds qs dest: in_set_butlastD)
  moreover have "\<forall>y < nodes g. ever_seen s ! y \<longleftrightarrow> y \<in> set ys \<or> y \<in> set ds'"
    using inv by (auto simp: search_inv_def qs sds)
  ultimately have "search_inv g u k s' ds' up'"
    using inv stk(1) fin loop x(1) top(2) unfolding search_inv_def f sds by simp
  then show ?thesis unfolding s' by blast
qed


subsection \<open>The loops return\<close>

definition remaining :: "DynamicGraph \<Rightarrow> bool \<Rightarrow> DFSCycle \<Rightarrow> nat" where
  "remaining g u s = (\<Sum>x < nodes g. length (row g u x) - processed s ! x)"

lemma remaining_incr:
  assumes "x < nodes g" "length (processed s) = nodes g" "processed s ! x < length (row g u x)"
    "processed s' = (processed s)[x := processed s ! x + 1]"
  shows "remaining g u s' < remaining g u s"
  unfolding remaining_def
  by (rule sum_strict_mono_ex1) (use assms in \<open>auto simp: nth_list_update intro!: bexI [of _ x]\<close>)

lemma fromEdge_entry:
  assumes "stack_ok g u k s" "q s \<noteq> []"
  shows "(if u then (if last (q s) \<noteq> k then Some (last (path s)) else None) else None) = entry u s (length (q s) - 1)"
proof -
  have l: "length (path s) = length (q s) - 1" using assms by (simp add: stack_sizes)
  have "k = q s ! 0" using assms by (simp add: stack_ok_def hd_conv_nth)
  then have "last (q s) \<noteq> k \<longleftrightarrow> 0 < length (q s) - 1"
    using stack_top_index [OF assms(1), of 0] assms(2) by (cases "length (q s) = 1") (auto simp: last_conv_nth)
  then show ?thesis using l by (cases "path s = []") (auto simp: entry_def last_conv_nth)
qed

definition flags :: "DFSCycle \<Rightarrow> bool \<times> nat list \<times> bool \<times> nat list" where
  "flags s = (has_undirected_cycle s, undirected_cycle s, has_directed_cycle s, directed_cycle s)"

definition keeps :: "DFSCycle \<Rightarrow> DFSCycle \<Rightarrow> bool" where
  "keeps s s' \<longleftrightarrow> flags s' = flags s \<and> length (ever_seen s') = length (ever_seen s) \<and>
     (\<forall>x < length (ever_seen s). ever_seen s ! x \<longrightarrow> ever_seen s' ! x)"

lemma keeps_refl [simp]: "keeps s s"
  by (simp add: keeps_def)

lemma keeps_trans: "keeps s s' \<Longrightarrow> keeps s' s'' \<Longrightarrow> keeps s s''"
  by (simp add: keeps_def)

lemma mark_mono: "x < length xs \<Longrightarrow> xs ! x \<Longrightarrow> xs[v := True] ! x"
  by (cases "v = x") auto

lemma dfs_for_returns:
  assumes "wf_graph g" "search_inv g u k s ds up" "q s \<noteq> []" "last (q s) = x"
    "processed s ! x < length (row g u x)"
    "(if u then fe else None) = entry u s (length (q s) - 1)"
  shows "(\<exists>c s'. dfs_for g u fe x s = Some (Some c, s') \<and> distinct c \<and> dicycle (uarcs g u) c \<and> dfs_sizes g s' \<and>
            keeps s s') \<or>
         (\<exists>s'. dfs_for g u fe x s = Some (None, s') \<and> search_inv g u k s' ds up \<and>
            remaining g u s' < remaining g u s \<and> length (q s') \<le> length (q s) + 1 \<and>
            keeps s s')"
  using assms
proof (induction "length (row g u x) - processed s ! x" arbitrary: s rule: less_induct)
  case less
  note wf = less.prems(1) and inv = less.prems(2)
  note st = search_inv_stack [OF inv]
  have x: "x < nodes g" "x \<in> set (q s)" using stack_top [OF st less.prems(3)] less.prems(4) by simp_all
  have xd: "x \<notin> set ds" using inv less.prems(5) by (auto simp: search_inv_def)
  let ?e = "row g u x ! (processed s ! x)"
  have er: "?e \<in> set (row g u x)" using less.prems(5) by simp
  note re = row_edge [OF wf x(1) er]
  have step: "dfs_for g u fe x s =
      (if \<not> edge_status g ! eid ?e \<or> (u \<and> fe = Some (eid ?e)) then dfs_for g u fe x (incr_processed x s)
       else if \<not> seen s ! node ?e then dfs_for g u fe x (incr_processed x (push_node (node ?e) (eid ?e) s))
       else Some (Some (cycle_edges (eid ?e) (node ?e) s), s))"
    using less.prems(4,5) x re stack_sizes [OF st]
    by (subst dfs_for.simps) (cases u; simp add: nIncident_row [OF wf] incident_row [OF wf])
  have stop: "dfs_for g u fe x s' = Some (None, s')" if "length (processed s') = nodes g" "last (q s') \<noteq> x \<or> processed s' ! x = length (row g u x)" for s'
    using that x by (subst dfs_for.simps) (auto simp: nIncident_row [OF wf])
  show ?case
  proof (cases "\<not> edge_status g ! eid ?e \<or> (u \<and> fe = Some (eid ?e))")
    case True
    let ?s = "incr_processed x s"
    have inv': "search_inv g u k ?s ds up"
      using True less.prems(6) by (intro search_inv_incr [OF inv wf less.prems(3,4) xd less.prems(5)]) auto
    have f: "q ?s = q s" "path ?s = path s" "processed ?s ! x = processed s ! x + 1"
      "keeps s ?s"
      using x stack_sizes [OF st] by (simp_all add: incr_processed_def keeps_def flags_def)
    have rem: "remaining g u ?s < remaining g u s"
      by (rule remaining_incr [OF x(1) stack_sizes(3) [OF st] less.prems(5)]) (simp add: incr_processed_def)
    show ?thesis
    proof (cases "processed ?s ! x = length (row g u x)")
      case t: True
      then show ?thesis
        using stop [of ?s] stack_sizes(3) [OF search_inv_stack [OF inv']] inv' rem True step f by auto
    next
      case t: False
      then have "processed ?s ! x < length (row g u x)" "length (row g u x) - processed ?s ! x < length (row g u x) - processed s ! x"
        using less.prems(5) f(3) by auto
      moreover have "(if u then fe else None) = entry u ?s (length (q ?s) - 1)"
        using less.prems(6) by (simp add: entry_def f)
      ultimately show ?thesis
        using less.hyps [of ?s, OF _ wf inv'] less.prems(3,4) rem True step keeps_trans [OF f(4)] unfolding f(1-3) by (auto intro: less_trans)
    qed
  next
    case False
    then have en: "edge_status g ! eid ?e" "entry u s (length (q s) - 1) \<noteq> Some (eid ?e)"
      using less.prems(6) by (auto simp: entry_def split: if_splits)
    show ?thesis
    proof (cases "seen s ! node ?e")
      case True
      then have "node ?e \<in> set (q s)" using st re(3) by (simp add: stack_ok_def)
      moreover have "(last (q s), eid ?e, node ?e) \<in> uarcs g u"
        using row_uarcs [OF wf x(1)] er en(1) less.prems(4) by simp
      ultimately have "distinct (cycle_edges (eid ?e) (node ?e) s) \<and> dicycle (uarcs g u) (cycle_edges (eid ?e) (node ?e) s)"
        using cycle_found [OF st less.prems(3)] en(2) by blast
      moreover have "dfs_sizes g s" using st by (simp add: stack_ok_def)
      ultimately show ?thesis using step False True by auto
    next
      case n: False
      then have v: "node ?e \<notin> set (q s)" using st re(3) by (simp add: stack_ok_def)
      let ?s = "incr_processed x (push_node (node ?e) (eid ?e) s)"
      have inv': "search_inv g u k ?s ds up"
        by (rule search_inv_push [OF inv wf less.prems(3,4) xd less.prems(5) refl en(1) v])
      have rem: "remaining g u ?s < remaining g u s"
        by (rule remaining_incr [OF x(1) stack_sizes(3) [OF st] less.prems(5)]) (simp add: incr_processed_def push_node_def)
      have "last (q ?s) \<noteq> x" "length (q ?s) = length (q s) + 1"
        "keeps s ?s"
        using v x by (auto simp: incr_processed_def push_node_def keeps_def flags_def mark_mono)
      then show ?thesis
        using stop [of ?s] stack_sizes(3) [OF search_inv_stack [OF inv']] inv' rem False n step by auto
    qed
  qed
qed


lemma dfs_while_returns:
  assumes "wf_graph g" "search_inv g u k s ds up"
  shows "(\<exists>c s'. dfs_while g u k s = Some (Some c, s') \<and> distinct c \<and> dicycle (uarcs g u) c \<and> dfs_sizes g s' \<and> keeps s s') \<or>
         (\<exists>s' ds up. dfs_while g u k s = Some (None, s') \<and> search_inv g u k s' ds up \<and> q s' = [] \<and> keeps s s')"
  using assms
proof (induction "2 * remaining g u s + length (q s)" arbitrary: s ds up rule: less_induct)
  case less
  note wf = less.prems(1) and inv = less.prems(2)
  note st = search_inv_stack [OF inv]
  let ?x = "last (q s)"
  show ?case
  proof (cases "q s = []")
    case True
    then show ?thesis using inv by (subst dfs_while.simps, subst (2) dfs_while.simps) auto
  next
    case ne: False
    have x: "?x < nodes g" "?x < length (processed s)" using stack_top [OF st ne] stack_sizes(3) [OF st] by simp_all
    have le: "processed s ! ?x \<le> length (row g u ?x)" using inv x by (simp add: search_inv_def)
    let ?fe = "if ?x \<noteq> k then Some (last (path s)) else None"
    have step: "dfs_while g u k s =
        (if processed s ! ?x = length (row g u ?x) then dfs_while g u k (pop_node k s)
         else do { (r, s) \<leftarrow> dfs_for g u ?fe ?x s; if r \<noteq> None then Some (r, s) else dfs_while g u k s })"
      using ne x by (subst dfs_while.simps) (simp add: nIncident_row [OF wf])
    show ?thesis
    proof (cases "processed s ! ?x = length (row g u ?x)")
      case True
      obtain ds' up' where inv': "search_inv g u k (pop_node k s) ds' up'"
        using search_inv_pop [OF inv wf ne refl True] by blast
      have "2 * remaining g u (pop_node k s) + length (q (pop_node k s)) < 2 * remaining g u s + length (q s)"
        using ne by (simp add: remaining_def pop_node_def Let_def)
      moreover have "keeps s (pop_node k s)" by (simp add: keeps_def flags_def pop_node_def Let_def)
      ultimately show ?thesis
        using less.hyps [OF _ wf inv'] step True keeps_trans by (auto 0 3)
    next
      case False
      then have "processed s ! ?x < length (row g u ?x)" using le by simp
      from dfs_for_returns [OF wf inv ne refl this, of ?fe] fromEdge_entry [OF st ne]
      consider (found) c s' where "dfs_for g u ?fe ?x s = Some (Some c, s')" "distinct c" "dicycle (uarcs g u) c"
          "dfs_sizes g s'" "keeps s s'"
        | (more) s' where "dfs_for g u ?fe ?x s = Some (None, s')" "search_inv g u k s' ds up"
          "remaining g u s' < remaining g u s" "length (q s') \<le> length (q s) + 1" "keeps s s'"
        by fastforce
      then show ?thesis
      proof cases
        case found
        then show ?thesis using step False by simp
      next
        case more
        then have "2 * remaining g u s' + length (q s') < 2 * remaining g u s + length (q s)" by simp
        from less.hyps [OF this wf more(2)] show ?thesis
          using more step False keeps_trans [OF more(5)] by auto
      qed
    qed
  qed
qed

lemma search_inv_root:
  assumes inv: "search_inv g u k0 s ds up" and "q s = []" "k < nodes g" "\<not> ever_seen s ! k"
  shows "search_inv g u k (push_root k s) ds up"
proof -
  have "path s = []" using search_inv_stack [OF inv] assms(2) by (simp add: stack_ok_def)
  moreover have "processed s ! k = 0" using inv assms by (simp add: search_inv_def)
  ultimately show ?thesis
    using assms unfolding search_inv_def stack_ok_def dfs_sizes_def
    by (auto simp: push_root_def nth_list_update scanned_def)
qed

lemma dfs_roots_returns:
  assumes "wf_graph g" "search_inv g u k0 s ds up" "q s = []" "set ks \<subseteq> {..<nodes g}"
  shows "(\<exists>c s'. dfs_roots g u ks s = Some (Some c, s') \<and> distinct c \<and> dicycle (uarcs g u) c \<and> dfs_sizes g s' \<and> keeps s s') \<or>
         (\<exists>k s' ds up. dfs_roots g u ks s = Some (None, s') \<and> search_inv g u k s' ds up \<and> q s' = [] \<and> keeps s s' \<and>
            (\<forall>x \<in> set ks. ever_seen s' ! x))"
  using assms(2-4)
proof (induction ks arbitrary: k0 s ds up)
  case Nil
  then show ?case by auto
next
  case (Cons k ks)
  have k: "k < nodes g" "k < length (ever_seen s)"
    using Cons.prems by (auto simp: stack_sizes [OF search_inv_stack [OF Cons.prems(1)]])
  show ?case
  proof (cases "ever_seen s ! k")
    case True
    then show ?thesis using Cons.IH [OF Cons.prems(1,2)] Cons.prems(3) k by (auto simp: keeps_def)
  next
    case False
    have kp: "keeps s (push_root k s)" by (simp add: keeps_def flags_def push_root_def mark_mono)
    have ek: "ever_seen (push_root k s) ! k" using k by (simp add: push_root_def)
    from dfs_while_returns [OF assms(1) search_inv_root [OF Cons.prems(1,2) k(1) False]]
    consider (found) c s' where "dfs_while g u k (push_root k s) = Some (Some c, s')" "distinct c" "dicycle (uarcs g u) c"
        "dfs_sizes g s'" "keeps (push_root k s) s'"
      | (more) s' ds' up' where "dfs_while g u k (push_root k s) = Some (None, s')" "search_inv g u k s' ds' up'"
        "q s' = []" "keeps (push_root k s) s'"
      by blast
    then show ?thesis
    proof cases
      case found
      then show ?thesis using k False keeps_trans [OF kp] by simp
    next
      case more
      have "keeps s s'" "ever_seen s' ! k" using keeps_trans [OF kp more(4)] ek more(4) k kp by (auto simp: keeps_def)
      then show ?thesis
        using Cons.IH [OF more(2,3)] Cons.prems(3) k False more(1) keeps_trans by (auto 0 4 simp: keeps_def)
    qed
  qed
qed


subsection \<open>The search decides cyclicity\<close>

definition is_cycle :: "bool \<Rightarrow> arc set \<Rightarrow> nat list \<Rightarrow> bool" where
  "is_cycle u E c \<longleftrightarrow> (if u then ucycle E c else dicycle E c)"

lemma search_correct:
  assumes "wf_graph g" "search_inv g u 0 s [] (\<lambda>_. None)" "q s = []"
  shows "(\<exists>c s'. dfs_roots g u [0..<nodes g] s = Some (Some c, s') \<and> distinct c \<and> is_cycle u (arcs g) c \<and>
            dfs_sizes g s' \<and> flags s' = flags s) \<or>
         (\<exists>s'. dfs_roots g u [0..<nodes g] s = Some (None, s') \<and> (\<forall>c. \<not> is_cycle u (arcs g) c) \<and>
            dfs_sizes g s' \<and> flags s' = flags s)"
proof -
  from dfs_roots_returns [OF assms, of "[0..<nodes g]"]
  consider (found) c s' where "dfs_roots g u [0..<nodes g] s = Some (Some c, s')" "distinct c" "dicycle (uarcs g u) c"
      "dfs_sizes g s'" "keeps s s'"
    | (none) k s' ds up where "dfs_roots g u [0..<nodes g] s = Some (None, s')" "search_inv g u k s' ds up" "q s' = []"
      "keeps s s'" "\<forall>x < nodes g. ever_seen s' ! x"
    by fastforce
  then show ?thesis
  proof cases
    case found
    then show ?thesis by (auto simp: is_cycle_def ucycle_def uarcs_def keeps_def)
  next
    case none
    have ds: "x \<in> set ds" if "x < nodes g" for x
      using none(2,3,5) that by (simp add: search_inv_def)
    have fin: "finished (uarcs g u) up ds" and up: "\<forall>x i. up x = Some i \<longrightarrow> u \<and> (x, i, x) \<notin> arcs g"
      using none(2) by (simp_all add: search_inv_def)
    have all: "x \<in> set ds" if "(x, i, y) \<in> uarcs g u" for x i y using uarcs_nodes [OF assms(1) that] ds by blast
    have "\<not> is_cycle u (arcs g) c" for c
    proof (cases u)
      case True
      then have "\<not> ucycle (arcs g) c"
        using fin all up by (intro finished_no_ucycle [of _ up ds]) (auto simp: uarcs_def)
      then show ?thesis using True by (simp add: is_cycle_def)
    next
      case False
      then have "up = (\<lambda>_. None)" using up by (metis not_Some_eq)
      then have "\<not> dicycle (arcs g) c"
        using fin all False by (intro finished_no_dicycle [of _ ds]) (auto simp: uarcs_def)
      then show ?thesis using False by (simp add: is_cycle_def)
    qed
    moreover have "dfs_sizes g s'" using search_inv_stack [OF none(2)] by (simp add: stack_ok_def)
    ultimately show ?thesis using none(1,4) by (auto simp: keeps_def)
  qed
qed

lemma reset_marks_inv:
  assumes "dfs_sizes g s"
  shows "\<exists>s'. reset_marks g s = Some s' \<and> search_inv g u 0 (s'\<lparr>directed_cycle := dc, undirected_cycle := uc\<rparr>) [] (\<lambda>_. None) \<and>
     q s' = [] \<and> dfs_sizes g s' \<and> flags s' = flags s"
  using assms
  by (auto simp: reset_marks_def Let_def dfs_sizes_def search_inv_def stack_ok_def flags_def)

definition dfs_valid :: "bool \<Rightarrow> bool \<Rightarrow> DynamicGraph \<Rightarrow> DFSCycle \<Rightarrow> bool" where
  "dfs_valid dir und g s \<longleftrightarrow>
     (dir \<longrightarrow> (if has_directed_cycle s then dicycle (arcs g) (directed_cycle s) else \<forall>c. \<not> dicycle (arcs g) c)) \<and>
     (und \<longrightarrow> (if has_undirected_cycle s then ucycle (arcs g) (undirected_cycle s) else \<forall>c. \<not> ucycle (arcs g) c))"

lemma undirected_phase_correct:
  assumes wf: "wf_graph g" and sz: "dfs_sizes g t" and fl: "flags t = (False, [], False, [])"
  shows "\<exists>s'. undirected_phase und g t = Some s' \<and> dfs_valid False und g s' \<and> dfs_sizes g s' \<and> \<not> has_directed_cycle s'"
proof (cases und)
  case True
  from reset_marks_inv [OF sz, where u = True and dc = "[]" and uc = "[]"]
  obtain t1 where t1: "reset_marks g t = Some t1" "flags t1 = flags t" "dfs_sizes g t1" "q t1 = []"
    "search_inv g True 0 (t1\<lparr>directed_cycle := [], undirected_cycle := []\<rparr>) [] (\<lambda>_. None)" by blast
  have "directed_cycle t1 = []" "undirected_cycle t1 = []" using t1(2) fl by (simp_all add: flags_def)
  then have "t1\<lparr>directed_cycle := [], undirected_cycle := []\<rparr> = t1" by simp
  then have i1: "search_inv g True 0 t1 [] (\<lambda>_. None)" using t1(5) by simp
  have u: "\<not> has_undirected_cycle t" using fl by (simp add: flags_def)
  from search_correct [OF wf i1 t1(4), folded undirected_search_def] t1(2) fl
  consider (found) c s' where "undirected_search g t1 = Some (Some c, s')" "ucycle (arcs g) c" "dfs_sizes g s'"
      "flags s' = (False, [], False, [])"
    | (none) s' where "undirected_search g t1 = Some (None, s')" "\<forall>c. \<not> ucycle (arcs g) c" "dfs_sizes g s'"
      "flags s' = (False, [], False, [])"
    by (auto simp: is_cycle_def)
  then show ?thesis
  proof cases
    case found
    then show ?thesis
      using t1(1) u True by (simp add: undirected_phase_def) (simp add: dfs_valid_def dfs_sizes_def flags_def)
  next
    case none
    then show ?thesis
      using t1(1) u True by (simp add: undirected_phase_def) (simp add: dfs_valid_def flags_def)
  qed
next
  case False
  then show ?thesis using sz fl by (simp add: undirected_phase_def dfs_valid_def flags_def)
qed

lemma computeCycles_correct:
  assumes wf: "wf_graph g" and sz: "dfs_sizes g s" and fl: "\<not> has_directed_cycle s" "\<not> has_undirected_cycle s"
  shows "\<exists>s'. computeCycles dir und g s = Some s' \<and> dfs_valid dir und g s' \<and> dfs_sizes g s'"
proof -
  from reset_marks_inv [OF sz, where u = False and dc = "[]" and uc = "[]"]
  obtain s1 where s1: "reset_marks g s = Some s1" "flags s1 = flags s" "dfs_sizes g s1" "q s1 = []"
     "search_inv g False 0 (s1\<lparr>directed_cycle := [], undirected_cycle := []\<rparr>) [] (\<lambda>_. None)" by blast
  define s2 where s2: "s2 = s1\<lparr>directed_cycle := [], undirected_cycle := []\<rparr>"
  have sz2: "dfs_sizes g s2" "q s2 = []" using s1(3,4) by (simp_all add: dfs_sizes_def s2)
  have f2: "flags s2 = (False, [], False, [])" using s1(2) fl by (simp add: flags_def s2)
  have cc: "computeCycles dir und g s = do {
     (r, s) \<leftarrow> (if dir then directed_search g s2 else Some (None, s2));
     case r of
       Some c \<Rightarrow>
         let s = s\<lparr>has_directed_cycle := True, directed_cycle := c\<rparr>
         in Some (if und \<and> \<not> has_undirected_cycle s
                  then s\<lparr>has_undirected_cycle := True, undirected_cycle := directed_cycle s\<rparr> else s)
     | None \<Rightarrow> undirected_phase und g s }"
    unfolding computeCycles_def s1(1) s2 by simp
  show ?thesis
  proof (cases dir)
    case True
    from search_correct [OF wf s1(5) [folded s2] sz2(2), folded directed_search_def] f2
    consider (found) c s' where "directed_search g s2 = Some (Some c, s')" "distinct c" "dicycle (arcs g) c"
        "dfs_sizes g s'" "flags s' = (False, [], False, [])"
      | (none) s' where "directed_search g s2 = Some (None, s')" "\<forall>c. \<not> dicycle (arcs g) c"
        "dfs_sizes g s'" "flags s' = (False, [], False, [])"
      by (auto simp: is_cycle_def)
    then show ?thesis
    proof cases
      case found
      have "ucycle (arcs g) c" using found(2,3) dicycle_mono [of "arcs g" "undir (arcs g)"] by (auto simp: ucycle_def undir_def)
      then show ?thesis
        using found True cc by (simp add: Let_def) (simp add: dfs_valid_def dfs_sizes_def flags_def)
    next
      case none
      from undirected_phase_correct [OF wf none(3,4), of und] none(1,2) True cc show ?thesis
        by (auto simp: dfs_valid_def)
    qed
  next
    case False
    from undirected_phase_correct [OF wf sz2(1) f2, of und] False cc show ?thesis by auto
  qed
qed

text \<open>\<open>dfs_ready\<close>: the object may be asked about \<open>g\<close>. Either it will resize its vectors, or they have the size of \<open>g\<close>;
  and if it will skip the update, its stored answer is right for \<open>g\<close>.\<close>

definition dfs_ready :: "bool \<Rightarrow> bool \<Rightarrow> DynamicGraph \<Rightarrow> DFSCycle \<Rightarrow> bool" where
  "dfs_ready dir und g s \<longleftrightarrow>
     (d_last_modification s \<le> 0 \<or> changed g \<or> dfs_sizes g s) \<and>
     (d_last_modification s > 0 \<and> getCurrentHistory g = d_last_modification s \<longrightarrow> dfs_valid dir und g s)"

lemma dfs_ready_init [simp]: "dfs_ready dir und g DFSCycle_init"
  by (simp add: dfs_ready_def DFSCycle_init_def)

lemma dfs_update_correct:
  assumes "wf_graph g" "dfs_ready dir und g s"
  shows "\<exists>s'. dfs_update dir und g s = Some s' \<and> dfs_valid dir und g s' \<and> dfs_ready dir und g s'"
proof (cases "d_last_modification s > 0 \<and> getCurrentHistory g = d_last_modification s")
  case True
  then show ?thesis
    using assms(2) by (auto simp: dfs_update_def dfs_ready_def dfs_valid_def dfs_sizes_def)
next
  case False
  let ?s = "if d_last_modification s \<le> 0 \<or> changed g then dfs_setNodes g (nodes g) s else s"
  let ?t = "?s\<lparr>has_undirected_cycle := False, has_directed_cycle := False, d_stats_full_updates := d_stats_full_updates ?s + 1\<rparr>"
  have "dfs_sizes g ?t" using assms(2) by (auto simp: dfs_ready_def dfs_sizes_def dfs_setNodes_def)
  from computeCycles_correct [OF assms(1) this, of dir und]
  obtain s' where s': "computeCycles dir und g ?t = Some s'" "dfs_valid dir und g s'" "dfs_sizes g s'" by auto
  define r where "r = s'\<lparr>d_last_modification := getCurrentHistory g, d_last_deletion := nDeletions g,
               d_last_addition := nAdditions g, d_history_qhead := historySize g,
               d_last_history_clear := nHistoryClears g\<rparr>"
  have "dfs_update dir und g s = Some r"
    unfolding dfs_update_def Let_def if_not_P [OF False] s'(1) by (simp add: r_def)
  moreover have "dfs_valid dir und g r" "dfs_sizes g r" using s'(2,3) by (simp_all add: r_def dfs_valid_def dfs_sizes_def)
  ultimately show ?thesis by (auto simp: dfs_ready_def)
qed



end
