(* ===== verification/Theory_Trail.thy ===== *)
theory Theory_Trail
  imports Solver_Types
begin

text \<open>
  The assignment trail of \<open>GraphTheorySolver\<close> (\<open>graph/GraphTheory.h\<close>): one circular doubly linked list per decision
  level, threaded through the array \<open>trail\<close> that is indexed by theory variable, plus the lazy list of the
  variables that are assigned in the theory but no longer in the SAT solver. \<open>decisions[lev]\<close> is the head of the
  list of a level.

  A link is a variable or \<open>var_Undef\<close>, hence \<open>int\<close>; a result \<open>None\<close> is an access outside a vector. The abstraction
  \<open>trail_inv\<close> relates the array to one list of variables per level.
\<close>

record Trail =
  tlevel :: int
  prev_var :: int
  next_var :: int

record BVAssign =
  graphAssign :: int
  bvTrail :: int
  bvID :: nat
  theory_is_satisfied :: bool
  bvlevel :: int

record TrailState =
  ttrail :: "Trail list"
  decisions :: "int list"
  lazy_trail_head :: int
  bvtrail :: "BVAssign list"

definition Trail_default :: Trail where
  "Trail_default = \<lparr>tlevel = -1, prev_var = var_Undef, next_var = var_Undef\<rparr>"

definition TrailState_init :: TrailState where
  "TrailState_init = \<lparr>ttrail = [], decisions = [], lazy_trail_head = var_Undef, bvtrail = []\<rparr>"

subsection \<open>Reads\<close>

definition tget :: "TrailState \<Rightarrow> int \<Rightarrow> Trail option" where
  "tget T v = (if 0 \<le> v \<and> nat v < length (ttrail T) then Some (ttrail T ! nat v) else None)"

definition getPrev :: "TrailState \<Rightarrow> int \<Rightarrow> int option" where
  "getPrev T v = map_option prev_var (tget T v)"

definition getNext :: "TrailState \<Rightarrow> int \<Rightarrow> int option" where
  "getNext T v = map_option next_var (tget T v)"

definition getDecision :: "TrailState \<Rightarrow> int \<Rightarrow> int option" where
  "getDecision T lev =
     (if lev \<ge> 0 then if nat lev < length (decisions T) then Some (decisions T ! nat lev) else None
      else Some var_Undef)"

definition getBack :: "TrailState \<Rightarrow> nat \<Rightarrow> int option" where
  "getBack T lev =
     (if lev < length (decisions T) then
        if decisions T ! lev = var_Undef then Some var_Undef else getPrev T (decisions T ! lev)
      else None)"

definition onLazyTrail :: "TrailState \<Rightarrow> int \<Rightarrow> bool option" where
  "onLazyTrail T v = map_option (\<lambda>t. tlevel t = -2) (tget T v)"

definition onTrail :: "TrailState \<Rightarrow> int \<Rightarrow> bool option" where
  "onTrail T v = map_option (\<lambda>t. tlevel t \<noteq> -1) (tget T v)"

definition trail_decisionLevel :: "TrailState \<Rightarrow> int" where
  "trail_decisionLevel T = int (length (decisions T)) - 1"

subsection \<open>Updates\<close>

definition tmod :: "int \<Rightarrow> (Trail \<Rightarrow> Trail) \<Rightarrow> TrailState \<Rightarrow> TrailState option" where
  "tmod v f T =
     (if 0 \<le> v \<and> nat v < length (ttrail T)
      then Some (T\<lparr>ttrail := (ttrail T)[nat v := f (ttrail T ! nat v)]\<rparr>) else None)"

definition set_level :: "int \<Rightarrow> int \<Rightarrow> TrailState \<Rightarrow> TrailState option" where
  "set_level v l T = tmod v (tlevel_update (\<lambda>_. l)) T"

definition set_prev :: "int \<Rightarrow> int \<Rightarrow> TrailState \<Rightarrow> TrailState option" where
  "set_prev v p T = tmod v (prev_var_update (\<lambda>_. p)) T"

definition set_next :: "int \<Rightarrow> int \<Rightarrow> TrailState \<Rightarrow> TrailState option" where
  "set_next v n T = tmod v (next_var_update (\<lambda>_. n)) T"

fun pop_bvtrail :: "int \<Rightarrow> BVAssign list \<Rightarrow> BVAssign list" where
  "pop_bvtrail v bs = rev (dropWhile (\<lambda>b. graphAssign b = v) (rev bs))"

definition unlink :: "int \<Rightarrow> TrailState \<Rightarrow> (int \<times> TrailState) option" where
  "unlink v T = do {
     p \<leftarrow> getPrev T v;
     n \<leftarrow> getNext T v;
     T \<leftarrow> set_next p n T;
     T \<leftarrow> set_prev n p T;
     T \<leftarrow> set_next v var_Undef T;
     T \<leftarrow> set_prev v var_Undef T;
     T \<leftarrow> set_level v (-1) T;
     Some (n, T)
   }"

definition removeFromTrail :: "int \<Rightarrow> TrailState \<Rightarrow> (bool \<times> TrailState) option" where
  "removeFromTrail v T = do {
     t \<leftarrow> tget T v;
     let lev = tlevel t;
     if lev \<ge> 0 \<or> lev = -2 then do {
       (n, T) \<leftarrow> unlink v (T\<lparr>bvtrail := pop_bvtrail v (bvtrail T)\<rparr>);
       if lev \<ge> 0 then
         if nat lev < length (decisions T) then
           if v = decisions T ! nat lev then
             if n = v then Some (True, T\<lparr>decisions := (decisions T)[nat lev := var_Undef]\<rparr>)
             else Some (False, T\<lparr>decisions := (decisions T)[nat lev := n]\<rparr>)
           else Some (False, T)
         else None
       else if v = lazy_trail_head T then
         if n = v then Some (True, T\<lparr>lazy_trail_head := var_Undef\<rparr>)
         else Some (False, T\<lparr>lazy_trail_head := n\<rparr>)
       else Some (False, T)
     } else Some (False, T)
   }"

definition removeFromTrail_level :: "int \<Rightarrow> nat \<Rightarrow> TrailState \<Rightarrow> (bool \<times> TrailState) option" where
  "removeFromTrail_level v lev T = do {
     (n, T) \<leftarrow> unlink v (T\<lparr>bvtrail := pop_bvtrail v (bvtrail T)\<rparr>);
     if lev < length (decisions T) then
       if v = decisions T ! lev then
         if n = v then Some (True, T\<lparr>decisions := (decisions T)[lev := var_Undef]\<rparr>)
         else Some (False, T\<lparr>decisions := (decisions T)[lev := n]\<rparr>)
       else Some (False, T)
     else None
   }"

definition self_link :: "int \<Rightarrow> int \<Rightarrow> TrailState \<Rightarrow> TrailState option" where
  "self_link v lev T = do { T \<leftarrow> set_level v lev T; T \<leftarrow> set_prev v v T; set_next v v T }"

definition prependToLazyTrail :: "Lit \<Rightarrow> TrailState \<Rightarrow> TrailState option" where
  "prependToLazyTrail l T = do {
     (_, T) \<leftarrow> removeFromTrail (var l) T;
     let v = var l;
     let d = lazy_trail_head T;
     if d = var_Undef then self_link v (-2) (T\<lparr>lazy_trail_head := v\<rparr>)
     else do {
       p \<leftarrow> getPrev T d;
       T \<leftarrow> set_prev d v T;
       T \<leftarrow> set_next v d T;
       T \<leftarrow> set_next p v T;
       T \<leftarrow> set_prev v p T;
       T \<leftarrow> set_level v (-2) T;
       Some (T\<lparr>lazy_trail_head := v\<rparr>)
     }
   }"

definition appendToLazyTrail :: "Lit \<Rightarrow> TrailState \<Rightarrow> TrailState option" where
  "appendToLazyTrail l T = do {
     (_, T) \<leftarrow> removeFromTrail (var l) T;
     let v = var l;
     let d = lazy_trail_head T;
     if d = var_Undef then self_link v (-2) (T\<lparr>lazy_trail_head := v\<rparr>)
     else do {
       back \<leftarrow> getPrev T d;
       T \<leftarrow> set_next back v T;
       T \<leftarrow> set_prev d v T;
       T \<leftarrow> set_next v d T;
       T \<leftarrow> set_prev v back T;
       set_level v (-2) T
     }
   }"

definition insertIntoTrail :: "Lit \<Rightarrow> int \<Rightarrow> TrailState \<Rightarrow> TrailState option" where
  "insertIntoTrail l insertAfter T = do {
     let v = var l;
     n \<leftarrow> getNext T insertAfter;
     T \<leftarrow> set_next insertAfter v T;
     T \<leftarrow> set_prev n v T;
     T \<leftarrow> set_next v n T;
     T \<leftarrow> set_prev v insertAfter T;
     t \<leftarrow> tget T insertAfter;
     set_level v (tlevel t) T
   }"

definition appendToTrail :: "Lit \<Rightarrow> nat \<Rightarrow> TrailState \<Rightarrow> TrailState option" where
  "appendToTrail l lev T = do {
     let v = var l;
     let T = T\<lparr>decisions := vec_grow (lev + 1) var_Undef (decisions T)\<rparr>;
     let d = decisions T ! lev;
     if d = var_Undef then self_link v (int lev) (T\<lparr>decisions := (decisions T)[lev := v]\<rparr>)
     else do {
       back \<leftarrow> getPrev T d;
       T \<leftarrow> set_level v (int lev) T;
       T \<leftarrow> set_next back v T;
       T \<leftarrow> set_prev d v T;
       T \<leftarrow> set_next v d T;
       set_prev v back T
     }
   }"

subsection \<open>Circular lists\<close>

fun links :: "'a list \<Rightarrow> ('a \<times> 'a) list" where
  "links (x # y # zs) = (x, y) # links (y # zs)"
| "links _ = []"

definition pairs :: "'a list \<Rightarrow> ('a \<times> 'a) list" where
  "pairs vs = links (vs @ take 1 vs)"

lemma links_split: "links (xs @ a # ys) = links (xs @ [a]) @ links (a # ys)"
  by (induction xs rule: links.induct) (auto split: list.splits)

lemma pairs_rotate: "set (pairs (xs @ ys)) = set (pairs (ys @ xs))"
proof (cases xs; cases ys)
  fix x xs' y ys' assume "xs = x # xs'" "ys = y # ys'"
  then show ?thesis
    using links_split [of "x # xs'" y "ys' @ [x]"] links_split [of "y # ys'" x "xs' @ [y]"]
    by (auto simp: pairs_def)
qed simp_all

lemma links_mem:
  "(a, b) \<in> set (links zs) \<Longrightarrow> a \<in> set (butlast zs) \<and> b \<in> set (tl zs)"
  by (induction zs rule: links.induct) (auto split: if_splits)

lemma pairs_Cons: "zs \<noteq> [] \<Longrightarrow> set (pairs (v # zs)) = {(v, hd zs), (last zs, v)} \<union> set (links zs)"
proof -
  assume "zs \<noteq> []"
  then obtain ys l where l: "zs = ys @ [l]" by (cases zs rule: rev_cases) auto
  then show ?thesis
    using links_split [of "v # ys" l "[v]"] by (cases ys) (auto simp: pairs_def)
qed

lemma pairs_links: "zs \<noteq> [] \<Longrightarrow> set (pairs zs) = insert (last zs, hd zs) (set (links zs))"
proof -
  assume "zs \<noteq> []"
  then obtain ys l where l: "zs = ys @ [l]" by (cases zs rule: rev_cases) auto
  then show ?thesis using links_split [of ys l "[hd zs]"] by (cases ys) (auto simp: pairs_def)
qed

text \<open>\<open>ring tr lev vs\<close>: the entries of \<open>vs\<close> in the array \<open>tr\<close> form a circular doubly linked list, in this order, and
  belong to level \<open>lev\<close>. A ring may be rotated.\<close>

definition ring :: "Trail list \<Rightarrow> int \<Rightarrow> nat list \<Rightarrow> bool" where
  "ring tr lev vs \<longleftrightarrow> distinct vs \<and> (\<forall>v \<in> set vs. v < length tr \<and> tlevel (tr ! v) = lev) \<and>
     (\<forall>(a, b) \<in> set (pairs vs). next_var (tr ! a) = int b \<and> prev_var (tr ! b) = int a)"

lemma ring_Nil [simp]: "ring tr lev []"
  by (simp add: ring_def pairs_def)

lemma ring_rotate: "ring tr lev (xs @ ys) \<longleftrightarrow> ring tr lev (ys @ xs)"
  using pairs_rotate [of xs ys] by (auto simp: ring_def)

lemma pairs_mem: "(a, b) \<in> set (pairs vs) \<Longrightarrow> a \<in> set vs \<and> b \<in> set vs"
  by (cases vs) (auto simp: pairs_def dest!: links_mem dest: in_set_butlastD)

lemma ring_cong:
  "length tr' = length tr \<Longrightarrow> (\<And>v. v \<in> set vs \<Longrightarrow> tr' ! v = tr ! v) \<Longrightarrow> ring tr' lev vs = ring tr lev vs"
  using pairs_mem [of _ _ vs] by (fastforce simp: ring_def)

lemma ring_neighbours:
  assumes "ring tr lev (v # zs)"
  shows "next_var (tr ! v) = int (hd (zs @ [v]))" "prev_var (tr ! v) = int (last (v # zs))"
    "hd (zs @ [v]) < length tr" "last (v # zs) < length tr"
proof -
  have p: "(v, hd (zs @ [v])) \<in> set (pairs (v # zs))" "(last (v # zs), v) \<in> set (pairs (v # zs))"
  proof -
    have "(v, hd (zs @ [v])) \<in> set (pairs (v # zs)) \<and> (last (v # zs), v) \<in> set (pairs (v # zs))"
    proof (cases "zs = []")
      case False
      then show ?thesis using pairs_Cons [OF False, of v] by simp
    qed (simp add: pairs_def)
    then show "(v, hd (zs @ [v])) \<in> set (pairs (v # zs))" "(last (v # zs), v) \<in> set (pairs (v # zs))" by blast+
  qed
  have A: "\<forall>(a, b) \<in> set (pairs (v # zs)). next_var (tr ! a) = int b \<and> prev_var (tr ! b) = int a"
    and L: "\<forall>x \<in> set (v # zs). x < length tr"
    using assms by (simp_all add: ring_def)
  show "next_var (tr ! v) = int (hd (zs @ [v]))" using bspec [OF A p(1)] by simp
  show "prev_var (tr ! v) = int (last (v # zs))" using bspec [OF A p(2)] by (simp del: last.simps)
  show "hd (zs @ [v]) < length tr" using pairs_mem [OF p(1)] L by blast
  show "last (v # zs) < length tr" using pairs_mem [OF p(2)] L by blast
qed

lemma ring_remove:
  assumes "ring tr lev (v # zs)" "length tr' = length tr"
    "\<And>x. x < length tr \<Longrightarrow> x \<noteq> v \<Longrightarrow> tlevel (tr' ! x) = tlevel (tr ! x)"
    "\<And>x. x < length tr \<Longrightarrow> x \<noteq> v \<Longrightarrow> next_var (tr' ! x) = (if x = last (v # zs) then int (hd (zs @ [v])) else next_var (tr ! x))"
    "\<And>x. x < length tr \<Longrightarrow> x \<noteq> v \<Longrightarrow> prev_var (tr' ! x) = (if x = hd (zs @ [v]) then int (last (v # zs)) else prev_var (tr ! x))"
  shows "ring tr' lev zs"
proof (cases "zs = []")
  case False
  have d: "distinct zs" "v \<notin> set zs" and len: "\<And>x. x \<in> set zs \<Longrightarrow> x < length tr"
    using assms(1) by (auto simp: ring_def)
  have "next_var (tr' ! a) = int b \<and> prev_var (tr' ! b) = int a" if ab: "(a, b) \<in> set (pairs zs)" for a b
  proof (cases "(a, b) = (last zs, hd zs)")
    case True
    moreover have "last zs \<noteq> v" "hd zs \<noteq> v" using False d(2) by (metis last_in_set, metis hd_in_set)
    ultimately show ?thesis using assms(4) [of a] assms(5) [of b] False len by auto
  next
    case n: False
    then have l: "(a, b) \<in> set (links zs)" using ab pairs_links [OF False] by auto
    then have "(a, b) \<in> set (pairs (v # zs))" using pairs_Cons [OF False] by auto
    then have old: "next_var (tr ! a) = int b" "prev_var (tr ! b) = int a" using assms(1) by (auto simp: ring_def)
    obtain ys z where z: "zs = ys @ [z]" using False by (cases zs rule: rev_cases) auto
    have "a \<noteq> last zs" using links_mem [OF l] d(1) z by auto
    moreover have "b \<noteq> hd zs" using links_mem [OF l] d(1) False by (cases zs) auto
    moreover have "a \<in> set zs" "b \<in> set zs" using links_mem [OF l] by (auto dest: in_set_butlastD list.set_sel(2) [rotated])
    ultimately show ?thesis
      using assms(4) [of a] assms(5) [of b] False old d(2) len by auto
  qed
  moreover have "tlevel (tr' ! x) = lev" if "x \<in> set zs" for x
    using assms(3) [OF len [OF that]] that d(2) assms(1) by (auto simp: ring_def)
  ultimately show ?thesis using assms(2) d len by (auto simp: ring_def)
qed simp

lemma ring_append:
  assumes "ring tr lev (d # zs)" "v \<notin> set (d # zs)" "v < length tr" "length tr' = length tr"
    "\<And>x. x < length tr \<Longrightarrow> tlevel (tr' ! x) = (if x = v then lev else tlevel (tr ! x))"
    "\<And>x. x < length tr \<Longrightarrow> next_var (tr' ! x) = (if x = v then int d else if x = last (d # zs) then int v else next_var (tr ! x))"
    "\<And>x. x < length tr \<Longrightarrow> prev_var (tr' ! x) = (if x = v then int (last (d # zs)) else if x = d then int v else prev_var (tr ! x))"
  shows "ring tr' lev (d # zs @ [v])"
proof -
  have dz: "distinct (d # zs)" and len: "\<And>x. x \<in> set (d # zs) \<Longrightarrow> x < length tr \<and> tlevel (tr ! x) = lev"
    using assms(1) by (auto simp: ring_def)
  obtain ys l where l: "d # zs = ys @ [l]" by (cases "d # zs" rule: rev_cases) auto
  have P: "set (pairs (d # zs @ [v])) = {(v, d), (l, v)} \<union> set (links (d # zs))"
  proof -
    have "links (ys @ [l] @ [v, d]) = links (ys @ [l]) @ links [l, v, d]" using links_split [of ys l "[v, d]"] by simp
    moreover have "pairs (d # zs @ [v]) = links (ys @ [l] @ [v, d])"
    proof -
      have "pairs (d # zs @ [v]) = links ((d # zs) @ [v, d])" by (simp add: pairs_def)
      also have "\<dots> = links (ys @ [l] @ [v, d])" unfolding l by simp
      finally show ?thesis .
    qed
    ultimately show ?thesis using l by auto
  qed
  have "next_var (tr' ! a) = int b \<and> prev_var (tr' ! b) = int a" if ab: "(a, b) \<in> set (pairs (d # zs @ [v]))" for a b
  proof -
    consider "(a, b) = (v, d)" | "(a, b) = (l, v)" | "(a, b) \<in> set (links (d # zs))" using ab P by auto
    then show ?thesis
    proof cases
      case 1
      then show ?thesis using assms(2,3) assms(6) [of v] assms(7) [of d] len by auto
    next
      case 2
      then show ?thesis using assms(2,3) assms(6) [of l] assms(7) [of v] len l by auto
    next
      case 3
      then have m: "a \<in> set (butlast (d # zs))" "b \<in> set zs" using links_mem [OF 3] by auto
      have "(a, b) \<in> set (pairs (d # zs))" using 3 pairs_links [of "d # zs"] by auto
      then have "next_var (tr ! a) = int b" "prev_var (tr ! b) = int a" using assms(1) by (auto simp: ring_def)
      moreover have "a \<in> set ys" "a \<noteq> l" using m(1) dz l by (auto simp: l)
      moreover have az: "a \<in> set (d # zs)" using m(1) in_set_butlastD by fast
      moreover have "b \<noteq> d" "a \<noteq> v" "b \<noteq> v" using m(2) az dz assms(2) by auto
      moreover have "b < length tr" "a < length tr" using len [of b] len [OF az] m(2) by simp_all
      ultimately show ?thesis using assms(6) [of a] assms(7) [of b] l by auto
    qed
  qed
  then show ?thesis using assms(2-5) dz len by (auto simp: ring_def)
qed


subsection \<open>The invariant of the trail\<close>

definition head_of :: "nat list \<Rightarrow> int" where
  "head_of vs = (case vs of [] \<Rightarrow> var_Undef | v # _ \<Rightarrow> int v)"

definition trail_inv :: "TrailState \<Rightarrow> nat list list \<Rightarrow> nat list \<Rightarrow> bool" where
  "trail_inv T Ls Z \<longleftrightarrow>
     length (decisions T) = length Ls \<and>
     (\<forall>lev < length Ls. ring (ttrail T) (int lev) (Ls ! lev) \<and> decisions T ! lev = head_of (Ls ! lev)) \<and>
     ring (ttrail T) (-2) Z \<and> lazy_trail_head T = head_of Z \<and>
     (\<forall>v < length (ttrail T).
        ttrail T ! v = Trail_default \<or> v \<in> set Z \<or> (\<exists>lev < length Ls. v \<in> set (Ls ! lev)))"

lemma head_of_simps [simp]: "head_of [] = var_Undef" "head_of (v # vs) = int v"
  "head_of vs = var_Undef \<longleftrightarrow> vs = []" "int x = var_Undef \<longleftrightarrow> False"
  by (auto simp: head_of_def var_Undef_def split: list.splits)

lemma Trail_default_sel [simp]: "tlevel Trail_default = -1" "prev_var Trail_default = var_Undef"
  "next_var Trail_default = var_Undef"
  by (simp_all add: Trail_default_def)

lemma trail_inv_init [simp]: "trail_inv TrailState_init [] []"
  by (simp add: trail_inv_def TrailState_init_def)

lemma trail_inv_level:
  assumes "trail_inv T Ls Z" "v < length (ttrail T)"
  shows "tlevel (ttrail T ! v) = -1 \<longleftrightarrow> ttrail T ! v = Trail_default"
    "v \<in> set Z \<longleftrightarrow> tlevel (ttrail T ! v) = -2"
    "lev < length Ls \<Longrightarrow> v \<in> set (Ls ! lev) \<longleftrightarrow> tlevel (ttrail T ! v) = int lev"
    "tlevel (ttrail T ! v) \<ge> 0 \<Longrightarrow> nat (tlevel (ttrail T ! v)) < length Ls"
  using assms by (auto simp: trail_inv_def ring_def)

subsection \<open>The primitive updates\<close>

lemma tget_int: "tget T (int v) = (if v < length (ttrail T) then Some (ttrail T ! v) else None)"
  by (simp add: tget_def)

lemma set_int:
  "v < length (ttrail T) \<Longrightarrow> set_level (int v) l T = Some (T\<lparr>ttrail := (ttrail T)[v := (ttrail T ! v)\<lparr>tlevel := l\<rparr>]\<rparr>)"
  "v < length (ttrail T) \<Longrightarrow> set_prev (int v) l T = Some (T\<lparr>ttrail := (ttrail T)[v := (ttrail T ! v)\<lparr>prev_var := l\<rparr>]\<rparr>)"
  "v < length (ttrail T) \<Longrightarrow> set_next (int v) l T = Some (T\<lparr>ttrail := (ttrail T)[v := (ttrail T ! v)\<lparr>next_var := l\<rparr>]\<rparr>)"
  by (simp_all add: set_level_def set_prev_def set_next_def tmod_def)

lemma Trail_fields:
  "(t :: Trail)\<lparr>next_var := a, prev_var := b, tlevel := c\<rparr> = \<lparr>tlevel = c, prev_var = b, next_var = a\<rparr>"
  by (cases t) simp

lemma Trail_swap: "(t :: Trail)\<lparr>prev_var := a, next_var := b\<rparr> = t\<lparr>next_var := b, prev_var := a\<rparr>"
  by (cases t) simp

lemma unlink_ring:
  assumes "ring (ttrail T) lev (v # zs)"
  shows "\<exists>tr. unlink (int v) T = Some (int (hd (zs @ [v])), T\<lparr>ttrail := tr\<rparr>) \<and> length tr = length (ttrail T) \<and>
     tr ! v = Trail_default \<and> ring tr lev zs \<and> (\<forall>x. x \<notin> set (v # zs) \<longrightarrow> tr ! x = ttrail T ! x)"
proof -
  note n = ring_neighbours [OF assms]
  have v: "v < length (ttrail T)" "v \<notin> set zs" using assms by (auto simp: ring_def)
  let ?p = "last (v # zs)" and ?n = "hd (zs @ [v])"
  define tr where "tr = ((((ttrail T)[?p := (ttrail T ! ?p)\<lparr>next_var := int ?n\<rparr>])
     [?n := ((ttrail T)[?p := (ttrail T ! ?p)\<lparr>next_var := int ?n\<rparr>] ! ?n)\<lparr>prev_var := int ?p\<rparr>])[v := Trail_default])"
  have t: "tlevel (ttrail T ! v) = lev" using assms by (simp add: ring_def)
  have mem: "?p \<in> set (v # zs)" "?n \<in> set (v # zs)" using last_in_set [of "v # zs"] by (blast, cases zs, simp_all)
  have "unlink (int v) T = Some (int ?n, T\<lparr>ttrail := tr\<rparr>)"
    using n v(1) unfolding unlink_def getPrev_def getNext_def tr_def
    by (simp add: tget_int set_int Trail_default_def Trail_fields del: last.simps)
  moreover have "ring tr lev zs"
    by (rule ring_remove [OF assms]) (use n(3,4) in \<open>auto simp: tr_def nth_list_update simp del: last.simps\<close>)
  moreover have "tr ! x = ttrail T ! x" if "x \<notin> set (v # zs)" for x
  proof -
    have "x \<noteq> ?p" "x \<noteq> ?n" "x \<noteq> v" using that mem by (metis, metis, simp)
    then show ?thesis by (simp add: tr_def del: last.simps)
  qed
  moreover have "length tr = length (ttrail T)" "tr ! v = Trail_default" using v by (simp_all add: tr_def del: last.simps)
  ultimately show ?thesis by blast
qed


text \<open>Two rings of different levels are disjoint, so an update inside one ring leaves the others alone.\<close>

lemma ring_frame:
  assumes "ring tr lev vs" "\<And>x. x \<notin> W \<Longrightarrow> tr' ! x = tr ! x" "length tr' = length tr"
    "\<And>x. x \<in> W \<Longrightarrow> x < length tr \<Longrightarrow> tlevel (tr ! x) \<noteq> lev"
  shows "ring tr' lev vs"
proof -
  have "tr' ! x = tr ! x" if "x \<in> set vs" for x
    using assms(1,2,4) that by (cases "x \<in> W") (auto simp: ring_def)
  then show ?thesis using assms(1,3) ring_cong by metis
qed

lemma remove1_middle: "v \<notin> set xs \<Longrightarrow> remove1 v (xs @ v # ys) = xs @ ys"
  by (simp add: remove1_append)

lemma trail_inv_lists:
  assumes "trail_inv T Ls Z" "v < length (ttrail T)"
  shows "tlevel (ttrail T ! v) = -1 \<Longrightarrow> map (remove1 v) Ls = Ls \<and> remove1 v Z = Z"
    "tlevel (ttrail T ! v) = -2 \<Longrightarrow> map (remove1 v) Ls = Ls"
    "tlevel (ttrail T ! v) = int lev \<Longrightarrow> map (remove1 v) Ls = Ls[lev := remove1 v (Ls ! lev)] \<and> remove1 v Z = Z"
proof -
  have n: "v \<notin> set (Ls ! k)" if "k < length Ls" "tlevel (ttrail T ! v) \<noteq> int k" for k
    using that trail_inv_level(3) [OF assms that(1)] by simp
  have all: "v \<notin> set L" if "tlevel (ttrail T ! v) < 0" "L \<in> set Ls" for L
  proof -
    from that(2) obtain k where "k < length Ls" "Ls ! k = L" by (auto simp: in_set_conv_nth)
    then show ?thesis using n [of k] that(1) by auto
  qed
  show "tlevel (ttrail T ! v) = -1 \<Longrightarrow> map (remove1 v) Ls = Ls \<and> remove1 v Z = Z"
    using all trail_inv_level(2) [OF assms] by (auto intro!: map_idI remove1_idem)
  show "tlevel (ttrail T ! v) = -2 \<Longrightarrow> map (remove1 v) Ls = Ls"
    using all by (auto intro!: map_idI remove1_idem)
  assume t: "tlevel (ttrail T ! v) = int lev"
  have "lev < length Ls" using trail_inv_level(4) [OF assms] t by simp
  then have "map (remove1 v) Ls = Ls[lev := remove1 v (Ls ! lev)]"
    by - (rule nth_equalityI, use n t in \<open>auto simp: nth_list_update remove1_idem\<close>)
  then show "map (remove1 v) Ls = Ls[lev := remove1 v (Ls ! lev)] \<and> remove1 v Z = Z"
    using t trail_inv_level(2) [OF assms] by (simp add: remove1_idem)
qed

lemma removeFromTrail_level_eq:
  "v < length (ttrail T) \<Longrightarrow> tlevel (ttrail T ! v) = int lev \<Longrightarrow>
     removeFromTrail (int v) T = removeFromTrail_level (int v) lev T"
  by (simp add: removeFromTrail_def removeFromTrail_level_def tget_int Let_def cong: if_cong)

lemma trail_inv_remove_level:
  assumes inv: "trail_inv T Ls Z" and lev: "lev < length Ls" "Ls ! lev = xs @ v # ys"
  shows "\<exists>T'. removeFromTrail_level (int v) lev T = Some (xs @ ys = [], T') \<and>
     trail_inv T' (Ls[lev := xs @ ys]) Z \<and> ttrail T' ! v = Trail_default \<and> length (ttrail T') = length (ttrail T) \<and>
     removeFromTrail (int v) T = Some (xs @ ys = [], T')"
proof -
  have r: "ring (ttrail T) (int lev) (xs @ v # ys)" and dl: "length (decisions T) = length Ls"
    and d: "decisions T ! lev = head_of (xs @ v # ys)"
    using inv lev by (auto simp: trail_inv_def)
  have v: "v < length (ttrail T)" "tlevel (ttrail T ! v) = int lev" "v \<notin> set xs" "v \<notin> set ys"
    using r by (auto simp: ring_def)
  let ?T = "T\<lparr>bvtrail := pop_bvtrail (int v) (bvtrail T)\<rparr>"
  have "ring (ttrail ?T) (int lev) (v # ys @ xs)" using r ring_rotate [of _ _ xs "v # ys"] by simp
  from unlink_ring [OF this] obtain tr where
    tr: "unlink (int v) ?T = Some (int (hd ((ys @ xs) @ [v])), ?T\<lparr>ttrail := tr\<rparr>)" "length tr = length (ttrail T)"
      "tr ! v = Trail_default" "ring tr (int lev) (ys @ xs)" "\<And>x. x \<notin> set (v # ys @ xs) \<Longrightarrow> tr ! x = ttrail T ! x"
    by auto
  define T' where "T' = ?T\<lparr>ttrail := tr, decisions := (decisions T)[lev := head_of (xs @ ys)]\<rparr>"
  have hv: "int v = decisions T ! lev \<longleftrightarrow> xs = []" using d v(3) by (cases xs) auto
  have T': "?T\<lparr>ttrail := tr\<rparr> = T'" if "xs \<noteq> []"
  proof -
    have "head_of (xs @ ys) = decisions T ! lev" using d that by (cases xs) auto
    then show ?thesis by (simp add: T'_def)
  qed
  have 1: "removeFromTrail_level (int v) lev T = Some (xs @ ys = [], T')"
    unfolding removeFromTrail_level_def tr(1)
    using hv T' dl lev(1) v(4) by (cases xs; cases ys) (auto simp: T'_def)
  have 2: "removeFromTrail (int v) T = Some (xs @ ys = [], T')"
    using removeFromTrail_level_eq [OF v(1,2)] 1 by simp
  have W: "x \<in> set (v # ys @ xs) \<Longrightarrow> x < length (ttrail T) \<and> tlevel (ttrail T ! x) = int lev" for x
    using r by (auto simp: ring_def)
  have fr: "ring tr k vs" if "ring (ttrail T) k vs" "k \<noteq> int lev" for k vs
    using ring_frame [OF that(1), of "set (v # ys @ xs)" tr] tr(2,5) W that(2) by auto
  have "trail_inv T' (Ls[lev := xs @ ys]) Z"
    unfolding trail_inv_def
  proof (intro conjI allI impI)
    fix k assume k: "k < length (Ls[lev := xs @ ys])"
    show "ring (ttrail T') (int k) (Ls[lev := xs @ ys] ! k)"
      using k fr [of "int k" "Ls ! k"] inv tr(4) ring_rotate [of tr "int lev" xs ys]
      by (cases "k = lev") (auto simp: T'_def trail_inv_def)
    show "decisions T' ! k = head_of (Ls[lev := xs @ ys] ! k)"
      using k inv by (cases "k = lev") (auto simp: T'_def trail_inv_def)
  next
    fix x assume x: "x < length (ttrail T')"
    show "ttrail T' ! x = Trail_default \<or> x \<in> set Z \<or> (\<exists>k < length (Ls[lev := xs @ ys]). x \<in> set (Ls[lev := xs @ ys] ! k))"
    proof (cases "x \<in> set (v # ys @ xs)")
      case True
      then show ?thesis using tr(3) lev(1) by (auto simp: T'_def)
    next
      case False
      then have "ttrail T ! x = Trail_default \<or> x \<in> set Z \<or> (\<exists>k < length Ls. k \<noteq> lev \<and> x \<in> set (Ls ! k))"
      proof -
        have "x \<notin> set (Ls ! lev)" using False lev(2) by auto
        moreover have "x < length (ttrail T)" using x tr(2) by (simp add: T'_def)
        then have "ttrail T ! x = Trail_default \<or> x \<in> set Z \<or> (\<exists>k < length Ls. x \<in> set (Ls ! k))"
          using inv by (simp add: trail_inv_def)
        ultimately show ?thesis by metis
      qed
      then show ?thesis using tr(5) [OF False] by (auto simp: T'_def)
    qed
  qed (use inv fr [of "-2" Z] in \<open>auto simp: T'_def trail_inv_def\<close>)
  then show ?thesis using 1 2 tr by (auto simp: T'_def)
qed


lemma trail_inv_remove_lazy:
  assumes inv: "trail_inv T Ls Z" and z: "Z = xs @ v # ys"
  shows "\<exists>T'. removeFromTrail (int v) T = Some (xs @ ys = [], T') \<and>
     trail_inv T' Ls (xs @ ys) \<and> ttrail T' ! v = Trail_default \<and> length (ttrail T') = length (ttrail T)"
proof -
  have r: "ring (ttrail T) (-2) (xs @ v # ys)" and d: "lazy_trail_head T = head_of (xs @ v # ys)"
    using inv z by (auto simp: trail_inv_def)
  have v: "v < length (ttrail T)" "tlevel (ttrail T ! v) = -2" "v \<notin> set xs" "v \<notin> set ys"
    using r by (auto simp: ring_def)
  let ?T = "T\<lparr>bvtrail := pop_bvtrail (int v) (bvtrail T)\<rparr>"
  have "ring (ttrail ?T) (-2) (v # ys @ xs)" using r ring_rotate [of _ _ xs "v # ys"] by simp
  from unlink_ring [OF this] obtain tr where
    tr: "unlink (int v) ?T = Some (int (hd ((ys @ xs) @ [v])), ?T\<lparr>ttrail := tr\<rparr>)" "length tr = length (ttrail T)"
      "tr ! v = Trail_default" "ring tr (-2) (ys @ xs)" "\<And>x. x \<notin> set (v # ys @ xs) \<Longrightarrow> tr ! x = ttrail T ! x"
    by auto
  define T' where "T' = ?T\<lparr>ttrail := tr, lazy_trail_head := head_of (xs @ ys)\<rparr>"
  have hv: "int v = lazy_trail_head T \<longleftrightarrow> xs = []" using d v(3) by (cases xs) auto
  have T': "?T\<lparr>ttrail := tr\<rparr> = T'" if "xs \<noteq> []"
  proof -
    have "head_of (xs @ ys) = lazy_trail_head T" using d that by (cases xs) auto
    then show ?thesis by (simp add: T'_def)
  qed
  have "removeFromTrail (int v) T = do {
       (n, T) \<leftarrow> unlink (int v) ?T;
       if int v = lazy_trail_head T then
         if n = int v then Some (True, T\<lparr>lazy_trail_head := var_Undef\<rparr>)
         else Some (False, T\<lparr>lazy_trail_head := n\<rparr>)
       else Some (False, T) }"
    unfolding removeFromTrail_def using v by (simp add: tget_int)
  then have 1: "removeFromTrail (int v) T = Some (xs @ ys = [], T')"
    unfolding tr(1) using hv T' v(4) by (cases xs; cases ys) (auto simp: T'_def)
  have W: "x \<in> set (v # ys @ xs) \<Longrightarrow> x < length (ttrail T) \<and> tlevel (ttrail T ! x) = -2" for x
    using r by (auto simp: ring_def)
  have fr: "ring tr (int k) vs" if "ring (ttrail T) (int k) vs" for k vs
    using ring_frame [OF that(1), of "set (v # ys @ xs)" tr] tr(2,5) W by force
  have "ttrail T' ! x = Trail_default \<or> x \<in> set (xs @ ys) \<or> (\<exists>k < length Ls. x \<in> set (Ls ! k))"
    if x: "x < length (ttrail T')" for x
  proof (cases "x \<in> set (v # ys @ xs)")
    case True
    then show ?thesis using tr(3) by (auto simp: T'_def)
  next
    case False
    then show ?thesis using x inv z tr(2) tr(5) [OF False] by (simp add: T'_def trail_inv_def) metis
  qed
  then have "trail_inv T' Ls (xs @ ys)"
    using inv fr tr(4) ring_rotate [of tr "-2" xs ys] by (auto simp: T'_def trail_inv_def)
  then show ?thesis using 1 tr by (auto simp: T'_def)
qed

lemma trail_remove_correct:
  assumes inv: "trail_inv T Ls Z" and v: "v < length (ttrail T)"
  shows "\<exists>T'. removeFromTrail (int v) T = Some ([v] \<in> set Ls \<or> Z = [v], T') \<and>
     trail_inv T' (map (remove1 v) Ls) (remove1 v Z) \<and> ttrail T' ! v = Trail_default \<and> length (ttrail T') = length (ttrail T)"
proof -
  have lone: "[v] \<in> set Ls \<longleftrightarrow> tlevel (ttrail T ! v) \<ge> 0 \<and> Ls ! nat (tlevel (ttrail T ! v)) = [v]"
  proof
    assume "[v] \<in> set Ls"
    then obtain k where k: "k < length Ls" "Ls ! k = [v]" by (auto simp: in_set_conv_nth)
    then show "tlevel (ttrail T ! v) \<ge> 0 \<and> Ls ! nat (tlevel (ttrail T ! v)) = [v]"
      using trail_inv_level(3) [OF inv v k(1)] by simp
  qed (use trail_inv_level(4) [OF inv v] nth_mem in force)
  consider "tlevel (ttrail T ! v) = -1" | "v \<in> set Z" "tlevel (ttrail T ! v) = -2"
    | lev where "lev < length Ls" "v \<in> set (Ls ! lev)" "tlevel (ttrail T ! v) = int lev"
    using inv v trail_inv_level [OF inv v] unfolding trail_inv_def by (metis Trail_default_sel(1))
  then show ?thesis
  proof cases
    case 1
    then have "removeFromTrail (int v) T = Some (False, T)" using v by (simp add: removeFromTrail_def tget_int)
    moreover have "Z \<noteq> [v]" "[v] \<notin> set Ls" using 1 trail_inv_level(2) [OF inv v] lone by auto
    ultimately show ?thesis
      using inv trail_inv_lists(1) [OF inv v 1] trail_inv_level(1) [OF inv v] 1 by auto
  next
    case 2
    then obtain xs ys where z: "Z = xs @ v # ys" by (meson split_list)
    then have "v \<notin> set xs" using inv by (auto simp: trail_inv_def ring_def)
    then show ?thesis
      using trail_inv_remove_lazy [OF inv z] trail_inv_lists(2) [OF inv v 2(2)] z lone 2(2)
      by (auto simp: remove1_middle append_eq_Cons_conv)
  next
    case 3
    then obtain xs ys where z: "Ls ! lev = xs @ v # ys" by (meson split_list)
    then have "v \<notin> set xs" using inv 3(1) by (auto simp: trail_inv_def ring_def)
    moreover have "Z \<noteq> [v]" using 3(3) trail_inv_level(2) [OF inv v] by auto
    ultimately show ?thesis
      using trail_inv_remove_level [OF inv 3(1) z] trail_inv_lists(3) [OF inv v 3(3)] z lone 3(3)
      by (auto simp: remove1_middle append_eq_Cons_conv)
  qed
qed


subsection \<open>Adding to a list\<close>

lemma ring_append_array:
  assumes "ring tr lev (d # zs)" "v \<notin> set (d # zs)" "v < length tr"
    "length tr' = length tr"
    "tr' = ((tr[last (d # zs) := (tr ! last (d # zs))\<lparr>next_var := int v\<rparr>])
        [d := (tr[last (d # zs) := (tr ! last (d # zs))\<lparr>next_var := int v\<rparr>] ! d)\<lparr>prev_var := int v\<rparr>])
        [v := \<lparr>tlevel = lev, prev_var = int (last (d # zs)), next_var = int d\<rparr>]"
  shows "ring tr' lev (d # zs @ [v])" "\<And>x. x \<notin> set (v # d # zs) \<Longrightarrow> tr' ! x = tr ! x"
proof -
  have d: "d < length tr" "last (d # zs) < length tr" "last (d # zs) \<in> set (d # zs)"
    using ring_neighbours [OF assms(1)] assms(1) last_in_set [of "d # zs"] by (auto simp: ring_def simp del: last.simps)
  have nv: "last (d # zs) \<noteq> v" "d \<noteq> v" using assms(2) d(3) by (metis, auto)
  show "ring tr' lev (d # zs @ [v])"
    by (rule ring_append [OF assms(1-4)])
      (use d(1,2) nv assms(3,5) in \<open>auto simp: nth_list_update simp del: last.simps\<close>)
  show "tr' ! x = tr ! x" if "x \<notin> set (v # d # zs)" for x
  proof -
    have "x \<noteq> last (d # zs)" "x \<noteq> d" "x \<noteq> v" using that d(3) by (metis list.set_intros(2), auto)
    then show ?thesis by (simp add: assms(5) del: last.simps)
  qed
qed

text \<open>The invariant after one list has been replaced.\<close>

lemma trail_inv_replace:
  assumes inv: "trail_inv T Ls Z" and lev: "lev < length Ls" and v: "v < length (ttrail T)" "tlevel (ttrail T ! v) = -1"
    and T': "decisions T' = (decisions T)[lev := head_of L]" "lazy_trail_head T' = lazy_trail_head T"
      "length (ttrail T') = length (ttrail T)" "ring (ttrail T') (int lev) L" "set L = insert v (set (Ls ! lev))"
      "\<And>x. x \<notin> set L \<Longrightarrow> ttrail T' ! x = ttrail T ! x"
  shows "trail_inv T' (Ls[lev := L]) Z"
proof -
  have W: "tlevel (ttrail T ! x) = int lev \<or> tlevel (ttrail T ! x) = -1" if "x \<in> set L" for x
    using that inv lev v by (auto simp: T'(5) trail_inv_def ring_def)
  have fr: "ring (ttrail T') k vs" if "ring (ttrail T) k vs" "k \<noteq> int lev" "k \<noteq> -1" for k vs
    by (rule ring_frame [OF that(1), of "set L"]) (use T'(3,6) W that(2,3) in fastforce)+
  show ?thesis
    unfolding trail_inv_def
  proof (intro conjI allI impI)
    fix k assume k: "k < length (Ls[lev := L])"
    then have r: "ring (ttrail T) (int k) (Ls ! k)" "decisions T ! k = head_of (Ls ! k)" "length (decisions T) = length Ls"
      using inv by (simp_all add: trail_inv_def)
    show "ring (ttrail T') (int k) (Ls[lev := L] ! k)"
      using fr [OF r(1)] T'(4) lev by (cases "k = lev") simp_all
    show "decisions T' ! k = head_of (Ls[lev := L] ! k)"
      using r(2,3) lev by (cases "k = lev") (simp_all add: T'(1))
  next
    fix x assume x: "x < length (ttrail T')"
    show "ttrail T' ! x = Trail_default \<or> x \<in> set Z \<or> (\<exists>k < length (Ls[lev := L]). x \<in> set (Ls[lev := L] ! k))"
    proof (cases "x \<in> set L")
      case True
      then show ?thesis using lev by (metis length_list_update nth_list_update_eq)
    next
      case False
      then have "ttrail T ! x = Trail_default \<or> x \<in> set Z \<or> (\<exists>k < length Ls. x \<in> set (Ls ! k))"
        using inv x T'(3) by (simp add: trail_inv_def)
      moreover have "x \<notin> set (Ls ! lev)" using False T'(5) by simp
      ultimately show ?thesis using T'(6) [OF False] by (metis length_list_update nth_list_update_neq)
    qed
  next
    show "ring (ttrail T') (-2) Z" using inv fr [of "-2" Z] by (simp add: trail_inv_def)
  qed (use inv in \<open>simp_all add: trail_inv_def T'(1,2)\<close>)
qed

lemma trail_inv_grow:
  assumes "trail_inv T Ls Z"
  shows "trail_inv (T\<lparr>decisions := vec_grow n var_Undef (decisions T)\<rparr>) (vec_grow n [] Ls) Z"
proof -
  have "length (decisions T) = length Ls" using assms by (simp add: trail_inv_def)
  then show ?thesis
    using assms unfolding trail_inv_def by (auto simp: nth_vec_grow)
qed

lemma appendToTrail_correct:
  assumes inv: "trail_inv T Ls Z" and v: "var l = int v" "v < length (ttrail T)" "ttrail T ! v = Trail_default"
  shows "\<exists>T'. appendToTrail l lev T = Some T' \<and> length (ttrail T') = length (ttrail T) \<and>
     trail_inv T' ((vec_grow (lev + 1) [] Ls)[lev := vec_grow (lev + 1) [] Ls ! lev @ [v]]) Z"
proof -
  define T1 where "T1 = T\<lparr>decisions := vec_grow (lev + 1) var_Undef (decisions T)\<rparr>"
  let ?Ls = "vec_grow (lev + 1) [] Ls"
  have inv1: "trail_inv T1 ?Ls Z" unfolding T1_def by (rule trail_inv_grow [OF inv])
  have lev: "lev < length ?Ls" by simp
  have r: "ring (ttrail T) (int lev) (?Ls ! lev)" and d: "decisions T1 ! lev = head_of (?Ls ! lev)"
    and dl: "lev < length (decisions T1)"
    using inv1 lev by (auto simp: trail_inv_def T1_def)
  have f: "ttrail T1 = ttrail T" "lazy_trail_head T1 = lazy_trail_head T" by (simp_all add: T1_def)
  have nv: "v \<notin> set (?Ls ! lev)" using r v(3) by (auto simp: ring_def)
  show ?thesis
  proof (cases "?Ls ! lev")
    case Nil
    let ?T' = "T1\<lparr>decisions := (decisions T1)[lev := int v], ttrail := (ttrail T)[v := \<lparr>tlevel = int lev, prev_var = int v, next_var = int v\<rparr>]\<rparr>"
    have "appendToTrail l lev T = Some ?T'"
      using Nil d v unfolding appendToTrail_def self_link_def
      by (simp add: T1_def [unfolded Suc_eq_plus1 [symmetric], symmetric] Let_def set_int f Trail_default_def)
    moreover have "trail_inv ?T' (?Ls[lev := [v]]) Z"
      using v by (intro trail_inv_replace [OF inv1 lev, of v]) (auto simp: f Nil [simplified] ring_def pairs_def)
    ultimately show ?thesis using Nil by (auto simp: f)
  next
    case (Cons h zs)
    let ?b = "last (h # zs)"
    let ?tr = "(((ttrail T)[?b := (ttrail T ! ?b)\<lparr>next_var := int v\<rparr>])
        [h := ((ttrail T)[?b := (ttrail T ! ?b)\<lparr>next_var := int v\<rparr>] ! h)\<lparr>prev_var := int v\<rparr>])
        [v := \<lparr>tlevel = int lev, prev_var = int ?b, next_var = int h\<rparr>]"
    have n: "prev_var (ttrail T ! h) = int ?b" "?b < length (ttrail T)" "h < length (ttrail T)"
      using ring_neighbours [OF r [unfolded Cons]] r Cons by (auto simp: ring_def simp del: last.simps)
    have bv: "?b \<noteq> v" "h \<noteq> v" using nv Cons last_in_set [of "h # zs"] by (metis list.discI, auto)
    have "appendToTrail l lev T = Some (T1\<lparr>ttrail := ?tr\<rparr>)"
      using Cons d v n bv unfolding appendToTrail_def
      apply (simp add: T1_def [unfolded Suc_eq_plus1 [symmetric], symmetric] Let_def set_int f getPrev_def tget_int
          Trail_default_def del: last.simps)
      apply (rule arg_cong [where f = "\<lambda>t. T1\<lparr>ttrail := t\<rparr>"], rule nth_equalityI)
       apply (auto simp: nth_list_update simp del: last.simps)
      done
    moreover have "trail_inv (T1\<lparr>ttrail := ?tr\<rparr>) (?Ls[lev := h # zs @ [v]]) Z"
    proof (rule trail_inv_replace [OF inv1 lev, of v])
      show "ring (ttrail (T1\<lparr>ttrail := ?tr\<rparr>)) (int lev) (h # zs @ [v])"
        using ring_append_array(1) [OF r [unfolded Cons], of v ?tr] nv Cons v(2) by simp
      show "ttrail (T1\<lparr>ttrail := ?tr\<rparr>) ! x = ttrail T1 ! x" if "x \<notin> set (h # zs @ [v])" for x
        using ring_append_array(2) [OF r [unfolded Cons], of v ?tr] nv Cons v(2) that by (simp add: f)
      have "(decisions T1)[lev := int h] = decisions T1" using d Cons by (metis head_of_simps(2) list_update_id)
      then show "decisions (T1\<lparr>ttrail := ?tr\<rparr>) = (decisions T1)[lev := head_of (h # zs @ [v])]" by simp
    qed (use v d Cons in \<open>auto simp: f\<close>)
    ultimately show ?thesis using Cons by (auto simp: f)
  qed
qed


lemma trail_inv_replace_lazy:
  assumes inv: "trail_inv T Ls Z" and v: "v < length (ttrail T)" "tlevel (ttrail T ! v) = -1"
    and T': "decisions T' = decisions T" "lazy_trail_head T' = head_of L"
      "length (ttrail T') = length (ttrail T)" "ring (ttrail T') (-2) L" "set L = insert v (set Z)"
      "\<And>x. x \<notin> set L \<Longrightarrow> ttrail T' ! x = ttrail T ! x"
  shows "trail_inv T' Ls L"
proof -
  have W: "tlevel (ttrail T ! x) = -2 \<or> tlevel (ttrail T ! x) = -1" if "x \<in> set L" for x
    using that inv v by (auto simp: T'(5) trail_inv_def ring_def)
  have fr: "ring (ttrail T') (int k) vs" if "ring (ttrail T) (int k) vs" for k vs
    by (rule ring_frame [OF that(1), of "set L"]) (use T'(3,6) W in fastforce)+
  have "ttrail T' ! x = Trail_default \<or> x \<in> set L \<or> (\<exists>k < length Ls. x \<in> set (Ls ! k))"
    if x: "x < length (ttrail T')" for x
    using inv x T'(3,5,6) unfolding trail_inv_def by (cases "x \<in> set L") (simp, metis insertCI)
  then show ?thesis using inv fr T'(1-4) by (auto simp: trail_inv_def)
qed

text \<open>After the variable has been taken off its list, both lazy operations write the same links; they differ in
  the head, hence in the order of the ring.\<close>

lemma lazy_links:
  assumes inv: "trail_inv T Ls Z" and v: "v < length (ttrail T)" "ttrail T ! v = Trail_default"
    and Z: "Z = h # zs"
  defines "b \<equiv> last (h # zs)"
  defines "tr \<equiv> (((ttrail T)[b := (ttrail T ! b)\<lparr>next_var := int v\<rparr>])
        [h := ((ttrail T)[b := (ttrail T ! b)\<lparr>next_var := int v\<rparr>] ! h)\<lparr>prev_var := int v\<rparr>])
        [v := \<lparr>tlevel = -2, prev_var = int b, next_var = int h\<rparr>]"
  shows "trail_inv (T\<lparr>ttrail := tr\<rparr>) Ls (Z @ [v])" "trail_inv (T\<lparr>ttrail := tr, lazy_trail_head := int v\<rparr>) Ls (v # Z)"
    "prev_var (ttrail T ! h) = int b" "b < length (ttrail T)" "h < length (ttrail T)" "b \<noteq> v" "h \<noteq> v"
proof -
  have r: "ring (ttrail T) (-2) (h # zs)" using inv Z by (simp add: trail_inv_def)
  have nv: "v \<notin> set (h # zs)" using r v(2) by (auto simp: ring_def)
  show n: "prev_var (ttrail T ! h) = int b" "b < length (ttrail T)" "h < length (ttrail T)"
    using ring_neighbours [OF r] r unfolding b_def by (auto simp: ring_def simp del: last.simps)
  show "b \<noteq> v" "h \<noteq> v" using nv last_in_set [of "h # zs"] unfolding b_def by (metis list.discI, auto)
  have tr: "ring tr (-2) (h # zs @ [v])" "\<And>x. x \<notin> set (v # h # zs) \<Longrightarrow> tr ! x = ttrail T ! x"
    using ring_append_array [OF r nv v(1), of tr] by (auto simp: tr_def b_def simp del: last.simps)
  have r2: "ring tr (-2) (v # h # zs)" using tr(1) ring_rotate [of tr "-2" "h # zs" "[v]"] by simp
  have l: "length tr = length (ttrail T)" by (simp add: tr_def)
  show "trail_inv (T\<lparr>ttrail := tr\<rparr>) Ls (Z @ [v])"
    by (rule trail_inv_replace_lazy [OF inv v(1)]) (use inv Z v tr l in \<open>auto simp: trail_inv_def\<close>)
  show "trail_inv (T\<lparr>ttrail := tr, lazy_trail_head := int v\<rparr>) Ls (v # Z)"
    by (rule trail_inv_replace_lazy [OF inv v(1)]) (use Z v tr(2) r2 l in auto)
qed

lemma lazy_self_link:
  assumes inv: "trail_inv T Ls []" and v: "v < length (ttrail T)" "ttrail T ! v = Trail_default"
  shows "\<exists>T'. self_link (int v) (-2) (T\<lparr>lazy_trail_head := int v\<rparr>) = Some T' \<and> trail_inv T' Ls [v] \<and>
     length (ttrail T') = length (ttrail T)"
proof -
  let ?T' = "T\<lparr>lazy_trail_head := int v, ttrail := (ttrail T)[v := \<lparr>tlevel = -2, prev_var = int v, next_var = int v\<rparr>]\<rparr>"
  have "self_link (int v) (-2) (T\<lparr>lazy_trail_head := int v\<rparr>) = Some ?T'"
    using v by (simp add: self_link_def set_int Trail_default_def)
  moreover have "trail_inv ?T' Ls [v]"
    using v by (intro trail_inv_replace_lazy [OF inv v(1)]) (auto simp: ring_def pairs_def)
  ultimately show ?thesis by auto
qed

lemma appendToLazyTrail_correct:
  assumes inv: "trail_inv T Ls Z" and v: "var l = int v" "v < length (ttrail T)"
  shows "\<exists>T'. appendToLazyTrail l T = Some T' \<and> trail_inv T' (map (remove1 v) Ls) (remove1 v Z @ [v]) \<and>
     length (ttrail T') = length (ttrail T)"
proof -
  obtain b T1 where T1: "removeFromTrail (int v) T = Some (b, T1)" "trail_inv T1 (map (remove1 v) Ls) (remove1 v Z)"
    "ttrail T1 ! v = Trail_default" "length (ttrail T1) = length (ttrail T)"
    using trail_remove_correct [OF inv v(2)] by blast
  have v1: "v < length (ttrail T1)" using v(2) T1(4) by simp
  have h: "lazy_trail_head T1 = head_of (remove1 v Z)" using T1(2) by (simp add: trail_inv_def)
  show ?thesis
  proof (cases "remove1 v Z")
    case Nil
    then show ?thesis
      using lazy_self_link [OF T1(2) [unfolded Nil] v1 T1(3)] T1(1,4) h v(1)
      by (auto simp: appendToLazyTrail_def)
  next
    case (Cons x zs)
    note ll = lazy_links [OF T1(2) v1 T1(3) Cons]
    have "appendToLazyTrail l T = Some (T1\<lparr>ttrail := (((ttrail T1)[last (x # zs) := (ttrail T1 ! last (x # zs))\<lparr>next_var := int v\<rparr>])
        [x := ((ttrail T1)[last (x # zs) := (ttrail T1 ! last (x # zs))\<lparr>next_var := int v\<rparr>] ! x)\<lparr>prev_var := int v\<rparr>])
        [v := \<lparr>tlevel = -2, prev_var = int (last (x # zs)), next_var = int x\<rparr>]\<rparr>)"
      unfolding appendToLazyTrail_def v(1) T1(1)
      using ll(3-7) v1 T1(3) h Cons
      by (simp add: Let_def getPrev_def tget_int set_int Trail_default_def del: last.simps)
    then show ?thesis using ll(1) T1(4) Cons by auto
  qed
qed

lemma prependToLazyTrail_correct:
  assumes inv: "trail_inv T Ls Z" and v: "var l = int v" "v < length (ttrail T)"
  shows "\<exists>T'. prependToLazyTrail l T = Some T' \<and> trail_inv T' (map (remove1 v) Ls) (v # remove1 v Z) \<and>
     length (ttrail T') = length (ttrail T)"
proof -
  obtain b T1 where T1: "removeFromTrail (int v) T = Some (b, T1)" "trail_inv T1 (map (remove1 v) Ls) (remove1 v Z)"
    "ttrail T1 ! v = Trail_default" "length (ttrail T1) = length (ttrail T)"
    using trail_remove_correct [OF inv v(2)] by blast
  have v1: "v < length (ttrail T1)" using v(2) T1(4) by simp
  have h: "lazy_trail_head T1 = head_of (remove1 v Z)" using T1(2) by (simp add: trail_inv_def)
  show ?thesis
  proof (cases "remove1 v Z")
    case Nil
    then show ?thesis
      using lazy_self_link [OF T1(2) [unfolded Nil] v1 T1(3)] T1(1,4) h v(1)
      by (auto simp: prependToLazyTrail_def)
  next
    case (Cons x zs)
    note ll = lazy_links [OF T1(2) v1 T1(3) Cons]
    let ?b = "last (x # zs)"
    have "prependToLazyTrail l T = Some (T1\<lparr>ttrail := (((ttrail T1)[?b := (ttrail T1 ! ?b)\<lparr>next_var := int v\<rparr>])
        [x := ((ttrail T1)[?b := (ttrail T1 ! ?b)\<lparr>next_var := int v\<rparr>] ! x)\<lparr>prev_var := int v\<rparr>])
        [v := \<lparr>tlevel = -2, prev_var = int ?b, next_var = int x\<rparr>], lazy_trail_head := int v\<rparr>)"
      unfolding prependToLazyTrail_def v(1) T1(1)
      using ll(3-7) v1 T1(3) h Cons
      apply (simp add: Let_def getPrev_def tget_int set_int Trail_default_def del: last.simps)
      apply (rule arg_cong [where f = "\<lambda>t. T1\<lparr>ttrail := t, lazy_trail_head := int v\<rparr>"], rule nth_equalityI)
       apply (auto simp: nth_list_update Trail_swap simp del: last.simps)
      done
    then show ?thesis using ll(2) T1(4) Cons by auto
  qed
qed


lemma insertIntoTrail_correct:
  assumes inv: "trail_inv T Ls Z" and v: "var l = int v" "v < length (ttrail T)" "ttrail T ! v = Trail_default"
    and a: "lev < length Ls" "Ls ! lev = xs @ a # ys"
  shows "\<exists>T'. insertIntoTrail l (int a) T = Some T' \<and> trail_inv T' (Ls[lev := xs @ a # v # ys]) Z \<and>
     length (ttrail T') = length (ttrail T)"
proof -
  have r: "ring (ttrail T) (int lev) (xs @ a # ys)" and d: "decisions T ! lev = head_of (xs @ a # ys)"
    using inv a by (auto simp: trail_inv_def)
  obtain h zs where h: "ys @ xs @ [a] = h # zs" by (cases "ys @ xs @ [a]") auto
  have "ring (ttrail T) (int lev) (ys @ xs @ [a])" using r ring_rotate [of "ttrail T" "int lev" "xs @ [a]" ys] by simp
  then have r': "ring (ttrail T) (int lev) (h # zs)" by (simp only: h)
  have hl: "last (h # zs) = a" unfolding h [symmetric] by simp
  have hs: "set (h # zs) = set (xs @ a # ys)" unfolding h [symmetric] by auto
  have nv: "v \<notin> set (h # zs)" using r' v(3) by (auto simp: ring_def)
  have ra: "ring (ttrail T) (int lev) (a # ys @ xs)" using r ring_rotate [of "ttrail T" "int lev" xs "a # ys"] by simp
  have nx: "next_var (ttrail T ! a) = int h"
  proof -
    have "hd ((ys @ xs) @ [a]) = h" using h by (metis append_assoc list.sel(1))
    then show ?thesis using ring_neighbours(1) [OF ra] by simp
  qed
  have b: "h < length (ttrail T)" "a < length (ttrail T)" "tlevel (ttrail T ! a) = int lev" "a \<noteq> v" "h \<noteq> v"
    using r' r nv hs by (auto simp: ring_def)
  let ?tr = "(((ttrail T)[a := (ttrail T ! a)\<lparr>next_var := int v\<rparr>])
        [h := ((ttrail T)[a := (ttrail T ! a)\<lparr>next_var := int v\<rparr>] ! h)\<lparr>prev_var := int v\<rparr>])
        [v := \<lparr>tlevel = int lev, prev_var = int a, next_var = int h\<rparr>]"
  note tr = ring_append_array [OF r' nv v(2), of ?tr, unfolded hl]
  have "insertIntoTrail l (int a) T = Some (T\<lparr>ttrail := ?tr\<rparr>)"
    unfolding insertIntoTrail_def v(1)
    using nx b v(2,3) by (cases "a = h") (simp_all add: getNext_def tget_int set_int Trail_default_def Let_def)
  moreover have "ring ?tr (int lev) (xs @ a # v # ys)"
  proof -
    have "ring ?tr (int lev) (h # zs @ [v])" using tr(1) by simp
    moreover have "h # zs @ [v] = ys @ xs @ [a, v]" using h by (metis append_Cons append_assoc append_Nil)
    ultimately show ?thesis using ring_rotate [of ?tr "int lev" ys "xs @ [a, v]"] by simp
  qed
  moreover have "head_of (xs @ a # v # ys) = decisions T ! lev" using d by (cases xs) auto
  ultimately show ?thesis
    using v tr(2) hs
    by (intro exI [of _ "T\<lparr>ttrail := ?tr\<rparr>"] conjI trail_inv_replace [OF inv a(1) v(2)])
      (auto simp: a(2))
qed

text \<open>C19: the trail is a correct set of circular lists. In a state whose array represents the lists \<open>Ls\<close> (one per
  level) and \<open>Z\<close> (the lazy list), \<open>removeFromTrail\<close> removes the variable from the list that holds it and returns
  whether that list has become empty, \<open>appendToTrail\<close> appends a free variable to the list of a level, growing
  \<open>decisions\<close> as needed, \<open>insertIntoTrail\<close> puts it behind a given one, and the two lazy operations move a variable to
  the front or to the back of the lazy list; all of them return and keep the representation.\<close>

theorem trail_lists_correct:
  assumes "trail_inv T Ls Z" "var l = int v" "v < length (ttrail T)"
  shows "(\<exists>T'. removeFromTrail (var l) T = Some ([v] \<in> set Ls \<or> Z = [v], T') \<and>
            trail_inv T' (map (remove1 v) Ls) (remove1 v Z)) \<and>
         (\<exists>T'. appendToLazyTrail l T = Some T' \<and> trail_inv T' (map (remove1 v) Ls) (remove1 v Z @ [v])) \<and>
         (\<exists>T'. prependToLazyTrail l T = Some T' \<and> trail_inv T' (map (remove1 v) Ls) (v # remove1 v Z)) \<and>
         (ttrail T ! v = Trail_default \<longrightarrow>
            (\<exists>T'. appendToTrail l lev T = Some T' \<and>
               trail_inv T' ((vec_grow (lev + 1) [] Ls)[lev := vec_grow (lev + 1) [] Ls ! lev @ [v]]) Z)) \<and>
         (ttrail T ! v = Trail_default \<and> lev < length Ls \<and> Ls ! lev = xs @ a # ys \<longrightarrow>
            (\<exists>T'. insertIntoTrail l (int a) T = Some T' \<and> trail_inv T' (Ls[lev := xs @ a # v # ys]) Z))"
  using trail_remove_correct [OF assms(1,3)] appendToLazyTrail_correct [OF assms] prependToLazyTrail_correct [OF assms]
    appendToTrail_correct [OF assms, of lev] insertIntoTrail_correct [OF assms, of lev xs a ys]
  unfolding assms(2) by blast

text \<open>Variable 0 is alone on level 0, variable 1 is free.\<close>

definition small_trail :: TrailState where
  "small_trail = \<lparr>ttrail = [\<lparr>tlevel = 0, prev_var = 0, next_var = 0\<rparr>, Trail_default], decisions = [0],
     lazy_trail_head = var_Undef, bvtrail = []\<rparr>"

lemma small_trail_inv: "trail_inv small_trail [[0]] []"
  by (auto simp: trail_inv_def small_trail_def ring_def pairs_def less_Suc_eq)

theorem trail_lists_correct_witness:
  "\<exists>T'. appendToTrail (mkLit 1 False) 0 small_trail = Some T' \<and> trail_inv T' [[0, 1]] []"
  using trail_lists_correct [OF small_trail_inv, of "mkLit 1 False" 1 0]
  by (simp add: small_trail_def lit_simps vec_grow_def)

end
