(* ===== verification/Graph_Theory.thy ===== *)
theory Graph_Theory
  imports Theory_Trail Dynamic_Graph Solver_Core
begin

text \<open>
  The part of \<open>GraphTheorySolver\<close> (\<open>graph/GraphTheory.h\<close>) that keeps the two graphs of a problem in step with the
  assignment: theory variables and their edges, the assignment and its trail, the under-approximation \<open>g_under\<close>
  (the edges assigned true) and the over-approximation \<open>g_over\<close> (the edges not assigned false), and the base class
  \<open>Detector\<close> of \<open>graph/Detector.h\<close>.

  The SAT solver is the state \<open>S\<close> of the theory of the solver core; its table from solver variables to variables
  of this theory is the association list \<open>theory_vars\<close>. No bit-vector theory and no theory of its own is attached
  to the graph theory, no detector has a default heuristic, and log files and statistics are left out. A result
  \<open>None\<close> is an access outside a vector or a thrown exception.
\<close>

subsection \<open>State\<close>

record GVarData =
  gisEdge :: bool
  gisBV :: bool
  gisTheoryVar :: bool
  gisSatisfied :: bool
  detector_edge :: int
  solverVar :: int
  theory_var :: int

record GEdge =
  ge_v :: int
  ge_outerVar :: int
  ge_from :: int
  ge_to :: int
  ge_edgeID :: int
  ge_bvID :: int

record Detector =
  detectorID :: nat
  unassigned_positives :: int
  unassigned_negatives :: int

record GraphTheory =
  gvars :: "GVarData list"
  gassigns :: "lbool list"
  edge_list :: "GEdge list"
  edge_weights :: "int list"
  g_under :: DynamicGraph
  g_over :: DynamicGraph
  cutGraph :: DynamicGraph
  g_under_weights_over :: DynamicGraph
  g_over_weights_under :: DynamicGraph
  tstate :: TrailState
  detectors :: "Detector list"
  satisfied_detectors :: "bool list"
  n_satisfied_detectors :: int
  satisfied_lits :: "(int \<times> Lit) list"
  rewound_assigns :: "Lit list"
  theory_vars :: "(int \<times> int) list"
  requiresPropagation :: bool
  s_needsPropagation :: bool
  frozen :: bool
  all_edges_unit :: bool
  all_edges_positive :: bool
  using_neg_weights :: bool
  assign_edges_to_weight :: "int option"
  opt_conflict_min_cut :: bool
  opt_lazy_backtrack :: bool
  lazy_backtracking_enabled :: bool

definition GraphTheory_init :: GraphTheory where
  "GraphTheory_init =
     \<lparr>gvars = [], gassigns = [], edge_list = [], edge_weights = [], g_under = DynamicGraph_init,
      g_over = DynamicGraph_init, cutGraph = DynamicGraph_init, g_under_weights_over = DynamicGraph_init,
      g_over_weights_under = DynamicGraph_init, tstate = TrailState_init, detectors = [],
      satisfied_detectors = [], n_satisfied_detectors = 0, satisfied_lits = [], rewound_assigns = [],
      theory_vars = [], requiresPropagation = True, s_needsPropagation = False, frozen = False,
      all_edges_unit = True, all_edges_positive = True, using_neg_weights = False,
      assign_edges_to_weight = None, opt_conflict_min_cut = False, opt_lazy_backtrack = False,
      lazy_backtracking_enabled = False\<rparr>"

subsection \<open>Variables, literals and values\<close>

definition gvar :: "GraphTheory \<Rightarrow> int \<Rightarrow> GVarData option" where
  "gvar G v = (if 0 \<le> v \<and> nat v < length (gvars G) then Some (gvars G ! nat v) else None)"

definition isEdgeVar :: "GraphTheory \<Rightarrow> int \<Rightarrow> bool option" where
  "isEdgeVar G v = map_option gisEdge (gvar G v)"

definition getEdgeID :: "GraphTheory \<Rightarrow> int \<Rightarrow> int option" where
  "getEdgeID G v = map_option detector_edge (gvar G v)"

definition getDetector :: "GraphTheory \<Rightarrow> int \<Rightarrow> int option" where
  "getDetector G v = map_option detector_edge (gvar G v)"

definition getEdgeVar :: "GraphTheory \<Rightarrow> nat \<Rightarrow> int option" where
  "getEdgeVar G i = (if i < length (edge_list G) then Some (ge_v (edge_list G ! i)) else None)"

definition toSolver_var :: "GraphTheory \<Rightarrow> int \<Rightarrow> int option" where
  "toSolver_var G v = map_option solverVar (gvar G v)"

definition toSolver_lit :: "GraphTheory \<Rightarrow> Lit \<Rightarrow> Lit option" where
  "toSolver_lit G l =
     (if l = lit_Undef then Some lit_Undef
      else do { d \<leftarrow> gvar G (var l); Some (mkLit (solverVar d) (sign l)) })"

fun toSolver :: "GraphTheory \<Rightarrow> Lit list \<Rightarrow> Lit list option" where
  "toSolver G [] = Some []"
| "toSolver G (l # ls) = do { l \<leftarrow> toSolver_lit G l; ls \<leftarrow> toSolver G ls; Some (l # ls) }"

definition gvalue_var :: "GraphTheory \<Rightarrow> int \<Rightarrow> lbool option" where
  "gvalue_var G v = (if 0 \<le> v \<and> nat v < length (gassigns G) then Some (gassigns G ! nat v) else None)"

definition gvalue :: "GraphTheory \<Rightarrow> Lit \<Rightarrow> lbool option" where
  "gvalue G l = map_option (\<lambda>b. lbool_xor b (sign l)) (gvalue_var G (var l))"

definition gdecisionLevel :: "GraphTheory \<Rightarrow> int" where
  "gdecisionLevel G = trail_decisionLevel (tstate G)"

definition nNodes :: "GraphTheory \<Rightarrow> nat" where
  "nNodes G = nodes (g_under G)"

definition isNode :: "GraphTheory \<Rightarrow> int \<Rightarrow> bool" where
  "isNode G n \<longleftrightarrow> n \<ge> 0 \<and> n < int (nNodes G)"

definition checkFrozen :: "GraphTheory \<Rightarrow> unit option" where
  "checkFrozen G = (if frozen G then None else Some ())"

definition freezeGraph :: "GraphTheory \<Rightarrow> GraphTheory" where
  "freezeGraph G = G\<lparr>frozen := True\<rparr>"

subsection \<open>The base class of the detectors\<close>

definition det_assign :: "Lit \<Rightarrow> Detector \<Rightarrow> Detector" where
  "det_assign l d =
     (if sign l then d\<lparr>unassigned_negatives := unassigned_negatives d - 1\<rparr>
      else d\<lparr>unassigned_positives := unassigned_positives d - 1\<rparr>)"

definition det_unassign :: "Lit \<Rightarrow> Detector \<Rightarrow> Detector" where
  "det_unassign l d =
     (if sign l then d\<lparr>unassigned_negatives := unassigned_negatives d + 1\<rparr>
      else d\<lparr>unassigned_positives := unassigned_positives d + 1\<rparr>)"

definition det_addVar :: "Detector \<Rightarrow> Detector" where
  "det_addVar d =
     d\<lparr>unassigned_negatives := unassigned_negatives d + 1, unassigned_positives := unassigned_positives d + 1\<rparr>"

definition with_detector :: "int \<Rightarrow> (Detector \<Rightarrow> Detector) \<Rightarrow> GraphTheory \<Rightarrow> GraphTheory option" where
  "with_detector d f G =
     (if 0 \<le> d \<and> nat d < length (detectors G)
      then Some (G\<lparr>detectors := (detectors G)[nat d := f (detectors G ! nat d)]\<rparr>) else None)"

subsection \<open>Assigning and unassigning a literal\<close>

definition assign_lit :: "Lit \<Rightarrow> GraphTheory \<Rightarrow> GraphTheory option" where
  "assign_lit l G = do {
     d \<leftarrow> gvar G (var l);
     _ \<leftarrow> gvalue_var G (var l);
     let G = G\<lparr>gassigns := (gassigns G)[nat (var l) := (if sign l then l_False else l_True)]\<rparr>;
     if gisTheoryVar d then None
     else if gisEdge d then do {
       let e = nat (detector_edge d);
       G \<leftarrow> (if \<not> sign l then do {
                 g \<leftarrow> enableEdge e (g_under G);
                 let G = G\<lparr>g_under := g\<rparr>;
                 case assign_edges_to_weight G of
                   Some w \<Rightarrow> do { g \<leftarrow> setEdgeWeight e w (g_over G); Some (G\<lparr>g_over := g\<rparr>) }
                 | None \<Rightarrow> Some G
               } else do {
                 g \<leftarrow> disableEdge e (g_over G);
                 let G = G\<lparr>g_over := g\<rparr>;
                 if opt_conflict_min_cut G then do {
                   c \<leftarrow> enableEdge (e * 2) (cutGraph G);
                   c \<leftarrow> disableEdge (e * 2 + 1) c;
                   Some (G\<lparr>cutGraph := c\<rparr>)
                 } else Some G
               });
       G \<leftarrow> (if gdecisionLevel G = 0 then do {
                 u \<leftarrow> makeEdgeAssignmentConstant e (g_under G);
                 ov \<leftarrow> makeEdgeAssignmentConstant e (g_over G);
                 Some (G\<lparr>g_under := u, g_over := ov\<rparr>)
               } else Some G);
       if using_neg_weights G then do {
         G \<leftarrow> (if \<not> sign l then do {
                   g \<leftarrow> enableEdge e (g_under_weights_over G); Some (G\<lparr>g_under_weights_over := g\<rparr>)
                 } else do {
                   g \<leftarrow> disableEdge e (g_over_weights_under G); Some (G\<lparr>g_over_weights_under := g\<rparr>)
                 });
         if gdecisionLevel G = 0 then do {
           u \<leftarrow> makeEdgeAssignmentConstant e (g_under_weights_over G);
           ov \<leftarrow> makeEdgeAssignmentConstant e (g_over_weights_under G);
           Some (G\<lparr>g_under_weights_over := u, g_over_weights_under := ov\<rparr>)
         } else Some G
       } else Some G
     } else with_detector (detector_edge d) (det_assign l) G
   }"

definition backtrackAssign :: "Lit \<Rightarrow> GraphTheory \<Rightarrow> GraphTheory option" where
  "backtrackAssign l G = do {
     d \<leftarrow> gvar G (var l);
     _ \<leftarrow> gvalue_var G (var l);
     G \<leftarrow> (if gisEdge d then do {
               let e = nat (detector_edge d);
               G \<leftarrow> (if \<not> sign l then do {
                         g \<leftarrow> disableEdge e (g_under G);
                         let G = G\<lparr>g_under := g\<rparr>;
                         if assign_edges_to_weight G \<noteq> None then do {
                           w \<leftarrow> getWeight (g_under G) e;
                           g \<leftarrow> setEdgeWeight e w (g_over G);
                           Some (G\<lparr>g_over := g\<rparr>)
                         } else Some G
                       } else do {
                         g \<leftarrow> enableEdge e (g_over G);
                         let G = G\<lparr>g_over := g\<rparr>;
                         if opt_conflict_min_cut G then do {
                           c \<leftarrow> disableEdge (e * 2) (cutGraph G);
                           c \<leftarrow> enableEdge (e * 2 + 1) c;
                           Some (G\<lparr>cutGraph := c\<rparr>)
                         } else Some G
                       });
               if using_neg_weights G then
                 if \<not> sign l then do {
                   g \<leftarrow> disableEdge e (g_under_weights_over G); Some (G\<lparr>g_under_weights_over := g\<rparr>)
                 } else do {
                   g \<leftarrow> enableEdge e (g_over_weights_under G); Some (G\<lparr>g_over_weights_under := g\<rparr>)
                 }
               else Some G
             } else with_detector (detector_edge d) (det_unassign (mkLit (var l) (sign l))) G);
     Some (G\<lparr>gassigns := (gassigns G)[nat (var l) := l_Undef]\<rparr>)
   }"

subsection \<open>Following the SAT solver\<close>

definition gnewDecisionLevel :: "GraphTheory \<Rightarrow> GraphTheory" where
  "gnewDecisionLevel G = G\<lparr>tstate := (tstate G)\<lparr>decisions := decisions (tstate G) @ [var_Undef]\<rparr>\<rparr>"

definition growLevels :: "nat \<Rightarrow> GraphTheory \<Rightarrow> GraphTheory" where
  "growLevels lev G =
     (gnewDecisionLevel ^^ (lev + 1 - length (decisions (tstate G)))) G"

definition lazy_unassign :: "Lit \<Rightarrow> GraphTheory \<Rightarrow> GraphTheory option" where
  "lazy_unassign l G = do {
     d \<leftarrow> gvar G (var l);
     let G = G\<lparr>gassigns := (gassigns G)[nat (var l) := l_Undef]\<rparr>;
     G \<leftarrow> (if gisEdge d then do {
               let e = nat (detector_edge d);
               G \<leftarrow> (if sign l then do { g \<leftarrow> disableEdge e (g_under G); Some (G\<lparr>g_under := g\<rparr>) }
                     else do {
                       g \<leftarrow> enableEdge e (g_over G);
                       let G = G\<lparr>g_over := g\<rparr>;
                       if opt_conflict_min_cut G then do {
                         c \<leftarrow> disableEdge (e * 2) (cutGraph G);
                         c \<leftarrow> enableEdge (e * 2 + 1) c;
                         Some (G\<lparr>cutGraph := c\<rparr>)
                       } else Some G
                     });
               if using_neg_weights G then
                 if sign l then do {
                   g \<leftarrow> disableEdge e (g_under_weights_over G); Some (G\<lparr>g_under_weights_over := g\<rparr>)
                 } else do {
                   g \<leftarrow> enableEdge e (g_over_weights_under G); Some (G\<lparr>g_over_weights_under := g\<rparr>)
                 }
               else Some G
             } else with_detector (detector_edge d) (det_unassign l) G);
     (_, T) \<leftarrow> removeFromTrail (var l) (tstate G);
     Some (G\<lparr>tstate := T\<rparr>)
   }"

definition enqueueTheory :: "Solver \<Rightarrow> Lit \<Rightarrow> GraphTheory \<Rightarrow> GraphTheory option" where
  "enqueueTheory S l G = do {
     sv \<leftarrow> toSolver_var G (var l);
     let lev = level S sv;
     let G = growLevels lev G;
     val \<leftarrow> gvalue_var G (var l);
     let sval = lit_value S (mkLit sv False);
     if lbool_eq val sval then
       if lbool_eq val l_Undef then None
       else if int lev = gdecisionLevel G then do {
         (_, T) \<leftarrow> removeFromTrail (var l) (tstate G);
         T \<leftarrow> appendToTrail l (nat (trail_decisionLevel T)) T;
         Some (G\<lparr>tstate := T\<rparr>)
       } else Some G
     else do {
       G \<leftarrow> (if opt_lazy_backtrack G \<and> \<not> lbool_eq val l_Undef then lazy_unassign l G else Some G);
       if \<not> opt_lazy_backtrack G \<and> gdecisionLevel G > int lev then None
       else do {
         T \<leftarrow> appendToTrail l (nat (gdecisionLevel G)) (tstate G);
         assign_lit l (G\<lparr>tstate := T, requiresPropagation := True\<rparr>)
       }
     }
   }"

subsection \<open>Backtracking\<close>

fun undoRewind_list :: "Lit list \<Rightarrow> GraphTheory \<Rightarrow> GraphTheory option" where
  "undoRewind_list [] G = Some G"
| "undoRewind_list (l # ls) G = do { G \<leftarrow> assign_lit l G; undoRewind_list ls G }"

definition undoRewind :: "GraphTheory \<Rightarrow> GraphTheory option" where
  "undoRewind G = undoRewind_list (rev (rewound_assigns G)) (G\<lparr>rewound_assigns := []\<rparr>)"

fun unsatisfy :: "int \<Rightarrow> (int \<times> Lit) list \<Rightarrow> GraphTheory \<Rightarrow> GraphTheory option" where
  "unsatisfy untilLevel [] G = Some (G\<lparr>satisfied_lits := []\<rparr>)"
| "unsatisfy untilLevel ((lev, l) # rest) G =
     (if lev > untilLevel then do {
        d \<leftarrow> gvar G (var l);
        let G = G\<lparr>gvars := (gvars G)[nat (var l) := d\<lparr>gisSatisfied := False\<rparr>]\<rparr>;
        G \<leftarrow> (if detector_edge d \<ge> 0 then
                  if nat (detector_edge d) < length (satisfied_detectors G) then
                    if satisfied_detectors G ! nat (detector_edge d)
                    then Some (G\<lparr>satisfied_detectors := (satisfied_detectors G)[nat (detector_edge d) := False],
                                 n_satisfied_detectors := n_satisfied_detectors G - 1\<rparr>)
                    else Some G
                  else None
                else Some G);
        unsatisfy untilLevel rest G
      } else Some (G\<lparr>satisfied_lits := rev ((lev, l) # rest)\<rparr>))"

definition unassign_var :: "int \<Rightarrow> GraphTheory \<Rightarrow> GraphTheory option" where
  "unassign_var v G = do {
     val \<leftarrow> gvalue_var G v;
     backtrackAssign (mkLit v (lbool_eq val l_False)) G
   }"

partial_function (option) backtrack_lazy :: "int \<Rightarrow> GraphTheory \<Rightarrow> GraphTheory option" where
  [code]: "backtrack_lazy v G = do {
     G \<leftarrow> unassign_var v G;
     p \<leftarrow> getPrev (tstate G) v;
     (e, T) \<leftarrow> removeFromTrail v (tstate G);
     if e then Some (G\<lparr>tstate := T\<rparr>) else backtrack_lazy p (G\<lparr>tstate := T\<rparr>)
   }"

partial_function (option) backtrack_level ::
  "int \<Rightarrow> nat \<Rightarrow> bool \<times> GraphTheory \<Rightarrow> (bool \<times> GraphTheory) option" where
  [code]: "backtrack_level v lev cG =
     (if v = var_Undef then Some cG
      else do {
        let (changed, G) = cG;
        val \<leftarrow> gvalue_var G v;
        if lbool_eq val l_Undef then None
        else do {
          G \<leftarrow> unassign_var v G;
          p \<leftarrow> getPrev (tstate G) v;
          (e, T) \<leftarrow> removeFromTrail_level v lev (tstate G);
          backtrack_level (if e then var_Undef else p) lev (True, G\<lparr>tstate := T\<rparr>)
        }
      })"

partial_function (option) backtrack_levels :: "int \<Rightarrow> bool \<times> GraphTheory \<Rightarrow> (bool \<times> GraphTheory) option" where
  [code]: "backtrack_levels untilLevel cG = do {
     let (changed, G) = cG;
     if gdecisionLevel G > untilLevel then do {
       v \<leftarrow> getBack (tstate G) (nat (gdecisionLevel G));
       (changed, G) \<leftarrow> backtrack_level v (nat (gdecisionLevel G)) (changed, G);
       backtrack_levels untilLevel
         (changed, G\<lparr>tstate := (tstate G)\<lparr>decisions := butlast (decisions (tstate G))\<rparr>\<rparr>)
     } else Some (changed, G)
   }"

definition backtrackUntil :: "nat \<Rightarrow> GraphTheory \<Rightarrow> GraphTheory option" where
  "backtrackUntil untilLevel G = do {
     G \<leftarrow> undoRewind G;
     G \<leftarrow> unsatisfy (int untilLevel) (rev (satisfied_lits G)) G;
     (changed, G) \<leftarrow> (if lazy_trail_head (tstate G) \<noteq> var_Undef then do {
               v \<leftarrow> getPrev (tstate G) (lazy_trail_head (tstate G));
               G \<leftarrow> backtrack_lazy v (G\<lparr>requiresPropagation := True, s_needsPropagation := True\<rparr>);
               Some (True, G)
             } else Some (False, G));
     (changed, G) \<leftarrow> backtrack_levels (int untilLevel) (changed, G);
     Some (if changed then G\<lparr>requiresPropagation := True, s_needsPropagation := True\<rparr> else G)
   }"

subsection \<open>Declaring nodes, variables and edges\<close>

definition newNode :: "GraphTheory \<Rightarrow> (nat \<times> GraphTheory) option" where
  "newNode G = do {
     _ \<leftarrow> checkFrozen G;
     let (n, u) = addNode (g_under G);
     Some (n, G\<lparr>g_over := snd (addNode (g_over G)), cutGraph := snd (addNode (cutGraph G)),
       g_under_weights_over := snd (addNode (g_under_weights_over G)),
       g_over_weights_under := snd (addNode (g_over_weights_under G)), g_under := u\<rparr>)
   }"

fun newNodes :: "nat \<Rightarrow> GraphTheory \<Rightarrow> GraphTheory option" where
  "newNodes 0 G = Some G"
| "newNodes (Suc n) G = do { (_, G) \<leftarrow> newNode G; newNodes n G }"

definition grow_solver_vars :: "int \<Rightarrow> Solver \<Rightarrow> Solver" where
  "grow_solver_vars sv S =
     ((\<lambda>S. snd (newVar True S)) ^^ nat (sv + 1 - int (length (assigns S)))) S"

definition undecideTheory :: "Lit \<Rightarrow> GraphTheory \<Rightarrow> GraphTheory option" where
  "undecideTheory l G =
     (if lazy_backtracking_enabled G then do { T \<leftarrow> prependToLazyTrail l (tstate G); Some (G\<lparr>tstate := T\<rparr>) } else Some G)"

fun undecide_trail :: "Lit list \<Rightarrow> GraphTheory \<Rightarrow> GraphTheory option" where
  "undecide_trail [] G = Some G"
| "undecide_trail (l # ls) G = do {
     G \<leftarrow> (case map_of (theory_vars G) (var l) of Some v \<Rightarrow> undecideTheory (mkLit v (sign l)) G | None \<Rightarrow> Some G);
     undecide_trail ls G
   }"

definition cancelTheory :: "nat \<Rightarrow> Solver \<Rightarrow> GraphTheory \<Rightarrow> GraphTheory option" where
  "cancelTheory lev S G =
     (if decisionLevel S > lev then do {
        G \<leftarrow> (if opt_lazy_backtrack G \<and> lazy_backtracking_enabled G then Some G else backtrackUntil lev G);
        undecide_trail (filter (\<lambda>l. \<not> level S (var l) \<le> lev) (rev (drop (trail_lim S ! lev) (trail S)))) G
      } else Some G)"

definition setTheoryVar :: "int \<Rightarrow> int \<Rightarrow> Solver \<Rightarrow> GraphTheory \<Rightarrow> GraphTheory option" where
  "setTheoryVar sv v S G =
     (if sv = var (const_true S) then Some G
      else case map_of (theory_vars G) sv of
        Some v' \<Rightarrow> if v' \<noteq> v then None else Some (G\<lparr>theory_vars := (sv, v) # theory_vars G\<rparr>)
      | None \<Rightarrow> Some (G\<lparr>theory_vars := (sv, v) # theory_vars G\<rparr>))"

definition gnewVar :: "int \<Rightarrow> int \<Rightarrow> bool \<Rightarrow> bool \<Rightarrow> Solver \<times> GraphTheory \<Rightarrow> (int \<times> Solver \<times> GraphTheory) option" where
  "gnewVar sv0 detector edge connectToTheory SG = do {
     let (S, G) = SG;
     G \<leftarrow> cancelTheory 0 S G;
     let S = cancelUntil 0 S;
     let (sv, S) = (if sv0 = var_Undef then newVar True S else (sv0, S));
     let S = grow_solver_vars sv S;
     case map_of (theory_vars G) sv of
       Some v \<Rightarrow> Some (v, S, G)
     | None \<Rightarrow> do {
         let v = length (gvars G);
         let T = tstate G;
         let G = G\<lparr>gvars := gvars G @ [\<lparr>gisEdge = edge, gisBV = False, gisTheoryVar = False, gisSatisfied = False,
                       detector_edge = detector, solverVar = sv, theory_var = var_Undef\<rparr>],
                   tstate := T\<lparr>ttrail := vec_grow (v + 1) Trail_default (ttrail T)\<rparr>,
                   gassigns := gassigns G @ [l_Undef]\<rparr>;
         G \<leftarrow> (if connectToTheory then setTheoryVar sv (int v) S G else Some G);
         G \<leftarrow> (if \<not> edge \<and> detector \<ge> 0 then with_detector detector det_addVar G else Some G);
         Some (int v, S, G)
       }
   }"

partial_function (option) grow_nodes :: "nat \<Rightarrow> nat \<Rightarrow> GraphTheory \<Rightarrow> GraphTheory option" where
  [code]: "grow_nodes u v G =
     (if u \<ge> nNodes G \<or> v \<ge> nNodes G then do { (_, G) \<leftarrow> newNode G; grow_nodes u v G } else Some G)"

definition newEdge :: "nat \<Rightarrow> nat \<Rightarrow> int \<Rightarrow> int \<Rightarrow> Solver \<times> GraphTheory \<Rightarrow> (Lit \<times> Solver \<times> GraphTheory) option" where
  "newEdge u w outerVar weight SG = do {
     let (S, G) = SG;
     _ \<leftarrow> checkFrozen G;
     G \<leftarrow> grow_nodes u w G;
     let index = length (edge_list G);
     let G = G\<lparr>all_edges_unit := (all_edges_unit G \<and> weight = 1),
               all_edges_positive := (all_edges_positive G \<and> weight > 0)\<rparr>;
     (v, S, G) \<leftarrow> gnewVar outerVar (int index) True True (S, G);
     let G = G\<lparr>edge_list := edge_list G @ [\<lparr>ge_v = v, ge_outerVar = outerVar, ge_from = int u, ge_to = int w,
                    ge_edgeID = int index, ge_bvID = -1\<rparr>],
               edge_weights := (vec_grow (index + 1) 0 (edge_weights G))[index := weight]\<rparr>;
     (_, gu) \<leftarrow> addEdge u w (int index) weight (g_under G);
     gu \<leftarrow> disableEdge3 u w index gu;
     (_, go) \<leftarrow> addEdge u w (int index) weight (g_over G);
     (_, gw) \<leftarrow> addEdge u w (int index) weight (g_under_weights_over G);
     gw \<leftarrow> disableEdge3 u w index gw;
     (_, gx) \<leftarrow> addEdge u w (int index) weight (g_over_weights_under G);
     (_, gc) \<leftarrow> addEdge u w (int (index * 2)) 1 (cutGraph G);
     (_, gc) \<leftarrow> addEdge u w (int (index * 2 + 1)) 0xFFFF gc;
     gc \<leftarrow> disableEdge3 u w (index * 2) gc;
     Some (mkLit v False, S, G\<lparr>g_under := gu, g_over := go, g_under_weights_over := gw,
        g_over_weights_under := gx, cutGraph := gc\<rparr>)
   }"

end
