(* ===== verification/Graph_Sync.thy ===== *)
theory Graph_Sync
  imports Graph_Theory
begin

text \<open>
  The invariant of \<open>GraphTheorySolver\<close>: the two graphs follow the assignment, the trail holds exactly the assigned
  variables, and every operation by which the SAT solver drives the theory (assigning, unassigning, enqueueing,
  backtracking, declaring nodes and edges) keeps both.
\<close>


subsection \<open>The graphs follow the assignment\<close>

text \<open>\<open>synced G\<close>: every declared edge is an edge of both graphs, enabled in \<open>g_under\<close> exactly when its variable is
  assigned true and in \<open>g_over\<close> exactly when it is not assigned false. The options that attach more graphs have
  their default values.\<close>

definition edge_synced :: "GraphTheory \<Rightarrow> nat \<Rightarrow> bool" where
  "edge_synced G i \<longleftrightarrow>
     (\<exists>v u w. ge_v (edge_list G ! i) = int v \<and> ge_from (edge_list G ! i) = int u \<and> ge_to (edge_list G ! i) = int w \<and>
        v < length (gvars G) \<and> gisEdge (gvars G ! v) \<and> detector_edge (gvars G ! v) = int i \<and>
        declares (g_under G) i u w \<and> declares (g_over G) i u w \<and>
        (edge_status (g_under G) ! i \<longleftrightarrow> tri (gassigns G ! v) = Some True) \<and>
        (edge_status (g_over G) ! i \<longleftrightarrow> tri (gassigns G ! v) \<noteq> Some False))"

definition var_ok :: "GraphTheory \<Rightarrow> nat \<Rightarrow> bool" where
  "var_ok G v \<longleftrightarrow> \<not> gisTheoryVar (gvars G ! v) \<and>
     (if gisEdge (gvars G ! v)
      then \<exists>i < length (edge_list G). detector_edge (gvars G ! v) = int i \<and> ge_v (edge_list G ! i) = int v
      else 0 \<le> detector_edge (gvars G ! v) \<and> nat (detector_edge (gvars G ! v)) < length (detectors G))"

definition default_options :: "GraphTheory \<Rightarrow> bool" where
  "default_options G \<longleftrightarrow> \<not> opt_conflict_min_cut G \<and> \<not> using_neg_weights G \<and> assign_edges_to_weight G = None"

definition synced :: "GraphTheory \<Rightarrow> bool" where
  "synced G \<longleftrightarrow> wf_graph (g_under G) \<and> wf_graph (g_over G) \<and> num_nodes (g_over G) = num_nodes (g_under G) \<and>
     num_edges (g_under G) = length (edge_list G) \<and> num_edges (g_over G) = length (edge_list G) \<and>
     length (gassigns G) = length (gvars G) \<and> default_options G \<and> (\<forall>b \<in> set (gassigns G). wf_lbool b) \<and>
     (\<forall>i < length (edge_list G). edge_synced G i) \<and> (\<forall>v < length (gvars G). var_ok G v)"

lemma syncedD:
  assumes "synced G"
  shows "wf_graph (g_under G)" "wf_graph (g_over G)" "length (gassigns G) = length (gvars G)" "default_options G"
    "num_edges (g_under G) = length (edge_list G)" "num_edges (g_over G) = length (edge_list G)"
    "\<And>i. i < length (edge_list G) \<Longrightarrow> edge_synced G i" "\<And>v. v < length (gvars G) \<Longrightarrow> var_ok G v"
    "\<And>v. v < length (gvars G) \<Longrightarrow> wf_lbool (gassigns G ! v)"
proof -
  show "wf_graph (g_under G)" "wf_graph (g_over G)" "length (gassigns G) = length (gvars G)" "default_options G"
    "num_edges (g_under G) = length (edge_list G)" "num_edges (g_over G) = length (edge_list G)"
    using assms unfolding synced_def by blast+
  show "\<And>i. i < length (edge_list G) \<Longrightarrow> edge_synced G i" "\<And>v. v < length (gvars G) \<Longrightarrow> var_ok G v"
    using assms unfolding synced_def by blast+
  show "wf_lbool (gassigns G ! v)" if "v < length (gvars G)" for v
    using assms that nth_mem [of v "gassigns G"] unfolding synced_def by metis
qed

lemma synced_edge_update:
  assumes "synced G" and v: "v < length (gvars G)" "gisEdge (gvars G ! v)" "detector_edge (gvars G ! v) = int i"
    and b: "wf_lbool b" "gassigns G' = (gassigns G)[v := b]"
    and same: "gvars G' = gvars G" "edge_list G' = edge_list G" "length (detectors G') = length (detectors G)" "default_options G'"
    and gu: "wf_graph (g_under G')" "same_topology (g_under G) (g_under G')"
      "edge_status (g_under G') = (edge_status (g_under G))[i := (tri b = Some True)]"
    and go: "wf_graph (g_over G')" "same_topology (g_over G) (g_over G')"
      "edge_status (g_over G') = (edge_status (g_over G))[i := (tri b \<noteq> Some False)]"
  shows "synced G'"
proof -
  have vi: "i < length (edge_list G)" "ge_v (edge_list G ! i) = int v"
    using syncedD(8) [OF assms(1) v(1)] v by (auto simp: var_ok_def)
  have len: "length (edge_status (g_under G)) = length (edge_list G)" "length (edge_status (g_over G)) = length (edge_list G)"
    using assms(1) by (auto simp: synced_def wf_graph_lengths)
  have d: "declares (g_under G') = declares (g_under G)" "declares (g_over G') = declares (g_over G)"
    using same_topology_declares gu(2) go(2) by auto
  have "edge_synced G' j" if j: "j < length (edge_list G')" for j
  proof -
    from syncedD(7) [OF assms(1), of j] j same obtain v' u w where
      e: "ge_v (edge_list G ! j) = int v'" "ge_from (edge_list G ! j) = int u" "ge_to (edge_list G ! j) = int w"
        "v' < length (gvars G)" "gisEdge (gvars G ! v')" "detector_edge (gvars G ! v') = int j"
        "declares (g_under G) j u w" "declares (g_over G) j u w"
        "edge_status (g_under G) ! j \<longleftrightarrow> tri (gassigns G ! v') = Some True"
        "edge_status (g_over G) ! j \<longleftrightarrow> tri (gassigns G ! v') \<noteq> Some False"
      by (auto simp: edge_synced_def)
    have vj: "v' = v \<longleftrightarrow> j = i" using e v vi by auto
    have "edge_status (g_under G') ! j \<longleftrightarrow> tri (gassigns G' ! v') = Some True"
      "edge_status (g_over G') ! j \<longleftrightarrow> tri (gassigns G' ! v') \<noteq> Some False"
      using vj e(9,10) len vi(1) v(1) syncedD(3) [OF assms(1)]
      by (cases "j = i"; simp add: b(2) gu(3) go(3))+
    then show ?thesis unfolding edge_synced_def same d using e(1-8) by blast
  qed
  moreover have "var_ok G' x" if "x < length (gvars G')" for x
    using syncedD(8) [OF assms(1), of x] that same by (auto simp: var_ok_def)
  moreover have "\<forall>x \<in> set (gassigns G'). wf_lbool x"
    using assms(1) b set_update_subset_insert [of "gassigns G" v b] by (auto simp: synced_def)
  ultimately show ?thesis
    using assms(1) b same gu go by (auto simp: synced_def same_topology_def)
qed

lemma synced_detector_update:
  assumes "synced G" "v < length (gvars G)" "\<not> gisEdge (gvars G ! v)" "wf_lbool b" "gassigns G' = (gassigns G)[v := b]"
    "gvars G' = gvars G" "edge_list G' = edge_list G" "length (detectors G') = length (detectors G)" "default_options G'"
    "g_under G' = g_under G" "g_over G' = g_over G"
  shows "synced G'"
proof -
  have "edge_synced G' j" if j: "j < length (edge_list G')" for j
    using syncedD(7) [OF assms(1), of j] j assms(2-) unfolding edge_synced_def
    by (metis nth_list_update_neq)
  moreover have "var_ok G' x" if "x < length (gvars G')" for x
    using syncedD(8) [OF assms(1), of x] that assms(2-) by (auto simp: var_ok_def)
  moreover have "\<forall>x \<in> set (gassigns G'). wf_lbool x"
    using assms(1,4,5) set_update_subset_insert [of "gassigns G" v b] by (auto simp: synced_def)
  ultimately show ?thesis using assms by (simp add: synced_def)
qed

subsection \<open>Assigning and unassigning\<close>

text \<open>\<open>status_step g g'\<close>: a sequence of changes of edges that leaves the flag \<open>changed\<close> alone.\<close>

definition status_step :: "DynamicGraph \<Rightarrow> DynamicGraph \<Rightarrow> bool" where
  "status_step g g' \<longleftrightarrow> status_op\<^sup>*\<^sup>* g g' \<and> is_changed g' = is_changed g"

lemma status_step_refl [simp]: "status_step g g"
  by (simp add: status_step_def)

lemma status_step_trans: "status_step g h \<Longrightarrow> status_step h k \<Longrightarrow> status_step g k"
  by (auto simp: status_step_def)

lemma enable_disable_status:
  assumes "wf_graph g" "isEdge g i"
  shows "\<exists>g'. enableEdge i g = Some g' \<and> wf_graph g' \<and> same_topology g g' \<and> edge_status g' = (edge_status g)[i := True] \<and> status_step g g'"
    "\<exists>g'. disableEdge i g = Some g' \<and> wf_graph g' \<and> same_topology g g' \<and> edge_status g' = (edge_status g)[i := False] \<and> status_step g g'"
proof -
  have "is_changed g' = is_changed g" if "setEdgeEnabled i b g = Some g'" for b g'
    using that by (auto simp: setEdgeEnabled_def enableEdge_def disableEdge_def enableEdge3_def disableEdge3_def Let_def
        split: if_splits bind_splits)
  then show "\<exists>g'. enableEdge i g = Some g' \<and> wf_graph g' \<and> same_topology g g' \<and> edge_status g' = (edge_status g)[i := True] \<and> status_step g g'"
    "\<exists>g'. disableEdge i g = Some g' \<and> wf_graph g' \<and> same_topology g g' \<and> edge_status g' = (edge_status g)[i := False] \<and> status_step g g'"
    using setEdgeEnabled_status [OF assms, of True] setEdgeEnabled_status [OF assms, of False]
      status_op.set_enabled [OF assms(2), of True] status_op.set_enabled [OF assms(2), of False]
    by (fastforce simp: setEdgeEnabled_def status_step_def)+
qed

lemma makeConstant_status:
  assumes "wf_graph g" "i < num_edges g"
  shows "\<exists>g'. makeEdgeAssignmentConstant i g = Some g' \<and> wf_graph g' \<and> same_topology g g' \<and> edge_status g' = edge_status g \<and> status_step g g'"
proof -
  have "i < length (edge_status_const g)" using assms wf_graph_lengths(8) [OF assms(1)] by simp
  then obtain g' where g': "makeEdgeAssignmentConstant i g = Some g'" "edge_status g' = edge_status g" "is_changed g' = is_changed g"
    by (simp add: makeEdgeAssignmentConstant_def)
  have "status_op g g'" using g'(1) by (rule status_op.make_constant)
  with status_op_effect [OF this assms(1)] g' show ?thesis by (auto simp: status_step_def)
qed

lemma default_options_upd [simp]:
  "default_options (G\<lparr>gassigns := a\<rparr>) = default_options G" "default_options (G\<lparr>g_under := g\<rparr>) = default_options G"
  "default_options (G\<lparr>g_over := g\<rparr>) = default_options G" "default_options (G\<lparr>tstate := T\<rparr>) = default_options G"
  "default_options (G\<lparr>detectors := ds\<rparr>) = default_options G"
  "default_options (G\<lparr>requiresPropagation := p\<rparr>) = default_options G"
  by (simp_all add: default_options_def)

text \<open>What an operation on the assignment leaves alone.\<close>

definition same_gvars :: "GraphTheory \<Rightarrow> GraphTheory \<Rightarrow> bool" where
  "same_gvars G G' \<longleftrightarrow> gvars G' = gvars G \<and> edge_list G' = edge_list G \<and>
     length (detectors G') = length (detectors G) \<and> theory_vars G' = theory_vars G \<and>
     rewound_assigns G' = rewound_assigns G \<and> satisfied_lits G' = satisfied_lits G \<and>
     satisfied_detectors G' = satisfied_detectors G \<and> n_satisfied_detectors G' = n_satisfied_detectors G \<and>
     opt_lazy_backtrack G' = opt_lazy_backtrack G \<and>
     lazy_backtracking_enabled G' = lazy_backtracking_enabled G \<and> frozen G' = frozen G \<and>
     cutGraph G' = cutGraph G \<and> g_under_weights_over G' = g_under_weights_over G \<and>
     g_over_weights_under G' = g_over_weights_under G \<and> edge_weights G' = edge_weights G \<and>
     status_step (g_under G) (g_under G') \<and> status_step (g_over G) (g_over G')"

lemma same_gvars_refl [simp]: "same_gvars G G"
  by (simp add: same_gvars_def)

lemma same_gvars_trans: "same_gvars G H \<Longrightarrow> same_gvars H K \<Longrightarrow> same_gvars G K"
  by (auto simp: same_gvars_def intro: status_step_trans)

lemma gvar_int [simp]: "gvar G (int v) = (if v < length (gvars G) then Some (gvars G ! v) else None)"
  "gvalue_var G (int v) = (if v < length (gassigns G) then Some (gassigns G ! v) else None)"
  by (simp_all add: gvar_def gvalue_var_def)

lemma edge_var:
  assumes "synced G" "v < length (gvars G)" "gisEdge (gvars G ! v)"
  obtains i where "detector_edge (gvars G ! v) = int i" "i < length (edge_list G)" "isEdge (g_under G) i" "isEdge (g_over G) i"
    "edge_status (g_under G) ! i \<longleftrightarrow> tri (gassigns G ! v) = Some True"
    "edge_status (g_over G) ! i \<longleftrightarrow> tri (gassigns G ! v) \<noteq> Some False"
proof -
  obtain i where i: "i < length (edge_list G)" "detector_edge (gvars G ! v) = int i" "ge_v (edge_list G ! i) = int v"
    using syncedD(8) [OF assms(1,2)] assms(3) by (auto simp: var_ok_def)
  show ?thesis
    using syncedD(7) [OF assms(1) i(1)] i by (intro that) (auto simp: edge_synced_def dest: declares_isEdge)
qed

lemma assign_lit_correct:
  assumes syn: "synced G" and v: "var l = int v" "v < length (gvars G)" and un: "tri (gassigns G ! v) = None"
  shows "\<exists>G'. assign_lit l G = Some G' \<and> synced G' \<and> same_gvars G G' \<and> tstate G' = tstate G \<and>
     gassigns G' = (gassigns G)[v := lbool_of (\<not> sign l)]"
proof -
  define b where "b = (if sign l then l_False else l_True)"
  have "b = lbool_of (\<not> sign l)" by (simp add: b_def lbool_of_def l_False_def l_True_def)
  then have b: "wf_lbool b" "b = lbool_of (\<not> sign l)" "tri b = Some (\<not> sign l)" by simp_all
  have nt: "\<not> gisTheoryVar (gvars G ! v)" using syncedD(8) [OF syn v(2)] by (simp add: var_ok_def)
  have va: "v < length (gassigns G)" using syncedD(3) [OF syn] v(2) by simp
  note opt = syncedD(4) [OF syn, unfolded default_options_def]
  show ?thesis
  proof (cases "gisEdge (gvars G ! v)")
    case False
    then have d: "0 \<le> detector_edge (gvars G ! v)" "nat (detector_edge (gvars G ! v)) < length (detectors G)"
      using syncedD(8) [OF syn v(2)] by (simp_all add: var_ok_def)
    let ?d = "nat (detector_edge (gvars G ! v))"
    let ?G = "G\<lparr>gassigns := (gassigns G)[v := b], detectors := (detectors G)[?d := det_assign l (detectors G ! ?d)]\<rparr>"
    have "assign_lit l G = Some ?G"
      using v va nt False d by (simp add: assign_lit_def with_detector_def b_def)
    moreover have "synced ?G"
      by (rule synced_detector_update [OF syn v(2) False b(1)]) (use syncedD(4) [OF syn] in \<open>simp_all\<close>)
    ultimately show ?thesis by (auto simp: same_gvars_def b(2))
  next
    case True
    from edge_var [OF syn v(2) True] obtain i where
      i: "detector_edge (gvars G ! v) = int i" "i < length (edge_list G)" "isEdge (g_under G) i" "isEdge (g_over G) i"
        "edge_status (g_under G) ! i \<longleftrightarrow> tri (gassigns G ! v) = Some True"
        "edge_status (g_over G) ! i \<longleftrightarrow> tri (gassigns G ! v) \<noteq> Some False" by blast
    define gu where "gu = (if sign l then Some (g_under G) else enableEdge i (g_under G))"
    define go where "go = (if sign l then disableEdge i (g_over G) else Some (g_over G))"
    obtain u1 where u1: "gu = Some u1" "wf_graph u1" "same_topology (g_under G) u1"
      "edge_status u1 = (edge_status (g_under G))[i := \<not> sign l]" "status_step (g_under G) u1"
      using enable_disable_status(1) [OF syncedD(1) [OF syn] i(3)] syncedD(1) [OF syn] i(5) un i(2) syncedD(5) [OF syn]
        wf_graph_lengths(5) [OF syncedD(1) [OF syn]]
      by (cases "sign l") (auto simp: gu_def eq_list_update_iff)
    obtain o1 where o1: "go = Some o1" "wf_graph o1" "same_topology (g_over G) o1"
      "edge_status o1 = (edge_status (g_over G))[i := \<not> sign l]" "status_step (g_over G) o1"
      using enable_disable_status(2) [OF syncedD(2) [OF syn] i(4)] syncedD(2) [OF syn] i(6) un i(2) syncedD(6) [OF syn]
        wf_graph_lengths(5) [OF syncedD(2) [OF syn]]
      by (cases "sign l") (auto simp: go_def eq_list_update_iff)
    have ne: "i < num_edges u1" "i < num_edges o1"
      using u1(3) o1(3) i(2) syncedD(5,6) [OF syn] by (simp_all add: same_topology_def)
    from makeConstant_status [OF u1(2) ne(1)] obtain u2 where
      u2: "makeEdgeAssignmentConstant i u1 = Some u2" "wf_graph u2" "same_topology u1 u2" "edge_status u2 = edge_status u1" "status_step u1 u2"
      by blast
    from makeConstant_status [OF o1(2) ne(2)] obtain o2 where
      o2: "makeEdgeAssignmentConstant i o1 = Some o2" "wf_graph o2" "same_topology o1 o2" "edge_status o2 = edge_status o1" "status_step o1 o2"
      by blast
    let ?u = "if gdecisionLevel G = 0 then u2 else u1" and ?o = "if gdecisionLevel G = 0 then o2 else o1"
    let ?G = "G\<lparr>gassigns := (gassigns G)[v := b], g_under := ?u, g_over := ?o\<rparr>"
    have "assign_lit l G = Some ?G"
      using v va nt True i(1) u1(1) o1(1) u2(1) o2(1) opt unfolding gu_def go_def
      by (cases "sign l"; cases "gdecisionLevel G = 0") (simp_all add: assign_lit_def b_def gdecisionLevel_def)
    moreover have "synced ?G"
    proof (rule synced_edge_update [OF syn v(2) True i(1) b(1)])
      show "wf_graph (g_under ?G)" "wf_graph (g_over ?G)" using u1(2) u2(2) o1(2) o2(2) by simp_all
      show "same_topology (g_under G) (g_under ?G)" "same_topology (g_over G) (g_over ?G)"
        using u1(3) u2(3) o1(3) o2(3) same_topology_trans by auto
      show "edge_status (g_under ?G) = (edge_status (g_under G))[i := (tri b = Some True)]"
        "edge_status (g_over ?G) = (edge_status (g_over G))[i := (tri b \<noteq> Some False)]"
        using u1(4) u2(4) o1(4) o2(4) b(3) by auto
    qed (use syncedD(4) [OF syn] in simp_all)
    moreover have "same_gvars G ?G"
      using u1(5) u2(5) o1(5) o2(5) by (auto simp: same_gvars_def intro: status_step_trans)
    ultimately show ?thesis using b(2) by auto
  qed
qed

lemma backtrackAssign_correct:
  assumes syn: "synced G" and v: "var l = int v" "v < length (gvars G)" and asg: "tri (gassigns G ! v) = Some (\<not> sign l)"
  shows "\<exists>G'. backtrackAssign l G = Some G' \<and> synced G' \<and> same_gvars G G' \<and> tstate G' = tstate G \<and>
     gassigns G' = (gassigns G)[v := l_Undef]"
proof -
  have va: "v < length (gassigns G)" using syncedD(3) [OF syn] v(2) by simp
  note opt = syncedD(4) [OF syn, unfolded default_options_def]
  show ?thesis
  proof (cases "gisEdge (gvars G ! v)")
    case False
    then have d: "0 \<le> detector_edge (gvars G ! v)" "nat (detector_edge (gvars G ! v)) < length (detectors G)"
      using syncedD(8) [OF syn v(2)] by (simp_all add: var_ok_def)
    let ?d = "nat (detector_edge (gvars G ! v))"
    let ?G = "G\<lparr>detectors := (detectors G)[?d := det_unassign (mkLit (int v) (sign l)) (detectors G ! ?d)],
                gassigns := (gassigns G)[v := l_Undef]\<rparr>"
    have "backtrackAssign l G = Some ?G"
      using v va False d by (simp add: backtrackAssign_def with_detector_def)
    moreover have "synced ?G"
      by (rule synced_detector_update [OF syn v(2) False, of l_Undef]) (use syncedD(4) [OF syn] in \<open>simp_all\<close>)
    ultimately show ?thesis by (auto simp: same_gvars_def)
  next
    case True
    from edge_var [OF syn v(2) True] obtain i where
      i: "detector_edge (gvars G ! v) = int i" "i < length (edge_list G)" "isEdge (g_under G) i" "isEdge (g_over G) i"
        "edge_status (g_under G) ! i \<longleftrightarrow> tri (gassigns G ! v) = Some True"
        "edge_status (g_over G) ! i \<longleftrightarrow> tri (gassigns G ! v) \<noteq> Some False" by blast
    define gu where "gu = (if sign l then Some (g_under G) else disableEdge i (g_under G))"
    define go where "go = (if sign l then enableEdge i (g_over G) else Some (g_over G))"
    obtain u1 where u1: "gu = Some u1" "wf_graph u1" "same_topology (g_under G) u1"
      "edge_status u1 = (edge_status (g_under G))[i := False]" "status_step (g_under G) u1"
      using enable_disable_status(2) [OF syncedD(1) [OF syn] i(3)] syncedD(1) [OF syn] i(5) asg i(2) syncedD(5) [OF syn]
        wf_graph_lengths(5) [OF syncedD(1) [OF syn]]
      by (cases "sign l") (auto simp: gu_def eq_list_update_iff)
    obtain o1 where o1: "go = Some o1" "wf_graph o1" "same_topology (g_over G) o1"
      "edge_status o1 = (edge_status (g_over G))[i := True]" "status_step (g_over G) o1"
      using enable_disable_status(1) [OF syncedD(2) [OF syn] i(4)] syncedD(2) [OF syn] i(6) asg i(2) syncedD(6) [OF syn]
        wf_graph_lengths(5) [OF syncedD(2) [OF syn]]
      by (cases "sign l") (auto simp: go_def eq_list_update_iff)
    let ?G = "G\<lparr>g_under := u1, g_over := o1, gassigns := (gassigns G)[v := l_Undef]\<rparr>"
    have "backtrackAssign l G = Some ?G"
      using v va True i(1) u1(1) o1(1) opt unfolding gu_def go_def
      by (cases "sign l") (simp_all add: backtrackAssign_def)
    moreover have "synced ?G"
      by (rule synced_edge_update [OF syn v(2) True i(1), of l_Undef]) (use u1 o1 syncedD(4) [OF syn] in simp_all)
    ultimately show ?thesis using u1(5) o1(5) by (auto simp: same_gvars_def)
  qed
qed


subsection \<open>The trail records exactly the assigned variables\<close>

definition on_trail :: "nat list list \<Rightarrow> nat list \<Rightarrow> nat \<Rightarrow> bool" where
  "on_trail Ls Z v \<longleftrightarrow> v \<in> set Z \<or> (\<exists>L \<in> set Ls. v \<in> set L)"

definition gt_inv :: "GraphTheory \<Rightarrow> nat list list \<Rightarrow> nat list \<Rightarrow> bool" where
  "gt_inv G Ls Z \<longleftrightarrow> synced G \<and> trail_inv (tstate G) Ls Z \<and> length (ttrail (tstate G)) = length (gvars G) \<and>
     (\<forall>v < length (gvars G). tri (gassigns G ! v) \<noteq> None \<longleftrightarrow> on_trail Ls Z v) \<and>
     rewound_assigns G = [] \<and> satisfied_lits G = []"

lemma trail_inv_default:
  assumes "trail_inv T Ls Z" "v < length (ttrail T)"
  shows "ttrail T ! v = Trail_default \<longleftrightarrow> \<not> on_trail Ls Z v"
proof -
  have "on_trail Ls Z v \<longleftrightarrow> v \<in> set Z \<or> (\<exists>k < length Ls. v \<in> set (Ls ! k))"
    by (metis in_set_conv_nth on_trail_def)
  then show ?thesis using trail_inv_level [OF assms] assms by (auto simp: trail_inv_def)
qed

lemma trail_inv_ring:
  "trail_inv T Ls Z \<Longrightarrow> k < length Ls \<Longrightarrow> ring (ttrail T) (int k) (Ls ! k) \<and> decisions T ! k = head_of (Ls ! k)"
  by (simp add: trail_inv_def)

lemma trail_inv_bounds:
  assumes "trail_inv T Ls Z"
  shows "x \<in> set Z \<Longrightarrow> x < length (ttrail T)" "L \<in> set Ls \<Longrightarrow> x \<in> set L \<Longrightarrow> x < length (ttrail T)"
proof -
  show "x \<in> set Z \<Longrightarrow> x < length (ttrail T)" using assms by (auto simp: trail_inv_def ring_def)
  assume "L \<in> set Ls" "x \<in> set L"
  then obtain k where "k < length Ls" "Ls ! k = L" by (auto simp: in_set_conv_nth)
  then show "x < length (ttrail T)" using trail_inv_ring [OF assms, of k] \<open>x \<in> set L\<close> by (auto simp: ring_def)
qed

lemma trail_inv_disjoint:
  assumes inv: "trail_inv T (Ls @ [L]) Z"
  shows "distinct L" "x \<in> set L \<Longrightarrow> x \<notin> set Z" "x \<in> set L \<Longrightarrow> M \<in> set Ls \<Longrightarrow> x \<notin> set M"
proof -
  have r: "ring (ttrail T) (int k) ((Ls @ [L]) ! k)" if "k \<le> length Ls" for k
    using inv that by (simp add: trail_inv_def less_Suc_eq_le)
  have rL: "ring (ttrail T) (int (length Ls)) L" using r [of "length Ls"] by simp
  have rZ: "ring (ttrail T) (-2) Z" using inv by (simp add: trail_inv_def)
  show "distinct L" using rL by (simp add: ring_def)
  show "x \<in> set L \<Longrightarrow> x \<notin> set Z" using rL rZ by (auto simp: ring_def)
  assume x: "x \<in> set L" and "M \<in> set Ls"
  then obtain k where "k < length Ls" "Ls ! k = M" by (auto simp: in_set_conv_nth)
  then show "x \<notin> set M" using r [of k] rL x by (auto simp: ring_def nth_append)
qed

lemma trail_inv_pop:
  assumes "trail_inv T (Ls @ [[]]) Z"
  shows "trail_inv (T\<lparr>decisions := butlast (decisions T)\<rparr>) Ls Z"
  using assms unfolding trail_inv_def
  by (auto simp: nth_append nth_butlast less_Suc_eq split: if_splits)

lemma synced_tstate [simp]: "synced (G\<lparr>tstate := T\<rparr>) = synced G" "synced (G\<lparr>requiresPropagation := p\<rparr>) = synced G"
  "synced (G\<lparr>s_needsPropagation := p\<rparr>) = synced G"
  by (simp_all add: synced_def edge_synced_def var_ok_def default_options_def cong: conj_cong)

lemma same_gvars_tstate [simp]: "same_gvars G (G\<lparr>tstate := T\<rparr>)" "same_gvars G (G\<lparr>requiresPropagation := p\<rparr>)"
  "same_gvars G (G\<lparr>s_needsPropagation := p\<rparr>)"
  by (simp_all add: same_gvars_def)

lemma unassign_var_correct:
  assumes syn: "synced G" and v: "v < length (gvars G)" "tri (gassigns G ! v) = Some b"
  shows "\<exists>G'. unassign_var (int v) G = Some G' \<and> synced G' \<and> same_gvars G G' \<and> tstate G' = tstate G \<and>
     gassigns G' = (gassigns G)[v := l_Undef]"
proof -
  have "v < length (gassigns G)" using v(1) syncedD(3) [OF syn] by simp
  moreover have "lbool_eq (gassigns G ! v) l_False \<longleftrightarrow> \<not> b"
    using v(2) syncedD(9) [OF syn v(1)] by auto
  ultimately show ?thesis
    using backtrackAssign_correct [OF syn, of "mkLit (int v) (\<not> b)" v] v
    by (simp add: unassign_var_def lit_simps)
qed

subsection \<open>Backtracking\<close>

lemma backtrack_level_correct:
  assumes "gt_inv G (Ls @ [L]) Z"
  shows "\<exists>G'. backtrack_level (if L = [] then var_Undef else int (last L)) (length Ls) (ch, G) = Some (ch \<or> L \<noteq> [], G') \<and>
     gt_inv G' (Ls @ [[]]) Z \<and> same_gvars G G' \<and>
     (\<forall>x < length (gvars G). gassigns G' ! x = (if x \<in> set L then l_Undef else gassigns G ! x))"
  using assms
proof (induction L arbitrary: G ch rule: rev_induct)
  case Nil
  then show ?case by (subst backtrack_level.simps) auto
next
  case (snoc v L)
  have inv: "trail_inv (tstate G) (Ls @ [L @ [v]]) Z" and syn: "synced G"
    and len: "length (ttrail (tstate G)) = length (gvars G)"
    and asg: "\<And>x. x < length (gvars G) \<Longrightarrow> tri (gassigns G ! x) \<noteq> None \<longleftrightarrow> on_trail (Ls @ [L @ [v]]) Z x"
    and rw: "rewound_assigns G = []" "satisfied_lits G = []"
    using snoc.prems by (auto simp: gt_inv_def)
  have v: "v < length (gvars G)" using trail_inv_bounds(2) [OF inv, of "L @ [v]" v] len by simp
  then have va: "v < length (gassigns G)" using syncedD(3) [OF syn] by simp
  obtain b where b: "tri (gassigns G ! v) = Some b"
    using asg [OF v] by (auto simp: on_trail_def)
  obtain G1 where G1: "unassign_var (int v) G = Some G1" "synced G1" "same_gvars G G1" "tstate G1 = tstate G"
    "gassigns G1 = (gassigns G)[v := l_Undef]" using unassign_var_correct [OF syn v b] by blast
  have ring: "ring (ttrail (tstate G)) (int (length Ls)) (v # L)"
  proof -
    have "ring (ttrail (tstate G)) (int (length Ls)) (L @ [v])"
      using trail_inv_ring [OF inv, of "length Ls"] by simp
    then show ?thesis using ring_rotate [of _ _ L "[v]"] by simp
  qed
  have prev: "getPrev (tstate G) (int v) = Some (int (last (v # L)))"
    using ring_neighbours(2) [OF ring] v len by (simp add: getPrev_def tget_int del: last.simps)
  obtain T where T: "removeFromTrail_level (int v) (length Ls) (tstate G) = Some (L = [], T)"
    "trail_inv T (Ls @ [L]) Z" "length (ttrail T) = length (ttrail (tstate G))"
    using trail_inv_remove_level [OF inv, of "length Ls" L v "[]"] by auto
  let ?G2 = "G1\<lparr>tstate := T\<rparr>"
  have dis: "v \<notin> set L" "v \<notin> set Z" "\<And>M. M \<in> set Ls \<Longrightarrow> v \<notin> set M"
    using trail_inv_disjoint [OF inv] by auto
  have gv: "gvars ?G2 = gvars G" using G1(3) by (simp add: same_gvars_def)
  have inv2: "gt_inv ?G2 (Ls @ [L]) Z"
    unfolding gt_inv_def
  proof (intro conjI allI impI)
    fix x assume x: "x < length (gvars ?G2)"
    show "tri (gassigns ?G2 ! x) \<noteq> None \<longleftrightarrow> on_trail (Ls @ [L]) Z x"
    proof (cases "x = v")
      case True
      then show ?thesis using dis va by (auto simp: G1(5) on_trail_def)
    next
      case False
      then show ?thesis using asg [of x] x gv by (auto simp: G1(5) on_trail_def)
    qed
  qed (use G1 T len gv rw in \<open>simp_all add: same_gvars_def\<close>)
  have nxt: "(if L = [] then var_Undef else int (last (v # L))) = (if L = [] then var_Undef else int (last L))" by simp
  from snoc.IH [OF inv2, of True] obtain G3 where
    G3: "backtrack_level (if L = [] then var_Undef else int (last L)) (length Ls) (True, ?G2) = Some (True, G3)"
      "gt_inv G3 (Ls @ [[]]) Z" "same_gvars ?G2 G3"
      "\<forall>x < length (gvars ?G2). gassigns G3 ! x = (if x \<in> set L then l_Undef else gassigns ?G2 ! x)" by auto
  have "backtrack_level (int v) (length Ls) (ch, G) = Some (True, G3)"
    using va b syncedD(9) [OF syn v] G1(1,4) prev T(1) G3(1) nxt
    by (subst backtrack_level.simps) (simp del: last.simps)
  moreover have "same_gvars G G3"
    by (rule same_gvars_trans [OF G1(3) same_gvars_trans [OF same_gvars_tstate(1) G3(3)]])
  moreover have "gassigns G3 ! x = (if x \<in> set (L @ [v]) then l_Undef else gassigns G ! x)" if "x < length (gvars G)" for x
    using G3(4) that va unfolding gv by (cases "x = v") (auto simp: G1(5))
  ultimately show ?case using G3(2) by auto
qed


lemma backtrack_levels_correct:
  assumes "gt_inv G Ls Z"
  shows "\<exists>ch' G'. backtrack_levels (int n) (ch, G) = Some (ch', G') \<and> gt_inv G' (take (n + 1) Ls) Z \<and> same_gvars G G' \<and>
     (\<forall>x < length (gvars G). gassigns G' ! x = (if \<exists>L \<in> set (drop (n + 1) Ls). x \<in> set L then l_Undef else gassigns G ! x)) \<and>
     (ch \<longrightarrow> ch') \<and> (\<not> ch' \<longrightarrow> gassigns G' = gassigns G)"
  using assms
proof (induction Ls arbitrary: G ch rule: rev_induct)
  case Nil
  then have "gdecisionLevel G = -1" by (simp add: gdecisionLevel_def trail_decisionLevel_def gt_inv_def trail_inv_def)
  then show ?case using Nil by (subst backtrack_levels.simps) auto
next
  case (snoc L Ls)
  have inv: "trail_inv (tstate G) (Ls @ [L]) Z" using snoc.prems by (simp add: gt_inv_def)
  then have dl: "gdecisionLevel G = int (length Ls)" "length (decisions (tstate G)) = Suc (length Ls)"
    by (simp_all add: gdecisionLevel_def trail_decisionLevel_def trail_inv_def)
  show ?case
  proof (cases "length Ls > n")
    case False
    then show ?thesis using snoc.prems dl by (subst backtrack_levels.simps) auto
  next
    case True
    have bk: "getBack (tstate G) (length Ls) = Some (if L = [] then var_Undef else int (last L))"
    proof -
      have h: "decisions (tstate G) ! length Ls = head_of L" and r: "ring (ttrail (tstate G)) (int (length Ls)) L"
        using trail_inv_ring [OF inv, of "length Ls"] by simp_all
      show ?thesis
      proof (cases L)
        case (Cons v zs)
        have "v < length (ttrail (tstate G))" using r Cons by (simp add: ring_def)
        then show ?thesis
          using h dl Cons ring_neighbours(2) [OF r [unfolded Cons]] by (simp add: getBack_def getPrev_def tget_int)
      qed (use h dl in \<open>simp add: getBack_def\<close>)
    qed
    from backtrack_level_correct [OF snoc.prems, of ch] obtain G1 where
      G1: "backtrack_level (if L = [] then var_Undef else int (last L)) (length Ls) (ch, G) = Some (ch \<or> L \<noteq> [], G1)"
        "gt_inv G1 (Ls @ [[]]) Z" "same_gvars G G1"
        "\<forall>x < length (gvars G). gassigns G1 ! x = (if x \<in> set L then l_Undef else gassigns G ! x)" by blast
    define H where "H = G1\<lparr>tstate := (tstate G1)\<lparr>decisions := butlast (decisions (tstate G1))\<rparr>\<rparr>"
    have inv2: "gt_inv H Ls Z"
      using G1(2) trail_inv_pop [of "tstate G1" Ls Z] by (auto simp: H_def gt_inv_def on_trail_def)
    have gv: "gvars H = gvars G" "gassigns H = gassigns G1" using G1(3) by (simp_all add: H_def same_gvars_def)
    have lens: "length (gassigns G1) = length (gassigns G)"
      using G1(2,3) snoc.prems by (simp add: gt_inv_def same_gvars_def syncedD(3))
    have eqL: "L = [] \<Longrightarrow> gassigns G1 = gassigns G"
    proof (rule nth_equalityI [OF lens])
      fix x assume "L = []" "x < length (gassigns G1)"
      then show "gassigns G1 ! x = gassigns G ! x"
        using G1(4) lens syncedD(3) [of G] snoc.prems by (simp add: gt_inv_def)
    qed
    from snoc.IH [OF inv2, of "ch \<or> L \<noteq> []"] obtain ch' G3 where
      G3: "backtrack_levels (int n) (ch \<or> L \<noteq> [], H) = Some (ch', G3)" "gt_inv G3 (take (n + 1) Ls) Z" "same_gvars H G3"
        "\<forall>x < length (gvars G). gassigns G3 ! x = (if \<exists>L \<in> set (drop (n + 1) Ls). x \<in> set L then l_Undef else gassigns G1 ! x)"
        "ch \<or> L \<noteq> [] \<longrightarrow> ch'" "\<not> ch' \<longrightarrow> gassigns G3 = gassigns G1" unfolding gv by blast
    have "backtrack_levels (int n) (ch, G) = Some (ch', G3)"
      using dl True bk G1(1) G3(1) by (subst backtrack_levels.simps) (simp add: H_def)
    moreover have "same_gvars G G3"
      using same_gvars_trans [OF G1(3) same_gvars_trans [OF _ G3(3)]] by (simp add: H_def)
    moreover have "take (n + 1) (Ls @ [L]) = take (n + 1) Ls" "drop (n + 1) (Ls @ [L]) = drop (n + 1) Ls @ [L]"
      using True by simp_all
    moreover have "\<forall>x < length (gvars G). gassigns G3 ! x =
        (if \<exists>M \<in> set (drop (n + 1) Ls @ [L]). x \<in> set M then l_Undef else gassigns G ! x)"
      using G3(4) G1(4) by auto
    moreover have "ch \<longrightarrow> ch'" "\<not> ch' \<longrightarrow> gassigns G3 = gassigns G" using G3(5,6) eqL by auto
    ultimately show ?thesis using G3(2) by metis
  qed
qed

lemma backtrack_lazy_correct:
  assumes "gt_inv G Ls Z" "Z \<noteq> []"
  shows "\<exists>G'. backtrack_lazy (int (last Z)) G = Some G' \<and> gt_inv G' Ls [] \<and> same_gvars G G' \<and>
     (\<forall>x < length (gvars G). gassigns G' ! x = (if x \<in> set Z then l_Undef else gassigns G ! x))"
  using assms
proof (induction Z arbitrary: G rule: rev_induct)
  case (snoc v Z)
  have inv: "trail_inv (tstate G) Ls (Z @ [v])" and syn: "synced G"
    and len: "length (ttrail (tstate G)) = length (gvars G)"
    and asg: "\<And>x. x < length (gvars G) \<Longrightarrow> tri (gassigns G ! x) \<noteq> None \<longleftrightarrow> on_trail Ls (Z @ [v]) x"
    and rw: "rewound_assigns G = []" "satisfied_lits G = []"
    using snoc.prems by (auto simp: gt_inv_def)
  have v: "v < length (gvars G)" using trail_inv_bounds(1) [OF inv, of v] len by simp
  then have va: "v < length (gassigns G)" using syncedD(3) [OF syn] by simp
  obtain b where b: "tri (gassigns G ! v) = Some b"
    using asg [OF v] by (auto simp: on_trail_def)
  obtain G1 where G1: "unassign_var (int v) G = Some G1" "synced G1" "same_gvars G G1" "tstate G1 = tstate G"
    "gassigns G1 = (gassigns G)[v := l_Undef]" using unassign_var_correct [OF syn v b] by blast
  have rz: "ring (ttrail (tstate G)) (-2) (Z @ [v])" using inv by (simp add: trail_inv_def)
  have ring: "ring (ttrail (tstate G)) (-2) (v # Z)" using rz ring_rotate [of _ _ Z "[v]"] by simp
  have prev: "getPrev (tstate G) (int v) = Some (int (last (v # Z)))"
    using ring_neighbours(2) [OF ring] v len by (simp add: getPrev_def tget_int del: last.simps)
  obtain T where T: "removeFromTrail (int v) (tstate G) = Some (Z = [], T)"
    "trail_inv T Ls Z" "length (ttrail T) = length (ttrail (tstate G))"
    using trail_inv_remove_lazy [OF inv, of Z v "[]"] by auto
  let ?G2 = "G1\<lparr>tstate := T\<rparr>"
  have lvl: "v \<notin> set M" if "M \<in> set Ls" for M
  proof -
    from that obtain k where "k < length Ls" "Ls ! k = M" by (auto simp: in_set_conv_nth)
    then show ?thesis using trail_inv_ring [OF inv, of k] rz by (auto simp: ring_def)
  qed
  have gv: "gvars ?G2 = gvars G" using G1(3) by (simp add: same_gvars_def)
  have inv2: "gt_inv ?G2 Ls Z"
    unfolding gt_inv_def
  proof (intro conjI allI impI)
    fix x assume x: "x < length (gvars ?G2)"
    show "tri (gassigns ?G2 ! x) \<noteq> None \<longleftrightarrow> on_trail Ls Z x"
    proof (cases "x = v")
      case True
      then show ?thesis using lvl rz va by (auto simp: G1(5) on_trail_def ring_def)
    next
      case False
      then show ?thesis using asg [of x] x gv by (auto simp: G1(5) on_trail_def)
    qed
  qed (use G1 T len gv rw in \<open>simp_all add: same_gvars_def\<close>)
  have step: "backtrack_lazy (int v) G = (if Z = [] then Some ?G2 else backtrack_lazy (int (last Z)) ?G2)"
    using G1(1,4) prev T(1) by (subst backtrack_lazy.simps) simp
  have sv: "same_gvars G ?G2" by (rule same_gvars_trans [OF G1(3) same_gvars_tstate(1)])
  have ga: "gassigns ?G2 ! x = (if x = v then l_Undef else gassigns G ! x)" if "x < length (gvars G)" for x
    using va by (simp add: G1(5) nth_list_update)
  show ?case
  proof (cases "Z = []")
    case True
    then show ?thesis using step inv2 sv ga by auto
  next
    case False
    from snoc.IH [OF inv2 False] obtain G3 where "backtrack_lazy (int (last Z)) ?G2 = Some G3" "gt_inv G3 Ls []" "same_gvars ?G2 G3"
      "\<forall>x < length (gvars G). gassigns G3 ! x = (if x \<in> set Z then l_Undef else gassigns ?G2 ! x)" unfolding gv by blast
    then show ?thesis using step False ga same_gvars_trans [OF sv] by auto
  qed
qed simp

lemma backtrackUntil_correct:
  assumes inv: "gt_inv G Ls Z"
  shows "\<exists>G'. backtrackUntil n G = Some G' \<and> gt_inv G' (take (n + 1) Ls) [] \<and> same_gvars G G' \<and>
     (\<forall>x < length (gvars G). gassigns G' ! x =
        (if x \<in> set Z \<or> (\<exists>L \<in> set (drop (n + 1) Ls). x \<in> set L) then l_Undef else gassigns G ! x)) \<and>
     (gassigns G' \<noteq> gassigns G \<longrightarrow> requiresPropagation G')"
proof -
  have rw: "rewound_assigns G = []" "satisfied_lits G = []" and tinv: "trail_inv (tstate G) Ls Z"
    using inv by (simp_all add: gt_inv_def)
  have "G\<lparr>rewound_assigns := []\<rparr> = G" "G\<lparr>satisfied_lits := []\<rparr> = G" using rw by simp_all
  then have same: "undoRewind G = Some G" "unsatisfy (int n) (rev (satisfied_lits G)) G = Some G"
    using rw by (simp_all add: undoRewind_def)
  let ?lz = "if lazy_trail_head (tstate G) \<noteq> var_Undef then do {
               v \<leftarrow> getPrev (tstate G) (lazy_trail_head (tstate G));
               G \<leftarrow> backtrack_lazy v (G\<lparr>requiresPropagation := True, s_needsPropagation := True\<rparr>);
               Some (True, G)
             } else Some (False, G)"
  have bu: "backtrackUntil n G = do {
     (changed, G) \<leftarrow> ?lz;
     (changed, G) \<leftarrow> backtrack_levels (int n) (changed, G);
     Some (if changed then G\<lparr>requiresPropagation := True, s_needsPropagation := True\<rparr> else G) }"
    unfolding backtrackUntil_def same by (simp add: same)
  obtain G1 where G1: "?lz = Some (Z \<noteq> [], G1)" "gt_inv G1 Ls []" "same_gvars G G1"
     "\<forall>x < length (gvars G). gassigns G1 ! x = (if x \<in> set Z then l_Undef else gassigns G ! x)"
  proof (cases Z)
    case Nil
    then show ?thesis using that [of G] inv tinv by (simp add: trail_inv_def)
  next
    case (Cons v zs)
    let ?H = "G\<lparr>requiresPropagation := True, s_needsPropagation := True\<rparr>"
    have r: "ring (ttrail (tstate G)) (-2) (v # zs)" and h: "lazy_trail_head (tstate G) = int v"
      using tinv Cons by (simp_all add: trail_inv_def)
    have vb: "v < length (ttrail (tstate G))" using r by (simp add: ring_def)
    have p: "getPrev (tstate G) (int v) = Some (int (last Z))"
      using ring_neighbours(2) [OF r] vb Cons by (simp add: getPrev_def tget_int)
    have "gt_inv ?H Ls Z" using inv by (simp add: gt_inv_def)
    from backtrack_lazy_correct [OF this] Cons obtain G1 where
      "backtrack_lazy (int (last Z)) ?H = Some G1" "gt_inv G1 Ls []" "same_gvars ?H G1"
      "\<forall>x < length (gvars G). gassigns G1 ! x = (if x \<in> set Z then l_Undef else gassigns G ! x)" by auto
    then show ?thesis using that [of G1] h p Cons by (auto simp: same_gvars_def)
  qed
  have gv: "gvars G1 = gvars G" using G1(3) by (simp add: same_gvars_def)
  have z0: "gassigns G1 = gassigns G" if "Z = []"
  proof (rule nth_equalityI)
    show "length (gassigns G1) = length (gassigns G)" using G1(2) inv gv by (simp add: gt_inv_def syncedD(3))
    show "gassigns G1 ! x = gassigns G ! x" if "x < length (gassigns G1)" for x
      using that G1(2,4) \<open>Z = []\<close> gv by (simp add: gt_inv_def syncedD(3))
  qed
  from backtrack_levels_correct [OF G1(2), of n "Z \<noteq> []"] obtain ch G2 where
    G2: "backtrack_levels (int n) (Z \<noteq> [], G1) = Some (ch, G2)" "gt_inv G2 (take (n + 1) Ls) []" "same_gvars G1 G2"
      "\<forall>x < length (gvars G). gassigns G2 ! x = (if \<exists>L \<in> set (drop (n + 1) Ls). x \<in> set L then l_Undef else gassigns G1 ! x)"
      "Z \<noteq> [] \<longrightarrow> ch" "\<not> ch \<longrightarrow> gassigns G2 = gassigns G1" unfolding gv by blast
  let ?G3 = "if ch then G2\<lparr>requiresPropagation := True, s_needsPropagation := True\<rparr> else G2"
  have "backtrackUntil n G = Some ?G3" unfolding bu G1(1) using G2(1) by simp
  moreover have "gt_inv ?G3 (take (n + 1) Ls) []" using G2(2) by (simp add: gt_inv_def)
  moreover have "same_gvars G ?G3"
    using same_gvars_trans [OF G1(3) G2(3)] by (simp add: same_gvars_def)
  moreover have "\<forall>x < length (gvars G). gassigns ?G3 ! x =
        (if x \<in> set Z \<or> (\<exists>L \<in> set (drop (n + 1) Ls). x \<in> set L) then l_Undef else gassigns G ! x)"
    using G1(4) G2(4) by simp
  moreover have "gassigns ?G3 \<noteq> gassigns G \<longrightarrow> requiresPropagation ?G3" using G2(5,6) z0 by auto
  ultimately show ?thesis by blast
qed


subsection \<open>Enqueueing a literal\<close>

text \<open>\<open>moved v d Ls\<close>: the lists of the levels after \<open>v\<close> has been taken out and put at the end of level \<open>d\<close>.\<close>

definition moved :: "nat \<Rightarrow> nat \<Rightarrow> nat list list \<Rightarrow> nat list list" where
  "moved v d Ls = (map (remove1 v) Ls)[d := remove1 v (Ls ! d) @ [v]]"

lemma on_trail_moved:
  assumes "d < length Ls"
  shows "on_trail (moved v d Ls) (remove1 v Z) x \<longleftrightarrow> x = v \<or> on_trail Ls Z x"
proof (cases "x = v")
  case True
  have "remove1 v (Ls ! d) @ [v] \<in> set (moved v d Ls)"
    using assms by (simp add: moved_def set_update_memI)
  then show ?thesis using True by (force simp: on_trail_def)
next
  case False
  have "x \<in> set (moved v d Ls ! k) \<longleftrightarrow> x \<in> set (Ls ! k)" if "k < length Ls" for k
    using that False by (cases "k = d") (auto simp: moved_def)
  then have "(\<exists>L \<in> set (moved v d Ls). x \<in> set L) \<longleftrightarrow> (\<exists>k < length Ls. x \<in> set (Ls ! k))"
    by (metis in_set_conv_nth length_map length_list_update moved_def)
  also have "\<dots> \<longleftrightarrow> (\<exists>L \<in> set Ls. x \<in> set L)" by (metis in_set_conv_nth)
  finally show ?thesis using False by (auto simp: on_trail_def in_set_remove1)
qed

lemma moved_absent:
  assumes "\<not> on_trail Ls Z v" "d < length Ls"
  shows "moved v d Ls = Ls[d := Ls ! d @ [v]]" "remove1 v Z = Z"
proof -
  have "map (remove1 v) Ls = Ls"
    using assms by (auto simp: on_trail_def remove1_idem intro: map_idI)
  moreover have "remove1 v (Ls ! d) = Ls ! d"
    using assms by (auto simp: on_trail_def intro: remove1_idem)
  ultimately show "moved v d Ls = Ls[d := Ls ! d @ [v]]" by (simp add: moved_def)
  show "remove1 v Z = Z" using assms(1) by (auto simp: on_trail_def intro: remove1_idem)
qed

lemma trail_move:
  assumes inv: "trail_inv T Ls Z" and v: "var l = int v" "v < length (ttrail T)" and d: "d < length Ls"
  shows "\<exists>e T1 T2. removeFromTrail (int v) T = Some (e, T1) \<and> appendToTrail l d T1 = Some T2 \<and>
     trail_decisionLevel T1 = trail_decisionLevel T \<and> length (ttrail T2) = length (ttrail T) \<and>
     trail_inv T2 (moved v d Ls) (remove1 v Z)"
proof -
  obtain e T1 where T1: "removeFromTrail (int v) T = Some (e, T1)" "trail_inv T1 (map (remove1 v) Ls) (remove1 v Z)"
    "ttrail T1 ! v = Trail_default" "length (ttrail T1) = length (ttrail T)"
    using trail_remove_correct [OF inv v(2)] by blast
  have "vec_grow (d + 1) [] (map (remove1 v) Ls) = map (remove1 v) Ls" using d by (simp add: vec_grow_def)
  then obtain T2 where "appendToTrail l d T1 = Some T2" "length (ttrail T2) = length (ttrail T)"
    "trail_inv T2 (moved v d Ls) (remove1 v Z)"
    using appendToTrail_correct [OF T1(2) v(1) _ T1(3), of d] v(2) T1(4) d by (auto simp: moved_def)
  moreover have "trail_decisionLevel T1 = trail_decisionLevel T"
    using inv T1(2) by (simp add: trail_decisionLevel_def trail_inv_def)
  ultimately show ?thesis using T1(1) by blast
qed

lemma growLevels_eq:
  "growLevels lev G = G\<lparr>tstate := (tstate G)\<lparr>decisions := vec_grow (lev + 1) var_Undef (decisions (tstate G))\<rparr>\<rparr>"
proof -
  have "(gnewDecisionLevel ^^ n) G = G\<lparr>tstate := (tstate G)\<lparr>decisions := decisions (tstate G) @ replicate n var_Undef\<rparr>\<rparr>" for n
    by (induction n) (simp_all add: gnewDecisionLevel_def replicate_append_same)
  then show ?thesis by (simp add: growLevels_def vec_grow_def)
qed

lemma on_trail_grow [simp]: "on_trail (vec_grow n [] Ls) Z v = on_trail Ls Z v"
  by (auto simp: on_trail_def vec_grow_def)

lemma growLevels_inv:
  assumes "gt_inv G Ls Z"
  shows "gt_inv (growLevels lev G) (vec_grow (lev + 1) [] Ls) Z" "same_gvars G (growLevels lev G)"
    "gassigns (growLevels lev G) = gassigns G"
    "gdecisionLevel (growLevels lev G) = int (length (vec_grow (lev + 1) [] Ls)) - 1"
proof -
  have t: "trail_inv (tstate (growLevels lev G)) (vec_grow (lev + 1) [] Ls) Z"
    using assms trail_inv_grow [of "tstate G" Ls Z "lev + 1"] by (simp add: growLevels_eq gt_inv_def)
  then show "gt_inv (growLevels lev G) (vec_grow (lev + 1) [] Ls) Z"
    using assms by (simp add: gt_inv_def) (simp add: growLevels_eq)
  show "gdecisionLevel (growLevels lev G) = int (length (vec_grow (lev + 1) [] Ls)) - 1"
    using t by (simp add: gdecisionLevel_def trail_decisionLevel_def trail_inv_def)
qed (simp_all add: growLevels_eq)

lemma gt_inv_moved:
  assumes inv: "gt_inv G Ls Z" and d: "d < length Ls"
    and G': "synced G'" "same_gvars G G'" "trail_inv (tstate G') (moved v d Ls) (remove1 v Z)"
      "length (ttrail (tstate G')) = length (ttrail (tstate G))"
    and asg: "\<And>x. x < length (gvars G) \<Longrightarrow> tri (gassigns G' ! x) \<noteq> None \<longleftrightarrow> x = v \<or> tri (gassigns G ! x) \<noteq> None"
  shows "gt_inv G' (moved v d Ls) (remove1 v Z)"
  using assms on_trail_moved [OF d, of v Z] unfolding gt_inv_def same_gvars_def by simp

lemma lazy_unassign_correct:
  assumes inv: "gt_inv G Ls Z" and v: "var l = int v" "v < length (gvars G)" and asg: "tri (gassigns G ! v) = Some (sign l)"
  shows "\<exists>G' e T. lazy_unassign l G = Some (G'\<lparr>tstate := T\<rparr>) \<and> removeFromTrail (int v) (tstate G) = Some (e, T) \<and>
     synced G' \<and> same_gvars G G' \<and> gassigns G' = (gassigns G)[v := l_Undef]"
proof -
  have syn: "synced G" and tv: "trail_inv (tstate G) Ls Z" "v < length (ttrail (tstate G))"
    using inv v(2) by (simp_all add: gt_inv_def)
  obtain e T where T: "removeFromTrail (int v) (tstate G) = Some (e, T)"
    using trail_remove_correct [OF tv] by blast
  note opt = syncedD(4) [OF syn, unfolded default_options_def]
  have va: "v < length (gassigns G)" using syncedD(3) [OF syn] v(2) by simp
  show ?thesis
  proof (cases "gisEdge (gvars G ! v)")
    case False
    then have d: "0 \<le> detector_edge (gvars G ! v)" "nat (detector_edge (gvars G ! v)) < length (detectors G)"
      using syncedD(8) [OF syn v(2)] by (simp_all add: var_ok_def)
    let ?d = "nat (detector_edge (gvars G ! v))"
    let ?G = "G\<lparr>gassigns := (gassigns G)[v := l_Undef], detectors := (detectors G)[?d := det_unassign l (detectors G ! ?d)]\<rparr>"
    have "lazy_unassign l G = Some (?G\<lparr>tstate := T\<rparr>)"
      using v False d T by (simp add: lazy_unassign_def with_detector_def)
    moreover have "synced ?G"
      by (rule synced_detector_update [OF syn v(2) False, of l_Undef]) (use syncedD(4) [OF syn] in \<open>simp_all\<close>)
    moreover have "same_gvars G ?G" by (simp add: same_gvars_def)
    ultimately show ?thesis using T by fastforce
  next
    case True
    from edge_var [OF syn v(2) True] obtain i where i: "detector_edge (gvars G ! v) = int i" by blast
    have "var (neg l) = int v" "tri (gassigns G ! v) = Some (\<not> sign (neg l))" using v asg by simp_all
    from backtrackAssign_correct [OF syn this(1) v(2) this(2)] obtain G1 where
      G1: "backtrackAssign (neg l) G = Some G1" "synced G1" "same_gvars G G1" "tstate G1 = tstate G"
        "gassigns G1 = (gassigns G)[v := l_Undef]" by blast
    have "lazy_unassign l G = Some (G1\<lparr>tstate := T\<rparr>)"
      using G1(1) v va True i T opt
      by (auto simp: lazy_unassign_def backtrackAssign_def split: bind_splits if_splits)
    then show ?thesis using G1 T by blast
  qed
qed

lemma assign_lit_requires: "assign_lit l G = Some G' \<Longrightarrow> requiresPropagation G' = requiresPropagation G"
  by (auto simp: assign_lit_def with_detector_def Let_def split: if_splits option.splits bind_splits)

lemma append_assign:
  assumes inv: "gt_inv G Ls Z" and d: "d < length Ls" and v: "var l = int v" "v < length (gvars G)"
    and H: "synced H" "same_gvars G H" "trail_inv (tstate H) (map (remove1 v) Ls) (remove1 v Z)"
      "ttrail (tstate H) ! v = Trail_default" "length (ttrail (tstate H)) = length (gvars G)"
    and asg: "tri (gassigns H ! v) = None" "\<And>x. x < length (gvars G) \<Longrightarrow> x \<noteq> v \<Longrightarrow> gassigns H ! x = gassigns G ! x"
  shows "\<exists>T G'. appendToTrail l d (tstate H) = Some T \<and>
     assign_lit l (H\<lparr>tstate := T, requiresPropagation := True\<rparr>) = Some G' \<and> same_gvars G G' \<and>
     gt_inv G' (moved v d Ls) (remove1 v Z) \<and> requiresPropagation G' \<and>
     (\<forall>x < length (gvars G). tri (gassigns G' ! x) = (if x = v then Some (\<not> sign l) else tri (gassigns G ! x)))"
proof -
  have "vec_grow (d + 1) [] (map (remove1 v) Ls) = map (remove1 v) Ls" using d by (simp add: vec_grow_def)
  then obtain T where T: "appendToTrail l d (tstate H) = Some T" "length (ttrail T) = length (gvars G)"
    "trail_inv T (moved v d Ls) (remove1 v Z)"
    using appendToTrail_correct [OF H(3) v(1) _ H(4), of d] v(2) H(5) d by (auto simp: moved_def)
  let ?H = "H\<lparr>tstate := T, requiresPropagation := True\<rparr>"
  have gv: "gvars H = gvars G" using H(2) by (simp add: same_gvars_def)
  have "synced ?H" "v < length (gvars ?H)" "tri (gassigns ?H ! v) = None" using H(1) asg(1) v(2) gv by simp_all
  from assign_lit_correct [OF this(1) v(1) this(2,3)] obtain G' where
    G': "assign_lit l ?H = Some G'" "synced G'" "same_gvars ?H G'" "tstate G' = T"
      "gassigns G' = (gassigns H)[v := lbool_of (\<not> sign l)]" by auto
  have rp: "requiresPropagation G'" using assign_lit_requires [OF G'(1)] by simp
  have ga: "tri (gassigns G' ! x) = (if x = v then Some (\<not> sign l) else tri (gassigns G ! x))" if "x < length (gvars G)" for x
    using asg(2) [OF that] that syncedD(3) [OF H(1)] gv by (cases "x = v") (simp_all add: G'(5))
  have sg: "same_gvars G G'" using same_gvars_trans [OF H(2)] G'(3) by (simp add: same_gvars_def)
  have "gt_inv G' (moved v d Ls) (remove1 v Z)"
    by (rule gt_inv_moved [OF inv d G'(2) sg]) (use T(2,3) G'(4) ga inv in \<open>simp_all add: gt_inv_def\<close>)
  then show ?thesis using T(1) G'(1) rp ga sg by blast
qed

text \<open>The variable of an enqueued literal ends up on the list of the current level, unless it was there already with this
  value and a lower level.\<close>

lemma enqueueTheory_correct:
  assumes inv: "gt_inv G Ls Z" and v: "var l = int v" "v < length (gvars G)"
    and sv: "sv = solverVar (gvars G ! v)" "wf_lbool (lit_value S (mkLit sv False))"
      "tri (lit_value S (mkLit sv False)) = Some (\<not> sign l)"
    and lev: "opt_lazy_backtrack G \<or> (length Ls \<le> level S sv + 1 \<and> tri (gassigns G ! v) \<noteq> Some (sign l))"
  defines "Ms \<equiv> vec_grow (level S sv + 1) [] Ls"
  defines "kept \<equiv> tri (gassigns G ! v) = Some (\<not> sign l) \<and> level S sv + 1 < length Ms"
  shows "\<exists>G'. enqueueTheory S l G = Some G' \<and> same_gvars G G' \<and>
     gt_inv G' (if kept then Ms else moved v (length Ms - 1) Ms) (if kept then Z else remove1 v Z) \<and>
     (\<forall>x < length (gvars G). tri (gassigns G' ! x) = (if x = v then Some (\<not> sign l) else tri (gassigns G ! x))) \<and>
     (tri (gassigns G ! v) \<noteq> Some (\<not> sign l) \<longrightarrow> requiresPropagation G')"
proof -
  define H where "H = growLevels (level S sv) G"
  note grow = growLevels_inv [OF inv, of "level S sv", folded H_def Ms_def]
  have H: "gvars H = gvars G" "opt_lazy_backtrack H = opt_lazy_backtrack G" using grow(2) by (simp_all add: same_gvars_def)
  have ne: "length Ms - 1 < length Ms" "int (length Ms) - 1 = int (length Ms - 1)" "level S sv + 1 \<le> length Ms"
    by (auto simp: Ms_def vec_grow_def)
  have syn: "synced H" and tv: "trail_inv (tstate H) Ms Z" "v < length (ttrail (tstate H))"
    using grow(1) v(2) H(1) by (simp_all add: gt_inv_def)
  have va: "v < length (gassigns G)" using inv v(2) by (simp add: gt_inv_def syncedD(3))
  have wf: "wf_lbool (gassigns G ! v)" using inv v(2) by (simp add: gt_inv_def syncedD(9))
  have eq: "lbool_eq (gassigns G ! v) (lit_value S (mkLit sv False)) \<longleftrightarrow> tri (gassigns G ! v) = Some (\<not> sign l)"
    "lbool_eq (gassigns G ! v) l_Undef \<longleftrightarrow> tri (gassigns G ! v) = None"
    using wf sv(2,3) by simp_all
  have enq: "enqueueTheory S l G =
     (if tri (gassigns G ! v) = Some (\<not> sign l) then
        if level S sv + 1 = length Ms then do {
          (_, T) \<leftarrow> removeFromTrail (int v) (tstate H);
          T \<leftarrow> appendToTrail l (nat (trail_decisionLevel T)) T;
          Some (H\<lparr>tstate := T\<rparr>)
        } else Some H
      else do {
        H \<leftarrow> (if opt_lazy_backtrack G \<and> tri (gassigns G ! v) \<noteq> None then lazy_unassign l H else Some H);
        if \<not> opt_lazy_backtrack H \<and> gdecisionLevel H > int (level S sv) then None
        else do {
          T \<leftarrow> appendToTrail l (nat (gdecisionLevel H)) (tstate H);
          assign_lit l (H\<lparr>tstate := T, requiresPropagation := True\<rparr>)
        }
      })"
  proof -
    have "toSolver_var G (int v) = Some sv" "gvalue_var H (int v) = Some (gassigns G ! v)"
      using v(2) va sv(1) grow(3) by (simp_all add: toSolver_var_def)
    moreover have "int (level S sv) = gdecisionLevel H \<longleftrightarrow> level S sv + 1 = length Ms"
      using grow(4) ne by linarith
    ultimately show ?thesis
      by (simp add: enqueueTheory_def v(1) eq H(2) H_def [symmetric] cong: if_cong)
  qed
  show ?thesis
  proof (cases "tri (gassigns G ! v) = Some (\<not> sign l)")
    case True
    show ?thesis
    proof (cases "level S sv + 1 = length Ms")
      case False
      then have kept using True ne(3) by (simp add: kept_def)
      then show ?thesis using grow True False by (auto simp: enq)
    next
      case lv: True
      then have nk: "\<not> kept" by (simp add: kept_def)
      obtain e T1 T2 where T: "removeFromTrail (int v) (tstate H) = Some (e, T1)" "appendToTrail l (length Ms - 1) T1 = Some T2"
        "trail_decisionLevel T1 = trail_decisionLevel (tstate H)" "length (ttrail T2) = length (ttrail (tstate H))"
        "trail_inv T2 (moved v (length Ms - 1) Ms) (remove1 v Z)"
        using trail_move [OF tv(1) v(1) tv(2) ne(1)] by blast
      have "nat (trail_decisionLevel T1) = length Ms - 1" using T(3) grow(4) ne(2) unfolding gdecisionLevel_def by (metis nat_int)
      then have "enqueueTheory S l G = Some (H\<lparr>tstate := T2\<rparr>)" using True lv T(1,2) by (simp add: enq)
      moreover have "gt_inv (H\<lparr>tstate := T2\<rparr>) (moved v (length Ms - 1) Ms) (remove1 v Z)"
      proof (rule gt_inv_moved [OF grow(1) ne(1)])
        fix x
        show "tri (gassigns (H\<lparr>tstate := T2\<rparr>) ! x) \<noteq> None \<longleftrightarrow> x = v \<or> tri (gassigns H ! x) \<noteq> None"
          using True grow(3) by (cases "x = v") simp_all
      qed (use syn T(4,5) in simp_all)
      moreover have "same_gvars G (H\<lparr>tstate := T2\<rparr>)" by (rule same_gvars_trans [OF grow(2)]) simp
      ultimately show ?thesis using nk True grow(3) by auto
    qed
  next
    case False
    then have nk: "\<not> kept" by (simp add: kept_def)
    define H1 where "H1 = (if opt_lazy_backtrack G \<and> tri (gassigns G ! v) \<noteq> None then lazy_unassign l H else Some H)"
    obtain K where K: "H1 = Some K" "synced K" "same_gvars H K" "trail_inv (tstate K) (map (remove1 v) Ms) (remove1 v Z)"
      "ttrail (tstate K) ! v = Trail_default" "length (ttrail (tstate K)) = length (gvars H)" "tri (gassigns K ! v) = None"
      "\<And>x. x < length (gvars H) \<Longrightarrow> x \<noteq> v \<Longrightarrow> gassigns K ! x = gassigns H ! x"
    proof (cases "tri (gassigns G ! v) = None")
      case True
      then have "\<not> on_trail Ms Z v" using grow(1,3) v(2) H(1) unfolding gt_inv_def by metis
      then have "map (remove1 v) Ms = Ms" "remove1 v Z = Z" "ttrail (tstate H) ! v = Trail_default"
        using trail_inv_default [OF tv] by (auto simp: on_trail_def remove1_idem intro: map_idI)
      then show ?thesis using that [of H] True syn tv grow by (simp add: H1_def gt_inv_def)
    next
      case asg: False
      then have "tri (gassigns H ! v) = Some (sign l)" using False grow(3) by auto
      from lazy_unassign_correct [OF grow(1) v(1) _ this] v(2) H(1) obtain K e T where
        K: "lazy_unassign l H = Some (K\<lparr>tstate := T\<rparr>)" "removeFromTrail (int v) (tstate H) = Some (e, T)"
          "synced K" "same_gvars H K" "gassigns K = (gassigns H)[v := l_Undef]" by auto
      have "opt_lazy_backtrack G" using lev asg False by auto
      moreover have "trail_inv T (map (remove1 v) Ms) (remove1 v Z)" "ttrail T ! v = Trail_default"
        "length (ttrail T) = length (ttrail (tstate H))"
        using trail_remove_correct [OF tv] K(2) by auto
      moreover have "same_gvars H (K\<lparr>tstate := T\<rparr>)" using K(4) by (simp add: same_gvars_def)
      ultimately show ?thesis
        using that [of "K\<lparr>tstate := T\<rparr>"] K asg grow(1) va grow(3) by (simp add: H1_def gt_inv_def)
    qed
    have dl: "gdecisionLevel K = int (length Ms - 1)" "opt_lazy_backtrack K = opt_lazy_backtrack G"
      using K(3,4) H(2) ne(1) by (auto simp: gdecisionLevel_def trail_decisionLevel_def trail_inv_def same_gvars_def)
    have "opt_lazy_backtrack G \<or> length Ms - 1 \<le> level S sv"
      using lev by (auto simp: Ms_def vec_grow_def)
    then have "enqueueTheory S l G = do {
        T \<leftarrow> appendToTrail l (length Ms - 1) (tstate K);
        assign_lit l (K\<lparr>tstate := T, requiresPropagation := True\<rparr>) }"
      using False dl K(1) unfolding enq H1_def by auto
    moreover from append_assign [OF grow(1) ne(1) v(1) _ K(2-8)] v(2) H(1) obtain T G' where
      "appendToTrail l (length Ms - 1) (tstate K) = Some T"
      "assign_lit l (K\<lparr>tstate := T, requiresPropagation := True\<rparr>) = Some G'" "same_gvars H G'"
      "gt_inv G' (moved v (length Ms - 1) Ms) (remove1 v Z)" "requiresPropagation G'"
      "\<forall>x < length (gvars H). tri (gassigns G' ! x) = (if x = v then Some (\<not> sign l) else tri (gassigns H ! x))"
      by auto
    ultimately show ?thesis using nk same_gvars_trans [OF grow(2)] H(1) grow(3) by auto
  qed
qed

subsection \<open>Declaring nodes and edges\<close>

lemma addNode_declares [simp]: "declares (snd (addNode g)) = declares g"
  by (simp add: declares_def addNode_fields fun_eq_iff)

lemma synced_addNode:
  assumes syn: "synced G"
    and G': "g_under G' = snd (addNode (g_under G))" "g_over G' = snd (addNode (g_over G))"
      "gvars G' = gvars G" "gassigns G' = gassigns G" "edge_list G' = edge_list G" "detectors G' = detectors G"
      "default_options G' = default_options G"
  shows "synced G'"
  using syn unfolding synced_def edge_synced_def var_ok_def G' addNode_declares addNode_fields
  by (auto intro: wf_addNode)

text \<open>The graphs with other weights and the cut graph have the same nodes and edges (the cut graph has two edges for each).\<close>

definition aux_ok :: "GraphTheory \<Rightarrow> bool" where
  "aux_ok G \<longleftrightarrow> (\<forall>g \<in> {g_under_weights_over G, g_over_weights_under G, cutGraph G}. wf_graph g \<and> num_nodes g = nNodes G) \<and>
     num_edges (g_under_weights_over G) = length (edge_list G) \<and> num_edges (g_over_weights_under G) = length (edge_list G) \<and>
     num_edges (cutGraph G) = 2 * length (edge_list G)"

lemma status_ops_topology: "status_op\<^sup>*\<^sup>* g g' \<Longrightarrow> wf_graph g \<Longrightarrow> wf_graph g' \<and> same_topology g g'"
  by (induction rule: rtranclp_induct) (auto dest: status_op_effect intro: same_topology_trans)

lemma same_gvars_aux:
  assumes "same_gvars G G'" "synced G" "aux_ok G"
  shows "aux_ok G'" "nNodes G' = nNodes G"
proof -
  show "nNodes G' = nNodes G"
    using assms(1) status_ops_topology [of "g_under G" "g_under G'"] syncedD(1) [OF assms(2)]
    by (auto simp: same_gvars_def status_step_def nNodes_def nodes_def same_topology_def)
  then show "aux_ok G'" using assms(1,3) by (simp add: aux_ok_def same_gvars_def)
qed

text \<open>\<open>grown g g'\<close>: the graph has been changed by a declaration, which every algorithm notices.\<close>

definition grown :: "DynamicGraph \<Rightarrow> DynamicGraph \<Rightarrow> bool" where
  "grown g g' \<longleftrightarrow> modifications g < modifications g' \<and> is_changed g'"

lemma newNode_correct:
  assumes inv: "gt_inv G Ls Z" "aux_ok G" and fr: "\<not> frozen G"
  shows "\<exists>G'. newNode G = Some (nNodes G, G') \<and> gt_inv G' Ls Z \<and> aux_ok G' \<and> nNodes G' = nNodes G + 1 \<and> edge_list G' = edge_list G \<and>
     gvars G' = gvars G \<and> gassigns G' = gassigns G \<and> theory_vars G' = theory_vars G \<and> tstate G' = tstate G \<and> \<not> frozen G' \<and>
     edge_weights G' = edge_weights G \<and> lazy_backtracking_enabled G' = lazy_backtracking_enabled G \<and>
     opt_lazy_backtrack G' = opt_lazy_backtrack G \<and> length (detectors G') = length (detectors G) \<and>
     arcs (g_under G') = arcs (g_under G) \<and> arcs (g_over G') = arcs (g_over G) \<and>
     grown (g_under G) (g_under G') \<and> grown (g_over G) (g_over G')"
proof -
  define G' where "G' = G\<lparr>g_over := snd (addNode (g_over G)), cutGraph := snd (addNode (cutGraph G)),
       g_under_weights_over := snd (addNode (g_under_weights_over G)),
       g_over_weights_under := snd (addNode (g_over_weights_under G)), g_under := snd (addNode (g_under G))\<rparr>"
  have "newNode G = Some (nNodes G, G')"
    using fr by (simp add: newNode_def checkFrozen_def G'_def nNodes_def nodes_def case_prod_unfold addNode_fields(1))
  moreover have "synced G'"
    by (rule synced_addNode [of G]) (use inv in \<open>simp_all add: G'_def gt_inv_def default_options_def\<close>)
  moreover have "arcs (g_under G') = arcs (g_under G)" "arcs (g_over G') = arcs (g_over G)"
    using inv by (simp_all add: G'_def gt_inv_def synced_def wf_addNode)
  moreover have "nNodes G' = nNodes G + 1" by (simp add: nNodes_def nodes_def addNode_fields G'_def)
  moreover have "aux_ok G'"
    using inv(2) by (simp add: aux_ok_def G'_def addNode_fields wf_addNode nNodes_def nodes_def)
  moreover have "grown (g_under G) (g_under G')" "grown (g_over G) (g_over G')" by (simp_all add: G'_def grown_def addNode_fields)
  ultimately show ?thesis using inv fr by (simp add: gt_inv_def) (simp add: G'_def)
qed


lemma grow_nodes_correct:
  assumes "gt_inv G Ls Z" "aux_ok G" "\<not> frozen G"
  shows "\<exists>G'. grow_nodes u w G = Some G' \<and> gt_inv G' Ls Z \<and> aux_ok G' \<and> nNodes G' = max (nNodes G) (max u w + 1) \<and>
     edge_list G' = edge_list G \<and> gvars G' = gvars G \<and> gassigns G' = gassigns G \<and> theory_vars G' = theory_vars G \<and>
     tstate G' = tstate G \<and> edge_weights G' = edge_weights G \<and> lazy_backtracking_enabled G' = lazy_backtracking_enabled G \<and> frozen G' = frozen G \<and>
     opt_lazy_backtrack G' = opt_lazy_backtrack G \<and> length (detectors G') = length (detectors G) \<and>
     modifications (g_under G) \<le> modifications (g_under G') \<and> modifications (g_over G) \<le> modifications (g_over G')"
  using assms
proof (induction "max u w + 1 - nNodes G" arbitrary: G)
  case 0
  then show ?case by (subst grow_nodes.simps) auto
next
  case (Suc k)
  from newNode_correct [OF Suc.prems] obtain H where
    H: "newNode G = Some (nNodes G, H)" "gt_inv H Ls Z" "aux_ok H" "nNodes H = nNodes G + 1" "\<not> frozen H"
      "edge_list H = edge_list G" "gvars H = gvars G" "gassigns H = gassigns G" "theory_vars H = theory_vars G"
      "edge_weights H = edge_weights G" "lazy_backtracking_enabled H = lazy_backtracking_enabled G" "tstate H = tstate G"
      "opt_lazy_backtrack H = opt_lazy_backtrack G" "length (detectors H) = length (detectors G)"
      "grown (g_under G) (g_under H)" "grown (g_over G) (g_over H)" by blast
  have "k = max u w + 1 - nNodes H" "max (nNodes H) (max u w + 1) = max (nNodes G) (max u w + 1)"
    using Suc.hyps(2) H(4) by auto
  with Suc.hyps(1) [OF _ H(2,3,5)] H Suc.prems(3) obtain G' where
    G': "grow_nodes u w H = Some G'" "gt_inv G' Ls Z" "aux_ok G'" "nNodes G' = max (nNodes G) (max u w + 1)"
     "edge_list G' = edge_list G" "gvars G' = gvars G" "gassigns G' = gassigns G" "theory_vars G' = theory_vars G"
     "tstate G' = tstate G" "edge_weights G' = edge_weights G" "lazy_backtracking_enabled G' = lazy_backtracking_enabled G" "frozen G' = frozen G"
     "opt_lazy_backtrack G' = opt_lazy_backtrack G" "length (detectors G') = length (detectors G)"
     "modifications (g_under H) \<le> modifications (g_under G')" "modifications (g_over H) \<le> modifications (g_over G')" by auto
  moreover have "modifications (g_under G) \<le> modifications (g_under G')" "modifications (g_over G) \<le> modifications (g_over G')"
    using G'(15,16) H(15,16) by (simp_all add: grown_def)
  moreover have "grow_nodes u w G = grow_nodes u w H"
    using Suc.hyps(2) H(1) by (subst grow_nodes.simps) auto
  ultimately show ?case by auto
qed

lemma disableEdge3_wf:
  assumes "wf_graph g" "declares g i u w"
  obtains g' where "disableEdge3 u w i g = Some g'" "wf_graph g'" "same_topology g g'" "edge_status g' = (edge_status g)[i := False]"
    "num_nodes g' = num_nodes g" "num_edges g' = num_edges g" "modifications g \<le> modifications g'" "is_changed g' = is_changed g"
proof -
  obtain g' where g': "disableEdge i g = Some g'" "wf_graph g'" "same_topology g g'" "edge_status g' = (edge_status g)[i := False]"
    using enable_disable_status(2) [OF assms(1) declares_isEdge [OF assms(2)]] by blast
  have "getEdge g i = Some (mkFullEdge u w i)" using assms(2) by (simp add: declares_def getEdge_def)
  then have d: "disableEdge3 u w i g = Some g'" using g'(1) by (simp add: disableEdge_def mkFullEdge_def)
  moreover from d have "modifications g \<le> modifications g'" "is_changed g' = is_changed g"
    by (auto simp: disableEdge3_def Let_def split: if_splits)
  ultimately show ?thesis using that g' by (simp add: same_topology_def)
qed

lemma fresh_edge:
  assumes "wf_graph g" "u < num_nodes g" "w < num_nodes g" "i = num_edges g"
  obtains g1 g2 where "addEdge u w (int i) wt g = Some (i, g1)" "disableEdge3 u w i g1 = Some g2"
    "wf_graph g1" "num_nodes g1 = num_nodes g" "num_edges g1 = i + 1" "edge_status g1 = edge_status g @ [True]"
    "wf_graph g2" "num_nodes g2 = num_nodes g" "num_edges g2 = i + 1" "edge_status g2 = edge_status g @ [False]"
    "\<forall>j x y. declares g1 j x y \<longleftrightarrow> declares g j x y \<or> (j, x, y) = (i, u, w)"
    "declares g2 = declares g1" "grown g g1" "grown g g2"
proof -
  have ni: "int i < 0 \<or> \<not> isEdge g (nat (int i))" using wf_graph_lengths(6) [OF assms(1)] assms(4) by (simp add: isEdge_def)
  from addEdge_correct [OF assms(1-3) ni refl, of wt] obtain g1 where
    g1: "addEdge u w (int i) wt g = Some (i, g1)" "wf_graph g1" "num_nodes g1 = num_nodes g"
      "\<forall>j x y. declares g1 j x y \<longleftrightarrow> declares g j x y \<or> (j, x, y) = (i, u, w)" by auto
  have st: "edge_status g1 = edge_status g @ [True]" "num_edges g1 = i + 1" "grown g g1"
    using g1(1) addEdge_fields [OF assms(1-3) ni refl, of wt] wf_graph_lengths(5) [OF assms(1)] assms(4)
    by (auto simp: vec_grow_def list_update_append grown_def)
  have e: "declares g1 i u w" using g1(4) by simp
  obtain g2 where g2: "disableEdge3 u w i g1 = Some g2" "wf_graph g2" "same_topology g1 g2" "edge_status g2 = (edge_status g1)[i := False]"
    "modifications g1 \<le> modifications g2" "is_changed g2 = is_changed g1"
    by (rule disableEdge3_wf [OF g1(2) e])
  moreover have "edge_status g2 = edge_status g @ [False]"
    using g2(4) st wf_graph_lengths(5) [OF assms(1)] assms(4) by (simp add: list_update_append)
  moreover have "num_edges g2 = i + 1" "num_nodes g2 = num_nodes g" using g2(3) st(2) g1(3) by (simp_all add: same_topology_def)
  moreover have "declares g2 = declares g1" using same_topology_declares [OF g2(3)] by simp
  moreover have "grown g g2" using st(3) g2(5,6) by (simp add: grown_def)
  ultimately show ?thesis using that g1 st g2(1,2) by blast
qed

lemma synced_add_edge:
  assumes syn: "synced G"
    and gv: "gvars G' = gvars G @ [d]" "gisEdge d" "\<not> gisTheoryVar d" "detector_edge d = int (length (edge_list G))"
      "gassigns G' = gassigns G @ [l_Undef]" "length (detectors G') = length (detectors G)" "default_options G'"
    and e: "edge_list G' = edge_list G @ [e]" "ge_v e = int (length (gvars G))" "ge_from e = int u" "ge_to e = int w"
    and gu: "wf_graph (g_under G')" "num_nodes (g_under G') = num_nodes (g_under G)" "num_edges (g_under G') = length (edge_list G) + 1"
      "edge_status (g_under G') = edge_status (g_under G) @ [False]"
      "\<forall>j x y. declares (g_under G') j x y \<longleftrightarrow> declares (g_under G) j x y \<or> (j, x, y) = (length (edge_list G), u, w)"
    and go: "wf_graph (g_over G')" "num_nodes (g_over G') = num_nodes (g_over G)" "num_edges (g_over G') = length (edge_list G) + 1"
      "edge_status (g_over G') = edge_status (g_over G) @ [True]"
      "\<forall>j x y. declares (g_over G') j x y \<longleftrightarrow> declares (g_over G) j x y \<or> (j, x, y) = (length (edge_list G), u, w)"
  shows "synced G'"
proof -
  have len: "length (edge_status (g_under G)) = length (edge_list G)" "length (edge_status (g_over G)) = length (edge_list G)"
    "length (gassigns G) = length (gvars G)"
    using syn by (auto simp: synced_def wf_graph_lengths)
  have "edge_synced G' j" if j: "j < length (edge_list G')" for j
  proof (cases "j = length (edge_list G)")
    case True
    have "declares (g_under G') j u w" "declares (g_over G') j u w" using gu(5) go(5) True by simp_all
    then show ?thesis
      unfolding edge_synced_def using True e gv gu(4) go(4) len
      by (intro exI [of _ "length (gvars G)"] exI [of _ u] exI [of _ w]) (simp add: nth_append)
  next
    case False
    then have jl: "j < length (edge_list G)" using j e(1) by simp
    with syncedD(7) [OF syn jl] obtain v x y where
      o: "ge_v (edge_list G ! j) = int v" "ge_from (edge_list G ! j) = int x" "ge_to (edge_list G ! j) = int y"
        "v < length (gvars G)" "gisEdge (gvars G ! v)" "detector_edge (gvars G ! v) = int j"
        "declares (g_under G) j x y" "declares (g_over G) j x y"
        "edge_status (g_under G) ! j \<longleftrightarrow> tri (gassigns G ! v) = Some True"
        "edge_status (g_over G) ! j \<longleftrightarrow> tri (gassigns G ! v) \<noteq> Some False"
      by (auto simp: edge_synced_def)
    show ?thesis
      unfolding edge_synced_def using o jl len gu(4,5) go(4,5) gv(1,5) e(1)
      by (intro exI [of _ v] exI [of _ x] exI [of _ y]) (simp add: nth_append)
  qed
  moreover have "var_ok G' v" if "v < length (gvars G')" for v
  proof (cases "v = length (gvars G)")
    case True
    then show ?thesis using gv e by (auto simp: var_ok_def)
  next
    case False
    then have "v < length (gvars G)" using that gv(1) by simp
    then show ?thesis using syncedD(8) [OF syn, of v] gv e(1) by (fastforce simp: var_ok_def nth_append)
  qed
  moreover have "\<forall>b \<in> set (gassigns G'). wf_lbool b" using syn gv(5) by (auto simp: synced_def)
  moreover have "num_nodes (g_over G') = num_nodes (g_under G')" using gu(2) go(2) syn by (simp add: synced_def)
  ultimately show ?thesis using gu(1,3) go(1,3) gv(1,5,7) e(1) len by (simp add: synced_def)
qed

lemma undecide_trail_id: "\<not> lazy_backtracking_enabled G \<Longrightarrow> undecide_trail ls G = Some G"
  by (induction ls) (simp_all add: undecideTheory_def split: option.split)

lemma cancelTheory_correct:
  assumes inv: "gt_inv G Ls Z" and nl: "\<not> lazy_backtracking_enabled G"
  obtains G' where "cancelTheory n S G = Some G'" "same_gvars G G'"
    "gt_inv G' (if n < decisionLevel S then take (n + 1) Ls else Ls) (if n < decisionLevel S then [] else Z)"
proof (cases "n < decisionLevel S")
  case True
  from backtrackUntil_correct [OF inv, of n] obtain G' where
    G': "backtrackUntil n G = Some G'" "gt_inv G' (take (n + 1) Ls) []" "same_gvars G G'" by blast
  have "\<not> lazy_backtracking_enabled G'" using G'(3) nl by (simp add: same_gvars_def)
  then show ?thesis using that [of G'] G' True nl by (simp add: cancelTheory_def undecide_trail_id)
qed (use that [of G] inv in \<open>simp add: cancelTheory_def\<close>)

lemma ring_more_vars:
  assumes "ring tr lev vs"
  shows "ring (tr @ [t]) lev vs"
proof -
  have "(tr @ [t]) ! v = tr ! v" if "v \<in> set vs" for v using assms that by (auto simp: ring_def nth_append)
  then show ?thesis using assms pairs_mem [of _ _ vs] unfolding ring_def by fastforce
qed

lemma trail_inv_more_vars:
  assumes "trail_inv T Ls Z"
  shows "trail_inv (T\<lparr>ttrail := ttrail T @ [Trail_default]\<rparr>) Ls Z"
  using assms by (auto simp: trail_inv_def ring_more_vars nth_append less_Suc_eq)

lemma gt_inv_add_edge:
  assumes inv: "gt_inv G Ls Z" and syn: "synced G'" and gv: "gvars G' = gvars G @ [d]" "gassigns G' = gassigns G @ [l_Undef]"
    and T: "tstate G' = (tstate G)\<lparr>ttrail := ttrail (tstate G) @ [Trail_default]\<rparr>"
    and rw: "rewound_assigns G' = rewound_assigns G" "satisfied_lits G' = satisfied_lits G"
  shows "gt_inv G' Ls Z"
proof -
  have len: "length (ttrail (tstate G)) = length (gvars G)" "length (gassigns G) = length (gvars G)"
    "trail_inv (tstate G) Ls Z"
    using inv by (simp_all add: gt_inv_def synced_def)
  have "tri (gassigns G' ! v) \<noteq> None \<longleftrightarrow> on_trail Ls Z v" if "v < length (gvars G')" for v
  proof (cases "v = length (gvars G)")
    case True
    have "\<not> on_trail Ls Z v" using trail_inv_bounds [OF len(3)] True len(1) by (fastforce simp: on_trail_def)
    then show ?thesis using True gv(2) len(2) by (simp add: nth_append)
  next
    case False
    then have "v < length (gvars G)" using that gv(1) by simp
    then show ?thesis using inv gv(2) len(2) by (simp add: gt_inv_def nth_append)
  qed
  then show ?thesis
    using inv syn gv(1) T rw trail_inv_more_vars [OF len(3)] len(1) by (simp add: gt_inv_def)
qed

definition edge_solver_var :: "int \<Rightarrow> Solver \<Rightarrow> int" where
  "edge_solver_var outerVar S = (if outerVar = var_Undef then fst (newVar True (cancelUntil 0 S)) else outerVar)"

definition new_solver :: "int \<Rightarrow> Solver \<Rightarrow> Solver" where
  "new_solver sv S = grow_solver_vars (edge_solver_var sv S)
     (if sv = var_Undef then snd (newVar True (cancelUntil 0 S)) else cancelUntil 0 S)"

definition new_theory_vars :: "int \<Rightarrow> Solver \<Rightarrow> GraphTheory \<Rightarrow> (int \<times> int) list" where
  "new_theory_vars sv S G = (if sv = var (const_true S) then theory_vars G else (sv, int (length (gvars G))) # theory_vars G)"

text \<open>A new variable of the theory: everything but the level is cancelled, and one unassigned variable is added.\<close>

lemma gnewVar_new:
  assumes inv: "gt_inv G Ls Z" and nl: "\<not> lazy_backtracking_enabled G"
    and new: "map_of (theory_vars G) (edge_solver_var sv S) = None" and det: "e \<or> i < length (detectors G)"
  obtains H ds where "gnewVar sv (int i) e True (S, G) = Some (int (length (gvars G)), new_solver sv S,
      H\<lparr>gvars := gvars G @ [\<lparr>gisEdge = e, gisBV = False, gisTheoryVar = False, gisSatisfied = False,
                       detector_edge = int i, solverVar = edge_solver_var sv S, theory_var = var_Undef\<rparr>],
        tstate := (tstate H)\<lparr>ttrail := ttrail (tstate H) @ [Trail_default]\<rparr>,
        gassigns := gassigns H @ [l_Undef], theory_vars := new_theory_vars (edge_solver_var sv S) (new_solver sv S) G,
        detectors := ds\<rparr>)"
    "same_gvars G H" "gt_inv H (if 0 < decisionLevel S then take 1 Ls else Ls) (if 0 < decisionLevel S then [] else Z)"
    "length ds = length (detectors G)" "decisionLevel S = 0 \<longrightarrow> H = G"
proof -
  obtain H where H: "cancelTheory 0 S G = Some H" "same_gvars G H"
    "gt_inv H (if 0 < decisionLevel S then take 1 Ls else Ls) (if 0 < decisionLevel S then [] else Z)"
    by (rule cancelTheory_correct [OF inv nl, of 0 S]) (simp only: add_0)
  define S1 where "S1 = (if sv = var_Undef then newVar True (cancelUntil 0 S) else (sv, cancelUntil 0 S))"
  have sv: "edge_solver_var sv S = fst S1" "new_solver sv S = grow_solver_vars (fst S1) (snd S1)"
    by (simp_all add: edge_solver_var_def new_solver_def S1_def)
  have tv: "theory_vars H = theory_vars G" "gvars H = gvars G" "length (detectors H) = length (detectors G)"
    using H(2) by (simp_all add: same_gvars_def)
  have len: "length (ttrail (tstate H)) = length (gvars G)" using H(3) tv(2) by (simp add: gt_inv_def)
  define ds where "ds = (if e then detectors H else (detectors H)[i := det_addVar (detectors H ! i)])"
  have "vec_grow (length (gvars G) + 1) Trail_default (ttrail (tstate H)) = ttrail (tstate H) @ [Trail_default]"
    using len by (simp add: vec_grow_def)
  then have "gnewVar sv (int i) e True (S, G) = Some (int (length (gvars G)), new_solver sv S,
      H\<lparr>gvars := gvars G @ [\<lparr>gisEdge = e, gisBV = False, gisTheoryVar = False, gisSatisfied = False,
                       detector_edge = int i, solverVar = edge_solver_var sv S, theory_var = var_Undef\<rparr>],
        tstate := (tstate H)\<lparr>ttrail := ttrail (tstate H) @ [Trail_default]\<rparr>,
        gassigns := gassigns H @ [l_Undef], theory_vars := new_theory_vars (edge_solver_var sv S) (new_solver sv S) G,
        detectors := ds\<rparr>)"
    using H(1) new tv det unfolding gnewVar_def S1_def [symmetric]
    by (cases e; simp add: case_prod_unfold S1_def [symmetric] sv setTheoryVar_def new_theory_vars_def ds_def with_detector_def)
      (auto simp: Let_def intro!: GraphTheory.equality)
  moreover have "length ds = length (detectors G)" using tv(3) by (simp add: ds_def)
  moreover have "decisionLevel S = 0 \<longrightarrow> H = G" using H(1) by (auto simp: cancelTheory_def)
  ultimately show ?thesis using that H(2,3) by blast
qed

lemma inv_edge_flags [simp]:
  "synced (G\<lparr>all_edges_unit := a\<rparr>) = synced G" "synced (G\<lparr>all_edges_positive := b\<rparr>) = synced G"
  by (simp_all add: synced_def edge_synced_def var_ok_def default_options_def cong: conj_cong)

lemma newEdge_correct:
  assumes inv: "gt_inv G Ls Z" "aux_ok G" and fr: "\<not> frozen G" "\<not> lazy_backtracking_enabled G"
    and new: "map_of (theory_vars G) (edge_solver_var outerVar S) = None"
  shows "\<exists>G'. newEdge u w outerVar weight (S, G) = Some (mkLit (int (length (gvars G))) False, new_solver outerVar S, G') \<and>
     gt_inv G' (if 0 < decisionLevel S then take 1 Ls else Ls) (if 0 < decisionLevel S then [] else Z) \<and> aux_ok G' \<and>
     (\<exists>e. edge_list G' = edge_list G @ [e] \<and> ge_v e = int (length (gvars G)) \<and> ge_from e = int u \<and> ge_to e = int w) \<and>
     (\<exists>d. gvars G' = gvars G @ [d] \<and> solverVar d = edge_solver_var outerVar S \<and> gisEdge d) \<and>
     theory_vars G' = new_theory_vars (edge_solver_var outerVar S) (new_solver outerVar S) G \<and>
     (decisionLevel S = 0 \<longrightarrow> gassigns G' = gassigns G @ [l_Undef] \<and> tstate G' = (tstate G)\<lparr>ttrail := ttrail (tstate G) @ [Trail_default]\<rparr> \<and>
        grown (g_under G) (g_under G') \<and> grown (g_over G) (g_over G')) \<and> tri (last (gassigns G')) = None \<and>
     opt_lazy_backtrack G' = opt_lazy_backtrack G \<and> \<not> lazy_backtracking_enabled G' \<and> \<not> frozen G' \<and>
     length (detectors G') = length (detectors G)"
proof -
  define i where "i = length (edge_list G)"
  from grow_nodes_correct [OF inv fr(1), of u w] obtain H0 where
    H0: "grow_nodes u w G = Some H0" "gt_inv H0 Ls Z" "aux_ok H0" "nNodes H0 = max (nNodes G) (max u w + 1)"
     "edge_list H0 = edge_list G" "gvars H0 = gvars G" "theory_vars H0 = theory_vars G"
     "lazy_backtracking_enabled H0 = lazy_backtracking_enabled G" "gassigns H0 = gassigns G" "frozen H0 = frozen G"
     "opt_lazy_backtrack H0 = opt_lazy_backtrack G" "length (detectors H0) = length (detectors G)" "tstate H0 = tstate G"
     "modifications (g_under G) \<le> modifications (g_under H0)" "modifications (g_over G) \<le> modifications (g_over H0)" by blast
  define H1 where "H1 = H0\<lparr>all_edges_unit := (all_edges_unit H0 \<and> weight = 1),
               all_edges_positive := (all_edges_positive H0 \<and> weight > 0)\<rparr>"
  have H1: "gt_inv H1 Ls Z" "aux_ok H1" "edge_list H1 = edge_list G" "gvars H1 = gvars G" "theory_vars H1 = theory_vars G"
      "\<not> lazy_backtracking_enabled H1" "nNodes H1 = nNodes H0" "gassigns H1 = gassigns G" "\<not> frozen H1"
      "opt_lazy_backtrack H1 = opt_lazy_backtrack G" "length (detectors H1) = length (detectors G)"
    using H0 fr by (simp_all add: H1_def gt_inv_def aux_ok_def nNodes_def)
  define T where "T = new_theory_vars (edge_solver_var outerVar S) (new_solver outerVar S) H1"
  obtain H ds where H: "gnewVar outerVar (int i) True True (S, H1) = Some (int (length (gvars H1)), new_solver outerVar S,
      H\<lparr>gvars := gvars H1 @ [\<lparr>gisEdge = True, gisBV = False, gisTheoryVar = False, gisSatisfied = False,
                       detector_edge = int i, solverVar = edge_solver_var outerVar S, theory_var = var_Undef\<rparr>],
        tstate := (tstate H)\<lparr>ttrail := ttrail (tstate H) @ [Trail_default]\<rparr>,
        gassigns := gassigns H @ [l_Undef], theory_vars := T, detectors := ds\<rparr>)"
    "same_gvars H1 H" "gt_inv H (if 0 < decisionLevel S then take 1 Ls else Ls) (if 0 < decisionLevel S then [] else Z)"
    "length ds = length (detectors H1)" "decisionLevel S = 0 \<longrightarrow> H = H1"
    by (rule gnewVar_new [OF H1(1,6), of outerVar S True i, folded T_def]) (use new H1(5) in simp_all)
  have Teq: "T = new_theory_vars (edge_solver_var outerVar S) (new_solver outerVar S) G"
    using H1(4,5) by (simp add: T_def new_theory_vars_def)
  have syn: "synced H" using H(3) by (simp add: gt_inv_def)
  have aux: "aux_ok H" "nNodes H = nNodes H0"
    using same_gvars_aux [OF H(2) _ H1(2)] H1(1,7) by (simp_all add: gt_inv_def)
  have hl: "edge_list H = edge_list G" "gvars H = gvars G" using H(2) H1(3,4) by (simp_all add: same_gvars_def)
  have dl: "length ds = length (detectors H)" using H(2,4) by (simp add: same_gvars_def)
  have uw: "u < nNodes H" "w < nNodes H" using aux(2) H0(4) by simp_all
  have ne: "num_edges (g_under H) = i" "num_edges (g_over H) = i" "num_edges (g_under_weights_over H) = i"
    "num_edges (g_over_weights_under H) = i" "num_edges (cutGraph H) = i * 2"
    using syn aux(1) hl(1) by (simp_all add: synced_def aux_ok_def i_def)
  have nn: "num_nodes (g_under H) = nNodes H" "num_nodes (g_over H) = nNodes H" "num_nodes (g_under_weights_over H) = nNodes H"
    "num_nodes (g_over_weights_under H) = nNodes H" "num_nodes (cutGraph H) = nNodes H"
    "wf_graph (g_under_weights_over H)" "wf_graph (g_over_weights_under H)" "wf_graph (cutGraph H)"
    using syn aux(1) by (simp_all add: synced_def aux_ok_def nNodes_def nodes_def)
  obtain u1 u2 where u: "addEdge u w (int i) weight (g_under H) = Some (i, u1)" "disableEdge3 u w i u1 = Some u2"
    "wf_graph u2" "num_nodes u2 = nNodes H" "num_edges u2 = i + 1" "edge_status u2 = edge_status (g_under H) @ [False]"
    "\<forall>j x y. declares u2 j x y \<longleftrightarrow> declares (g_under H) j x y \<or> (j, x, y) = (i, u, w)" "grown (g_under H) u2"
    by (rule fresh_edge [of "g_under H" u w i weight]) (use syncedD(1) [OF syn] uw nn ne in simp_all)
  obtain o1 where o: "addEdge u w (int i) weight (g_over H) = Some (i, o1)"
    "wf_graph o1" "num_nodes o1 = nNodes H" "num_edges o1 = i + 1" "edge_status o1 = edge_status (g_over H) @ [True]"
    "\<forall>j x y. declares o1 j x y \<longleftrightarrow> declares (g_over H) j x y \<or> (j, x, y) = (i, u, w)" "grown (g_over H) o1"
    by (rule fresh_edge [of "g_over H" u w i weight]) (use syncedD(2) [OF syn] uw nn ne in simp_all)
  obtain a1 a2 where a: "addEdge u w (int i) weight (g_under_weights_over H) = Some (i, a1)" "disableEdge3 u w i a1 = Some a2"
    "wf_graph a2" "num_nodes a2 = nNodes H" "num_edges a2 = i + 1"
    by (rule fresh_edge [of "g_under_weights_over H" u w i weight]) (use uw nn ne in simp_all)
  obtain b1 where b: "addEdge u w (int i) weight (g_over_weights_under H) = Some (i, b1)"
    "wf_graph b1" "num_nodes b1 = nNodes H" "num_edges b1 = i + 1"
    by (rule fresh_edge [of "g_over_weights_under H" u w i weight]) (use uw nn ne in simp_all)
  obtain c1 where c: "addEdge u w (int (i * 2)) 1 (cutGraph H) = Some (i * 2, c1)"
    "wf_graph c1" "num_nodes c1 = nNodes H" "num_edges c1 = i * 2 + 1" "declares c1 (i * 2) u w"
    by (rule fresh_edge [of "cutGraph H" u w "i * 2" 1]) (use uw nn ne in simp_all)
  obtain d1 where d: "addEdge u w (int (i * 2 + 1)) 0xFFFF c1 = Some (i * 2 + 1, d1)"
    "wf_graph d1" "num_nodes d1 = nNodes H" "num_edges d1 = i * 2 + 2" "declares d1 (i * 2) u w"
    by (rule fresh_edge [of c1 u w "i * 2 + 1" "0xFFFF"]) (use uw c in simp_all)
  obtain d2 where d2: "disableEdge3 u w (i * 2) d1 = Some d2" "wf_graph d2" "num_nodes d2 = nNodes H" "num_edges d2 = i * 2 + 2"
    by (rule disableEdge3_wf [OF d(2,5)]) (use d in simp_all)
  define G' where "G' = H\<lparr>gvars := gvars G @ [\<lparr>gisEdge = True, gisBV = False, gisTheoryVar = False, gisSatisfied = False,
                       detector_edge = int i, solverVar = edge_solver_var outerVar S, theory_var = var_Undef\<rparr>],
        tstate := (tstate H)\<lparr>ttrail := ttrail (tstate H) @ [Trail_default]\<rparr>,
        gassigns := gassigns H @ [l_Undef], theory_vars := T, detectors := ds,
        edge_list := edge_list G @ [\<lparr>ge_v = int (length (gvars G)), ge_outerVar = outerVar, ge_from = int u, ge_to = int w,
                    ge_edgeID = int i, ge_bvID = -1\<rparr>],
        edge_weights := (vec_grow (i + 1) 0 (edge_weights H))[i := weight],
        g_under := u2, g_over := o1, g_under_weights_over := a2, g_over_weights_under := b1, cutGraph := d2\<rparr>"
  have "newEdge u w outerVar weight (S, G) = Some (mkLit (int (length (gvars G))) False, new_solver outerVar S, G')"
    using fr(1) H0(1,5) H(1) H1(4) u(1,2) o(1) a(1,2) b(1) c(1) d(1) d2(1) hl
    by (simp add: newEdge_def checkFrozen_def H1_def [symmetric] i_def [symmetric]) (simp add: Let_def G'_def)
  moreover have "synced G'"
  proof (rule synced_add_edge [OF syn, where u = u and w = w])
    show "edge_list G' = edge_list H @ [\<lparr>ge_v = int (length (gvars G)), ge_outerVar = outerVar, ge_from = int u, ge_to = int w,
                    ge_edgeID = int i, ge_bvID = -1\<rparr>]" by (simp add: G'_def hl)
    show "gvars G' = gvars H @ [\<lparr>gisEdge = True, gisBV = False, gisTheoryVar = False, gisSatisfied = False,
        detector_edge = int i, solverVar = edge_solver_var outerVar S, theory_var = var_Undef\<rparr>]" by (simp add: G'_def hl)
    show "\<forall>j x y. declares (g_under G') j x y \<longleftrightarrow> declares (g_under H) j x y \<or> (j, x, y) = (length (edge_list H), u, w)"
      "\<forall>j x y. declares (g_over G') j x y \<longleftrightarrow> declares (g_over H) j x y \<or> (j, x, y) = (length (edge_list H), u, w)"
      using u(7) o(6) by (simp_all add: G'_def hl(1) i_def)
    show "default_options G'" using syncedD(4) [OF syn] by (simp add: G'_def default_options_def)
  qed (use u(3-6) o(2-5) nn hl dl in \<open>simp_all add: G'_def i_def GVarData.simps\<close>)
  moreover have "aux_ok G'"
    using a b d2 u(4) by (simp add: aux_ok_def G'_def nNodes_def nodes_def i_def)
  moreover have "gt_inv G' (if 0 < decisionLevel S then take 1 Ls else Ls) (if 0 < decisionLevel S then [] else Z)"
    by (rule gt_inv_add_edge [OF H(3) \<open>synced G'\<close>]) (simp_all add: G'_def hl)
  moreover have "decisionLevel S = 0 \<longrightarrow> gassigns G' = gassigns G @ [l_Undef] \<and>
      tstate G' = (tstate G)\<lparr>ttrail := ttrail (tstate G) @ [Trail_default]\<rparr> \<and>
      grown (g_under G) (g_under G') \<and> grown (g_over G) (g_over G')"
    using H(5) H1(8) u(8) o(7) H0(13-15) by (simp add: G'_def) (auto simp: H1_def grown_def)
  moreover have "opt_lazy_backtrack G' = opt_lazy_backtrack G \<and> \<not> lazy_backtracking_enabled G' \<and> \<not> frozen G' \<and>
     length (detectors G') = length (detectors G)"
    using H(2,4) H1(6,9-11) by (simp add: G'_def same_gvars_def)
  ultimately show ?thesis by (intro exI [of _ G'] conjI) (simp_all add: G'_def hl Teq)
qed


subsection \<open>What the two graphs promise\<close>

text \<open>A total truth assignment of the theory variables that agrees with everything assigned so far, and the graph it describes.\<close>

definition extends :: "GraphTheory \<Rightarrow> (nat \<Rightarrow> bool) \<Rightarrow> bool" where
  "extends G \<tau> \<longleftrightarrow> (\<forall>v < length (gvars G). \<forall>b. tri (gassigns G ! v) = Some b \<longrightarrow> \<tau> v = b)"

definition true_arcs :: "GraphTheory \<Rightarrow> (nat \<Rightarrow> bool) \<Rightarrow> (nat \<times> nat \<times> nat) set" where
  "true_arcs G \<tau> = {(u, i, w). declares (g_over G) i u w \<and> i < length (edge_list G) \<and> \<tau> (nat (ge_v (edge_list G ! i)))}"

lemma graph_bounds:
  assumes syn: "synced G" and ex: "extends G \<tau>"
  shows "arcs (g_under G) \<subseteq> true_arcs G \<tau>" "true_arcs G \<tau> \<subseteq> arcs (g_over G)"
proof -
  have len: "length (edge_status (g_under G)) = length (edge_list G)" "length (edge_status (g_over G)) = length (edge_list G)"
    using syn by (auto simp: synced_def wf_graph_lengths)
  have e: "\<exists>v. ge_v (edge_list G ! i) = int v \<and> declares (g_under G) i = declares (g_over G) i \<and>
      (edge_status (g_under G) ! i \<longrightarrow> \<tau> v) \<and> (\<tau> v \<longrightarrow> edge_status (g_over G) ! i)" if i: "i < length (edge_list G)" for i
  proof -
    from syncedD(7) [OF syn i] obtain v u w where o: "ge_v (edge_list G ! i) = int v" "v < length (gvars G)"
        "declares (g_under G) i u w" "declares (g_over G) i u w"
        "edge_status (g_under G) ! i \<longleftrightarrow> tri (gassigns G ! v) = Some True"
        "edge_status (g_over G) ! i \<longleftrightarrow> tri (gassigns G ! v) \<noteq> Some False"
      by (auto simp: edge_synced_def)
    have "declares (g_under G) i = declares (g_over G) i"
      using o(3,4) by (auto simp: fun_eq_iff dest: declares_unique)
    moreover have "edge_status (g_under G) ! i \<longrightarrow> \<tau> v" "\<tau> v \<longrightarrow> edge_status (g_over G) ! i"
      using o(2,5,6) ex unfolding extends_def by fastforce+
    ultimately show ?thesis using o(1) by blast
  qed
  show "arcs (g_under G) \<subseteq> true_arcs G \<tau>" "true_arcs G \<tau> \<subseteq> arcs (g_over G)"
    using e len by (fastforce simp: arcs_def true_arcs_def)+
qed

end
