(* ===== verification/Cycle_Detector.thy ===== *)
theory Cycle_Detector
  imports DFS_Cycle Graph_Sync
begin

text \<open>
  \<open>CycleDetector\<close> of \<open>graph/CycleDetector.cpp\<close>, the acyclicity predicate of a graph theory, with the parts of
  \<open>GraphTheorySolver\<close> and \<open>Solver\<close> through which it talks to the SAT solver: reason markers, \<open>acyclic\<close>, \<open>enqueue\<close> and the
  propagation loop.

  The interface \<open>Cycle\<close> of \<open>dgl/Cycle.h\<close> is a datatype with one constructor per implementation; the modelled one is the
  depth-first search (\<open>cyclealg\<close> is \<open>ALG_DFS_CYCLE\<close>). The directed and the undirected halves of the detector are copies of
  each other that differ in the literal, the algorithm object and the markers; they are one group of definitions
  with the flag \<open>u\<close> (undirected). Clauses passed to \<open>addClauseSafely\<close> are collected in \<open>handed_clauses\<close>. Lazy backtracking is
  off, as it is by default, and \<open>opt_graph_prop_skip\<close> is 1.
\<close>

subsection \<open>The interface \<open>Cycle\<close>\<close>

datatype Cycle = Cycle_DFS bool bool DFSCycle

fun hasDirectedCycle :: "DynamicGraph \<Rightarrow> Cycle \<Rightarrow> (bool \<times> Cycle) option" where
  "hasDirectedCycle g (Cycle_DFS dir und s) =
     do { (b, s) \<leftarrow> dfs_hasDirectedCycle dir und g s; Some (b, Cycle_DFS dir und s) }"

fun hasUndirectedCycle :: "DynamicGraph \<Rightarrow> Cycle \<Rightarrow> (bool \<times> Cycle) option" where
  "hasUndirectedCycle g (Cycle_DFS dir und s) =
     do { (b, s) \<leftarrow> dfs_hasUndirectedCycle dir und g s; Some (b, Cycle_DFS dir und s) }"

fun getDirectedCycle :: "DynamicGraph \<Rightarrow> Cycle \<Rightarrow> (nat list \<times> Cycle) option" where
  "getDirectedCycle g (Cycle_DFS dir und s) =
     do { (c, s) \<leftarrow> dfs_getDirectedCycle dir und g s; Some (c, Cycle_DFS dir und s) }"

fun getUndirectedCycle :: "DynamicGraph \<Rightarrow> Cycle \<Rightarrow> (nat list \<times> Cycle) option" where
  "getUndirectedCycle g (Cycle_DFS dir und s) =
     do { (c, s) \<leftarrow> dfs_getUndirectedCycle dir und g s; Some (c, Cycle_DFS dir und s) }"

definition hasCycle :: "bool \<Rightarrow> DynamicGraph \<Rightarrow> Cycle \<Rightarrow> (bool \<times> Cycle) option" where
  "hasCycle u = (if u then hasUndirectedCycle else hasDirectedCycle)"

definition getCycle :: "bool \<Rightarrow> DynamicGraph \<Rightarrow> Cycle \<Rightarrow> (nat list \<times> Cycle) option" where
  "getCycle u = (if u then getUndirectedCycle else getDirectedCycle)"

subsection \<open>State\<close>

text \<open>\<open>under_undirected\<close> and \<open>over_undirected\<close> are \<open>None\<close> when the pointer is the one of the directed algorithm.\<close>

record CycleDetector =
  cd_ID :: nat
  directed_cycle_marker :: nat
  no_directed_cycle_marker :: nat
  undirected_cycle_marker :: nat
  no_undirected_cycle_marker :: nat
  underapprox_directed :: Cycle
  overapprox_directed :: Cycle
  underapprox_undirected :: "Cycle option"
  overapprox_undirected :: "Cycle option"
  undirected_acyclic_lit :: Lit
  directed_acyclic_lit :: Lit

record GraphProblem =
  gp_solver :: Solver
  gp_theory :: GraphTheory
  cycle_detector :: "CycleDetector option"
  marker_refs :: nat
  marker_map :: "(nat \<times> nat) list"
  handed_clauses :: "Lit list list"
  litLinkMap :: "(Lit \<times> Lit) list"
  theory_satisfied :: bool
  opt_lazy_conflicts :: int
  opt_keep_lazy_conflicts :: bool

definition CRef_Undef :: nat where
  "CRef_Undef = 2 ^ 32 - 1"

definition GraphProblem_init :: "Solver \<Rightarrow> GraphProblem" where
  "GraphProblem_init S =
     \<lparr>gp_solver = S, gp_theory = GraphTheory_init, cycle_detector = None, marker_refs = CRef_Undef, marker_map = [],
      handed_clauses = [], litLinkMap = [], theory_satisfied = False, opt_lazy_conflicts = 0,
      opt_keep_lazy_conflicts = True\<rparr>"

definition makeMarkerReference :: "GraphProblem \<Rightarrow> nat \<times> GraphProblem" where
  "makeMarkerReference P = (marker_refs P - 1, P\<lparr>marker_refs := marker_refs P - 1\<rparr>)"

definition newReasonMarker :: "nat \<Rightarrow> GraphProblem \<Rightarrow> nat \<times> GraphProblem" where
  "newReasonMarker d P =
     (let (m, P) = makeMarkerReference P
      in (m, P\<lparr>marker_map := (CRef_Undef - m, d) # marker_map P\<rparr>))"

definition CycleDetector_new :: "nat \<Rightarrow> GraphProblem \<Rightarrow> CycleDetector \<times> GraphProblem" where
  "CycleDetector_new i P =
     (let (dm, P) = newReasonMarker i P;
          (ndm, P) = newReasonMarker i P;
          (um, P) = newReasonMarker i P;
          (num, P) = newReasonMarker i P
      in (\<lparr>cd_ID = i, directed_cycle_marker = dm, no_directed_cycle_marker = ndm, undirected_cycle_marker = um,
           no_undirected_cycle_marker = num, underapprox_directed = Cycle_DFS True True DFSCycle_init,
           overapprox_directed = Cycle_DFS True True DFSCycle_init, underapprox_undirected = None,
           overapprox_undirected = None, undirected_acyclic_lit = lit_Undef, directed_acyclic_lit = lit_Undef\<rparr>, P))"

subsection \<open>Declaring the predicate\<close>

definition acyclic_lit :: "bool \<Rightarrow> CycleDetector \<Rightarrow> Lit" where
  "acyclic_lit u D = (if u then undirected_acyclic_lit D else directed_acyclic_lit D)"

definition set_acyclic_lit :: "bool \<Rightarrow> Lit \<Rightarrow> CycleDetector \<Rightarrow> CycleDetector" where
  "set_acyclic_lit u l D = (if u then D\<lparr>undirected_acyclic_lit := l\<rparr> else D\<lparr>directed_acyclic_lit := l\<rparr>)"

definition hasAcyclicLit :: "bool \<Rightarrow> CycleDetector \<Rightarrow> bool" where
  "hasAcyclicLit directed D =
     (if directed then directed_acyclic_lit D \<noteq> lit_Undef else undirected_acyclic_lit D \<noteq> lit_Undef)"

definition hasAcyclic :: "bool \<Rightarrow> GraphProblem \<Rightarrow> bool" where
  "hasAcyclic directed P = (case cycle_detector P of Some D \<Rightarrow> hasAcyclicLit directed D | None \<Rightarrow> False)"

definition makeEqualInSolver :: "Lit \<Rightarrow> Lit \<Rightarrow> bool \<Rightarrow> GraphProblem \<Rightarrow> GraphProblem" where
  "makeEqualInSolver o1 o2 linkSolverLit P =
     (if o1 = o2 then P
      else let P = P\<lparr>handed_clauses := handed_clauses P @ [[neg o1, o2], [o1, neg o2]]\<rparr>
           in if linkSolverLit then P\<lparr>litLinkMap := (o1, o2) # litLinkMap P\<rparr> else P)"

definition makeEqual :: "Lit \<Rightarrow> Lit \<Rightarrow> bool \<Rightarrow> GraphProblem \<Rightarrow> GraphProblem option" where
  "makeEqual l1 l2 linkSolverLit P = do {
     o1 \<leftarrow> toSolver_lit (gp_theory P) l1;
     o2 \<leftarrow> toSolver_lit (gp_theory P) l2;
     Some (makeEqualInSolver o1 o2 linkSolverLit P)
   }"

definition problem_newVar :: "int \<Rightarrow> nat \<Rightarrow> GraphProblem \<Rightarrow> (int \<times> GraphProblem) option" where
  "problem_newVar sv detector P = do {
     (v, S, G) \<leftarrow> gnewVar sv (int detector) False True (gp_solver P, gp_theory P);
     Some (v, P\<lparr>gp_solver := S, gp_theory := G\<rparr>)
   }"

definition addAcyclicLit ::
  "bool \<Rightarrow> int \<Rightarrow> CycleDetector \<times> GraphProblem \<Rightarrow> (Lit \<times> CycleDetector \<times> GraphProblem) option" where
  "addAcyclicLit directed outer_reach_var DP = do {
     let (D, P) = DP;
     let G = gp_theory P;
     let P = P\<lparr>gp_theory := G\<lparr>g_under := invalidate (g_under G), g_over := invalidate (g_over G)\<rparr>\<rparr>;
     let u = (\<not> directed);
     if acyclic_lit u D = lit_Undef then do {
       (v, P) \<leftarrow> problem_newVar outer_reach_var (cd_ID D) P;
       let l = mkLit v False;
       Some (l, set_acyclic_lit u l D, P)
     } else if outer_reach_var = var_Undef then Some (acyclic_lit u D, D, P)
     else do {
       (v, P) \<leftarrow> problem_newVar outer_reach_var (cd_ID D) P;
       let l = mkLit v False;
       P \<leftarrow> makeEqual l (acyclic_lit u D) True P;
       Some (l, D, P)
     }
   }"

definition addDetector :: "CycleDetector \<Rightarrow> GraphProblem \<Rightarrow> GraphProblem" where
  "addDetector D P =
     (let G = gp_theory P
      in P\<lparr>gp_theory := G\<lparr>detectors := detectors G @ [\<lparr>detectorID = cd_ID D, unassigned_positives = 0,
              unassigned_negatives = 0\<rparr>], satisfied_detectors := satisfied_detectors G @ [False]\<rparr>\<rparr>)"

definition acyclic_gt :: "int \<Rightarrow> bool \<Rightarrow> GraphProblem \<Rightarrow> (Lit \<times> GraphProblem) option" where
  "acyclic_gt v directed P = do {
     let (D, P) = (case cycle_detector P of
                     Some D \<Rightarrow> (D, P)
                   | None \<Rightarrow> let (D, P) = CycleDetector_new (length (detectors (gp_theory P))) P in (D, addDetector D P));
     (l, D, P) \<leftarrow> addAcyclicLit directed v (D, P);
     sl \<leftarrow> toSolver_lit (gp_theory P) l;
     Some (sl, P\<lparr>cycle_detector := Some D\<rparr>)
   }"

subsection \<open>Reasons\<close>

fun disabled_edges :: "GraphTheory \<Rightarrow> nat list \<Rightarrow> Lit list option" where
  "disabled_edges G [] = Some []"
| "disabled_edges G (e # es) =
     (if hasEdge (g_over G) e then do {
        en \<leftarrow> edgeEnabled (g_over G) e;
        if en then disabled_edges G es
        else do {
          v \<leftarrow> getEdgeVar G e;
          val \<leftarrow> gvalue_var G v;
          rest \<leftarrow> disabled_edges G es;
          Some (if lbool_eq val l_False then mkLit v False # rest else rest)
        }
      } else disabled_edges G es)"

definition buildNoCycleReason :: "GraphTheory \<Rightarrow> Lit list \<Rightarrow> Lit list option" where
  "buildNoCycleReason G conflict = do {
     ls \<leftarrow> disabled_edges G [0..<edges (g_over G)];
     Some (conflict @ ls)
   }"

fun cycle_lits :: "GraphTheory \<Rightarrow> nat list \<Rightarrow> Lit list option" where
  "cycle_lits G [] = Some []"
| "cycle_lits G (e # es) = do {
     v \<leftarrow> getEdgeVar G e;
     rest \<leftarrow> cycle_lits G es;
     Some (neg (mkLit v False) # rest)
   }"

definition under_cycle :: "bool \<Rightarrow> CycleDetector \<Rightarrow> Cycle" where
  "under_cycle u D =
     (if u then case underapprox_undirected D of None \<Rightarrow> underapprox_directed D | Some c \<Rightarrow> c
      else underapprox_directed D)"

definition over_cycle :: "bool \<Rightarrow> CycleDetector \<Rightarrow> Cycle" where
  "over_cycle u D =
     (if u then case overapprox_undirected D of None \<Rightarrow> overapprox_directed D | Some c \<Rightarrow> c
      else overapprox_directed D)"

definition set_under_cycle :: "bool \<Rightarrow> Cycle \<Rightarrow> CycleDetector \<Rightarrow> CycleDetector" where
  "set_under_cycle u c D =
     (if u \<and> underapprox_undirected D \<noteq> None then D\<lparr>underapprox_undirected := Some c\<rparr>
      else D\<lparr>underapprox_directed := c\<rparr>)"

definition set_over_cycle :: "bool \<Rightarrow> Cycle \<Rightarrow> CycleDetector \<Rightarrow> CycleDetector" where
  "set_over_cycle u c D =
     (if u \<and> overapprox_undirected D \<noteq> None then D\<lparr>overapprox_undirected := Some c\<rparr>
      else D\<lparr>overapprox_directed := c\<rparr>)"

definition buildCycleReason ::
  "bool \<Rightarrow> GraphTheory \<Rightarrow> CycleDetector \<Rightarrow> Lit list \<Rightarrow> (Lit list \<times> CycleDetector) option" where
  "buildCycleReason u G D conflict = do {
     (c, a) \<leftarrow> getCycle u (g_under G) (under_cycle u D);
     ls \<leftarrow> cycle_lits G c;
     Some (conflict @ ls, set_under_cycle u a D)
   }"

definition buildReason ::
  "Lit \<Rightarrow> nat \<Rightarrow> GraphTheory \<Rightarrow> CycleDetector \<Rightarrow> (Lit list \<times> CycleDetector) option" where
  "buildReason p marker G D = do {
     (reason, D) \<leftarrow>
       (if marker = directed_cycle_marker D then buildCycleReason False G D [p]
        else if marker = no_directed_cycle_marker D then map_option (\<lambda>c. (c, D)) (buildNoCycleReason G [p])
        else if marker = undirected_cycle_marker D then buildCycleReason True G D [p]
        else if marker = no_undirected_cycle_marker D then map_option (\<lambda>c. (c, D)) (buildNoCycleReason G [p])
        else Some ([], D));
     reason \<leftarrow> toSolver G reason;
     Some (reason, D)
   }"

partial_function (option) backtrack_to :: "int \<Rightarrow> int \<Rightarrow> GraphTheory \<Rightarrow> GraphTheory option" where
  [code]: "backtrack_to p v G =
     (if v = p then Some G
      else do {
        G \<leftarrow> unassign_var v G;
        w \<leftarrow> getPrev (tstate G) v;
        (e, T) \<leftarrow> removeFromTrail v (tstate G);
        if e then Some (G\<lparr>tstate := T\<rparr>) else backtrack_to p w (G\<lparr>tstate := T\<rparr>)
      })"

definition backtrackUntil_lit :: "Solver \<Rightarrow> Lit \<Rightarrow> GraphTheory \<Rightarrow> GraphTheory option" where
  "backtrackUntil_lit S p G = do {
     G \<leftarrow> undoRewind G;
     sv \<leftarrow> toSolver_var G (var p);
     G \<leftarrow> unsatisfy (int (level S sv)) (rev (satisfied_lits G)) G;
     lz \<leftarrow> onLazyTrail (tstate G) (var p);
     (v, G) \<leftarrow> (if \<not> lz then do {
                G \<leftarrow> backtrackUntil (level S sv) G;
                v \<leftarrow> getBack (tstate G) (nat (gdecisionLevel G));
                Some (v, G)
              } else do {
                v \<leftarrow> getPrev (tstate G) (lazy_trail_head (tstate G));
                Some (v, G)
              });
     G \<leftarrow> backtrack_to (var p) v G;
     Some (G\<lparr>requiresPropagation := True, s_needsPropagation := True\<rparr>)
   }"

definition theory_buildReason :: "Lit \<Rightarrow> nat \<Rightarrow> GraphProblem \<Rightarrow> (Lit list \<times> GraphProblem) option" where
  "theory_buildReason p marker P = do {
     let P = P\<lparr>gp_theory := freezeGraph (gp_theory P)\<rparr>;
     d \<leftarrow> map_of (marker_map P) (CRef_Undef - marker);
     G \<leftarrow> backtrackUntil_lit (gp_solver P) p (gp_theory P);
     D \<leftarrow> cycle_detector P;
     (reason, D) \<leftarrow> (if d = cd_ID D then buildReason p marker G D else None);
     Some (reason, P\<lparr>gp_theory := G, cycle_detector := Some D\<rparr>)
   }"

subsection \<open>Propagation\<close>

definition notifyTheory :: "Solver \<Rightarrow> Lit \<Rightarrow> GraphTheory \<Rightarrow> GraphTheory option" where
  "notifyTheory S p G =
     (case map_of (theory_vars G) (var p) of
        Some v \<Rightarrow> enqueueTheory S (mkLit v (sign p)) (G\<lparr>s_needsPropagation := True\<rparr>)
      | None \<Rightarrow> Some G)"

definition solver_enqueue :: "Lit \<Rightarrow> nat \<Rightarrow> GraphProblem \<Rightarrow> (bool \<times> GraphProblem) option" where
  "solver_enqueue p reason P =
     (let S = gp_solver P
      in if \<not> in_range S p then None
         else if \<not> lbool_eq (lit_value S p) l_Undef then Some (\<not> lbool_eq (lit_value S p) l_False, P)
         else do {
           let S = uncheckedEnqueue p (Some reason) S;
           G \<leftarrow> (if theory_satisfied P then Some (gp_theory P) else notifyTheory S p (gp_theory P));
           Some (True, P\<lparr>gp_solver := S, gp_theory := G\<rparr>)
         })"

definition theory_enqueue :: "Lit \<Rightarrow> nat \<Rightarrow> GraphProblem \<Rightarrow> (bool \<times> GraphProblem) option" where
  "theory_enqueue l reason P = do {
     sl \<leftarrow> toSolver_lit (gp_theory P) l;
     (b, P) \<leftarrow> solver_enqueue sl reason P;
     if b then do {
       G \<leftarrow> enqueueTheory (gp_solver P) l (gp_theory P);
       Some (True, P\<lparr>gp_theory := G\<rparr>)
     } else Some (False, P)
   }"

text \<open>One half of \<open>propagate\<close>. A result \<open>Some c\<close> is a conflict clause in the variables of the solver, with which
  \<open>propagate\<close> returns false.\<close>

definition propagate_half ::
  "bool \<Rightarrow> CycleDetector \<times> GraphProblem \<Rightarrow> (Lit list option \<times> CycleDetector \<times> GraphProblem) option" where
  "propagate_half u DP = do {
     let (D, P) = DP;
     let a = acyclic_lit u D;
     if a = lit_Undef then Some (None, D, P)
     else do {
       val \<leftarrow> gvalue (gp_theory P) a;
       (under, D) \<leftarrow> (if \<not> lbool_eq val l_False then do {
                        (b, c) \<leftarrow> hasCycle u (g_under (gp_theory P)) (under_cycle u D);
                        Some (b, set_under_cycle u c D)
                      } else Some (False, D));
       if under then do {
         let l = neg a;
         lv \<leftarrow> gvalue (gp_theory P) l;
         if lbool_eq lv l_True then Some (None, D, P)
         else if lbool_eq lv l_Undef then do {
           (_, P) \<leftarrow> theory_enqueue l (if u then no_undirected_cycle_marker D else no_directed_cycle_marker D) P;
           Some (None, D, P)
         } else do {
           (c, D) \<leftarrow> buildCycleReason u (gp_theory P) D [l];
           c \<leftarrow> toSolver (gp_theory P) c;
           Some (Some c, D, P)
         }
       } else do {
         (nocycle, D) \<leftarrow> (if \<not> lbool_eq val l_True then do {
                           (b, c) \<leftarrow> hasCycle u (g_over (gp_theory P)) (over_cycle u D);
                           Some (\<not> b, set_over_cycle u c D)
                         } else Some (False, D));
         if nocycle then do {
           lv \<leftarrow> gvalue (gp_theory P) a;
           if lbool_eq lv l_True then Some (None, D, P)
           else if lbool_eq lv l_Undef then do {
             (_, P) \<leftarrow> theory_enqueue a (if u then undirected_cycle_marker D else directed_cycle_marker D) P;
             Some (None, D, P)
           } else do {
             c \<leftarrow> buildNoCycleReason (gp_theory P) [a];
             c \<leftarrow> toSolver (gp_theory P) c;
             Some (Some c, D, P)
           }
         } else Some (None, D, P)
       }
     }
   }"

definition propagate_cd :: "CycleDetector \<times> GraphProblem \<Rightarrow> (Lit list option \<times> CycleDetector \<times> GraphProblem) option" where
  "propagate_cd DP = do {
     (c, DP) \<leftarrow> propagate_half False DP;
     if c \<noteq> None then Some (c, DP) else propagate_half True DP
   }"

definition checkSatisfied_half :: "bool \<Rightarrow> GraphTheory \<Rightarrow> CycleDetector \<Rightarrow> bool option" where
  "checkSatisfied_half u G D =
     (if acyclic_lit u D = lit_Undef then Some True
      else do {
        val \<leftarrow> gvalue G (acyclic_lit u D);
        if lbool_eq val l_Undef then Some True
        else do {
          (b, _) \<leftarrow> hasCycle u (g_under G) (Cycle_DFS (\<not> u) u DFSCycle_init);
          Some (if lbool_eq val l_True then \<not> b else b)
        }
      })"

definition checkSatisfied :: "GraphTheory \<Rightarrow> CycleDetector \<Rightarrow> bool option" where
  "checkSatisfied G D = do {
     d \<leftarrow> checkSatisfied_half False G D;
     if d then checkSatisfied_half True G D else Some False
   }"

definition decide_cd :: "CycleDetector \<Rightarrow> Lit" where
  "decide_cd D = lit_Undef"

definition theoryIsSatisfied :: "GraphTheory \<Rightarrow> bool" where
  "theoryIsSatisfied G \<longleftrightarrow> n_satisfied_detectors G = int (length (detectors G))"

definition clear_changes :: "DynamicGraph \<Rightarrow> DynamicGraph" where
  "clear_changes g = clearHistory (\<lambda>_ g. g) False (clearChanged g)"

definition clear_graphs :: "GraphTheory \<Rightarrow> GraphTheory" where
  "clear_graphs G = G\<lparr>requiresPropagation := False, g_under := clear_changes (g_under G),
     g_over := clear_changes (g_over G), cutGraph := clear_changes (cutGraph G),
     g_under_weights_over := clear_changes (g_under_weights_over G),
     g_over_weights_under := clear_changes (g_over_weights_under G)\<rparr>"

definition enable_lazy :: "GraphTheory \<Rightarrow> GraphTheory" where
  "enable_lazy G =
     (if opt_lazy_backtrack G \<and> \<not> lazy_backtracking_enabled G \<and> gdecisionLevel G = 0
      then G\<lparr>lazy_backtracking_enabled :=
             (\<forall>d \<in> set (detectors G). \<not> (unassigned_negatives d > 0 \<and> unassigned_positives d > 0))\<rparr>
      else G)"

text \<open>A conflict while literals wait on the lazy trail (only with \<open>opt_lazy_backtrack\<close>, off by default): the literals whose value
  in the theory is not the one in the solver are unassigned, all of the lazy trail (option 0), all of the clause (1) or
  the first of the clause (2). The clause is already in the variables of the solver here; the source translates it once more.
  The detectors ignore \<open>suggestDecision\<close>, so \<open>opt_lazy_backtrack_redecide\<close> has no effect.\<close>

definition out_of_step :: "Solver \<Rightarrow> GraphTheory \<Rightarrow> Lit \<Rightarrow> bool option" where
  "out_of_step S G l = do {
     sl \<leftarrow> toSolver_lit G l;
     b \<leftarrow> gvalue G l;
     if in_range S sl then Some (\<not> lbool_eq (lit_value S sl) b) else None
   }"

definition unassign_lazy :: "Lit \<Rightarrow> GraphTheory \<Rightarrow> GraphTheory option" where
  "unassign_lazy l G = do {
     (_, T) \<leftarrow> removeFromTrail (var l) (tstate G);
     backtrackAssign (neg l) (G\<lparr>tstate := T\<rparr>)
   }"

fun any_out_of_step :: "Solver \<Rightarrow> GraphTheory \<Rightarrow> Lit list \<Rightarrow> bool option" where
  "any_out_of_step S G [] = Some False"
| "any_out_of_step S G (l # ls) = do { b \<leftarrow> out_of_step S G l; if b then Some True else any_out_of_step S G ls }"

fun unassign_out_of_step :: "bool \<Rightarrow> Solver \<Rightarrow> Lit list \<Rightarrow> bool \<times> GraphTheory \<Rightarrow> (bool \<times> GraphTheory) option" where
  "unassign_out_of_step one S [] sG = Some sG"
| "unassign_out_of_step one S (l # ls) sG = do {
     let (any_seen, G) = sG;
     b \<leftarrow> out_of_step S G l;
     if b then do {
       G \<leftarrow> unassign_lazy l G;
       if one then Some (True, G) else unassign_out_of_step one S ls (True, G)
     } else unassign_out_of_step one S ls (any_seen, G)
   }"

definition lazy_conflict :: "Lit list \<Rightarrow> GraphProblem \<Rightarrow> (bool \<times> GraphProblem) option" where
  "lazy_conflict c P = do {
     let (S, G) = (gp_solver P, gp_theory P);
     (any_seen, G) \<leftarrow>
       (if opt_lazy_conflicts P = 0 then do {
          b \<leftarrow> any_out_of_step S G c;
          if b then do { G \<leftarrow> backtrackUntil (nat (gdecisionLevel G)) G; Some (True, G) } else Some (False, G)
        }
        else if opt_lazy_conflicts P = 1 then unassign_out_of_step False S c (False, G)
        else if opt_lazy_conflicts P = 2 then unassign_out_of_step True S c (False, G)
        else Some (False, G));
     let P = P\<lparr>gp_theory := G\<rparr>;
     Some (any_seen, if any_seen \<and> opt_keep_lazy_conflicts P then P\<lparr>handed_clauses := handed_clauses P @ [c]\<rparr> else P)
   }"

text \<open>The loop over the detectors, with the one detector of this development.\<close>

partial_function (option) detector_loop :: "GraphProblem \<Rightarrow> (Lit list option \<times> GraphProblem) option" where
  [code]: "detector_loop P =
     (case cycle_detector P of
        None \<Rightarrow> Some (None, P)
      | Some D \<Rightarrow>
          if length (satisfied_detectors (gp_theory P)) \<le> cd_ID D then None
          else if satisfied_detectors (gp_theory P) ! cd_ID D then Some (None, P)
          else do {
            (r, D, P) \<leftarrow> propagate_cd (D, P);
            let P = P\<lparr>cycle_detector := Some D\<rparr>;
            case r of
              None \<Rightarrow> Some (None, P)
            | Some c \<Rightarrow>
                let P = P\<lparr>gp_theory := freezeGraph (gp_theory P)\<rparr>
                in if c \<noteq> [] \<and> lazy_backtracking_enabled (gp_theory P) \<and> lazy_trail_head (tstate (gp_theory P)) \<noteq> var_Undef
                   then do {
                     (any_seen, P) \<leftarrow> lazy_conflict c P;
                     if any_seen then detector_loop P else Some (Some c, P)
                   }
                   else Some (Some c, P)
          })"

text \<open>The option \<open>opt_graph_prop_skip\<close> is 1, its default, so no round is skipped.\<close>

definition propagateTheory :: "bool \<Rightarrow> GraphProblem \<Rightarrow> (Lit list option \<times> GraphProblem) option" where
  "propagateTheory force_propagation P =
     (if theoryIsSatisfied (gp_theory P) then Some (None, P\<lparr>theory_satisfied := True\<rparr>)
      else if \<not> force_propagation \<and> \<not> requiresPropagation (gp_theory P) then Some (None, P)
      else do {
        (c, P) \<leftarrow> detector_loop (P\<lparr>gp_theory := enable_lazy (gp_theory P)\<rparr>);
        if c \<noteq> None then Some (c, P)
        else do {
          let P = P\<lparr>gp_theory := clear_graphs (gp_theory P)\<rparr>;
          Some (None, if theoryIsSatisfied (gp_theory P) then P\<lparr>theory_satisfied := True\<rparr> else P)
        }
      })"

subsection \<open>What the detector relies on\<close>

text \<open>The contract of a cycle detection algorithm. \<open>ready g s\<close>: the object \<open>s\<close> may be asked about the graph \<open>g\<close>.
  \<open>cyc E c\<close>: the edges \<open>c\<close> form a cycle in the arcs \<open>E\<close>.\<close>

locale cycle_algorithm =
  fixes ready :: "DynamicGraph \<Rightarrow> 's \<Rightarrow> bool"
    and has :: "DynamicGraph \<Rightarrow> 's \<Rightarrow> (bool \<times> 's) option"
    and get :: "DynamicGraph \<Rightarrow> 's \<Rightarrow> (nat list \<times> 's) option"
    and cyc :: "arc set \<Rightarrow> nat list \<Rightarrow> bool"
  assumes has_correct: "wf_graph g \<Longrightarrow> ready g s \<Longrightarrow> \<exists>s'. has g s = Some (\<exists>c. cyc (arcs g) c, s') \<and> ready g s'"
    and get_correct: "wf_graph g \<Longrightarrow> ready g s \<Longrightarrow> cyc (arcs g) c \<Longrightarrow>
          \<exists>c' s'. get g s = Some (c', s') \<and> cyc (arcs g) c' \<and> ready g s'"
    and cyc_local: "cyc E c \<Longrightarrow> (\<And>u i w. (u, i, w) \<in> E \<Longrightarrow> i \<in> set c \<Longrightarrow> (u, i, w) \<in> F) \<Longrightarrow> cyc F c"
    and cyc_edges: "cyc E c \<Longrightarrow> i \<in> set c \<Longrightarrow> \<exists>u w. (u, i, w) \<in> E"
begin

lemma cyc_mono: "E \<subseteq> F \<Longrightarrow> cyc E c \<Longrightarrow> cyc F c"
  using cyc_local by blast

text \<open>The edges of a cycle of \<open>g_under\<close> are a cycle of every graph in which they are present.\<close>

lemma cycle_persists:
  assumes syn: "synced G" and c: "cyc (arcs (g_under G)) c"
    and \<tau>: "\<And>i. i \<in> set c \<Longrightarrow> \<tau> (nat (ge_v (edge_list G ! i)))"
  shows "cyc (true_arcs G \<tau>) c"
  using c
proof (rule cyc_local)
  fix u i w assume a: "(u, i, w) \<in> arcs (g_under G)" "i \<in> set c"
  then have "i < length (edge_list G)" "declares (g_under G) i u w"
    using syncedD(5) [OF syn] wf_graph_declares(3) [OF syncedD(1) [OF syn], of i u w] by (auto simp: arcs_def)
  moreover from this have "declares (g_over G) i u w"
    using syncedD(7) [OF syn, of i] by (auto simp: edge_synced_def dest: declares_unique)
  ultimately show "(u, i, w) \<in> true_arcs G \<tau>" using \<tau> [OF a(2)] by (simp add: true_arcs_def)
qed

text \<open>A cycle of a total graph is a cycle of \<open>g_over\<close> unless it uses an edge that is assigned false.\<close>

lemma cycle_needs_disabled:
  assumes syn: "synced G" and none: "\<not> (\<exists>c. cyc (arcs (g_over G)) c)" and c: "cyc (true_arcs G \<tau>) c"
  shows "\<exists>i < length (edge_list G). \<not> edge_status (g_over G) ! i \<and> \<tau> (nat (ge_v (edge_list G ! i)))"
proof (rule ccontr)
  assume *: "\<not> ?thesis"
  have "true_arcs G \<tau> \<subseteq> arcs (g_over G)"
    using * syncedD(2,6) [OF syn] wf_graph_lengths(5) [of "g_over G"] by (auto simp: true_arcs_def arcs_def)
  then show False using cyc_mono c none by blast
qed

end

subsection \<open>The modelled algorithms meet the contract\<close>

fun supports :: "bool \<Rightarrow> Cycle \<Rightarrow> bool" where
  "supports u (Cycle_DFS dir und s) \<longleftrightarrow> (if u then und else dir)"

fun cycle_ready :: "DynamicGraph \<Rightarrow> Cycle \<Rightarrow> bool" where
  "cycle_ready g (Cycle_DFS dir und s) \<longleftrightarrow>
     dfs_ready dir und g s \<and> (0 < d_last_modification s \<longrightarrow> d_last_modification s \<le> getCurrentHistory g)"

lemma dfs_update_last: "dfs_update dir und g s = Some s' \<Longrightarrow> d_last_modification s' = getCurrentHistory g"
  by (auto simp: dfs_update_def Let_def split: if_splits bind_splits)

lemma walk_local:
  assumes "walk E u p v" "\<And>u i w. (u, i, w) \<in> E \<Longrightarrow> i \<in> set p \<Longrightarrow> (u, i, w) \<in> F"
  shows "walk F u p v"
  using assms
proof (induction p arbitrary: u)
  case (Cons j p)
  from Cons.prems(1) obtain w where w: "(u, j, w) \<in> E" "walk E w p v" by auto
  have "(u, j, w) \<in> F" using Cons.prems(2) w(1) by simp
  moreover have "walk F w p v" using Cons.prems(2) by (intro Cons.IH [OF w(2)]) simp
  ultimately show ?case by auto
qed simp

lemma is_cycle_local:
  assumes "is_cycle u E c" "\<And>x i y. (x, i, y) \<in> E \<Longrightarrow> i \<in> set c \<Longrightarrow> (x, i, y) \<in> F"
  shows "is_cycle u F c"
proof -
  have "dicycle F' c" if "dicycle E' c" "\<And>x i y. (x, i, y) \<in> E' \<Longrightarrow> i \<in> set c \<Longrightarrow> (x, i, y) \<in> F'" for E' F'
    using that walk_local [of E' _ c _ F'] unfolding dicycle_def by blast
  moreover have "(x, i, y) \<in> undir F" if "(x, i, y) \<in> undir E" "i \<in> set c" for x i y
    using that assms(2) by (auto simp: undir_def)
  ultimately show ?thesis using assms by (auto simp: is_cycle_def ucycle_def split: if_splits)
qed

lemma is_cycle_edges: "is_cycle u E c \<Longrightarrow> i \<in> set c \<Longrightarrow> \<exists>x y. (x, i, y) \<in> E"
  using dicycle_edges [of "undir E" c i] dicycle_edges [of E c i]
  by (auto simp: is_cycle_def ucycle_def undir_def split: if_splits)

lemma hasCycle_DFS:
  assumes "wf_graph g" "dfs_ready dir und g s" "supports u (Cycle_DFS dir und s)"
  obtains s' where "hasCycle u g (Cycle_DFS dir und s) = Some (\<exists>c. is_cycle u (arcs g) c, Cycle_DFS dir und s')"
    "getCycle u g (Cycle_DFS dir und s) = Some (if u then undirected_cycle s' else directed_cycle s', Cycle_DFS dir und s')"
    "cycle_ready g (Cycle_DFS dir und s')" "(\<exists>c. is_cycle u (arcs g) c) \<longrightarrow> is_cycle u (arcs g) (if u then undirected_cycle s' else directed_cycle s')"
proof -
  from dfs_update_correct [OF assms(1,2)] obtain s' where
    s': "dfs_update dir und g s = Some s'" "dfs_valid dir und g s'" "dfs_ready dir und g s'" by blast
  have v: "if (if u then has_undirected_cycle s' else has_directed_cycle s')
     then is_cycle u (arcs g) (if u then undirected_cycle s' else directed_cycle s') else \<forall>c. \<not> is_cycle u (arcs g) c"
    using s'(2) assms(3) by (cases u) (auto simp: dfs_valid_def is_cycle_def)
  then have "(if u then has_undirected_cycle s' else has_directed_cycle s') = (\<exists>c. is_cycle u (arcs g) c)"
    by (auto split: if_splits)
  then have "hasCycle u g (Cycle_DFS dir und s) = Some (\<exists>c. is_cycle u (arcs g) c, Cycle_DFS dir und s')"
    using s'(1) by (cases u) (simp_all add: hasCycle_def dfs_hasDirectedCycle_def dfs_hasUndirectedCycle_def)
  moreover have "getCycle u g (Cycle_DFS dir und s) =
      Some (if u then undirected_cycle s' else directed_cycle s', Cycle_DFS dir und s')"
    using s'(1) by (cases u) (simp_all add: getCycle_def dfs_getDirectedCycle_def dfs_getUndirectedCycle_def)
  ultimately show ?thesis
  proof (rule that)
    show "cycle_ready g (Cycle_DFS dir und s')" using s'(3) dfs_update_last [OF s'(1)] by simp
    show "(\<exists>c. is_cycle u (arcs g) c) \<longrightarrow> is_cycle u (arcs g) (if u then undirected_cycle s' else directed_cycle s')"
      using v by (auto split: if_splits)
  qed
qed

interpretation cyc: cycle_algorithm "\<lambda>g c. supports u c \<and> cycle_ready g c" "hasCycle u" "getCycle u" "is_cycle u" for u
proof
  fix g :: DynamicGraph and s :: Cycle
  assume *: "wf_graph g" "supports u s \<and> cycle_ready g s"
  obtain dir und d where s: "s = Cycle_DFS dir und d" by (cases s)
  have r: "dfs_ready dir und g d" "supports u (Cycle_DFS dir und d)" using *(2) by (simp_all add: s)
  obtain d' where d': "hasCycle u g s = Some (\<exists>c. is_cycle u (arcs g) c, Cycle_DFS dir und d')"
    "getCycle u g s = Some (if u then undirected_cycle d' else directed_cycle d', Cycle_DFS dir und d')"
    "cycle_ready g (Cycle_DFS dir und d')" "(\<exists>c. is_cycle u (arcs g) c) \<longrightarrow> is_cycle u (arcs g) (if u then undirected_cycle d' else directed_cycle d')"
    unfolding s by (rule hasCycle_DFS [OF *(1) r])
  have "supports u (Cycle_DFS dir und d') \<and> cycle_ready g (Cycle_DFS dir und d')" using r(2) d'(3) by simp
  then show "\<exists>s'. hasCycle u g s = Some (\<exists>c. is_cycle u (arcs g) c, s') \<and> supports u s' \<and> cycle_ready g s'"
    "\<And>c. is_cycle u (arcs g) c \<Longrightarrow>
      \<exists>c' s'. getCycle u g s = Some (c', s') \<and> is_cycle u (arcs g) c' \<and> supports u s' \<and> cycle_ready g s'"
    using d' by blast+
qed (blast intro: is_cycle_local is_cycle_edges)+


lemma cycle_supports:
  "hasCycle u g c = Some (b, c') \<Longrightarrow> supports v c' = supports v c"
  "getCycle u g c = Some (es, c') \<Longrightarrow> supports v c' = supports v c"
  by (cases c; cases u; auto simp: hasCycle_def getCycle_def split: bind_splits)+

text \<open>An answer that was computed before a change of the graph is not used after it.\<close>

lemma cycle_ready_status:
  assumes "cycle_ready g c" "wf_graph g" "status_step g g'"
  shows "cycle_ready g' c"
proof -
  obtain dir und s where c: "c = Cycle_DFS dir und s" by (cases c)
  have op: "status_op\<^sup>*\<^sup>* g g'" "changed g' = changed g" using assms(3) by (simp_all add: status_step_def changed_def)
  have go: "graph_op\<^sup>*\<^sup>* g g'" using op(1) by (induction rule: rtranclp_induct) (auto intro: graph_op.status rtranclp.rtrancl_into_rtrancl)
  have "getCurrentHistory g \<le> getCurrentHistory g'" "nodes g' = nodes g"
    using status_ops_topology [OF op(1) assms(2)] graph_op_rtranclp_effect [OF go assms(2)]
    by (simp_all add: same_topology_def nodes_def getCurrentHistory_def)
  moreover have "getCurrentHistory g' = getCurrentHistory g \<Longrightarrow> arcs g' = arcs g"
    using graph_op_rtranclp_effect [OF go assms(2)] arcs_quiet [of g g'] by (simp add: getCurrentHistory_def)
  ultimately show ?thesis
    using assms(1) op(2) by (auto simp: c dfs_ready_def dfs_valid_def dfs_sizes_def)
qed

lemma cycle_ready_grow:
  assumes "cycle_ready g c" "getCurrentHistory g < getCurrentHistory g'" "changed g'"
  shows "cycle_ready g' c"
  using assms by (cases c) (auto simp: dfs_ready_def)

end
