(* ===== verification/Cycle_Propagation.thy ===== *)
theory Cycle_Propagation
  imports Cycle_Detector
begin

text \<open>
  The correctness of the acyclicity predicate: conflict clauses are lemmas of the theory and false under the current
  assignment, propagated literals are implied, and an assignment of all edges without a conflict satisfies the
  predicate. The theorems hold for every problem built by the operations of the theory and driven by the solver.
\<close>

subsection \<open>Reasons and conflicts are lemmas of the theory\<close>

definition tlit :: "(nat \<Rightarrow> bool) \<Rightarrow> Lit \<Rightarrow> bool" where
  "tlit \<tau> l \<longleftrightarrow> \<tau> (nat (var l)) \<noteq> sign l"

text \<open>The meaning of the predicate: a total assignment is admissible if each acyclicity literal says whether the graph of
  the true edges is acyclic.\<close>

definition admissible :: "GraphTheory \<Rightarrow> CycleDetector \<Rightarrow> (nat \<Rightarrow> bool) \<Rightarrow> bool" where
  "admissible G D \<tau> \<longleftrightarrow> (\<forall>u. acyclic_lit u D \<noteq> lit_Undef \<longrightarrow>
     (tlit \<tau> (acyclic_lit u D) \<longleftrightarrow> \<not> (\<exists>c. is_cycle u (true_arcs G \<tau>) c)))"

definition det_ready :: "GraphTheory \<Rightarrow> CycleDetector \<Rightarrow> bool" where
  "det_ready G D \<longleftrightarrow> (\<forall>u. supports u (under_cycle u D) \<and> cycle_ready (g_under G) (under_cycle u D) \<and>
     supports u (over_cycle u D) \<and> cycle_ready (g_over G) (over_cycle u D))"

lemma acyclic_lit_set [simp]: "acyclic_lit v (set_under_cycle u c D) = acyclic_lit v D"
  "acyclic_lit v (set_over_cycle u c D) = acyclic_lit v D"
  by (simp_all add: acyclic_lit_def set_under_cycle_def set_over_cycle_def)

lemma markers_set [simp]: "cd_ID (set_under_cycle u c D) = cd_ID D" "cd_ID (set_over_cycle u c D) = cd_ID D"
  "directed_cycle_marker (set_under_cycle u c D) = directed_cycle_marker D"
  "directed_cycle_marker (set_over_cycle u c D) = directed_cycle_marker D"
  "no_directed_cycle_marker (set_under_cycle u c D) = no_directed_cycle_marker D"
  "no_directed_cycle_marker (set_over_cycle u c D) = no_directed_cycle_marker D"
  "undirected_cycle_marker (set_under_cycle u c D) = undirected_cycle_marker D"
  "undirected_cycle_marker (set_over_cycle u c D) = undirected_cycle_marker D"
  "no_undirected_cycle_marker (set_under_cycle u c D) = no_undirected_cycle_marker D"
  "no_undirected_cycle_marker (set_over_cycle u c D) = no_undirected_cycle_marker D"
  by (simp_all add: set_under_cycle_def set_over_cycle_def)

lemma det_ready_set_under:
  assumes "det_ready G D" "\<And>v. supports v c = supports v (under_cycle u D)" "cycle_ready (g_under G) c"
  shows "det_ready G (set_under_cycle u c D)"
  using assms unfolding det_ready_def set_under_cycle_def under_cycle_def over_cycle_def
  by (auto split: option.splits if_splits)

lemma det_ready_set_over:
  assumes "det_ready G D" "\<And>v. supports v c = supports v (over_cycle u D)" "cycle_ready (g_over G) c"
  shows "det_ready G (set_over_cycle u c D)"
  using assms unfolding det_ready_def set_over_cycle_def under_cycle_def over_cycle_def
  by (auto split: option.splits if_splits)

lemma has_under:
  assumes "synced G" "det_ready G D"
  obtains c where "hasCycle u (g_under G) (under_cycle u D) = Some (\<exists>c. is_cycle u (arcs (g_under G)) c, c)"
    "det_ready G (set_under_cycle u c D)"
proof -
  have "supports u (under_cycle u D) \<and> cycle_ready (g_under G) (under_cycle u D)" using assms(2) by (simp add: det_ready_def)
  from cyc.has_correct [OF syncedD(1) [OF assms(1)] this] obtain c where
    "hasCycle u (g_under G) (under_cycle u D) = Some (\<exists>c. is_cycle u (arcs (g_under G)) c, c)" "cycle_ready (g_under G) c" by blast
  then show ?thesis using that det_ready_set_under [OF assms(2)] cycle_supports(1) by blast
qed

lemma has_over:
  assumes "synced G" "det_ready G D"
  obtains c where "hasCycle u (g_over G) (over_cycle u D) = Some (\<exists>c. is_cycle u (arcs (g_over G)) c, c)"
    "det_ready G (set_over_cycle u c D)"
proof -
  have "supports u (over_cycle u D) \<and> cycle_ready (g_over G) (over_cycle u D)" using assms(2) by (simp add: det_ready_def)
  from cyc.has_correct [OF syncedD(2) [OF assms(1)] this] obtain c where
    "hasCycle u (g_over G) (over_cycle u D) = Some (\<exists>c. is_cycle u (arcs (g_over G)) c, c)" "cycle_ready (g_over G) c" by blast
  then show ?thesis using that det_ready_set_over [OF assms(2)] cycle_supports(1) by blast
qed

abbreviation edge_lit :: "GraphTheory \<Rightarrow> nat \<Rightarrow> Lit" where
  "edge_lit G i \<equiv> mkLit (ge_v (edge_list G ! i)) False"

lemma edge_value:
  assumes "synced G" "i < length (edge_list G)"
  obtains v where "ge_v (edge_list G ! i) = int v" "v < length (gvars G)" "gvalue_var G (int v) = Some (gassigns G ! v)"
    "wf_lbool (gassigns G ! v)" "edge_status (g_under G) ! i \<longleftrightarrow> tri (gassigns G ! v) = Some True"
    "edge_status (g_over G) ! i \<longleftrightarrow> tri (gassigns G ! v) \<noteq> Some False" "hasEdge (g_over G) i"
    "edgeEnabled (g_over G) i = Some (edge_status (g_over G) ! i)"
proof -
  from syncedD(7) [OF assms] obtain v u w where v: "ge_v (edge_list G ! i) = int v" "v < length (gvars G)"
    "edge_status (g_under G) ! i \<longleftrightarrow> tri (gassigns G ! v) = Some True"
    "edge_status (g_over G) ! i \<longleftrightarrow> tri (gassigns G ! v) \<noteq> Some False" "declares (g_over G) i u w"
    by (auto simp: edge_synced_def)
  have "i < length (edge_status (g_over G))" using assms(2) syncedD(6) [OF assms(1)] wf_graph_lengths(5) [OF syncedD(2) [OF assms(1)]] by simp
  then show ?thesis
    using that [OF v(1,2) _ syncedD(9) [OF assms(1) v(2)] v(3,4)] v(2) syncedD(3) [OF assms(1)] declares_isEdge [OF v(5)]
    by (simp add: edgeEnabled_def hasEdge_def)
qed

lemma disabled_edges_eq:
  assumes "synced G" "\<forall>i \<in> set es. i < length (edge_list G)"
  shows "disabled_edges G es = Some (map (edge_lit G) (filter (\<lambda>i. \<not> edge_status (g_over G) ! i) es))"
  using assms(2)
proof (induction es)
  case (Cons i es)
  obtain v where v: "ge_v (edge_list G ! i) = int v" "v < length (gvars G)" "gvalue_var G (int v) = Some (gassigns G ! v)"
    "wf_lbool (gassigns G ! v)" "edge_status (g_over G) ! i \<longleftrightarrow> tri (gassigns G ! v) \<noteq> Some False" "hasEdge (g_over G) i"
    "edgeEnabled (g_over G) i = Some (edge_status (g_over G) ! i)"
    by (rule edge_value [OF assms(1), of i]) (use Cons.prems in simp_all)
  then show ?case using Cons by (simp add: getEdgeVar_def)
qed simp

lemma buildNoCycleReason_eq:
  assumes "synced G"
  shows "buildNoCycleReason G [l] = Some (l # map (edge_lit G) (filter (\<lambda>i. \<not> edge_status (g_over G) ! i) [0..<length (edge_list G)]))"
  using disabled_edges_eq [OF assms, of "[0..<length (edge_list G)]"] syncedD(6) [OF assms]
  by (simp add: buildNoCycleReason_def edges_def)

lemma cycle_lits_eq: "\<forall>i \<in> set c. i < length (edge_list G) \<Longrightarrow> cycle_lits G c = Some (map (neg \<circ> edge_lit G) c)"
  by (induction c) (simp_all add: getEdgeVar_def)

lemma under_arc:
  assumes "synced G" "(u, i, w) \<in> arcs (g_under G)"
  shows "i < length (edge_list G)" "edge_status (g_under G) ! i"
  using assms syncedD(5) [OF assms(1)] wf_graph_declares(3) [OF syncedD(1) [OF assms(1)], of i u w] by (auto simp: arcs_def)

lemma buildCycleReason_eq:
  assumes "synced G" "det_ready G D" "is_cycle u (arcs (g_under G)) c0"
  obtains c D' where "buildCycleReason u G D [l] = Some (l # map (neg \<circ> edge_lit G) c, D')" "is_cycle u (arcs (g_under G)) c"
    "det_ready G D'" "\<And>v. acyclic_lit v D' = acyclic_lit v D"
proof -
  have "supports u (under_cycle u D) \<and> cycle_ready (g_under G) (under_cycle u D)" using assms(2) by (simp add: det_ready_def)
  from cyc.get_correct [OF syncedD(1) [OF assms(1)] this assms(3)] obtain c a where
    c: "getCycle u (g_under G) (under_cycle u D) = Some (c, a)" "is_cycle u (arcs (g_under G)) c" "cycle_ready (g_under G) a" by blast
  have "\<forall>i \<in> set c. i < length (edge_list G)" using is_cycle_edges [OF c(2)] under_arc(1) [OF assms(1)] by blast
  then have "buildCycleReason u G D [l] = Some (l # map (neg \<circ> edge_lit G) c, set_under_cycle u a D)"
    using c(1) by (simp add: buildCycleReason_def cycle_lits_eq)
  moreover have "det_ready G (set_under_cycle u a D)"
    using det_ready_set_under [OF assms(2)] cycle_supports(2) [OF c(1)] c(3) by blast
  ultimately show ?thesis using that c(2) by simp
qed

subsection \<open>Solver and theory in step\<close>

text \<open>Every theory variable has a variable of the solver that names it, and both have the same value.\<close>

definition linked :: "Solver \<Rightarrow> GraphTheory \<Rightarrow> bool" where
  "linked S G \<longleftrightarrow> length (vardata S) = length (assigns S) \<and> (\<forall>b \<in> set (assigns S). wf_lbool b) \<and>
     (\<forall>v < length (gvars G). 0 \<le> solverVar (gvars G ! v) \<and> nat (solverVar (gvars G ! v)) < length (assigns S) \<and>
        map_of (theory_vars G) (solverVar (gvars G ! v)) = Some (int v) \<and>
        tri (assigns S ! nat (solverVar (gvars G ! v))) = tri (gassigns G ! v)) \<and>
     (\<forall>x v. map_of (theory_vars G) x = Some v \<longrightarrow> (\<exists>n < length (gvars G). v = int n \<and> solverVar (gvars G ! n) = x))"

text \<open>The theory keeps an assigned variable on the list of its level in the solver, and the solver keeps it on the part of
  its trail that goes away when that level is cancelled.\<close>

definition level_ok :: "Solver \<Rightarrow> GraphTheory \<Rightarrow> nat list list \<Rightarrow> nat \<Rightarrow> bool" where
  "level_ok S G Ls v \<longleftrightarrow> (let sv = solverVar (gvars G ! v); k = level S sv
     in k < length Ls \<and> v \<in> set (Ls ! k) \<and> k \<le> decisionLevel S \<and>
        (\<forall>j < k. \<exists>l \<in> set (drop (trail_lim S ! j) (trail S)). var l = sv))"

definition levels_ok :: "Solver \<Rightarrow> GraphTheory \<Rightarrow> nat list list \<Rightarrow> bool" where
  "levels_ok S G Ls \<longleftrightarrow> sorted (trail_lim S) \<and> (\<forall>n \<in> set (trail_lim S). n \<le> length (trail S)) \<and>
     (\<forall>l \<in> set (trail S). 0 \<le> var l) \<and>
     (\<forall>v < length (gvars G). tri (gassigns G ! v) \<noteq> None \<longrightarrow> level_ok S G Ls v)"

definition in_step :: "Solver \<Rightarrow> GraphTheory \<Rightarrow> bool" where
  "in_step S G \<longleftrightarrow> (\<exists>Ls. gt_inv G Ls [] \<and> length Ls \<le> decisionLevel S + 1 \<and> levels_ok S G Ls) \<and> aux_ok G \<and>
     \<not> opt_lazy_backtrack G \<and> \<not> lazy_backtracking_enabled G \<and> linked S G"

definition lits_ok :: "GraphTheory \<Rightarrow> CycleDetector \<Rightarrow> bool" where
  "lits_ok G D \<longleftrightarrow> (\<forall>u. acyclic_lit u D = lit_Undef \<or>
     (\<exists>v < length (gvars G). acyclic_lit u D = mkLit (int v) False \<and> \<not> gisEdge (gvars G ! v)))"

definition problem_inv :: "CycleDetector \<Rightarrow> GraphProblem \<Rightarrow> bool" where
  "problem_inv D P \<longleftrightarrow> in_step (gp_solver P) (gp_theory P) \<and> \<not> theory_satisfied P \<and>
     lits_ok (gp_theory P) D \<and> det_ready (gp_theory P) D"

lemma in_step_synced: "in_step S G \<Longrightarrow> synced G"
  by (auto simp: in_step_def gt_inv_def)

lemma enqueueTheory_graphs:
  assumes "enqueueTheory S l G = Some G'" "var l = int v" "v < length (gvars G)" "\<not> gisEdge (gvars G ! v)"
  shows "g_under G' = g_under G" "g_over G' = g_over G"
proof -
  have a: "g_under H' = g_under H \<and> g_over H' = g_over H"
    if "assign_lit l H = Some H'" "gvars H = gvars G" for H H'
    using that assms(2-4) by (auto simp: assign_lit_def with_detector_def Let_def split: if_splits bind_splits)
  have z: "g_under H' = g_under H \<and> g_over H' = g_over H \<and> gvars H' = gvars H"
    if "lazy_unassign l H = Some H'" "gvars H = gvars G" for H H'
    using that assms(2-4) by (auto simp: lazy_unassign_def with_detector_def Let_def split: if_splits bind_splits prod.splits)
  show "g_under G' = g_under G" "g_over G' = g_over G"
    using assms(1) unfolding enqueueTheory_def growLevels_eq
    by (auto simp: Let_def split: if_splits bind_splits prod.splits dest!: a z)
qed

lemma linkedD:
  assumes "linked S G" "v < length (gvars G)"
  shows "0 \<le> solverVar (gvars G ! v)" "nat (solverVar (gvars G ! v)) < length (assigns S)"
    "map_of (theory_vars G) (solverVar (gvars G ! v)) = Some (int v)"
    "tri (assigns S ! nat (solverVar (gvars G ! v))) = tri (gassigns G ! v)" "length (vardata S) = length (assigns S)"
  using assms unfolding linked_def by blast+

lemma linked_wf: "linked S G \<Longrightarrow> i < length (assigns S) \<Longrightarrow> wf_lbool (assigns S ! i)"
  unfolding linked_def using nth_mem by blast

lemma linked_unique:
  assumes "linked S G" "v < length (gvars G)" "x < length (gvars G)" "solverVar (gvars G ! x) = solverVar (gvars G ! v)"
  shows "x = v"
  using linkedD(3) [OF assms(1,2)] linkedD(3) [OF assms(1,3)] assms(4) by simp

text \<open>The solver assigns a variable. The theory is still in step if it has assigned the variable too, or has none for it.\<close>

lemma uncheckedEnqueue_facts:
  assumes "0 \<le> var p" "nat (var p) < length (assigns S)" "length (vardata S) = length (assigns S)"
  shows "assigns (uncheckedEnqueue p r S) = (assigns S)[nat (var p) := lbool_of (\<not> sign p)]"
    "level (uncheckedEnqueue p r S) x = (if nat x = nat (var p) then decisionLevel S else level S x)"
    "decisionLevel (uncheckedEnqueue p r S) = decisionLevel S" "trail_lim (uncheckedEnqueue p r S) = trail_lim S"
    "trail (uncheckedEnqueue p r S) = trail S @ [p]"
    "length (vardata (uncheckedEnqueue p r S)) = length (assigns (uncheckedEnqueue p r S))"
  using assms by (simp_all add: uncheckedEnqueue_def level_def)

lemma linked_enqueue:
  assumes ln: "linked S G" and p: "0 \<le> var p" "nat (var p) < length (assigns S)" and sg: "same_gvars G G'"
    and asg: "\<And>x. x < length (gvars G) \<Longrightarrow>
        tri (gassigns G' ! x) = (if solverVar (gvars G ! x) = var p then Some (\<not> sign p) else tri (gassigns G ! x))"
  shows "linked (uncheckedEnqueue p r S) G'"
proof -
  note u = uncheckedEnqueue_facts [OF p, of r]
  have len: "length (vardata S) = length (assigns S)" using ln by (simp add: linked_def)
  have gv: "gvars G' = gvars G" "theory_vars G' = theory_vars G" using sg by (simp_all add: same_gvars_def)
  have "tri (assigns (uncheckedEnqueue p r S) ! nat (solverVar (gvars G ! x))) = tri (gassigns G' ! x)" if x: "x < length (gvars G)" for x
  proof (cases "solverVar (gvars G ! x) = var p")
    case True
    then show ?thesis using asg [OF x] p(2) u(1) [OF len] by simp
  next
    case False
    then have "nat (solverVar (gvars G ! x)) \<noteq> nat (var p)" using p(1) linkedD(1) [OF ln x] by auto
    then show ?thesis using asg [OF x] False linkedD(4) [OF ln x] u(1) [OF len] by simp
  qed
  moreover have "\<forall>b \<in> set (assigns (uncheckedEnqueue p r S)). wf_lbool b"
    using ln set_update_subset_insert [of "assigns S" "nat (var p)" "lbool_of (\<not> sign p)"] u(1) [OF len]
    by (auto simp: linked_def)
  moreover have "length (assigns (uncheckedEnqueue p r S)) = length (assigns S)" using u(1) [OF len] by simp
  ultimately show ?thesis
    using u(6) [OF len] linkedD(1-3) [OF ln] ln unfolding linked_def gv by simp
qed

lemma level_ok_enqueue:
  assumes old: "level_ok S G Ls v" and p: "0 \<le> var p" "nat (var p) < length (assigns S)" "length (vardata S) = length (assigns S)"
    and ne: "solverVar (gvars G ! v) \<noteq> var p" "0 \<le> solverVar (gvars G ! v)"
    and Ms: "length Ls \<le> length Ms" "\<And>k. k < length Ls \<Longrightarrow> v \<in> set (Ls ! k) \<Longrightarrow> v \<in> set (Ms ! k)" "gvars G' = gvars G"
  shows "level_ok (uncheckedEnqueue p r S) G' Ms v"
proof -
  note u = uncheckedEnqueue_facts [OF p, of r]
  have "level (uncheckedEnqueue p r S) (solverVar (gvars G ! v)) = level S (solverVar (gvars G ! v))"
    using ne p(1) by (simp add: u(2) eq_nat_nat_iff)
  then show ?thesis
    using old Ms by (fastforce simp: level_ok_def Let_def u(3-5))
qed

lemma moved_member:
  "k < length Ls \<Longrightarrow> x \<noteq> v \<Longrightarrow> x \<in> set (Ls ! k) \<Longrightarrow> x \<in> set (moved v d Ls ! k)"
  "d < length Ls \<Longrightarrow> v \<in> set (moved v d Ls ! d)" "length (moved v d Ls) = length Ls"
  by (cases "k = d") (auto simp: moved_def)

lemma level_ok_new:
  assumes p: "0 \<le> var p" "nat (var p) < length (assigns S)" "length (vardata S) = length (assigns S)"
    and v: "solverVar (gvars G ! v) = var p" "decisionLevel S < length Ms" "v \<in> set (Ms ! decisionLevel S)" "gvars G' = gvars G"
    and lim: "\<forall>n \<in> set (trail_lim S). n \<le> length (trail S)"
  shows "level_ok (uncheckedEnqueue p r S) G' Ms v"
proof -
  note u = uncheckedEnqueue_facts [OF p, of r]
  have "p \<in> set (drop (trail_lim S ! j) (trail S @ [p]))" if "j < decisionLevel S" for j using lim that by simp
  then show ?thesis using v by (auto simp: level_ok_def Let_def u(2-5))
qed

lemma levels_ok_enqueue:
  assumes lev: "levels_ok S G Ls" and ln: "linked S G" and v: "v < length (gvars G)" "solverVar (gvars G ! v) = var p"
    and d: "length Ls \<le> decisionLevel S + 1" and gv: "gvars G' = gvars G"
    and asg: "\<And>x. x < length (gvars G) \<Longrightarrow> x \<noteq> v \<Longrightarrow> tri (gassigns G' ! x) = tri (gassigns G ! x)"
  shows "levels_ok (uncheckedEnqueue p r S) G' (moved v (decisionLevel S) (vec_grow (decisionLevel S + 1) [] Ls))"
proof -
  let ?Ms = "moved v (decisionLevel S) (vec_grow (decisionLevel S + 1) [] Ls)"
  have p: "0 \<le> var p" "nat (var p) < length (assigns S)" "length (vardata S) = length (assigns S)"
    using linkedD [OF ln v(1)] v(2) by simp_all
  note u = uncheckedEnqueue_facts [OF p, of r]
  have M: "length ?Ms = decisionLevel S + 1" "v \<in> set (?Ms ! decisionLevel S)"
    using d moved_member(2) [of "decisionLevel S" "vec_grow (decisionLevel S + 1) [] Ls" v] by (simp_all add: moved_member(3))
  have lim: "\<forall>n \<in> set (trail_lim S). n \<le> length (trail S)" using lev by (simp add: levels_ok_def)
  have "level_ok (uncheckedEnqueue p r S) G' ?Ms x" if x: "x < length (gvars G')" "tri (gassigns G' ! x) \<noteq> None" for x
  proof (cases "x = v")
    case True
    then show ?thesis using level_ok_new [OF p v(2) _ M(2) gv lim] M(1) by simp
  next
    case False
    then have "level_ok S G Ls x" using lev x asg gv by (simp add: levels_ok_def)
    then show ?thesis
    proof (rule level_ok_enqueue [OF _ p])
      show "solverVar (gvars G ! x) \<noteq> var p" "0 \<le> solverVar (gvars G ! x)"
        using linked_unique [OF ln v(1), of x] False x(1) v(2) gv linkedD(1) [OF ln, of x] by auto
      show "x \<in> set (?Ms ! k)" if "k < length Ls" "x \<in> set (Ls ! k)" for k
        using that False by (intro moved_member(1)) (auto simp: nth_vec_grow)
    qed (use M(1) d gv in simp_all)
  qed
  then show ?thesis using lev lim p(1) by (auto simp: levels_ok_def u(4,5))
qed

lemma in_step_needs [simp]: "in_step S (G\<lparr>s_needsPropagation := b\<rparr>) = in_step S G"
  by (simp add: in_step_def gt_inv_def aux_ok_def levels_ok_def level_ok_def linked_def nNodes_def)

text \<open>The theory follows the solver when an unassigned variable is assigned, and enqueueing it a second time changes nothing
  but its place on the list of the level.\<close>

lemma enqueue_new:
  assumes st: "in_step S G" and v: "v < length (gvars G)" "tri (gassigns G ! v) = None" "solverVar (gvars G ! v) = var p"
  obtains G' where "notifyTheory (uncheckedEnqueue p r S) p G = Some G'" "in_step (uncheckedEnqueue p r S) G'" "same_gvars G G'"
    "\<forall>x < length (gvars G). tri (gassigns G' ! x) = (if x = v then Some (\<not> sign p) else tri (gassigns G ! x))"
    "\<not> gisEdge (gvars G ! v) \<longrightarrow> g_under G' = g_under G \<and> g_over G' = g_over G"
proof -
  obtain Ls where g: "gt_inv G Ls []" "length Ls \<le> decisionLevel S + 1" "levels_ok S G Ls" and ln: "linked S G"
    and ok: "aux_ok G" "\<not> opt_lazy_backtrack G" "\<not> lazy_backtracking_enabled G"
    using st by (auto simp: in_step_def)
  note lv = linkedD [OF ln v(1), unfolded v(3)]
  note u = uncheckedEnqueue_facts [OF lv(1,2,5), of r]
  let ?S = "uncheckedEnqueue p r S" and ?l = "mkLit (int v) (sign p)"
  have val: "wf_lbool (lit_value ?S (mkLit (var p) False))" "tri (lit_value ?S (mkLit (var p) False)) = Some (\<not> sign p)"
    "level ?S (var p) = decisionLevel S"
    using lv(1,2,5) by (simp_all add: u lit_value_def in_range_def)
  define H where "H = G\<lparr>s_needsPropagation := True\<rparr>"
  have H: "gt_inv H Ls []" "gvars H = gvars G" "gassigns H = gassigns G" "\<not> opt_lazy_backtrack H" "same_gvars G H"
    using g(1) ok(2) by (simp_all add: H_def gt_inv_def)
  define Ms where "Ms = moved v (decisionLevel S) (vec_grow (decisionLevel S + 1) [] Ls)"
  have gl: "length (vec_grow (decisionLevel S + 1) [] Ls) = decisionLevel S + 1" using g(2) by simp
  have pre: "var ?l = int v" "v < length (gvars H)" "var p = solverVar (gvars H ! v)"
    "tri (lit_value ?S (mkLit (var p) False)) = Some (\<not> sign ?l)"
    "opt_lazy_backtrack H \<or> (length Ls \<le> level ?S (var p) + 1 \<and> tri (gassigns H ! v) \<noteq> Some (sign ?l))"
    using v val(2,3) g(2) H(2,3) by simp_all
  from enqueueTheory_correct [OF H(1) pre(1,2,3) val(1) pre(4,5), unfolded val(3) gl H(2,3) v(2)] obtain G1 where
    G1: "enqueueTheory ?S ?l H = Some G1" "same_gvars H G1" "gt_inv G1 Ms []"
      "\<forall>x < length (gvars G). tri (gassigns G1 ! x) = (if x = v then Some (\<not> sign p) else tri (gassigns G ! x))"
    unfolding Ms_def by auto
  have sg: "same_gvars G G1" by (rule same_gvars_trans [OF H(5) G1(2)])
  have gv: "gvars G1 = gvars G" "\<not> opt_lazy_backtrack G1" "\<not> lazy_backtracking_enabled G1"
    using sg ok by (simp_all add: same_gvars_def)
  have "linked ?S G1"
  proof (rule linked_enqueue [OF ln lv(1,2) sg])
    fix x assume x: "x < length (gvars G)"
    have "solverVar (gvars G ! x) = var p \<longleftrightarrow> x = v" using linked_unique [OF ln v(1) x] v(3) by metis
    then show "tri (gassigns G1 ! x) = (if solverVar (gvars G ! x) = var p then Some (\<not> sign p) else tri (gassigns G ! x))"
      using G1(4) x by simp
  qed
  moreover have "levels_ok ?S G1 Ms"
    unfolding Ms_def by (rule levels_ok_enqueue [OF g(3) ln v(1,3) g(2) gv(1)]) (use G1(4) in simp)
  moreover have "length Ms \<le> decisionLevel ?S + 1" using gl u(3) by (simp add: Ms_def moved_member(3))
  moreover have "aux_ok G1" using same_gvars_aux [OF sg _ ok(1)] g(1) by (simp add: gt_inv_def)
  ultimately have "in_step ?S G1" using G1(3) gv(2,3) by (auto simp: in_step_def)
  moreover have "notifyTheory ?S p G = Some G1" using lv(3) G1(1) by (simp add: notifyTheory_def H_def)
  moreover have "g_under G1 = g_under G \<and> g_over G1 = g_over G" if "\<not> gisEdge (gvars G ! v)"
    using enqueueTheory_graphs [OF G1(1) _ _ ] that v(1) by (simp add: H_def)
  ultimately show ?thesis using that sg G1(4) by blast
qed


lemma enqueue_again:
  assumes st: "in_step S G" and v: "v < length (gvars G)" "tri (gassigns G ! v) = Some (\<not> s)"
    and lev: "level S (solverVar (gvars G ! v)) = decisionLevel S"
  obtains G' where "enqueueTheory S (mkLit (int v) s) G = Some G'" "in_step S G'" "same_gvars G G'"
    "\<forall>x < length (gvars G). tri (gassigns G' ! x) = tri (gassigns G ! x)"
    "\<not> gisEdge (gvars G ! v) \<longrightarrow> g_under G' = g_under G \<and> g_over G' = g_over G"
proof -
  obtain Ls where g: "gt_inv G Ls []" "length Ls \<le> decisionLevel S + 1" "levels_ok S G Ls" and ln: "linked S G"
    and ok: "aux_ok G" "\<not> opt_lazy_backtrack G" "\<not> lazy_backtracking_enabled G"
    using st by (auto simp: in_step_def)
  note lv = linkedD [OF ln v(1)]
  let ?sv = "solverVar (gvars G ! v)" and ?l = "mkLit (int v) s"
  have lk: "level_ok S G Ls v" using g(3) v by (simp add: levels_ok_def)
  then have gl: "length Ls = decisionLevel S + 1" using g(2) lev by (simp add: level_ok_def Let_def)
  have vg: "vec_grow (decisionLevel S + 1) [] Ls = Ls" using gl by (simp add: vec_grow_def)
  have pre: "var ?l = int v" "wf_lbool (lit_value S (mkLit ?sv False))" "tri (lit_value S (mkLit ?sv False)) = Some (\<not> sign ?l)"
    "opt_lazy_backtrack G \<or> (length Ls \<le> level S ?sv + 1 \<and> tri (gassigns G ! v) \<noteq> Some (sign ?l))"
    using lv(1,2,4) linked_wf [OF ln lv(2)] v(2) gl lev by (simp_all add: lit_value_def in_range_def)
  from enqueueTheory_correct [OF g(1) pre(1) v(1) refl pre(2-4), unfolded lev vg gl sign_mkLit] obtain G1 where
    G1: "enqueueTheory S ?l G = Some G1" "same_gvars G G1" "gt_inv G1 (moved v (decisionLevel S) Ls) []"
      "\<forall>x < length (gvars G). tri (gassigns G1 ! x) = (if x = v then Some (\<not> s) else tri (gassigns G ! x))"
    by auto
  have gv: "gvars G1 = gvars G" "theory_vars G1 = theory_vars G" "\<not> opt_lazy_backtrack G1" "\<not> lazy_backtracking_enabled G1"
    using G1(2) ok by (simp_all add: same_gvars_def)
  have asg: "tri (gassigns G1 ! x) = tri (gassigns G ! x)" if "x < length (gvars G)" for x using G1(4) v(2) that by simp
  have lo: "level_ok S G1 (moved v (decisionLevel S) Ls) x" if "x < length (gvars G)" "tri (gassigns G ! x) \<noteq> None" for x
  proof -
    have "level_ok S G Ls x" using g(3) that by (simp add: levels_ok_def)
    then show ?thesis
      using gl lev moved_member(1) [of _ Ls x v "decisionLevel S"] moved_member(2) [of "decisionLevel S" Ls v]
      by (cases "x = v") (auto simp: level_ok_def Let_def gv(1) moved_member(3))
  qed
  then have "levels_ok S G1 (moved v (decisionLevel S) Ls)" using g(3) gv(1) asg by (simp add: levels_ok_def)
  moreover have "linked S G1" using ln asg unfolding linked_def gv by simp
  moreover have "aux_ok G1" using same_gvars_aux [OF G1(2) _ ok(1)] g(1) by (simp add: gt_inv_def)
  ultimately have "in_step S G1" using G1(3) gv(3,4) gl by (auto simp: in_step_def moved_member(3))
  moreover have "g_under G1 = g_under G \<and> g_over G1 = g_over G" if "\<not> gisEdge (gvars G ! v)"
    using enqueueTheory_graphs [OF G1(1) _ _ ] that v(1) by simp
  ultimately show ?thesis using that G1(1,2) asg by blast
qed

text \<open>\<open>Solver::enqueue\<close> of a literal of an unassigned variable, with or without a theory variable.\<close>

lemma solver_enqueue_correct:
  assumes st: "in_step (gp_solver P) (gp_theory P)" "\<not> theory_satisfied P"
    and v: "v < length (gvars (gp_theory P))" "tri (gassigns (gp_theory P) ! v) = None" "solverVar (gvars (gp_theory P) ! v) = var p"
  obtains G' where "solver_enqueue p r P = Some (True, P\<lparr>gp_solver := uncheckedEnqueue p (Some r) (gp_solver P), gp_theory := G'\<rparr>)"
    "in_step (uncheckedEnqueue p (Some r) (gp_solver P)) G'" "same_gvars (gp_theory P) G'"
    "\<forall>x < length (gvars (gp_theory P)).
       tri (gassigns G' ! x) = (if x = v then Some (\<not> sign p) else tri (gassigns (gp_theory P) ! x))"
    "\<not> gisEdge (gvars (gp_theory P) ! v) \<longrightarrow> g_under G' = g_under (gp_theory P) \<and> g_over G' = g_over (gp_theory P)"
proof -
  have ln: "linked (gp_solver P) (gp_theory P)" using st(1) by (simp add: in_step_def)
  note lv = linkedD [OF ln v(1), unfolded v(3)]
  have "lbool_eq (lit_value (gp_solver P) p) l_Undef" "in_range (gp_solver P) p"
    using lv(1,2,4) v(2) linked_wf [OF ln lv(2)] by (simp_all add: lit_value_def in_range_def)
  moreover obtain G' where G': "notifyTheory (uncheckedEnqueue p (Some r) (gp_solver P)) p (gp_theory P) = Some G'"
    "in_step (uncheckedEnqueue p (Some r) (gp_solver P)) G'" "same_gvars (gp_theory P) G'"
    "\<forall>x < length (gvars (gp_theory P)). tri (gassigns G' ! x) = (if x = v then Some (\<not> sign p) else tri (gassigns (gp_theory P) ! x))"
    "\<not> gisEdge (gvars (gp_theory P) ! v) \<longrightarrow> g_under G' = g_under (gp_theory P) \<and> g_over G' = g_over (gp_theory P)"
    by (rule enqueue_new [OF st(1) v, of "Some r"])
  ultimately have "solver_enqueue p r P = Some (True, P\<lparr>gp_solver := uncheckedEnqueue p (Some r) (gp_solver P), gp_theory := G'\<rparr>)"
    using st(2) by (simp add: solver_enqueue_def)
  then show ?thesis using that G' by blast
qed

text \<open>A literal of an unassigned detector variable is enqueued in the solver with its reason and reaches the theory.\<close>

lemma theory_enqueue_correct:
  assumes inv: "problem_inv D P" and v: "v < length (gvars (gp_theory P))" "\<not> gisEdge (gvars (gp_theory P) ! v)"
    and un: "tri (gassigns (gp_theory P) ! v) = None"
  obtains P' where "theory_enqueue (mkLit (int v) s) r P = Some (True, P')" "problem_inv D P'" "same_gvars (gp_theory P) (gp_theory P')"
    "\<forall>x < length (gvars (gp_theory P)).
        tri (gassigns (gp_theory P') ! x) = (if x = v then Some (\<not> s) else tri (gassigns (gp_theory P) ! x))"
    "gp_solver P' = uncheckedEnqueue (mkLit (solverVar (gvars (gp_theory P) ! v)) s) (Some r) (gp_solver P)"
    "g_under (gp_theory P') = g_under (gp_theory P)" "g_over (gp_theory P') = g_over (gp_theory P)"
proof -
  let ?p = "mkLit (solverVar (gvars (gp_theory P) ! v)) s"
  let ?S = "uncheckedEnqueue ?p (Some r) (gp_solver P)"
  have st: "in_step (gp_solver P) (gp_theory P)" "\<not> theory_satisfied P" using inv by (simp_all add: problem_inv_def)
  obtain G1 where G1: "solver_enqueue ?p r P = Some (True, P\<lparr>gp_solver := ?S, gp_theory := G1\<rparr>)" "in_step ?S G1"
    "same_gvars (gp_theory P) G1"
    "\<forall>x < length (gvars (gp_theory P)). tri (gassigns G1 ! x) = (if x = v then Some (\<not> s) else tri (gassigns (gp_theory P) ! x))"
    "g_under G1 = g_under (gp_theory P)" "g_over G1 = g_over (gp_theory P)"
    by (rule solver_enqueue_correct [OF st v(1) un, of ?p r, unfolded sign_mkLit]) (use v(2) in auto)
  have gv: "gvars G1 = gvars (gp_theory P)" using G1(3) by (simp add: same_gvars_def)
  have ln: "linked (gp_solver P) (gp_theory P)" using st(1) by (simp add: in_step_def)
  note lv = linkedD [OF ln v(1)]
  have "level ?S (solverVar (gvars G1 ! v)) = decisionLevel ?S"
    using lv(1,2,5) uncheckedEnqueue_facts [of ?p "gp_solver P" "Some r"] by (simp add: gv)
  note lev = this
  have "tri (gassigns G1 ! v) = Some (\<not> s)" using G1(4) v(1) by simp
  note again = enqueue_again [OF G1(2) _ this lev]
  obtain G2 where G2: "enqueueTheory ?S (mkLit (int v) s) G1 = Some G2" "in_step ?S G2" "same_gvars G1 G2"
    "\<forall>x < length (gvars G1). tri (gassigns G2 ! x) = tri (gassigns G1 ! x)" "g_under G2 = g_under G1" "g_over G2 = g_over G1"
    by (rule again) (use v gv in auto)
  let ?P = "P\<lparr>gp_solver := ?S, gp_theory := G2\<rparr>"
  have sg: "same_gvars (gp_theory P) G2" by (rule same_gvars_trans [OF G1(3) G2(3)])
  have "mkLit (int v) s \<noteq> lit_Undef" by (auto simp: lit_Undef_def mkLit_def)
  then have "theory_enqueue (mkLit (int v) s) r P = Some (True, ?P)"
    using G1(1) G2(1) v(1) by (simp add: theory_enqueue_def toSolver_lit_def)
  moreover have "problem_inv D ?P"
    using inv G2(2,5,6) G1(5,6) sg by (simp add: problem_inv_def lits_ok_def det_ready_def same_gvars_def)
  ultimately show ?thesis using that sg G1(4-6) G2(4-6) gv by simp
qed

subsection \<open>What propagation achieves\<close>

lemma tlit_simps [simp]: "tlit \<tau> (neg l) \<longleftrightarrow> \<not> tlit \<tau> l" "tlit \<tau> (mkLit v s) \<longleftrightarrow> \<tau> (nat v) \<noteq> s"
  by (auto simp: tlit_def)

lemma mkLit_int_inject [simp]: "mkLit (int v) s = mkLit (int w) s \<longleftrightarrow> v = w"
  by (metis int_int_eq var_mkLit)

lemma mkLit_not_Undef [simp]: "mkLit (int v) False \<noteq> lit_Undef"
  by (auto simp: lit_Undef_def mkLit_def)

lemma gvalue_lit:
  assumes "synced G" "v < length (gvars G)"
  obtains b where "gvalue G (mkLit (int v) s) = Some b" "wf_lbool b" "tri b = map_option (\<lambda>x. x \<noteq> s) (tri (gassigns G ! v))"
  using that [of "lbool_xor (gassigns G ! v) s"] assms syncedD(3,9) [OF assms(1)] by (simp add: gvalue_def)

definition conflicting :: "GraphTheory \<Rightarrow> CycleDetector \<Rightarrow> Lit list \<Rightarrow> bool" where
  "conflicting G D c \<longleftrightarrow> (\<exists>tc. toSolver G tc = Some c \<and> (\<forall>\<tau>. admissible G D \<tau> \<longrightarrow> (\<exists>l \<in> set tc. tlit \<tau> l)) \<and>
     (\<forall>l \<in> set tc. \<exists>b. gvalue G l = Some b \<and> tri b = Some False))"

definition decided :: "bool \<Rightarrow> GraphTheory \<Rightarrow> CycleDetector \<Rightarrow> bool" where
  "decided u G D \<longleftrightarrow> (\<forall>v. acyclic_lit u D = mkLit (int v) False \<longrightarrow>
     ((\<exists>c. is_cycle u (arcs (g_under G)) c) \<longrightarrow> tri (gassigns G ! v) = Some False) \<and>
     (\<not> (\<exists>c. is_cycle u (arcs (g_over G)) c) \<longrightarrow> tri (gassigns G ! v) = Some True))"

lemma toSolver_total:
  assumes "\<forall>l \<in> set ls. 0 \<le> var l \<and> nat (var l) < length (gvars G)"
  obtains c where "toSolver G ls = Some c"
proof -
  have "\<exists>c. toSolver G ls = Some c" using assms
    by (induction ls) (auto simp: toSolver_lit_def gvar_def)
  then show ?thesis using that by blast
qed

lemma cycle_clause:
  assumes "synced G" "is_cycle u (arcs (g_under G)) c" "admissible G D \<tau>" "acyclic_lit u D \<noteq> lit_Undef"
  shows "\<exists>l \<in> set (neg (acyclic_lit u D) # map (neg \<circ> edge_lit G) c). tlit \<tau> l"
proof (rule ccontr)
  assume "\<not> ?thesis"
  then have *: "tlit \<tau> (acyclic_lit u D)" "\<And>i. i \<in> set c \<Longrightarrow> tlit \<tau> (edge_lit G i)" by auto
  have "is_cycle u (true_arcs G \<tau>) c"
    using * by (intro cyc.cycle_persists [OF assms(1,2)]) (simp add: tlit_def)
  then show False using *(1) assms(3,4) by (auto simp: admissible_def)
qed

lemma no_cycle_clause:
  assumes "synced G" "\<not> (\<exists>c. is_cycle u (arcs (g_over G)) c)" "admissible G D \<tau>" "acyclic_lit u D \<noteq> lit_Undef"
  shows "\<exists>l \<in> set (acyclic_lit u D # map (edge_lit G) (filter (\<lambda>i. \<not> edge_status (g_over G) ! i) [0..<length (edge_list G)])). tlit \<tau> l"
proof (rule ccontr)
  assume *: "\<not> ?thesis"
  then obtain c where "is_cycle u (true_arcs G \<tau>) c" using assms(3,4) by (auto simp: admissible_def)
  from cyc.cycle_needs_disabled [OF assms(1,2) this] * show False by (auto simp: tlit_def)
qed

lemma cycle_clause_conflicting:
  assumes syn: "synced G" and c: "is_cycle u (arcs (g_under G)) c" and a: "acyclic_lit u D = mkLit (int v) False" "v < length (gvars G)"
    and val: "tri (gassigns G ! v) = Some True"
  obtains sc where "toSolver G (neg (acyclic_lit u D) # map (neg \<circ> edge_lit G) c) = Some sc" "conflicting G D sc"
proof -
  let ?c = "neg (acyclic_lit u D) # map (neg \<circ> edge_lit G) c"
  have e: "\<exists>x < length (gvars G). ge_v (edge_list G ! i) = int x \<and> tri (gassigns G ! x) = Some True" if i: "i \<in> set c" for i
  proof -
    from is_cycle_edges [OF c i] obtain x y where xy: "(x, i, y) \<in> arcs (g_under G)" by blast
    note il = under_arc [OF syn xy]
    show ?thesis by (rule edge_value [OF syn il(1)]) (use il(2) in auto)
  qed
  have f: "\<exists>b. gvalue G l = Some b \<and> tri b = Some False" if "l \<in> set ?c" for l
  proof -
    have "\<exists>x < length (gvars G). l = mkLit (int x) True \<and> tri (gassigns G ! x) = Some True"
      using that e a val by fastforce
    then obtain x where x: "x < length (gvars G)" "l = mkLit (int x) True" "tri (gassigns G ! x) = Some True" by blast
    show ?thesis by (rule gvalue_lit [OF syn x(1), of True]) (use x in auto)
  qed
  have "\<forall>l \<in> set ?c. 0 \<le> var l \<and> nat (var l) < length (gvars G)" using e a by fastforce
  then obtain sc where "toSolver G ?c = Some sc" by (rule toSolver_total)
  moreover have "acyclic_lit u D \<noteq> lit_Undef" using a(1) by simp
  ultimately show ?thesis
    using that cycle_clause [OF syn c] f unfolding conflicting_def by blast
qed


lemma no_cycle_clause_conflicting:
  assumes syn: "synced G" and c: "\<not> (\<exists>c. is_cycle u (arcs (g_over G)) c)"
    and a: "acyclic_lit u D = mkLit (int v) False" "v < length (gvars G)" and val: "tri (gassigns G ! v) = Some False"
  obtains sc where "toSolver G (acyclic_lit u D # map (edge_lit G) (filter (\<lambda>i. \<not> edge_status (g_over G) ! i) [0..<length (edge_list G)])) = Some sc"
    "conflicting G D sc"
proof -
  let ?c = "acyclic_lit u D # map (edge_lit G) (filter (\<lambda>i. \<not> edge_status (g_over G) ! i) [0..<length (edge_list G)])"
  have e: "\<exists>x < length (gvars G). ge_v (edge_list G ! i) = int x \<and> tri (gassigns G ! x) = Some False"
    if i: "i < length (edge_list G)" "\<not> edge_status (g_over G) ! i" for i
    by (rule edge_value [OF syn i(1)]) (use i(2) in auto)
  have f: "\<exists>b. gvalue G l = Some b \<and> tri b = Some False" if "l \<in> set ?c" for l
  proof -
    have "\<exists>x < length (gvars G). l = mkLit (int x) False \<and> tri (gassigns G ! x) = Some False"
      using that e a val by fastforce
    then obtain x where x: "x < length (gvars G)" "l = mkLit (int x) False" "tri (gassigns G ! x) = Some False" by blast
    show ?thesis by (rule gvalue_lit [OF syn x(1), of False]) (use x in auto)
  qed
  have "\<forall>l \<in> set ?c. 0 \<le> var l \<and> nat (var l) < length (gvars G)" using e a by fastforce
  then obtain sc where "toSolver G ?c = Some sc" by (rule toSolver_total)
  moreover have "acyclic_lit u D \<noteq> lit_Undef" using a(1) by simp
  ultimately show ?thesis
    using that no_cycle_clause [OF syn c] f unfolding conflicting_def by blast
qed

text \<open>The outcome of one half of \<open>propagate\<close>: a clause that is a lemma of the theory and false under the current assignment, or
  no conflict, every literal that was assigned implied by the ones before, and the predicate decided as far as the
  two graphs tell.\<close>

definition half_outcome :: "bool \<Rightarrow> CycleDetector \<Rightarrow> GraphProblem \<Rightarrow> Lit list option \<Rightarrow> CycleDetector \<Rightarrow> GraphProblem \<Rightarrow> bool" where
  "half_outcome u D P r D' P' \<longleftrightarrow> problem_inv D' P' \<and> (\<forall>v. acyclic_lit v D' = acyclic_lit v D) \<and>
     same_gvars (gp_theory P) (gp_theory P') \<and>
     g_under (gp_theory P') = g_under (gp_theory P) \<and> g_over (gp_theory P') = g_over (gp_theory P) \<and>
     (\<forall>x < length (gvars (gp_theory P)). \<forall>b. tri (gassigns (gp_theory P) ! x) = Some b \<longrightarrow> tri (gassigns (gp_theory P') ! x) = Some b) \<and>
     (\<forall>\<tau>. extends (gp_theory P) \<tau> \<and> admissible (gp_theory P) D \<tau> \<longrightarrow> extends (gp_theory P') \<tau>) \<and>
     (case r of Some c \<Rightarrow> conflicting (gp_theory P') D' c | None \<Rightarrow> decided u (gp_theory P') D')"

lemma problem_inv_det:
  assumes "problem_inv D P" "det_ready (gp_theory P) D'" "\<And>v. acyclic_lit v D' = acyclic_lit v D"
  shows "problem_inv D' P"
  using assms by (simp add: problem_inv_def lits_ok_def)

lemma half_outcome_same:
  assumes "problem_inv D P" "det_ready (gp_theory P) D'" "\<And>v. acyclic_lit v D' = acyclic_lit v D"
    "case r of Some c \<Rightarrow> conflicting (gp_theory P) D' c | None \<Rightarrow> decided u (gp_theory P) D'"
  shows "half_outcome u D P r D' P"
  using assms problem_inv_det [OF assms(1-3)] by (simp add: half_outcome_def)


lemma implied_cycle:
  assumes "synced G" "extends G \<tau>" "admissible G D \<tau>" "acyclic_lit u D = mkLit (int v) False"
  shows "\<exists>c. is_cycle u (arcs (g_under G)) c \<Longrightarrow> \<not> \<tau> v" "\<not> (\<exists>c. is_cycle u (arcs (g_over G)) c) \<Longrightarrow> \<tau> v"
proof -
  have a: "\<tau> v \<longleftrightarrow> \<not> (\<exists>c. is_cycle u (true_arcs G \<tau>) c)"
    using assms(3) [unfolded admissible_def, rule_format, of u] assms(4) by simp
  show "\<exists>c. is_cycle u (arcs (g_under G)) c \<Longrightarrow> \<not> \<tau> v" "\<not> (\<exists>c. is_cycle u (arcs (g_over G)) c) \<Longrightarrow> \<tau> v"
    using a cyc.cyc_mono graph_bounds [OF assms(1,2)] by blast+
qed

lemma half_outcome_enqueue:
  assumes inv: "problem_inv D P" and det: "det_ready (gp_theory P) D'" "\<And>v. acyclic_lit v D' = acyclic_lit v D"
    and a: "acyclic_lit u D = mkLit (int v) False" "v < length (gvars (gp_theory P))" "\<not> gisEdge (gvars (gp_theory P) ! v)"
    and un: "tri (gassigns (gp_theory P) ! v) = None"
    and why: "if s then \<exists>c. is_cycle u (arcs (g_under (gp_theory P))) c else \<not> (\<exists>c. is_cycle u (arcs (g_over (gp_theory P))) c)"
  obtains P' where "theory_enqueue (mkLit (int v) s) r P = Some (True, P')" "half_outcome u D P None D' P'"
    "gp_solver P' = uncheckedEnqueue (mkLit (solverVar (gvars (gp_theory P) ! v)) s) (Some r) (gp_solver P)"
proof -
  have inv': "problem_inv D' P" by (rule problem_inv_det [OF inv det])
  obtain P' where P': "theory_enqueue (mkLit (int v) s) r P = Some (True, P')" "problem_inv D' P'"
    "same_gvars (gp_theory P) (gp_theory P')"
    "\<forall>x < length (gvars (gp_theory P)).
        tri (gassigns (gp_theory P') ! x) = (if x = v then Some (\<not> s) else tri (gassigns (gp_theory P) ! x))"
    "gp_solver P' = uncheckedEnqueue (mkLit (solverVar (gvars (gp_theory P) ! v)) s) (Some r) (gp_solver P)"
    "g_under (gp_theory P') = g_under (gp_theory P)" "g_over (gp_theory P') = g_over (gp_theory P)"
    by (rule theory_enqueue_correct [OF inv' a(2,3) un, of s r])
  have syn: "synced (gp_theory P)" using inv in_step_synced by (auto simp: problem_inv_def)
  have gv: "gvars (gp_theory P') = gvars (gp_theory P)" using P'(3) by (simp add: same_gvars_def)
  have "extends (gp_theory P') \<tau>" if \<tau>: "extends (gp_theory P) \<tau>" "admissible (gp_theory P) D \<tau>" for \<tau>
    using implied_cycle [OF syn \<tau> a(1)] why \<tau>(1) P'(4) unfolding extends_def gv by (auto split: if_splits)
  moreover have "decided u (gp_theory P') D'"
  proof -
    have "tri (gassigns (gp_theory P') ! v) = Some (\<not> s)" using P'(4) a(2) by simp
    moreover have "arcs (g_under (gp_theory P)) \<subseteq> arcs (g_over (gp_theory P))"
      using graph_bounds [OF syn, of "\<lambda>x. tri (gassigns (gp_theory P) ! x) = Some True"] by (auto simp: extends_def)
    then have "(\<exists>c. is_cycle u (arcs (g_under (gp_theory P))) c) \<Longrightarrow> s" "\<not> (\<exists>c. is_cycle u (arcs (g_over (gp_theory P))) c) \<Longrightarrow> \<not> s"
      using why cyc.cyc_mono by metis+
    ultimately show ?thesis using a(1) det(2) by (simp add: decided_def P'(6,7))
  qed
  ultimately have "half_outcome u D P None D' P'"
    using P'(2,3,6,7) P'(4) det(2) un by (auto simp: half_outcome_def)
  then show ?thesis using that P'(1,5) by blast
qed


lemma propagate_half_correct:
  assumes inv: "problem_inv D P"
  obtains r D' P' where "propagate_half u (D, P) = Some (r, D', P')" "half_outcome u D P r D' P'"
proof (cases "acyclic_lit u D = lit_Undef")
  case True
  have "decided u (gp_theory P) D" using True by (simp add: decided_def) (metis mkLit_not_Undef)
  then show ?thesis
    using that [of None D P] True half_outcome_same [OF inv, where D' = D and r = None and u = u] inv
    by (simp add: propagate_half_def problem_inv_def)
next
  case False
  let ?G = "gp_theory P" and ?a = "acyclic_lit u D"
  have syn: "synced ?G" and det: "det_ready ?G D" and ok: "lits_ok ?G D"
    using inv in_step_synced by (auto simp: problem_inv_def)
  from ok False obtain v where a: "?a = mkLit (int v) False" "v < length (gvars ?G)" "\<not> gisEdge (gvars ?G ! v)"
    by (auto simp: lits_ok_def)
  obtain val where val: "gvalue ?G ?a = Some val" "wf_lbool val" "tri val = tri (gassigns ?G ! v)"
    by (rule gvalue_lit [OF syn a(2), of False]) (simp add: a(1) option.map_ident)
  obtain nval where nval: "gvalue ?G (neg ?a) = Some nval" "wf_lbool nval" "tri nval = map_option Not (tri (gassigns ?G ! v))"
    by (rule gvalue_lit [OF syn a(2), of True]) (simp add: a(1))
  obtain uc where uc: "hasCycle u (g_under ?G) (under_cycle u D) = Some (\<exists>c. is_cycle u (arcs (g_under ?G)) c, uc)"
    "det_ready ?G (set_under_cycle u uc D)" by (rule has_under [OF syn det])
  define D1 where "D1 = (if tri (gassigns ?G ! v) = Some False then D else set_under_cycle u uc D)"
  have D1: "det_ready ?G D1" "\<And>x. acyclic_lit x D1 = acyclic_lit x D" "no_undirected_cycle_marker D1 = no_undirected_cycle_marker D"
    "no_directed_cycle_marker D1 = no_directed_cycle_marker D"
    using uc(2) det by (simp_all add: D1_def)
  obtain oc where oc: "hasCycle u (g_over ?G) (over_cycle u D1) = Some (\<exists>c. is_cycle u (arcs (g_over ?G)) c, oc)"
    "det_ready ?G (set_over_cycle u oc D1)" by (rule has_over [OF syn D1(1)])
  have arcs: "arcs (g_under ?G) \<subseteq> arcs (g_over ?G)"
    using graph_bounds [OF syn, of "\<lambda>x. tri (gassigns ?G ! x) = Some True"] by (auto simp: extends_def)
  consider (false) "tri (gassigns ?G ! v) = Some False" | (true) "tri (gassigns ?G ! v) = Some True"
    | (undef) "tri (gassigns ?G ! v) = None" by (metis (full_types) option.exhaust)
  then show ?thesis
  proof cases
    case false
    let ?D = "set_over_cycle u oc D"
    have D: "D1 = D" using false by (simp add: D1_def)
    note det2 = oc(2) [unfolded D]
    show ?thesis
    proof (cases "\<exists>c. is_cycle u (arcs (g_over ?G)) c")
      case True
      have "propagate_half u (D, P) = Some (None, ?D, P)"
        using a(1) val false oc(1) True by (simp add: propagate_half_def D)
      moreover have "half_outcome u D P None ?D P"
        by (rule half_outcome_same [OF inv det2]) (use True false a(1) in \<open>auto simp: decided_def\<close>)
      ultimately show ?thesis by (rule that)
    next
      case nc: False
      obtain sc where sc: "toSolver ?G (acyclic_lit u ?D # map (edge_lit ?G) (filter (\<lambda>i. \<not> edge_status (g_over ?G) ! i) [0..<length (edge_list ?G)])) = Some sc"
        "conflicting ?G ?D sc"
        by (rule no_cycle_clause_conflicting [OF syn nc, of ?D v]) (use a false in simp_all)
      have "propagate_half u (D, P) = Some (Some sc, ?D, P)"
        using a(1) val false oc(1) nc sc(1) by (simp add: propagate_half_def D buildNoCycleReason_eq [OF syn])
      moreover have "half_outcome u D P (Some sc) ?D P"
        by (rule half_outcome_same [OF inv det2]) (use sc(2) in simp_all)
      ultimately show ?thesis by (rule that)
    qed
  next
    case true
    let ?D = "set_under_cycle u uc D"
    show ?thesis
    proof (cases "\<exists>c. is_cycle u (arcs (g_under ?G)) c")
      case False
      have "propagate_half u (D, P) = Some (None, ?D, P)"
        using a(1) val true uc(1) False by (simp add: propagate_half_def)
      moreover have "half_outcome u D P None ?D P"
        by (rule half_outcome_same [OF inv uc(2)]) (use False true a(1) in \<open>auto simp: decided_def\<close>)
      ultimately show ?thesis by (rule that)
    next
      case cy: True
      then obtain c0 where c0: "is_cycle u (arcs (g_under ?G)) c0" by blast
      obtain c D' where c: "buildCycleReason u ?G ?D [neg ?a] = Some (neg ?a # map (neg \<circ> edge_lit ?G) c, D')"
        "is_cycle u (arcs (g_under ?G)) c" "det_ready ?G D'" "\<And>v. acyclic_lit v D' = acyclic_lit v ?D"
        using buildCycleReason_eq [OF syn uc(2) c0, of "neg ?a"] by metis
      obtain sc where sc: "toSolver ?G (neg (acyclic_lit u D') # map (neg \<circ> edge_lit ?G) c) = Some sc" "conflicting ?G D' sc"
        by (rule cycle_clause_conflicting [OF syn c(2), of D' v]) (use a true c(4) in simp_all)
      have "propagate_half u (D, P) = Some (Some sc, D', P)"
        using a(1) val nval true uc(1) cy sc(1) c(1,4) by (simp add: propagate_half_def)
      moreover have "half_outcome u D P (Some sc) D' P"
        by (rule half_outcome_same [OF inv c(3)]) (use sc(2) c(4) in simp_all)
      ultimately show ?thesis by (rule that)
    qed
  next
    case undef
    then have D: "D1 = set_under_cycle u uc D" by (simp add: D1_def)
    consider (under) "\<exists>c. is_cycle u (arcs (g_under ?G)) c" | (none) "\<not> (\<exists>c. is_cycle u (arcs (g_over ?G)) c)"
      | (open_) "\<not> (\<exists>c. is_cycle u (arcs (g_under ?G)) c)" "\<exists>c. is_cycle u (arcs (g_over ?G)) c" by blast
    then show ?thesis
    proof cases
      case under
      let ?r = "if u then no_undirected_cycle_marker D1 else no_directed_cycle_marker D1"
      obtain P' where "theory_enqueue (mkLit (int v) True) ?r P = Some (True, P')" "half_outcome u D P None D1 P'"
        by (rule half_outcome_enqueue [OF inv D1(1,2) a undef, of True]) (use under in simp_all)
      then show ?thesis
        using that [of None D1 P'] a(1) val nval undef uc(1) under by (simp add: propagate_half_def D cong: if_cong)
    next
      case none
      let ?D = "set_over_cycle u oc D1"
      let ?r = "if u then undirected_cycle_marker ?D else directed_cycle_marker ?D"
      have nu: "\<not> (\<exists>c. is_cycle u (arcs (g_under ?G)) c)" using none arcs cyc.cyc_mono by blast
      obtain P' where "theory_enqueue (mkLit (int v) False) ?r P = Some (True, P')" "half_outcome u D P None ?D P'"
        by (rule half_outcome_enqueue [OF inv oc(2) _ a undef, of False]) (use none D1(2) in simp_all)
      then show ?thesis
        using that [of None ?D P'] a(1) val nval undef uc(1) oc(1) none nu by (simp add: propagate_half_def D cong: if_cong)
    next
      case open_
      let ?D = "set_over_cycle u oc D1"
      have "propagate_half u (D, P) = Some (None, ?D, P)"
        using a(1) val undef uc(1) oc(1) open_ by (simp add: propagate_half_def D)
      moreover have "half_outcome u D P None ?D P"
        by (rule half_outcome_same [OF inv oc(2)]) (use open_ a(1) D1(2) in \<open>auto simp: decided_def\<close>)
      ultimately show ?thesis by (rule that)
    qed
  qed
qed

subsection \<open>Backtracking keeps solver and theory in step\<close>

lemma cancelUntil_facts:
  assumes "lev < decisionLevel S" "\<forall>l \<in> set (trail S). 0 \<le> var l"
  defines "lim \<equiv> trail_lim S ! lev"
  shows "level (cancelUntil lev S) = level S" "trail_lim (cancelUntil lev S) = take lev (trail_lim S)"
    "trail (cancelUntil lev S) = take lim (trail S) @ filter (\<lambda>l. level S (var l) \<le> lev) (drop lim (trail S))"
    "length (assigns (cancelUntil lev S)) = length (assigns S)" "vardata (cancelUntil lev S) = vardata S"
    "(\<forall>b \<in> set (assigns S). wf_lbool b) \<Longrightarrow> \<forall>b \<in> set (assigns (cancelUntil lev S)). wf_lbool b"
    "0 \<le> x \<Longrightarrow> nat x < length (assigns S) \<Longrightarrow> assigns (cancelUntil lev S) ! nat x =
       (if \<exists>l \<in> set (drop lim (trail S)). var l = x \<and> lev < level S x then l_Undef else assigns S ! nat x)"
proof -
  define und where "und = filter (\<lambda>l. \<not> level S (var l) \<le> lev) (drop lim (trail S))"
  have a: "assigns (cancelUntil lev S) = foldl (\<lambda>a l. a[nat (var l) := l_Undef]) (assigns S) und"
    using assms(1) by (simp add: cancelUntil_def und_def lim_def Let_def)
  have pos: "\<forall>l \<in> set und. 0 \<le> var l" using assms(2) by (auto simp: und_def dest: in_set_dropD)
  show "length (assigns (cancelUntil lev S)) = length (assigns S)" unfolding a by (rule length_fold_undef)
  show "(\<forall>b \<in> set (assigns S). wf_lbool b) \<Longrightarrow> \<forall>b \<in> set (assigns (cancelUntil lev S)). wf_lbool b"
    using wf_fold_undef [of "assigns S" und] by (simp add: a)
  show "assigns (cancelUntil lev S) ! nat x =
       (if \<exists>l \<in> set (drop lim (trail S)). var l = x \<and> lev < level S x then l_Undef else assigns S ! nat x)"
    if "0 \<le> x" "nat x < length (assigns S)"
    using that pos by (auto simp: a nth_fold_undef und_def)
qed (use assms(1) in \<open>simp_all add: cancelUntil_def lim_def Let_def level_def fun_eq_iff\<close>)


lemma trail_after_cancel:
  assumes ok: "sorted (trail_lim S)" "\<forall>n \<in> set (trail_lim S). n \<le> length (trail S)" "\<forall>l \<in> set (trail S). 0 \<le> var l"
    and lev: "lev < decisionLevel S"
  shows "sorted (trail_lim (cancelUntil lev S))" "\<forall>n \<in> set (trail_lim (cancelUntil lev S)). n \<le> length (trail (cancelUntil lev S))"
    "\<forall>l \<in> set (trail (cancelUntil lev S)). 0 \<le> var l"
    "j < lev \<Longrightarrow> l \<in> set (drop (trail_lim S ! j) (trail S)) \<Longrightarrow> level S (var l) \<le> lev \<Longrightarrow>
       l \<in> set (drop (trail_lim (cancelUntil lev S) ! j) (trail (cancelUntil lev S)))"
proof -
  define lim where "lim = trail_lim S ! lev"
  note c = cancelUntil_facts [OF lev ok(3), folded lim_def]
  have lim: "lim \<le> length (trail S)" using ok(2) lev by (simp add: lim_def)
  have le: "trail_lim S ! j \<le> lim" if "j < lev" for j using ok(1) lev that by (simp add: lim_def sorted_nth_mono)
  show "sorted (trail_lim (cancelUntil lev S))" using ok(1) by (simp add: c(2) sorted_wrt_take)
  show "\<forall>n \<in> set (trail_lim (cancelUntil lev S)). n \<le> length (trail (cancelUntil lev S))"
  proof
    fix n assume "n \<in> set (trail_lim (cancelUntil lev S))"
    then obtain j where "j < lev" "n = trail_lim S ! j" using lev by (auto simp: c(2) in_set_conv_nth)
    then show "n \<le> length (trail (cancelUntil lev S))" using le [of j] lim by (simp add: c(3))
  qed
  show "\<forall>l \<in> set (trail (cancelUntil lev S)). 0 \<le> var l"
    using ok(3) by (auto simp: c(3) dest: in_set_takeD in_set_dropD)
  show "l \<in> set (drop (trail_lim (cancelUntil lev S) ! j) (trail (cancelUntil lev S)))"
    if j: "j < lev" and l: "l \<in> set (drop (trail_lim S ! j) (trail S))" "level S (var l) \<le> lev"
  proof -
    have "drop (trail_lim S ! j) (trail S) = drop (trail_lim S ! j) (take lim (trail S)) @ drop lim (trail S)"
      using le [OF j] lim by (metis append_take_drop_id diff_is_0_eq drop_append drop_0 length_take min.absorb2)
    then have "l \<in> set (drop (trail_lim S ! j) (take lim (trail S))) \<or> l \<in> set (drop lim (trail S))" using l(1) by auto
    then show ?thesis using l(2) le [OF j] lim j by (auto simp: c(2,3))
  qed
qed

lemma dropped_level:
  assumes "trail_inv T Ls Z" "v < length (ttrail T)" "k < length Ls" "v \<in> set (Ls ! k)"
  shows "(\<exists>L \<in> set (drop (n + 1) Ls). v \<in> set L) \<longleftrightarrow> n < k"
proof
  assume "\<exists>L \<in> set (drop (n + 1) Ls). v \<in> set L"
  then obtain j where "j < length (drop (n + 1) Ls)" "v \<in> set (drop (n + 1) Ls ! j)" by (metis in_set_conv_nth)
  then have "v \<in> set (Ls ! (n + 1 + j))" "n + 1 + j < length Ls" by simp_all
  then show "n < k" using trail_inv_level(3) [OF assms(1,2)] assms(3,4) by fastforce
next
  assume "n < k"
  then have "drop (n + 1) Ls ! (k - (n + 1)) = Ls ! k" "k - (n + 1) < length (drop (n + 1) Ls)" using assms(3) by simp_all
  then show "\<exists>L \<in> set (drop (n + 1) Ls). v \<in> set L" using assms(4) by (metis nth_mem)
qed

lemma in_step_cancel:
  assumes st: "in_step S G" and lev: "lev < decisionLevel S"
  obtains G' where "cancelTheory lev S G = Some G'" "in_step (cancelUntil lev S) G'" "same_gvars G G'"
proof -
  obtain Ls where g: "gt_inv G Ls []" "length Ls \<le> decisionLevel S + 1" "levels_ok S G Ls" and ln: "linked S G"
    and ok: "aux_ok G" "\<not> opt_lazy_backtrack G" "\<not> lazy_backtracking_enabled G"
    using st by (auto simp: in_step_def)
  have tok: "sorted (trail_lim S)" "\<forall>n \<in> set (trail_lim S). n \<le> length (trail S)" "\<forall>l \<in> set (trail S). 0 \<le> var l"
    using g(3) by (simp_all add: levels_ok_def)
  from backtrackUntil_correct [OF g(1), of lev] obtain G' where
    G': "backtrackUntil lev G = Some G'" "gt_inv G' (take (lev + 1) Ls) []" "same_gvars G G'"
      "\<forall>x < length (gvars G). gassigns G' ! x = (if \<exists>L \<in> set (drop (lev + 1) Ls). x \<in> set L then l_Undef else gassigns G ! x)"
    by auto
  have gv: "gvars G' = gvars G" "theory_vars G' = theory_vars G" "\<not> opt_lazy_backtrack G'" "\<not> lazy_backtracking_enabled G'"
    using G'(3) ok by (simp_all add: same_gvars_def)
  have ct: "cancelTheory lev S G = Some G'"
    using lev ok G'(1) gv(4) by (simp add: cancelTheory_def undecide_trail_id)
  let ?S = "cancelUntil lev S"
  note c = cancelUntil_facts [OF lev tok(3)]
  have tr: "trail_inv (tstate G) Ls []" "length (ttrail (tstate G)) = length (gvars G)" using g(1) by (simp_all add: gt_inv_def)
  have lvl: "level_ok S G Ls x" if "x < length (gvars G)" "tri (gassigns G ! x) \<noteq> None" for x
    using g(3) that by (simp add: levels_ok_def)
  have drop: "(\<exists>L \<in> set (drop (lev + 1) Ls). x \<in> set L) \<longleftrightarrow> lev < level S (solverVar (gvars G ! x))"
    if "x < length (gvars G)" "tri (gassigns G ! x) \<noteq> None" for x
    using dropped_level [OF tr(1), of x "level S (solverVar (gvars G ! x))" lev] lvl [OF that] that(1) tr(2)
    by (simp add: level_ok_def Let_def)
  have new: "tri (gassigns G' ! x) = (if lev < level S (solverVar (gvars G ! x)) then None else tri (gassigns G ! x))"
    if x: "x < length (gvars G)" for x
    using G'(4) x drop [OF x] by (cases "tri (gassigns G ! x)") auto
  have "tri (assigns ?S ! nat (solverVar (gvars G ! x))) = tri (gassigns G' ! x)" if x: "x < length (gvars G)" for x
  proof (cases "tri (gassigns G ! x)")
    case None
    then show ?thesis using linkedD(1,2,4) [OF ln x] new [OF x] by (simp add: c(7))
  next
    case (Some b)
    have "\<exists>l \<in> set (drop (trail_lim S ! lev) (trail S)). var l = solverVar (gvars G ! x)" if "lev < level S (solverVar (gvars G ! x))"
      using lvl [OF x] Some that by (simp add: level_ok_def Let_def)
    then show ?thesis using linkedD(1,2,4) [OF ln x] new [OF x] by (auto simp: c(7))
  qed
  then have "linked ?S G'" using ln c(4-6) unfolding linked_def gv by simp
  moreover have "level_ok ?S G' (take (lev + 1) Ls) x" if x: "x < length (gvars G)" "tri (gassigns G' ! x) \<noteq> None" for x
  proof -
    have k: "level S (solverVar (gvars G ! x)) \<le> lev" "tri (gassigns G ! x) \<noteq> None" using new [OF x(1)] x(2) by (auto split: if_splits)
    have "\<exists>l \<in> set (drop (trail_lim ?S ! j) (trail ?S)). var l = solverVar (gvars G ! x)" if j: "j < level S (solverVar (gvars G ! x))" for j
    proof -
      have "\<exists>l \<in> set (drop (trail_lim S ! j) (trail S)). var l = solverVar (gvars G ! x)"
        using lvl [OF x(1) k(2)] j by (simp add: level_ok_def Let_def)
      then show ?thesis using trail_after_cancel(4) [OF tok lev, of j] j k(1) by fastforce
    qed
    then show ?thesis
      using lvl [OF x(1) k(2)] k(1) lev by (simp add: level_ok_def Let_def gv(1) c(1,2))
  qed
  then have "levels_ok ?S G' (take (lev + 1) Ls)"
    using trail_after_cancel(1-3) [OF tok lev] gv(1) by (simp add: levels_ok_def)
  moreover have "length (take (lev + 1) Ls) \<le> decisionLevel ?S + 1" using lev by (simp add: c(2))
  moreover have "aux_ok G'" using same_gvars_aux [OF G'(3) _ ok(1)] g(1) by (simp add: gt_inv_def)
  ultimately have "in_step ?S G'" using G'(2) gv(3,4) by (auto simp: in_step_def)
  then show ?thesis using that ct G'(3) by blast
qed

end
