(* ===== verification/Graph_Problem.thy ===== *)
theory Graph_Problem
  imports Cycle_Propagation
begin

text \<open>
  The whole problem: the SAT solver's trail, one graph theory and its cycle detectors together. The
  invariant \<open>gp_inv\<close> says that solver and theory agree (\<open>in_step\<close>), that the under- and
  over-approximation of the graph match the assignment (\<open>synced\<close>) and that every detector is
  registered, attached and ready to search. It is kept by every declaration (\<open>newNode\<close>, \<open>newEdge\<close>,
  \<open>acyclic\<close>), by the decisions and assignments of the solver, by propagation and by backtracking:
  these are the steps of the relation \<open>gp_step\<close>.
\<close>

subsection \<open>Declarations keep solver and theory in step\<close>

lemma synced_add_var:
  assumes syn: "synced G"
    and gv: "gvars G' = gvars G @ [d]" "\<not> gisEdge d" "\<not> gisTheoryVar d" "detector_edge d = int i" "i < length (detectors G')"
      "gassigns G' = gassigns G @ [l_Undef]" "length (detectors G) \<le> length (detectors G')" "default_options G'"
      "edge_list G' = edge_list G"
    and gu: "wf_graph (g_under G')" "same_topology (g_under G) (g_under G')" "edge_status (g_under G') = edge_status (g_under G)"
    and go: "wf_graph (g_over G')" "same_topology (g_over G) (g_over G')" "edge_status (g_over G') = edge_status (g_over G)"
  shows "synced G'"
proof -
  have len: "length (gassigns G) = length (gvars G)" using syn by (simp add: synced_def)
  have d: "declares (g_under G') = declares (g_under G)" "declares (g_over G') = declares (g_over G)"
    using same_topology_declares gu(2) go(2) by auto
  have "edge_synced G' j" if j: "j < length (edge_list G')" for j
  proof -
    from syncedD(7) [OF syn, of j] j gv(9) obtain v x y where
      o: "ge_v (edge_list G ! j) = int v" "ge_from (edge_list G ! j) = int x" "ge_to (edge_list G ! j) = int y"
        "v < length (gvars G)" "gisEdge (gvars G ! v)" "detector_edge (gvars G ! v) = int j"
        "declares (g_under G) j x y" "declares (g_over G) j x y"
        "edge_status (g_under G) ! j \<longleftrightarrow> tri (gassigns G ! v) = Some True"
        "edge_status (g_over G) ! j \<longleftrightarrow> tri (gassigns G ! v) \<noteq> Some False"
      by (auto simp: edge_synced_def)
    show ?thesis
      unfolding edge_synced_def d gu(3) go(3) using o len gv(1,6,9)
      by (intro exI [of _ v] exI [of _ x] exI [of _ y]) (simp add: nth_append)
  qed
  moreover have "var_ok G' v" if "v < length (gvars G')" for v
  proof (cases "v = length (gvars G)")
    case True
    then show ?thesis using gv by (simp add: var_ok_def)
  next
    case False
    then have "v < length (gvars G)" using that gv(1) by simp
    then show ?thesis using syncedD(8) [OF syn, of v] gv by (auto simp: var_ok_def nth_append)
  qed
  moreover have "\<forall>b \<in> set (gassigns G'). wf_lbool b" using syn gv(6) by (auto simp: synced_def)
  ultimately show ?thesis
    using syn gu(1,2) go(1,2) gv(1,6,8,9) by (simp add: synced_def same_topology_def)
qed

definition solver_ok :: "Solver \<Rightarrow> bool" where
  "solver_ok S \<longleftrightarrow> length (vardata S) = length (assigns S) \<and> (\<forall>b \<in> set (assigns S). wf_lbool b) \<and> trail_lim S = [] \<and>
     (\<forall>l \<in> set (trail S). 0 \<le> var l)"

lemma in_step_init:
  assumes "solver_ok S"
  shows "in_step S GraphTheory_init"
proof -
  have "wf_graph DynamicGraph_init" "num_edges DynamicGraph_init = 0"
    by simp (simp add: DynamicGraph_init_def)
  then have "gt_inv GraphTheory_init [] []" "aux_ok GraphTheory_init"
    using trail_inv_init
    by (simp_all add: gt_inv_def synced_def aux_ok_def GraphTheory_init_def default_options_def nNodes_def nodes_def)
      (simp add: TrailState_init_def)
  then show ?thesis
    using assms by (auto simp: in_step_def solver_ok_def levels_ok_def linked_def GraphTheory_init_def)
qed

text \<open>A free variable of the solver: in range, unassigned, not yet used by the theory and not the constant.\<close>

definition free_var :: "int \<Rightarrow> Solver \<Rightarrow> GraphTheory \<Rightarrow> bool" where
  "free_var sv S G \<longleftrightarrow> 0 \<le> sv \<and> nat sv < length (assigns S) \<and> tri (assigns S ! nat sv) = None \<and>
     map_of (theory_vars G) sv = None \<and> sv \<noteq> var (const_true S)"

lemma free_var_facts:
  assumes "free_var sv S G" "decisionLevel S = 0"
  shows "edge_solver_var sv S = sv" "new_solver sv S = S" "new_theory_vars sv S G = (sv, int (length (gvars G))) # theory_vars G"
proof -
  show sv: "edge_solver_var sv S = sv" using assms(1) by (auto simp: edge_solver_var_def free_var_def var_Undef_def)
  have "nat (sv + 1 - int (length (assigns S))) = 0" using assms(1) by (auto simp: free_var_def)
  moreover have "sv \<noteq> var_Undef" using assms(1) by (auto simp: free_var_def var_Undef_def)
  ultimately show "new_solver sv S = S" using assms(2) by (simp add: new_solver_def sv grow_solver_vars_def)
  show "new_theory_vars sv S G = (sv, int (length (gvars G))) # theory_vars G" using assms(1) by (simp add: new_theory_vars_def free_var_def)
qed

lemma in_step_add_var:
  assumes st: "in_step S G" and fr: "free_var sv S G" and G': "gvars G' = gvars G @ [d]" "solverVar d = sv"
    "gassigns G' = gassigns G @ [l_Undef]" "theory_vars G' = (sv, int (length (gvars G))) # theory_vars G" "aux_ok G'"
    "opt_lazy_backtrack G' = opt_lazy_backtrack G" "lazy_backtracking_enabled G' = lazy_backtracking_enabled G"
    and inv: "\<And>Ls. gt_inv G Ls [] \<Longrightarrow> gt_inv G' Ls []"
  shows "in_step S G'"
proof -
  have len: "length (gassigns G) = length (gvars G)" using in_step_synced [OF st] by (simp add: synced_def)
  have ln: "linked S G" using st by (simp add: in_step_def)
  have ne: "solverVar (gvars G ! v) \<noteq> sv" if "v < length (gvars G)" for v
    using linkedD(3) [OF ln that] fr by (auto simp: free_var_def)
  have "linked S G'"
    unfolding linked_def
  proof (intro conjI allI impI)
    fix v assume v: "v < length (gvars G')"
    show "0 \<le> solverVar (gvars G' ! v)" "nat (solverVar (gvars G' ! v)) < length (assigns S)"
      "map_of (theory_vars G') (solverVar (gvars G' ! v)) = Some (int v)"
      "tri (assigns S ! nat (solverVar (gvars G' ! v))) = tri (gassigns G' ! v)"
      using v G' fr ln linkedD(1-4) [OF ln, of v] ne [of v] len
      by (cases "v = length (gvars G)"; simp add: free_var_def nth_append)+
  next
    fix x v assume "map_of (theory_vars G') x = Some v"
    then show "\<exists>n < length (gvars G'). v = int n \<and> solverVar (gvars G' ! n) = x"
    proof (cases "x = sv")
      case False
      then have "map_of (theory_vars G) x = Some v" using \<open>map_of (theory_vars G') x = Some v\<close> G'(4) by simp
      then obtain n where "n < length (gvars G)" "v = int n" "solverVar (gvars G ! n) = x" using ln unfolding linked_def by blast
      then show ?thesis using G'(1) by (intro exI [of _ n]) (simp add: nth_append)
    qed (use G'(1,2,4) \<open>map_of (theory_vars G') x = Some v\<close> in auto)
  qed (use ln in \<open>auto simp: linked_def\<close>)
  moreover have "levels_ok S G' Ls" if "levels_ok S G Ls" for Ls
    using that G'(1,3) len by (auto simp: levels_ok_def level_ok_def nth_append less_Suc_eq)
  ultimately show ?thesis using st G'(5-7) inv by (auto simp: in_step_def)
qed


subsection \<open>The invariant of a problem\<close>

definition det_ok :: "CycleDetector \<Rightarrow> GraphTheory \<Rightarrow> bool" where
  "det_ok D G \<longleftrightarrow> lits_ok G D \<and> det_ready G D \<and> cd_ID D < length (detectors G)"

text \<open>No detector has been marked satisfied (\<open>setSatisfied\<close> of the cycle detector does nothing).\<close>

definition unsatisfied :: "GraphTheory \<Rightarrow> bool" where
  "unsatisfied G \<longleftrightarrow> satisfied_detectors G = replicate (length (detectors G)) False \<and> n_satisfied_detectors G = 0"

lemma unsatisfied_same: "same_gvars G G' \<Longrightarrow> unsatisfied G \<Longrightarrow> unsatisfied G'"
  by (simp add: unsatisfied_def same_gvars_def)

lemma newNode_unsatisfied: "newNode G = Some (n, G') \<Longrightarrow> unsatisfied G' = unsatisfied G"
  by (auto simp: newNode_def checkFrozen_def unsatisfied_def Let_def split: if_splits prod.splits)

lemma grow_nodes_unsatisfied: "grow_nodes u w G = Some G' \<Longrightarrow> unsatisfied G' = unsatisfied G"
  by (rule grow_nodes.raw_induct [where P = "\<lambda>u w G G'. unsatisfied G' = unsatisfied G"])
    (auto split: if_splits bind_splits dest: newNode_unsatisfied)

lemma setTheoryVar_unsatisfied: "setTheoryVar sv v S G = Some G' \<Longrightarrow> unsatisfied G' = unsatisfied G"
  by (auto simp: setTheoryVar_def unsatisfied_def split: if_splits option.splits)

lemma gnewVar_unsatisfied:
  assumes "gnewVar sv d True True (S, G) = Some (v, S', G')" "decisionLevel S = 0"
  shows "unsatisfied G' = unsatisfied G"
  using assms
  by (auto simp: gnewVar_def cancelTheory_def Let_def split: option.splits bind_splits prod.splits dest!: setTheoryVar_unsatisfied)
    (auto simp: unsatisfied_def)

lemma newEdge_unsatisfied:
  assumes "newEdge u w sv weight (S, G) = Some (l, S', G')" "decisionLevel S = 0"
  shows "unsatisfied G' = unsatisfied G"
proof -
  from assms(1) obtain H v K where *: "grow_nodes u w G = Some H"
    "gnewVar sv (int (length (edge_list H))) True True (S, H\<lparr>all_edges_unit := (all_edges_unit H \<and> weight = 1),
       all_edges_positive := (all_edges_positive H \<and> weight > 0)\<rparr>) = Some (v, S', K)"
    "satisfied_detectors G' = satisfied_detectors K \<and> n_satisfied_detectors G' = n_satisfied_detectors K \<and> detectors G' = detectors K"
    by (auto simp: newEdge_def Let_def split: bind_splits prod.splits)
  show ?thesis using grow_nodes_unsatisfied [OF *(1)] gnewVar_unsatisfied [OF *(2) assms(2)] *(3) by (simp add: unsatisfied_def)
qed

definition gp_inv :: "GraphProblem \<Rightarrow> bool" where
  "gp_inv P \<longleftrightarrow> in_step (gp_solver P) (gp_theory P) \<and> \<not> theory_satisfied P \<and> unsatisfied (gp_theory P) \<and>
     (\<forall>D. cycle_detector P = Some D \<longrightarrow> det_ok D (gp_theory P))"

lemma gp_inv_problem: "gp_inv P \<Longrightarrow> cycle_detector P = Some D \<Longrightarrow> problem_inv D P"
  by (simp add: gp_inv_def problem_inv_def det_ok_def)

lemma det_ready_grown:
  assumes "det_ready G D" "grown (g_under G) (g_under G')" "grown (g_over G) (g_over G')"
  shows "det_ready G' D"
  using assms cycle_ready_grow by (auto simp: det_ready_def grown_def getCurrentHistory_def changed_def)

lemma det_ok_grown:
  assumes "det_ok D G" "grown (g_under G) (g_under G')" "grown (g_over G) (g_over G')" "gvars G' = gvars G @ ds"
    "length (detectors G) \<le> length (detectors G')"
  shows "det_ok D G'"
  using assms det_ready_grown [OF _ assms(2,3)] by (fastforce simp: det_ok_def lits_ok_def nth_append)

lemma det_ok_status:
  assumes "det_ok D G" "same_gvars G G'" "synced G"
  shows "det_ok D G'"
proof -
  have gv: "gvars G' = gvars G" "length (detectors G') = length (detectors G)"
    "status_step (g_under G) (g_under G')" "status_step (g_over G) (g_over G')"
    using assms(2) by (simp_all add: same_gvars_def)
  have "cycle_ready (g_under G') c" if "cycle_ready (g_under G) c" for c
    by (rule cycle_ready_status [OF that syncedD(1) [OF assms(3)] gv(3)])
  moreover have "cycle_ready (g_over G') c" if "cycle_ready (g_over G) c" for c
    by (rule cycle_ready_status [OF that syncedD(2) [OF assms(3)] gv(4)])
  ultimately show ?thesis using assms(1) gv(1,2) by (simp add: det_ok_def lits_ok_def det_ready_def)
qed

definition problem_newEdge :: "nat \<Rightarrow> nat \<Rightarrow> int \<Rightarrow> int \<Rightarrow> GraphProblem \<Rightarrow> (Lit \<times> GraphProblem) option" where
  "problem_newEdge u w sv weight P = do {
     (l, S, G) \<leftarrow> newEdge u w sv weight (gp_solver P, gp_theory P);
     Some (l, P\<lparr>gp_solver := S, gp_theory := G\<rparr>)
   }"

lemma problem_newEdge_correct:
  assumes inv: "gp_inv P" and fr: "\<not> frozen (gp_theory P)" "decisionLevel (gp_solver P) = 0" "free_var sv (gp_solver P) (gp_theory P)"
  defines "n \<equiv> length (gvars (gp_theory P))"
  obtains P' where "problem_newEdge u w sv weight P = Some (mkLit (int n) False, P')" "gp_inv P'" "gp_solver P' = gp_solver P"
    "\<not> frozen (gp_theory P')" "cycle_detector P' = cycle_detector P"
    "\<exists>e. edge_list (gp_theory P') = edge_list (gp_theory P) @ [e] \<and> ge_v e = int n \<and> ge_from e = int u \<and> ge_to e = int w"
    "theory_vars (gp_theory P') = (sv, int n) # theory_vars (gp_theory P)" "gassigns (gp_theory P') = gassigns (gp_theory P) @ [l_Undef]"
proof -
  define S where "S = gp_solver P"
  define G where "G = gp_theory P"
  have st: "in_step S G" using inv by (simp add: gp_inv_def S_def G_def)
  obtain Ls where g: "gt_inv G Ls []" using st by (auto simp: in_step_def)
  note f = fr [folded S_def G_def]
  note ff = free_var_facts [OF f(3,2)]
  have ok: "aux_ok G" "\<not> lazy_backtracking_enabled G" "map_of (theory_vars G) (edge_solver_var sv S) = None"
    using st f(3) ff(1) by (simp_all add: in_step_def free_var_def)
  note E = newEdge_correct [OF _ ok(1) f(1) ok(2,3), of _ _ u w weight, unfolded ff f(2), simplified]
  obtain G' d e where G': "newEdge u w sv weight (S, G) = Some (mkLit (int (length (gvars G))) False, S, G')" "aux_ok G'"
     "edge_list G' = edge_list G @ [e]" "ge_v e = int (length (gvars G))" "ge_from e = int u" "ge_to e = int w"
     "gvars G' = gvars G @ [d]" "solverVar d = sv" "theory_vars G' = (sv, int (length (gvars G))) # theory_vars G"
     "gassigns G' = gassigns G @ [l_Undef]" "grown (g_under G) (g_under G')" "grown (g_over G) (g_over G')"
     "opt_lazy_backtrack G' = opt_lazy_backtrack G" "\<not> lazy_backtracking_enabled G'" "\<not> frozen G'"
     "length (detectors G') = length (detectors G)"
    using E [OF g] by auto
  have "gt_inv G' Ks []" if "gt_inv G Ks []" for Ks
    using E [OF that] G'(1) by auto
  then have "in_step S G'"
    by (intro in_step_add_var [OF st f(3) G'(7,8,10,9,2,13)]) (use G'(14) ok(2) in simp_all)
  moreover have "det_ok D G'" if "cycle_detector P = Some D" for D
    using det_ok_grown [OF _ G'(11,12,7)] inv that G'(16) by (simp add: gp_inv_def G_def)
  moreover have "unsatisfied G'" using newEdge_unsatisfied [OF G'(1) f(2)] inv by (simp add: gp_inv_def G_def)
  ultimately have "gp_inv (P\<lparr>gp_solver := S, gp_theory := G'\<rparr>)" using inv by (simp add: gp_inv_def)
  moreover have "problem_newEdge u w sv weight P = Some (mkLit (int (length (gvars G))) False, P\<lparr>gp_solver := S, gp_theory := G'\<rparr>)"
    using G'(1) by (simp add: problem_newEdge_def S_def G_def)
  ultimately show ?thesis using that G'(3-6,9,10,15) by (simp add: S_def G_def n_def)
qed


lemma invalidate_facts:
  assumes "wf_graph g"
  shows "wf_graph (invalidate g)" "same_topology g (invalidate g)" "edge_status (invalidate g) = edge_status g" "grown g (invalidate g)"
  using status_op_effect [OF status_op.invalidate assms] by (simp_all add: invalidate_def grown_def)

lemma synced_same_graphs:
  assumes syn: "synced G" and G': "gvars G' = gvars G" "gassigns G' = gassigns G" "edge_list G' = edge_list G" "default_options G'"
      "length (detectors G) \<le> length (detectors G')"
    and gu: "wf_graph (g_under G')" "same_topology (g_under G) (g_under G')" "edge_status (g_under G') = edge_status (g_under G)"
    and go: "wf_graph (g_over G')" "same_topology (g_over G) (g_over G')" "edge_status (g_over G') = edge_status (g_over G)"
  shows "synced G'"
proof -
  have d: "declares (g_under G') = declares (g_under G)" "declares (g_over G') = declares (g_over G)"
    using same_topology_declares gu(2) go(2) by auto
  have "edge_synced G' j" if "j < length (edge_list G')" for j
    using syncedD(7) [OF syn, of j] that unfolding edge_synced_def d gu(3) go(3) G'(1-3) by simp
  moreover have "var_ok G' v" if "v < length (gvars G')" for v
    using syncedD(8) [OF syn, of v] that G' by (auto simp: var_ok_def)
  ultimately show ?thesis using syn G' gu(1,2) go(1,2) by (simp add: synced_def same_topology_def)
qed

lemma set_acyclic_lit_simps [simp]:
  "acyclic_lit u (set_acyclic_lit v l D) = (if u = v then l else acyclic_lit u D)" "cd_ID (set_acyclic_lit v l D) = cd_ID D"
  "under_cycle u (set_acyclic_lit v l D) = under_cycle u D" "over_cycle u (set_acyclic_lit v l D) = over_cycle u D"
  by (auto simp: acyclic_lit_def set_acyclic_lit_def under_cycle_def over_cycle_def split: option.split)

text \<open>The first literal of a kind: a new variable of the detector, on graphs that every algorithm takes as changed.\<close>

lemma addAcyclicLit_correct:
  assumes st: "in_step (gp_solver P) (gp_theory P)" and det: "det_ok D (gp_theory P)" and nu: "acyclic_lit (\<not> directed) D = lit_Undef"
    and fr: "decisionLevel (gp_solver P) = 0" "free_var sv (gp_solver P) (gp_theory P)"
  defines "n \<equiv> length (gvars (gp_theory P))"
  obtains G' where "addAcyclicLit directed sv (D, P) =
      Some (mkLit (int n) False, set_acyclic_lit (\<not> directed) (mkLit (int n) False) D, P\<lparr>gp_theory := G'\<rparr>)"
    "in_step (gp_solver P) G'" "det_ok (set_acyclic_lit (\<not> directed) (mkLit (int n) False) D) G'"
    "edge_list G' = edge_list (gp_theory P)" "frozen G' = frozen (gp_theory P)" "solverVar (gvars G' ! n) = sv" "n < length (gvars G')"
    "unsatisfied G' = unsatisfied (gp_theory P)" "gassigns G' = gassigns (gp_theory P) @ [l_Undef]"
    "theory_vars G' = (sv, int n) # theory_vars (gp_theory P)"
proof -
  define S where "S = gp_solver P"
  define G where "G = gp_theory P"
  define H where "H = G\<lparr>g_under := invalidate (g_under G), g_over := invalidate (g_over G)\<rparr>"
  have syn: "synced G" using in_step_synced [OF st] by (simp add: G_def)
  note u = invalidate_facts [OF syncedD(1) [OF syn]] and o = invalidate_facts [OF syncedD(2) [OF syn]]
  have synH: "synced H"
    by (rule synced_same_graphs [OF syn]) (use u o syncedD(4) [OF syn] in \<open>simp_all add: H_def\<close>)
  have nn: "nNodes H = nNodes G" using u(2) by (simp add: H_def nNodes_def nodes_def same_topology_def)
  have gtH: "gt_inv H Ls []" if "gt_inv G Ls []" for Ls using that synH by (simp add: gt_inv_def) (simp add: H_def)
  have stH: "in_step S H"
    using st gtH nn unfolding S_def [symmetric] G_def [symmetric] in_step_def aux_ok_def
    by (auto simp: H_def levels_ok_def level_ok_def linked_def)
  have fv: "free_var sv S H" "decisionLevel S = 0" using fr by (simp_all add: free_var_def H_def S_def G_def)
  note ff = free_var_facts [OF fv]
  have cd: "cd_ID D < length (detectors H)" using det by (simp add: det_ok_def H_def G_def)
  have ok: "aux_ok H" "\<not> lazy_backtracking_enabled H" "map_of (theory_vars H) (edge_solver_var sv S) = None"
    using stH fv(1) ff(1) by (simp_all add: in_step_def free_var_def)
  obtain Ls where g: "gt_inv H Ls []" using stH by (auto simp: in_step_def)
  define d where "d = \<lparr>gisEdge = False, gisBV = False, gisTheoryVar = False, gisSatisfied = False,
                       detector_edge = int (cd_ID D), solverVar = sv, theory_var = var_Undef\<rparr>"
  define G2 where "G2 ds = H\<lparr>gvars := gvars H @ [d], tstate := (tstate H)\<lparr>ttrail := ttrail (tstate H) @ [Trail_default]\<rparr>,
        gassigns := gassigns H @ [l_Undef], theory_vars := (sv, int (length (gvars H))) # theory_vars H, detectors := ds\<rparr>" for ds
  obtain H' ds where nv: "gnewVar sv (int (cd_ID D)) False True (S, H) = Some (int (length (gvars H)), new_solver sv S,
      H'\<lparr>gvars := gvars H @ [\<lparr>gisEdge = False, gisBV = False, gisTheoryVar = False, gisSatisfied = False,
                       detector_edge = int (cd_ID D), solverVar = edge_solver_var sv S, theory_var = var_Undef\<rparr>],
        tstate := (tstate H')\<lparr>ttrail := ttrail (tstate H') @ [Trail_default]\<rparr>,
        gassigns := gassigns H' @ [l_Undef], theory_vars := new_theory_vars (edge_solver_var sv S) (new_solver sv S) H,
        detectors := ds\<rparr>)" "length ds = length (detectors H)" "decisionLevel S = 0 \<longrightarrow> H' = H"
    by (rule gnewVar_new [OF g ok(2,3), of False "cd_ID D"]) (use cd in auto)
  have "H' = H" using nv(3) fv(2) by simp
  then have ds: "gnewVar sv (int (cd_ID D)) False True (S, H) = Some (int (length (gvars H)), S, G2 ds)" "length ds = length (detectors H)"
    using nv(1,2) unfolding ff by (simp_all add: G2_def d_def)
  have n: "n = length (gvars H)" by (simp add: n_def H_def G_def)
  have syn2: "synced (G2 ds)"
    by (rule synced_add_var [OF synH, where d = d and i = "cd_ID D"])
      (use syncedD(1,2,4) [OF synH] ds(2) cd in \<open>simp_all add: G2_def d_def default_options_def same_topology_def\<close>)
  have "in_step S (G2 ds)"
  proof (rule in_step_add_var [OF stH fv(1), where d = d])
    show "aux_ok (G2 ds)" using ok(1) by (simp add: aux_ok_def G2_def nNodes_def)
    show "gt_inv (G2 ds) Ks []" if "gt_inv H Ks []" for Ks
      by (rule gt_inv_add_edge [OF that syn2]) (simp_all add: G2_def)
  qed (simp_all add: G2_def d_def)
  moreover have "det_ok (set_acyclic_lit (\<not> directed) (mkLit (int n) False) D) (G2 ds)"
  proof -
    have gr: "grown (g_under G) (g_under (G2 ds))" "grown (g_over G) (g_over (G2 ds))" using u(4) o(4) by (simp_all add: G2_def H_def)
    have "det_ok D (G2 ds)"
      by (rule det_ok_grown [of D G]) (use gr det ds(2) in \<open>simp_all add: G_def [symmetric], simp_all add: G2_def H_def\<close>)
    moreover have "length (gvars H) < length (gvars (G2 ds))" "\<not> gisEdge (gvars (G2 ds) ! length (gvars H))"
      by (simp_all add: G2_def d_def)
    ultimately show ?thesis
      unfolding n det_ok_def lits_ok_def det_ready_def set_acyclic_lit_simps by metis
  qed
  moreover have "addAcyclicLit directed sv (D, P) =
      Some (mkLit (int n) False, set_acyclic_lit (\<not> directed) (mkLit (int n) False) D, P\<lparr>gp_theory := G2 ds\<rparr>)"
    using nu ds(1) by (simp add: addAcyclicLit_def problem_newVar_def G_def [symmetric] S_def [symmetric] H_def [symmetric] n)
      (simp add: S_def Let_def)
  ultimately show ?thesis
    using that [of "G2 ds"] ds(2) by (simp add: S_def n) (simp add: G2_def H_def G_def d_def unsatisfied_def)
qed

text \<open>A new detector may be asked about any graph.\<close>

lemma CycleDetector_new_ok:
  assumes "in_step (gp_solver P) (gp_theory P)" "CycleDetector_new (length (detectors (gp_theory P))) P = (D, P1)" "P2 = addDetector D P1"
  shows "in_step (gp_solver P2) (gp_theory P2)" "det_ok D (gp_theory P2)" "acyclic_lit u D = lit_Undef" "gp_solver P2 = gp_solver P"
    "theory_satisfied P2 = theory_satisfied P" "edge_list (gp_theory P2) = edge_list (gp_theory P)"
    "frozen (gp_theory P2) = frozen (gp_theory P)" "theory_vars (gp_theory P2) = theory_vars (gp_theory P)"
    "gvars (gp_theory P2) = gvars (gp_theory P)" "unsatisfied (gp_theory P) \<Longrightarrow> unsatisfied (gp_theory P2)"
    "gassigns (gp_theory P2) = gassigns (gp_theory P)"
proof -
  let ?G = "gp_theory P"
  have D: "cd_ID D = length (detectors ?G)" "underapprox_directed D = Cycle_DFS True True DFSCycle_init"
    "overapprox_directed D = Cycle_DFS True True DFSCycle_init" "underapprox_undirected D = None" "overapprox_undirected D = None"
    "undirected_acyclic_lit D = lit_Undef" "directed_acyclic_lit D = lit_Undef"
    and P1: "gp_solver P1 = gp_solver P" "gp_theory P1 = ?G" "theory_satisfied P1 = theory_satisfied P"
    using assms(2) by (auto simp: CycleDetector_new_def newReasonMarker_def makeMarkerReference_def Let_def)
  define H where "H = ?G\<lparr>detectors := detectors ?G @ [\<lparr>detectorID = cd_ID D, unassigned_positives = 0,
              unassigned_negatives = 0\<rparr>], satisfied_detectors := satisfied_detectors ?G @ [False]\<rparr>"
  have P2: "gp_solver P2 = gp_solver P" "gp_theory P2 = H" "theory_satisfied P2 = theory_satisfied P"
    using assms(3) P1 by (simp_all add: addDetector_def H_def Let_def)
  have syn: "synced ?G" by (rule in_step_synced [OF assms(1)])
  have synH: "synced H"
    by (rule synced_same_graphs [OF syn]) (use syncedD(1,2,4) [OF syn] in \<open>simp_all add: H_def same_topology_def default_options_def\<close>)
  have gtH: "gt_inv H Ls []" if "gt_inv ?G Ls []" for Ls using that synH by (simp add: gt_inv_def) (simp add: H_def)
  show "in_step (gp_solver P2) (gp_theory P2)"
    using assms(1) gtH unfolding P2 in_step_def aux_ok_def by (auto simp: H_def levels_ok_def level_ok_def linked_def nNodes_def)
  show "acyclic_lit u D = lit_Undef" using D by (simp add: acyclic_lit_def)
  show "det_ok D (gp_theory P2)"
    unfolding P2 using D by (auto simp: det_ok_def lits_ok_def acyclic_lit_def det_ready_def under_cycle_def over_cycle_def H_def
        getCurrentHistory_def DFSCycle_init_def dfs_ready_def)
  show "gp_solver P2 = gp_solver P" "theory_satisfied P2 = theory_satisfied P" "edge_list (gp_theory P2) = edge_list ?G"
    "frozen (gp_theory P2) = frozen ?G" "theory_vars (gp_theory P2) = theory_vars ?G" "gvars (gp_theory P2) = gvars ?G"
    "gassigns (gp_theory P2) = gassigns ?G"
    by (simp_all add: P2) (simp_all add: H_def)
  show "unsatisfied (gp_theory P2)" if "unsatisfied ?G"
    using that by (simp add: P2 unsatisfied_def) (simp add: H_def replicate_append_same)
qed

lemma acyclic_gt_correct:
  assumes inv: "gp_inv P" and new: "\<not> hasAcyclic directed P"
    and fr: "decisionLevel (gp_solver P) = 0" "free_var sv (gp_solver P) (gp_theory P)"
  obtains P' where "acyclic_gt sv directed P = Some (mkLit sv False, P')" "gp_inv P'" "hasAcyclic directed P'"
    "gp_solver P' = gp_solver P" "edge_list (gp_theory P') = edge_list (gp_theory P)" "frozen (gp_theory P') = frozen (gp_theory P)"
    "gassigns (gp_theory P') = gassigns (gp_theory P) @ [l_Undef]"
    "theory_vars (gp_theory P') = (sv, int (length (gvars (gp_theory P)))) # theory_vars (gp_theory P)"
proof -
  have st: "in_step (gp_solver P) (gp_theory P)" "\<not> theory_satisfied P" "unsatisfied (gp_theory P)" using inv by (simp_all add: gp_inv_def)
  define DP where "DP = (case cycle_detector P of Some D \<Rightarrow> (D, P)
     | None \<Rightarrow> let (D, P) = CycleDetector_new (length (detectors (gp_theory P))) P in (D, addDetector D P))"
  obtain D P2 where DP: "DP = (D, P2)" by (cases DP)
  have "in_step (gp_solver P2) (gp_theory P2) \<and> det_ok D (gp_theory P2) \<and> acyclic_lit (\<not> directed) D = lit_Undef \<and>
      gp_solver P2 = gp_solver P \<and> \<not> theory_satisfied P2 \<and> edge_list (gp_theory P2) = edge_list (gp_theory P) \<and>
      frozen (gp_theory P2) = frozen (gp_theory P) \<and> theory_vars (gp_theory P2) = theory_vars (gp_theory P) \<and>
      unsatisfied (gp_theory P2) \<and> gassigns (gp_theory P2) = gassigns (gp_theory P) \<and> gvars (gp_theory P2) = gvars (gp_theory P)"
  proof (cases "cycle_detector P")
    case None
    obtain D' P1 where new: "CycleDetector_new (length (detectors (gp_theory P))) P = (D', P1)" by (cases "CycleDetector_new (length (detectors (gp_theory P))) P")
    then have eq: "D = D'" "P2 = addDetector D' P1" using DP None by (auto simp: DP_def)
    show ?thesis
      unfolding eq(1) using CycleDetector_new_ok(1,2,4,6-8) [OF st(1) new eq(2)] CycleDetector_new_ok(3,5,9-11) [OF st(1) new eq(2)] st(2,3)
      by blast
  next
    case (Some E)
    then have "D = E" "P2 = P" using DP by (simp_all add: DP_def)
    then show ?thesis
      using inv new Some by (auto simp: gp_inv_def hasAcyclic_def hasAcyclicLit_def acyclic_lit_def split: if_splits)
  qed
  then have P2: "in_step (gp_solver P2) (gp_theory P2)" "det_ok D (gp_theory P2)" "acyclic_lit (\<not> directed) D = lit_Undef"
    "gp_solver P2 = gp_solver P" "\<not> theory_satisfied P2" "edge_list (gp_theory P2) = edge_list (gp_theory P)"
    "frozen (gp_theory P2) = frozen (gp_theory P)" "theory_vars (gp_theory P2) = theory_vars (gp_theory P)"
    "unsatisfied (gp_theory P2)" "gassigns (gp_theory P2) = gassigns (gp_theory P)" "gvars (gp_theory P2) = gvars (gp_theory P)" by blast+
  let ?n = "length (gvars (gp_theory P2))"
  have fv: "decisionLevel (gp_solver P2) = 0" "free_var sv (gp_solver P2) (gp_theory P2)"
    using fr P2(4,8) by (simp_all add: free_var_def)
  obtain G' where G': "addAcyclicLit directed sv (D, P2) =
      Some (mkLit (int ?n) False, set_acyclic_lit (\<not> directed) (mkLit (int ?n) False) D, P2\<lparr>gp_theory := G'\<rparr>)"
    "in_step (gp_solver P2) G'" "det_ok (set_acyclic_lit (\<not> directed) (mkLit (int ?n) False) D) G'"
    "edge_list G' = edge_list (gp_theory P2)" "frozen G' = frozen (gp_theory P2)" "solverVar (gvars G' ! ?n) = sv" "?n < length (gvars G')"
    "unsatisfied G' = unsatisfied (gp_theory P2)" "gassigns G' = gassigns (gp_theory P2) @ [l_Undef]"
    "theory_vars G' = (sv, int ?n) # theory_vars (gp_theory P2)"
    by (rule addAcyclicLit_correct [OF P2(1-3) fv])
  define P' where "P' = P2\<lparr>gp_theory := G', cycle_detector := Some (set_acyclic_lit (\<not> directed) (mkLit (int ?n) False) D)\<rparr>"
  have "acyclic_gt sv directed P = Some (mkLit sv False, P')"
    using G'(1,6,7) by (simp add: acyclic_gt_def DP_def [symmetric] DP toSolver_lit_def P'_def)
  moreover have "gp_inv P'" using G'(2,3,8) P2(5,9) by (simp add: gp_inv_def P'_def)
  moreover have "hasAcyclic directed P'" by (cases directed) (simp_all add: hasAcyclic_def hasAcyclicLit_def P'_def set_acyclic_lit_def)
  ultimately show ?thesis using that G'(4,5,9,10) P2(4,6-8,10,11) by (simp add: P'_def)
qed

subsection \<open>The whole of \<open>propagate\<close>\<close>

lemma half_outcomeD:
  assumes "half_outcome u D P r D' P'"
  shows "problem_inv D' P'" "\<And>v. acyclic_lit v D' = acyclic_lit v D" "same_gvars (gp_theory P) (gp_theory P')"
    "g_under (gp_theory P') = g_under (gp_theory P)" "g_over (gp_theory P') = g_over (gp_theory P)"
    "\<And>x b. x < length (gvars (gp_theory P)) \<Longrightarrow> tri (gassigns (gp_theory P) ! x) = Some b \<Longrightarrow> tri (gassigns (gp_theory P') ! x) = Some b"
    "\<And>\<tau>. extends (gp_theory P) \<tau> \<Longrightarrow> admissible (gp_theory P) D \<tau> \<Longrightarrow> extends (gp_theory P') \<tau>"
    "r = Some c \<Longrightarrow> conflicting (gp_theory P') D' c" "r = None \<Longrightarrow> decided u (gp_theory P') D'"
  using assms unfolding half_outcome_def by (blast, blast, blast, blast, blast, blast, blast, auto)

lemma admissible_cong:
  assumes "g_over G' = g_over G" "edge_list G' = edge_list G" "\<And>v. acyclic_lit v D' = acyclic_lit v D"
  shows "admissible G' D' = admissible G D"
  using assms by (simp add: admissible_def true_arcs_def fun_eq_iff)

text \<open>Values are only added.\<close>

definition values_kept :: "GraphTheory \<Rightarrow> GraphTheory \<Rightarrow> bool" where
  "values_kept G G' \<longleftrightarrow> gvars G' = gvars G \<and> edge_list G' = edge_list G \<and>
     (\<forall>x < length (gvars G). \<forall>b. tri (gassigns G ! x) = Some b \<longrightarrow> tri (gassigns G' ! x) = Some b)"

lemma values_kept_trans: "values_kept G H \<Longrightarrow> values_kept H K \<Longrightarrow> values_kept G K"
  by (simp add: values_kept_def)

definition outcome :: "CycleDetector \<Rightarrow> GraphProblem \<Rightarrow> Lit list option \<Rightarrow> CycleDetector \<Rightarrow> GraphProblem \<Rightarrow> bool" where
  "outcome D P r D' P' \<longleftrightarrow> problem_inv D' P' \<and> (\<forall>v. acyclic_lit v D' = acyclic_lit v D) \<and>
     same_gvars (gp_theory P) (gp_theory P') \<and> values_kept (gp_theory P) (gp_theory P') \<and>
     admissible (gp_theory P') D' = admissible (gp_theory P) D \<and>
     (\<forall>\<tau>. extends (gp_theory P) \<tau> \<and> admissible (gp_theory P) D \<tau> \<longrightarrow> extends (gp_theory P') \<tau>) \<and>
     (case r of Some c \<Rightarrow> conflicting (gp_theory P') D' c | None \<Rightarrow> \<forall>u. decided u (gp_theory P') D')"

lemma propagate_cd_correct:
  assumes inv: "problem_inv D P"
  obtains r D' P' where "propagate_cd (D, P) = Some (r, D', P')" "outcome D P r D' P'"
proof -
  obtain r1 D1 P1 where h1: "propagate_half False (D, P) = Some (r1, D1, P1)" "half_outcome False D P r1 D1 P1"
    by (rule propagate_half_correct [OF inv])
  note d1 = half_outcomeD [OF h1(2)]
  have el1: "edge_list (gp_theory P1) = edge_list (gp_theory P)" "gvars (gp_theory P1) = gvars (gp_theory P)"
    using d1(3) by (simp_all add: same_gvars_def)
  have ad1: "admissible (gp_theory P1) D1 = admissible (gp_theory P) D" by (rule admissible_cong [OF d1(5) el1(1) d1(2)])
  have k1: "values_kept (gp_theory P) (gp_theory P1)" using d1(6) el1 by (simp add: values_kept_def)
  show ?thesis
  proof (cases r1)
    case (Some c)
    have "outcome D P r1 D1 P1"
      unfolding outcome_def using d1(1-3,7) d1(8) [OF Some] ad1 Some k1 by simp
    moreover have "propagate_cd (D, P) = Some (r1, D1, P1)" using h1(1) Some by (simp add: propagate_cd_def)
    ultimately show ?thesis using that by blast
  next
    case None
    obtain r2 D2 P2 where h2: "propagate_half True (D1, P1) = Some (r2, D2, P2)" "half_outcome True D1 P1 r2 D2 P2"
      by (rule propagate_half_correct [OF d1(1)])
    note d2 = half_outcomeD [OF h2(2)]
    have el2: "edge_list (gp_theory P2) = edge_list (gp_theory P1)" using d2(3) by (simp add: same_gvars_def)
    have "values_kept (gp_theory P1) (gp_theory P2)" using d2(3,6) el2 by (simp add: values_kept_def same_gvars_def)
    then have k2: "values_kept (gp_theory P) (gp_theory P2)" using k1 values_kept_trans by blast
    have ad2: "admissible (gp_theory P2) D2 = admissible (gp_theory P1) D1" by (rule admissible_cong [OF d2(5) el2 d2(2)])
    have "decided False (gp_theory P2) D2"
    proof -
      have "lits_ok (gp_theory P1) D1" using d1(1) by (simp add: problem_inv_def)
      then have "v < length (gvars (gp_theory P1))" if "acyclic_lit False D1 = mkLit (int v) False" for v
        using that by (metis lits_ok_def mkLit_int_inject mkLit_not_Undef)
      then show ?thesis using d1(9) [OF None] d2(6) unfolding decided_def d2(2,4,5) by blast
    qed
    then have "outcome D P r2 D2 P2"
      unfolding outcome_def
      using d2(1) d1(2) d2(2) same_gvars_trans [OF d1(3) d2(3)] ad1 ad2 d1(7) d2(7) d2(8) d2(9) k2
      by (auto split: option.split) (metis (full_types))
    moreover have "propagate_cd (D, P) = Some (r2, D2, P2)" using h1(1) h2(1) None by (simp add: propagate_cd_def)
    ultimately show ?thesis using that by blast
  qed
qed

lemma checkSatisfied_half_correct:
  assumes syn: "synced G" and a: "acyclic_lit u D = mkLit (int v) False" "v < length (gvars G)"
  shows "checkSatisfied_half u G D = Some (case tri (gassigns G ! v) of None \<Rightarrow> True
     | Some b \<Rightarrow> b = (\<not> (\<exists>c. is_cycle u (arcs (g_under G)) c)))"
proof -
  obtain val where val: "gvalue G (mkLit (int v) False) = Some val" "wf_lbool val" "tri val = tri (gassigns G ! v)"
    by (rule gvalue_lit [OF syn a(2), of False]) (simp add: option.map_ident)
  have "supports u (Cycle_DFS (\<not> u) u DFSCycle_init) \<and> cycle_ready (g_under G) (Cycle_DFS (\<not> u) u DFSCycle_init)"
    by simp (simp add: DFSCycle_init_def)
  from cyc.has_correct [OF syncedD(1) [OF syn] this] obtain c where
    "hasCycle u (g_under G) (Cycle_DFS (\<not> u) u DFSCycle_init) = Some (\<exists>c. is_cycle u (arcs (g_under G)) c, c)" by blast
  then show ?thesis
    using val a(1) by (cases "tri (gassigns G ! v)") (auto simp: checkSatisfied_half_def)
qed

lemma checkSatisfied_correct:
  assumes "synced G" "lits_ok G D"
  shows "checkSatisfied G D = Some (\<forall>u v b. acyclic_lit u D = mkLit (int v) False \<and> tri (gassigns G ! v) = Some b \<longrightarrow>
     b = (\<not> (\<exists>c. is_cycle u (arcs (g_under G)) c)))"
proof -
  have half: "checkSatisfied_half u G D = Some (\<forall>v b. acyclic_lit u D = mkLit (int v) False \<and> tri (gassigns G ! v) = Some b \<longrightarrow>
     b = (\<not> (\<exists>c. is_cycle u (arcs (g_under G)) c)))" for u
  proof (cases "acyclic_lit u D = lit_Undef")
    case True
    then have "acyclic_lit u D \<noteq> mkLit (int v) False" for v by (metis mkLit_not_Undef)
    then show ?thesis using True by (simp add: checkSatisfied_half_def)
  next
    case False
    then obtain v where "acyclic_lit u D = mkLit (int v) False" "v < length (gvars G)" using assms(2) by (auto simp: lits_ok_def)
    then show ?thesis using checkSatisfied_half_correct [OF assms(1)] by (auto split: option.splits)
  qed
  show ?thesis unfolding checkSatisfied_def half by (auto simp: all_bool_eq)
qed

lemma decided_complete:
  assumes syn: "synced G" and full: "\<forall>i < length (edge_list G). tri (gassigns G ! nat (ge_v (edge_list G ! i))) \<noteq> None"
    and dec: "decided u G D" "acyclic_lit u D = mkLit (int v) False"
  shows "tri (gassigns G ! v) = Some (\<not> (\<exists>c. is_cycle u (arcs (g_under G)) c))"
proof -
  have "arcs (g_over G) \<subseteq> arcs (g_under G)"
  proof clarify
    fix x i y assume a: "(x, i, y) \<in> arcs (g_over G)"
    then have d: "declares (g_over G) i x y" "edge_status (g_over G) ! i" by (simp_all add: arcs_def)
    have i: "i < length (edge_list G)" using wf_graph_declares(3) [OF syncedD(2) [OF syn] d(1)] syncedD(6) [OF syn] by simp
    from syncedD(7) [OF syn i] obtain z p q where e: "ge_v (edge_list G ! i) = int z" "declares (g_under G) i p q" "declares (g_over G) i p q"
      "edge_status (g_under G) ! i \<longleftrightarrow> tri (gassigns G ! z) = Some True" "edge_status (g_over G) ! i \<longleftrightarrow> tri (gassigns G ! z) \<noteq> Some False"
      by (auto simp: edge_synced_def)
    have "tri (gassigns G ! z) = Some True" using full i e(1,5) d(2) by (cases "tri (gassigns G ! z)") auto
    moreover have "declares (g_under G) i x y" using e(2,3) d(1) declares_unique by blast
    moreover have "i < length (edge_status (g_under G))" using i syncedD(5) [OF syn] wf_graph_lengths(5) [OF syncedD(1) [OF syn]] by simp
    ultimately show "(x, i, y) \<in> arcs (g_under G)" using e(4) by (simp add: arcs_def)
  qed
  then have "(\<exists>c. is_cycle u (arcs (g_over G)) c) \<longrightarrow> (\<exists>c. is_cycle u (arcs (g_under G)) c)" using cyc.cyc_mono by blast
  then show ?thesis using dec unfolding decided_def by (cases "\<exists>c. is_cycle u (arcs (g_under G)) c") auto
qed

lemma in_step_freeze [simp]: "in_step S (freezeGraph G) = in_step S G"
proof -
  have "synced (freezeGraph G) = synced G"
    by (simp add: freezeGraph_def synced_def edge_synced_def var_ok_def default_options_def cong: conj_cong)
  then show ?thesis
    unfolding in_step_def gt_inv_def aux_ok_def levels_ok_def level_ok_def linked_def nNodes_def by (simp add: freezeGraph_def)
qed

lemma propagate_half_ID: "propagate_half u (D, P) = Some (r, D', P') \<Longrightarrow> cd_ID D' = cd_ID D"
  by (auto simp: propagate_half_def buildCycleReason_def Let_def split: if_splits bind_splits prod.splits)

lemma propagate_cd_ID: "propagate_cd (D, P) = Some (r, D', P') \<Longrightarrow> cd_ID D' = cd_ID D"
  by (auto simp: propagate_cd_def split: if_splits bind_splits dest!: propagate_half_ID)

subsection \<open>The propagation of the theory\<close>

text \<open>\<open>cycle_sized\<close>: the vectors of the search have the size of the graph, or the next search will set it, whether or not the
  graph is marked as changed.\<close>

fun cycle_sized :: "DynamicGraph \<Rightarrow> Cycle \<Rightarrow> bool" where
  "cycle_sized g (Cycle_DFS dir und s) \<longleftrightarrow> d_last_modification s \<le> 0 \<or> dfs_sizes g s"

definition det_sized :: "GraphTheory \<Rightarrow> CycleDetector \<Rightarrow> bool" where
  "det_sized G D \<longleftrightarrow> (\<forall>u. cycle_sized (g_under G) (under_cycle u D) \<and> cycle_sized (g_over G) (over_cycle u D))"

lemma dfs_update_sized:
  assumes "wf_graph g" "d_last_modification s \<le> 0 \<or> dfs_sizes g s" "dfs_update dir und g s = Some s'"
  shows "dfs_sizes g s'"
proof (cases "d_last_modification s > 0 \<and> getCurrentHistory g = d_last_modification s")
  case True
  then show ?thesis using assms(2,3) by (auto simp: dfs_update_def dfs_sizes_def)
next
  case False
  let ?s = "if d_last_modification s \<le> 0 \<or> changed g then dfs_setNodes g (nodes g) s else s"
  let ?t = "?s\<lparr>has_undirected_cycle := False, has_directed_cycle := False, d_stats_full_updates := d_stats_full_updates ?s + 1\<rparr>"
  have "dfs_sizes g ?t" using assms(2) by (auto simp: dfs_sizes_def dfs_setNodes_def)
  from computeCycles_correct [OF assms(1) this, of dir und]
  obtain r where "computeCycles dir und g ?t = Some r" "dfs_sizes g r" by auto
  then show ?thesis
    using assms(3) unfolding dfs_update_def Let_def if_not_P [OF False] by (auto simp: dfs_sizes_def)
qed

lemma cycle_sized_search:
  assumes "wf_graph g" "cycle_sized g c"
  shows "hasCycle u g c = Some (b, c') \<Longrightarrow> cycle_sized g c'" "getCycle u g c = Some (es, c') \<Longrightarrow> cycle_sized g c'"
  using assms dfs_update_sized [OF assms(1)]
  by (cases c; cases u; auto simp: hasCycle_def getCycle_def dfs_hasDirectedCycle_def dfs_hasUndirectedCycle_def
      dfs_getDirectedCycle_def dfs_getUndirectedCycle_def split: bind_splits)+

lemma det_sized_set:
  "det_sized G D \<Longrightarrow> cycle_sized (g_under G) c \<Longrightarrow> det_sized G (set_under_cycle u c D)"
  "det_sized G D \<Longrightarrow> cycle_sized (g_over G) c \<Longrightarrow> det_sized G (set_over_cycle u c D)"
  unfolding det_sized_def set_under_cycle_def set_over_cycle_def under_cycle_def over_cycle_def
  by (auto split: option.splits if_splits)

lemma det_sizedD: "det_sized G D \<Longrightarrow> cycle_sized (g_under G) (under_cycle u D)" "det_sized G D \<Longrightarrow> cycle_sized (g_over G) (over_cycle u D)"
  by (simp_all add: det_sized_def)

lemma has_under_sized:
  assumes "synced G" "det_sized G D" "hasCycle u (g_under G) (under_cycle u D) = Some (b, c)"
  shows "det_sized G (set_under_cycle u c D)"
  by (rule det_sized_set(1) [OF assms(2) cycle_sized_search(1) [OF syncedD(1) [OF assms(1)] det_sizedD(1) [OF assms(2)] assms(3)]])

lemma has_over_sized:
  assumes "synced G" "det_sized G D" "hasCycle u (g_over G) (over_cycle u D) = Some (b, c)"
  shows "det_sized G (set_over_cycle u c D)"
  by (rule det_sized_set(2) [OF assms(2) cycle_sized_search(1) [OF syncedD(2) [OF assms(1)] det_sizedD(2) [OF assms(2)] assms(3)]])

lemma buildCycleReason_sized:
  assumes "synced G" "det_sized G D" "buildCycleReason u G D ls = Some (rs, D')"
  shows "det_sized G D'"
proof -
  from assms(3) obtain es a where "getCycle u (g_under G) (under_cycle u D) = Some (es, a)" "D' = set_under_cycle u a D"
    by (auto simp: buildCycleReason_def split: bind_splits)
  then show ?thesis
    using det_sized_set(1) [OF assms(2) cycle_sized_search(2) [OF syncedD(1) [OF assms(1)] det_sizedD(1) [OF assms(2)]]] by blast
qed

lemma propagate_half_sized:
  assumes "synced (gp_theory P)" "det_sized (gp_theory P) D" "propagate_half u (D, P) = Some (r, D', P')"
  shows "det_sized (gp_theory P) D'"
  using assms unfolding propagate_half_def Let_def
  by (auto split: if_split_asm bind_splits prod.splits)
    (blast intro: has_under_sized has_over_sized buildCycleReason_sized)+

lemma propagate_cd_sized:
  assumes inv: "problem_inv D P" and sz: "det_sized (gp_theory P) D" and pr: "propagate_cd (D, P) = Some (r, D', P')"
  shows "det_sized (gp_theory P') D'"
proof -
  have half: "det_sized (gp_theory P') D'" if "problem_inv D P" "det_sized (gp_theory P) D" "propagate_half u (D, P) = Some (r, D', P')"
    for u D P r D' P'
  proof -
    have "half_outcome u D P r D' P'" by (rule propagate_half_correct [OF that(1), of u]) (use that(3) in simp)
    moreover have "synced (gp_theory P)" using that(1) in_step_synced by (auto simp: problem_inv_def)
    ultimately show ?thesis using propagate_half_sized [OF _ that(2,3)] half_outcomeD(4,5) by (simp add: det_sized_def)
  qed
  from pr obtain r1 D1 P1 where h: "propagate_half False (D, P) = Some (r1, D1, P1)"
    "if r1 \<noteq> None then (r1, D1, P1) = (r, D', P') else propagate_half True (D1, P1) = Some (r, D', P')"
    by (auto simp: propagate_cd_def split: if_splits bind_splits)
  have "half_outcome False D P r1 D1 P1" by (rule propagate_half_correct [OF inv, of False]) (use h(1) in simp)
  then have "problem_inv D1 P1" by (rule half_outcomeD(1))
  then show ?thesis using half [OF inv sz h(1)] half [of D1 P1 True] h(2) by (auto split: if_splits)
qed

text \<open>Clearing the histories changes no graph.\<close>

lemma clear_changes_facts:
  "quiet g (clear_changes g)" "getCurrentHistory (clear_changes g) = getCurrentHistory g" "nodes (clear_changes g) = nodes g"
proof -
  have "quiet (clearChanged g) (clear_changes g)" unfolding clear_changes_def by (rule quiet_clearHistory) simp
  then show q: "quiet g (clear_changes g)" using quiet_clearChanged quiet_trans by blast
  have "count_uptodate (\<lambda>_ g. g) ks h = (n, h') \<Longrightarrow> h' = h" for ks h n h'
    by (induction "\<lambda>_::nat. \<lambda>g::DynamicGraph. g" ks h arbitrary: n h' rule: count_uptodate.induct)
      (auto split: if_splits prod.splits simp: Let_def)
  then have "snd (count_uptodate (\<lambda>_ g. g) ks h) = h" for ks h by (metis prod.collapse)
  then show "getCurrentHistory (clear_changes g) = getCurrentHistory g"
    by (simp add: clear_changes_def clearHistory_def clearChanged_def getCurrentHistory_def Let_def case_prod_beta)
  show "nodes (clear_changes g) = nodes g" using q by (simp add: quiet_def same_topology_def nodes_def)
qed

lemma quiet_facts:
  assumes "quiet g g'" "wf_graph g"
  shows "wf_graph g'" "same_topology g g'" "edge_status g' = edge_status g" "num_nodes g' = num_nodes g" "num_edges g' = num_edges g"
    "arcs g' = arcs g" "declares g' = declares g"
proof -
  show t: "same_topology g g'" and "edge_status g' = edge_status g" using assms(1) by (simp_all add: quiet_def)
  then show "num_nodes g' = num_nodes g" "num_edges g' = num_edges g" by (simp_all add: same_topology_def)
  show "wf_graph g'" "arcs g' = arcs g" by (rule wf_quiet [OF assms(2,1)], rule arcs_quiet [OF assms(1)])
  show "declares g' = declares g" using same_topology_declares [OF t] by auto
qed

lemma clear_graphs_step:
  assumes st: "in_step S G"
  shows "in_step S (clear_graphs G)"
proof -
  have syn: "synced G" and aux: "aux_ok G" using st in_step_synced by (auto simp: in_step_def)
  note q = quiet_facts [OF clear_changes_facts(1)]
  have syn': "synced (clear_graphs G)"
    by (rule synced_same_graphs [OF syn]) (use syncedD(1,2,4) [OF syn] q in \<open>simp_all add: clear_graphs_def default_options_def\<close>)
  have gt: "gt_inv (clear_graphs G) Ls []" if "gt_inv G Ls []" for Ls
    using that syn' by (simp add: gt_inv_def) (simp add: clear_graphs_def)
  have "aux_ok (clear_graphs G)"
    using aux q by (simp add: aux_ok_def clear_graphs_def nNodes_def clear_changes_facts(3))
  then show ?thesis
    using st gt unfolding in_step_def by (auto simp: clear_graphs_def levels_ok_def level_ok_def linked_def)
qed

lemma cycle_ready_clear:
  assumes "cycle_ready g c" "cycle_sized g c" "wf_graph g"
  shows "cycle_ready (clear_changes g) c"
proof -
  obtain dir und s where c: "c = Cycle_DFS dir und s" by (cases c)
  show ?thesis
    using assms(1,2) quiet_facts(6) [OF clear_changes_facts(1) assms(3)]
    by (auto simp: c dfs_ready_def dfs_valid_def dfs_sizes_def clear_changes_facts)
qed

lemma det_ok_clear:
  assumes "det_ok D G" "det_sized G D" "synced G"
  shows "det_ok D (clear_graphs G)"
proof -
  have "det_ready (clear_graphs G) D"
    using assms(1,2) cycle_ready_clear [OF _ _ syncedD(1) [OF assms(3)]] cycle_ready_clear [OF _ _ syncedD(2) [OF assms(3)]]
    by (simp add: det_ok_def det_ready_def det_sized_def clear_graphs_def)
  then show ?thesis using assms(1) by (simp add: det_ok_def lits_ok_def) (simp add: clear_graphs_def)
qed

lemma clear_graphs_same [simp]:
  assumes "synced G"
  shows "decided u (clear_graphs G) D = decided u G D" "extends (clear_graphs G) \<tau> = extends G \<tau>"
    "admissible (clear_graphs G) D = admissible G D" "unsatisfied (clear_graphs G) = unsatisfied G"
    "values_kept H (clear_graphs G) = values_kept H G" "lits_ok (clear_graphs G) D = lits_ok G D"
  using quiet_facts(6,7) [OF clear_changes_facts(1) syncedD(1) [OF assms]] quiet_facts(6,7) [OF clear_changes_facts(1) syncedD(2) [OF assms]]
  by (simp_all add: decided_def extends_def admissible_def true_arcs_def clear_graphs_def unsatisfied_def values_kept_def lits_ok_def fun_eq_iff)

lemma freeze_same [simp]:
  "conflicting (freezeGraph G) D c = conflicting G D c" "extends (freezeGraph G) \<tau> = extends G \<tau>"
  "admissible (freezeGraph G) D = admissible G D" "unsatisfied (freezeGraph G) = unsatisfied G"
  "det_ok D (freezeGraph G) = det_ok D G" "det_sized (freezeGraph G) D = det_sized G D"
  "values_kept H (freezeGraph G) = values_kept H G" "lits_ok (freezeGraph G) D = lits_ok G D"
proof -
  have l: "toSolver_lit (freezeGraph G) l = toSolver_lit G l" for l by (simp add: toSolver_lit_def gvar_def freezeGraph_def)
  have "toSolver (freezeGraph G) ls = toSolver G ls" for ls by (induction ls) (simp_all add: l)
  moreover show adm: "admissible (freezeGraph G) D = admissible G D"
    by (simp add: admissible_def true_arcs_def freezeGraph_def fun_eq_iff)
  ultimately show "conflicting (freezeGraph G) D c = conflicting G D c"
    by (simp add: conflicting_def gvalue_def gvalue_var_def) (simp add: freezeGraph_def)
qed (simp_all add: extends_def unsatisfied_def det_ok_def lits_ok_def det_ready_def det_sized_def values_kept_def freezeGraph_def)

lemma clear_graphs_sized [simp]: "det_sized (clear_graphs G) D = det_sized G D" "\<not> requiresPropagation (clear_graphs G)"
proof -
  have "cycle_sized (clear_changes g) c = cycle_sized g c" for g c
    by (cases c) (simp add: dfs_sizes_def clear_changes_facts(3))
  then show "det_sized (clear_graphs G) D = det_sized G D" by (simp add: det_sized_def clear_graphs_def)
qed (simp add: clear_graphs_def)

definition theory_outcome :: "CycleDetector \<Rightarrow> GraphProblem \<Rightarrow> Lit list option \<Rightarrow> CycleDetector \<Rightarrow> GraphProblem \<Rightarrow> bool" where
  "theory_outcome D P r D' P' \<longleftrightarrow> cycle_detector P' = Some D' \<and> in_step (gp_solver P') (gp_theory P') \<and>
     lits_ok (gp_theory P') D' \<and> values_kept (gp_theory P) (gp_theory P') \<and> admissible (gp_theory P') D' = admissible (gp_theory P) D \<and>
     (\<forall>\<tau>. extends (gp_theory P) \<tau> \<and> admissible (gp_theory P) D \<tau> \<longrightarrow> extends (gp_theory P') \<tau>) \<and>
     (case r of Some c \<Rightarrow> conflicting (gp_theory P') D' c \<and> frozen (gp_theory P')
      | None \<Rightarrow> (\<forall>u. decided u (gp_theory P') D') \<and> \<not> requiresPropagation (gp_theory P')) \<and>
     (det_sized (gp_theory P) D \<longrightarrow> gp_inv P' \<and> det_sized (gp_theory P') D')"

lemma propagateTheory_correct:
  assumes inv: "gp_inv P" and D: "cycle_detector P = Some D" and req: "force \<or> requiresPropagation (gp_theory P)"
  obtains r D' P' where "propagateTheory force P = Some (r, P')" "theory_outcome D P r D' P'"
proof -
  have pi: "problem_inv D P" by (rule gp_inv_problem [OF inv D])
  obtain r D' Q where pc: "propagate_cd (D, P) = Some (r, D', Q)" and oc: "outcome D P r D' Q"
    by (rule propagate_cd_correct [OF pi])
  let ?G = "gp_theory P" and ?H = "gp_theory Q"
  have st: "in_step (gp_solver Q) ?H" "\<not> theory_satisfied Q" "synced ?H" "lits_ok ?H D'" "det_ready ?H D'"
    using oc in_step_synced by (auto simp: outcome_def problem_inv_def)
  have un: "unsatisfied ?G" "unsatisfied ?H"
    using inv oc unsatisfied_same by (auto simp: gp_inv_def outcome_def)
  have id: "cd_ID D < length (detectors ?G)" using inv D by (simp add: gp_inv_def det_ok_def)
  have lz: "\<not> opt_lazy_backtrack ?G" "\<not> lazy_backtracking_enabled ?H" using inv st(1) by (simp_all add: gp_inv_def in_step_def)
  have len: "length (detectors ?H) = length (detectors ?G)" using oc by (simp add: outcome_def same_gvars_def)
  have ok: "det_ok D' ?H" using st(4,5) id len propagate_cd_ID [OF pc] by (simp add: det_ok_def)
  have sz: "det_sized ?H D'" if "det_sized ?G D" by (rule propagate_cd_sized [OF pi that pc])
  have pt: "propagateTheory force P = Some (r, (if r \<noteq> None then Q\<lparr>cycle_detector := Some D', gp_theory := freezeGraph ?H\<rparr>
      else Q\<lparr>cycle_detector := Some D', gp_theory := clear_graphs ?H\<rparr>))" (is "_ = Some (r, ?P')")
  proof -
    have ns: "\<not> theoryIsSatisfied ?G" "\<not> theoryIsSatisfied (clear_graphs ?H)"
      using un id len by (auto simp: theoryIsSatisfied_def unsatisfied_def clear_graphs_def)
    have "enable_lazy ?G = ?G" using lz(1) by (simp add: enable_lazy_def)
    moreover have "\<not> length (satisfied_detectors ?G) \<le> cd_ID D" "\<not> satisfied_detectors ?G ! cd_ID D"
      using un(1) id by (simp_all add: unsatisfied_def)
    ultimately show ?thesis
      using ns req D pc lz(2) detector_loop.simps [of P] by (cases r) (auto simp: propagateTheory_def Let_def freezeGraph_def)
  qed
  have ex: "extends ?H \<tau>" if "extends ?G \<tau>" "admissible ?G D \<tau>" for \<tau>
    using oc that by (simp add: outcome_def)
  have "theory_outcome D P r D' ?P'"
  proof (cases r)
    case None
    then have "\<forall>u. decided u ?H D'" using oc by (simp add: outcome_def)
    then show ?thesis
      unfolding theory_outcome_def using None oc ex st un ok sz clear_graphs_step [OF st(1)] det_ok_clear [OF ok _ st(3)] clear_graphs_same [OF st(3)]
      by (simp add: outcome_def gp_inv_def)
  next
    case (Some c)
    then show ?thesis
      unfolding theory_outcome_def using oc ex st un ok sz
      by (simp add: outcome_def gp_inv_def) (simp add: freezeGraph_def)
  qed
  then show ?thesis using that pt by blast
qed

subsection \<open>The life of a problem\<close>

lemma enqueue_other:
  assumes st: "in_step S G" and p: "0 \<le> var p" "nat (var p) < length (assigns S)" and no: "map_of (theory_vars G) (var p) = None"
  shows "in_step (uncheckedEnqueue p r S) G"
proof -
  have ln: "linked S G" using st by (simp add: in_step_def)
  have len: "length (vardata S) = length (assigns S)" using ln by (simp add: linked_def)
  note u = uncheckedEnqueue_facts [OF p len, of r]
  have ne: "solverVar (gvars G ! x) \<noteq> var p" "0 \<le> solverVar (gvars G ! x)" if "x < length (gvars G)" for x
    using linkedD(1,3) [OF ln that] no by auto
  have "linked (uncheckedEnqueue p r S) G" by (rule linked_enqueue [OF ln p]) (use ne in simp_all)
  moreover have "levels_ok (uncheckedEnqueue p r S) G Ls" if "levels_ok S G Ls" for Ls
    using that p(1) level_ok_enqueue [OF _ p len ne] by (auto simp: levels_ok_def u(4,5))
  ultimately show ?thesis using st u(3) by (auto simp: in_step_def)
qed

lemma in_step_new_level:
  assumes st: "in_step S G"
  shows "in_step (newDecisionLevel S) G"
proof -
  have lev: "level (newDecisionLevel S) = level S" by (simp add: newDecisionLevel_def level_def fun_eq_iff)
  have "levels_ok (newDecisionLevel S) G Ls" if ok: "levels_ok S G Ls" for Ls
  proof -
    have "level_ok (newDecisionLevel S) G Ls v" if "level_ok S G Ls v" for v
      using that unfolding level_ok_def Let_def lev by (auto simp: newDecisionLevel_def nth_append)
    then show ?thesis using ok by (auto simp: levels_ok_def newDecisionLevel_def sorted_append)
  qed
  then show ?thesis using st by (auto simp: in_step_def linked_def newDecisionLevel_def) 
qed

text \<open>One step of a problem: a declaration, a decision level, an assignment by the solver, a round of propagation, a
  backtrack, or the end of the declarations.\<close>

inductive gp_step :: "GraphProblem \<Rightarrow> GraphProblem \<Rightarrow> bool" where
  new_node: "newNode (gp_theory P) = Some (n, G) \<Longrightarrow> gp_step P (P\<lparr>gp_theory := G\<rparr>)"
| new_edge: "\<not> frozen (gp_theory P) \<Longrightarrow> decisionLevel (gp_solver P) = 0 \<Longrightarrow> free_var sv (gp_solver P) (gp_theory P) \<Longrightarrow>
    problem_newEdge u w sv weight P = Some (l, P') \<Longrightarrow> gp_step P P'"
| new_acyclic: "\<not> hasAcyclic directed P \<Longrightarrow> decisionLevel (gp_solver P) = 0 \<Longrightarrow> free_var sv (gp_solver P) (gp_theory P) \<Longrightarrow>
    acyclic_gt sv directed P = Some (l, P') \<Longrightarrow> gp_step P P'"
| new_level: "gp_step P (P\<lparr>gp_solver := newDecisionLevel (gp_solver P)\<rparr>)"
| assign: "solver_enqueue p r P = Some (b, P') \<Longrightarrow> gp_step P P'"
| propagate: "cycle_detector P = Some D \<Longrightarrow> det_sized (gp_theory P) D \<Longrightarrow> propagateTheory force P = Some (r, P') \<Longrightarrow>
    gp_step P P'"
| backtrack: "cancelTheory lev (gp_solver P) (gp_theory P) = Some G \<Longrightarrow>
    gp_step P (P\<lparr>gp_solver := cancelUntil lev (gp_solver P), gp_theory := G\<rparr>)"
| freeze: "gp_step P (P\<lparr>gp_theory := freezeGraph (gp_theory P)\<rparr>)"

inductive_cases gp_stepE: "gp_step P P'"

definition gp_reachable :: "Solver \<Rightarrow> GraphProblem \<Rightarrow> bool" where
  "gp_reachable S P \<longleftrightarrow> gp_step\<^sup>*\<^sup>* (GraphProblem_init S) P"

lemma gp_inv_status:
  assumes inv: "gp_inv P" and P': "in_step (gp_solver P') (gp_theory P')" "same_gvars (gp_theory P) (gp_theory P')"
    "theory_satisfied P' = theory_satisfied P" "cycle_detector P' = cycle_detector P"
  shows "gp_inv P'"
  using inv P' det_ok_status [OF _ P'(2)] in_step_synced unsatisfied_same [OF P'(2)] by (auto simp: gp_inv_def)

lemma gp_inv_assign:
  assumes inv: "gp_inv P" and en: "solver_enqueue p r P = Some (b, P')"
  shows "gp_inv P'"
proof -
  have st: "in_step (gp_solver P) (gp_theory P)" "\<not> theory_satisfied P" and ln: "linked (gp_solver P) (gp_theory P)"
    using inv by (simp_all add: gp_inv_def in_step_def)
  have p: "0 \<le> var p" "nat (var p) < length (assigns (gp_solver P))"
    using en by (auto simp: solver_enqueue_def in_range_def Let_def split: if_splits)
  show ?thesis
  proof (cases "lbool_eq (lit_value (gp_solver P) p) l_Undef")
    case False
    then have "P' = P" using en by (auto simp: solver_enqueue_def Let_def split: if_splits)
    then show ?thesis using inv by simp
  next
    case un: True
    then have free: "tri (assigns (gp_solver P) ! nat (var p)) = None"
      using p linked_wf [OF ln p(2)] by (auto simp: lit_value_def in_range_def split: if_splits)
    show ?thesis
    proof (cases "map_of (theory_vars (gp_theory P)) (var p)")
      case None
      then have "P' = P\<lparr>gp_solver := uncheckedEnqueue p (Some r) (gp_solver P)\<rparr>"
        using en un st(2) by (auto simp: solver_enqueue_def notifyTheory_def Let_def split: if_splits)
      then show ?thesis using gp_inv_status [OF inv, of P'] enqueue_other [OF st(1) p None] by simp
    next
      case (Some i)
      then obtain v where v: "v < length (gvars (gp_theory P))" "solverVar (gvars (gp_theory P) ! v) = var p"
        using ln unfolding linked_def by blast
      have "tri (gassigns (gp_theory P) ! v) = None" using linkedD(4) [OF ln v(1)] v(2) free by simp
      then obtain G' where "solver_enqueue p r P = Some (True, P\<lparr>gp_solver := uncheckedEnqueue p (Some r) (gp_solver P), gp_theory := G'\<rparr>)"
        "in_step (uncheckedEnqueue p (Some r) (gp_solver P)) G'" "same_gvars (gp_theory P) G'"
        by (rule solver_enqueue_correct [OF st v(1) _ v(2)])
      then show ?thesis using gp_inv_status [OF inv, of P'] en by simp
    qed
  qed
qed

lemma gp_inv_node:
  assumes inv: "gp_inv P" and G: "newNode (gp_theory P) = Some (n, G)"
  shows "gp_inv (P\<lparr>gp_theory := G\<rparr>)"
proof -
  have st: "in_step (gp_solver P) (gp_theory P)" using inv by (simp add: gp_inv_def)
  have fr: "\<not> frozen (gp_theory P)" using G by (auto simp: newNode_def checkFrozen_def)
  have aux: "aux_ok (gp_theory P)" using st by (simp add: in_step_def)
  have ok: "gt_inv G Ls [] \<and> aux_ok G \<and> gvars G = gvars (gp_theory P) \<and> gassigns G = gassigns (gp_theory P) \<and>
      theory_vars G = theory_vars (gp_theory P) \<and> opt_lazy_backtrack G = opt_lazy_backtrack (gp_theory P) \<and>
      lazy_backtracking_enabled G = lazy_backtracking_enabled (gp_theory P) \<and> length (detectors G) = length (detectors (gp_theory P)) \<and>
      grown (g_under (gp_theory P)) (g_under G) \<and> grown (g_over (gp_theory P)) (g_over G)" if "gt_inv (gp_theory P) Ls []" for Ls
    using newNode_correct [OF that aux fr] G by auto
  from st obtain Ls where Ls: "gt_inv (gp_theory P) Ls []" by (auto simp: in_step_def)
  have "in_step (gp_solver P) G"
    using st ok [OF Ls] ok unfolding in_step_def by (auto simp: levels_ok_def level_ok_def linked_def)
  moreover have "det_ok D G" if "det_ok D (gp_theory P)" for D
    by (rule det_ok_grown [OF that, where ds = "[]"]) (use ok [OF Ls] in simp_all)
  ultimately show ?thesis using inv newNode_unsatisfied [OF G] by (simp add: gp_inv_def)
qed

lemma gp_inv_step: "gp_step P P' \<Longrightarrow> gp_inv P \<Longrightarrow> gp_inv P'"
proof (induction rule: gp_step.induct)
  case (new_node P n G)
  then show ?case by (simp add: gp_inv_node)
next
  case (new_edge P sv u w weight l P')
  show ?case by (rule problem_newEdge_correct [OF new_edge.prems new_edge.hyps(1-3), of u w weight]) (use new_edge.hyps(4) in simp)
next
  case (new_acyclic directed P sv l P')
  show ?case by (rule acyclic_gt_correct [OF new_acyclic.prems new_acyclic.hyps(1-3)]) (use new_acyclic.hyps(4) in simp)
next
  case (new_level P)
  then show ?case using in_step_new_level by (simp add: gp_inv_def)
next
  case (assign p r P b P')
  then show ?case using gp_inv_assign by blast
next
  case (propagate P D force r P')
  show ?case
  proof (cases "force \<or> requiresPropagation (gp_theory P)")
    case True
    obtain s D' Q where "propagateTheory force P = Some (s, Q)" "theory_outcome D P s D' Q"
      by (rule propagateTheory_correct [OF propagate.prems propagate.hyps(1) True])
    then show ?thesis using propagate.hyps(2,3) by (simp add: theory_outcome_def)
  next
    case False
    have "cd_ID D < length (detectors (gp_theory P))" "unsatisfied (gp_theory P)"
      using propagate.prems propagate.hyps(1) by (simp_all add: gp_inv_def det_ok_def)
    then have "\<not> theoryIsSatisfied (gp_theory P)" by (auto simp: theoryIsSatisfied_def unsatisfied_def)
    then show ?thesis using False propagate by (simp add: propagateTheory_def)
  qed
next
  case (backtrack lev P G)
  show ?case
  proof (cases "lev < decisionLevel (gp_solver P)")
    case True
    have "in_step (gp_solver P) (gp_theory P)" using backtrack.prems by (simp add: gp_inv_def)
    from in_step_cancel [OF this True] backtrack.hyps have "in_step (cancelUntil lev (gp_solver P)) G" "same_gvars (gp_theory P) G"
      by (metis option.inject)+
    then show ?thesis using gp_inv_status [OF backtrack.prems] by simp
  next
    case False
    then show ?thesis using backtrack by (simp add: cancelTheory_def cancelUntil_def gp_inv_def)
  qed
next
  case (freeze P)
  have "det_ok D (freezeGraph (gp_theory P)) = det_ok D (gp_theory P)" for D
    by (simp add: det_ok_def freezeGraph_def lits_ok_def det_ready_def)
  moreover have "in_step (gp_solver P) (freezeGraph (gp_theory P)) = in_step (gp_solver P) (gp_theory P)"
    by simp
  ultimately show ?case using freeze by (simp add: gp_inv_def unsatisfied_def freezeGraph_def)
qed

subsection \<open>Reachable problems\<close>

lemma gp_inv_init: "solver_ok S \<Longrightarrow> gp_inv (GraphProblem_init S)"
  using in_step_init [of S] by (simp add: gp_inv_def GraphProblem_init_def unsatisfied_def GraphTheory_init_def)

lemma reachable_inv:
  assumes "solver_ok S" "gp_reachable S P"
  shows "gp_inv P"
  using assms(2) unfolding gp_reachable_def
  by (induction rule: rtranclp_induct) (use gp_inv_init [OF assms(1)] gp_inv_step in auto)

lemma reachable_step: "gp_reachable S P \<Longrightarrow> gp_step P P' \<Longrightarrow> gp_reachable S P'"
  by (simp add: gp_reachable_def)

lemma reachable_init [simp]: "gp_reachable S (GraphProblem_init S)"
  by (simp add: gp_reachable_def)

lemma arcs_synced:
  assumes syn: "synced G"
  shows "arcs (g_under G) = {(x, i, y). i < length (edge_list G) \<and> ge_from (edge_list G ! i) = int x \<and> ge_to (edge_list G ! i) = int y \<and>
      tri (gassigns G ! nat (ge_v (edge_list G ! i))) = Some True}"
    "arcs (g_over G) = {(x, i, y). i < length (edge_list G) \<and> ge_from (edge_list G ! i) = int x \<and> ge_to (edge_list G ! i) = int y \<and>
      tri (gassigns G ! nat (ge_v (edge_list G ! i))) \<noteq> Some False}"
proof -
  have e: "(declares (g_under G) i x y \<longleftrightarrow> ge_from (edge_list G ! i) = int x \<and> ge_to (edge_list G ! i) = int y) \<and>
      (declares (g_over G) i x y \<longleftrightarrow> ge_from (edge_list G ! i) = int x \<and> ge_to (edge_list G ! i) = int y) \<and>
      (edge_status (g_under G) ! i \<longleftrightarrow> tri (gassigns G ! nat (ge_v (edge_list G ! i))) = Some True) \<and>
      (edge_status (g_over G) ! i \<longleftrightarrow> tri (gassigns G ! nat (ge_v (edge_list G ! i))) \<noteq> Some False)"
    if "i < length (edge_list G)" for i x y
    using syncedD(7) [OF syn that] declares_unique unfolding edge_synced_def by (metis nat_int of_nat_eq_iff)
  have len: "length (edge_status (g_under G)) = length (edge_list G)" "length (edge_status (g_over G)) = length (edge_list G)"
    using syncedD(1,2,5,6) [OF syn] by (simp_all add: wf_graph_lengths)
  show "arcs (g_under G) = {(x, i, y). i < length (edge_list G) \<and> ge_from (edge_list G ! i) = int x \<and> ge_to (edge_list G ! i) = int y \<and>
      tri (gassigns G ! nat (ge_v (edge_list G ! i))) = Some True}"
    "arcs (g_over G) = {(x, i, y). i < length (edge_list G) \<and> ge_from (edge_list G ! i) = int x \<and> ge_to (edge_list G ! i) = int y \<and>
      tri (gassigns G ! nat (ge_v (edge_list G ! i))) \<noteq> Some False}"
    using e unfolding arcs_def len by (blast+)
qed

text \<open>Two theories that agree on the variables and their values have the same graphs.\<close>

lemma arcs_determined:
  assumes syn: "synced G" "synced G'" and same: "same_gvars G G'" "\<And>v. v < length (gvars G) \<Longrightarrow> tri (gassigns G' ! v) = tri (gassigns G ! v)"
  shows "arcs (g_under G') = arcs (g_under G)" "arcs (g_over G') = arcs (g_over G)"
proof -
  have el: "edge_list G' = edge_list G" using same(1) by (simp add: same_gvars_def)
  have "tri (gassigns G' ! nat (ge_v (edge_list G ! i))) = tri (gassigns G ! nat (ge_v (edge_list G ! i)))" if "i < length (edge_list G)" for i
    using syncedD(7) [OF syn(1) that] same(2) by (auto simp: edge_synced_def)
  then show "arcs (g_under G') = arcs (g_under G)" "arcs (g_over G') = arcs (g_over G)"
    unfolding arcs_synced [OF syn(1)] arcs_synced [OF syn(2)] el by auto
qed

lemma decide_backtrack:
  assumes inv: "gp_inv P" and v: "v < length (gvars (gp_theory P))" "tri (gassigns (gp_theory P) ! v) = None"
      "solverVar (gvars (gp_theory P) ! v) = var p"
  defines "lev \<equiv> decisionLevel (gp_solver P)"
  obtains Q G' where "solver_enqueue p r (P\<lparr>gp_solver := newDecisionLevel (gp_solver P)\<rparr>) = Some (True, Q)"
    "cancelTheory lev (gp_solver Q) (gp_theory Q) = Some G'" "in_step (cancelUntil lev (gp_solver Q)) G'" "same_gvars (gp_theory P) G'"
    "tri (gassigns (gp_theory Q) ! v) = Some (\<not> sign p)"
    "\<forall>x < length (gvars (gp_theory P)). tri (gassigns G' ! x) = tri (gassigns (gp_theory P) ! x)"
proof -
  let ?S = "gp_solver P" and ?G = "gp_theory P" and ?P = "P\<lparr>gp_solver := newDecisionLevel (gp_solver P)\<rparr>"
  let ?T = "uncheckedEnqueue p (Some r) (newDecisionLevel ?S)"
  have st: "in_step ?S ?G" "in_step (newDecisionLevel ?S) ?G" using inv in_step_new_level by (auto simp: gp_inv_def)
  obtain G1 where G1: "solver_enqueue p r ?P = Some (True, ?P\<lparr>gp_solver := ?T, gp_theory := G1\<rparr>)" "in_step ?T G1" "same_gvars ?G G1"
    "\<forall>x < length (gvars ?G). tri (gassigns G1 ! x) = (if x = v then Some (\<not> sign p) else tri (gassigns ?G ! x))"
    by (rule solver_enqueue_correct [of ?P v p r]) (use st(2) v inv in \<open>simp_all add: gp_inv_def\<close>)
  have ln: "linked (newDecisionLevel ?S) ?G" using st(2) by (simp add: in_step_def)
  have p: "0 \<le> var p" "nat (var p) < length (assigns (newDecisionLevel ?S))" "length (vardata (newDecisionLevel ?S)) = length (assigns (newDecisionLevel ?S))"
    using linkedD(1,2) [OF ln v(1)] v(3) ln by (simp_all add: linked_def)
  note u = uncheckedEnqueue_facts [OF p, of "Some r"]
  have dl: "decisionLevel ?T = lev + 1" "trail_lim ?T ! lev = length (trail ?S)" "trail ?T = trail ?S @ [p]"
    using u by (simp_all add: newDecisionLevel_def lev_def nth_append)
  obtain G2 where G2: "cancelTheory lev ?T G1 = Some G2" "in_step (cancelUntil lev ?T) G2" "same_gvars G1 G2"
    by (rule in_step_cancel [OF G1(2), of lev]) (use dl(1) in simp_all)
  have same: "same_gvars ?G G2" by (rule same_gvars_trans [OF G1(3) G2(3)])
  have gv: "gvars G1 = gvars ?G" "gvars G2 = gvars ?G" using G1(3) same by (simp_all add: same_gvars_def)
  have ln1: "linked ?T G1" and ln2: "linked (cancelUntil lev ?T) G2" using G1(2) G2(2) by (simp_all add: in_step_def)
  have pos: "\<forall>l \<in> set (trail ?T). 0 \<le> var l" using G1(2) by (auto simp: in_step_def levels_ok_def)
  have "tri (gassigns G2 ! x) = tri (gassigns ?G ! x)" if x: "x < length (gvars ?G)" for x
  proof -
    let ?x = "solverVar (gvars ?G ! x)"
    have a: "0 \<le> ?x" "nat ?x < length (assigns ?T)" "tri (assigns ?T ! nat ?x) = tri (gassigns G1 ! x)"
      using linkedD(1,2,4) [OF ln1, of x] x gv(1) by simp_all
    have b: "tri (gassigns G2 ! x) = tri (assigns (cancelUntil lev ?T) ! nat ?x)" using linkedD(4) [OF ln2, of x] x gv(2) by simp
    have c: "?x = var p \<longleftrightarrow> x = v"
      using linkedD(3) [OF ln x] linkedD(3) [OF ln v(1)] v(3) by auto
    show ?thesis
    proof (cases "x = v")
      case True
      have "level ?T (var p) = lev + 1" using u by (simp add: newDecisionLevel_def lev_def)
      then show ?thesis using b cancelUntil_facts(7) [of lev ?T, OF _ pos a(1,2)] dl True c v(2) by simp
    next
      case False
      then show ?thesis using b cancelUntil_facts(7) [of lev ?T, OF _ pos a(1,2)] dl c a(3) G1(4) x by simp
    qed
  qed
  moreover have "tri (gassigns G1 ! v) = Some (\<not> sign p)" using G1(4) v(1) by simp
  ultimately show ?thesis using that [of "?P\<lparr>gp_solver := ?T, gp_theory := G1\<rparr>" G2] G1(1) G2(1,2) same by simp
qed

subsection \<open>A small problem\<close>

text \<open>A solver with four variables; one node with a loop, whose edge is assigned true, and a literal for acyclicity.\<close>

definition four_vars :: Solver where
  "four_vars = init_solver\<lparr>assigns := replicate 4 l_Undef, vardata := replicate 4 \<lparr>vd_reason = None, vd_level = 0\<rparr>\<rparr>"

lemma four_vars_ok: "solver_ok four_vars"
  by (simp add: solver_ok_def four_vars_def init_solver_def)

lemma four_vars_free:
  "map_of (theory_vars G) sv = None \<Longrightarrow> sv \<in> {0, 1, 2, 3} \<Longrightarrow> free_var sv four_vars G"
  by (auto simp: free_var_def four_vars_def init_solver_def lit_Undef_def var_def nth_replicate)

lemma acyclic_gt_markers:
  assumes "acyclic_gt sv directed P = Some (l, P')" "cycle_detector P = None" "marker_refs P = CRef_Undef"
  shows "\<exists>D. cycle_detector P' = Some D \<and> no_directed_cycle_marker D \<noteq> directed_cycle_marker D"
  using assms
  by (auto simp: acyclic_gt_def addAcyclicLit_def CycleDetector_new_def newReasonMarker_def makeMarkerReference_def addDetector_def
      set_acyclic_lit_def CRef_Undef_def Let_def split: if_splits bind_splits prod.splits option.splits)

lemma loop_problem:
  obtains P D v where "gp_reachable four_vars P" "cycle_detector P = Some D" "acyclic_lit False D = mkLit (int v) False"
    "v < length (gvars (gp_theory P))" "tri (gassigns (gp_theory P) ! v) = None" "length (edge_list (gp_theory P)) = 1"
    "tri (gassigns (gp_theory P) ! nat (ge_v (edge_list (gp_theory P) ! 0))) = Some True"
    "no_directed_cycle_marker D \<noteq> directed_cycle_marker D" "(0, 0, 0) \<in> arcs (g_under (gp_theory P))"
proof -
  let ?I = "GraphProblem_init four_vars"
  have inv0: "gp_inv ?I" by (rule gp_inv_init [OF four_vars_ok])
  have dl: "decisionLevel four_vars = 0" by (simp add: four_vars_def init_solver_def)
  have f0: "\<not> frozen (gp_theory ?I)" "decisionLevel (gp_solver ?I) = 0" "free_var 0 (gp_solver ?I) (gp_theory ?I)"
    using four_vars_free [of GraphTheory_init 0] dl by (simp_all add: GraphProblem_init_def GraphTheory_init_def)
  obtain P1 e where P1: "problem_newEdge 0 0 0 1 ?I = Some (mkLit 0 False, P1)" "gp_inv P1" "gp_solver P1 = four_vars"
    "edge_list (gp_theory P1) = [e]" "ge_v e = 0" "ge_from e = 0" "ge_to e = 0" "theory_vars (gp_theory P1) = [(0, 0)]"
    by (rule problem_newEdge_correct [OF inv0 f0, of 0 0 1]) (auto simp: GraphProblem_init_def GraphTheory_init_def)
  have c1: "cycle_detector P1 = None" "marker_refs P1 = CRef_Undef" "\<not> theory_satisfied P1"
    using P1(1) by (auto simp: problem_newEdge_def GraphProblem_init_def split: bind_splits)
  have r1: "gp_reachable four_vars P1" by (rule reachable_step [OF reachable_init gp_step.new_edge [OF f0 P1(1)]])
  have st1: "in_step four_vars (gp_theory P1)" using P1(2,3) by (simp add: gp_inv_def)
  then have ln1: "linked four_vars (gp_theory P1)" by (simp add: in_step_def)
  have z: "0 < length (gvars (gp_theory P1))" "solverVar (gvars (gp_theory P1) ! 0) = 0"
  proof -
    have "map_of (theory_vars (gp_theory P1)) 0 = Some 0" using P1(8) by simp
    then obtain n where "n < length (gvars (gp_theory P1))" "0 = int n" "solverVar (gvars (gp_theory P1) ! n) = 0"
      using ln1 unfolding linked_def by blast
    then show "0 < length (gvars (gp_theory P1))" "solverVar (gvars (gp_theory P1) ! 0) = 0" by simp_all
  qed
  have u1: "tri (gassigns (gp_theory P1) ! 0) = None" using linkedD(4) [OF ln1 z(1)] z(2) by (simp add: four_vars_def)
  let ?p = "mkLit 0 False"
  obtain G2 where G2: "solver_enqueue ?p 0 P1 = Some (True, P1\<lparr>gp_solver := uncheckedEnqueue ?p (Some 0) four_vars, gp_theory := G2\<rparr>)"
    "in_step (uncheckedEnqueue ?p (Some 0) four_vars) G2" "same_gvars (gp_theory P1) G2" "tri (gassigns G2 ! 0) = Some True"
    by (rule solver_enqueue_correct [of P1 0 ?p 0]) (use st1 c1 P1(3) z u1 in auto)
  let ?P2 = "P1\<lparr>gp_solver := uncheckedEnqueue ?p (Some 0) four_vars, gp_theory := G2\<rparr>"
  have r2: "gp_reachable four_vars ?P2" by (rule reachable_step [OF r1 gp_step.assign [OF G2(1)]])
  have inv2: "gp_inv ?P2" by (rule reachable_inv [OF four_vars_ok r2])
  have e2: "edge_list G2 = [e]" "theory_vars G2 = [(0, 0)]" using G2(3) P1(4,8) by (simp_all add: same_gvars_def)
  have S2: "decisionLevel (gp_solver ?P2) = 0" "tri (assigns (uncheckedEnqueue ?p (Some 0) four_vars) ! 1) = None"
    "const_true (uncheckedEnqueue ?p (Some 0) four_vars) = lit_Undef" "length (assigns (uncheckedEnqueue ?p (Some 0) four_vars)) = 4"
    by (simp_all add: uncheckedEnqueue_def four_vars_def init_solver_def nth_list_update)
  have f2: "\<not> hasAcyclic True ?P2" "free_var 1 (gp_solver ?P2) (gp_theory ?P2)"
    using c1 e2(2) S2 by (simp_all add: hasAcyclic_def free_var_def lit_Undef_def var_def)
  obtain P3 where P3: "acyclic_gt 1 True ?P2 = Some (mkLit 1 False, P3)" "gp_inv P3" "hasAcyclic True P3"
    "gp_solver P3 = gp_solver ?P2" "edge_list (gp_theory P3) = [e]" "gassigns (gp_theory P3) = gassigns G2 @ [l_Undef]"
    "theory_vars (gp_theory P3) = [(1, int (length (gvars G2))), (0, 0)]"
    by (rule acyclic_gt_correct [OF inv2 f2(1) S2(1) f2(2)]) (use e2 in auto)
  have r3: "gp_reachable four_vars P3" by (rule reachable_step [OF r2 gp_step.new_acyclic [OF f2(1) S2(1) f2(2) P3(1)]])
  obtain D where D: "cycle_detector P3 = Some D" "no_directed_cycle_marker D \<noteq> directed_cycle_marker D" "acyclic_lit False D \<noteq> lit_Undef"
    using acyclic_gt_markers [OF P3(1)] c1 P3(3) by (auto simp: hasAcyclic_def hasAcyclicLit_def acyclic_lit_def)
  have st3: "in_step (gp_solver P3) (gp_theory P3)" and "lits_ok (gp_theory P3) D" using P3(2) D(1) by (simp_all add: gp_inv_def det_ok_def)
  then obtain v where v: "acyclic_lit False D = mkLit (int v) False" "v < length (gvars (gp_theory P3))" "\<not> gisEdge (gvars (gp_theory P3) ! v)"
    using D(3) by (auto simp: lits_ok_def)
  have syn: "synced (gp_theory P3)" by (rule in_step_synced [OF st3])
  have len: "length (gassigns G2) = length (gvars (gp_theory P1))" using syncedD(3) [OF in_step_synced [OF G2(2)]] G2(3) by (simp add: same_gvars_def)
  have g0: "tri (gassigns (gp_theory P3) ! 0) = Some True" using P3(6) G2(4) len z(1) by (simp add: nth_append)
  have ed: "declares (g_under (gp_theory P3)) 0 0 0" "edge_status (g_under (gp_theory P3)) ! 0" "gisEdge (gvars (gp_theory P3) ! 0)"
    using syncedD(7) [OF syn, of 0] P3(5) P1(5-7) g0 by (auto simp: edge_synced_def)
  have "tri (gassigns (gp_theory P3) ! v) = None"
  proof -
    have ln3: "linked (gp_solver P3) (gp_theory P3)" using st3 by (simp add: in_step_def)
    have "solverVar (gvars (gp_theory P3) ! v) = 1"
      using linkedD(3) [OF ln3 v(2)] P3(7) v(3) ed(3) by (auto split: if_splits)
    then show ?thesis using linkedD(4) [OF ln3 v(2)] P3(4) S2(2) by simp
  qed
  moreover have "(0, 0, 0) \<in> arcs (g_under (gp_theory P3))"
    using ed(1,2) syncedD(1,5) [OF syn] P3(5) by (simp add: arcs_def wf_graph_lengths)
  ultimately show ?thesis using that [OF r3 D(1) v(1,2)] P3(5) P1(5) g0 D(2) by simp
qed

end
