(* ===== verification/PK_Topological_Sort.thy ===== *)
theory PK_Topological_Sort
  imports Cycle_Detector
begin

text \<open>
  \<open>PKToplogicalSort<Weight, Graph>\<close> of \<open>dgl/PKTopologicalSort.h\<close>: the incremental topological sort (algorithm PK) that is
  the default implementation of \<open>Cycle\<close> for directed cycles. It keeps an order of the nodes in which every enabled edge goes
  upwards, repairs it when an edge is enabled, and otherwise keeps one directed cycle.

  A result \<open>None\<close> is an access outside a vector, a search that never returns or an exception. The recursive searches
  are partial functions on the loop index of the innermost call and are proved to return. \<open>l_xy_B\<close> and \<open>l_xy_F\<close> hold nodes; the
  values that \<open>reorder\<close> stores in them before it clears them are local to its definition. \<open>std::sort\<close> is \<open>sort_key\<close>: the keys are
  distinct. \<open>checkCycle\<close> and \<open>dbg_check_topo\<close> are empty without \<open>DEBUG_DGL\<close>; the fields that no operation uses
  (\<open>strict_sccs\<close>, \<open>store_cycle\<close>, \<open>prev\<close>, \<open>ignore\<close>) are left out.
\<close>

subsection \<open>State\<close>

record PKTopologicalSort =
  dfs_cycle :: DFSCycle
  is_strict_scc :: "bool list"
  num_strict_sccs :: int
  pk_last_modification :: int
  pk_last_addition :: int
  pk_last_deletion :: int
  pk_history_qhead :: int
  pk_last_history_clear :: int
  alg_id :: int
  pk_INF :: int
  edge_in_cycle :: "bool list"
  in_cycle :: "bool list"
  cycle :: "nat list"
  force_dag :: bool
  pk_ord :: "int list"
  visited :: "bool list"
  tmp_mark :: "bool list"
  pk_L :: "nat list"
  pk_R :: "int list"
  l_xy_B :: "nat list"
  l_xy_F :: "nat list"
  has_cycle :: bool
  cycleComputed :: bool
  has_topo :: bool
  nextOrd :: int
  lower_bound :: int
  upper_bound :: int
  edge_enabled :: "bool list"
  cycle_node :: int
  pk_stats_history_clears :: nat
  pk_stats_skipped_updates :: nat

definition PK_fields :: PKTopologicalSort where
  "PK_fields =
     \<lparr>dfs_cycle = DFSCycle_init, is_strict_scc = [], num_strict_sccs = 0, pk_last_modification = -1,
      pk_last_addition = 0, pk_last_deletion = 0, pk_history_qhead = 0, pk_last_history_clear = 0, alg_id = -1, pk_INF = 0,
      edge_in_cycle = [], in_cycle = [], cycle = [], force_dag = False, pk_ord = [], visited = [], tmp_mark = [],
      pk_L = [], pk_R = [], l_xy_B = [], l_xy_F = [], has_cycle = False, cycleComputed = False, has_topo = False,
      nextOrd = 0, lower_bound = 0, upper_bound = 0, edge_enabled = [], cycle_node = -1, pk_stats_history_clears = 0,
      pk_stats_skipped_updates = 0\<rparr>"

text \<open>The constructor registers the object, named \<open>this\<close>, with the graph.\<close>

definition PKTopologicalSort_new :: "nat \<Rightarrow> DynamicGraph \<Rightarrow> (PKTopologicalSort \<times> DynamicGraph) option" where
  "PKTopologicalSort_new this g = do {
     (k, g) \<leftarrow> addDynamicAlgorithm (Some this) g;
     Some (PK_fields\<lparr>alg_id := int k\<rparr>, g)
   }"

definition pk_forceDAG :: "PKTopologicalSort \<Rightarrow> PKTopologicalSort" where
  "pk_forceDAG s = s\<lparr>force_dag := True\<rparr>"

definition pk_setNodes :: "DynamicGraph \<Rightarrow> nat \<Rightarrow> PKTopologicalSort \<Rightarrow> PKTopologicalSort" where
  "pk_setNodes g n s =
     s\<lparr>in_cycle := vec_resize n False (in_cycle s), edge_in_cycle := vec_resize (edges g) False (edge_in_cycle s),
       visited := vec_resize n False (visited s), pk_ord := vec_resize n 0 (pk_ord s),
       is_strict_scc := vec_resize n False (is_strict_scc s), tmp_mark := vec_resize n False (tmp_mark s),
       edge_enabled := replicate (edges g) False, pk_INF := int (nodes g) + 1\<rparr>"

subsection \<open>The stored cycle\<close>

definition vec_at :: "'a list \<Rightarrow> nat \<Rightarrow> 'a option" where
  "vec_at xs i = (if i < length xs then Some (xs ! i) else None)"

definition ends :: "DynamicGraph \<Rightarrow> nat \<Rightarrow> (nat \<times> nat) option" where
  "ends g i = do {
     f \<leftarrow> getEdge g i;
     if efrom f < 0 \<or> eto f < 0 then None else Some (nat (efrom f), nat (eto f))
   }"

definition mark_cycle :: "bool \<Rightarrow> nat \<Rightarrow> nat \<Rightarrow> nat \<Rightarrow> PKTopologicalSort \<Rightarrow> PKTopologicalSort option" where
  "mark_cycle b u v i s =
     (if u < length (in_cycle s) \<and> v < length (in_cycle s) \<and> i < length (edge_in_cycle s)
      then Some (s\<lparr>in_cycle := (in_cycle s)[u := b, v := b], edge_in_cycle := (edge_in_cycle s)[i := b]\<rparr>) else None)"

definition push_cycle :: "nat \<Rightarrow> nat \<Rightarrow> nat \<Rightarrow> PKTopologicalSort \<Rightarrow> PKTopologicalSort option" where
  "push_cycle u v i s = mark_cycle True u v i (s\<lparr>cycle := cycle s @ [i]\<rparr>)"

fun mark_cycle_edges :: "DynamicGraph \<Rightarrow> bool \<Rightarrow> nat list \<Rightarrow> PKTopologicalSort \<Rightarrow> PKTopologicalSort option" where
  "mark_cycle_edges g b [] s = Some s"
| "mark_cycle_edges g b (i # is) s = do { (u, v) \<leftarrow> ends g i; s \<leftarrow> mark_cycle b u v i s; mark_cycle_edges g b is s }"

definition invalidateSCC :: "DynamicGraph \<Rightarrow> nat \<Rightarrow> PKTopologicalSort \<Rightarrow> PKTopologicalSort option" where
  "invalidateSCC g x s =
     (if cycle s \<noteq> [] then do {
        b \<leftarrow> vec_at (in_cycle s) x;
        if b then do {
          s \<leftarrow> mark_cycle_edges g False (cycle s) (s\<lparr>num_strict_sccs := 0\<rparr>);
          Some (s\<lparr>cycle := [], cycleComputed := False\<rparr>)
        } else Some s
      } else Some (s\<lparr>num_strict_sccs := 0\<rparr>))"

definition updateSCCs :: "DynamicGraph \<Rightarrow> PKTopologicalSort \<Rightarrow> PKTopologicalSort option" where
  "updateSCCs g s =
     (if has_cycle s \<and> \<not> cycleComputed s then do {
        s \<leftarrow> mark_cycle_edges g False (cycle s) s;
        (b, d) \<leftarrow> dfs_hasDirectedCycle True False g (dfs_cycle s);
        let s = s\<lparr>cycle := [], dfs_cycle := d\<rparr>;
        s \<leftarrow> (if b then do {
                (c, d) \<leftarrow> dfs_getDirectedCycle True False g (dfs_cycle s);
                mark_cycle_edges g True c (s\<lparr>cycle := c, dfs_cycle := d\<rparr>)
              } else Some s);
        let h = (cycle s \<noteq> []);
        Some (s\<lparr>has_cycle := h, num_strict_sccs := (if h then 1 else 0), cycleComputed := h\<rparr>)
      } else Some s)"

definition pk_removeEdge :: "DynamicGraph \<Rightarrow> nat \<Rightarrow> PKTopologicalSort \<Rightarrow> PKTopologicalSort option" where
  "pk_removeEdge g i s =
     (if \<not> has_cycle s then Some s
      else do {
        (u, v) \<leftarrow> ends g i;
        s \<leftarrow> (if \<not> cycleComputed s then updateSCCs g s else Some s);
        b \<leftarrow> vec_at (edge_in_cycle s) i;
        if b then do {
          s \<leftarrow> invalidateSCC g v s;
          if force_dag s then Some (s\<lparr>has_cycle := False\<rparr>)
          else if num_strict_sccs s > 0 then Some s
          else updateSCCs g s
        } else Some s
      })"

subsection \<open>The searches\<close>

definition enter_F :: "nat \<Rightarrow> PKTopologicalSort \<Rightarrow> PKTopologicalSort option" where
  "enter_F n s =
     (if n < length (visited s) then Some (s\<lparr>visited := (visited s)[n := True], l_xy_F := l_xy_F s @ [n]\<rparr>) else None)"

definition enter_B :: "nat \<Rightarrow> PKTopologicalSort \<Rightarrow> PKTopologicalSort option" where
  "enter_B n s =
     (if n < length (visited s) then Some (s\<lparr>visited := (visited s)[n := True], l_xy_B := l_xy_B s @ [n]\<rparr>) else None)"

partial_function (option) forward_loop ::
  "DynamicGraph \<Rightarrow> nat \<Rightarrow> nat \<Rightarrow> PKTopologicalSort \<Rightarrow> (bool \<times> PKTopologicalSort) option" where
  [code]: "forward_loop g n i s =
     (if has_cycle s then Some (True, s)
      else do {
        k \<leftarrow> nIncident g n False;
        if i < k then do {
          e \<leftarrow> incident g n i False;
          en \<leftarrow> vec_at (edge_enabled s) (eid e);
          if en then do {
            p \<leftarrow> vec_at (pk_ord s) (node e);
            if p = upper_bound s then do {
              s \<leftarrow> push_cycle n (node e) (eid e) (s\<lparr>has_cycle := True, cycleComputed := True, num_strict_sccs := 1\<rparr>);
              Some (False, s)
            } else do {
              v \<leftarrow> vec_at (visited s) (node e);
              if \<not> v \<and> p < upper_bound s then do {
                s \<leftarrow> enter_F (node e) s;
                (r, s) \<leftarrow> forward_loop g (node e) 0 s;
                if \<not> r then do {
                  s \<leftarrow> push_cycle n (node e) (eid e) s;
                  Some (False, s)
                } else forward_loop g n (i + 1) s
              } else forward_loop g n (i + 1) s
            }
          } else forward_loop g n (i + 1) s
        } else Some (True, s)
      })"

definition dfs_forward :: "DynamicGraph \<Rightarrow> nat \<Rightarrow> PKTopologicalSort \<Rightarrow> (bool \<times> PKTopologicalSort) option" where
  "dfs_forward g n s = do { s \<leftarrow> enter_F n s; forward_loop g n 0 s }"

partial_function (option) backward_loop ::
  "DynamicGraph \<Rightarrow> nat \<Rightarrow> nat \<Rightarrow> int \<Rightarrow> int \<Rightarrow> PKTopologicalSort \<Rightarrow> PKTopologicalSort option" where
  [code]: "backward_loop g n i cycleNode skipEdge s = do {
     k \<leftarrow> nIncoming g n False;
     if i < k then do {
       e \<leftarrow> incoming g n i False;
       en \<leftarrow> (if int (eid e) \<noteq> skipEdge then vec_at (edge_enabled s) (eid e) else Some False);
       if en then do {
         v \<leftarrow> vec_at (visited s) (node e);
         if \<not> v \<and> int (node e) = cycleNode then do {
           s \<leftarrow> enter_B (node e) s;
           s \<leftarrow> (if has_cycle s then push_cycle n (node e) (eid e) s else Some s);
           backward_loop g n (i + 1) cycleNode skipEdge s
         } else do {
           b \<leftarrow> (if \<not> v then do { p \<leftarrow> vec_at (pk_ord s) (node e); Some (lower_bound s < p) } else Some False);
           if b then do {
             s \<leftarrow> (if has_cycle s then push_cycle n (node e) (eid e) s else Some s);
             s \<leftarrow> enter_B (node e) s;
             s \<leftarrow> backward_loop g (node e) 0 (-1) (-1) s;
             backward_loop g n (i + 1) cycleNode skipEdge s
           } else backward_loop g n (i + 1) cycleNode skipEdge s
         }
       } else backward_loop g n (i + 1) cycleNode skipEdge s
     } else Some s
   }"

definition dfs_backward :: "DynamicGraph \<Rightarrow> nat \<Rightarrow> int \<Rightarrow> int \<Rightarrow> PKTopologicalSort \<Rightarrow> PKTopologicalSort option" where
  "dfs_backward g n cycleNode skipEdge s = do { s \<leftarrow> enter_B n s; backward_loop g n 0 cycleNode skipEdge s }"

fun merge_ords :: "int list \<Rightarrow> int list \<Rightarrow> int list" where
  "merge_ords (l # ls) (r # rs) = (if l \<le> r then l # merge_ords ls (r # rs) else r # merge_ords (l # ls) rs)"
| "merge_ords [] rs = rs"
| "merge_ords ls [] = ls"

definition clear_marks :: "nat list \<Rightarrow> bool list \<Rightarrow> bool list" where
  "clear_marks ws vs = fold (\<lambda>w vs. vs[w := False]) ws vs"

definition assign_ords :: "nat list \<Rightarrow> int list \<Rightarrow> int list \<Rightarrow> int list" where
  "assign_ords ws rs os = fold (\<lambda>(w, r) os. os[w := r]) (zip ws rs) os"

definition reorder :: "PKTopologicalSort \<Rightarrow> PKTopologicalSort option" where
  "reorder s =
     (if \<forall>w \<in> set (l_xy_B s @ l_xy_F s). w < length (pk_ord s) \<and> w < length (visited s) then
        let B = sort_key ((!) (pk_ord s)) (l_xy_B s);
            F = sort_key ((!) (pk_ord s)) (l_xy_F s);
            L = B @ F;
            R = merge_ords (map ((!) (pk_ord s)) B) (map ((!) (pk_ord s)) F)
        in Some (s\<lparr>pk_L := L, pk_R := R, visited := clear_marks L (visited s), pk_ord := assign_ords L R (pk_ord s),
             l_xy_B := [], l_xy_F := []\<rparr>)
      else None)"

text \<open>\<open>sort_visit_at g n None\<close> is the call \<open>sortVisit(n)\<close>, \<open>sort_visit_at g n (Some j)\<close> its loop from index \<open>j\<close> on.\<close>

partial_function (option) sort_visit_at ::
  "DynamicGraph \<Rightarrow> nat \<Rightarrow> nat option \<Rightarrow> PKTopologicalSort \<Rightarrow> (bool \<times> PKTopologicalSort) option" where
  [code]: "sort_visit_at g n p s =
     (case p of
        None \<Rightarrow> do {
          t \<leftarrow> vec_at (tmp_mark s) n;
          if t then
            Some (False, s\<lparr>has_cycle := True, cycle_node := int n, tmp_mark := (tmp_mark s)[n := False],
                    cycleComputed := True, num_strict_sccs := 1\<rparr>)
          else do {
            v \<leftarrow> vec_at (visited s) n;
            if \<not> v then sort_visit_at g n (Some 0) (s\<lparr>tmp_mark := (tmp_mark s)[n := True]\<rparr>) else Some (True, s)
          }
        }
      | Some j \<Rightarrow> do {
          k \<leftarrow> nIncident g n False;
          if j < k then do {
            e \<leftarrow> incident g n j False;
            en \<leftarrow> edgeEnabled g (eid e);
            if en then do {
              (r, s) \<leftarrow> sort_visit_at g (node e) None s;
              if \<not> r then do {
                let s = s\<lparr>tmp_mark := (tmp_mark s)[n := False]\<rparr>;
                s \<leftarrow> (if cycle_node s \<ge> 0
                     then push_cycle n (node e) (eid e) (s\<lparr>cycle_node := (if int n = cycle_node s then -1 else cycle_node s)\<rparr>)
                     else Some s);
                Some (False, s)
              } else sort_visit_at g n (Some (j + 1)) s
            } else sort_visit_at g n (Some (j + 1)) s
          } else if n < length (pk_ord s) then
            Some (True, s\<lparr>visited := (visited s)[n := True], tmp_mark := (tmp_mark s)[n := False],
                    nextOrd := nextOrd s - 1, pk_ord := (pk_ord s)[n := nextOrd s - 1]\<rparr>)
          else None
        })"

definition sortVisit :: "DynamicGraph \<Rightarrow> nat \<Rightarrow> PKTopologicalSort \<Rightarrow> (bool \<times> PKTopologicalSort) option" where
  "sortVisit g n s = sort_visit_at g n None s"

fun sort_roots :: "DynamicGraph \<Rightarrow> nat list \<Rightarrow> PKTopologicalSort \<Rightarrow> (bool \<times> PKTopologicalSort) option" where
  "sort_roots g [] s = Some (True, s)"
| "sort_roots g (n # ns) s = do {
     v \<leftarrow> vec_at (visited s) n;
     if \<not> v then do {
       (r, s) \<leftarrow> sortVisit g n s;
       if \<not> r then Some (False, s) else sort_roots g ns s
     } else sort_roots g ns s
   }"

definition topologicalSort :: "DynamicGraph \<Rightarrow> PKTopologicalSort \<Rightarrow> (bool \<times> PKTopologicalSort) option" where
  "topologicalSort g s =
     (if has_topo s then Some (True, s)
      else do {
        (r, s) \<leftarrow> sort_roots g [0..<nodes g]
                  (s\<lparr>has_topo := True, nextOrd := int (nodes g), pk_L := [], cycle_node := -1\<rparr>);
        let s = s\<lparr>visited := replicate (length (visited s)) False\<rparr>;
        if \<not> r then Some (False, s\<lparr>has_topo := False\<rparr>) else Some (has_topo s, s)
      })"

subsection \<open>Adding an edge and replaying the change log\<close>

definition pk_addEdge :: "DynamicGraph \<Rightarrow> nat \<Rightarrow> PKTopologicalSort \<Rightarrow> PKTopologicalSort option" where
  "pk_addEdge g i s =
     (if has_cycle s then Some s
      else do {
        (u, v) \<leftarrow> ends g i;
        if u = v then Some (s\<lparr>has_cycle := True, cycle := [i]\<rparr>)
        else do {
          s \<leftarrow> (if \<not> has_topo s then map_option snd (topologicalSort g s) else Some s);
          if has_cycle s then Some s
          else do {
            lb \<leftarrow> vec_at (pk_ord s) v;
            ub \<leftarrow> vec_at (pk_ord s) u;
            let s = s\<lparr>lower_bound := lb, upper_bound := ub\<rparr>;
            if lb < ub then do {
              (_, s) \<leftarrow> dfs_forward g v s;
              if \<not> has_cycle s then do {
                s \<leftarrow> dfs_backward g u (if has_cycle s then int v else -1) (int i) s;
                reorder s
              } else do {
                s \<leftarrow> push_cycle u v i s;
                Some (s\<lparr>visited := clear_marks (l_xy_F s) (clear_marks (l_xy_B s) (visited s)),
                        l_xy_F := [], l_xy_B := [], has_topo := False\<rparr>)
              }
            } else Some s
          }
        }
      })"

fun pk_replay :: "DynamicGraph \<Rightarrow> int list \<Rightarrow> PKTopologicalSort \<Rightarrow> PKTopologicalSort option" where
  "pk_replay g [] s = Some s"
| "pk_replay g (p # ps) s = do {
     c \<leftarrow> getChange g p;
     st \<leftarrow> edgeEnabled g (cid c);
     en \<leftarrow> vec_at (edge_enabled s) (cid c);
     s \<leftarrow> (if addition c \<and> st \<and> \<not> en
          then pk_addEdge g (cid c) (s\<lparr>edge_enabled := (edge_enabled s)[cid c := True]\<rparr>)
          else if \<not> addition c \<and> \<not> st \<and> en
          then pk_removeEdge g (cid c) (s\<lparr>edge_enabled := (edge_enabled s)[cid c := False]\<rparr>)
          else Some s);
     pk_replay g ps s
   }"

definition pk_reset :: "DynamicGraph \<Rightarrow> PKTopologicalSort \<Rightarrow> PKTopologicalSort option" where
  "pk_reset g s = do {
     let s = (pk_setNodes g (nodes g) s)
               \<lparr>cycleComputed := False, has_cycle := False, has_topo := False, cycle := [],
                pk_history_qhead := historySize g, pk_stats_history_clears := pk_stats_history_clears s + 1\<rparr>;
     es \<leftarrow> those (map (edgeEnabled g) [0..<edges g]);
     (r, s) \<leftarrow> topologicalSort g (s\<lparr>edge_enabled := es\<rparr>);
     if \<not> r then updateSCCs g s else Some s
   }"

definition pk_update :: "nat \<Rightarrow> DynamicGraph \<Rightarrow> PKTopologicalSort \<Rightarrow> (PKTopologicalSort \<times> DynamicGraph) option" where
  "pk_update this g s =
     (if pk_last_modification s > 0 \<and> getCurrentHistory g = pk_last_modification s
      then Some (s\<lparr>pk_stats_skipped_updates := pk_stats_skipped_updates s + 1\<rparr>, g)
      else do {
        s \<leftarrow> (if pk_last_modification s \<le> 0 \<or> nHistoryClears g \<noteq> pk_last_history_clear s \<or> changed g
             then pk_reset g s else Some s);
        s \<leftarrow> pk_replay g [pk_history_qhead s..historySize g - 1] s;
        let s = s\<lparr>pk_last_modification := getCurrentHistory g, pk_last_deletion := nDeletions g,
                  pk_last_addition := nAdditions g, pk_history_qhead := historySize g\<rparr>;
        g' \<leftarrow> updateAlgorithmHistory (Some this) (alg_id s) (pk_history_qhead s) g;
        Some (s\<lparr>pk_last_history_clear := nHistoryClears g\<rparr>, g')
      })"

definition pk_hasDirectedCycle ::
  "nat \<Rightarrow> DynamicGraph \<Rightarrow> PKTopologicalSort \<Rightarrow> (bool \<times> PKTopologicalSort \<times> DynamicGraph) option" where
  "pk_hasDirectedCycle this g s = do { (s, g) \<leftarrow> pk_update this g s; Some (has_cycle s, s, g) }"

definition pk_getDirectedCycle ::
  "nat \<Rightarrow> DynamicGraph \<Rightarrow> PKTopologicalSort \<Rightarrow> (nat list \<times> PKTopologicalSort \<times> DynamicGraph) option" where
  "pk_getDirectedCycle this g s = do { (s, g) \<leftarrow> pk_update this g s; Some (cycle s, s, g) }"

subsection \<open>Shared notions\<close>

definition larcs :: "DynamicGraph \<Rightarrow> bool list \<Rightarrow> arc set" where
  "larcs g st = {(u, i, v). declares g i u v \<and> i < length st \<and> st ! i}"

lemma larcs_arcs: "larcs g (edge_status g) = arcs g"
  by (simp add: larcs_def arcs_def)

lemma vec_at_nth [simp]: "i < length xs \<Longrightarrow> vec_at xs i = Some (xs ! i)"
  by (simp add: vec_at_def)

lemma ends_declares: "declares g i u v \<Longrightarrow> ends g i = Some (u, v)"
  by (simp add: declares_def ends_def getEdge_def)

definition pk_sizes :: "DynamicGraph \<Rightarrow> PKTopologicalSort \<Rightarrow> bool" where
  "pk_sizes g s \<longleftrightarrow> length (in_cycle s) = nodes g \<and> length (edge_in_cycle s) = edges g \<and> length (visited s) = nodes g \<and>
     length (pk_ord s) = nodes g \<and> length (tmp_mark s) = nodes g \<and> length (edge_enabled s) = edges g"

text \<open>The markers of a stored cycle are set.\<close>

definition cycle_marked :: "DynamicGraph \<Rightarrow> PKTopologicalSort \<Rightarrow> bool" where
  "cycle_marked g s \<longleftrightarrow> (\<forall>i \<in> set (cycle s). edge_in_cycle s ! i \<and>
     (\<forall>u v. declares g i u v \<longrightarrow> in_cycle s ! u \<and> in_cycle s ! v))"

lemma push_cycle_eq:
  assumes "wf_graph g" "pk_sizes g s" "declares g i u v"
  shows "push_cycle u v i s =
    Some (s\<lparr>cycle := cycle s @ [i], in_cycle := (in_cycle s)[u := True, v := True], edge_in_cycle := (edge_in_cycle s)[i := True]\<rparr>)"
  using assms wf_graph_declares [OF assms(1,3)]
  by (simp add: push_cycle_def mark_cycle_def pk_sizes_def nodes_def edges_def)

lemma cycle_marked_push:
  assumes "wf_graph g" "pk_sizes g s" "declares g i u v" "cycle_marked g s" "push_cycle u v i s = Some s'"
  shows "cycle_marked g s'"
proof -
  have "u < length (in_cycle s)" "v < length (in_cycle s)" "i < length (edge_in_cycle s)"
    using assms(2) wf_graph_declares [OF assms(1,3)] by (auto simp: pk_sizes_def nodes_def edges_def)
  then show ?thesis
    using assms(4,5) declares_unique [OF assms(3)]
    by (auto simp: cycle_marked_def push_cycle_eq [OF assms(1-3)] nth_list_update)
qed

lemma adj_arc:
  assumes "wf_graph g" "x < nodes g"
  shows "declares g i x y \<longleftrightarrow> mkEdge y i \<in> set (adjacency_list g ! x)"
    "declares g i y x \<longleftrightarrow> mkEdge y i \<in> set (inverted_adjacency_list g ! x)"
  using wf_graph_adj [OF assms(1), of x "mkEdge y i"] assms(2) by (simp_all add: nodes_def)

lemma adj_rows:
  assumes "wf_graph g" "x < nodes g"
  shows "nIncident g x False = Some (length (adjacency_list g ! x))"
    "j < length (adjacency_list g ! x) \<Longrightarrow> incident g x j False = Some (adjacency_list g ! x ! j)"
    "nIncoming g x False = Some (length (inverted_adjacency_list g ! x))"
    "j < length (inverted_adjacency_list g ! x) \<Longrightarrow> incoming g x j False = Some (inverted_adjacency_list g ! x ! j)"
  using assms wf_graph_lengths [OF assms(1)]
  by (simp_all add: nIncident_def incident_def nIncoming_def incoming_def row_nth_def vec_row_def nodes_def)

lemma adj_nth:
  assumes "wf_graph g" "x < nodes g"
  shows "j < length (adjacency_list g ! x) \<Longrightarrow> declares g (eid (adjacency_list g ! x ! j)) x (node (adjacency_list g ! x ! j))"
    "j < length (inverted_adjacency_list g ! x) \<Longrightarrow>
       declares g (eid (inverted_adjacency_list g ! x ! j)) (node (inverted_adjacency_list g ! x ! j)) x"
  using wf_graph_adj [OF assms(1) assms(2) [unfolded nodes_def]] nth_mem by blast+

lemma declares_bounds:
  assumes "wf_graph g" "declares g i u v"
  shows "u < nodes g" "v < nodes g" "i < edges g" "edgeEnabled g i = Some (edge_status g ! i)"
  using wf_graph_declares [OF assms] wf_graph_lengths [OF assms(1)] by (simp_all add: nodes_def edges_def edgeEnabled_def)

lemma larcs_bounds:
  assumes "wf_graph g" "(u, i, v) \<in> larcs g st"
  shows "u < nodes g" "v < nodes g" "i < edges g" "declares g i u v"
  using declares_bounds [OF assms(1), of i u v] assms(2) by (simp_all add: larcs_def)

subsection \<open>Sorting from scratch\<close>

text \<open>\<open>sort_ok\<close>: the nodes that are done have received the highest numbers, each a number below those of its successors.\<close>

definition sort_ok :: "DynamicGraph \<Rightarrow> PKTopologicalSort \<Rightarrow> bool" where
  "sort_ok g s \<longleftrightarrow>
     (\<forall>x < nodes g. visited s ! x \<longrightarrow> \<not> tmp_mark s ! x \<and> nextOrd s \<le> pk_ord s ! x \<and> pk_ord s ! x < int (nodes g) \<and>
        (\<forall>i y. (x, i, y) \<in> arcs g \<longrightarrow> visited s ! y \<and> pk_ord s ! x < pk_ord s ! y)) \<and>
     inj_on ((!) (pk_ord s)) {x. x < nodes g \<and> visited s ! x} \<and>
     nextOrd s = int (nodes g) - int (card {x. x < nodes g \<and> visited s ! x})"

definition free_nodes :: "DynamicGraph \<Rightarrow> PKTopologicalSort \<Rightarrow> nat set" where
  "free_nodes g s = {x. x < nodes g \<and> \<not> visited s ! x \<and> \<not> tmp_mark s ! x}"

definition sort_rest :: "PKTopologicalSort \<Rightarrow> PKTopologicalSort" where
  "sort_rest s = s\<lparr>visited := [], tmp_mark := [], nextOrd := 0, pk_ord := [], has_cycle := False, cycle_node := 0,
     cycleComputed := False, num_strict_sccs := 0, cycle := [], in_cycle := [], edge_in_cycle := []\<rparr>"

definition sort_done :: "DynamicGraph \<Rightarrow> nat \<Rightarrow> PKTopologicalSort \<Rightarrow> PKTopologicalSort \<Rightarrow> bool" where
  "sort_done g n s s' \<longleftrightarrow> pk_sizes g s' \<and> sort_ok g s' \<and> visited s' ! n \<and>
     (\<forall>x < nodes g. visited s ! x \<longrightarrow> visited s' ! x) \<and> (\<exists>V N p. s' = s\<lparr>visited := V, nextOrd := N, pk_ord := p\<rparr>)"

definition sort_fail :: "DynamicGraph \<Rightarrow> nat \<Rightarrow> PKTopologicalSort \<Rightarrow> PKTopologicalSort \<Rightarrow> bool" where
  "sort_fail g n s s' \<longleftrightarrow> pk_sizes g s' \<and> cycle_marked g s' \<and> has_cycle s' \<and> cycleComputed s' \<and> num_strict_sccs s' = 1 \<and>
     (\<forall>x < nodes g. tmp_mark s' ! x \<longrightarrow> tmp_mark s ! x) \<and> sort_rest s' = sort_rest s \<and>
     (cycle_node s' = -1 \<and> dicycle (arcs g) (rev (cycle s')) \<or>
      (\<exists>c < nodes g. cycle_node s' = int c \<and> tmp_mark s ! c \<and> walk (arcs g) n (rev (cycle s')) c))"

definition untmp :: "nat \<Rightarrow> PKTopologicalSort \<Rightarrow> PKTopologicalSort" where
  "untmp n s = s\<lparr>tmp_mark := (tmp_mark s)[n := False]\<rparr>"

lemma sort_done_refl: "pk_sizes g s \<Longrightarrow> sort_ok g s \<Longrightarrow> visited s ! n \<Longrightarrow> sort_done g n s s"
  unfolding sort_done_def
  by (intro conjI exI [of _ "visited s"] exI [of _ "nextOrd s"] exI [of _ "pk_ord s"]) auto

lemma sort_done_trans:
  assumes "sort_done g m s s1" "sort_done g n (untmp n s1) s'"
  shows "sort_done g n (untmp n s) s'"
  using assms by (auto simp: sort_done_def untmp_def) blast

lemma sort_fail_trans:
  assumes "sort_done g m s s1" "sort_fail g n (untmp n s1) s'"
  shows "sort_fail g n (untmp n s) s'"
  using assms by (auto simp: sort_done_def sort_fail_def untmp_def sort_rest_def)

lemma sort_finish:
  assumes sz: "pk_sizes g s" and ok: "sort_ok g s" and n: "n < nodes g" "\<not> visited s ! n"
    and succ: "\<And>i y. (n, i, y) \<in> arcs g \<Longrightarrow> visited s ! y \<and> y < nodes g"
  shows "sort_done g n (untmp n s) (s\<lparr>visited := (visited s)[n := True], tmp_mark := (tmp_mark s)[n := False],
           nextOrd := nextOrd s - 1, pk_ord := (pk_ord s)[n := nextOrd s - 1]\<rparr>)" (is "sort_done g n _ ?s")
proof -
  have len: "length (visited s) = nodes g" "length (pk_ord s) = nodes g" "length (tmp_mark s) = nodes g"
    using sz by (simp_all add: pk_sizes_def)
  let ?V = "{x. x < nodes g \<and> visited s ! x}"
  have V: "{x. x < nodes g \<and> visited ?s ! x} = insert n ?V" using n len by (auto simp: nth_list_update)
  have vis: "visited s ! x \<Longrightarrow> x < nodes g \<Longrightarrow> x \<noteq> n \<and> pk_ord ?s ! x = pk_ord s ! x \<and> visited ?s ! x" for x
    using n len by (auto simp: nth_list_update)
  have on: "pk_ord ?s ! n = nextOrd s - 1" "nextOrd ?s = nextOrd s - 1" using n len by simp_all
  have old: "\<not> tmp_mark s ! x \<and> nextOrd s \<le> pk_ord s ! x \<and> pk_ord s ! x < int (nodes g) \<and>
        (\<forall>i y. (x, i, y) \<in> arcs g \<longrightarrow> visited s ! y \<and> pk_ord s ! x < pk_ord s ! y)" if "x \<in> ?V" for x
    using ok that unfolding sort_ok_def by blast
  have no: "nextOrd s = int (nodes g) - int (card ?V)" using ok by (simp add: sort_ok_def)
  have inj: "inj_on ((!) (pk_ord ?s)) (insert n ?V)"
  proof -
    have "inj_on ((!) (pk_ord ?s)) ?V"
    proof (rule inj_onI)
      fix x y assume xy: "x \<in> ?V" "y \<in> ?V" "pk_ord ?s ! x = pk_ord ?s ! y"
      then have "pk_ord s ! x = pk_ord s ! y" using vis [of x] vis [of y] by simp
      then show "x = y" using ok xy(1,2) unfolding sort_ok_def by (auto dest: inj_onD)
    qed
    moreover have "pk_ord ?s ! n \<notin> (!) (pk_ord ?s) ` ?V"
    proof
      assume "pk_ord ?s ! n \<in> (!) (pk_ord ?s) ` ?V"
      then obtain x where x: "x \<in> ?V" "pk_ord ?s ! n = pk_ord ?s ! x" by blast
      then show False using old [OF x(1)] vis [of x] on by simp
    qed
    moreover have "?V - {n} = ?V" using n by auto
    ultimately show ?thesis by (simp only: inj_on_insert simp_thms)
  qed
  have "card (insert n ?V) = Suc (card ?V)" using n by simp
  then have no': "nextOrd ?s = int (nodes g) - int (card (insert n ?V))" using no by simp
  have all: "\<not> tmp_mark ?s ! x \<and> nextOrd ?s \<le> pk_ord ?s ! x \<and> pk_ord ?s ! x < int (nodes g) \<and>
        (\<forall>i y. (x, i, y) \<in> arcs g \<longrightarrow> visited ?s ! y \<and> pk_ord ?s ! x < pk_ord ?s ! y)" if "x \<in> insert n ?V" for x
  proof (cases "x = n")
    case True
    have "visited ?s ! y \<and> pk_ord ?s ! n < pk_ord ?s ! y" if "(n, i, y) \<in> arcs g" for i y
    proof -
      have y: "visited s ! y" "y < nodes g" using succ [OF that] by simp_all
      then have "nextOrd s \<le> pk_ord s ! y" using old [of y] by blast
      then show ?thesis using vis [OF y] on by simp
    qed
    then show ?thesis using True n len no by simp
  next
    case False
    then have x: "x \<in> ?V" using that by simp
    have "visited ?s ! y \<and> pk_ord ?s ! x < pk_ord ?s ! y" if "(x, i, y) \<in> arcs g" for i y
    proof -
      have y: "visited s ! y" "pk_ord s ! x < pk_ord s ! y" using old [OF x] that by blast+
      have "y \<noteq> n" using y n by blast
      then show ?thesis using y x False by simp
    qed
    then show ?thesis using old [OF x] False by simp
  qed
  have "sort_ok g ?s" unfolding sort_ok_def V
  proof (intro conjI allI impI)
    fix x assume "x < nodes g" "visited ?s ! x"
    then have x: "x \<in> insert n ?V" using V by blast
    show "\<not> tmp_mark ?s ! x" "nextOrd ?s \<le> pk_ord ?s ! x" "pk_ord ?s ! x < int (nodes g)" using all [OF x] by blast+
    fix i y assume "(x, i, y) \<in> arcs g"
    then show "visited ?s ! y" "pk_ord ?s ! x < pk_ord ?s ! y" using all [OF x] by blast+
  qed (use inj no' in auto)
  moreover have "?s = (untmp n s)\<lparr>visited := visited ?s, nextOrd := nextOrd ?s, pk_ord := pk_ord ?s\<rparr>" by (simp add: untmp_def)
  moreover have "pk_sizes g ?s" "visited ?s ! n" "\<forall>x < nodes g. visited (untmp n s) ! x \<longrightarrow> visited ?s ! x"
    using sz n len by (simp_all add: pk_sizes_def untmp_def nth_list_update)
  ultimately show ?thesis unfolding sort_done_def by blast
qed

lemma sort_call:
  assumes "pk_sizes g s" "n < nodes g"
  shows "sort_visit_at g n None s =
    (if tmp_mark s ! n
     then Some (False, s\<lparr>has_cycle := True, cycle_node := int n, tmp_mark := (tmp_mark s)[n := False],
                    cycleComputed := True, num_strict_sccs := 1\<rparr>)
     else if visited s ! n then Some (True, s)
     else sort_visit_at g n (Some 0) (s\<lparr>tmp_mark := (tmp_mark s)[n := True]\<rparr>))"
  using assms by (subst sort_visit_at.simps) (simp add: pk_sizes_def)

lemma sort_loop_step:
  assumes "wf_graph g" "n < nodes g" "pk_sizes g s" "j < length (adjacency_list g ! n)"
    and "e = adjacency_list g ! n ! j"
  shows "sort_visit_at g n (Some j) s =
     (if edge_status g ! eid e then do {
        (r, s) \<leftarrow> sort_visit_at g (node e) None s;
        if \<not> r then do {
          s \<leftarrow> (if cycle_node s \<ge> 0
               then push_cycle n (node e) (eid e) ((untmp n s)\<lparr>cycle_node := (if int n = cycle_node s then -1 else cycle_node s)\<rparr>)
               else Some (untmp n s));
          Some (False, s)
        } else sort_visit_at g n (Some (j + 1)) s
      } else sort_visit_at g n (Some (j + 1)) s)"
  using assms declares_bounds(4) [OF assms(1) adj_nth(1) [OF assms(1,2,4)]] adj_rows [OF assms(1,2)]
  by (subst sort_visit_at.simps) (simp add: untmp_def Let_def cong: if_cong)

lemma sort_loop_end:
  assumes "wf_graph g" "n < nodes g" "pk_sizes g s" "j \<ge> length (adjacency_list g ! n)"
  shows "sort_visit_at g n (Some j) s =
     Some (True, s\<lparr>visited := (visited s)[n := True], tmp_mark := (tmp_mark s)[n := False],
                    nextOrd := nextOrd s - 1, pk_ord := (pk_ord s)[n := nextOrd s - 1]\<rparr>)"
  using assms adj_rows [OF assms(1,2)] by (subst sort_visit_at.simps) (simp add: pk_sizes_def)

text \<open>What a call does, given that it returns.\<close>

definition sort_result :: "DynamicGraph \<Rightarrow> nat \<Rightarrow> PKTopologicalSort \<Rightarrow> (bool \<times> PKTopologicalSort) option \<Rightarrow> bool" where
  "sort_result g n s res \<longleftrightarrow> (\<exists>r s'. res = Some (r, s') \<and> (if r then sort_done g n s s' else sort_fail g n s s'))"

lemma sort_resultI:
  "sort_done g n s s' \<Longrightarrow> sort_result g n s (Some (True, s'))"
  "sort_fail g n s s' \<Longrightarrow> sort_result g n s (Some (False, s'))"
  by (auto simp: sort_result_def)

definition sort_pre :: "DynamicGraph \<Rightarrow> nat \<Rightarrow> PKTopologicalSort \<Rightarrow> bool" where
  "sort_pre g n s \<longleftrightarrow> n < nodes g \<and> pk_sizes g s \<and> sort_ok g s \<and> cycle s = []"

lemma sort_unwind:
  assumes wf: "wf_graph g" and arc: "(n, i, m) \<in> arcs g" and t: "tmp_mark s ! n" "n < nodes g" "length (tmp_mark s) = nodes g"
    and f: "sort_fail g m s s1"
  shows "\<exists>s2. (if cycle_node s1 \<ge> 0
               then push_cycle n m i ((untmp n s1)\<lparr>cycle_node := (if int n = cycle_node s1 then -1 else cycle_node s1)\<rparr>)
               else Some (untmp n s1)) = Some s2 \<and> sort_fail g n (untmp n s) s2"
proof -
  have d: "declares g i n m" using arc by (simp add: arcs_iff)
  have sz: "pk_sizes g s1" "length (tmp_mark s1) = nodes g" using f by (simp_all add: sort_fail_def pk_sizes_def)
  have tm: "tmp_mark (untmp n s1) ! x \<Longrightarrow> tmp_mark (untmp n s) ! x" if "x < nodes g" for x
    using f t sz that by (auto simp: sort_fail_def untmp_def nth_list_update split: if_splits)
  show ?thesis
  proof (cases "cycle_node s1 \<ge> 0")
    case False
    then show ?thesis using f tm by (auto simp: sort_fail_def untmp_def pk_sizes_def cycle_marked_def sort_rest_def)
  next
    case True
    let ?t = "(untmp n s1)\<lparr>cycle_node := (if int n = cycle_node s1 then -1 else cycle_node s1)\<rparr>"
    have st: "pk_sizes g ?t" "cycle_marked g ?t"
      using f by (simp_all add: sort_fail_def untmp_def pk_sizes_def cycle_marked_def)
    obtain c where c: "c < nodes g" "cycle_node s1 = int c" "tmp_mark s ! c" "walk (arcs g) m (rev (cycle s1)) c"
      using f True by (auto simp: sort_fail_def)
    have w: "walk (arcs g) n (rev (cycle s1 @ [i])) c" using c(4) arc by auto
    let ?r = "?t\<lparr>cycle := cycle ?t @ [i], in_cycle := (in_cycle ?t)[n := True, m := True], edge_in_cycle := (edge_in_cycle ?t)[i := True]\<rparr>"
    have p: "push_cycle n m i ?t = Some ?r" using push_cycle_eq [OF wf st(1) d] .
    have "sort_fail g n (untmp n s) ?r" unfolding sort_fail_def
    proof (intro conjI)
      show "pk_sizes g ?r" using sz(1) by (simp add: pk_sizes_def untmp_def)
      show "cycle_marked g ?r" using cycle_marked_push [OF wf st(1) d st(2) p] .
      show "has_cycle ?r" "cycleComputed ?r" "num_strict_sccs ?r = 1" using f by (simp_all add: sort_fail_def untmp_def)
      show "\<forall>x < nodes g. tmp_mark ?r ! x \<longrightarrow> tmp_mark (untmp n s) ! x" using tm by simp
      show "sort_rest ?r = sort_rest (untmp n s)" using f by (simp add: sort_fail_def untmp_def sort_rest_def)
      show "cycle_node ?r = -1 \<and> dicycle (arcs g) (rev (cycle ?r)) \<or>
        (\<exists>c < nodes g. cycle_node ?r = int c \<and> tmp_mark (untmp n s) ! c \<and> walk (arcs g) n (rev (cycle ?r)) c)"
      proof (cases "c = n")
        case True
        then show ?thesis using c(2) w by (auto simp: dicycle_def untmp_def)
      next
        case False
        then show ?thesis using c w t by (auto simp: untmp_def nth_list_update)
      qed
    qed
    then show ?thesis using True p by auto
  qed
qed

lemma sort_loop_correct:
  assumes wf: "wf_graph g" and n: "n < nodes g"
    and call: "\<And>m s. sort_pre g m s \<Longrightarrow> card (free_nodes g s) \<le> N \<Longrightarrow> sort_result g m s (sort_visit_at g m None s)"
  shows "sort_pre g n s \<Longrightarrow> card (free_nodes g s) \<le> N \<Longrightarrow> tmp_mark s ! n \<Longrightarrow> \<not> visited s ! n \<Longrightarrow>
    (\<forall>k < j. k < length (adjacency_list g ! n) \<longrightarrow> edge_status g ! eid (adjacency_list g ! n ! k) \<longrightarrow> visited s ! node (adjacency_list g ! n ! k)) \<Longrightarrow>
    sort_result g n (untmp n s) (sort_visit_at g n (Some j) s)"
proof (induction "length (adjacency_list g ! n) - j" arbitrary: j s)
  case 0
  then have j: "j \<ge> length (adjacency_list g ! n)" by simp
  have "visited s ! y \<and> y < nodes g" if "(n, i, y) \<in> arcs g" for i y
  proof -
    have d: "declares g i n y" "edge_status g ! i" using that by (auto simp: arcs_iff)
    then obtain k where k: "k < length (adjacency_list g ! n)" "adjacency_list g ! n ! k = mkEdge y i"
      using adj_arc(1) [OF wf n, of i y] by (auto simp: in_set_conv_nth)
    then show ?thesis using 0(6) [rule_format, of k] j d(2) declares_bounds(2) [OF wf d(1)] by simp
  qed
  from sort_finish [OF _ _ n 0(5) this] 0(2) show ?case
    using sort_loop_end [OF wf n _ j] by (auto simp: sort_result_def sort_pre_def)
next
  case (Suc k)
  then have j: "j < length (adjacency_list g ! n)" by simp
  define e where e: "e = adjacency_list g ! n ! j"
  have d: "declares g (eid e) n (node e)" using adj_nth(1) [OF wf n j] by (simp add: e)
  have sz: "pk_sizes g s" using Suc.prems(1) by (simp add: sort_pre_def)
  note step = sort_loop_step [OF wf n sz j e]
  have next': "sort_result g n (untmp n s1) (sort_visit_at g n (Some (j + 1)) s1)"
    if "sort_pre g n s1" "card (free_nodes g s1) \<le> N" "tmp_mark s1 ! n" "\<not> visited s1 ! n"
      "\<And>x. x < nodes g \<Longrightarrow> visited s ! x \<Longrightarrow> visited s1 ! x" "edge_status g ! eid e \<Longrightarrow> visited s1 ! node e" for s1
  proof (rule Suc.hyps(1) [OF _ that(1-4)])
    show "k = length (adjacency_list g ! n) - (j + 1)" using Suc.hyps(2) by simp
    show "\<forall>k < j + 1. k < length (adjacency_list g ! n) \<longrightarrow> edge_status g ! eid (adjacency_list g ! n ! k) \<longrightarrow> visited s1 ! node (adjacency_list g ! n ! k)"
      using Suc.prems(5) that(5,6) declares_bounds(2) [OF wf adj_nth(1) [OF wf n]] by (auto simp: less_Suc_eq e)
  qed
  show ?case
  proof (cases "edge_status g ! eid e")
    case False
    then show ?thesis using step next' [OF Suc.prems(1-4)] by simp
  next
    case True
    have arc: "(n, eid e, node e) \<in> arcs g"
      using d True declares_bounds(3) [OF wf d] wf_graph_lengths [OF wf] by (simp add: arcs_iff edges_def)
    have "sort_pre g (node e) s" using Suc.prems(1) declares_bounds(2) [OF wf d] by (simp add: sort_pre_def)
    from call [OF this Suc.prems(2)] obtain r s1 where
      r: "sort_visit_at g (node e) None s = Some (r, s1)" "if r then sort_done g (node e) s s1 else sort_fail g (node e) s s1"
      by (auto simp: sort_result_def)
    show ?thesis
    proof (cases r)
      case False
      then have "sort_fail g (node e) s s1" using r(2) by simp
      from sort_unwind [OF wf arc Suc.prems(3) n _ this] sz obtain s2 where
        "(if cycle_node s1 \<ge> 0
               then push_cycle n (node e) (eid e) ((untmp n s1)\<lparr>cycle_node := (if int n = cycle_node s1 then -1 else cycle_node s1)\<rparr>)
               else Some (untmp n s1)) = Some s2" "sort_fail g n (untmp n s) s2" by (auto simp: pk_sizes_def)
      then show ?thesis unfolding step using True False r(1) by (simp add: sort_resultI)
    next
      case True
      then have sd: "sort_done g (node e) s s1" using r(2) by simp
      then obtain V M p where s1: "s1 = s\<lparr>visited := V, nextOrd := M, pk_ord := p\<rparr>" by (auto simp: sort_done_def)
      have pre: "sort_pre g n s1" using sd Suc.prems(1) by (simp add: sort_pre_def sort_done_def s1)
      have tm: "tmp_mark s1 ! n" using Suc.prems(3) by (simp add: s1)
      have nv: "\<not> visited s1 ! n" using pre tm n by (auto simp: sort_pre_def sort_ok_def)
      have "free_nodes g s1 \<subseteq> free_nodes g s" using sd by (auto simp: free_nodes_def sort_done_def s1)
      then have "card (free_nodes g s1) \<le> N"
        using Suc.prems(2) card_mono [of "free_nodes g s" "free_nodes g s1"] by (simp add: free_nodes_def)
      from next' [OF pre this tm nv] sd have "sort_result g n (untmp n s1) (sort_visit_at g n (Some (j + 1)) s1)"
        by (simp add: sort_done_def)
      then have "sort_result g n (untmp n s) (sort_visit_at g n (Some (j + 1)) s1)"
        using sort_done_trans [OF sd] sort_fail_trans [OF sd] by (auto simp: sort_result_def split: if_splits)
      then show ?thesis unfolding step using \<open>edge_status g ! eid e\<close> True r(1) by simp
    qed
  qed
qed

lemma sort_visit_correct:
  assumes wf: "wf_graph g"
  shows "sort_pre g n s \<Longrightarrow> sort_result g n s (sort_visit_at g n None s)"
proof (induction "card (free_nodes g s)" arbitrary: n s rule: less_induct)
  case less
  have n: "n < nodes g" and sz: "pk_sizes g s" and ok: "sort_ok g s" and c: "cycle s = []"
    using less.prems by (simp_all add: sort_pre_def)
  have len: "length (tmp_mark s) = nodes g" using sz by (simp add: pk_sizes_def)
  consider (t) "tmp_mark s ! n" | (v) "\<not> tmp_mark s ! n" "visited s ! n" | (f) "\<not> tmp_mark s ! n" "\<not> visited s ! n" by blast
  then show ?case
  proof cases
    case t
    have "sort_fail g n s (s\<lparr>has_cycle := True, cycle_node := int n, tmp_mark := (tmp_mark s)[n := False],
        cycleComputed := True, num_strict_sccs := 1\<rparr>)"
      using sz n c len t by (simp add: sort_fail_def pk_sizes_def cycle_marked_def sort_rest_def nth_list_update)
    then show ?thesis using t by (simp add: sort_call [OF sz n] sort_resultI)
  next
    case v
    then have "sort_done g n s s" using sz ok by (simp add: sort_done_refl)
    then show ?thesis using v by (simp add: sort_call [OF sz n] sort_resultI)
  next
    case f
    let ?s = "s\<lparr>tmp_mark := (tmp_mark s)[n := True]\<rparr>"
    have fr: "free_nodes g ?s = free_nodes g s - {n}" "n \<in> free_nodes g s" "finite (free_nodes g s)"
      using n f len by (auto simp: free_nodes_def nth_list_update)
    then have cd: "card (free_nodes g ?s) < card (free_nodes g s)" by (metis card_Diff1_less)
    have "\<not> tmp_mark ?s ! x" if "x < nodes g" "visited s ! x" for x
      using that ok f len by (cases "x = n") (simp_all add: sort_ok_def)
    then have ok': "sort_ok g ?s" using ok unfolding sort_ok_def by simp metis
    have pre: "sort_pre g n ?s" using n sz ok' c by (simp add: sort_pre_def pk_sizes_def)
    have "sort_result g n (untmp n ?s) (sort_visit_at g n (Some 0) ?s)"
    proof (rule sort_loop_correct [OF wf n])
      show "sort_result g m t (sort_visit_at g m None t)"
        if "sort_pre g m t" "card (free_nodes g t) \<le> card (free_nodes g ?s)" for m t
        using less.hyps [OF _ that(1)] that(2) cd by simp
    qed (use pre f n len in \<open>auto simp: nth_list_update\<close>)
    moreover have "(tmp_mark s)[n := False] = tmp_mark s" using f(1) by (metis list_update_id)
    then have "untmp n ?s = s" by (simp add: untmp_def)
    ultimately show ?thesis using f sort_call [OF sz n] by simp
  qed
qed

definition roots_done :: "DynamicGraph \<Rightarrow> nat list \<Rightarrow> PKTopologicalSort \<Rightarrow> PKTopologicalSort \<Rightarrow> bool" where
  "roots_done g ns s s' \<longleftrightarrow> pk_sizes g s' \<and> sort_ok g s' \<and> (\<forall>n \<in> set ns. visited s' ! n) \<and>
     (\<forall>x < nodes g. visited s ! x \<longrightarrow> visited s' ! x) \<and> (\<exists>V N p. s' = s\<lparr>visited := V, nextOrd := N, pk_ord := p\<rparr>)"

definition roots_fail :: "DynamicGraph \<Rightarrow> PKTopologicalSort \<Rightarrow> PKTopologicalSort \<Rightarrow> bool" where
  "roots_fail g s s' \<longleftrightarrow>
     sort_rest s' = sort_rest s \<and> (\<exists>n s1. sort_fail g n s1 s' \<and> (\<forall>x < nodes g. \<not> tmp_mark s1 ! x))"

lemma roots_done_step:
  assumes "sort_done g n s s1" "n < nodes g" "roots_done g ns s1 s'"
  shows "roots_done g (n # ns) s s'"
proof -
  obtain V N p where s1: "s1 = s\<lparr>visited := V, nextOrd := N, pk_ord := p\<rparr>" using assms(1) by (auto simp: sort_done_def)
  obtain V' N' p' where "s' = s1\<lparr>visited := V', nextOrd := N', pk_ord := p'\<rparr>" using assms(3) by (auto simp: roots_done_def)
  then have "s' = s\<lparr>visited := V', nextOrd := N', pk_ord := p'\<rparr>" by (simp add: s1)
  moreover have "visited s' ! n" using assms by (auto simp: sort_done_def roots_done_def)
  ultimately show ?thesis using assms(1,3) unfolding roots_done_def sort_done_def by (metis set_ConsD)
qed

lemma sort_roots_correct:
  assumes wf: "wf_graph g"
  shows "set ns \<subseteq> {..<nodes g} \<Longrightarrow> pk_sizes g s \<Longrightarrow> sort_ok g s \<Longrightarrow> cycle s = [] \<Longrightarrow>
      (\<forall>x < nodes g. \<not> tmp_mark s ! x) \<Longrightarrow>
    \<exists>r s'. sort_roots g ns s = Some (r, s') \<and> (if r then roots_done g ns s s' else roots_fail g s s')"
proof (induction ns arbitrary: s)
  case Nil
  have "s = s\<lparr>visited := visited s, nextOrd := nextOrd s, pk_ord := pk_ord s\<rparr>" by simp
  then have "\<exists>V N p. s = s\<lparr>visited := V, nextOrd := N, pk_ord := p\<rparr>" by blast
  then show ?case using Nil(2,3) by (intro exI [of _ True] exI [of _ s]) (simp add: roots_done_def)
next
  case (Cons n ns)
  have n: "n < nodes g" "n < length (visited s)" and ns: "set ns \<subseteq> {..<nodes g}" using Cons.prems by (auto simp: pk_sizes_def)
  have tail: "\<exists>r s'. sort_roots g ns s1 = Some (r, s') \<and> (if r then roots_done g (n # ns) s s' else roots_fail g s s')"
    if sd: "sort_done g n s s1" for s1
  proof -
    obtain V M p where s1: "s1 = s\<lparr>visited := V, nextOrd := M, pk_ord := p\<rparr>" using sd by (auto simp: sort_done_def)
    have "pk_sizes g s1" "sort_ok g s1" "cycle s1 = []" "\<forall>x < nodes g. \<not> tmp_mark s1 ! x"
      using sd Cons.prems by (simp_all add: sort_done_def s1)
    from Cons.IH [OF ns this] obtain r s' where
      r: "sort_roots g ns s1 = Some (r, s')" "if r then roots_done g ns s1 s' else roots_fail g s1 s'" by blast
    moreover have "sort_rest s1 = sort_rest s" by (simp add: s1 sort_rest_def)
    ultimately show ?thesis using roots_done_step [OF sd n(1)] by (auto simp: roots_fail_def split: if_splits)
  qed
  show ?case
  proof (cases "visited s ! n")
    case True
    have "sort_roots g (n # ns) s = sort_roots g ns s" using n True by simp
    then show ?thesis using tail [OF sort_done_refl [OF Cons.prems(2,3) True]] by simp
  next
    case False
    have "sort_pre g n s" using Cons.prems n by (simp add: sort_pre_def)
    from sort_visit_correct [OF wf this] obtain r s1 where
      r: "sortVisit g n s = Some (r, s1)" "if r then sort_done g n s s1 else sort_fail g n s s1"
      by (auto simp: sort_result_def sortVisit_def)
    show ?thesis
    proof (cases r)
      case True
      have "sort_roots g (n # ns) s = sort_roots g ns s1" using n False True r(1) by simp
      then show ?thesis using tail [of s1] r(2) True by simp
    next
      case False
      then have f: "sort_fail g n s s1" "sort_roots g (n # ns) s = Some (False, s1)"
        using r n \<open>\<not> visited s ! n\<close> by simp_all
      have "roots_fail g s s1" using f(1) Cons.prems(5) unfolding roots_fail_def sort_fail_def by blast
      then show ?thesis using f(2) by auto
    qed
  qed
qed

subsection \<open>A topological order\<close>

definition topo :: "nat \<Rightarrow> int list \<Rightarrow> arc set \<Rightarrow> bool" where
  "topo n p E \<longleftrightarrow> length p = n \<and> distinct p \<and> set p \<subseteq> {0..<int n} \<and> (\<forall>u i v. (u, i, v) \<in> E \<longrightarrow> p ! u < p ! v)"

lemma topo_acyclic: "topo n p E \<Longrightarrow> \<not> dicycle E c"
  by (rule rank_no_dicycle [where rank = "(!) p"]) (auto simp: topo_def)

lemma topo_mono: "topo n p E \<Longrightarrow> F \<subseteq> E \<Longrightarrow> topo n p F"
  unfolding topo_def by blast

lemma sort_ok_topo:
  assumes wf: "wf_graph g" and sz: "pk_sizes g s" and ok: "sort_ok g s" and all: "\<forall>x < nodes g. visited s ! x"
  shows "topo (nodes g) (pk_ord s) (arcs g)"
proof -
  have len: "length (pk_ord s) = nodes g" using sz by (simp add: pk_sizes_def)
  have V: "{x. x < nodes g \<and> visited s ! x} = {..<nodes g}" using all by auto
  have inj: "inj_on ((!) (pk_ord s)) {..<nodes g}" and no: "nextOrd s = 0" using ok by (simp_all add: sort_ok_def V)
  have "distinct (pk_ord s)" using inj by (auto simp: distinct_conv_nth len inj_on_def)
  moreover have "set (pk_ord s) \<subseteq> {0..<int (nodes g)}"
    using ok all no by (auto simp: sort_ok_def in_set_conv_nth len)
  moreover have "pk_ord s ! u < pk_ord s ! v" if "(u, i, v) \<in> arcs g" for u i v
  proof -
    have "u < nodes g" using declares_bounds(1) [OF wf] that by (auto simp: arcs_iff)
    then show ?thesis using ok all that unfolding sort_ok_def by blast
  qed
  ultimately show ?thesis using len by (simp add: topo_def)
qed

text \<open>Between two operations the marks of the searches are clear.\<close>

definition pk_clean :: "PKTopologicalSort \<Rightarrow> bool" where
  "pk_clean s \<longleftrightarrow> True \<notin> set (visited s) \<and> True \<notin> set (tmp_mark s) \<and> l_xy_F s = [] \<and> l_xy_B s = [] \<and> \<not> force_dag s"

definition pk_rest :: "PKTopologicalSort \<Rightarrow> PKTopologicalSort" where
  "pk_rest s = (sort_rest s)\<lparr>has_topo := False, pk_L := [], pk_R := [], l_xy_F := [], l_xy_B := [], lower_bound := 0,
     upper_bound := 0, dfs_cycle := DFSCycle_init\<rparr>"

definition cyc_any :: "arc set \<Rightarrow> nat list \<Rightarrow> bool" where
  "cyc_any E c \<longleftrightarrow> dicycle E c \<or> dicycle E (rev c)"

lemma topologicalSort_correct:
  assumes wf: "wf_graph g" and sz: "pk_sizes g s" and cl: "pk_clean s" and s: "\<not> has_topo s" "\<not> has_cycle s" "cycle s = []"
  shows "\<exists>r s'. topologicalSort g s = Some (r, s') \<and> pk_sizes g s' \<and> pk_clean s' \<and> pk_rest s' = pk_rest s \<and>
     dfs_cycle s' = dfs_cycle s \<and>
     (if r then has_topo s' \<and> \<not> has_cycle s' \<and> cycle s' = [] \<and> topo (nodes g) (pk_ord s') (arcs g)
      else \<not> has_topo s' \<and> has_cycle s' \<and> cycleComputed s' \<and> num_strict_sccs s' = 1 \<and> cycle_marked g s' \<and>
        dicycle (arcs g) (rev (cycle s')))"
proof -
  let ?s = "s\<lparr>has_topo := True, nextOrd := int (nodes g), pk_L := [], cycle_node := -1\<rparr>"
  have len: "length (visited s) = nodes g" "length (tmp_mark s) = nodes g" using sz by (simp_all add: pk_sizes_def)
  have nv: "\<not> visited s ! x" "\<not> tmp_mark s ! x" if "x < nodes g" for x
    using cl that len nth_mem [of x "visited s"] nth_mem [of x "tmp_mark s"] unfolding pk_clean_def by metis+
  have V: "{x. x < nodes g \<and> visited s ! x} = {}" using nv by auto
  have pre: "set [0..<nodes g] \<subseteq> {..<nodes g}" "pk_sizes g ?s" "sort_ok g ?s" "cycle ?s = []" "\<forall>x < nodes g. \<not> tmp_mark ?s ! x"
    using sz nv s(3) by (simp_all add: atLeast_upt pk_sizes_def sort_ok_def V)
  from sort_roots_correct [OF wf pre] obtain r s' where
    res: "sort_roots g [0..<nodes g] ?s = Some (r, s')" "if r then roots_done g [0..<nodes g] ?s s' else roots_fail g ?s s'" by blast
  show ?thesis
  proof (cases r)
    case True
    then have rd: "roots_done g [0..<nodes g] ?s s'" using res(2) by simp
    have s0: "sort_roots g [0..<nodes g] ?s = Some (True, s')" using res(1) True by simp
    have s': "pk_sizes g s'" "sort_ok g s'" "\<forall>x < nodes g. visited s' ! x" using rd unfolding roots_done_def by auto
    obtain V N p where s1: "s' = ?s\<lparr>visited := V, nextOrd := N, pk_ord := p\<rparr>" using rd unfolding roots_done_def by blast
    let ?t = "s'\<lparr>visited := replicate (length (visited s')) False\<rparr>"
    have "topologicalSort g s = Some (True, ?t)" using s s0 s1 by (simp add: topologicalSort_def)
    moreover have "topo (nodes g) (pk_ord ?t) (arcs g)" using sort_ok_topo [OF wf s'] by simp
    moreover have "pk_sizes g ?t" using s'(1) by (simp add: pk_sizes_def)
    moreover have "pk_clean ?t" "pk_rest ?t = pk_rest s" "dfs_cycle ?t = dfs_cycle s" "has_topo ?t" "\<not> has_cycle ?t" "cycle ?t = []"
      using cl s s1 by (simp_all add: pk_clean_def pk_rest_def sort_rest_def)
    ultimately show ?thesis by (intro exI [of _ True] exI [of _ ?t]) simp
  next
    case False
    then obtain n s1 where s': "sort_roots g [0..<nodes g] ?s = Some (False, s')" "sort_fail g n s1 s'"
      "sort_rest s' = sort_rest ?s" "\<forall>x < nodes g. \<not> tmp_mark s1 ! x" using res by (auto simp: roots_fail_def)
    let ?t = "s'\<lparr>visited := replicate (length (visited s')) False, has_topo := False\<rparr>"
    have "topologicalSort g s = Some (False, ?t)" using s s'(1) by (simp add: topologicalSort_def)
    moreover have "pk_sizes g ?t" using s'(2) by (simp add: pk_sizes_def sort_fail_def)
    moreover have "dicycle (arcs g) (rev (cycle ?t))" "cycle_marked g ?t" "has_cycle ?t" "cycleComputed ?t" "num_strict_sccs ?t = 1"
      using s'(2,4) by (auto simp: sort_fail_def cycle_marked_def)
    moreover have f: "l_xy_F ?t = l_xy_F s" "l_xy_B ?t = l_xy_B s" "force_dag ?t = force_dag s" "dfs_cycle ?t = dfs_cycle s"
      using arg_cong [OF s'(3), of l_xy_F] arg_cong [OF s'(3), of l_xy_B] arg_cong [OF s'(3), of force_dag]
        arg_cong [OF s'(3), of dfs_cycle]
      by (simp_all add: sort_rest_def)
    moreover have "True \<notin> set (tmp_mark ?t)"
      using s'(2,4) by (auto simp: sort_fail_def pk_sizes_def in_set_conv_nth)
    moreover have "pk_rest ?t = pk_rest s" using s'(3) by (simp add: pk_rest_def sort_rest_def)
    ultimately show ?thesis using cl by (intro exI [of _ False] exI [of _ ?t]) (simp add: pk_clean_def)
  qed
qed

end
