(* ===== verification/PK_Reordering.thy ===== *)
theory PK_Reordering
  imports PK_Topological_Sort
begin

text \<open>
  The incremental part of \<open>dgl/PKTopologicalSort.h\<close>: the forward and the backward search return and collect the affected region of
  a new edge, or the forward search finds the cycle that the edge closes; the new numbers of \<open>reorder\<close> are a
  topological order.
\<close>

subsection \<open>The forward search\<close>

definition unvisited :: "DynamicGraph \<Rightarrow> PKTopologicalSort \<Rightarrow> nat set" where
  "unvisited g s = {x. x < nodes g \<and> \<not> visited s ! x}"

definition marked_new :: "DynamicGraph \<Rightarrow> PKTopologicalSort \<Rightarrow> bool list \<Rightarrow> nat list \<Rightarrow> bool" where
  "marked_new g s V F \<longleftrightarrow> length V = nodes g \<and> distinct F \<and> set F \<subseteq> unvisited g s \<and>
     (\<forall>x < nodes g. V ! x \<longleftrightarrow> visited s ! x \<or> x \<in> set F)"

lemma marked_new_trans:
  assumes "marked_new g s V F" "marked_new g (t\<lparr>visited := V\<rparr>) W H"
  shows "marked_new g s W (F @ H)"
  using assms by (auto simp: marked_new_def unvisited_def)

lemma marked_new_Nil: "length (visited s) = nodes g \<Longrightarrow> marked_new g s (visited s) []"
  by (simp add: marked_new_def)

lemma marked_new_one:
  "length (visited s) = nodes g \<Longrightarrow> w < nodes g \<Longrightarrow> \<not> visited s ! w \<Longrightarrow> marked_new g s ((visited s)[w := True]) [w]"
  by (auto simp: marked_new_def unvisited_def nth_list_update)

lemma marked_new_card:
  assumes "marked_new g s V F" "F \<noteq> []"
  shows "card (unvisited g (t\<lparr>visited := V\<rparr>)) < card (unvisited g s)"
proof (rule psubset_card_mono)
  show "finite (unvisited g s)" by (simp add: unvisited_def)
  obtain x where "x \<in> set F" using assms(2) by (cases F) auto
  then have "x \<in> unvisited g s" "x \<notin> unvisited g (t\<lparr>visited := V\<rparr>)" using assms(1) by (auto simp: marked_new_def unvisited_def)
  moreover have "unvisited g (t\<lparr>visited := V\<rparr>) \<subseteq> unvisited g s" using assms(1) by (auto simp: marked_new_def unvisited_def)
  ultimately show "unvisited g (t\<lparr>visited := V\<rparr>) \<subset> unvisited g s" by blast
qed

text \<open>The successors of \<open>x\<close> are dealt with: none closes a cycle, and those in range are visited.\<close>

definition fwd_closed :: "DynamicGraph \<Rightarrow> PKTopologicalSort \<Rightarrow> bool list \<Rightarrow> nat \<Rightarrow> bool" where
  "fwd_closed g s V x \<longleftrightarrow> (\<forall>i y. (x, i, y) \<in> larcs g (edge_enabled s) \<longrightarrow>
     pk_ord s ! y \<noteq> upper_bound s \<and> (pk_ord s ! y < upper_bound s \<longrightarrow> V ! y))"

definition fwd_done :: "DynamicGraph \<Rightarrow> nat \<Rightarrow> PKTopologicalSort \<Rightarrow> PKTopologicalSort \<Rightarrow> bool" where
  "fwd_done g n s s' \<longleftrightarrow> (\<exists>V F. s' = s\<lparr>visited := V, l_xy_F := l_xy_F s @ F\<rparr> \<and> marked_new g s V F \<and> fwd_closed g s V n \<and>
     (\<forall>x \<in> set F. pk_ord s ! n < pk_ord s ! x \<and> pk_ord s ! x < upper_bound s \<and> fwd_closed g s V x))"

definition fwd_found :: "DynamicGraph \<Rightarrow> nat \<Rightarrow> PKTopologicalSort \<Rightarrow> PKTopologicalSort \<Rightarrow> bool" where
  "fwd_found g n s s' \<longleftrightarrow> pk_sizes g s' \<and> cycle_marked g s' \<and>
     (\<exists>V F c I J. s' = s\<lparr>visited := V, l_xy_F := l_xy_F s @ F, has_cycle := True, cycleComputed := True, num_strict_sccs := 1,
        cycle := c, in_cycle := I, edge_in_cycle := J\<rparr> \<and> marked_new g s V F \<and>
      (\<exists>w < nodes g. pk_ord s ! w = upper_bound s \<and> walk (larcs g (edge_enabled s)) n (rev c) w))"

definition fwd_result :: "DynamicGraph \<Rightarrow> nat \<Rightarrow> PKTopologicalSort \<Rightarrow> (bool \<times> PKTopologicalSort) option \<Rightarrow> bool" where
  "fwd_result g n s res \<longleftrightarrow> (\<exists>r s'. res = Some (r, s') \<and> (if r then fwd_done g n s s' else fwd_found g n s s'))"

definition fwd_pre :: "DynamicGraph \<Rightarrow> nat \<Rightarrow> PKTopologicalSort \<Rightarrow> bool" where
  "fwd_pre g n s \<longleftrightarrow> pk_sizes g s \<and> \<not> has_cycle s \<and> cycle s = [] \<and> n < nodes g \<and> pk_ord s ! n < upper_bound s \<and>
     (\<forall>x i y. (x, i, y) \<in> larcs g (edge_enabled s) \<longrightarrow> pk_ord s ! x < upper_bound s \<longrightarrow> pk_ord s ! x < pk_ord s ! y)"

lemma fwd_resultI:
  "fwd_done g n s s' \<Longrightarrow> fwd_result g n s (Some (True, s'))"
  "fwd_found g n s s' \<Longrightarrow> fwd_result g n s (Some (False, s'))"
  by (auto simp: fwd_result_def)

lemma forward_step:
  assumes "wf_graph g" "fwd_pre g n s" "j < length (adjacency_list g ! n)" "e = adjacency_list g ! n ! j"
  shows "forward_loop g n j s =
    (if edge_enabled s ! eid e then
       if pk_ord s ! node e = upper_bound s then do {
         s \<leftarrow> push_cycle n (node e) (eid e) (s\<lparr>has_cycle := True, cycleComputed := True, num_strict_sccs := 1\<rparr>);
         Some (False, s)
       } else if \<not> visited s ! node e \<and> pk_ord s ! node e < upper_bound s then do {
         (r, s) \<leftarrow> forward_loop g (node e) 0 (s\<lparr>visited := (visited s)[node e := True], l_xy_F := l_xy_F s @ [node e]\<rparr>);
         if \<not> r then do { s \<leftarrow> push_cycle n (node e) (eid e) s; Some (False, s) } else forward_loop g n (j + 1) s
       } else forward_loop g n (j + 1) s
     else forward_loop g n (j + 1) s)"
proof -
  have n: "n < nodes g" and sz: "pk_sizes g s" "\<not> has_cycle s" using assms(2) by (simp_all add: fwd_pre_def)
  have d: "declares g (eid e) n (node e)" using adj_nth(1) [OF assms(1) n assms(3)] assms(4) by simp
  then show ?thesis
    using sz declares_bounds [OF assms(1) d] adj_rows(1,2) [OF assms(1) n] assms(3,4)
    by (subst forward_loop.simps) (simp add: pk_sizes_def enter_F_def cong: if_cong)
qed

lemma forward_end:
  assumes "wf_graph g" "fwd_pre g n s" "j \<ge> length (adjacency_list g ! n)"
  shows "forward_loop g n j s = Some (True, s)"
  using assms adj_rows(1) [OF assms(1), of n] by (subst forward_loop.simps) (simp add: fwd_pre_def)

lemma fwd_found_push:
  assumes wf: "wf_graph g" and arc: "(n, i, m) \<in> larcs g (edge_enabled s)" and f: "fwd_found g m s s'"
  shows "\<exists>s2. push_cycle n m i s' = Some s2 \<and> fwd_found g n s s2"
proof -
  have d: "declares g i n m" using larcs_bounds(4) [OF wf arc] .
  have sz: "pk_sizes g s'" and cm: "cycle_marked g s'" using f by (simp_all add: fwd_found_def)
  obtain V F c I J w where s': "s' = s\<lparr>visited := V, l_xy_F := l_xy_F s @ F, has_cycle := True, cycleComputed := True,
      num_strict_sccs := 1, cycle := c, in_cycle := I, edge_in_cycle := J\<rparr>" "marked_new g s V F" "w < nodes g"
      "pk_ord s ! w = upper_bound s" "walk (larcs g (edge_enabled s)) m (rev c) w"
    using f unfolding fwd_found_def by blast
  let ?t = "s'\<lparr>cycle := cycle s' @ [i], in_cycle := (in_cycle s')[n := True, m := True], edge_in_cycle := (edge_in_cycle s')[i := True]\<rparr>"
  have p: "push_cycle n m i s' = Some ?t" using push_cycle_eq [OF wf sz d] .
  have "pk_sizes g ?t" using sz by (simp add: pk_sizes_def)
  moreover have "cycle_marked g ?t" using cycle_marked_push [OF wf sz d cm p] .
  moreover have "walk (larcs g (edge_enabled s)) n (rev (c @ [i])) w" using arc s'(5) by auto
  moreover have "?t = s\<lparr>visited := V, l_xy_F := l_xy_F s @ F, has_cycle := True, cycleComputed := True,
      num_strict_sccs := 1, cycle := c @ [i], in_cycle := I[n := True, m := True], edge_in_cycle := J[i := True]\<rparr>" using s'(1) by simp
  ultimately show ?thesis using p s'(2-4) unfolding fwd_found_def by blast
qed

lemma fwd_found_here:
  assumes wf: "wf_graph g" and pre: "fwd_pre g n s" and arc: "(n, i, m) \<in> larcs g (edge_enabled s)" and m: "pk_ord s ! m = upper_bound s"
  shows "\<exists>s2. push_cycle n m i (s\<lparr>has_cycle := True, cycleComputed := True, num_strict_sccs := 1\<rparr>) = Some s2 \<and> fwd_found g n s s2"
proof -
  let ?s = "s\<lparr>has_cycle := True, cycleComputed := True, num_strict_sccs := 1\<rparr>"
  have d: "declares g i n m" using larcs_bounds(4) [OF wf arc] .
  have sz: "pk_sizes g ?s" and cm: "cycle_marked g ?s" and c: "cycle s = []"
    using pre by (simp_all add: fwd_pre_def pk_sizes_def cycle_marked_def)
  let ?t = "?s\<lparr>cycle := cycle ?s @ [i], in_cycle := (in_cycle ?s)[n := True, m := True], edge_in_cycle := (edge_in_cycle ?s)[i := True]\<rparr>"
  have p: "push_cycle n m i ?s = Some ?t" using push_cycle_eq [OF wf sz d] .
  have "pk_sizes g ?t" using sz by (simp add: pk_sizes_def)
  moreover have "cycle_marked g ?t" using cycle_marked_push [OF wf sz d cm p] .
  moreover have "?t = s\<lparr>visited := visited s, l_xy_F := l_xy_F s @ [], has_cycle := True, cycleComputed := True,
      num_strict_sccs := 1, cycle := [i], in_cycle := (in_cycle s)[n := True, m := True], edge_in_cycle := (edge_in_cycle s)[i := True]\<rparr>"
    using c by simp
  moreover have "marked_new g s (visited s) []" using pre by (simp add: marked_new_Nil fwd_pre_def pk_sizes_def)
  moreover have "walk (larcs g (edge_enabled s)) n (rev [i]) m" "m < nodes g" using arc larcs_bounds(2) [OF wf arc] by auto
  ultimately show ?thesis using p m unfolding fwd_found_def by blast
qed

text \<open>After the subtree of \<open>m\<close> the search continues; what it found there stays dealt with.\<close>

lemma fwd_closed_mono:
  assumes "fwd_closed g s V x" "wf_graph g" "\<And>y. y < nodes g \<Longrightarrow> V ! y \<Longrightarrow> W ! y"
  shows "fwd_closed g s W x"
  using assms(1,3) larcs_bounds(2) [OF assms(2)] unfolding fwd_closed_def by blast

lemma fwd_found_shift:
  assumes "marked_new g s V F" "fwd_found g n (s\<lparr>visited := V, l_xy_F := l_xy_F s @ F\<rparr>) s'"
  shows "fwd_found g n s s'"
proof -
  let ?t = "s\<lparr>visited := V, l_xy_F := l_xy_F s @ F\<rparr>"
  obtain W H c I J w where s': "s' = ?t\<lparr>visited := W, l_xy_F := l_xy_F ?t @ H, has_cycle := True, cycleComputed := True,
      num_strict_sccs := 1, cycle := c, in_cycle := I, edge_in_cycle := J\<rparr>" "marked_new g ?t W H" "w < nodes g"
      "pk_ord s ! w = upper_bound s" "walk (larcs g (edge_enabled s)) n (rev c) w"
    using assms(2) unfolding fwd_found_def by (simp del: PKTopologicalSort.unfold_congs) blast
  have "s' = s\<lparr>visited := W, l_xy_F := l_xy_F s @ (F @ H), has_cycle := True, cycleComputed := True,
      num_strict_sccs := 1, cycle := c, in_cycle := I, edge_in_cycle := J\<rparr>" using s'(1) by simp
  moreover have "marked_new g s W (F @ H)"
    using marked_new_trans [OF assms(1), of "s\<lparr>l_xy_F := l_xy_F s @ F\<rparr>" W H] s'(2) by (simp add: marked_new_def unvisited_def)
  ultimately show ?thesis using assms(2) s'(3-5) unfolding fwd_found_def by blast
qed

lemma fwd_done_shift:
  assumes wf: "wf_graph g" and m: "marked_new g s V F"
    and F: "\<And>x. x \<in> set F \<Longrightarrow> pk_ord s ! n < pk_ord s ! x \<and> pk_ord s ! x < upper_bound s \<and> fwd_closed g s V x"
    and d: "fwd_done g n (s\<lparr>visited := V, l_xy_F := l_xy_F s @ F\<rparr>) s'"
  shows "fwd_done g n s s'"
proof -
  let ?t = "s\<lparr>visited := V, l_xy_F := l_xy_F s @ F\<rparr>"
  obtain W H where s': "s' = ?t\<lparr>visited := W, l_xy_F := l_xy_F ?t @ H\<rparr>" "marked_new g ?t W H" "fwd_closed g ?t W n"
     "\<forall>x \<in> set H. pk_ord ?t ! n < pk_ord ?t ! x \<and> pk_ord ?t ! x < upper_bound ?t \<and> fwd_closed g ?t W x"
    using d unfolding fwd_done_def by blast
  have cl: "fwd_closed g ?t W x = fwd_closed g s W x" for x by (simp add: fwd_closed_def)
  have "V ! y \<Longrightarrow> W ! y" if "y < nodes g" for y using s'(2) that by (simp add: marked_new_def)
  then have "fwd_closed g s W x" if "x \<in> set F" for x using fwd_closed_mono [OF _ wf] F [OF that] by blast
  moreover have "s' = s\<lparr>visited := W, l_xy_F := l_xy_F s @ (F @ H)\<rparr>" using s'(1) by simp
  moreover have "marked_new g s W (F @ H)"
    using marked_new_trans [OF m, of "s\<lparr>l_xy_F := l_xy_F s @ F\<rparr>" W H] s'(2) by (simp add: marked_new_def unvisited_def)
  ultimately show ?thesis unfolding fwd_done_def
    using F s'(3,4) unfolding cl by (intro exI [of _ W] exI [of _ "F @ H"]) auto
qed

lemma fwd_done_here:
  assumes wf: "wf_graph g" and pre: "fwd_pre g n s"
    and sc: "\<forall>k < length (adjacency_list g ! n). edge_enabled s ! eid (adjacency_list g ! n ! k) \<longrightarrow>
      pk_ord s ! node (adjacency_list g ! n ! k) \<noteq> upper_bound s \<and>
      (pk_ord s ! node (adjacency_list g ! n ! k) < upper_bound s \<longrightarrow> visited s ! node (adjacency_list g ! n ! k))"
  shows "fwd_done g n s s"
proof -
  have n: "n < nodes g" and sz: "pk_sizes g s" using pre by (simp_all add: fwd_pre_def)
  have "fwd_closed g s (visited s) n" unfolding fwd_closed_def
  proof (intro allI impI)
    fix i y assume a: "(n, i, y) \<in> larcs g (edge_enabled s)"
    then obtain k where k: "k < length (adjacency_list g ! n)" "adjacency_list g ! n ! k = mkEdge y i"
      using adj_arc(1) [OF wf n, of i y] larcs_bounds(4) [OF wf a] by (auto simp: in_set_conv_nth)
    have "edge_enabled s ! i" using a by (simp add: larcs_def)
    then show "pk_ord s ! y \<noteq> upper_bound s \<and> (pk_ord s ! y < upper_bound s \<longrightarrow> visited s ! y)"
      using sc k by force
  qed
  moreover have "s = s\<lparr>visited := visited s, l_xy_F := l_xy_F s @ []\<rparr>" by simp
  moreover have "marked_new g s (visited s) []" using sz by (simp add: marked_new_Nil pk_sizes_def)
  ultimately show ?thesis unfolding fwd_done_def by (intro exI [of _ "visited s"] exI [of _ "[]"]) simp
qed

lemma forward_loop_step:
  assumes wf: "wf_graph g"
    and call: "\<And>m s. fwd_pre g m s \<Longrightarrow> card (unvisited g s) < N \<Longrightarrow> fwd_result g m s (forward_loop g m 0 s)"
  shows "fwd_pre g n s \<Longrightarrow> card (unvisited g s) \<le> N \<Longrightarrow>
    (\<forall>k < j. k < length (adjacency_list g ! n) \<longrightarrow> edge_enabled s ! eid (adjacency_list g ! n ! k) \<longrightarrow>
      pk_ord s ! node (adjacency_list g ! n ! k) \<noteq> upper_bound s \<and>
      (pk_ord s ! node (adjacency_list g ! n ! k) < upper_bound s \<longrightarrow> visited s ! node (adjacency_list g ! n ! k))) \<Longrightarrow>
    fwd_result g n s (forward_loop g n j s)"
proof (induction "length (adjacency_list g ! n) - j" arbitrary: j s)
  case 0
  then have j: "j \<ge> length (adjacency_list g ! n)" by simp
  have "fwd_done g n s s" using 0(4) j by (intro fwd_done_here [OF wf 0(2)]) auto
  then show ?case by (simp add: forward_end [OF wf 0(2) j] fwd_resultI)
next
  case (Suc k)
  then have j: "j < length (adjacency_list g ! n)" by simp
  define e where e: "e = adjacency_list g ! n ! j"
  have n: "n < nodes g" and sz: "pk_sizes g s" using Suc.prems(1) by (simp_all add: fwd_pre_def)
  have d: "declares g (eid e) n (node e)" using adj_nth(1) [OF wf n j] by (simp add: e)
  note step = forward_step [OF wf Suc.prems(1) j e]
  have next': "fwd_result g n t (forward_loop g n (j + 1) t)"
    if "fwd_pre g n t" "card (unvisited g t) \<le> N" "edge_enabled t = edge_enabled s" "pk_ord t = pk_ord s" "upper_bound t = upper_bound s"
      "\<And>x. x < nodes g \<Longrightarrow> visited s ! x \<Longrightarrow> visited t ! x"
      "edge_enabled s ! eid e \<Longrightarrow> pk_ord s ! node e \<noteq> upper_bound s \<and> (pk_ord s ! node e < upper_bound s \<longrightarrow> visited t ! node e)" for t
  proof (rule Suc.hyps(1) [OF _ that(1,2)])
    show "k = length (adjacency_list g ! n) - (j + 1)" using Suc.hyps(2) by simp
    show "\<forall>k < j + 1. k < length (adjacency_list g ! n) \<longrightarrow> edge_enabled t ! eid (adjacency_list g ! n ! k) \<longrightarrow>
      pk_ord t ! node (adjacency_list g ! n ! k) \<noteq> upper_bound t \<and>
      (pk_ord t ! node (adjacency_list g ! n ! k) < upper_bound t \<longrightarrow> visited t ! node (adjacency_list g ! n ! k))"
      unfolding that(3-5)
      using Suc.prems(3) that(6,7) declares_bounds(2) [OF wf adj_nth(1) [OF wf n]] by (auto simp: less_Suc_eq e)
  qed
  consider (skip) "\<not> edge_enabled s ! eid e"
      | (seen) "edge_enabled s ! eid e" "pk_ord s ! node e \<noteq> upper_bound s" "visited s ! node e \<or> \<not> pk_ord s ! node e < upper_bound s"
      | (found) "edge_enabled s ! eid e" "pk_ord s ! node e = upper_bound s"
      | (go) "edge_enabled s ! eid e" "\<not> visited s ! node e" "pk_ord s ! node e < upper_bound s" by fastforce
  then show ?case
  proof cases
    case skip
    then show ?thesis using step next' [OF Suc.prems(1,2)] by simp
  next
    case seen
    then show ?thesis using step next' [OF Suc.prems(1,2)] by auto
  next
    case found
    then have arc: "(n, eid e, node e) \<in> larcs g (edge_enabled s)"
      using d declares_bounds(3) [OF wf d] sz by (simp add: larcs_def pk_sizes_def)
    from fwd_found_here [OF wf Suc.prems(1) arc found(2)] show ?thesis using step found by (auto simp: fwd_resultI)
  next
    case go
    then have arc: "(n, eid e, node e) \<in> larcs g (edge_enabled s)"
      using d declares_bounds(3) [OF wf d] sz by (simp add: larcs_def pk_sizes_def)
    have up: "pk_ord s ! n < pk_ord s ! node e" using Suc.prems(1) arc unfolding fwd_pre_def by blast
    let ?s = "s\<lparr>visited := (visited s)[node e := True], l_xy_F := l_xy_F s @ [node e]\<rparr>"
    have m1: "marked_new g s ((visited s)[node e := True]) [node e]"
      using marked_new_one go(2) declares_bounds(2) [OF wf d] sz by (simp add: pk_sizes_def)
    have pre: "fwd_pre g (node e) ?s"
      using Suc.prems(1) go(3) declares_bounds(2) [OF wf d] by (simp add: fwd_pre_def pk_sizes_def)
    have "card (unvisited g ?s) < card (unvisited g s)"
      using marked_new_card [OF m1, of "s\<lparr>l_xy_F := l_xy_F s @ [node e]\<rparr>"] by (simp add: unvisited_def)
    then have "card (unvisited g ?s) < N" using Suc.prems(2) by simp
    from call [OF pre this] obtain r s1 where
      r: "forward_loop g (node e) 0 ?s = Some (r, s1)" "if r then fwd_done g (node e) ?s s1 else fwd_found g (node e) ?s s1"
      by (auto simp: fwd_result_def)
    show ?thesis
    proof (cases r)
      case False
      then have "fwd_found g (node e) s s1" using fwd_found_shift [OF m1] r(2) by simp
      from fwd_found_push [OF wf arc this] show ?thesis using step go r(1) False by (auto simp: fwd_resultI)
    next
      case True
      then obtain V F where s1: "s1 = ?s\<lparr>visited := V, l_xy_F := l_xy_F ?s @ F\<rparr>" "marked_new g ?s V F" "fwd_closed g ?s V (node e)"
        "\<forall>x \<in> set F. pk_ord ?s ! node e < pk_ord ?s ! x \<and> pk_ord ?s ! x < upper_bound ?s \<and> fwd_closed g ?s V x"
        using r(2) unfolding fwd_done_def by auto
      have s1': "s1 = s\<lparr>visited := V, l_xy_F := l_xy_F s @ (node e # F)\<rparr>" using s1(1) by simp
      have m: "marked_new g s V (node e # F)"
        using marked_new_trans [OF m1, of s V F] s1(2) by (simp add: marked_new_def unvisited_def)
      have F: "pk_ord s ! n < pk_ord s ! x \<and> pk_ord s ! x < upper_bound s \<and> fwd_closed g s V x" if "x \<in> set (node e # F)" for x
        using s1(3,4) that up go(3) by (auto simp: fwd_closed_def)
      have pre1: "fwd_pre g n s1" using Suc.prems(1) m by (simp add: s1' fwd_pre_def pk_sizes_def marked_new_def)
      have "card (unvisited g s1) < card (unvisited g s)"
        using marked_new_card [OF m, of "s\<lparr>l_xy_F := l_xy_F s @ (node e # F)\<rparr>"] by (simp add: s1' unvisited_def)
      then have "fwd_result g n s1 (forward_loop g n (j + 1) s1)"
        using Suc.prems(2) m go(3) declares_bounds(2) [OF wf d] by (intro next' [OF pre1]) (auto simp: s1' marked_new_def)
      then have "fwd_result g n s (forward_loop g n (j + 1) s1)"
        using fwd_done_shift [OF wf m F] fwd_found_shift [OF m] unfolding s1' fwd_result_def by (metis (no_types, lifting))
      then show ?thesis using step go True r(1) by simp
    qed
  qed
qed

lemma forward_loop_correct:
  assumes wf: "wf_graph g"
  shows "fwd_pre g n s \<Longrightarrow> fwd_result g n s (forward_loop g n 0 s)"
proof (induction "card (unvisited g s)" arbitrary: n s rule: less_induct)
  case less
  show ?case
  proof (rule forward_loop_step [OF wf, where N = "card (unvisited g s)"])
    show "fwd_result g m t (forward_loop g m 0 t)" if "fwd_pre g m t" "card (unvisited g t) < card (unvisited g s)" for m t
      using less.hyps [OF that(2,1)] .
  qed (use less.prems in simp_all)
qed

subsection \<open>The backward search\<close>

definition bwd_closed :: "DynamicGraph \<Rightarrow> PKTopologicalSort \<Rightarrow> bool list \<Rightarrow> nat \<Rightarrow> bool" where
  "bwd_closed g s V x \<longleftrightarrow> (\<forall>i w. (w, i, x) \<in> larcs g (edge_enabled s) \<longrightarrow> lower_bound s < pk_ord s ! w \<longrightarrow> V ! w)"

definition bwd_done :: "DynamicGraph \<Rightarrow> nat \<Rightarrow> PKTopologicalSort \<Rightarrow> PKTopologicalSort \<Rightarrow> bool" where
  "bwd_done g n s s' \<longleftrightarrow> (\<exists>V B. s' = s\<lparr>visited := V, l_xy_B := l_xy_B s @ B\<rparr> \<and> marked_new g s V B \<and> bwd_closed g s V n \<and>
     (\<forall>x \<in> set B. pk_ord s ! x < pk_ord s ! n \<and> lower_bound s < pk_ord s ! x \<and> bwd_closed g s V x))"

definition bwd_pre :: "DynamicGraph \<Rightarrow> nat \<Rightarrow> PKTopologicalSort \<Rightarrow> bool" where
  "bwd_pre g n s \<longleftrightarrow> pk_sizes g s \<and> \<not> has_cycle s \<and> n < nodes g \<and> lower_bound s < pk_ord s ! n \<and>
     (\<forall>x i y. (x, i, y) \<in> larcs g (edge_enabled s) \<longrightarrow> lower_bound s < pk_ord s ! y \<longrightarrow> pk_ord s ! x < pk_ord s ! y)"

lemma backward_step:
  assumes "wf_graph g" "bwd_pre g n s" "j < length (inverted_adjacency_list g ! n)" "e = inverted_adjacency_list g ! n ! j"
    and "int (eid e) \<noteq> sk"
  shows "backward_loop g n j (-1) sk s =
    (if edge_enabled s ! eid e \<and> \<not> visited s ! node e \<and> lower_bound s < pk_ord s ! node e then do {
       s \<leftarrow> backward_loop g (node e) 0 (-1) (-1) (s\<lparr>visited := (visited s)[node e := True], l_xy_B := l_xy_B s @ [node e]\<rparr>);
       backward_loop g n (j + 1) (-1) sk s
     } else backward_loop g n (j + 1) (-1) sk s)"
proof -
  have n: "n < nodes g" and sz: "pk_sizes g s" "\<not> has_cycle s" using assms(2) by (simp_all add: bwd_pre_def)
  have d: "declares g (eid e) (node e) n" using adj_nth(2) [OF assms(1) n assms(3)] assms(4) by simp
  have "int (node e) \<noteq> -1" by simp
  then show ?thesis
    using sz declares_bounds [OF assms(1) d] adj_rows(3,4) [OF assms(1) n] assms(3-5)
    by (subst backward_loop.simps) (simp add: pk_sizes_def enter_B_def)
qed

lemma backward_end:
  assumes "wf_graph g" "n < nodes g" "j \<ge> length (inverted_adjacency_list g ! n)"
  shows "backward_loop g n j cn sk s = Some s"
  using assms adj_rows(3) [OF assms(1), of n] by (subst backward_loop.simps) simp

lemma bwd_closed_mono:
  assumes "bwd_closed g s V x" "wf_graph g" "\<And>y. y < nodes g \<Longrightarrow> V ! y \<Longrightarrow> W ! y"
  shows "bwd_closed g s W x"
  using assms(1,3) larcs_bounds(1) [OF assms(2)] unfolding bwd_closed_def by blast

lemma bwd_done_shift:
  assumes wf: "wf_graph g" and m: "marked_new g s V F"
    and F: "\<And>x. x \<in> set F \<Longrightarrow> pk_ord s ! x < pk_ord s ! n \<and> lower_bound s < pk_ord s ! x \<and> bwd_closed g s V x"
    and d: "bwd_done g n (s\<lparr>visited := V, l_xy_B := l_xy_B s @ F\<rparr>) s'"
  shows "bwd_done g n s s'"
proof -
  let ?t = "s\<lparr>visited := V, l_xy_B := l_xy_B s @ F\<rparr>"
  obtain W H where s': "s' = ?t\<lparr>visited := W, l_xy_B := l_xy_B ?t @ H\<rparr>" "marked_new g ?t W H" "bwd_closed g ?t W n"
     "\<forall>x \<in> set H. pk_ord ?t ! x < pk_ord ?t ! n \<and> lower_bound ?t < pk_ord ?t ! x \<and> bwd_closed g ?t W x"
    using d unfolding bwd_done_def by blast
  have cl: "bwd_closed g ?t W x = bwd_closed g s W x" for x by (simp add: bwd_closed_def)
  have "V ! y \<Longrightarrow> W ! y" if "y < nodes g" for y using s'(2) that by (simp add: marked_new_def)
  then have "bwd_closed g s W x" if "x \<in> set F" for x using bwd_closed_mono [OF _ wf] F [OF that] by blast
  moreover have "s' = s\<lparr>visited := W, l_xy_B := l_xy_B s @ (F @ H)\<rparr>" using s'(1) by simp
  moreover have "marked_new g s W (F @ H)"
    using marked_new_trans [OF m, of "s\<lparr>l_xy_B := l_xy_B s @ F\<rparr>" W H] s'(2) by (simp add: marked_new_def unvisited_def)
  ultimately show ?thesis unfolding bwd_done_def
    using F s'(3,4) unfolding cl by (intro exI [of _ W] exI [of _ "F @ H"]) auto
qed

lemma bwd_done_here:
  assumes wf: "wf_graph g" and pre: "bwd_pre g n s"
    and sc: "\<forall>k < length (inverted_adjacency_list g ! n). edge_enabled s ! eid (inverted_adjacency_list g ! n ! k) \<longrightarrow>
      lower_bound s < pk_ord s ! node (inverted_adjacency_list g ! n ! k) \<longrightarrow> visited s ! node (inverted_adjacency_list g ! n ! k)"
  shows "bwd_done g n s s"
proof -
  have n: "n < nodes g" and sz: "pk_sizes g s" using pre by (simp_all add: bwd_pre_def)
  have "bwd_closed g s (visited s) n" unfolding bwd_closed_def
  proof (intro allI impI)
    fix i w assume a: "(w, i, n) \<in> larcs g (edge_enabled s)" "lower_bound s < pk_ord s ! w"
    then obtain k where k: "k < length (inverted_adjacency_list g ! n)" "inverted_adjacency_list g ! n ! k = mkEdge w i"
      using adj_arc(2) [OF wf n, of i w] larcs_bounds(4) [OF wf a(1)] by (auto simp: in_set_conv_nth)
    have "edge_enabled s ! i" using a by (simp add: larcs_def)
    then show "visited s ! w" using sc k a(2) by force
  qed
  moreover have "s = s\<lparr>visited := visited s, l_xy_B := l_xy_B s @ []\<rparr>" by simp
  moreover have "marked_new g s (visited s) []" using sz by (simp add: marked_new_Nil pk_sizes_def)
  ultimately show ?thesis unfolding bwd_done_def by (intro exI [of _ "visited s"] exI [of _ "[]"]) simp
qed

lemma backward_loop_step:
  assumes wf: "wf_graph g"
    and call: "\<And>m s. bwd_pre g m s \<Longrightarrow> card (unvisited g s) < N \<Longrightarrow> \<exists>s'. backward_loop g m 0 (-1) (-1) s = Some s' \<and> bwd_done g m s s'"
    and sk: "\<And>e. e \<in> set (inverted_adjacency_list g ! n) \<Longrightarrow> int (eid e) \<noteq> sk"
  shows "bwd_pre g n s \<Longrightarrow> card (unvisited g s) \<le> N \<Longrightarrow>
    (\<forall>k < j. k < length (inverted_adjacency_list g ! n) \<longrightarrow> edge_enabled s ! eid (inverted_adjacency_list g ! n ! k) \<longrightarrow>
      lower_bound s < pk_ord s ! node (inverted_adjacency_list g ! n ! k) \<longrightarrow> visited s ! node (inverted_adjacency_list g ! n ! k)) \<Longrightarrow>
    \<exists>s'. backward_loop g n j (-1) sk s = Some s' \<and> bwd_done g n s s'"
proof (induction "length (inverted_adjacency_list g ! n) - j" arbitrary: j s)
  case 0
  then have j: "j \<ge> length (inverted_adjacency_list g ! n)" by simp
  have n: "n < nodes g" using 0(2) by (simp add: bwd_pre_def)
  have "bwd_done g n s s" using 0(4) j by (intro bwd_done_here [OF wf 0(2)]) auto
  then show ?case by (simp add: backward_end [OF wf n j])
next
  case (Suc k)
  then have j: "j < length (inverted_adjacency_list g ! n)" by simp
  define e where e: "e = inverted_adjacency_list g ! n ! j"
  have n: "n < nodes g" and sz: "pk_sizes g s" using Suc.prems(1) by (simp_all add: bwd_pre_def)
  have d: "declares g (eid e) (node e) n" using adj_nth(2) [OF wf n j] by (simp add: e)
  have "int (eid e) \<noteq> sk" using sk j by (simp add: e)
  note step = backward_step [OF wf Suc.prems(1) j e this]
  have next': "\<exists>s'. backward_loop g n (j + 1) (-1) sk t = Some s' \<and> bwd_done g n t s'"
    if "bwd_pre g n t" "card (unvisited g t) \<le> N" "edge_enabled t = edge_enabled s" "pk_ord t = pk_ord s" "lower_bound t = lower_bound s"
      "\<And>x. x < nodes g \<Longrightarrow> visited s ! x \<Longrightarrow> visited t ! x"
      "edge_enabled s ! eid e \<Longrightarrow> lower_bound s < pk_ord s ! node e \<Longrightarrow> visited t ! node e" for t
  proof (rule Suc.hyps(1) [OF _ that(1,2)])
    show "k = length (inverted_adjacency_list g ! n) - (j + 1)" using Suc.hyps(2) by simp
    show "\<forall>k < j + 1. k < length (inverted_adjacency_list g ! n) \<longrightarrow> edge_enabled t ! eid (inverted_adjacency_list g ! n ! k) \<longrightarrow>
      lower_bound t < pk_ord t ! node (inverted_adjacency_list g ! n ! k) \<longrightarrow> visited t ! node (inverted_adjacency_list g ! n ! k)"
      unfolding that(3-5)
      using Suc.prems(3) that(6,7) declares_bounds(1) [OF wf adj_nth(2) [OF wf n]] by (auto simp: less_Suc_eq e)
  qed
  show ?case
  proof (cases "edge_enabled s ! eid e \<and> \<not> visited s ! node e \<and> lower_bound s < pk_ord s ! node e")
    case False
    then show ?thesis using step next' [OF Suc.prems(1,2)] by auto
  next
    case go: True
    then have arc: "(node e, eid e, n) \<in> larcs g (edge_enabled s)"
      using d declares_bounds(3) [OF wf d] sz by (simp add: larcs_def pk_sizes_def)
    have up: "pk_ord s ! node e < pk_ord s ! n" using Suc.prems(1) arc unfolding bwd_pre_def by blast
    let ?s = "s\<lparr>visited := (visited s)[node e := True], l_xy_B := l_xy_B s @ [node e]\<rparr>"
    have m1: "marked_new g s ((visited s)[node e := True]) [node e]"
      using marked_new_one go declares_bounds(1) [OF wf d] sz by (simp add: pk_sizes_def)
    have pre: "bwd_pre g (node e) ?s"
      using Suc.prems(1) go declares_bounds(1) [OF wf d] by (simp add: bwd_pre_def pk_sizes_def)
    have "card (unvisited g ?s) < card (unvisited g s)"
      using marked_new_card [OF m1, of "s\<lparr>l_xy_B := l_xy_B s @ [node e]\<rparr>"] by (simp add: unvisited_def)
    then have "card (unvisited g ?s) < N" using Suc.prems(2) by simp
    from call [OF pre this] obtain s1 where
      r: "backward_loop g (node e) 0 (-1) (-1) ?s = Some s1" "bwd_done g (node e) ?s s1" by blast
    then obtain V F where s1: "s1 = ?s\<lparr>visited := V, l_xy_B := l_xy_B ?s @ F\<rparr>" "marked_new g ?s V F" "bwd_closed g ?s V (node e)"
        "\<forall>x \<in> set F. pk_ord ?s ! x < pk_ord ?s ! node e \<and> lower_bound ?s < pk_ord ?s ! x \<and> bwd_closed g ?s V x"
        unfolding bwd_done_def by auto
    have s1': "s1 = s\<lparr>visited := V, l_xy_B := l_xy_B s @ (node e # F)\<rparr>" using s1(1) by simp
    have m: "marked_new g s V (node e # F)"
        using marked_new_trans [OF m1, of s V F] s1(2) by (simp add: marked_new_def unvisited_def)
    have F: "pk_ord s ! x < pk_ord s ! n \<and> lower_bound s < pk_ord s ! x \<and> bwd_closed g s V x" if "x \<in> set (node e # F)" for x
        using s1(3,4) that up go by (auto simp: bwd_closed_def)
    have pre1: "bwd_pre g n s1" using Suc.prems(1) m by (simp add: s1' bwd_pre_def pk_sizes_def marked_new_def)
    have "card (unvisited g s1) < card (unvisited g s)"
        using marked_new_card [OF m, of "s\<lparr>l_xy_B := l_xy_B s @ (node e # F)\<rparr>"] by (simp add: s1' unvisited_def)
    then have "\<exists>s'. backward_loop g n (j + 1) (-1) sk s1 = Some s' \<and> bwd_done g n s1 s'"
        using Suc.prems(2) m go declares_bounds(1) [OF wf d] by (intro next' [OF pre1]) (auto simp: s1' marked_new_def)
    then show ?thesis using bwd_done_shift [OF wf m F] step go r(1) unfolding s1' by auto
  qed
qed

lemma backward_loop_correct:
  assumes wf: "wf_graph g"
  shows "bwd_pre g n s \<Longrightarrow> \<exists>s'. backward_loop g n 0 (-1) (-1) s = Some s' \<and> bwd_done g n s s'"
proof (induction "card (unvisited g s)" arbitrary: n s rule: less_induct)
  case less
  show ?case
  proof (rule backward_loop_step [OF wf, where N = "card (unvisited g s)"])
    show "\<exists>s'. backward_loop g m 0 (-1) (-1) t = Some s' \<and> bwd_done g m t s'"
      if "bwd_pre g m t" "card (unvisited g t) < card (unvisited g s)" for m t
      using less.hyps [OF that(2,1)] .
  qed (use less.prems in simp_all)
qed

lemma dfs_backward_correct:
  assumes wf: "wf_graph g" and pre: "bwd_pre g n s" and nv: "\<not> visited s ! n" and i: "declares g i u v" "v \<noteq> n"
  shows "\<exists>V B. dfs_backward g n (-1) (int i) s = Some (s\<lparr>visited := V, l_xy_B := l_xy_B s @ n # B\<rparr>) \<and>
     marked_new g s V (n # B) \<and>
     (\<forall>x \<in> set (n # B). pk_ord s ! x \<le> pk_ord s ! n \<and> lower_bound s < pk_ord s ! x \<and> bwd_closed g s V x)"
proof -
  have n: "n < nodes g" and sz: "pk_sizes g s" using pre by (simp_all add: bwd_pre_def)
  let ?s = "s\<lparr>visited := (visited s)[n := True], l_xy_B := l_xy_B s @ [n]\<rparr>"
  have m1: "marked_new g s ((visited s)[n := True]) [n]" using marked_new_one nv n sz by (simp add: pk_sizes_def)
  have pre1: "bwd_pre g n ?s" using pre by (simp add: bwd_pre_def pk_sizes_def)
  have sk: "int (eid e) \<noteq> int i" if "e \<in> set (inverted_adjacency_list g ! n)" for e
  proof
    assume "int (eid e) = int i"
    then have "declares g i (node e) n" using wf_graph_adj(2) [OF wf, of n e] that n by (simp add: nodes_def)
    then show False using i declares_unique by blast
  qed
  have "\<exists>s'. backward_loop g n 0 (-1) (int i) ?s = Some s' \<and> bwd_done g n ?s s'"
  proof (rule backward_loop_step [OF wf, where N = "card (unvisited g ?s)"])
    show "\<exists>s'. backward_loop g m 0 (-1) (-1) t = Some s' \<and> bwd_done g m t s'" if "bwd_pre g m t" for m t
      using backward_loop_correct [OF wf that] .
  qed (use pre1 sk in auto)
  then obtain V B where r: "backward_loop g n 0 (-1) (int i) ?s = Some (?s\<lparr>visited := V, l_xy_B := l_xy_B ?s @ B\<rparr>)"
    "marked_new g ?s V B" "bwd_closed g ?s V n"
    "\<forall>x \<in> set B. pk_ord ?s ! x < pk_ord ?s ! n \<and> lower_bound ?s < pk_ord ?s ! x \<and> bwd_closed g ?s V x"
    unfolding bwd_done_def by blast
  have "dfs_backward g n (-1) (int i) s = Some (s\<lparr>visited := V, l_xy_B := l_xy_B s @ n # B\<rparr>)"
    using r(1) n sz by (simp add: dfs_backward_def enter_B_def pk_sizes_def)
  moreover have "marked_new g s V (n # B)"
    using marked_new_trans [OF m1, of s V B] r(2) by (simp add: marked_new_def unvisited_def)
  moreover have "pk_ord s ! x \<le> pk_ord s ! n \<and> lower_bound s < pk_ord s ! x \<and> bwd_closed g s V x" if "x \<in> set (n # B)" for x
    using r(3,4) that pre by (auto simp: bwd_closed_def bwd_pre_def less_imp_le)
  ultimately show ?thesis by blast
qed

lemma dfs_forward_correct:
  assumes wf: "wf_graph g" and pre: "fwd_pre g n s" and nv: "\<not> visited s ! n"
  shows "(\<exists>V F. dfs_forward g n s = Some (True, s\<lparr>visited := V, l_xy_F := l_xy_F s @ n # F\<rparr>) \<and> marked_new g s V (n # F) \<and>
       (\<forall>x \<in> set (n # F). pk_ord s ! n \<le> pk_ord s ! x \<and> pk_ord s ! x < upper_bound s \<and> fwd_closed g s V x)) \<or>
     (\<exists>s'. dfs_forward g n s = Some (False, s') \<and> fwd_found g n s s')"
proof -
  have n: "n < nodes g" and sz: "pk_sizes g s" using pre by (simp_all add: fwd_pre_def)
  let ?s = "s\<lparr>visited := (visited s)[n := True], l_xy_F := l_xy_F s @ [n]\<rparr>"
  have m1: "marked_new g s ((visited s)[n := True]) [n]" using marked_new_one nv n sz by (simp add: pk_sizes_def)
  have pre1: "fwd_pre g n ?s" using pre by (simp add: fwd_pre_def pk_sizes_def)
  have eq: "dfs_forward g n s = forward_loop g n 0 ?s" using n sz by (simp add: dfs_forward_def enter_F_def pk_sizes_def)
  from forward_loop_correct [OF wf pre1] obtain r s' where
    r: "forward_loop g n 0 ?s = Some (r, s')" "if r then fwd_done g n ?s s' else fwd_found g n ?s s'" by (auto simp: fwd_result_def)
  show ?thesis
  proof (cases r)
    case True
    then obtain V F where s': "s' = ?s\<lparr>visited := V, l_xy_F := l_xy_F ?s @ F\<rparr>"
      "marked_new g ?s V F" "fwd_closed g ?s V n"
      "\<forall>x \<in> set F. pk_ord ?s ! n < pk_ord ?s ! x \<and> pk_ord ?s ! x < upper_bound ?s \<and> fwd_closed g ?s V x"
      using r(2) unfolding fwd_done_def by auto
    have "dfs_forward g n s = Some (True, s\<lparr>visited := V, l_xy_F := l_xy_F s @ n # F\<rparr>)" using r(1) eq True s'(1) by simp
    moreover have "marked_new g s V (n # F)"
      using marked_new_trans [OF m1, of s V F] s'(2) by (simp add: marked_new_def unvisited_def)
    moreover have "pk_ord s ! n \<le> pk_ord s ! x \<and> pk_ord s ! x < upper_bound s \<and> fwd_closed g s V x" if "x \<in> set (n # F)" for x
      using s'(3,4) that pre by (auto simp: fwd_closed_def fwd_pre_def less_imp_le)
    ultimately show ?thesis by blast
  next
    case False
    then show ?thesis using r eq fwd_found_shift [OF m1] by auto
  qed
qed

subsection \<open>Reordering\<close>

lemma mset_merge_ords: "mset (merge_ords ls rs) = mset ls + mset rs"
  by (induction ls rs rule: merge_ords.induct) auto

lemma set_merge_ords: "set (merge_ords ls rs) = set ls \<union> set rs"
  using mset_merge_ords [of ls rs] by (metis set_mset_mset set_mset_union)

lemma length_merge_ords: "length (merge_ords ls rs) = length ls + length rs"
  using mset_merge_ords [of ls rs] by (metis size_mset size_union)

lemma sorted_merge_ords: "sorted ls \<Longrightarrow> sorted rs \<Longrightarrow> sorted (merge_ords ls rs)"
  by (induction ls rs rule: merge_ords.induct) (auto simp: set_merge_ords)

lemma merge_ords_lower: "sorted ls \<Longrightarrow> j < length ls \<Longrightarrow> merge_ords ls rs ! j \<le> ls ! j"
proof (induction ls rs arbitrary: j rule: merge_ords.induct)
  case (1 l ls r rs)
  show ?case
  proof (cases "l \<le> r")
    case True
    then show ?thesis using 1 by (cases j) auto
  next
    case False
    show ?thesis
    proof (cases j)
      case (Suc k)
      have "merge_ords (l # ls) rs ! k \<le> (l # ls) ! k" using 1(2) [OF False 1(3)] 1(4) Suc by simp
      also have "\<dots> \<le> (l # ls) ! Suc k" using 1(4) Suc sorted_nth_mono [OF 1(3), of k "Suc k"] by simp
      finally show ?thesis using False Suc by simp
    qed (use False in simp)
  qed
qed auto

lemma merge_ords_upper: "sorted ls \<Longrightarrow> sorted rs \<Longrightarrow> j < length rs \<Longrightarrow> rs ! j \<le> merge_ords ls rs ! (length ls + j)"
proof (induction ls rs arbitrary: j rule: merge_ords.induct)
  case (1 l ls r rs)
  show ?case
  proof (cases "l \<le> r")
    case True
    then show ?thesis using 1 by simp
  next
    case False
    show ?thesis
    proof (cases j)
      case 0
      have "merge_ords (l # ls) rs ! length ls \<in> set (l # ls) \<union> set rs"
        using nth_mem [of "length ls" "merge_ords (l # ls) rs"] by (simp add: length_merge_ords set_merge_ords)
      then have "r \<le> merge_ords (l # ls) rs ! length ls" using 1(3,4) False by auto
      then show ?thesis using 0 False by simp
    next
      case (Suc k)
      then show ?thesis using 1(2) [OF False 1(3), of k] 1(4,5) False by simp
    qed
  qed
qed auto

lemma assign_ords_Nil [simp]: "assign_ords [] rs p = p"
  by (simp add: assign_ords_def)

lemma assign_ords_Cons [simp]: "assign_ords (w # ws) (r # rs) p = assign_ords ws rs (p[w := r])"
  by (simp add: assign_ords_def)

lemma assign_ords_nth:
  "length rs = length ws \<Longrightarrow> distinct ws \<Longrightarrow> set ws \<subseteq> {..<length p} \<Longrightarrow>
     length (assign_ords ws rs p) = length p \<and> (\<forall>x. x \<notin> set ws \<longrightarrow> assign_ords ws rs p ! x = p ! x) \<and>
     (\<forall>k < length ws. assign_ords ws rs p ! (ws ! k) = rs ! k)"
proof (induction ws arbitrary: rs p)
  case (Cons w ws)
  then obtain r rs' where rs: "rs = r # rs'" by (cases rs) auto
  have "set ws \<subseteq> {..<length (p[w := r])}" "length rs' = length ws" "distinct ws" using Cons.prems by (auto simp: rs)
  note IH = Cons.IH [OF this(2,3,1)]
  have "assign_ords ws rs' (p[w := r]) ! w = r" using IH Cons.prems by simp
  then show ?case using IH Cons.prems by (auto simp: rs nth_Cons' nth_list_update)
qed simp

lemma clear_marks_nth:
  "set ws \<subseteq> {..<length vs} \<Longrightarrow> length (clear_marks ws vs) = length vs \<and>
     (\<forall>x < length vs. clear_marks ws vs ! x \<longleftrightarrow> vs ! x \<and> x \<notin> set ws)"
  unfolding clear_marks_def by (induction ws arbitrary: vs) (auto simp: nth_list_update)

text \<open>The affected region of a new edge from \<open>u\<close> to \<open>v\<close>: \<open>B\<close> are the nodes above the lower bound that reach \<open>u\<close>, \<open>F\<close> those below
  the upper bound that \<open>v\<close> reaches.\<close>

definition region :: "nat \<Rightarrow> int list \<Rightarrow> arc set \<Rightarrow> nat \<Rightarrow> nat \<Rightarrow> nat list \<Rightarrow> nat list \<Rightarrow> bool" where
  "region n p E u v B F \<longleftrightarrow> length p = n \<and> distinct p \<and> set p \<subseteq> {0..<int n} \<and> distinct (B @ F) \<and> set (B @ F) \<subseteq> {..<n} \<and>
     u \<in> set B \<and> v \<in> set F \<and> (\<forall>x i y. (x, i, y) \<in> E \<longrightarrow> x < n \<and> y < n \<and> (p ! x < p ! y \<or> x = u \<and> y = v)) \<and>
     (\<forall>x \<in> set B. p ! v < p ! x \<and> p ! x \<le> p ! u \<and> (\<forall>w i. (w, i, x) \<in> E \<longrightarrow> p ! v < p ! w \<longrightarrow> w \<in> set B \<or> w \<in> set F)) \<and>
     (\<forall>x \<in> set F. p ! v \<le> p ! x \<and> p ! x < p ! u \<and> (\<forall>i y. (x, i, y) \<in> E \<longrightarrow> p ! y \<noteq> p ! u \<and> (p ! y < p ! u \<longrightarrow> y \<in> set F)))"

definition reordered :: "int list \<Rightarrow> nat list \<Rightarrow> nat list \<Rightarrow> int list" where
  "reordered p B F = assign_ords (sort_key ((!) p) B @ sort_key ((!) p) F)
     (merge_ords (map ((!) p) (sort_key ((!) p) B)) (map ((!) p) (sort_key ((!) p) F))) p"

text \<open>Facts on the new numbers: nodes of \<open>B\<close> move down, nodes of \<open>F\<close> move up, all within the region, and the order within
  \<open>B\<close>, within \<open>F\<close>, and of \<open>B\<close> before \<open>F\<close> is kept.\<close>

lemma reordered_facts:
  assumes r: "region n p E u v B F"
  defines "pn \<equiv> reordered p B F"
  shows "length pn = n" "\<And>x. x \<notin> set (B @ F) \<Longrightarrow> pn ! x = p ! x" "\<And>x. x \<in> set B \<Longrightarrow> pn ! x \<le> p ! x"
    "\<And>x. x \<in> set F \<Longrightarrow> p ! x \<le> pn ! x" "\<And>x. x \<in> set (B @ F) \<Longrightarrow> pn ! x \<in> (!) p ` set (B @ F)"
    "\<And>x y. x \<in> set B \<Longrightarrow> y \<in> set F \<Longrightarrow> pn ! x < pn ! y"
    "\<And>x y. x \<in> set B \<Longrightarrow> y \<in> set B \<Longrightarrow> p ! x < p ! y \<Longrightarrow> pn ! x < pn ! y"
    "\<And>x y. x \<in> set F \<Longrightarrow> y \<in> set F \<Longrightarrow> p ! x < p ! y \<Longrightarrow> pn ! x < pn ! y"
proof -
  define b where "b = sort_key ((!) p) B"
  define f where "f = sort_key ((!) p) F"
  define R where "R = merge_ords (map ((!) p) b) (map ((!) p) f)"
  have pn: "pn = assign_ords (b @ f) R p" by (simp add: pn_def reordered_def b_def f_def R_def)
  have st: "set b = set B" "set f = set F" "sorted (map ((!) p) b)" "sorted (map ((!) p) f)" by (simp_all add: b_def f_def)
  have len: "length p = n" "length R = length (b @ f)" by (use r in \<open>simp_all add: region_def R_def length_merge_ords\<close>)
  have di: "distinct (b @ f)" "set (b @ f) \<subseteq> {..<length p}" using r by (auto simp: region_def b_def f_def)
  note pn_nth = assign_ords_nth [OF len(2) di, folded pn]
  have pinj: "inj_on ((!) p) (set (b @ f))"
    using r di(2) by (intro inj_on_nth) (auto simp: region_def)
  have "distinct (map ((!) p) (b @ f))" using di(1) pinj by (simp only: distinct_map)
  moreover have "mset R = mset (map ((!) p) (b @ f))" by (simp add: R_def mset_merge_ords)
  ultimately have "distinct R" by (metis mset_eq_imp_distinct_iff)
  moreover have "sorted R" using st by (simp add: R_def sorted_merge_ords)
  ultimately have "sorted_wrt (<) R" by (simp add: strict_sorted_iff)
  then have R: "R ! j < R ! k" if "j < k" "k < length (b @ f)" for j k
    using that len(2) by (simp add: sorted_wrt_nth_less)
  have qb: "pn ! (b ! k) = R ! k" if "k < length b" for k using pn_nth that by (auto simp: nth_append dest: spec [of _ k])
  have qf: "pn ! (f ! k) = R ! (length b + k)" if "k < length f" for k
    using pn_nth that by (auto simp: nth_append dest: spec [of _ "length b + k"])
  show "length pn = n" using pn_nth len by simp
  show "pn ! x = p ! x" if "x \<notin> set (B @ F)" for x using pn_nth that st by simp
  have inB: "\<exists>k < length b. b ! k = x" if "x \<in> set B" for x using that st(1) by (metis in_set_conv_nth)
  have inF: "\<exists>k < length f. f ! k = x" if "x \<in> set F" for x using that st(2) by (metis in_set_conv_nth)
  show "pn ! x \<le> p ! x" if "x \<in> set B" for x
    using inB [OF that] qb merge_ords_lower [OF st(3), of _ "map ((!) p) f", folded R_def] by auto
  show "p ! x \<le> pn ! x" if "x \<in> set F" for x
    using inF [OF that] qf merge_ords_upper [OF st(3,4), folded R_def] by auto
  have setR: "set R = (!) p ` set (B @ F)" using st by (auto simp: R_def set_merge_ords)
  show "pn ! x \<in> (!) p ` set (B @ F)" if xBF: "x \<in> set (B @ F)" for x
  proof -
    have "\<exists>k < length R. pn ! x = R ! k" if x: "x \<in> set B"
    proof -
      obtain k where "k < length b" "b ! k = x" using inB [OF x] by blast
      then show ?thesis using qb [of k] len(2) by (intro exI [of _ k]) simp
    qed
    moreover have "\<exists>k < length R. pn ! x = R ! k" if x: "x \<in> set F"
    proof -
      obtain k where "k < length f" "f ! k = x" using inF [OF x] by blast
      then show ?thesis using qf [of k] len(2) by (intro exI [of _ "length b + k"]) simp
    qed
    ultimately have "\<exists>k < length R. pn ! x = R ! k" using xBF by auto
    then obtain k where "k < length R" "pn ! x = R ! k" by blast
    then show ?thesis using setR nth_mem by metis
  qed
  show "pn ! x < pn ! y" if xy: "x \<in> set B" "y \<in> set F" for x y
  proof -
    obtain j k where "j < length b" "b ! j = x" "k < length f" "f ! k = y" using inB [OF xy(1)] inF [OF xy(2)] by blast
    then show ?thesis using qb [of j] qf [of k] R [of j "length b + k"] by simp
  qed
  show "pn ! x < pn ! y" if xy: "x \<in> set B" "y \<in> set B" "p ! x < p ! y" for x y
  proof -
    obtain j k where jk: "j < length b" "b ! j = x" "k < length b" "b ! k = y" using inB [OF xy(1)] inB [OF xy(2)] by blast
    have "j < k" using jk xy(3) sorted_nth_mono [OF st(3), of k j] by (fastforce simp: not_less)
    then show ?thesis using jk qb R [of j k] by auto
  qed
  show "pn ! x < pn ! y" if xy: "x \<in> set F" "y \<in> set F" "p ! x < p ! y" for x y
  proof -
    obtain j k where jk: "j < length f" "f ! j = x" "k < length f" "f ! k = y" using inF [OF xy(1)] inF [OF xy(2)] by blast
    have "j < k" using jk xy(3) sorted_nth_mono [OF st(4), of k j] by (fastforce simp: not_less)
    then show ?thesis using jk qf R [of "length b + j" "length b + k"] by auto
  qed
qed

lemma reordered_topo:
  assumes r: "region n p E u v B F"
  shows "topo n (reordered p B F) E"
proof -
  let ?q = "reordered p B F"
  note Q = reordered_facts [OF r]
  have pi: "p ! x = p ! y \<longleftrightarrow> x = y" if "x < n" "y < n" for x y
    using r that nth_eq_iff_index_eq by (auto simp: region_def)
  have BF: "x < n" "p ! v \<le> p ! x" "p ! x \<le> p ! u" if "x \<in> set (B @ F)" for x
    using r that unfolding region_def by (auto simp: less_imp_le)
  have lim: "p ! v \<le> ?q ! x" "?q ! x \<le> p ! u" if "x \<in> set (B @ F)" for x
    using Q(5) [OF that] BF by auto
  have arc: "x < n" "y < n" "p ! x < p ! y \<or> x = u \<and> y = v" if "(x, i, y) \<in> E" for x i y
    using r that unfolding region_def by blast+
  have uv: "u \<in> set B" "v \<in> set F" "set B \<inter> set F = {}" using r by (auto simp: region_def)
  have cF: "p ! y \<noteq> p ! u \<and> (p ! y < p ! u \<longrightarrow> y \<in> set F)" if "x \<in> set F" "(x, i, y) \<in> E" for x i y
    using r that unfolding region_def by blast
  have cB: "x \<in> set B" if "y \<in> set B" "(x, i, y) \<in> E" "p ! v < p ! x" for x i y
  proof -
    have "p ! y \<le> p ! u" "x \<in> set B \<or> x \<in> set F" using r that unfolding region_def by blast+
    then show ?thesis using cF [OF _ that(2)] that(1) uv(3) by force
  qed
  have "?q ! x < ?q ! y" if a: "(x, i, y) \<in> E" for x i y
  proof (cases "x = u \<and> y = v")
    case True
    then show ?thesis using Q(6) uv by blast
  next
    case False
    then have l: "p ! x < p ! y" using arc(3) [OF a] by blast
    show ?thesis
    proof (cases "y \<in> set B")
      case yB: True
      show ?thesis
      proof (cases "x \<in> set B")
        case True
        then show ?thesis using Q(7) yB l by blast
      next
        case False
        then have nv: "\<not> p ! v < p ! x" using cB [OF yB a] by blast
        have "x \<notin> set F"
        proof
          assume "x \<in> set F"
          then show False using cF [OF _ a] BF(3) [of y] yB uv(3) by force
        qed
        then have x: "x \<notin> set (B @ F)" "x \<noteq> v" using False uv by auto
        then have "p ! x < p ! v" using nv pi [OF arc(1) [OF a], of v] BF(1) [of v] uv by force
        then show ?thesis using Q(2) [OF x(1)] lim(1) [of y] yB by simp
      qed
    next
      case ynB: False
      show ?thesis
      proof (cases "y \<in> set F")
        case yF: True
        consider "x \<in> set B" | "x \<in> set F" | "x \<notin> set (B @ F)" by auto
        then show ?thesis
        proof cases
          case 1 then show ?thesis using Q(6) yF by blast
        next
          case 2 then show ?thesis using Q(8) yF l by blast
        next
          case 3 then show ?thesis using Q(2) [OF 3] Q(4) [OF yF] l by linarith
        qed
      next
        case False
        then have y: "y \<notin> set (B @ F)" using ynB by simp
        consider "x \<in> set B" | "x \<in> set F" | "x \<notin> set (B @ F)" by auto
        then show ?thesis
        proof cases
          case 1 then show ?thesis using Q(2) [OF y] Q(3) [OF 1] l by linarith
        next
          case 2
          then have "p ! u < p ! y" using cF [OF 2 a] False by force
          then show ?thesis using Q(2) [OF y] lim(2) [of x] 2 by simp
        next
          case 3 then show ?thesis using Q(2) [OF y] Q(2) [OF 3] l by simp
        qed
      qed
    qed
  qed
  moreover have "inj_on ((!) ?q) {..<n}"
  proof (rule inj_onI)
    fix x y assume xy: "x \<in> {..<n}" "y \<in> {..<n}" "?q ! x = ?q ! y"
    have out: False if "a \<in> set (B @ F)" "b \<notin> set (B @ F)" "b < n" "?q ! a = ?q ! b" for a b
      using Q(5) [OF that(1)] Q(2) [OF that(2)] that pi BF(1) by auto
    have "x = y" if "x \<in> set (B @ F)" "y \<in> set (B @ F)"
    proof (rule ccontr)
      assume "x \<noteq> y"
      then have "p ! x < p ! y \<or> p ! y < p ! x" using pi [of x y] xy by fastforce
      then show False
        using that xy(3) Q(6) [of x y] Q(6) [of y x] Q(7) [of x y] Q(7) [of y x] Q(8) [of x y] Q(8) [of y x] by auto
    qed
    moreover have "x = y" if "x \<notin> set (B @ F)" "y \<notin> set (B @ F)" using Q(2) [OF that(1)] Q(2) [OF that(2)] xy pi by simp
    ultimately show "x = y" using out [of x y] out [of y x] xy by (cases "x \<in> set (B @ F)"; cases "y \<in> set (B @ F)") auto
  qed
  then have "distinct ?q" using Q(1) by (auto simp: distinct_conv_nth inj_on_def)
  moreover have "?q ! x \<in> {0..<int n}" if "x < n" for x
  proof -
    have "\<exists>y < n. ?q ! x = p ! y" using Q(2) [of x] Q(5) [of x] BF(1) that by (cases "x \<in> set (B @ F)") auto
    moreover have "p ! y \<in> {0..<int n}" if "y < n" for y using r that nth_mem [of y p] unfolding region_def by blast
    ultimately show ?thesis by metis
  qed
  then have "set ?q \<subseteq> {0..<int n}" using Q(1) by (auto simp: in_set_conv_nth)
  ultimately show ?thesis using Q(1) by (auto simp: topo_def)
qed

end
