(* ===== verification/PK_Update.thy ===== *)
theory PK_Update
  imports PK_Reordering
begin

text \<open>
  \<open>addEdge\<close>, \<open>removeEdge\<close> and \<open>update\<close> of \<open>dgl/PKTopologicalSort.h\<close>: the invariant of the object between two operations, its
  relation to the change log of the graph, and the contract \<open>cycle_algorithm\<close>. During an update the object's own flags
  \<open>edge_enabled\<close> lag behind the graph, while \<open>topologicalSort\<close> and the nested depth-first search read the graph: the invariant
  \<open>pk_core\<close> is therefore about two sets of arcs, which agree at the end of the log.
\<close>

subsection \<open>The state between two operations\<close>

definition pk_core :: "DynamicGraph \<Rightarrow> arc set \<Rightarrow> arc set \<Rightarrow> PKTopologicalSort \<Rightarrow> bool" where
  "pk_core g A E s \<longleftrightarrow>
     (if has_cycle s
      then cycleComputed s \<and> num_strict_sccs s = 1 \<and> \<not> has_topo s \<and> cycle_marked g s \<and> cyc_any (A \<union> E) (cycle s)
      else cycle s = [] \<and>
        (if has_topo s then topo (nodes g) (pk_ord s) A \<or> topo (nodes g) (pk_ord s) E
         else (\<forall>c. \<not> dicycle A c) \<or> (\<forall>c. \<not> dicycle E c)))"

lemma pk_core_irrelevant [simp]:
  "pk_core g A E (s\<lparr>lower_bound := l, upper_bound := h\<rparr>) = pk_core g A E s"
  "pk_core g A E (s\<lparr>edge_enabled := st\<rparr>) = pk_core g A E s"
  by (simp_all add: pk_core_def cycle_marked_def)

definition dfs_part_ok :: "DynamicGraph \<Rightarrow> DFSCycle \<Rightarrow> bool" where
  "dfs_part_ok g d \<longleftrightarrow> dfs_ready True False g d \<and>
     (0 < d_last_modification d \<longrightarrow> dfs_sizes g d \<and> d_last_modification d \<le> getCurrentHistory g)"

definition pk_ok :: "DynamicGraph \<Rightarrow> PKTopologicalSort \<Rightarrow> bool" where
  "pk_ok g s \<longleftrightarrow> pk_sizes g s \<and> pk_clean s \<and> dfs_part_ok g (dfs_cycle s) \<and>
     pk_core g (larcs g (edge_enabled s)) (arcs g) s"

lemma dfs_update_part:
  assumes wf: "wf_graph g" and d: "dfs_part_ok g d"
  shows "\<exists>d'. dfs_update True False g d = Some d' \<and> dfs_part_ok g d' \<and>
     (if has_directed_cycle d' then dicycle (arcs g) (directed_cycle d') else \<forall>c. \<not> dicycle (arcs g) c)"
proof -
  have rdy: "dfs_ready True False g d" using d by (simp add: dfs_part_ok_def)
  from dfs_update_correct [OF wf rdy] obtain d' where
    d': "dfs_update True False g d = Some d'" "dfs_valid True False g d'" "dfs_ready True False g d'" by blast
  have "0 < d_last_modification d' \<longrightarrow> dfs_sizes g d'"
  proof (cases "d_last_modification d > 0 \<and> getCurrentHistory g = d_last_modification d")
    case True
    then have "d' = d\<lparr>d_stats_skipped_updates := d_stats_skipped_updates d + 1\<rparr>" using d'(1) by (simp add: dfs_update_def)
    then show ?thesis using d by (simp add: dfs_part_ok_def dfs_sizes_def)
  next
    case False
    let ?s = "if d_last_modification d \<le> 0 \<or> changed g then dfs_setNodes g (nodes g) d else d"
    let ?t = "?s\<lparr>has_undirected_cycle := False, has_directed_cycle := False, d_stats_full_updates := d_stats_full_updates ?s + 1\<rparr>"
    have "dfs_sizes g ?t" using rdy by (auto simp: dfs_ready_def dfs_sizes_def dfs_setNodes_def)
    from computeCycles_correct [OF wf this, of True False]
    obtain t where "computeCycles True False g ?t = Some t" "dfs_sizes g t" by auto
    then show ?thesis using d'(1) unfolding dfs_update_def Let_def if_not_P [OF False] by (auto simp: dfs_sizes_def)
  qed
  then show ?thesis using d' dfs_update_last [OF d'(1)] by (auto simp: dfs_part_ok_def dfs_valid_def)
qed

lemma mark_cycle_edges_eq:
  assumes wf: "wf_graph g"
  shows "pk_sizes g s \<Longrightarrow> (\<And>i. i \<in> set c \<Longrightarrow> \<exists>u v. declares g i u v) \<Longrightarrow>
    \<exists>I J. mark_cycle_edges g b c s = Some (s\<lparr>in_cycle := I, edge_in_cycle := J\<rparr>) \<and> pk_sizes g (s\<lparr>in_cycle := I, edge_in_cycle := J\<rparr>) \<and>
      (b \<longrightarrow> (\<forall>u < nodes g. in_cycle s ! u \<longrightarrow> I ! u) \<and> (\<forall>i < edges g. edge_in_cycle s ! i \<longrightarrow> J ! i) \<and>
        (\<forall>i \<in> set c. J ! i \<and> (\<forall>u v. declares g i u v \<longrightarrow> I ! u \<and> I ! v)))"
proof (induction c arbitrary: s)
  case Nil
  have "s = s\<lparr>in_cycle := in_cycle s, edge_in_cycle := edge_in_cycle s\<rparr>" by simp
  then have "mark_cycle_edges g b [] s = Some (s\<lparr>in_cycle := in_cycle s, edge_in_cycle := edge_in_cycle s\<rparr>)" by simp
  moreover have "pk_sizes g (s\<lparr>in_cycle := in_cycle s, edge_in_cycle := edge_in_cycle s\<rparr>)" using Nil(1) by simp
  ultimately show ?case by (intro exI [of _ "in_cycle s"] exI [of _ "edge_in_cycle s"]) simp
next
  case (Cons i c)
  obtain u v where d: "declares g i u v" using Cons.prems(2) [of i] by auto
  note bd = declares_bounds [OF wf d]
  let ?s = "s\<lparr>in_cycle := (in_cycle s)[u := b, v := b], edge_in_cycle := (edge_in_cycle s)[i := b]\<rparr>"
  have eq: "mark_cycle_edges g b (i # c) s = mark_cycle_edges g b c ?s"
    using bd Cons.prems(1) by (simp add: ends_declares [OF d] mark_cycle_def pk_sizes_def)
  have sz: "pk_sizes g ?s" using Cons.prems(1) by (simp add: pk_sizes_def)
  from Cons.IH [OF sz] Cons.prems(2) obtain I J where
    r: "mark_cycle_edges g b c ?s = Some (?s\<lparr>in_cycle := I, edge_in_cycle := J\<rparr>)" "pk_sizes g (?s\<lparr>in_cycle := I, edge_in_cycle := J\<rparr>)"
      "b \<longrightarrow> (\<forall>u < nodes g. in_cycle ?s ! u \<longrightarrow> I ! u) \<and> (\<forall>i < edges g. edge_in_cycle ?s ! i \<longrightarrow> J ! i) \<and>
        (\<forall>i \<in> set c. J ! i \<and> (\<forall>u v. declares g i u v \<longrightarrow> I ! u \<and> I ! v))"
    by auto
  have len: "length (in_cycle s) = nodes g" "length (edge_in_cycle s) = edges g" using Cons.prems(1) by (simp_all add: pk_sizes_def)
  have "b \<longrightarrow> (\<forall>u < nodes g. in_cycle s ! u \<longrightarrow> I ! u) \<and> (\<forall>i < edges g. edge_in_cycle s ! i \<longrightarrow> J ! i) \<and>
        (\<forall>i \<in> set (i # c). J ! i \<and> (\<forall>u v. declares g i u v \<longrightarrow> I ! u \<and> I ! v))"
  proof
    assume b
    have mono: "w < nodes g \<Longrightarrow> in_cycle s ! w \<Longrightarrow> in_cycle ?s ! w" "k < edges g \<Longrightarrow> edge_in_cycle s ! k \<Longrightarrow> edge_in_cycle ?s ! k" for w k
      using \<open>b\<close> len bd by (simp_all add: nth_list_update)
    have "J ! i" "I ! u" "I ! v" using r(3) bd len \<open>b\<close> by (auto simp: nth_list_update)
    then show "(\<forall>u < nodes g. in_cycle s ! u \<longrightarrow> I ! u) \<and> (\<forall>i < edges g. edge_in_cycle s ! i \<longrightarrow> J ! i) \<and>
        (\<forall>i \<in> set (i # c). J ! i \<and> (\<forall>u v. declares g i u v \<longrightarrow> I ! u \<and> I ! v))"
      using r(3) mono \<open>b\<close> declares_unique [OF d] by (metis set_ConsD)
  qed
  then show ?case using r(1,2) eq by (intro exI [of _ I] exI [of _ J]) simp
qed

lemma updateSCCs_correct:
  assumes wf: "wf_graph g" and sz: "pk_sizes g s" and cl: "pk_clean s" and d: "dfs_part_ok g (dfs_cycle s)"
    and s: "has_cycle s" "\<not> cycleComputed s" "cycle s = []" "\<not> has_topo s"
  shows "\<exists>s'. updateSCCs g s = Some s' \<and> pk_sizes g s' \<and> pk_clean s' \<and> dfs_part_ok g (dfs_cycle s') \<and>
     pk_core g A (arcs g) s' \<and> pk_rest s' = pk_rest s"
proof -
  from dfs_update_part [OF wf d] obtain d1 where d1: "dfs_update True False g (dfs_cycle s) = Some d1" "dfs_part_ok g d1"
    "if has_directed_cycle d1 then dicycle (arcs g) (directed_cycle d1) else \<forall>c. \<not> dicycle (arcs g) c" by blast
  from dfs_update_part [OF wf d1(2)] obtain d2 where d2: "dfs_update True False g d1 = Some d2" "dfs_part_ok g d2"
    "if has_directed_cycle d2 then dicycle (arcs g) (directed_cycle d2) else \<forall>c. \<not> dicycle (arcs g) c" by blast
  show ?thesis
  proof (cases "has_directed_cycle d1")
    case False
    let ?s = "s\<lparr>dfs_cycle := d1, has_cycle := False, num_strict_sccs := 0, cycleComputed := False, cycle := []\<rparr>"
    have "updateSCCs g s = Some ?s" using s d1(1) False by (simp add: updateSCCs_def dfs_hasDirectedCycle_def)
    then show ?thesis using sz cl d1 s(4) False
      by (simp add: pk_core_def pk_sizes_def pk_clean_def pk_rest_def sort_rest_def)
  next
    case True
    then have dc: "dicycle (arcs g) (directed_cycle d2)" using d1(3) d2(3) by (auto split: if_splits)
    let ?c = "directed_cycle d2"
    let ?t = "s\<lparr>cycle := ?c, dfs_cycle := d2\<rparr>"
    have szt: "pk_sizes g ?t" using sz by (simp add: pk_sizes_def)
    have dec: "\<exists>u v. declares g i u v" if "i \<in> set ?c" for i using dicycle_edges [OF dc that] by (auto simp: arcs_iff)
    have "\<exists>I J. mark_cycle_edges g True ?c ?t = Some (?t\<lparr>in_cycle := I, edge_in_cycle := J\<rparr>) \<and>
      pk_sizes g (?t\<lparr>in_cycle := I, edge_in_cycle := J\<rparr>) \<and> (\<forall>i \<in> set ?c. J ! i \<and> (\<forall>u v. declares g i u v \<longrightarrow> I ! u \<and> I ! v))"
      using mark_cycle_edges_eq [OF wf szt, of ?c True] dec by blast
    then obtain I J where m: "mark_cycle_edges g True ?c ?t = Some (?t\<lparr>in_cycle := I, edge_in_cycle := J\<rparr>)"
      "pk_sizes g (?t\<lparr>in_cycle := I, edge_in_cycle := J\<rparr>)" "\<forall>i \<in> set ?c. J ! i \<and> (\<forall>u v. declares g i u v \<longrightarrow> I ! u \<and> I ! v)" by blast
    let ?s = "?t\<lparr>in_cycle := I, edge_in_cycle := J, num_strict_sccs := 1, cycleComputed := True\<rparr>"
    have ne: "?c \<noteq> []" using dc by (simp add: dicycle_def)
    have "updateSCCs g s = Some ?s"
      using s d1(1) d2(1) True m(1) ne by (simp add: updateSCCs_def dfs_hasDirectedCycle_def dfs_getDirectedCycle_def)
    moreover have "cyc_any (A \<union> arcs g) ?c" using dc dicycle_mono [of "arcs g" "A \<union> arcs g"] by (auto simp: cyc_any_def)
    ultimately show ?thesis using m(2,3) cl d2(2) s(1,4)
      by (simp add: pk_core_def pk_sizes_def pk_clean_def pk_rest_def sort_rest_def cycle_marked_def)
  qed
qed

subsection \<open>Removing an edge\<close>

lemma declares_only: "declares g i u v \<Longrightarrow> declares g i a b \<longleftrightarrow> a = u \<and> b = v"
  using declares_unique by blast

lemma larcs_remove:
  assumes "declares g i u v" "i < length st"
  shows "larcs g (st[i := False]) = larcs g st - {(u, i, v)}"
  using assms declares_only [OF assms(1)] by (auto simp: larcs_def nth_list_update split: if_splits)

lemma larcs_add:
  assumes "declares g i u v" "i < length st"
  shows "larcs g (st[i := True]) = insert (u, i, v) (larcs g st)"
  using assms declares_only [OF assms(1)] by (auto simp: larcs_def nth_list_update split: if_splits)

lemma cyc_any_mono: "E \<subseteq> F \<Longrightarrow> cyc_any E c \<Longrightarrow> cyc_any F c"
  using dicycle_mono [of E F] by (auto simp: cyc_any_def)

lemma cyc_any_local:
  assumes "cyc_any E c" "\<And>u i w. (u, i, w) \<in> E \<Longrightarrow> i \<in> set c \<Longrightarrow> (u, i, w) \<in> F"
  shows "cyc_any F c"
  using assms is_cycle_local [of False E c F] is_cycle_local [of False E "rev c" F]
  by (auto simp: cyc_any_def is_cycle_def)

lemma cyc_any_edges: "cyc_any E c \<Longrightarrow> i \<in> set c \<Longrightarrow> \<exists>u w. (u, i, w) \<in> E"
  using dicycle_edges [of E c i] dicycle_edges [of E "rev c" i] by (auto simp: cyc_any_def)

lemma cyc_any_ex: "(\<exists>c. cyc_any E c) \<longleftrightarrow> (\<exists>c. dicycle E c)"
  by (auto simp: cyc_any_def)

lemma pk_rest_fields:
  assumes "pk_rest s' = pk_rest s"
  shows "edge_enabled s' = edge_enabled s" "pk_history_qhead s' = pk_history_qhead s" "alg_id s' = alg_id s"
    "force_dag s' = force_dag s" "pk_last_modification s' = pk_last_modification s"
    "pk_last_history_clear s' = pk_last_history_clear s"
  using arg_cong [OF assms, of edge_enabled] arg_cong [OF assms, of pk_history_qhead] arg_cong [OF assms, of alg_id]
    arg_cong [OF assms, of force_dag] arg_cong [OF assms, of pk_last_modification] arg_cong [OF assms, of pk_last_history_clear]
  by (simp_all add: pk_rest_def sort_rest_def)

lemma pk_core_remove:
  assumes core: "pk_core g A E s" and i: "has_cycle s \<Longrightarrow> i \<notin> set (cycle s)"
  shows "pk_core g (A - {(u, i, v)}) E s"
proof -
  have "cyc_any (A - {(u, i, v)} \<union> E) (cycle s)" if "cyc_any (A \<union> E) (cycle s)" "has_cycle s"
    using that(1) i [OF that(2)] by (elim cyc_any_local) auto
  moreover have "topo (nodes g) (pk_ord s) A \<Longrightarrow> topo (nodes g) (pk_ord s) (A - {(u, i, v)})" using topo_mono by blast
  moreover have "(\<forall>c. \<not> dicycle A c) \<Longrightarrow> (\<forall>c. \<not> dicycle (A - {(u, i, v)}) c)"
    using dicycle_mono [of "A - {(u, i, v)}" A] by blast
  ultimately show ?thesis using core unfolding pk_core_def by (auto split: if_splits)
qed

lemma pk_removeEdge_correct:
  assumes wf: "wf_graph g" and ok: "pk_ok g s" and d: "declares g i u v" and off: "\<not> edge_status g ! i"
  defines "t \<equiv> s\<lparr>edge_enabled := (edge_enabled s)[i := False]\<rparr>"
  shows "\<exists>s'. pk_removeEdge g i t = Some s' \<and> pk_ok g s' \<and> pk_rest s' = pk_rest t"
proof -
  let ?A = "larcs g (edge_enabled s)"
  note bd = declares_bounds [OF wf d]
  have sz: "pk_sizes g t" and cl: "pk_clean t" and dp: "dfs_part_ok g (dfs_cycle t)" and core: "pk_core g ?A (arcs g) s"
    using ok by (simp_all add: pk_ok_def t_def pk_sizes_def pk_clean_def)
  have A: "larcs g (edge_enabled t) = ?A - {(u, i, v)}"
    using larcs_remove [OF d] bd ok by (simp add: t_def pk_ok_def pk_sizes_def)
  have keep: "pk_ok g t" if "has_cycle s \<Longrightarrow> i \<notin> set (cycle s)"
  proof -
    have "pk_core g (?A - {(u, i, v)}) (arcs g) t" using pk_core_remove [OF core that] by (simp add: t_def)
    then show ?thesis using sz cl dp A by (simp add: pk_ok_def)
  qed
  have len: "length (edge_in_cycle t) = edges g" "length (in_cycle t) = nodes g" using sz by (simp_all add: pk_sizes_def)
  show ?thesis
  proof (cases "has_cycle s")
    case False
    then show ?thesis using keep by (simp add: pk_removeEdge_def t_def)
  next
    case True
    then have c: "cycleComputed s" "num_strict_sccs s = 1" "\<not> has_topo s" "cycle_marked g s" "cyc_any (?A \<union> arcs g) (cycle s)"
      using core by (simp_all add: pk_core_def)
    then have ne: "cycle t \<noteq> []" by (auto simp: cyc_any_def dicycle_def t_def)
    have mk: "edge_in_cycle t ! i \<and> in_cycle t ! v" if "i \<in> set (cycle s)"
      using c(4) that d by (auto simp: cycle_marked_def t_def)
    show ?thesis
    proof (cases "edge_in_cycle t ! i \<and> in_cycle t ! v")
      case no: False
      then have "pk_removeEdge g i t = Some t"
        using True c ne len bd cl ends_declares [OF d]
        by (auto simp: pk_removeEdge_def invalidateSCC_def t_def pk_clean_def)
      then show ?thesis using keep mk no by auto
    next
      case yes: True
      have dec: "\<exists>u v. declares g k u v" if "k \<in> set (cycle t)" for k
        using cyc_any_edges [OF c(5), of k] that by (auto simp: t_def larcs_def arcs_def)
      let ?t0 = "t\<lparr>num_strict_sccs := 0\<rparr>"
      have "pk_sizes g ?t0" using sz by (simp add: pk_sizes_def)
      from mark_cycle_edges_eq [OF wf this, of "cycle t" False] dec obtain I J where
        m: "mark_cycle_edges g False (cycle t) ?t0 = Some (?t0\<lparr>in_cycle := I, edge_in_cycle := J\<rparr>)"
          "pk_sizes g (?t0\<lparr>in_cycle := I, edge_in_cycle := J\<rparr>)" by blast
      let ?t1 = "?t0\<lparr>in_cycle := I, edge_in_cycle := J, cycle := [], cycleComputed := False\<rparr>"
      have inv: "invalidateSCC g v t = Some ?t1" using ne len bd yes m(1) by (simp add: invalidateSCC_def)
      have eq: "pk_removeEdge g i t = updateSCCs g ?t1"
        using True c cl yes len bd inv ends_declares [OF d] by (simp add: pk_removeEdge_def t_def pk_clean_def)
      have "pk_sizes g ?t1" "pk_clean ?t1" "dfs_part_ok g (dfs_cycle ?t1)" "has_cycle ?t1" "\<not> cycleComputed ?t1" "cycle ?t1 = []" "\<not> has_topo ?t1"
        using m(2) cl dp True c by (simp_all add: pk_sizes_def pk_clean_def t_def)
      from updateSCCs_correct [OF wf this, of "larcs g (edge_enabled t)"] obtain s' where
        s': "updateSCCs g ?t1 = Some s'" "pk_sizes g s'" "pk_clean s'" "dfs_part_ok g (dfs_cycle s')"
        "pk_core g (larcs g (edge_enabled t)) (arcs g) s'" "pk_rest s' = pk_rest ?t1" by blast
      have "pk_rest ?t1 = pk_rest t" by (simp add: pk_rest_def sort_rest_def)
      then show ?thesis using eq s' pk_rest_fields(1) [of s' t] by (auto simp: pk_ok_def)
    qed
  qed
qed

subsection \<open>Adding an edge\<close>

text \<open>The situation in which \<open>addEdge\<close> starts its searches: the order is right but for the new edge from \<open>u\<close> to \<open>v\<close>.\<close>

definition inserting :: "DynamicGraph \<Rightarrow> PKTopologicalSort \<Rightarrow> nat \<Rightarrow> nat \<Rightarrow> nat \<Rightarrow> arc set \<Rightarrow> bool" where
  "inserting g s i u v A \<longleftrightarrow> pk_sizes g s \<and> pk_clean s \<and> has_topo s \<and> \<not> has_cycle s \<and> cycle s = [] \<and> declares g i u v \<and>
     larcs g (edge_enabled s) = insert (u, i, v) A \<and> topo (nodes g) (pk_ord s) A \<and> pk_ord s ! v < pk_ord s ! u \<and>
     lower_bound s = pk_ord s ! v \<and> upper_bound s = pk_ord s ! u"

definition inserted :: "DynamicGraph \<Rightarrow> PKTopologicalSort \<Rightarrow> arc set \<Rightarrow> PKTopologicalSort \<Rightarrow> bool" where
  "inserted g s A s' \<longleftrightarrow> pk_sizes g s' \<and> pk_clean s' \<and> dfs_cycle s' = dfs_cycle s \<and> pk_rest s' = pk_rest s \<and>
     (has_cycle s' \<or> has_topo s') \<and> (\<forall>E. pk_core g A E s')"

lemma insertingD:
  assumes "wf_graph g" "inserting g s i u v A"
  shows "\<forall>x < nodes g. \<not> visited s ! x" "l_xy_F s = []" "l_xy_B s = []" "u < nodes g" "v < nodes g" "declares g i u v"
    "(x, k, y) \<in> insert (u, i, v) A \<Longrightarrow> (pk_ord s ! x < pk_ord s ! y \<or> x = u \<and> y = v) \<and> x < nodes g \<and> y < nodes g"
proof -
  have s: "pk_sizes g s" "pk_clean s" "topo (nodes g) (pk_ord s) A" and d: "declares g i u v"
    and A: "larcs g (edge_enabled s) = insert (u, i, v) A" using assms(2) by (simp_all add: inserting_def)
  show "\<forall>x < nodes g. \<not> visited s ! x"
    using s(1,2) nth_mem [of _ "visited s"] unfolding pk_clean_def pk_sizes_def by metis
  show "l_xy_F s = []" "l_xy_B s = []" using s(2) by (simp_all add: pk_clean_def)
  show "u < nodes g" "v < nodes g" "declares g i u v" using declares_bounds [OF assms(1) d] d by simp_all
  show "(pk_ord s ! x < pk_ord s ! y \<or> x = u \<and> y = v) \<and> x < nodes g \<and> y < nodes g" if "(x, k, y) \<in> insert (u, i, v) A"
    using s(3) that larcs_bounds [OF assms(1) that [folded A]] by (auto simp: topo_def)
qed

lemma all_unmarked:
  assumes "marked_new g s V F" "\<forall>x < nodes g. \<not> visited s ! x"
  shows "x < nodes g \<Longrightarrow> V ! x \<longleftrightarrow> x \<in> set F" "set F \<subseteq> {..<nodes g}" "distinct F" "length V = nodes g"
  using assms by (auto simp: marked_new_def unvisited_def)

lemma clear_marks_all:
  assumes "length V = n" "set ws \<subseteq> {..<n}" "\<And>x. x < n \<Longrightarrow> V ! x \<Longrightarrow> x \<in> set ws"
  shows "True \<notin> set (clear_marks ws V)" "length (clear_marks ws V) = n"
  using assms clear_marks_nth [of ws V] by (auto simp: in_set_conv_nth)

text \<open>The forward search met the source of the new edge.\<close>

lemma insert_cycle:
  assumes wf: "wf_graph g" and ins: "inserting g s i u v A" and f: "fwd_found g v s s1"
  shows "\<exists>s2. push_cycle u v i s1 = Some s2 \<and>
     inserted g s (insert (u, i, v) A) (s2\<lparr>visited := clear_marks (l_xy_F s2) (clear_marks (l_xy_B s2) (visited s2)),
                        l_xy_F := [], l_xy_B := [], has_topo := False\<rparr>) \<and> has_cycle s1"
proof -
  let ?A = "insert (u, i, v) A"
  note I = insertingD [OF wf ins]
  have A: "larcs g (edge_enabled s) = ?A" and topo: "topo (nodes g) (pk_ord s) A" and ub: "upper_bound s = pk_ord s ! u"
    and cl: "pk_clean s" using ins by (simp_all add: inserting_def)
  obtain V F c M N w where s1: "s1 = s\<lparr>visited := V, l_xy_F := l_xy_F s @ F, has_cycle := True, cycleComputed := True,
      num_strict_sccs := 1, cycle := c, in_cycle := M, edge_in_cycle := N\<rparr>" "marked_new g s V F" "w < nodes g"
      "pk_ord s ! w = pk_ord s ! u" "walk ?A v (rev c) w" using f unfolding fwd_found_def ub A by blast
  have "w = u" using s1(3,4) topo I(4) nth_eq_iff_index_eq [of "pk_ord s" w u] by (simp add: topo_def)
  then have "walk ?A u (i # rev c) u" using s1(5) by auto
  then have cyc: "dicycle ?A (rev (c @ [i]))" unfolding dicycle_def by auto
  have z: "pk_sizes g s1" "cycle_marked g s1" using f by (simp_all add: fwd_found_def)
  let ?s2 = "s1\<lparr>cycle := cycle s1 @ [i], in_cycle := (in_cycle s1)[u := True, v := True], edge_in_cycle := (edge_in_cycle s1)[i := True]\<rparr>"
  let ?s3 = "?s2\<lparr>visited := clear_marks (l_xy_F ?s2) (clear_marks (l_xy_B ?s2) (visited ?s2)), l_xy_F := [], l_xy_B := [], has_topo := False\<rparr>"
  have p: "push_cycle u v i s1 = Some ?s2" using push_cycle_eq [OF wf z(1) I(6)] .
  have s3: "?s3 = ?s2\<lparr>visited := clear_marks F V, l_xy_F := [], l_xy_B := [], has_topo := False\<rparr>"
    using I(2,3) by (simp add: s1(1) clear_marks_def)
  have V: "True \<notin> set (clear_marks F V)" "length (clear_marks F V) = nodes g"
    using clear_marks_all [of V "nodes g" F] all_unmarked [OF s1(2) I(1)] by auto
  have m: "cycle_marked g ?s2" using cycle_marked_push [OF wf z(1) I(6) z(2) p] .
  have "pk_core g ?A E ?s3" for E
    unfolding s3 using m dicycle_mono [OF Un_upper1 cyc, of E] by (simp add: pk_core_def cyc_any_def cycle_marked_def s1(1))
  moreover have "pk_sizes g ?s3" "pk_clean ?s3" "pk_rest ?s3 = pk_rest s" "dfs_cycle ?s3 = dfs_cycle s"
    unfolding s3 using z(1) V cl by (simp_all add: pk_sizes_def pk_clean_def pk_rest_def sort_rest_def s1(1))
  ultimately show ?thesis using p unfolding inserted_def by (simp add: s1(1))
qed

text \<open>Both searches returned: what they collected is the affected region.\<close>

lemma insert_region:
  assumes wf: "wf_graph g" and ins: "inserting g s i u v A" and VF: "marked_new g s V (v # F)"
    and fw: "\<forall>x \<in> set (v # F). pk_ord s ! v \<le> pk_ord s ! x \<and> pk_ord s ! x < pk_ord s ! u \<and> fwd_closed g s V x"
    and WB: "marked_new g (s\<lparr>visited := V, l_xy_F := v # F\<rparr>) W (u # B)"
    and bw: "\<forall>x \<in> set (u # B). pk_ord s ! x \<le> pk_ord s ! u \<and> pk_ord s ! v < pk_ord s ! x \<and> bwd_closed g s W x"
  shows "region (nodes g) (pk_ord s) (insert (u, i, v) A) u v (u # B) (v # F)"
    "length W = nodes g" "\<forall>x < nodes g. W ! x \<longrightarrow> x \<in> set ((u # B) @ v # F)"
proof -
  let ?A = "insert (u, i, v) A"
  note I = insertingD [OF wf ins] and F = all_unmarked [OF VF insertingD(1) [OF wf ins]]
  have A: "larcs g (edge_enabled s) = ?A" and tp: "topo (nodes g) (pk_ord s) A"
    and b: "lower_bound s = pk_ord s ! v" "upper_bound s = pk_ord s ! u" using ins by (simp_all add: inserting_def)
  have W: "W ! x \<longleftrightarrow> x \<in> set (v # F) \<or> x \<in> set (u # B)" if "x < nodes g" for x
    using WB F(1) [OF that] that by (simp add: marked_new_def)
  then show "\<forall>x < nodes g. W ! x \<longrightarrow> x \<in> set ((u # B) @ v # F)" by auto
  have B: "distinct (u # B)" "set (u # B) \<subseteq> {..<nodes g}" "set (u # B) \<inter> set (v # F) = {}" and "length W = nodes g"
    using WB F(1) unfolding marked_new_def unvisited_def by auto
  then show "length W = nodes g" by simp
  have fc: "pk_ord s ! y \<noteq> pk_ord s ! u \<and> (pk_ord s ! y < pk_ord s ! u \<longrightarrow> y \<in> set (v # F))"
    if "x \<in> set (v # F)" "(x, k, y) \<in> ?A" for x k y
    using fw that F(1) I(7) [OF that(2)] unfolding fwd_closed_def A b by blast
  have bc: "x \<in> set (u # B) \<or> x \<in> set (v # F)" if "y \<in> set (u # B)" "(x, k, y) \<in> ?A" "pk_ord s ! v < pk_ord s ! x" for x k y
  proof -
    have "bwd_closed g s W y" using bw that(1) by blast
    then have "W ! x" using that(2,3) unfolding bwd_closed_def A b by blast
    then show ?thesis using W I(7) [OF that(2)] by blast
  qed
  show "region (nodes g) (pk_ord s) ?A u v (u # B) (v # F)" unfolding region_def
  proof (intro conjI)
    show "length (pk_ord s) = nodes g" "distinct (pk_ord s)" "set (pk_ord s) \<subseteq> {0..<int (nodes g)}"
      using tp by (simp_all add: topo_def)
    show "distinct ((u # B) @ v # F)" "set ((u # B) @ v # F) \<subseteq> {..<nodes g}" using B F(2,3) by auto
    show "\<forall>x i y. (x, i, y) \<in> ?A \<longrightarrow> x < nodes g \<and> y < nodes g \<and> (pk_ord s ! x < pk_ord s ! y \<or> x = u \<and> y = v)"
      using I(7) by blast
    show "\<forall>x \<in> set (u # B). pk_ord s ! v < pk_ord s ! x \<and> pk_ord s ! x \<le> pk_ord s ! u \<and>
       (\<forall>w i. (w, i, x) \<in> ?A \<longrightarrow> pk_ord s ! v < pk_ord s ! w \<longrightarrow> w \<in> set (u # B) \<or> w \<in> set (v # F))"
      using bw bc by blast
    show "\<forall>x \<in> set (v # F). pk_ord s ! v \<le> pk_ord s ! x \<and> pk_ord s ! x < pk_ord s ! u \<and>
       (\<forall>i y. (x, i, y) \<in> ?A \<longrightarrow> pk_ord s ! y \<noteq> pk_ord s ! u \<and> (pk_ord s ! y < pk_ord s ! u \<longrightarrow> y \<in> set (v # F)))"
      using fw fc by blast
  qed simp_all
qed

lemma reorder_region:
  assumes ins: "inserting g s i u v A" and r: "region (nodes g) (pk_ord s) (insert (u, i, v) A) u v B F"
    and W: "length W = nodes g" "\<forall>x < nodes g. W ! x \<longrightarrow> x \<in> set (B @ F)"
  shows "\<exists>s'. reorder (s\<lparr>l_xy_F := F, visited := W, l_xy_B := B\<rparr>) = Some s' \<and> inserted g s (insert (u, i, v) A) s'"
proof -
  let ?s = "s\<lparr>l_xy_F := F, visited := W, l_xy_B := B\<rparr>"
  let ?ws = "sort_key ((!) (pk_ord s)) B @ sort_key ((!) (pk_ord s)) F"
  let ?s' = "?s\<lparr>pk_L := ?ws, pk_R := merge_ords (map ((!) (pk_ord s)) (sort_key ((!) (pk_ord s)) B))
        (map ((!) (pk_ord s)) (sort_key ((!) (pk_ord s)) F)), visited := clear_marks ?ws W,
        pk_ord := reordered (pk_ord s) B F, l_xy_B := [], l_xy_F := []\<rparr>"
  have s: "pk_sizes g s" "pk_clean s" "has_topo s" "\<not> has_cycle s" "cycle s = []" using ins by (simp_all add: inserting_def)
  have BF: "set (B @ F) \<subseteq> {..<nodes g}" and len: "length (pk_ord s) = nodes g" using r by (simp_all add: region_def)
  have "reorder ?s = Some ?s'" using BF W(1) len by (auto simp: reorder_def Let_def reordered_def)
  moreover have "True \<notin> set (clear_marks ?ws W)" "length (clear_marks ?ws W) = nodes g"
    using clear_marks_all [of W "nodes g" ?ws] W BF by auto
  then have "pk_sizes g ?s'" "pk_clean ?s'" "pk_rest ?s' = pk_rest s" "dfs_cycle ?s' = dfs_cycle s"
    using s(1,2) reordered_topo [OF r] by (simp_all add: pk_sizes_def pk_clean_def pk_rest_def sort_rest_def topo_def)
  moreover have "pk_core g (insert (u, i, v) A) E ?s'" for E using reordered_topo [OF r] s(3-5) by (simp add: pk_core_def)
  moreover have "has_topo ?s'" using s(3) by simp
  ultimately show ?thesis unfolding inserted_def by blast
qed

lemma insert_edge_correct:
  assumes wf: "wf_graph g" and ins: "inserting g s i u v A"
  shows "\<exists>s'. (do { (_, s) \<leftarrow> dfs_forward g v s;
              if \<not> has_cycle s then do {
                s \<leftarrow> dfs_backward g u (if has_cycle s then int v else -1) (int i) s;
                reorder s
              } else do {
                s \<leftarrow> push_cycle u v i s;
                Some (s\<lparr>visited := clear_marks (l_xy_F s) (clear_marks (l_xy_B s) (visited s)),
                        l_xy_F := [], l_xy_B := [], has_topo := False\<rparr>)
              } }) = Some s' \<and> inserted g s (insert (u, i, v) A) s'" (is "\<exists>s'. ?run = Some s' \<and> _")
proof -
  let ?A = "insert (u, i, v) A"
  note I = insertingD [OF wf ins]
  have s: "pk_sizes g s" "\<not> has_cycle s" "cycle s = []" "pk_ord s ! v < pk_ord s ! u" "larcs g (edge_enabled s) = ?A"
    and b: "lower_bound s = pk_ord s ! v" "upper_bound s = pk_ord s ! u" using ins by (simp_all add: inserting_def)
  have pre: "fwd_pre g v s" unfolding fwd_pre_def s(5) b using s I(5,7) by (metis order_less_irrefl)
  have "\<not> visited s ! v" using I(1,5) by blast
  from dfs_forward_correct [OF wf pre this] show ?thesis
  proof
    assume "\<exists>s'. dfs_forward g v s = Some (False, s') \<and> fwd_found g v s s'"
    then obtain s1 where f: "dfs_forward g v s = Some (False, s1)" "fwd_found g v s s1" by blast
    from insert_cycle [OF wf ins f(2)] show ?thesis using f(1) by auto
  next
    assume "\<exists>V F. dfs_forward g v s = Some (True, s\<lparr>visited := V, l_xy_F := l_xy_F s @ v # F\<rparr>) \<and> marked_new g s V (v # F) \<and>
       (\<forall>x \<in> set (v # F). pk_ord s ! v \<le> pk_ord s ! x \<and> pk_ord s ! x < upper_bound s \<and> fwd_closed g s V x)"
    then obtain V F where f: "dfs_forward g v s = Some (True, s\<lparr>visited := V, l_xy_F := v # F\<rparr>)" "marked_new g s V (v # F)"
       "\<forall>x \<in> set (v # F). pk_ord s ! v \<le> pk_ord s ! x \<and> pk_ord s ! x < pk_ord s ! u \<and> fwd_closed g s V x"
      unfolding b using I(2) by auto
    let ?s1 = "s\<lparr>visited := V, l_xy_F := v # F\<rparr>"
    note VF = all_unmarked [OF f(2) I(1)]
    have "u \<notin> set (v # F)" using f(3) by blast
    then have uv: "\<not> visited ?s1 ! u" "v \<noteq> u" using VF(1) I(4) by auto
    have up: "pk_ord s ! x < pk_ord s ! y" if "(x, k, y) \<in> ?A" "pk_ord s ! v < pk_ord s ! y" for x k y
      using I(7) [OF that(1)] that(2) by auto
    have pre1: "bwd_pre g u ?s1" using s I(4) VF(4) b up by (auto simp: bwd_pre_def pk_sizes_def)
    from dfs_backward_correct [OF wf pre1 uv(1) I(6) uv(2)] obtain W B where
      w: "dfs_backward g u (-1) (int i) ?s1 = Some (?s1\<lparr>visited := W, l_xy_B := l_xy_B ?s1 @ u # B\<rparr>)" "marked_new g ?s1 W (u # B)"
      "\<forall>x \<in> set (u # B). pk_ord ?s1 ! x \<le> pk_ord ?s1 ! u \<and> lower_bound ?s1 < pk_ord ?s1 ! x \<and> bwd_closed g ?s1 W x" by blast
    have "bwd_closed g ?s1 W x = bwd_closed g s W x" for x by (simp add: bwd_closed_def)
    then have bw: "\<forall>x \<in> set (u # B). pk_ord s ! x \<le> pk_ord s ! u \<and> pk_ord s ! v < pk_ord s ! x \<and> bwd_closed g s W x"
      using w(3) b by simp
    note reg = insert_region [OF wf ins f(2,3) w(2) bw]
    from reorder_region [OF ins reg] obtain s' where
      "reorder (s\<lparr>l_xy_F := v # F, visited := W, l_xy_B := u # B\<rparr>) = Some s'" "inserted g s ?A s'" by blast
    then show ?thesis using f(1) w(1) I(3) s(2) by (intro exI [of _ s']) simp
  qed
qed

lemma pk_core_grow:
  assumes "pk_core g A E s" "has_cycle s"
  shows "pk_core g (insert a A) E s"
  using assms cyc_any_mono [of "A \<union> E" "insert a A \<union> E" "cycle s"] by (auto simp: pk_core_def)

lemma pk_addEdge_correct:
  assumes wf: "wf_graph g" and ok: "pk_ok g s" and d: "declares g i u v" and uv: "u \<noteq> v" and on: "edge_status g ! i"
  defines "t \<equiv> s\<lparr>edge_enabled := (edge_enabled s)[i := True]\<rparr>"
  shows "\<exists>s'. pk_addEdge g i t = Some s' \<and> pk_ok g s' \<and> pk_rest s' = pk_rest t"
proof -
  let ?A = "larcs g (edge_enabled s)"
  note bd = declares_bounds [OF wf d]
  have sz: "pk_sizes g t" and cl: "pk_clean t" and dp: "dfs_part_ok g (dfs_cycle t)" and core: "pk_core g ?A (arcs g) t"
    using ok by (simp_all add: pk_ok_def t_def pk_sizes_def pk_clean_def)
  have A: "larcs g (edge_enabled t) = insert (u, i, v) ?A"
    using larcs_add [OF d] bd ok by (simp add: t_def pk_ok_def pk_sizes_def)
  have arc: "(u, i, v) \<in> arcs g" using d on bd wf_graph_lengths [OF wf] by (simp add: arcs_iff edges_def)
  have len: "length (pk_ord t) = nodes g" using sz by (simp add: pk_sizes_def)
  have fin: "pk_ok g s'" if "pk_sizes g s'" "pk_clean s'" "dfs_cycle s' = dfs_cycle t" "pk_rest s' = pk_rest t"
    "pk_core g (insert (u, i, v) ?A) (arcs g) s'" for s'
    using that dp A pk_rest_fields(1) [OF that(4)] by (simp add: pk_ok_def)
  let ?b = "\<lambda>s. s\<lparr>lower_bound := pk_ord s ! v, upper_bound := pk_ord s ! u\<rparr>"
  have keepb: "pk_sizes g (?b r)" "pk_clean (?b r)" "pk_rest (?b r) = pk_rest t" "dfs_cycle (?b r) = dfs_cycle t"
    if "pk_sizes g r" "pk_clean r" "pk_rest r = pk_rest t" "dfs_cycle r = dfs_cycle t" for r
    using that by (simp_all add: pk_sizes_def pk_clean_def pk_rest_def sort_rest_def)
  show ?thesis
  proof (cases "has_cycle t")
    case True
    then have "pk_addEdge g i t = Some t" by (simp add: pk_addEdge_def)
    then show ?thesis using fin [OF sz cl] pk_core_grow [OF core True] by simp
  next
    case nc: False
    then have c0: "cycle t = []" using core by (simp add: pk_core_def)
    show ?thesis
    proof (cases "has_topo t")
      case False
      from topologicalSort_correct [OF wf sz cl False nc c0] obtain r s1 where
        s1: "topologicalSort g t = Some (r, s1)" "pk_sizes g s1" "pk_clean s1" "pk_rest s1 = pk_rest t" "dfs_cycle s1 = dfs_cycle t"
        "if r then has_topo s1 \<and> \<not> has_cycle s1 \<and> cycle s1 = [] \<and> topo (nodes g) (pk_ord s1) (arcs g)
         else \<not> has_topo s1 \<and> has_cycle s1 \<and> cycleComputed s1 \<and> num_strict_sccs s1 = 1 \<and> cycle_marked g s1 \<and>
           dicycle (arcs g) (rev (cycle s1))" by blast
      have l1: "length (pk_ord s1) = nodes g" using s1(2) by (simp add: pk_sizes_def)
      show ?thesis
      proof (cases r)
        case True
        then have tp: "has_topo s1" "\<not> has_cycle s1" "cycle s1 = []" "topo (nodes g) (pk_ord s1) (arcs g)" using s1(6) by simp_all
        then have "pk_ord s1 ! u < pk_ord s1 ! v" using arc by (auto simp: topo_def)
        then have "pk_addEdge g i t = Some (?b s1)"
          using nc False s1(1) tp bd l1 uv by (simp add: pk_addEdge_def ends_declares [OF d])
        moreover have "pk_core g (insert (u, i, v) ?A) (arcs g) (?b s1)" using tp by (simp add: pk_core_def)
        ultimately show ?thesis using fin [of "?b s1"] keepb [OF s1(2-5)] by blast
      next
        case rF: False
        then have f: "\<not> has_topo s1" "has_cycle s1" "cycleComputed s1" "num_strict_sccs s1 = 1" "cycle_marked g s1"
           "dicycle (arcs g) (rev (cycle s1))" using s1(6) by simp_all
        have "pk_addEdge g i t = Some s1" using nc False s1(1) f(2) uv by (simp add: pk_addEdge_def ends_declares [OF d])
        moreover have "cyc_any (insert (u, i, v) ?A \<union> arcs g) (cycle s1)"
          using f(6) dicycle_mono [of "arcs g" "insert (u, i, v) ?A \<union> arcs g"] unfolding cyc_any_def by blast
        then have "pk_core g (insert (u, i, v) ?A) (arcs g) s1" using f by (simp add: pk_core_def)
        ultimately show ?thesis using fin [OF s1(2,3,5,4)] s1(4) by blast
      qed
    next
      case ht: True
      then have tp: "topo (nodes g) (pk_ord t) ?A \<or> topo (nodes g) (pk_ord t) (arcs g)" using core nc by (simp add: pk_core_def)
      have ne: "pk_ord t ! u \<noteq> pk_ord t ! v" using tp bd(1,2) uv nth_eq_iff_index_eq [of "pk_ord t" u v] by (auto simp: topo_def)
      have eq: "pk_addEdge g i t = (if pk_ord t ! v < pk_ord t ! u then do { (_, s) \<leftarrow> dfs_forward g v (?b t);
              if \<not> has_cycle s then do {
                s \<leftarrow> dfs_backward g u (if has_cycle s then int v else -1) (int i) s;
                reorder s
              } else do {
                s \<leftarrow> push_cycle u v i s;
                Some (s\<lparr>visited := clear_marks (l_xy_F s) (clear_marks (l_xy_B s) (visited s)),
                        l_xy_F := [], l_xy_B := [], has_topo := False\<rparr>)
              } } else Some (?b t))"
        using nc ht bd len uv by (simp add: pk_addEdge_def ends_declares [OF d])
      show ?thesis
      proof (cases "pk_ord t ! v < pk_ord t ! u")
        case True
        then have "topo (nodes g) (pk_ord t) ?A" using tp arc by (force simp: topo_def)
        then have "inserting g (?b t) i u v ?A"
          using keepb(1,2) [OF sz cl refl refl] ht nc c0 d A True by (simp add: inserting_def)
        from insert_edge_correct [OF wf this] obtain s' where "pk_addEdge g i t = Some s'" "inserted g (?b t) (insert (u, i, v) ?A) s'"
          unfolding eq using True by auto
        then show ?thesis using fin [of s'] keepb(3,4) [OF sz cl refl refl] by (simp add: inserted_def)
      next
        case False
        then have "topo (nodes g) (pk_ord t) (insert (u, i, v) ?A) \<or> topo (nodes g) (pk_ord t) (arcs g)"
          using tp ne by (auto simp: topo_def)
        then have "pk_core g (insert (u, i, v) ?A) (arcs g) (?b t)" using ht nc c0 by (simp add: pk_core_def)
        then show ?thesis using eq False fin [of "?b t"] keepb [OF sz cl refl refl] by auto
      qed
    qed
  qed
qed

subsection \<open>Replaying the change log\<close>

definition loop_free :: "DynamicGraph \<Rightarrow> bool" where
  "loop_free g \<longleftrightarrow> (\<forall>i u. \<not> declares g i u u)"

text \<open>Every edge whose local flag differs from the graph has an entry in the log that will repair it.\<close>

definition pending :: "DynamicGraph \<Rightarrow> bool list \<Rightarrow> int list \<Rightarrow> bool" where
  "pending g st ps \<longleftrightarrow> (\<forall>i < edges g. st ! i \<noteq> edge_status g ! i \<longrightarrow>
     (\<exists>p \<in> set ps. \<exists>c. getChange g p = Some c \<and> cid c = i \<and> addition c = edge_status g ! i))"

definition log_reads :: "DynamicGraph \<Rightarrow> int list \<Rightarrow> bool" where
  "log_reads g ps \<longleftrightarrow> (\<forall>p \<in> set ps. \<exists>c. getChange g p = Some c \<and> isEdge g (cid c))"

lemma pending_step:
  assumes "pending g st (p # ps)" "getChange g p = Some c"
    and "\<And>i. i < edges g \<Longrightarrow> i \<noteq> cid c \<Longrightarrow> st' ! i = st ! i"
    and "st' ! cid c \<noteq> edge_status g ! cid c \<Longrightarrow> addition c \<noteq> edge_status g ! cid c \<and> st' ! cid c = st ! cid c"
  shows "pending g st' ps"
  unfolding pending_def
proof (intro allI impI)
  fix i assume i: "i < edges g" "st' ! i \<noteq> edge_status g ! i"
  then have "st ! i \<noteq> edge_status g ! i" using assms(3,4) by (cases "i = cid c") auto
  then obtain r c' where r: "r \<in> set (p # ps)" "getChange g r = Some c'" "cid c' = i" "addition c' = edge_status g ! i"
    using assms(1) i(1) unfolding pending_def by blast
  have "r \<in> set ps"
  proof (rule ccontr)
    assume "r \<notin> set ps"
    then have "c' = c" using r(1,2) assms(2) by simp
    then show False using r(3,4) i(2) assms(4) by auto
  qed
  then show "\<exists>p \<in> set ps. \<exists>c. getChange g p = Some c \<and> cid c = i \<and> addition c = edge_status g ! i" using r by blast
qed

lemma pk_replay_correct:
  assumes wf: "wf_graph g" and lf: "loop_free g"
  shows "pk_ok g s \<Longrightarrow> log_reads g ps \<Longrightarrow> pending g (edge_enabled s) ps \<Longrightarrow>
    \<exists>s'. pk_replay g ps s = Some s' \<and> pk_ok g s' \<and> edge_enabled s' = edge_status g \<and> alg_id s' = alg_id s"
proof (induction ps arbitrary: s)
  case Nil
  have "length (edge_enabled s) = length (edge_status g)"
    using Nil.prems(1) wf_graph_lengths [OF wf] by (simp add: pk_ok_def pk_sizes_def edges_def)
  then have "edge_enabled s = edge_status g"
    using Nil.prems(3) wf_graph_lengths [OF wf] by (auto simp: pending_def edges_def intro: nth_equalityI)
  then show ?case using Nil.prems(1) by simp
next
  case (Cons p ps)
  obtain c where c: "getChange g p = Some c" "isEdge g (cid c)" using Cons.prems(2) by (auto simp: log_reads_def)
  obtain u v where d: "declares g (cid c) u v" using wf_graph_isEdge [OF wf c(2)] .
  note bd = declares_bounds [OF wf d]
  have uv: "u \<noteq> v" using lf d by (auto simp: loop_free_def)
  have lr: "log_reads g ps" using Cons.prems(2) by (simp add: log_reads_def)
  have len: "length (edge_enabled s) = edges g" using Cons.prems(1) by (simp add: pk_ok_def pk_sizes_def)
  let ?st = "edge_status g ! cid c" and ?en = "edge_enabled s ! cid c"
  have go: ?case if s1: "(if addition c \<and> ?st \<and> \<not> ?en
          then pk_addEdge g (cid c) (s\<lparr>edge_enabled := (edge_enabled s)[cid c := True]\<rparr>)
          else if \<not> addition c \<and> \<not> ?st \<and> ?en
          then pk_removeEdge g (cid c) (s\<lparr>edge_enabled := (edge_enabled s)[cid c := False]\<rparr>)
          else Some s) = Some s1" "pk_ok g s1" "pending g (edge_enabled s1) ps" "alg_id s1 = alg_id s" for s1
  proof -
    have "pk_replay g (p # ps) s = pk_replay g ps s1" using c(1) bd len s1(1) by simp
    then show ?thesis using Cons.IH [OF s1(2) lr s1(3)] s1(4) by simp
  qed
  consider (add) "addition c \<and> ?st \<and> \<not> ?en" | (rem) "\<not> addition c \<and> \<not> ?st \<and> ?en"
    | (no) "\<not> (addition c \<and> ?st \<and> \<not> ?en)" "\<not> (\<not> addition c \<and> \<not> ?st \<and> ?en)" by blast
  then show ?case
  proof cases
    case add
    from pk_addEdge_correct [OF wf Cons.prems(1) d uv] add obtain s1 where
      s1: "pk_addEdge g (cid c) (s\<lparr>edge_enabled := (edge_enabled s)[cid c := True]\<rparr>) = Some s1" "pk_ok g s1"
        "pk_rest s1 = pk_rest (s\<lparr>edge_enabled := (edge_enabled s)[cid c := True]\<rparr>)" by blast
    show ?thesis
    proof (rule go [OF _ s1(2)])
      show "pending g (edge_enabled s1) ps"
        using pk_rest_fields(1) [OF s1(3)] add bd len by (intro pending_step [OF Cons.prems(3) c(1)]) auto
    qed (use add s1 pk_rest_fields(3) [OF s1(3)] in simp_all)
  next
    case rem
    from pk_removeEdge_correct [OF wf Cons.prems(1) d] rem obtain s1 where
      s1: "pk_removeEdge g (cid c) (s\<lparr>edge_enabled := (edge_enabled s)[cid c := False]\<rparr>) = Some s1" "pk_ok g s1"
        "pk_rest s1 = pk_rest (s\<lparr>edge_enabled := (edge_enabled s)[cid c := False]\<rparr>)" by blast
    show ?thesis
    proof (rule go [OF _ s1(2)])
      show "pending g (edge_enabled s1) ps"
        using pk_rest_fields(1) [OF s1(3)] rem bd len by (intro pending_step [OF Cons.prems(3) c(1)]) auto
    qed (use rem s1 pk_rest_fields(3) [OF s1(3)] in simp_all)
  next
    case no
    show ?thesis
    proof (rule go [OF _ Cons.prems(1)])
      show "pending g (edge_enabled s) ps" using no by (intro pending_step [OF Cons.prems(3) c(1)]) auto
    qed (use no in auto)
  qed
qed

subsection \<open>Starting afresh\<close>

lemma True_vec_resize: "True \<notin> set xs \<Longrightarrow> True \<notin> set (vec_resize n False xs)"
  by (auto simp: vec_resize_def dest: in_set_takeD)

lemma those_edgeEnabled:
  assumes "wf_graph g"
  shows "those (map (edgeEnabled g) [0..<edges g]) = Some (edge_status g)"
proof -
  have "those (map Some xs) = Some xs" for xs :: "bool list" by (induction xs) auto
  moreover have "map (edgeEnabled g) [0..<edges g] = map Some (edge_status g)"
    using wf_graph_lengths [OF assms] by (auto simp: edges_def edgeEnabled_def intro!: nth_equalityI)
  ultimately show ?thesis by simp
qed

lemma pk_reset_correct:
  assumes wf: "wf_graph g" and cl: "pk_clean s" and dp: "dfs_part_ok g (dfs_cycle s)"
  shows "\<exists>s'. pk_reset g s = Some s' \<and> pk_ok g s' \<and> edge_enabled s' = edge_status g \<and> alg_id s' = alg_id s \<and>
     pk_history_qhead s' = historySize g"
proof -
  let ?s = "(pk_setNodes g (nodes g) s)
               \<lparr>cycleComputed := False, has_cycle := False, has_topo := False, cycle := [],
                pk_history_qhead := historySize g, pk_stats_history_clears := pk_stats_history_clears s + 1, edge_enabled := edge_status g\<rparr>"
  have pre: "pk_sizes g ?s" "pk_clean ?s" "\<not> has_topo ?s" "\<not> has_cycle ?s" "cycle ?s = []"
    using cl wf_graph_lengths [OF wf] by (simp_all add: pk_sizes_def pk_setNodes_def pk_clean_def True_vec_resize edges_def)
  from topologicalSort_correct [OF wf pre] obtain r s1 where
    s1: "topologicalSort g ?s = Some (r, s1)" "pk_sizes g s1" "pk_clean s1" "pk_rest s1 = pk_rest ?s" "dfs_cycle s1 = dfs_cycle ?s"
        "if r then has_topo s1 \<and> \<not> has_cycle s1 \<and> cycle s1 = [] \<and> topo (nodes g) (pk_ord s1) (arcs g)
         else \<not> has_topo s1 \<and> has_cycle s1 \<and> cycleComputed s1 \<and> num_strict_sccs s1 = 1 \<and> cycle_marked g s1 \<and>
           dicycle (arcs g) (rev (cycle s1))" by blast
  have "pk_reset g s = (if r then Some s1 else updateSCCs g s1)"
    unfolding pk_reset_def Let_def those_edgeEnabled [OF wf] using s1(1) by (simp add: pk_setNodes_def)
  moreover have "updateSCCs g s1 = Some s1" if "\<not> r" using s1(6) that by (simp add: updateSCCs_def)
  ultimately have eq: "pk_reset g s = Some s1" by simp
  have en: "edge_enabled s1 = edge_status g" "alg_id s1 = alg_id s" "pk_history_qhead s1 = historySize g"
    using pk_rest_fields [OF s1(4)] by (simp_all add: pk_setNodes_def)
  have "pk_core g (arcs g) (arcs g) s1" using s1(6) by (auto simp: pk_core_def cyc_any_def split: if_splits)
  then have "pk_ok g s1" using s1(2,3,5) dp en(1) by (simp add: pk_ok_def larcs_arcs pk_setNodes_def)
  then show ?thesis using eq en by blast
qed

subsection \<open>One update\<close>

definition registered :: "nat \<Rightarrow> int \<Rightarrow> DynamicGraph \<Rightarrow> bool" where
  "registered this k g \<longleftrightarrow> 0 \<le> k \<and> k < int (length (dynamic_algs g)) \<and> dynamic_algs g ! nat k = this"

definition log_ok :: "DynamicGraph \<Rightarrow> PKTopologicalSort \<Rightarrow> bool" where
  "log_ok g s \<longleftrightarrow> history_offset g \<le> pk_history_qhead s \<and> pk_history_qhead s \<le> historySize g \<and>
     log_reads g [pk_history_qhead s..historySize g - 1] \<and> pending g (edge_enabled s) [pk_history_qhead s..historySize g - 1]"

text \<open>\<open>pk_ready\<close>: the object may be asked about the graph. Unless it is going to start afresh, its state is right for the
  edges it believes enabled, and the unread part of the log accounts for the difference to the graph.\<close>

definition pk_ready :: "nat \<Rightarrow> DynamicGraph \<Rightarrow> PKTopologicalSort \<Rightarrow> bool" where
  "pk_ready this g s \<longleftrightarrow> pk_clean s \<and> dfs_part_ok g (dfs_cycle s) \<and> registered this (alg_id s) g \<and>
     (0 < pk_last_modification s \<longrightarrow>
        pk_last_modification s \<le> getCurrentHistory g \<and> pk_last_history_clear s \<le> nHistoryClears g \<and>
        (getCurrentHistory g = pk_last_modification s \<longrightarrow> edge_enabled s = edge_status g) \<and>
        (\<not> changed g \<or> getCurrentHistory g = pk_last_modification s \<longrightarrow>
           pk_sizes g s \<and> pk_core g (larcs g (edge_enabled s)) (larcs g (edge_enabled s)) s \<and>
           (nHistoryClears g = pk_last_history_clear s \<longrightarrow> log_ok g s)))"

lemma pk_core_any: "pk_core g A A s \<Longrightarrow> pk_core g A E s"
  using cyc_any_mono [of A "A \<union> E" "cycle s"] by (auto simp: pk_core_def split: if_splits)

lemma pk_core_decides:
  assumes "pk_core g E E s"
  shows "has_cycle s \<longleftrightarrow> (\<exists>c. dicycle E c)" "has_cycle s \<Longrightarrow> cyc_any E (cycle s)"
proof -
  show "has_cycle s \<Longrightarrow> cyc_any E (cycle s)" using assms by (simp add: pk_core_def)
  then show "has_cycle s \<longleftrightarrow> (\<exists>c. dicycle E c)"
    using assms topo_acyclic unfolding cyc_any_ex [symmetric] by (auto simp: pk_core_def cyc_any_def split: if_splits)
qed

lemma quiet_pos: "length p = length (dynamic_history_pos g) \<Longrightarrow> quiet g (g\<lparr>dynamic_history_pos := p\<rparr>)"
  by (simp add: quiet_def same_topology_def)

lemma pk_ready_pos:
  assumes "length p = length (dynamic_history_pos g)"
  shows "pk_ready this (g\<lparr>dynamic_history_pos := p\<rparr>) s = pk_ready this g s"
proof -
  let ?g = "g\<lparr>dynamic_history_pos := p\<rparr>"
  have d: "declares ?g = declares g" by (simp add: declares_def fun_eq_iff)
  have a: "arcs ?g = arcs g" by (simp add: arcs_def d)
  have l: "larcs ?g st = larcs g st" for st by (simp add: larcs_def d)
  have n: "nodes ?g = nodes g" "edges ?g = edges g" "changed ?g = changed g" "getCurrentHistory ?g = getCurrentHistory g"
    "nHistoryClears ?g = nHistoryClears g" "historySize ?g = historySize g" "getChange ?g = getChange g" "isEdge ?g = isEdge g"
    by (simp_all add: nodes_def edges_def changed_def getCurrentHistory_def nHistoryClears_def historySize_def getChange_def
        isEdge_def fun_eq_iff Let_def)
  have f: "dfs_part_ok ?g d = dfs_part_ok g d" for d
    by (simp add: dfs_part_ok_def dfs_ready_def dfs_sizes_def dfs_valid_def n a)
  have c: "pk_core ?g A E s = pk_core g A E s" for A E by (simp add: pk_core_def cycle_marked_def d n)
  have "pk_sizes ?g s = pk_sizes g s" "log_ok ?g s = log_ok g s" "registered this (alg_id s) ?g = registered this (alg_id s) g"
    by (simp_all add: pk_sizes_def log_ok_def log_reads_def pending_def registered_def n)
  then show ?thesis by (simp add: pk_ready_def f c l n)
qed

lemma updateAlgorithmHistory_registered:
  assumes "registered this k g" "wf_graph g"
  shows "updateAlgorithmHistory (Some this) k p g = Some (g\<lparr>dynamic_history_pos := (dynamic_history_pos g)[nat k := p]\<rparr>)"
  using assms wf_graph_lengths(9) [OF assms(2)] by (auto simp: updateAlgorithmHistory_def registered_def)

lemma pk_sync_correct:
  assumes wf: "wf_graph g" and lf: "loop_free g" and rdy: "pk_ready this g s"
    and go: "\<not> (pk_last_modification s > 0 \<and> getCurrentHistory g = pk_last_modification s)"
  shows "\<exists>s1 s2. (if pk_last_modification s \<le> 0 \<or> nHistoryClears g \<noteq> pk_last_history_clear s \<or> changed g
             then pk_reset g s else Some s) = Some s1 \<and>
     pk_replay g [pk_history_qhead s1..historySize g - 1] s1 = Some s2 \<and>
     pk_ok g s2 \<and> edge_enabled s2 = edge_status g \<and> alg_id s2 = alg_id s"
proof -
  have r: "pk_clean s" "dfs_part_ok g (dfs_cycle s)" using rdy by (simp_all add: pk_ready_def)
  show ?thesis
  proof (cases "pk_last_modification s \<le> 0 \<or> nHistoryClears g \<noteq> pk_last_history_clear s \<or> changed g")
    case True
    from pk_reset_correct [OF wf r] obtain s1 where s1: "pk_reset g s = Some s1" "pk_ok g s1" "edge_enabled s1 = edge_status g"
      "alg_id s1 = alg_id s" "pk_history_qhead s1 = historySize g" by blast
    have "pk_replay g [pk_history_qhead s1..historySize g - 1] s1 = Some s1" using s1(5) by simp
    then show ?thesis using s1 True by auto
  next
    case False
    then have b: "pk_sizes g s" "pk_core g (larcs g (edge_enabled s)) (larcs g (edge_enabled s)) s" "log_ok g s"
      using rdy by (auto simp: pk_ready_def)
    have "pk_ok g s" using r b(1) pk_core_any [OF b(2)] by (simp add: pk_ok_def)
    from pk_replay_correct [OF wf lf this, of "[pk_history_qhead s..historySize g - 1]"] b(3) show ?thesis
      using False by (auto simp: log_ok_def)
  qed
qed

lemma pk_update_correct:
  assumes wf: "wf_graph g" and lf: "loop_free g" and rdy: "pk_ready this g s"
  shows "\<exists>s' p. pk_update this g s = Some (s', g\<lparr>dynamic_history_pos := p\<rparr>) \<and> length p = length (dynamic_history_pos g) \<and>
     pk_ready this g s' \<and> pk_last_modification s' = getCurrentHistory g \<and> (has_cycle s' \<longleftrightarrow> (\<exists>c. dicycle (arcs g) c)) \<and>
     (has_cycle s' \<longrightarrow> cyc_any (arcs g) (cycle s'))"
proof (cases "pk_last_modification s > 0 \<and> getCurrentHistory g = pk_last_modification s")
  case True
  let ?s = "s\<lparr>pk_stats_skipped_updates := pk_stats_skipped_updates s + 1\<rparr>"
  have b: "edge_enabled s = edge_status g" "pk_core g (larcs g (edge_enabled s)) (larcs g (edge_enabled s)) s"
    using rdy True by (auto simp: pk_ready_def)
  then have core: "pk_core g (arcs g) (arcs g) s" by (simp add: larcs_arcs)
  have "pk_core g A E ?s = pk_core g A E s" "pk_sizes g ?s = pk_sizes g s" "pk_clean ?s = pk_clean s" "log_ok g ?s = log_ok g s" for A E
    by (simp_all add: pk_core_def cycle_marked_def pk_sizes_def pk_clean_def log_ok_def)
  then have "pk_ready this g ?s" using rdy by (simp add: pk_ready_def)
  moreover have "pk_update this g s = Some (?s, g\<lparr>dynamic_history_pos := dynamic_history_pos g\<rparr>)" using True by (simp add: pk_update_def)
  ultimately show ?thesis using pk_core_decides [OF core] True by (intro exI [of _ ?s] exI [of _ "dynamic_history_pos g"]) simp
next
  case False
  from pk_sync_correct [OF wf lf rdy False] obtain s1 s2 where
    r: "(if pk_last_modification s \<le> 0 \<or> nHistoryClears g \<noteq> pk_last_history_clear s \<or> changed g then pk_reset g s else Some s) = Some s1"
     "pk_replay g [pk_history_qhead s1..historySize g - 1] s1 = Some s2" "pk_ok g s2" "edge_enabled s2 = edge_status g" "alg_id s2 = alg_id s"
    by blast
  let ?s = "s2\<lparr>pk_last_modification := getCurrentHistory g, pk_last_deletion := nDeletions g,
                  pk_last_addition := nAdditions g, pk_history_qhead := historySize g, pk_last_history_clear := nHistoryClears g\<rparr>"
  have reg: "registered this (alg_id s) g" using rdy by (simp add: pk_ready_def)
  have core: "pk_core g (arcs g) (arcs g) s2" and ok: "pk_sizes g s2" "pk_clean s2" "dfs_part_ok g (dfs_cycle s2)"
    using r(3,4) by (simp_all add: pk_ok_def larcs_arcs)
  have "pk_core g A E ?s = pk_core g A E s2" "pk_sizes g ?s = pk_sizes g s2" "pk_clean ?s = pk_clean s2" for A E
    by (simp_all add: pk_core_def cycle_marked_def pk_sizes_def pk_clean_def)
  note k = this
  have "log_ok g ?s" using r(4) by (simp add: log_ok_def log_reads_def pending_def historySize_def)
  then have "pk_ready this g ?s" using k core ok r(4,5) reg by (simp add: pk_ready_def larcs_arcs)
  moreover have "pk_update this g s = Some (?s, g\<lparr>dynamic_history_pos := (dynamic_history_pos g)[nat (alg_id s) := historySize g]\<rparr>)"
    unfolding pk_update_def if_not_P [OF False] r(1) using r(2,5) updateAlgorithmHistory_registered [OF reg wf] by simp
  ultimately show ?thesis using pk_core_decides [OF core]
    by (intro exI [of _ ?s] exI [of _ "(dynamic_history_pos g)[nat (alg_id s) := historySize g]"]) simp
qed

subsection \<open>Between two updates\<close>

lemma replay_witness:
  "replay cs st ! i \<noteq> st ! i \<Longrightarrow> \<exists>c \<in> set cs. cid c = i \<and> addition c = replay cs st ! i"
proof (induction cs rule: rev_induct)
  case (snoc c cs)
  let ?X = "replay cs st"
  have eq: "replay (cs @ [c]) st = replay_change c ?X" by simp
  show ?case
  proof (cases "replay_change c ?X ! i = ?X ! i")
    case True
    then show ?thesis using snoc unfolding eq by auto
  next
    case False
    then have "cid c = i \<and> addition c = replay_change c ?X ! i"
      by (cases "cid c < length ?X") (auto simp: replay_change_def nth_list_update not_less list_update_beyond split: if_splits)
    then show ?thesis unfolding eq by auto
  qed
qed simp

lemma status_op_algs: "status_op g g' \<Longrightarrow> dynamic_algs g' = dynamic_algs g"
  by (induction rule: status_op.induct)
    (auto simp: setEdgeEnabled_def enableEdge_def disableEdge_def enableEdge3_def disableEdge3_def setEdgeWeight_def
      makeEdgeAssignmentConstant_def updateAlgorithmHistory_def invalidate_def markChanged_def clearChanged_def Let_def
      split: if_splits bind_splits)

lemma same_topology_views:
  assumes "same_topology g g'"
  shows "declares g' = declares g" "isEdge g' = isEdge g" "nodes g' = nodes g" "edges g' = edges g" "larcs g' st = larcs g st"
    "pk_sizes g' s = pk_sizes g s" "pk_core g' A E s = pk_core g A E s" "dfs_sizes g' d = dfs_sizes g d"
  using same_topology_declares [OF assms] assms
  by (simp_all add: same_topology_def nodes_def edges_def larcs_def pk_sizes_def pk_core_def cycle_marked_def dfs_sizes_def)

lemma dfs_part_later:
  assumes "dfs_part_ok g d" "0 < d_last_modification d \<Longrightarrow> dfs_sizes g' d" "getCurrentHistory g \<le> getCurrentHistory g'"
    "getCurrentHistory g' = getCurrentHistory g \<Longrightarrow> arcs g' = arcs g"
  shows "dfs_part_ok g' d"
proof -
  have "dfs_valid True False g' d" if "0 < d_last_modification d" "getCurrentHistory g' = d_last_modification d"
  proof -
    have "getCurrentHistory g' = getCurrentHistory g" using assms(1,3) that by (simp add: dfs_part_ok_def)
    then show ?thesis using assms(1,4) that by (simp add: dfs_part_ok_def dfs_ready_def dfs_valid_def)
  qed
  moreover have "d_last_modification d \<le> 0 \<or> changed g' \<or> dfs_sizes g' d" using assms(2) by linarith
  ultimately show ?thesis using assms(1-3) by (auto simp: dfs_part_ok_def dfs_ready_def)
qed

lemma getChange_append:
  assumes "history g' = history g @ cs" "history_offset g' = history_offset g"
  shows "getChange g p = Some c \<Longrightarrow> getChange g' p = Some c"
    "k < length cs \<Longrightarrow> getChange g' (historySize g + int k) = Some (cs ! k)"
  using assms by (auto simp: getChange_def historySize_def Let_def nth_append nat_add_distrib nat_less_iff split: if_splits)

lemma log_ok_append:
  assumes ok: "log_ok g s" and st: "same_topology g g'" and h: "history g' = history g @ cs" "history_offset g' = history_offset g"
    and rp: "replay cs (edge_status g) = edge_status g'" and cs: "\<forall>c \<in> set cs. isEdge g (cid c)"
  shows "log_ok g' s"
proof -
  note V = same_topology_views [OF st] and G = getChange_append [OF h]
  let ?q = "pk_history_qhead s"
  have q: "history_offset g \<le> ?q" "?q \<le> historySize g" using ok by (simp_all add: log_ok_def)
  have hs: "historySize g' = historySize g + int (length cs)" using h by (simp add: historySize_def)
  have "\<exists>c. getChange g' p = Some c \<and> isEdge g (cid c)" if "?q \<le> p" "p \<le> historySize g' - 1" for p
  proof (cases "p < historySize g")
    case True
    then have "p \<in> set [?q..historySize g - 1]" using that(1) by simp
    then show ?thesis using ok G(1) unfolding log_ok_def log_reads_def by blast
  next
    case False
    define k where "k = nat (p - historySize g)"
    have k: "k < length cs" "p = historySize g + int k" using False that hs by (auto simp: k_def)
    then show ?thesis using G(2) [OF k(1)] cs by auto
  qed
  then have "log_reads g' [?q..historySize g' - 1]" by (simp add: log_reads_def V)
  moreover have "pending g' (edge_enabled s) [?q..historySize g' - 1]" unfolding pending_def V
  proof (intro allI impI)
    fix i assume i: "i < edges g" "edge_enabled s ! i \<noteq> edge_status g' ! i"
    show "\<exists>p \<in> set [?q..historySize g' - 1]. \<exists>c. getChange g' p = Some c \<and> cid c = i \<and> addition c = edge_status g' ! i"
    proof (cases "edge_status g' ! i = edge_status g ! i")
      case True
      then obtain p c where "p \<in> set [?q..historySize g - 1]" "getChange g p = Some c" "cid c = i" "addition c = edge_status g ! i"
        using ok i unfolding log_ok_def pending_def by metis
      then show ?thesis using G(1) True hs by (intro bexI [of _ p]) auto
    next
      case False
      then obtain c where c: "c \<in> set cs" "cid c = i" "addition c = edge_status g' ! i"
        using replay_witness [of cs "edge_status g" i] unfolding rp by blast
      then obtain k where k: "k < length cs" "cs ! k = c" by (auto simp: in_set_conv_nth)
      have "historySize g + int k \<in> set [?q..historySize g' - 1]" using k(1) q hs by simp
      then show ?thesis using G(2) [OF k(1)] k(2) c by blast
    qed
  qed
  ultimately show ?thesis using q hs h(2) by (simp add: log_ok_def)
qed

lemma pk_readyD:
  assumes "pk_ready this g s"
  shows "pk_clean s" "dfs_part_ok g (dfs_cycle s)" "registered this (alg_id s) g"
    "0 < pk_last_modification s \<Longrightarrow> pk_last_modification s \<le> getCurrentHistory g"
    "0 < pk_last_modification s \<Longrightarrow> pk_last_history_clear s \<le> nHistoryClears g"
    "0 < pk_last_modification s \<Longrightarrow> getCurrentHistory g = pk_last_modification s \<Longrightarrow> edge_enabled s = edge_status g"
    "0 < pk_last_modification s \<Longrightarrow> \<not> changed g \<or> getCurrentHistory g = pk_last_modification s \<Longrightarrow>
       pk_sizes g s \<and> pk_core g (larcs g (edge_enabled s)) (larcs g (edge_enabled s)) s"
    "0 < pk_last_modification s \<Longrightarrow> \<not> changed g \<or> getCurrentHistory g = pk_last_modification s \<Longrightarrow>
       nHistoryClears g = pk_last_history_clear s \<Longrightarrow> log_ok g s"
  using assms unfolding pk_ready_def by blast+

lemma pk_readyI:
  assumes "pk_clean s" "dfs_part_ok g (dfs_cycle s)" "registered this (alg_id s) g"
    "0 < pk_last_modification s \<Longrightarrow> pk_last_modification s \<le> getCurrentHistory g"
    "0 < pk_last_modification s \<Longrightarrow> pk_last_history_clear s \<le> nHistoryClears g"
    "0 < pk_last_modification s \<Longrightarrow> getCurrentHistory g = pk_last_modification s \<Longrightarrow> edge_enabled s = edge_status g"
    "0 < pk_last_modification s \<Longrightarrow> \<not> changed g \<or> getCurrentHistory g = pk_last_modification s \<Longrightarrow>
       pk_sizes g s \<and> pk_core g (larcs g (edge_enabled s)) (larcs g (edge_enabled s)) s"
    "0 < pk_last_modification s \<Longrightarrow> \<not> changed g \<or> getCurrentHistory g = pk_last_modification s \<Longrightarrow>
       nHistoryClears g = pk_last_history_clear s \<Longrightarrow> log_ok g s"
  shows "pk_ready this g s"
  using assms unfolding pk_ready_def by blast

text \<open>Changes of the edges that the log records.\<close>

lemma pk_ready_status:
  assumes rdy: "pk_ready this g s" and wf: "wf_graph g" and op: "status_op g g'"
    and ch: "changed g \<Longrightarrow> changed g' \<or> pk_last_modification s \<le> 0 \<or> getCurrentHistory g = pk_last_modification s"
  shows "pk_ready this g' s"
proof -
  from status_op_effect [OF op wf] obtain cs where
    e: "same_topology g g'" "nHistoryClears g' = nHistoryClears g" "history_offset g' = history_offset g"
      "history g' = history g @ cs" "replay cs (edge_status g) = edge_status g'" "\<forall>c \<in> set cs. isEdge g (cid c)"
      "getCurrentHistory g \<le> getCurrentHistory g'" "getCurrentHistory g' = getCurrentHistory g \<Longrightarrow> edge_status g' = edge_status g"
    unfolding getCurrentHistory_def nHistoryClears_def by blast
  note V = same_topology_views [OF e(1)] and D = pk_readyD [OF rdy]
  have arcs: "arcs g' = arcs g" if "getCurrentHistory g' = getCurrentHistory g"
    using e(8) [OF that] V(5) [of "edge_status g"] larcs_arcs by metis
  have valid: "\<not> changed g \<or> getCurrentHistory g = pk_last_modification s"
    if "0 < pk_last_modification s" "\<not> changed g' \<or> getCurrentHistory g' = pk_last_modification s"
    using that ch D(4) e(7) by fastforce
  show ?thesis
  proof (rule pk_readyI [OF D(1)])
    show "dfs_part_ok g' (dfs_cycle s)"
      using dfs_part_later [OF D(2) _ e(7) arcs] D(2) V(8) by (simp add: dfs_part_ok_def)
    show "registered this (alg_id s) g'" using D(3) status_op_algs [OF op] by (simp add: registered_def)
    show "pk_last_modification s \<le> getCurrentHistory g'" if "0 < pk_last_modification s" using D(4) [OF that] e(7) by simp
    show "pk_last_history_clear s \<le> nHistoryClears g'" if "0 < pk_last_modification s" using D(5) [OF that] e(2) by simp
    show "edge_enabled s = edge_status g'" if "0 < pk_last_modification s" "getCurrentHistory g' = pk_last_modification s"
      using D(4,6) [OF that(1)] e(7,8) that(2) by simp
    show "pk_sizes g' s \<and> pk_core g' (larcs g' (edge_enabled s)) (larcs g' (edge_enabled s)) s"
      if "0 < pk_last_modification s" "\<not> changed g' \<or> getCurrentHistory g' = pk_last_modification s"
      using D(7) [OF that(1) valid [OF that]] by (simp add: V)
    show "log_ok g' s" if "0 < pk_last_modification s" "\<not> changed g' \<or> getCurrentHistory g' = pk_last_modification s"
      "nHistoryClears g' = pk_last_history_clear s"
      using log_ok_append [OF D(8) [OF that(1) valid [OF that(1,2)]] e(1,4,3,5,6)] e(2) that(3) by simp
  qed
qed

text \<open>Declarations: the next update starts afresh.\<close>

lemma pk_ready_grow:
  assumes rdy: "pk_ready this g s" and ch: "changed g'" "getCurrentHistory g < getCurrentHistory g'" "nHistoryClears g \<le> nHistoryClears g'"
    and sz: "0 < d_last_modification (dfs_cycle s) \<Longrightarrow> nodes g' = nodes g" and al: "dynamic_algs g' = dynamic_algs g"
  shows "pk_ready this g' s"
proof -
  note D = pk_readyD [OF rdy]
  show ?thesis
  proof (rule pk_readyI [OF D(1)])
    show "dfs_part_ok g' (dfs_cycle s)"
      using dfs_part_later [OF D(2), of g'] D(2) ch(2) sz by (simp add: dfs_part_ok_def dfs_sizes_def)
    show "registered this (alg_id s) g'" using D(3) al by (simp add: registered_def)
  qed (use D(4,5) ch in fastforce)+
qed

text \<open>Operations that change neither the edges nor the modification counter.\<close>

lemma pk_ready_same:
  assumes rdy: "pk_ready this g s" and t: "same_topology g g'" and n: "changed g' = changed g" "getCurrentHistory g' = getCurrentHistory g"
      "edge_status g' = edge_status g" "nHistoryClears g \<le> nHistoryClears g'"
    and reg: "registered this (alg_id s) g \<Longrightarrow> registered this (alg_id s) g'"
    and lg: "nHistoryClears g' = nHistoryClears g \<Longrightarrow> log_ok g s \<Longrightarrow> log_ok g' s"
  shows "pk_ready this g' s"
proof -
  note V = same_topology_views [OF t] and D = pk_readyD [OF rdy]
  have "arcs g' = arcs g" using V(1) by (simp add: arcs_def n)
  then have dp: "dfs_part_ok g' (dfs_cycle s)"
    using dfs_part_later [OF D(2), of g'] D(2) V(8) n(2) by (simp add: dfs_part_ok_def)
  show ?thesis
  proof (rule pk_readyI [OF D(1) dp reg [OF D(3)]])
    show "log_ok g' s" if "0 < pk_last_modification s" "\<not> changed g' \<or> getCurrentHistory g' = pk_last_modification s"
      "nHistoryClears g' = pk_last_history_clear s"
    proof -
      have "nHistoryClears g' = nHistoryClears g" using D(5) [OF that(1)] that(3) n(4) by simp
      then show ?thesis using D(8) that n lg by simp
    qed
  qed (use D(4-7) n V in auto)
qed

lemma pk_ready_register:
  assumes rdy: "pk_ready this g s" and a: "addDynamicAlgorithm a g = Some (k, g')"
  shows "pk_ready this g' s"
proof -
  obtain x where g': "g' = g\<lparr>dynamic_algs := dynamic_algs g @ [x], dynamic_history_pos := dynamic_history_pos g @ [0]\<rparr>"
    using a by (auto simp: addDynamicAlgorithm_def split: option.splits)
  have t: "same_topology g g'" by (simp add: g' same_topology_def)
  show ?thesis
  proof (rule pk_ready_same [OF rdy t])
    show "registered this (alg_id s) g'" if "registered this (alg_id s) g"
      using that by (auto simp: registered_def g' nth_append nat_less_iff)
    show "log_ok g' s" if "log_ok g s" by (rule log_ok_append [OF that t, of "[]"]) (simp_all add: g')
  qed (simp_all add: g' changed_def getCurrentHistory_def nHistoryClears_def)
qed

lemma pk_ready_clear:
  assumes rdy: "pk_ready this g s"
  shows "pk_ready this (clearHistory upd True g) s"
proof (cases "disable_history_clears g \<or> history g = []")
  case True
  then have "clearHistory upd True g = g" by (auto simp: clearHistory_def)
  then show ?thesis using rdy by simp
next
  case False
  then have g': "clearHistory upd True g = g\<lparr>previous_history_size := int (length (history g)), history_offset := 0, history := [],
               historyclears := historyclears g + 1\<rparr>" (is "_ = ?g") by (simp add: clearHistory_def)
  show ?thesis unfolding g'
    by (rule pk_ready_same [OF rdy])
      (simp_all add: same_topology_def changed_def getCurrentHistory_def nHistoryClears_def registered_def)
qed

subsection \<open>Sequences of operations\<close>

text \<open>\<open>pk_run this g s\<close>: the graph \<open>g\<close> and the object \<open>s\<close> after any sequence of operations. \<open>clearChanged\<close> is only called when the
  object is up to date, as \<open>GraphTheorySolver\<close> does at the end of a round. A node may be declared as long as the nested
  depth-first search has not run.\<close>

inductive pk_run :: "nat \<Rightarrow> DynamicGraph \<Rightarrow> PKTopologicalSort \<Rightarrow> bool" for this where
  create: "wf_graph g \<Longrightarrow> loop_free g \<Longrightarrow> PKTopologicalSort_new this g = Some (s, g') \<Longrightarrow> pk_run this g' s"
| change: "pk_run this g s \<Longrightarrow> status_op g g' \<Longrightarrow>
    (changed g \<Longrightarrow> changed g' \<or> pk_last_modification s \<le> 0 \<or> getCurrentHistory g = pk_last_modification s) \<Longrightarrow> pk_run this g' s"
| declare_edge: "pk_run this g s \<Longrightarrow> u < num_nodes g \<Longrightarrow> v < num_nodes g \<Longrightarrow> u \<noteq> v \<Longrightarrow> i0 < 0 \<or> \<not> isEdge g (nat i0) \<Longrightarrow>
    addEdge u v i0 w g = Some (i, g') \<Longrightarrow> pk_run this g' s"
| declare_node: "pk_run this g s \<Longrightarrow> d_last_modification (dfs_cycle s) \<le> 0 \<Longrightarrow> pk_run this (snd (addNode g)) s"
| register: "pk_run this g s \<Longrightarrow> addDynamicAlgorithm a g = Some (k, g') \<Longrightarrow> pk_run this g' s"
| trim: "pk_run this g s \<Longrightarrow> pk_run this (clearHistory upd True g) s"
| update: "pk_run this g s \<Longrightarrow> pk_update this g s = Some (s', g') \<Longrightarrow> pk_run this g' s'"

lemma loop_free_same: "loop_free g \<Longrightarrow> same_topology g g' \<Longrightarrow> loop_free g'"
  using same_topology_declares by (simp add: loop_free_def)

lemma addEdge_counters:
  assumes "addEdge u v i0 w g = Some (i, g')"
  shows "is_changed g'" "historyclears g' = historyclears g" "dynamic_algs g' = dynamic_algs g"
  using assms by (auto simp: addEdge_def enableEdge3_def markChanged_def Let_def split: if_splits)

lemma DFSCycle_init_last: "d_last_modification DFSCycle_init = -1"
  by (simp add: DFSCycle_init_def)

lemma pk_ready_create:
  assumes "PKTopologicalSort_new this g = Some (s, g')"
  shows "pk_ready this g' s" "quiet g g'"
  using assms
  by (auto simp: PKTopologicalSort_new_def addDynamicAlgorithm_def PK_fields_def pk_ready_def pk_clean_def registered_def
      dfs_part_ok_def quiet_def same_topology_def DFSCycle_init_last)

lemma pk_run_ready: "pk_run this g s \<Longrightarrow> wf_graph g \<and> loop_free g \<and> pk_ready this g s"
proof (induction rule: pk_run.induct)
  case (create g s g')
  then show ?case using pk_ready_create [OF create(3)] wf_quiet loop_free_same by (auto simp: quiet_def)
next
  case (change g s g')
  then show ?case using pk_ready_status [of this g s g'] status_op_effect [of g g'] loop_free_same by blast
next
  case (declare_edge g s u v i0 w i g')
  then have wf: "wf_graph g" and lf: "loop_free g" and rdy: "pk_ready this g s" by simp_all
  have "graph_op g g'" using declare_edge.hyps by (intro graph_op.add_edge [of u g v i0 w i])
  then have e: "wf_graph g'" "modifications g \<le> modifications g'" using graph_op_effect [OF _ wf] by blast+
  from addEdge_correct [OF wf declare_edge.hyps(2,3,5) refl, of w] declare_edge.hyps(6) obtain j where
    c: "num_nodes g' = num_nodes g" "\<forall>k x y. declares g' k x y \<longleftrightarrow> declares g k x y \<or> (k, x, y) = (j, u, v)" "\<not> isEdge g j"
      "arcs g' = insert (u, j, v) (arcs g)" by auto
  have "(u, j, v) \<notin> arcs g" using c(3) declares_isEdge [of g j u v] by (auto simp: arcs_iff)
  then have a: "num_nodes g' = num_nodes g" "loop_free g'" "arcs g' \<noteq> arcs g"
    using c lf declare_edge.hyps(4) by (auto simp: loop_free_def)
  have "modifications g' \<noteq> modifications g" using graph_op_effect [OF \<open>graph_op g g'\<close> wf] a(3) arcs_quiet by blast
  then have "pk_ready this g' s"
    using addEdge_counters [OF declare_edge.hyps(6)] a e(2)
    by (intro pk_ready_grow [OF rdy]) (simp_all add: changed_def getCurrentHistory_def nHistoryClears_def nodes_def)
  then show ?case using e a by simp
next
  case (declare_node g s)
  have "declares (snd (addNode g)) = declares g" by (simp add: declares_def addNode_fields fun_eq_iff)
  moreover have "historyclears g \<le> historyclears (snd (addNode g))"
    by (simp add: addNode_def clearHistory_def markChanged_def Let_def)
  ultimately show ?case
    using declare_node wf_addNode(1) pk_ready_grow [of this g s "snd (addNode g)"]
    by (simp add: loop_free_def addNode_fields changed_def getCurrentHistory_def nHistoryClears_def)
next
  case (register g s a k g')
  have "quiet g g'" using register.hyps(2) by (auto simp: addDynamicAlgorithm_def quiet_def same_topology_def split: option.splits)
  then show ?case using register pk_ready_register wf_quiet loop_free_same by (auto simp: quiet_def)
next
  case (trim g s upd)
  have "quiet g (clearHistory upd True g)" by (simp add: clearHistory_def quiet_def same_topology_def)
  then show ?case using trim pk_ready_clear wf_quiet loop_free_same by (auto simp: quiet_def)
next
  case (update g s s' g')
  then obtain p where g': "g' = g\<lparr>dynamic_history_pos := p\<rparr>" "length p = length (dynamic_history_pos g)" "pk_ready this g s'"
    using pk_update_correct [of g this s] by auto
  then show ?case using update quiet_pos [OF g'(2)] pk_ready_pos [OF g'(2)] wf_quiet loop_free_same by (auto simp: quiet_def)
qed

text \<open>Seen through the interface, the object meets the contract of a cycle detection algorithm.\<close>

definition pk_has :: "nat \<Rightarrow> DynamicGraph \<Rightarrow> PKTopologicalSort \<Rightarrow> (bool \<times> PKTopologicalSort) option" where
  "pk_has this g s = map_option (\<lambda>(b, s, g). (b, s)) (pk_hasDirectedCycle this g s)"

definition pk_get :: "nat \<Rightarrow> DynamicGraph \<Rightarrow> PKTopologicalSort \<Rightarrow> (nat list \<times> PKTopologicalSort) option" where
  "pk_get this g s = map_option (\<lambda>(c, s, g). (c, s)) (pk_getDirectedCycle this g s)"

interpretation pk: cycle_algorithm "\<lambda>g s. loop_free g \<and> pk_ready this g s" "pk_has this" "pk_get this" cyc_any for this
proof
  fix g s assume *: "wf_graph g" "loop_free g \<and> pk_ready this g s"
  from pk_update_correct [OF *(1), of this s] *(2) obtain s' p where
    u: "pk_update this g s = Some (s', g\<lparr>dynamic_history_pos := p\<rparr>)" "pk_ready this g s'" "has_cycle s' \<longleftrightarrow> (\<exists>c. dicycle (arcs g) c)"
     "has_cycle s' \<longrightarrow> cyc_any (arcs g) (cycle s')" by blast
  show "\<exists>s'. pk_has this g s = Some (\<exists>c. cyc_any (arcs g) c, s') \<and> loop_free g \<and> pk_ready this g s'"
    using u *(2) by (simp add: pk_has_def pk_hasDirectedCycle_def cyc_any_ex)
  show "\<exists>c' s'. pk_get this g s = Some (c', s') \<and> cyc_any (arcs g) c' \<and> loop_free g \<and> pk_ready this g s'" if "cyc_any (arcs g) c" for c
    using u *(2) that by (auto simp: pk_get_def pk_getDirectedCycle_def cyc_any_def)
qed (blast intro: cyc_any_local cyc_any_edges)+



text \<open>C11: \<open>addEdge\<close> on an acyclic graph with its topological order returns. It reports a cycle exactly if the new edge closes one,
  and then stores the edges of a directed cycle, in the direction of the edges or against it; otherwise the repaired numbers
  are again a topological order, a permutation of the numbers of the nodes.\<close>

theorem edge_insertion_correct:
  assumes "wf_graph g" "pk_sizes g s" "pk_clean s" "has_topo s" "\<not> has_cycle s" "cycle s = []" "declares g i u v" "u \<noteq> v"
    and "larcs g (edge_enabled s) = insert (u, i, v) A" "topo (nodes g) (pk_ord s) A"
  shows "\<exists>s'. pk_addEdge g i s = Some s' \<and> (has_cycle s' \<longleftrightarrow> (\<exists>c. dicycle (insert (u, i, v) A) c)) \<and>
     (if has_cycle s' then dicycle (insert (u, i, v) A) (rev (cycle s')) \<or> dicycle (insert (u, i, v) A) (cycle s')
      else topo (nodes g) (pk_ord s') (insert (u, i, v) A))"
proof -
  let ?A = "insert (u, i, v) A"
  let ?t = "s\<lparr>lower_bound := pk_ord s ! v, upper_bound := pk_ord s ! u\<rparr>"
  note bd = declares_bounds [OF assms(1,7)]
  have len: "length (pk_ord s) = nodes g" using assms(2) by (simp add: pk_sizes_def)
  have ne: "pk_ord s ! u \<noteq> pk_ord s ! v" using assms(8,10) bd nth_eq_iff_index_eq [of "pk_ord s" u v] by (simp add: topo_def)
  have eq: "pk_addEdge g i s = (if pk_ord s ! v < pk_ord s ! u then do { (_, s) \<leftarrow> dfs_forward g v ?t;
              if \<not> has_cycle s then do {
                s \<leftarrow> dfs_backward g u (if has_cycle s then int v else -1) (int i) s;
                reorder s
              } else do {
                s \<leftarrow> push_cycle u v i s;
                Some (s\<lparr>visited := clear_marks (l_xy_F s) (clear_marks (l_xy_B s) (visited s)),
                        l_xy_F := [], l_xy_B := [], has_topo := False\<rparr>)
              } } else Some ?t)"
    using assms(4,5,8) bd len by (simp add: pk_addEdge_def ends_declares [OF assms(7)])
  have "\<exists>s'. pk_addEdge g i s = Some s' \<and> pk_core g ?A ?A s' \<and> (\<not> has_cycle s' \<longrightarrow> has_topo s')"
  proof (cases "pk_ord s ! v < pk_ord s ! u")
    case True
    then have "inserting g ?t i u v A"
      using assms by (simp add: inserting_def pk_sizes_def pk_clean_def)
    from insert_edge_correct [OF assms(1) this] True show ?thesis unfolding eq by (auto simp: inserted_def)
  next
    case False
    then have "topo (nodes g) (pk_ord s) ?A" using assms(10) ne by (auto simp: topo_def)
    then show ?thesis unfolding eq using False assms(4-6) by (simp add: pk_core_def)
  qed
  then obtain s' where s': "pk_addEdge g i s = Some s'" "pk_core g ?A ?A s'" "\<not> has_cycle s' \<longrightarrow> has_topo s'" by blast
  then show ?thesis using pk_core_decides [OF s'(2)] by (auto simp: cyc_any_def pk_core_def)
qed

theorem edge_insertion_correct_witness:
  "\<exists>s'. pk_addEdge triangle 0 (PK_fields\<lparr>in_cycle := replicate 3 False, edge_in_cycle := replicate 3 False,
      visited := replicate 3 False, tmp_mark := replicate 3 False, pk_ord := [2, 1, 0], edge_enabled := [True, False, False],
      has_topo := True\<rparr>) = Some s' \<and> topo 3 (pk_ord s') {(0, 0, 1)}"
proof -
  let ?s = "PK_fields\<lparr>in_cycle := replicate 3 False, edge_in_cycle := replicate 3 False,
      visited := replicate 3 False, tmp_mark := replicate 3 False, pk_ord := [2, 1, 0], edge_enabled := [True, False, False],
      has_topo := True\<rparr>"
  have n: "nodes triangle = 3" "edges triangle = 3"
    using wf_graph_lengths(5) [OF wf_triangle] by (simp_all add: nodes_def edges_def triangle_eval)
  have "pk_sizes triangle ?s" "pk_clean ?s" "has_topo ?s" "\<not> has_cycle ?s" "cycle ?s = []"
    by (simp_all add: pk_sizes_def pk_clean_def n PK_fields_def)
  moreover have "larcs triangle (edge_enabled ?s) = insert (0, 0, 1) {}"
    using declares_only [OF triangle_declares(1)] by (auto simp: larcs_def nth_Cons' less_Suc_eq split: if_splits)
  moreover have "topo (nodes triangle) (pk_ord ?s) {}" by (simp add: topo_def n)
  moreover have "\<not> dicycle {(0, 0, 1)} c" for c by (rule rank_no_dicycle [where rank = id]) simp
  ultimately show ?thesis using edge_insertion_correct [OF wf_triangle _ _ _ _ _ triangle_declares(1), of ?s "{}"] n by auto
qed

subsection \<open>Where the object fails\<close>

text \<open>Two nodes, a loop at node 0 and an edge in either direction, all disabled.\<close>

definition loop_graph :: DynamicGraph where
  "loop_graph =
     (case do { (_, g) \<leftarrow> addEdge 0 0 (-1) 1 (addNodes 2 DynamicGraph_init);
                (_, g) \<leftarrow> addEdge 0 1 (-1) 1 g;
                (_, g) \<leftarrow> addEdge 1 0 (-1) 1 g;
                g \<leftarrow> disableEdge 0 g; g \<leftarrow> disableEdge 1 g; disableEdge 2 g }
      of Some g \<Rightarrow> g | None \<Rightarrow> DynamicGraph_init)"

text \<open>The loop and the edge from 0 to 1 are enabled, the loop is disabled, the edge from 1 to 0 is enabled; the object is updated
  after each change but the last.\<close>

definition loop_run :: "(PKTopologicalSort \<times> DynamicGraph) option" where
  "loop_run = do {
     (s, g) \<leftarrow> PKTopologicalSort_new 0 loop_graph;
     (s, g) \<leftarrow> pk_update 0 g s;
     g \<leftarrow> enableEdge 0 (clearChanged g);
     (s, g) \<leftarrow> pk_update 0 g s;
     g \<leftarrow> enableEdge 1 g;
     (s, g) \<leftarrow> pk_update 0 g s;
     g \<leftarrow> disableEdge 0 g;
     (s, g) \<leftarrow> pk_update 0 g s;
     g \<leftarrow> enableEdge 2 g;
     Some (s, g)
   }"

text \<open>A cycle is closed and broken, so that the nested search runs; a node is declared; the cycle is closed and broken again.\<close>

definition grown_run :: "(PKTopologicalSort \<times> DynamicGraph) option" where
  "grown_run = do {
     (s, g) \<leftarrow> PKTopologicalSort_new 0 loop_graph;
     (s, g) \<leftarrow> pk_update 0 g s;
     g \<leftarrow> enableEdge 1 (clearChanged g);
     g \<leftarrow> enableEdge 2 g;
     (s, g) \<leftarrow> pk_update 0 g s;
     g \<leftarrow> disableEdge 1 g;
     (s, g) \<leftarrow> pk_update 0 g s;
     let g = snd (addNode g);
     (s, g) \<leftarrow> pk_update 0 g s;
     g \<leftarrow> enableEdge 1 (clearChanged g);
     (s, g) \<leftarrow> pk_update 0 g s;
     g \<leftarrow> disableEdge 1 g;
     Some (s, g)
   }"

lemma grown_run_eval: "map_option (\<lambda>(s, g). pk_update 0 g s = None) grown_run = Some True"
  by code_simp

lemma loop_run_eval:
  "map_option (\<lambda>(s, g). (map_option fst (pk_hasDirectedCycle 0 g s), all_edges g, edge_status g)) loop_run =
     Some (Some False, [mkFullEdge 0 0 0, mkFullEdge 0 1 1, mkFullEdge 1 0 2], [False, True, True])"
  by code_simp

text \<open>C26: a self-loop hides a cycle. When a self-loop is enabled, \<open>addEdge\<close> reports the cycle but leaves \<open>has_topo\<close> set; an edge
  enabled in the meantime is not inserted into the order, and once the loop is disabled again the stale order is
  taken for valid: with the edges from 0 to 1 and back both enabled, \<open>hasDirectedCycle\<close> answers that there is no cycle.\<close>
theorem self_loop_hides_cycle:
  "\<exists>s g. loop_run = Some (s, g) \<and> dicycle (arcs g) [1, 2] \<and> map_option fst (pk_hasDirectedCycle 0 g s) = Some False"
proof -
  obtain p where p: "loop_run = Some p" "(case p of (s, g) \<Rightarrow> (map_option fst (pk_hasDirectedCycle 0 g s), all_edges g, edge_status g)) =
      (Some False, [mkFullEdge 0 0 0, mkFullEdge 0 1 1, mkFullEdge 1 0 2], [False, True, True])"
    using loop_run_eval unfolding map_option_eq_Some by blast
  obtain s g where sg: "p = (s, g)" by (cases p)
  have r: "loop_run = Some (s, g)" "map_option fst (pk_hasDirectedCycle 0 g s) = Some False"
    "all_edges g = [mkFullEdge 0 0 0, mkFullEdge 0 1 1, mkFullEdge 1 0 2]" "edge_status g = [False, True, True]"
    using p unfolding sg prod.case prod.inject by blast+
  have "walk (arcs g) 0 [1, 2] 0" using r(3,4) by (simp add: arcs_def declares_def)
  then have "dicycle (arcs g) [1, 2]" by (auto simp: dicycle_def)
  then show ?thesis using r(1,2) by blast
qed


end
