(* ===== verification/Implication_Trail.thy ===== *)
theory Implication_Trail
  imports Solver_Core
begin

text \<open>
  The state of \<open>core/Solver.cc\<close> above decision level 0. \<open>wf_solver\<close> says what the solver means; the
  invariants here say what search relies on: the literals of each level are a segment of the trail, a
  propagated literal is the first literal of its reason and the rest of the reason is false before it,
  and a clause that is watched by a false literal already visited has a true blocker that is no younger.
  Propagation, decisions and backtracking keep them; propagation misses no unit clause.
\<close>

subsection \<open>Levels, reasons, blockers\<close>

definition reason :: "Solver \<Rightarrow> int \<Rightarrow> nat option" where
  "reason S x = vd_reason (vardata S ! nat x)"

definition level_at :: "Solver \<Rightarrow> nat \<Rightarrow> nat" where
  "level_at S i = length (filter (\<lambda>n. n \<le> i) (trail_lim S))"

definition trail_levels :: "Solver \<Rightarrow> bool" where
  "trail_levels S \<longleftrightarrow> sorted (trail_lim S) \<and> (\<forall>n \<in> set (trail_lim S). n \<le> qhead S) \<and>
     (\<forall>i < length (trail S). level S (var (trail S ! i)) = level_at S i)"

definition explains :: "Solver \<Rightarrow> nat \<Rightarrow> nat \<Rightarrow> bool" where
  "explains S cr i \<longleftrightarrow> cr \<in> set (db S) \<and> clause_of S cr ! 0 = trail S ! i \<and>
     (\<forall>q \<in> set (tl (clause_of S cr)). neg q \<in> set (take i (trail S)))"

definition reasons_ok :: "Solver \<Rightarrow> bool" where
  "reasons_ok S \<longleftrightarrow> (\<forall>i < length (trail S). case reason S (var (trail S ! i)) of
       None \<Rightarrow> level S (var (trail S ! i)) = 0 \<or> i \<in> set (trail_lim S)
     | Some cr \<Rightarrow> explains S cr i)"

definition decisions :: "Solver \<Rightarrow> Lit set" where
  "decisions S = {l \<in> set (trail S). reason S (var l) = None \<and> 0 < level S (var l)}"

definition watch_list :: "Solver \<Rightarrow> Lit \<Rightarrow> Watcher list" where
  "watch_list S p = watches S ! nat (toInt p)"

text \<open>The two conditions on blockers are stated for a view \<open>W\<close> of the watch lists, because the loop over
  the list of \<open>p\<close> writes it back only at its end.\<close>

definition blockers_in :: "Solver \<Rightarrow> (Lit \<Rightarrow> Watcher list) \<Rightarrow> bool" where
  "blockers_in S W \<longleftrightarrow> (\<forall>p w. in_range S p \<longrightarrow> w \<in> set (W p) \<longrightarrow> blocker w \<in> set (clause_of S (cref w)))"

definition watched_in :: "Solver \<Rightarrow> nat \<Rightarrow> (Lit \<Rightarrow> Watcher list) \<Rightarrow> bool" where
  "watched_in S n W \<longleftrightarrow> (\<forall>p \<in> set (take n (trail S)). \<forall>w \<in> set (W p).
     blocker w \<in> set (trail S) \<and> level S (var (blocker w)) \<le> level S (var p))"

definition cdcl_inv :: "Solver \<Rightarrow> bool" where
  "cdcl_inv S \<longleftrightarrow> trail_levels S \<and> reasons_ok S \<and> blockers_in S (watch_list S)"

text \<open>Every clause has been examined for the literals in front of \<open>qhead\<close>; after a conflict, for those of
  the levels below the current one.\<close>

definition settled :: "Solver \<Rightarrow> bool" where
  "settled S \<longleftrightarrow> watched_in S (qhead S) (watch_list S)"

definition settled_below :: "Solver \<Rightarrow> bool" where
  "settled_below S \<longleftrightarrow> (\<forall>n \<in> set (trail_lim S). watched_in S n (watch_list S))"

subsection \<open>Levels as segments of the trail\<close>

lemma count_le_sorted:
  fixes xs :: "nat list"
  shows "sorted xs \<Longrightarrow> length (filter (\<lambda>n. n \<le> i) xs) \<le> k \<longleftrightarrow> length xs \<le> k \<or> i < xs ! k"
proof (induction xs arbitrary: k)
  case (Cons x xs)
  show ?case
  proof (cases "x \<le> i")
    case True
    then show ?thesis using Cons by (cases k) auto
  next
    case False
    then have "filter (\<lambda>n. n \<le> i) xs = []" using Cons.prems by (auto simp: filter_empty_conv)
    moreover have "i < (x # xs) ! k" if "k \<le> length xs"
    proof -
      have "(x # xs) ! k \<in> set (x # xs)" using that by (intro nth_mem) simp
      then have "x \<le> (x # xs) ! k" using Cons.prems by auto
      then show ?thesis using False by linarith
    qed
    ultimately show ?thesis using False by (simp add: not_less_eq_eq) linarith
  qed
qed simp

lemma level_at_le: "level_at S i \<le> decisionLevel S"
  by (simp add: level_at_def)

lemma level_at_mono: "i \<le> j \<Longrightarrow> level_at S i \<le> level_at S j"
  unfolding level_at_def length_filter_conv_card by (rule card_mono) auto

lemma level_at_top:
  assumes "\<forall>n \<in> set (trail_lim S). n \<le> i" shows "level_at S i = decisionLevel S"
  using assms by (simp add: level_at_def filter_True)

lemma level_nth: "trail_levels S \<Longrightarrow> i < length (trail S) \<Longrightarrow> level S (var (trail S ! i)) = level_at S i"
  by (simp add: trail_levels_def)

lemma level_le: "trail_levels S \<Longrightarrow> l \<in> set (trail S) \<Longrightarrow> level S (var l) \<le> decisionLevel S"
  by (metis in_set_conv_nth level_nth level_at_le)

lemma level_le_iff:
  assumes "trail_levels S" "i < length (trail S)" "k < decisionLevel S"
  shows "level S (var (trail S ! i)) \<le> k \<longleftrightarrow> i < trail_lim S ! k"
  using assms count_le_sorted [of "trail_lim S" i k] by (simp add: level_nth level_at_def trail_levels_def)

lemma level_current_iff:
  assumes "trail_levels S" "i < length (trail S)" "trail_lim S \<noteq> []"
  shows "level S (var (trail S ! i)) = decisionLevel S \<longleftrightarrow> last (trail_lim S) \<le> i"
proof -
  have "decisionLevel S - 1 < decisionLevel S" using assms(3) by simp
  from level_le_iff [OF assms(1,2) this] show ?thesis
    using assms level_at_le [of S i] by (simp add: last_conv_nth level_nth)
     (metis One_nat_def Suc_pred length_greater_0_conv le_antisym not_less not_less_eq_eq)
qed

lemma level_mono_trail:
  assumes "trail_levels S" "i \<le> j" "j < length (trail S)"
  shows "level S (var (trail S ! i)) \<le> level S (var (trail S ! j))"
  using assms level_at_mono [of i j S] by (simp add: level_nth)

lemma lim_le_trail: "wf_trail S \<Longrightarrow> n \<in> set (trail_lim S) \<Longrightarrow> n \<le> length (trail S)"
  by (simp add: wf_trail_def)

subsection \<open>A literal is put on the trail\<close>

lemma reason_uncheckedEnqueue:
  "wf_vars S \<Longrightarrow> in_range S l \<Longrightarrow> 0 \<le> x \<Longrightarrow>
     reason (uncheckedEnqueue l r S) x = (if x = var l then r else reason S x)"
  using var_index [of S l]
  by (auto simp: reason_def uncheckedEnqueue_def nth_list_update wf_vars_def in_range_def)

text \<open>What enqueuing an unassigned literal leaves as it was.\<close>

lemma enqueue_frame:
  assumes wf: "wf_vars S" "wf_trail S" and l: "in_range S l" "lbool_eq (lit_value S l) l_Undef"
    and q: "q \<in> set (trail S)"
  shows "level (uncheckedEnqueue l r S) (var q) = level S (var q)"
    "reason (uncheckedEnqueue l r S) (var q) = reason S (var q)" "var q \<noteq> var l"
proof -
  have "l \<notin> set (trail S)" "neg l \<notin> set (trail S)" using value_Undef [OF wf l(1)] l(2) by auto
  then show ne: "var q \<noteq> var l" using q same_var_cases [of q l] by auto
  have "0 \<le> var q" using wf(2) q by (auto simp: wf_trail_def in_range_def)
  then show "level (uncheckedEnqueue l r S) (var q) = level S (var q)"
    "reason (uncheckedEnqueue l r S) (var q) = reason S (var q)"
    using ne wf(1) l(1) by (simp_all add: level_uncheckedEnqueue reason_uncheckedEnqueue)
qed

lemma trail_levels_enqueue:
  assumes wf: "wf_vars S" "wf_trail S" and l: "in_range S l" "lbool_eq (lit_value S l) l_Undef"
    and ok: "trail_levels S"
  shows "trail_levels (uncheckedEnqueue l r S)"
proof -
  let ?T = "uncheckedEnqueue l r S"
  have at: "level_at ?T = level_at S" by (simp add: level_at_def fun_eq_iff)
  have "level ?T (var (trail ?T ! i)) = level_at S i" if i: "i < length (trail ?T)" for i
  proof (cases "i < length (trail S)")
    case True
    then show ?thesis
      using enqueue_frame(1) [OF wf l] ok level_nth by (simp add: nth_append)
  next
    case False
    then have "i = length (trail S)" using i by simp
    moreover have "level_at S (length (trail S)) = decisionLevel S"
      using wf(2) by (intro level_at_top) (simp add: wf_trail_def)
    ultimately show ?thesis
      using wf(1) l(1) by (simp add: level_uncheckedEnqueue in_range_def)
  qed
  then show ?thesis using ok by (simp add: trail_levels_def at)
qed

lemma reasons_ok_enqueue:
  assumes wf: "wf_vars S" "wf_trail S" and l: "in_range S l" "lbool_eq (lit_value S l) l_Undef"
    and ok: "reasons_ok S"
    and new: "case r of None \<Rightarrow> trail_lim S = [] \<or> length (trail S) \<in> set (trail_lim S)
      | Some cr \<Rightarrow> cr \<in> set (db S) \<and> clause_of S cr ! 0 = l \<and>
          (\<forall>q \<in> set (tl (clause_of S cr)). neg q \<in> set (trail S))"
  shows "reasons_ok (uncheckedEnqueue l r S)"
  unfolding reasons_ok_def
proof (intro allI impI)
  let ?T = "uncheckedEnqueue l r S"
  fix i assume i: "i < length (trail ?T)"
  show "case reason ?T (var (trail ?T ! i)) of
       None \<Rightarrow> level ?T (var (trail ?T ! i)) = 0 \<or> i \<in> set (trail_lim ?T)
     | Some cr \<Rightarrow> explains ?T cr i"
  proof (cases "i < length (trail S)")
    case True
    have "trail S ! i \<in> set (trail S)" using True by simp
    note fr = enqueue_frame [OF wf l this]
    show ?thesis
      using True ok fr(1,2) unfolding reasons_ok_def explains_def
      by (auto simp: nth_append split: option.splits)
  next
    case False
    then have "i = length (trail S)" using i by simp
    moreover have "reason ?T (var l) = r" "level ?T (var l) = decisionLevel S"
      using wf(1) l(1) by (simp_all add: reason_uncheckedEnqueue level_uncheckedEnqueue in_range_def)
    ultimately show ?thesis
      using new by (auto simp: explains_def split: option.splits)
  qed
qed

lemma watched_in_enqueue:
  assumes wf: "wf_vars S" "wf_trail S" and l: "in_range S l" "lbool_eq (lit_value S l) l_Undef"
    and "watched_in S n W" "n \<le> length (trail S)"
  shows "watched_in (uncheckedEnqueue l r S) n W"
proof -
  have "p \<in> set (trail S)" if "p \<in> set (take n (trail S))" for p using that by (rule in_set_takeD)
  then show ?thesis
    using assms(5,6) enqueue_frame(1) [OF wf l] by (auto simp: watched_in_def)
qed

lemma decisions_enqueue:
  assumes wf: "wf_vars S" "wf_trail S" and l: "in_range S l" "lbool_eq (lit_value S l) l_Undef"
  shows "decisions (uncheckedEnqueue l r S) \<subseteq> (if r = None \<and> trail_lim S \<noteq> [] then insert l (decisions S) else decisions S)"
proof -
  have "reason (uncheckedEnqueue l r S) (var l) = r" "level (uncheckedEnqueue l r S) (var l) = decisionLevel S"
    using wf(1) l(1) by (simp_all add: reason_uncheckedEnqueue level_uncheckedEnqueue in_range_def)
  then show ?thesis
    using enqueue_frame(1,2) [OF wf l] by (auto simp: decisions_def)
qed

lemma blockers_in_enqueue [simp]: "blockers_in (uncheckedEnqueue l r S) = blockers_in S"
  by (simp add: blockers_in_def fun_eq_iff)

lemma watch_list_enqueue [simp]:
  "watch_list (uncheckedEnqueue l r S) = watch_list S" "watch_list (S\<lparr>qhead := n\<rparr>) = watch_list S"
  by (simp_all add: watch_list_def fun_eq_iff)

subsection \<open>The literals of a clause are reordered\<close>

lemma reason_set_lits [simp]:
  "reason (set_lits cr c S) = reason S" "reason (push_watch p w S) = reason S"
  "reason (set_watches p ws S) = reason S" "reason (S\<lparr>qhead := n\<rparr>) = reason S"
  by (simp_all add: reason_def fun_eq_iff)

lemma decisions_frame [simp]:
  "decisions (set_lits cr c S) = decisions S" "decisions (push_watch p w S) = decisions S"
  "decisions (set_watches p ws S) = decisions S" "decisions (S\<lparr>qhead := n\<rparr>) = decisions S"
  by (simp_all add: decisions_def)

lemma levels_ok_frame [simp]:
  "trail_levels (set_lits cr c S) = trail_levels S" "trail_levels (push_watch p w S) = trail_levels S"
  "trail_levels (set_watches p ws S) = trail_levels S"
  by (simp_all add: trail_levels_def level_at_def)

lemma reasons_ok_frame [simp]:
  "reasons_ok (push_watch p w S) = reasons_ok S" "reasons_ok (set_watches p ws S) = reasons_ok S"
  "reasons_ok (S\<lparr>qhead := n\<rparr>) = reasons_ok S"
  by (simp_all add: reasons_ok_def explains_def cong: option.case_cong)

lemma watched_in_frame [simp]:
  "watched_in (set_lits cr c S) = watched_in S" "watched_in (push_watch p w S) = watched_in S"
  "watched_in (set_watches p ws S) = watched_in S" "watched_in (S\<lparr>qhead := n\<rparr>) = watched_in S"
  by (simp_all add: watched_in_def fun_eq_iff)

lemma levels_ok_qhead: "trail_levels S \<Longrightarrow> qhead S \<le> n \<Longrightarrow> trail_levels (S\<lparr>qhead := n\<rparr>)"
  by (auto simp: trail_levels_def level_at_def)

text \<open>A clause that is the reason of a literal keeps this literal in front.\<close>

lemma reasons_ok_set_lits:
  assumes ok: "reasons_ok S" and cr: "cr < length (ca S)"
    and c: "clause_of S cr ! 0 \<in> set (trail S) \<Longrightarrow>
      c ! 0 = clause_of S cr ! 0 \<and> set (tl c) = set (tl (clause_of S cr))"
  shows "reasons_ok (set_lits cr c S)"
  unfolding reasons_ok_def
proof (intro allI impI)
  let ?T = "set_lits cr c S"
  fix i assume i: "i < length (trail ?T)"
  have "explains ?T cr' i" if "explains S cr' i" for cr'
    using that i c cr nth_mem [of i "trail S"] by (auto simp: explains_def clause_of_set_lits)
  then show "case reason ?T (var (trail ?T ! i)) of
       None \<Rightarrow> level ?T (var (trail ?T ! i)) = 0 \<or> i \<in> set (trail_lim ?T)
     | Some cr' \<Rightarrow> explains ?T cr' i"
    using ok i by (auto simp: reasons_ok_def split: option.splits)
qed

lemma blockers_in_prop_rel:
  assumes "blockers_in S W" "prop_rel S S'" "\<forall>p w. in_range S p \<longrightarrow> w \<in> set (W p) \<longrightarrow> cref w \<in> set (db S)"
  shows "blockers_in S' W"
  using assms unfolding blockers_in_def prop_rel_def in_range_def by fastforce

subsection \<open>Propagation\<close>

text \<open>The invariant inside the loop over the watch list of \<open>p\<close>: the watchers in \<open>js\<close> have been examined, those
  in \<open>xs\<close> have not.\<close>

definition view :: "Lit \<Rightarrow> Watcher list \<Rightarrow> Solver \<Rightarrow> Lit \<Rightarrow> Watcher list" where
  "view p ws S = (\<lambda>q. if q = p then ws else watch_list S q)"

definition step_inv :: "Lit \<Rightarrow> Watcher list \<Rightarrow> Watcher list \<Rightarrow> Solver \<Rightarrow> bool" where
  "step_inv p xs js S \<longleftrightarrow> prop_inv p (js @ xs) S \<and> trail_levels S \<and> reasons_ok S \<and>
     blockers_in S (view p (js @ xs) S) \<and> watched_in S (qhead S) (view p js S) \<and>
     level S (var p) = decisionLevel S"

lemma view_db:
  assumes "prop_inv p ws S" "in_range S q" "w \<in> set (view p ws S q)"
  shows "cref w \<in> set (db S)"
proof -
  have "watch_ok S q (view p ws S q)"
    using assms(1,2) by (auto simp: prop_inv_def wf_watches_with_def view_def watch_list_def)
  then show ?thesis using assms(3) unfolding watch_ok_def by blast
qed

lemma reasons_ok_swapped:
  assumes inv: "prop_inv p (js @ w # is) S" and ok: "reasons_ok S"
  shows "reasons_ok (swapped_state p w S)"
  unfolding swapped_state_def
proof (rule reasons_ok_set_lits [OF ok])
  have "neg p \<notin> set (trail S)" using inv trail_consistent [of S p] by (auto simp: prop_inv_def)
  then show "swapped_clause p (clause_of S (cref w)) ! 0 = clause_of S (cref w) ! 0 \<and>
      set (tl (swapped_clause p (clause_of S (cref w)))) = set (tl (clause_of S (cref w)))"
    if "clause_of S (cref w) ! 0 \<in> set (trail S)"
    using that by (auto simp: swapped_clause_def)
  show "cref w < length (ca S)"
    using swap_step [OF inv] inv by (auto simp: prop_inv_def wf_clauses_def)
qed

lemma swapped_frame [simp]:
  "watch_list (set_lits cr c S) = watch_list S" "watch_list (swapped_state p w S) = watch_list S"
  "view q ws (set_lits cr c S) = view q ws S" "view q ws (swapped_state p w S) = view q ws S"
  "view q ws (uncheckedEnqueue l r S) = view q ws S"
  "trail_levels (swapped_state p w S) = trail_levels S" "watched_in (swapped_state p w S) = watched_in S"
  "wf_vars (swapped_state p w S) = wf_vars S" "decisions (swapped_state p w S) = decisions S"
  by (simp_all add: fun_eq_iff watch_list_def view_def swapped_state_def)

lemma view_push_watch:
  assumes "wf_vars S" "in_range S r" "in_range S q"
  shows "view p ws (push_watch r w S) q = (if q = r \<and> q \<noteq> p then watch_list S q @ [w] else view p ws S q)"
  using assms by (simp add: view_def watch_list_def watches_push_watch)

lemma watched_in_snoc:
  assumes "watched_in S n (view p js S)" "blocker w \<in> set (trail S)" "trail_levels S"
    "level S (var p) = decisionLevel S"
  shows "watched_in S n (view p (js @ [w]) S)"
  using assms level_le [of S "blocker w"] by (auto simp: watched_in_def view_def)

lemma blockers_in_weaken:
  assumes "blockers_in S W" "\<And>q w. w \<in> set (W' q) \<Longrightarrow> w \<in> set (W q) \<or> blocker w \<in> set (clause_of S (cref w))"
  shows "blockers_in S W'"
  using assms unfolding blockers_in_def by blast

text \<open>Propagation decides nothing.\<close>

lemma watch_step_decisions:
  assumes "watch_step p (xs, js, S) (is', js', S')" "prop_inv p (js @ xs) S"
  shows "decisions S' \<subseteq> decisions S"
  using assms(1)
proof cases
  case (unit w c)
  let ?S1 = "swapped_state p w S"
  have inv: "prop_inv p (js @ w # is') S" using assms(2) unit(1) by simp
  have st: "wf_vars ?S1" "wf_trail ?S1" "wf_clauses ?S1" "clause_of ?S1 (cref w) = c" "cref w \<in> set (db S)"
    using swap_step [OF inv] unit by (auto simp: prop_inv_def undetermined_def)
  have "in_range ?S1 (c ! 0)" using st(3-5) unit_clause(1) [OF inv unit(4,5)] by (auto simp: wf_clauses_def)
  from decisions_enqueue [OF st(1,2) this, of "Some (cref w)"] show ?thesis
    using undetermined_undef [OF inv unit(4,6)] unit(3) by simp
qed simp_all

text \<open>The exchange of the first two literals, with the new blocker in the watcher.\<close>

lemma step_inv_swapped:
  assumes "step_inv p (w # is) js S" "c = swapped_clause p (clause_of S (cref w))"
  shows "step_inv p (Watcher (cref w) (c ! 0) # is) js (swapped_state p w S)"
    "clause_of (swapped_state p w S) (cref w) = c" "c ! 0 \<in> set c" "cref w \<in> set (db S)"
    "\<forall>l \<in> set c. in_range S l"
proof -
  let ?T = "swapped_state p w S" and ?w = "Watcher (cref w) (c ! 0)"
  have inv: "prop_inv p (js @ w # is) S" "reasons_ok S" "blockers_in S (view p (js @ w # is) S)"
    using assms(1) by (auto simp: step_inv_def)
  have st: "prop_inv p (js @ w # is) ?T" "prop_rel S ?T" "clause_of ?T (cref w) = c" "2 \<le> length c"
    using swap_step [OF inv(1)] assms(2) by auto
  show "clause_of ?T (cref w) = c" by (rule st(3))
  show c0: "c ! 0 \<in> set c" using st(4) by (intro nth_mem) linarith
  show db: "cref w \<in> set (db S)" using swap_step [OF inv(1)] by auto
  show "\<forall>l \<in> set c. in_range S l" using st(1,3) db by (auto simp: prop_inv_def wf_clauses_def)
  have "map cref (js @ ?w # is) = map cref (js @ w # is)" by simp
  then have "prop_inv p (js @ ?w # is) ?T" using st(1) prop_inv_cong by metis
  moreover have "blockers_in ?T (view p (js @ w # is) S)"
    by (rule blockers_in_prop_rel [OF inv(3) st(2)]) (use view_db [OF inv(1)] in blast)
  then have "blockers_in ?T (view p (js @ ?w # is) S)"
    by (rule blockers_in_weaken) (use st(3) c0 in \<open>auto simp: view_def split: if_splits\<close>)
  ultimately show "step_inv p (?w # is) js ?T"
    using assms(1) reasons_ok_swapped [OF inv(1,2)] by (simp add: step_inv_def)
qed

lemma step_inv_next:
  assumes "step_inv p (w # is) js S" "blocker w \<in> set (trail S)"
  shows "step_inv p is (js @ [w]) S"
  using assms watched_in_snoc [of S "qhead S" p js w] by (simp add: step_inv_def)

lemma watch_step_search:
  assumes "watch_step p (xs, js, S) (is', js', S')" "step_inv p xs js S"
  shows "step_inv p is' js' S'"
proof -
  have inv: "prop_inv p (js @ xs) S" "trail_levels S" "reasons_ok S" "blockers_in S (view p (js @ xs) S)"
    "watched_in S (qhead S) (view p js S)" "level S (var p) = decisionLevel S"
    using assms(2) by (auto simp: step_inv_def)
  have inv': "prop_inv p (js' @ is') S'" "prop_rel S S'" "qhead S' = qhead S"
    using watch_step_inv [OF assms(1) inv(1)] by auto
  have wf: "wf_vars S" "wf_trail S" "p \<in> set (trail S)" "qhead S \<le> length (trail S)"
    using inv(1) by (auto simp: prop_inv_def wf_trail_def)
  have bl: "blockers_in S' (view p (js @ xs) S)"
    by (rule blockers_in_prop_rel [OF inv(4) inv'(2)]) (use view_db [OF inv(1)] in blast)
  show ?thesis
    using assms(1)
  proof cases
    case (blocked w)
    have w: "w \<in> set (view p (js @ xs) S p)" using blocked by (simp add: view_def)
    have "in_range S (blocker w)"
    proof -
      have "cref w \<in> set (db S)" using view_db [OF inv(1) prop_inv_p [OF inv(1)] w] .
      moreover have "blocker w \<in> set (clause_of S (cref w))"
        using inv(4) w prop_inv_p [OF inv(1)] by (auto simp: blockers_in_def)
      ultimately show ?thesis using inv(1) by (auto simp: prop_inv_def wf_clauses_def)
    qed
    then have "blocker w \<in> set (trail S)" using value_True [OF wf(1,2)] blocked by simp
    from watched_in_snoc [OF inv(5) this inv(2,6)] show ?thesis
      using inv inv' blocked by (simp add: step_inv_def)
  next
    case (satisfied w c)
    have xs: "step_inv p (w # is') js S" using assms(2) satisfied(1) by simp
    note st = step_inv_swapped [OF xs satisfied(5)]
    have "c ! 0 \<in> set (trail S)" using value_True [OF wf(1,2)] satisfied(6) st(3,5) by blast
    then show ?thesis using step_inv_next [OF st(1)] satisfied(2,3) by simp
  next
    case (moved w c k c')
    let ?S1 = "swapped_state p w S"
    have xs: "prop_inv p (js @ w # is') S" using inv(1) moved by simp
    have st: "clause_of ?S1 (cref w) = c" "2 \<le> length c" "cref w \<in> set (db ?S1)" "wf_clauses ?S1" "c ! 1 = neg p"
      using swap_step [OF xs] moved by (auto simp: prop_inv_def undetermined_def)
    have k: "2 \<le> k" "k < length c" "\<not> lbool_eq (lit_value S (c ! k)) l_False"
      using find_watch_Some [OF moved(5)] by auto
    have rng: "in_range S (c ! k)" "cref w < length (ca ?S1)"
      using st k(2) by (auto simp: wf_clauses_def)
    then have nk: "neg (c ! k) \<notin> set (trail S)"
      using value_False [OF wf(1,2), of "c ! k"] k(3) by auto
    have c': "c' = swap_at 1 k c" using st(5) moved by (simp add: swap_at_def)
    have "c' ! 0 = c ! 0 \<and> set (tl c') = set (tl c)"
    proof (cases c)
      case (Cons a d)
      then have "0 < length d" "k - 1 < length d" using st(2) k by auto
      moreover have "c' = a # swap_at 0 (k - 1) d"
        using k Cons by (cases k) (simp_all add: c' swap_at_def)
      ultimately show ?thesis using Cons by simp
    qed (use st(2) in simp)
    then have "reasons_ok (set_lits (cref w) c' ?S1)"
      using reasons_ok_swapped [OF xs inv(3)] st(1) rng(2) by (intro reasons_ok_set_lits) auto
    then have "reasons_ok S'" using moved by simp
    moreover have "trail_levels S'" "level S' (var p) = decisionLevel S'" using inv(2,6) moved by simp_all
    moreover have c1: "c' ! 1 = c ! k" using k by (simp add: c' nth_swap_at)
    let ?w = "Watcher (cref w) (c ! 0)"
    have q: "view p ws S' q = (if q = neg (c ! k) \<and> q \<noteq> p then view p ws S q @ [?w] else view p ws S q)"
      if "in_range S q" for q ws
      using that rng(1) wf(1) moved(3) c1 by (simp add: view_push_watch) (auto simp: view_def)
    have "watched_in S' (qhead S) (view p js' S')"
      unfolding watched_in_def
    proof (intro ballI)
      fix r v assume r: "r \<in> set (take (qhead S) (trail S'))" and v: "v \<in> set (view p js' S' r)"
      have tr: "trail S' = trail S" "level S' = level S" using moved(3) by (simp_all add: fun_eq_iff)
      then have "r \<in> set (trail S)" "r \<noteq> neg (c ! k)" using r nk by (auto dest: in_set_takeD)
      moreover from this have "in_range S r" using wf(2) by (simp add: wf_trail_def)
      ultimately show "blocker v \<in> set (trail S') \<and> level S' (var (blocker v)) \<le> level S' (var r)"
        using inv(5) r v q [of r] tr moved(2) by (auto simp: watched_in_def)
    qed
    moreover have "blockers_in S' (view p (js' @ is') S')"
      unfolding blockers_in_def
    proof (intro allI impI)
      fix r v assume "in_range S' r" and v: "v \<in> set (view p (js' @ is') S' r)"
      then have r: "in_range S r" using moved(3) by simp
      have "clause_of S' (cref w) = c'" using moved(3) rng(2) by (simp add: clause_of_set_lits)
      moreover have "c ! 0 \<in> set c'" using c' k nth_mem [of 0 c] by (simp, linarith)
      moreover have "v = ?w \<or> v \<in> set (view p (js @ xs) S r)"
        using v q [OF r] moved(1,2) by (auto simp: view_def split: if_splits)
      ultimately show "blocker v \<in> set (clause_of S' (cref v))"
        using bl r \<open>in_range S' r\<close> by (auto simp: blockers_in_def)
    qed
    ultimately show ?thesis using inv' by (simp add: step_inv_def)
  next
    case (unit w c)
    let ?S1 = "swapped_state p w S"
    have xs: "prop_inv p (js @ w # is') S" "step_inv p (w # is') js S" using inv(1) assms(2) unit(1) by simp_all
    have c: "c = swapped_clause p (clause_of S (cref w))" using unit(4) by (simp add: undetermined_def)
    note st = step_inv_swapped [OF xs(2) c]
    have i1: "wf_vars ?S1" "wf_trail ?S1" "trail_levels ?S1" "reasons_ok ?S1" "level ?S1 (var p) = decisionLevel ?S1"
      using st(1) by (auto simp: step_inv_def prop_inv_def)
    have und: "in_range ?S1 (c ! 0)" "lbool_eq (lit_value ?S1 (c ! 0)) l_Undef"
      using undetermined_undef [OF xs(1) unit(4,6)] st(3,5) by simp_all
    note enq = i1(1,2) und
    have "step_inv p (Watcher (cref w) (c ! 0) # is') js S'"
      unfolding step_inv_def
    proof (intro conjI)
      show "prop_inv p (js @ Watcher (cref w) (c ! 0) # is') S'" using inv'(1) unit(2) by simp
      show "trail_levels S'" using trail_levels_enqueue [OF enq i1(3)] unit(3) by simp
      show "reasons_ok S'"
        using reasons_ok_enqueue [OF enq i1(4), of "Some (cref w)"] st(2,4) unit_clause(2) [OF xs(1) unit(4,5)] unit(3)
        by simp
      show "blockers_in S' (view p (js @ Watcher (cref w) (c ! 0) # is') S')"
        using st(1) unit(3) by (simp add: step_inv_def)
      show "watched_in S' (qhead S') (view p js S')"
        using watched_in_enqueue [OF enq, of "qhead S" "view p js S"] inv(5) wf(4) unit(3) by simp
      show "level S' (var p) = decisionLevel S'"
        using enqueue_frame(1) [OF enq, of p] wf(3) i1(5) unit(3) by simp
    qed
    from step_inv_next [OF this] show ?thesis using unit(2,3) by simp
  qed
qed

lemma watch_steps_search:
  assumes "(watch_step p)\<^sup>*\<^sup>* (xs, js, S) (is', js', S')" "step_inv p xs js S"
  shows "step_inv p is' js' S' \<and> decisions S' \<subseteq> decisions S"
  using assms
proof (induction "(is', js', S')" arbitrary: is' js' S')
  case (step y)
  obtain xs1 js1 S1 where y: "y = (xs1, js1, S1)" by (cases y)
  have "step_inv p xs1 js1 S1" "decisions S1 \<subseteq> decisions S" using step.hyps(3) [OF y step.prems] by auto
  then show ?case
    using watch_step_search [OF step.hyps(2) [unfolded y]] watch_step_decisions [OF step.hyps(2) [unfolded y]]
    by (auto simp: step_inv_def)
qed simp

lemma view_self [simp]: "view p (watch_list S p) S = watch_list S"
  by (auto simp: view_def)

lemma watch_list_set_watches:
  "wf_vars S \<Longrightarrow> in_range S p \<Longrightarrow> in_range S q \<Longrightarrow> watch_list (set_watches p ws S) q = view p ws S q"
  using watch_index [of S p] watch_index_eq [of S p q]
  by (auto simp: watch_list_def view_def set_watches_def nth_list_update wf_vars_def)

text \<open>When the list of \<open>p\<close> has been written back, only \<open>p\<close> itself may be unsettled, after a conflict.\<close>

lemma search_inv_written:
  assumes "step_inv p xs js S" "S' = set_watches p (js @ xs) S"
  shows "cdcl_inv S'" "xs = [] \<Longrightarrow> settled S'"
    "n \<le> qhead S \<Longrightarrow> p \<notin> set (take n (trail S)) \<Longrightarrow> watched_in S' n (watch_list S')"
proof -
  have inv: "prop_inv p (js @ xs) S" "trail_levels S" "reasons_ok S" "blockers_in S (view p (js @ xs) S)"
    "watched_in S (qhead S) (view p js S)" "wf_vars S" "wf_trail S"
    using assms(1) by (auto simp: step_inv_def prop_inv_def)
  have wl: "watch_list S' q = view p (js @ xs) S q" if "in_range S q" for q
    using watch_list_set_watches [OF inv(6) prop_inv_p [OF inv(1)] that] assms(2) by simp
  have tr: "in_range S q" if "q \<in> set (take n (trail S))" for q n
    using that inv(7) by (auto simp: wf_trail_def dest: in_set_takeD)
  have "blockers_in S' (watch_list S')"
    unfolding blockers_in_def
  proof (intro allI impI)
    fix q w assume "in_range S' q" "w \<in> set (watch_list S' q)"
    then show "blocker w \<in> set (clause_of S' (cref w))"
      using inv(4) wl [of q] assms(2) by (simp add: blockers_in_def)
  qed
  then show "cdcl_inv S'" using inv(2,3) assms(2) by (simp add: cdcl_inv_def)
  have "watched_in S n (watch_list S')" if "watched_in S n (view p (js @ xs) S)" for n
    using that wl tr unfolding watched_in_def by simp
  then have *: "watched_in S' n (watch_list S')" if "watched_in S n (view p (js @ xs) S)" for n
    using that assms(2) by simp
  show "settled S'" if "xs = []"
    using * [of "qhead S"] inv(5) that assms(2) by (simp add: settled_def)
  show "watched_in S' n (watch_list S')" if n: "n \<le> qhead S" "p \<notin> set (take n (trail S))"
  proof (rule *)
    have "set (take n (trail S)) \<subseteq> set (take (qhead S) (trail S))"
      using n(1) by (rule set_take_subset_set_take)
    then show "watched_in S n (view p (js @ xs) S)"
      using inv(5) n(2) by (auto simp: watched_in_def view_def subset_iff split: if_splits)
  qed
qed

definition current_conflict :: "Solver \<Rightarrow> nat \<Rightarrow> bool" where
  "current_conflict S cr \<longleftrightarrow> falsified S cr \<and> (\<exists>q \<in> set (clause_of S cr). level S (var q) = decisionLevel S)"

lemma propagate_round_search:
  assumes core: "wf_core S" and q: "qhead S < length (trail S)"
    and p: "p = trail S ! qhead S" and S1: "S1 = S\<lparr>qhead := Suc (qhead S)\<rparr>"
    and r: "propagate_watches p (watches S1 ! nat (toInt p)) [] S1 = (js, S2, c)"
    and S3: "S3 = set_watches p js S2"
    and inv: "cdcl_inv S" "settled S"
  shows "cdcl_inv S3 \<and> decisions S3 \<subseteq> decisions S \<and> (case c of None \<Rightarrow> settled S3
    | Some cr \<Rightarrow> qhead S3 = length (trail S3) \<and> current_conflict S3 cr \<and> settled_below S3)"
proof -
  note st = propagate_loop_step [OF core q p S1 r S3]
  have wf: "wf_vars S" "wf_trail S" "distinct (trail S)"
    using core by (auto simp: wf_core_def wf_trail_def distinct_map)
  have lev: "level S (var p) = decisionLevel S"
    using inv(1) q p level_at_top [of S "qhead S"] by (auto simp: cdcl_inv_def trail_levels_def)
  have take: "set (take (Suc (qhead S)) (trail S)) = insert p (set (take (qhead S) (trail S)))"
    using q by (simp add: p take_Suc_conv_app_nth)
  have np: "p \<notin> set (take (qhead S) (trail S))"
    using wf(3) q p by (simp add: in_set_conv_nth) (metis nat_neq_iff nth_eq_iff_index_eq order.strict_trans)
  have wl: "watch_list S1 = watch_list S" by (simp add: S1 watch_list_def fun_eq_iff)
  have i1: "step_inv p (watches S1 ! nat (toInt p)) [] S1"
    unfolding step_inv_def
  proof (intro conjI)
    show "prop_inv p ([] @ watches S1 ! nat (toInt p)) S1" by (rule st(5))
    show "trail_levels S1" "reasons_ok S1"
      using inv(1) levels_ok_qhead [of S "Suc (qhead S)"] by (simp_all add: S1 cdcl_inv_def)
    have "view p ([] @ watches S1 ! nat (toInt p)) S1 = watch_list S"
      using view_self [of p S1] by (simp only: append_Nil watch_list_def [symmetric] wl)
    then show "blockers_in S1 (view p ([] @ watches S1 ! nat (toInt p)) S1)"
      using inv(1) by (simp add: S1 cdcl_inv_def blockers_in_def)
    show "watched_in S1 (qhead S1) (view p [] S1)"
      using inv(2) wl unfolding settled_def watched_in_def S1 view_def by (auto simp: take)
    show "level S1 (var p) = decisionLevel S1" using lev by (simp add: S1)
  qed
  show ?thesis
  proof (cases c)
    case None
    then have "(watch_step p)\<^sup>*\<^sup>* (watches S1 ! nat (toInt p), [], S1) ([], js, S2)"
      using propagate_watches_steps [of p "watches S1 ! nat (toInt p)" "[]" S1] r by simp
    from watch_steps_search [OF this i1] show ?thesis
      using search_inv_written(1,2) [of p "[]" js S2 S3] S3 None by (simp add: S1)
  next
    case (Some cr)
    then obtain w is1 js1 T where s:
      "(watch_step p)\<^sup>*\<^sup>* (watches S1 ! nat (toInt p), [], S1) (w # is1, js1, T)" "watch_conflict p w T"
      "cr = cref w" "js = js1 @ Watcher cr (swapped_clause p (clause_of T cr) ! 0) # is1"
      "S2 = (swapped_state p w T)\<lparr>qhead := length (trail T)\<rparr>"
      using propagate_watches_steps [of p "watches S1 ! nat (toInt p)" "[]" S1] r by auto
    have iT: "step_inv p (w # is1) js1 T" "decisions T \<subseteq> decisions S"
      using watch_steps_search [OF s(1) i1] by (simp_all add: S1)
    have relT: "prop_rel S1 T" "qhead T = Suc (qhead S)"
      using watch_steps_inv [OF s(1) st(5)] by (simp_all add: S1)
    define T2 where "T2 = swapped_state p w T"
    note i2 = step_inv_swapped(1) [OF iT(1) refl, folded T2_def]
    let ?S = "set_watches p js T2"
    have S3': "S3 = ?S\<lparr>qhead := length (trail T)\<rparr>" by (simp add: S3 s(5) T2_def set_watches_def)
    have tr: "trail S3 = trail T" "trail_lim S3 = trail_lim S" "qhead T2 = Suc (qhead S)" "trail T2 = trail T"
      "level S3 = level T" "length (trail T) \<ge> qhead T2" "trail_lim T = trail_lim S"
      using relT iT by (auto simp: S3' T2_def prop_rel_def S1 step_inv_def prop_inv_def wf_trail_def)
    have w: "cdcl_inv ?S" "\<And>n. n \<le> qhead S \<Longrightarrow> p \<notin> set (take n (trail T)) \<Longrightarrow> watched_in ?S n (watch_list ?S)"
      using search_inv_written [OF i2, of ?S] s(3,4) tr(3,4) by simp_all
    have "cdcl_inv S3"
      using w(1) tr(3,6) levels_ok_qhead [of ?S "length (trail T)"]
      by (simp add: S3' cdcl_inv_def blockers_in_def watch_list_def)
    moreover have "settled_below S3"
      unfolding settled_below_def tr(2)
    proof
      fix n assume "n \<in> set (trail_lim S)"
      then have n: "n \<le> qhead S" using inv(1) by (simp add: cdcl_inv_def trail_levels_def)
      then have "take n (trail T) = take n (trail S)" using relT q by (auto simp: prop_rel_def S1)
      then have "p \<notin> set (take n (trail T))" using np set_take_subset_set_take [OF n, of "trail S"] by auto
      from w(2) [OF n this] show "watched_in S3 n (watch_list S3)" by (simp add: S3' watch_list_def)
    qed
    moreover have "current_conflict S3 cr"
    proof -
      have "neg p \<in> set (clause_of S3 cr)" "level S3 (var (neg p)) = decisionLevel S3"
        using watch_conflict_inv [OF _ s(2,5), of js1 is1] iT s(3) tr S3 by (auto simp: step_inv_def)
      then show ?thesis using st(4) Some unfolding current_conflict_def by blast
    qed
    moreover have "qhead S3 = length (trail S3)" unfolding tr(1) by (simp add: S3')
    moreover have "decisions S3 \<subseteq> decisions S" using iT(2) by (simp add: S3' T2_def)
    ultimately show ?thesis using Some by simp
  qed
qed

lemma propagate_loop_search:
  assumes "wf_core S" "cdcl_inv S" "settled S"
  shows "\<exists>confl S'. propagate_loop None S = Some (confl, S') \<and> wf_core S' \<and> prop_rel S S' \<and> cdcl_inv S' \<and>
    decisions S' \<subseteq> decisions S \<and> qhead S' = length (trail S') \<and>
    (case confl of None \<Rightarrow> settled S' | Some cr \<Rightarrow> current_conflict S' cr \<and> settled_below S')"
  using assms
proof (induction "nVars S - qhead S" arbitrary: S rule: less_induct)
  case less
  show ?case
  proof (cases "qhead S < length (trail S)")
    case False
    then show ?thesis
      using less.prems by (subst propagate_loop.simps) (simp add: wf_core_def wf_trail_def)
  next
    case True
    define p where "p = trail S ! qhead S"
    define S1 where "S1 = S\<lparr>qhead := Suc (qhead S)\<rparr>"
    obtain js S2 c where r: "propagate_watches p (watches S1 ! nat (toInt p)) [] S1 = (js, S2, c)"
      by (metis prod_cases3)
    define S3 where "S3 = set_watches p js S2"
    note step = propagate_loop_step [OF less.prems(1) True p_def S1_def r S3_def]
    note inv = propagate_round_search [OF less.prems(1) True p_def S1_def r S3_def less.prems(2,3)]
    have eq: "propagate_loop None S = propagate_loop c S3"
      using True by (subst propagate_loop.simps)
        (cases c; simp add: Let_def p_def [symmetric] S1_def [symmetric] r S3_def)
    show ?thesis
    proof (cases c)
      case None
      from less.hyps [OF step(3,1)] inv None obtain c' S' where
        "propagate_loop None S3 = Some (c', S')" "wf_core S'" "prop_rel S3 S'" "cdcl_inv S'"
        "decisions S' \<subseteq> decisions S3" "qhead S' = length (trail S')"
        "case c' of None \<Rightarrow> settled S' | Some cr \<Rightarrow> current_conflict S' cr \<and> settled_below S'"
        by auto
      then show ?thesis using eq None prop_rel_trans [OF step(2)] inv by auto
    next
      case (Some cr)
      have "propagate_loop c S3 = Some (c, S3)"
        using inv Some by (subst propagate_loop.simps) simp
      then show ?thesis using eq step(1,2) inv Some by simp
    qed
  qed
qed

text \<open>A solver whose queue is empty and settled misses no unit clause and no conflict: a clause without a
  true literal has two watched literals that are not false.\<close>

definition propagated :: "Solver \<Rightarrow> bool" where
  "propagated S \<longleftrightarrow> (\<forall>cr \<in> set (db S). (\<exists>l \<in> set (clause_of S cr). l \<in> set (trail S)) \<or>
     neg (clause_of S cr ! 0) \<notin> set (trail S) \<and> neg (clause_of S cr ! 1) \<notin> set (trail S))"

lemma settled_propagated:
  assumes core: "wf_core S" and inv: "cdcl_inv S" "settled S" and q: "qhead S = length (trail S)"
  shows "propagated S"
  unfolding propagated_def
proof
  fix cr assume cr: "cr \<in> set (db S)"
  have wf: "wf_trail S" "wf_watches S" using core by (auto simp: wf_core_def)
  have "\<exists>l \<in> set (clause_of S cr). l \<in> set (trail S)"
    if k: "k < 2" and n: "neg (clause_of S cr ! k) \<in> set (trail S)" for k
  proof -
    let ?p = "neg (clause_of S cr ! k)"
    have "in_range S ?p" using wf(1) n unfolding wf_trail_def by blast
    then have "watch_ok S ?p (watch_list S ?p)" using wf(2) by (simp add: wf_watches_def watch_list_def)
    moreover have "k = 0 \<or> k = 1" using k by auto
    then have "neg ?p = clause_of S cr ! 0 \<or> neg ?p = clause_of S cr ! 1" by auto
    ultimately have "cr \<in> cref ` set (watch_list S ?p)" using cr by (auto simp: watch_ok_def)
    then obtain w where w: "w \<in> set (watch_list S ?p)" "cref w = cr" by auto
    then have "blocker w \<in> set (clause_of S cr)"
      using inv(1) \<open>in_range S ?p\<close> unfolding cdcl_inv_def blockers_in_def by blast
    moreover have "blocker w \<in> set (trail S)"
      using inv(2) n q w(1) by (auto simp: settled_def watched_in_def)
    ultimately show ?thesis by blast
  qed
  from this [of 0] this [of 1]
  show "(\<exists>l \<in> set (clause_of S cr). l \<in> set (trail S)) \<or>
     neg (clause_of S cr ! 0) \<notin> set (trail S) \<and> neg (clause_of S cr ! 1) \<notin> set (trail S)"
    by auto
qed

subsection \<open>Decisions\<close>

lemma newDecisionLevel_simps [simp]:
  "trail (newDecisionLevel S) = trail S" "qhead (newDecisionLevel S) = qhead S" "db (newDecisionLevel S) = db S"
  "ca (newDecisionLevel S) = ca S" "nVars (newDecisionLevel S) = nVars S" "ok (newDecisionLevel S) = ok S"
  "trail_lim (newDecisionLevel S) = trail_lim S @ [length (trail S)]" "level (newDecisionLevel S) = level S"
  "reason (newDecisionLevel S) = reason S" "watch_list (newDecisionLevel S) = watch_list S"
  "in_range (newDecisionLevel S) = in_range S" "lit_value (newDecisionLevel S) = lit_value S"
  "const_true (newDecisionLevel S) = const_true S" "free_vars (newDecisionLevel S) = free_vars S"
  "models (newDecisionLevel S) = models S"
  by (simp_all add: newDecisionLevel_def level_def reason_def watch_list_def in_range_def lit_value_def fun_eq_iff
      models_def fixed_lits_def)

lemma newDecisionLevel_search:
  assumes inv: "cdcl_inv S" and q: "qhead S = length (trail S)"
  shows "cdcl_inv (newDecisionLevel S)" "settled S \<Longrightarrow> settled (newDecisionLevel S)"
proof -
  let ?T = "newDecisionLevel S"
  have at: "level_at ?T i = level_at S i" if "i < length (trail S)" for i
    using that by (simp add: level_at_def)
  have "trail_levels ?T" using inv q at by (auto simp: cdcl_inv_def trail_levels_def sorted_append)
  moreover have "reasons_ok ?T"
    using inv by (auto simp: cdcl_inv_def reasons_ok_def explains_def split: option.splits)
  moreover have "blockers_in ?T (watch_list ?T)" using inv by (simp add: cdcl_inv_def blockers_in_def)
  ultimately show "cdcl_inv ?T" by (simp add: cdcl_inv_def)
  show "settled S \<Longrightarrow> settled ?T" by (simp add: settled_def watched_in_def)
qed

text \<open>An unassigned literal is enqueued behind a flushed queue.\<close>

lemma enqueue_search:
  assumes wf: "wf_core S" and l: "in_range S l" "lbool_eq (lit_value S l) l_Undef"
    and inv: "cdcl_inv S" "settled S"
    and new: "case r of None \<Rightarrow> trail_lim S = [] \<or> length (trail S) \<in> set (trail_lim S)
      | Some cr \<Rightarrow> cr \<in> set (db S) \<and> clause_of S cr ! 0 = l \<and>
          (\<forall>q \<in> set (tl (clause_of S cr)). neg q \<in> set (trail S))"
  shows "cdcl_inv (uncheckedEnqueue l r S)" "settled (uncheckedEnqueue l r S)"
proof -
  have core: "wf_vars S" "wf_trail S" "qhead S \<le> length (trail S)"
    using wf by (auto simp: wf_core_def wf_trail_def)
  show "cdcl_inv (uncheckedEnqueue l r S)"
    using inv(1) trail_levels_enqueue [OF core(1,2) l] reasons_ok_enqueue [OF core(1,2) l _ new]
    by (simp add: cdcl_inv_def)
  show "settled (uncheckedEnqueue l r S)"
    using watched_in_enqueue [OF core(1,2) l _ core(3)] inv(2) by (simp add: settled_def)
qed

subsection \<open>Backtracking\<close>

text \<open>With the levels in order, \<open>cancelUntil\<close> cuts the trail and re-enqueues nothing.\<close>

lemma cancelUntil_cut:
  assumes "trail_levels S" "wf_trail S" "lev < decisionLevel S"
  shows "trail (cancelUntil lev S) = take (trail_lim S ! lev) (trail S)"
    "qhead (cancelUntil lev S) = trail_lim S ! lev" "trail_lim (cancelUntil lev S) = take lev (trail_lim S)"
    "assigns (cancelUntil lev S) =
       foldl (\<lambda>a l. a[nat (var l) := l_Undef]) (assigns S) (drop (trail_lim S ! lev) (trail S))"
proof -
  let ?n = "trail_lim S ! lev"
  have "\<not> level S (var l) \<le> lev" if "l \<in> set (drop ?n (trail S))" for l
  proof -
    from that obtain i where "i < length (trail S) - ?n" "l = trail S ! (?n + i)"
      by (auto simp: in_set_conv_nth)
    then show ?thesis using level_le_iff [OF assms(1) _ assms(3), of "?n + i"] by simp
  qed
  then have "filter (\<lambda>l. level S (var l) \<le> lev) (drop ?n (trail S)) = []"
    "filter (\<lambda>l. \<not> level S (var l) \<le> lev) (drop ?n (trail S)) = drop ?n (trail S)"
    by (auto simp: filter_empty_conv filter_id_conv)
  then show "trail (cancelUntil lev S) = take ?n (trail S)" "qhead (cancelUntil lev S) = ?n"
    "trail_lim (cancelUntil lev S) = take lev (trail_lim S)"
    "assigns (cancelUntil lev S) = foldl (\<lambda>a l. a[nat (var l) := l_Undef]) (assigns S) (drop ?n (trail S))"
    using assms(3) by (simp_all add: cancelUntil_def Let_def)
qed

lemma cancelUntil_same [simp]: "decisionLevel S \<le> lev \<Longrightarrow> cancelUntil lev S = S"
  by (simp add: cancelUntil_def)

lemma nVars_cancelUntil [simp]: "nVars (cancelUntil lev S) = nVars S" "db (cancelUntil lev S) = db S"
  "reason (cancelUntil lev S) = reason S" "watch_list (cancelUntil lev S) = watch_list S"
  "level (cancelUntil lev S) = level S" "in_range (cancelUntil lev S) = in_range S"
  "watch_ok (cancelUntil lev S) = watch_ok S" "wf_clauses (cancelUntil lev S) = wf_clauses S"
  "blockers_in (cancelUntil lev S) = blockers_in S"
  by (simp_all add: cancelUntil_def Let_def reason_def watch_list_def level_def in_range_def watch_ok_def
      wf_clauses_def blockers_in_def fun_eq_iff)

lemma take_le_level:
  assumes "trail_levels S" "l \<in> set (trail S)" "lev < decisionLevel S" "level S (var l) \<le> lev"
  shows "l \<in> set (take (trail_lim S ! lev) (trail S))"
proof -
  from assms(2) obtain i where i: "i < length (trail S)" "l = trail S ! i" by (auto simp: in_set_conv_nth)
  then have "i < trail_lim S ! lev" using level_le_iff [OF assms(1) i(1) assms(3)] assms(4) by simp
  then show ?thesis using i by (auto simp: in_set_conv_nth intro!: exI [of _ i])
qed

lemma wf_trail_backtrack:
  assumes lv: "trail_levels S" and wf: "wf_vars S" "wf_trail S"
  shows "wf_vars (cancelUntil lev S) \<and> wf_trail (cancelUntil lev S)"
proof (cases "lev < decisionLevel S")
  case True
  let ?n = "trail_lim S ! lev" and ?T = "cancelUntil lev S"
  note cut = cancelUntil_cut [OF lv wf(2) True]
  have n: "?n \<le> length (trail S)" using wf(2) True by (simp add: wf_trail_def)
  have d: "distinct (map var (take ?n (trail S) @ drop ?n (trail S)))"
    using wf(2) by (simp only: append_take_drop_id wf_trail_def)
  then have dj: "var ` set (take ?n (trail S)) \<inter> var ` set (drop ?n (trail S)) = {}"
    unfolding map_append distinct_append by simp
  have dr: "\<forall>l \<in> set (drop ?n (trail S)). 0 \<le> var l"
    using wf(2) by (auto simp: wf_trail_def in_range_def dest: in_set_dropD)
  have val: "tri (lit_value ?T l) = Some True \<longleftrightarrow> l \<in> set (take ?n (trail S))" if l: "in_range S l" for l
  proof -
    have "lit_value ?T l = (if var l \<in> var ` set (drop ?n (trail S)) then lbool_xor l_Undef (sign l) else lit_value S l)"
      using l var_index [OF l] dr by (auto simp: lit_value_def cut(4) nth_fold_undef in_range_def)
    moreover have "l \<in> set (take ?n (trail S)) \<longleftrightarrow> var l \<notin> var ` set (drop ?n (trail S)) \<and> l \<in> set (trail S)"
      using dj append_take_drop_id [of ?n "trail S"] set_append [of "take ?n (trail S)" "drop ?n (trail S)"] by auto
    moreover have "tri (lit_value S l) = Some True \<longleftrightarrow> l \<in> set (trail S)" using wf(2) l by (simp add: wf_trail_def)
    ultimately show ?thesis by auto
  qed
  have "m \<le> ?n" if "m \<in> set (take lev (trail_lim S))" for m
  proof -
    from that obtain i where "i < lev" "m = trail_lim S ! i" using True by (auto simp: in_set_conv_nth)
    then show ?thesis using lv True by (auto simp: trail_levels_def sorted_iff_nth_mono)
  qed
  moreover have "\<forall>l \<in> set (take (case take lev (trail_lim S) of [] \<Rightarrow> ?n | m # _ \<Rightarrow> m) (trail S)). level S (var l) = 0"
    using wf(2) True by (cases "trail_lim S"; cases lev) (simp_all add: wf_trail_def)
  moreover have "distinct (map var (take ?n (trail S)))"
    using d unfolding map_append distinct_append by simp
  moreover have "\<forall>l \<in> set (take ?n (trail S)). in_range S l"
    using wf(2) by (auto simp: wf_trail_def dest: in_set_takeD)
  moreover have "wf_vars ?T" using wf(1) wf_fold_undef [of "assigns S"] by (simp add: wf_vars_def cut(4))
  ultimately show ?thesis
    using n val by (simp add: wf_trail_def cut(1-3) min_absorb2 split: list.splits)
qed (use wf in simp)

lemma fixed_backtrack:
  assumes "trail_levels S" "wf_trail S" shows "fixed_lits (cancelUntil lev S) = fixed_lits S"
proof (cases "lev < decisionLevel S")
  case True
  then show ?thesis
    using take_le_level [OF assms(1) _ True] cancelUntil_cut(1) [OF assms True]
    by (auto simp: fixed_lits_def dest: in_set_takeD)
qed simp

lemma backtrack_wf:
  assumes wf: "wf_base S" and lv: "trail_levels S"
  shows "wf_base (cancelUntil lev S)" "models (cancelUntil lev S) = models S"
proof -
  have core: "wf_vars S" "wf_trail S" "wf_clauses S" "wf_watches S" "wf_free S"
    using wf by (auto simp: wf_base_def wf_core_def)
  have "set (trail (cancelUntil lev S)) \<subseteq> set (trail S)"
    using cancelUntil_cut(1) [OF lv core(2)] by (cases "lev < decisionLevel S") (auto dest: in_set_takeD)
  then have "wf_free (cancelUntil lev S)"
    using core(5) by (auto simp: wf_free_def)
  then show "wf_base (cancelUntil lev S)"
    using core wf_trail_backtrack [OF lv core(1,2)] by (simp add: wf_base_def wf_core_def wf_watches_def)
  show "models (cancelUntil lev S) = models S"
    using fixed_backtrack [OF lv core(2)] by (simp add: models_def)
qed

lemma backtrack_search:
  assumes wf: "wf_trail S" and inv: "cdcl_inv S" and lev: "lev < decisionLevel S"
  shows "cdcl_inv (cancelUntil lev S)" "settled_below S \<Longrightarrow> settled (cancelUntil lev S)"
proof -
  let ?T = "cancelUntil lev S" and ?n = "trail_lim S ! lev"
  have ok: "trail_levels S" "reasons_ok S" "blockers_in S (watch_list S)" using inv by (auto simp: cdcl_inv_def)
  note cut = cancelUntil_cut [OF ok(1) wf lev]
  have n: "?n \<le> length (trail S)" "?n \<in> set (trail_lim S)" using wf lev by (auto simp: wf_trail_def)
  have srt: "sorted (trail_lim S)" using ok(1) by (simp add: trail_levels_def)
  have le: "m \<le> ?n" if "m \<in> set (take lev (trail_lim S))" for m
  proof -
    from that obtain i where "i < lev" "m = trail_lim S ! i" using lev by (auto simp: in_set_conv_nth)
    then show ?thesis using srt lev by (auto simp: sorted_iff_nth_mono)
  qed
  have ge: "?n \<le> m" if "m \<in> set (drop lev (trail_lim S))" for m
  proof -
    from that obtain i where "i < decisionLevel S - lev" "m = trail_lim S ! (lev + i)" by (auto simp: in_set_conv_nth)
    then show ?thesis using srt lev by (auto simp: sorted_iff_nth_mono)
  qed
  have at: "level_at ?T i = level_at S i" if i: "i < ?n" for i
  proof -
    have "filter (\<lambda>m. m \<le> i) (drop lev (trail_lim S)) = []" using ge i by (force simp: filter_empty_conv)
    then show ?thesis
      using filter_append [of "\<lambda>m. m \<le> i" "take lev (trail_lim S)" "drop lev (trail_lim S)"]
      by (simp add: level_at_def cut(3))
  qed
  have lv: "level S (var (trail S ! i)) \<le> lev \<and> level_at S i \<le> lev" if "i < ?n" for i
    using that n(1) level_le_iff [OF ok(1) _ lev, of i] level_nth [OF ok(1), of i] by simp
  have "trail_levels ?T"
    unfolding trail_levels_def cut nVars_cancelUntil
    using srt le at n(1) level_nth [OF ok(1)] by (simp add: sorted_wrt_take)
  moreover have "reasons_ok ?T"
    unfolding reasons_ok_def
  proof (intro allI impI)
    fix i assume "i < length (trail ?T)"
    then have i: "i < ?n" "i < length (trail S)" by (simp_all add: cut)
    have "i \<in> set (take lev (trail_lim S))" if "i \<in> set (trail_lim S)"
      using that ge [of i] i(1) set_append [of "take lev (trail_lim S)" "drop lev (trail_lim S)"] by auto
    then show "case reason ?T (var (trail ?T ! i)) of
         None \<Rightarrow> level ?T (var (trail ?T ! i)) = 0 \<or> i \<in> set (trail_lim ?T)
       | Some cr \<Rightarrow> explains ?T cr i"
      using ok(2) i by (auto simp: reasons_ok_def explains_def cut min_absorb1 split: option.splits)
  qed
  ultimately show "cdcl_inv ?T" using ok(3) by (simp add: cdcl_inv_def)
  show "settled ?T" if "settled_below S"
    unfolding settled_def watched_in_def cut nVars_cancelUntil
  proof (intro ballI)
    fix p w assume p: "p \<in> set (take ?n (take ?n (trail S)))" and w: "w \<in> set (watch_list S p)"
    have "blocker w \<in> set (trail S)" "level S (var (blocker w)) \<le> level S (var p)"
      using that n(2) p w by (auto simp: settled_below_def watched_in_def)
    moreover have "level S (var p) \<le> lev" using p lv by (auto simp: in_set_conv_nth)
    ultimately show "blocker w \<in> set (take ?n (trail S)) \<and> level S (var (blocker w)) \<le> level S (var p)"
      using take_le_level [OF ok(1) _ lev] by simp
  qed
qed

lemma settled_settled_below: "trail_levels S \<Longrightarrow> settled S \<Longrightarrow> settled_below S"
  unfolding settled_def settled_below_def watched_in_def trail_levels_def
  by (meson set_take_subset_set_take subsetD)

subsection \<open>A clause is attached\<close>

lemma attachClause_simps [simp]:
  "trail (attachClause cr S) = trail S" "trail_lim (attachClause cr S) = trail_lim S"
  "qhead (attachClause cr S) = qhead S" "vardata (attachClause cr S) = vardata S" "db (attachClause cr S) = db S"
  "ca (attachClause cr S) = ca S" "ok (attachClause cr S) = ok S" "level (attachClause cr S) = level S"
  "reason (attachClause cr S) = reason S" "nVars (attachClause cr S) = nVars S"
  "lit_value (attachClause cr S) = lit_value S" "in_range (attachClause cr S) = in_range S"
  "const_true (attachClause cr S) = const_true S" "free_vars (attachClause cr S) = free_vars S"
  by (simp_all add: attachClause_def Let_def fun_eq_iff)

lemma watch_list_attach:
  assumes "wf_vars S" "clause_of S cr = qs" "in_range S (qs ! 0)" "in_range S (qs ! 1)" "in_range S p" "qs ! 0 \<noteq> qs ! 1"
  shows "watch_list (attachClause cr S) p = watch_list S p @
    (if neg p = qs ! 0 then [Watcher cr (qs ! 1)] else if neg p = qs ! 1 then [Watcher cr (qs ! 0)] else [])"
  using assms unfolding neg_swap [of p]
  by (simp add: attachClause_def watch_list_def watches_push_watch)

lemma attach_search:
  assumes wf: "wf_base S" and qs: "2 \<le> length qs" "distinct qs" "list_all (live S) qs" and inv: "cdcl_inv S"
    and T: "ca T = ca S @ [C]" "lits C = qs" "set (db T) = insert (length (ca S)) (set (db S))"
    "trail T = trail S" "trail_lim T = trail_lim S" "qhead T = qhead S" "vardata T = vardata S"
    "watches T = watches S" "nVars T = nVars S" "wf_vars T"
    and A: "A = attachClause (length (ca S)) T"
  shows "cdcl_inv A" "clause_of A (length (ca S)) = qs" "set (db A) = insert (length (ca S)) (set (db S))"
    "\<And>p. in_range S p \<Longrightarrow> watch_list A p = watch_list S p @
      (if neg p = qs ! 0 then [Watcher (length (ca S)) (qs ! 1)]
       else if neg p = qs ! 1 then [Watcher (length (ca S)) (qs ! 0)] else [])"
proof -
  let ?cr = "length (ca S)"
  have cin: "c < length (ca S)" if "c \<in> set (db S)" for c
    using wf that by (auto simp: wf_base_def wf_core_def wf_clauses_def)
  show cr: "clause_of A ?cr = qs" using T(1,2) by (simp add: A)
  show "set (db A) = insert ?cr (set (db S))" using T(3) by (simp add: A)
  have old: "clause_of A c = clause_of S c" if "c \<in> set (db S)" for c
    using cin [OF that] T(1) by (simp add: A nth_append)
  have "0 < length qs" "1 < length qs" using qs(1) by linarith+
  then have q01: "qs ! 0 \<in> set qs" "qs ! 1 \<in> set qs" "qs ! 0 \<noteq> qs ! 1"
    using qs(2) nth_eq_iff_index_eq [of qs 0 1] by (auto simp del: length_greater_0_conv)
  have eqs: "level A = level S" "reason A = reason S" "in_range A = in_range S" "in_range T = in_range S"
    "trail A = trail S" "trail_lim A = trail_lim S" "qhead A = qhead S"
    using T by (auto simp: A level_def reason_def in_range_def fun_eq_iff)
  have rng: "in_range S (qs ! 0)" "in_range S (qs ! 1)" using q01 qs(3) by (auto simp: list_all_iff live_def)
  show wl: "watch_list A p = watch_list S p @ (if neg p = qs ! 0 then [Watcher ?cr (qs ! 1)]
       else if neg p = qs ! 1 then [Watcher ?cr (qs ! 0)] else [])" if "in_range S p" for p
    using watch_list_attach [of T ?cr qs p] T(1,2,8,10) rng that q01(3) eqs(4) by (simp add: A watch_list_def)
  have ok: "trail_levels S" "reasons_ok S" "blockers_in S (watch_list S)" using inv by (auto simp: cdcl_inv_def)
  have "trail_levels A" using ok(1) by (simp add: trail_levels_def level_at_def eqs)
  moreover have "explains A c i" if "explains S c i" for c i
    using that old [of c] T(3,4) by (auto simp: explains_def A)
  then have "reasons_ok A" using ok(2) by (auto simp: reasons_ok_def eqs split: option.splits)
  moreover have "blockers_in A (watch_list A)"
    unfolding blockers_in_def eqs
  proof (intro allI impI)
    fix p w assume p: "in_range S p" and w: "w \<in> set (watch_list A p)"
    have "cref v \<in> set (db S)" if "v \<in> set (watch_list S p)" for v
      using wf p that by (auto simp: wf_base_def wf_core_def wf_watches_def watch_ok_def watch_list_def)
    then show "blocker w \<in> set (clause_of A (cref w))"
      using w wl [OF p] ok(3) p cr old q01 by (auto simp: blockers_in_def split: if_splits)
  qed
  ultimately show "cdcl_inv A" by (simp add: cdcl_inv_def)
qed

lemma attach_settled:
  assumes "wf_trail S" "settled S"
    and wl: "\<And>p. in_range S p \<Longrightarrow> watch_list A p = watch_list S p @ (if neg p = a then [w] else if neg p = b then [v] else [])"
    and A: "trail A = trail S" "qhead A = qhead S" "level A = level S"
    and new: "neg a \<notin> set (trail S)" "neg b \<notin> set (trail S)"
  shows "settled A"
  unfolding settled_def watched_in_def A
proof (intro ballI)
  fix p u assume p: "p \<in> set (take (qhead S) (trail S))" and u: "u \<in> set (watch_list A p)"
  then have "p \<in> set (trail S)" by (auto dest: in_set_takeD)
  then have "in_range S p" "neg p \<noteq> a" "neg p \<noteq> b" using assms(1) new by (auto simp: wf_trail_def)
  then show "blocker u \<in> set (trail S) \<and> level S (var (blocker u)) \<le> level S (var p)"
    using assms(2) wl p u by (auto simp: settled_def watched_in_def)
qed

subsection \<open>The invariant of the whole solver\<close>

text \<open>After \<open>ok\<close> has become false the queue may hold literals whose clauses were not examined.\<close>

definition solver_inv :: "Solver \<Rightarrow> bool" where
  "solver_inv S \<longleftrightarrow> wf_solver S \<and> cdcl_inv S \<and> (ok S \<longrightarrow> settled S)"

lemma solver_invD:
  assumes "solver_inv S"
  shows "wf_solver S" "wf_base S" "wf_core S" "wf_const S" "wf_vars S" "wf_trail S" "wf_clauses S" "cdcl_inv S"
    "trail_levels S" "reasons_ok S" "ok S \<Longrightarrow> settled S"
  using assms by (auto simp: solver_inv_def wf_solver_base wf_base_def wf_core_def cdcl_inv_def)

lemma search_inv_ok [simp]: "cdcl_inv (S\<lparr>ok := b\<rparr>) = cdcl_inv S" "settled (S\<lparr>ok := b\<rparr>) = settled S"
proof -
  have *: "level (S\<lparr>ok := b\<rparr>) = level S" "reason (S\<lparr>ok := b\<rparr>) = reason S" "watch_list (S\<lparr>ok := b\<rparr>) = watch_list S"
    "in_range (S\<lparr>ok := b\<rparr>) = in_range S"
    by (simp_all add: level_def reason_def watch_list_def in_range_def fun_eq_iff)
  show "cdcl_inv (S\<lparr>ok := b\<rparr>) = cdcl_inv S" "settled (S\<lparr>ok := b\<rparr>) = settled S"
    by (simp_all add: cdcl_inv_def trail_levels_def level_at_def reasons_ok_def explains_def blockers_in_def
        settled_def watched_in_def * cong: option.case_cong)
qed

lemma solver_inv_backtrack:
  assumes "solver_inv S" shows "solver_inv (cancelUntil lev S)"
proof (cases "lev < decisionLevel S")
  case True
  note S = solver_invD [OF assms]
  have "wf_const (cancelUntil lev S)" using S(4) fixed_backtrack [OF S(9,6)] by (simp add: wf_const_def)
  then show ?thesis
    using S backtrack_wf [OF S(2,9)] backtrack_search [OF S(6,8) True] settled_settled_below [OF S(9)]
    by (simp add: solver_inv_def wf_solver_base)
qed (use assms in simp)

lemma solver_inv_init [simp]: "solver_inv init_solver"
proof -
  have "\<not> in_range init_solver p" for p by (simp add: init_solver_def in_range_def)
  then show ?thesis
    by (simp add: solver_inv_def cdcl_inv_def blockers_in_def)
      (simp add: init_solver_def trail_levels_def reasons_ok_def settled_def watched_in_def)
qed

lemma newVar_watch_list:
  assumes "newVar d S = (v, S')" "wf_base S" "in_range S' p"
  shows "watch_list S' p = (if var p = v then [] else watch_list S p)" "var p \<noteq> v \<Longrightarrow> in_range S p"
proof -
  have len: "length (watches S) = 2 * nVars S" using assms(2) by (simp add: wf_base_def wf_core_def wf_vars_def)
  have p: "0 \<le> var p" using assms(3) by (simp add: in_range_def)
  then obtain k where k: "var p = int k" by (rule nonneg_int_cases)
  have two: "nat (2 * int n) = 2 * n" "nat (2 * int n + 1) = Suc (2 * n)" for n by simp_all
  have idx: "nat (toInt p) = (if sign p then Suc (2 * k) else 2 * k)" using toInt_index [OF p] two by (simp add: k)
  show "watch_list S' p = (if var p = v then [] else watch_list S p)"
  proof (cases rule: newVar_cases [OF assms(1,2)])
    case 1
    then have "v \<in> set (free_vars S)" by simp
    then have v: "0 \<le> v" "v < int (nVars S)" using assms(2) by (auto simp: wf_base_def wf_free_def)
    then obtain m where m: "v = int m" by (elim nonneg_int_cases)
    have "watches S' = (watches S)[2 * m := [], Suc (2 * m) := []]" using 1(3) two by (simp add: m)
    moreover have "Suc (2 * a) \<noteq> 2 * b" "2 * a \<noteq> Suc (2 * b)" for a b :: nat by presburger+
    ultimately show ?thesis
      using v(2) len unfolding watch_list_def idx k m
      by (simp del: list_update.simps)
  next
    case 2
    then have "var p < int (nVars S) \<or> var p = v" using assms(3) by (auto simp: in_range_def)
    moreover have "watches S' = watches S @ [[], []]" using 2(3) by simp
    ultimately show ?thesis
      using 2(2) len unfolding watch_list_def idx k by (auto simp: nth_append nth_Cons')
  qed
  show "in_range S p" if "var p \<noteq> v"
    using that assms(3) by (cases rule: newVar_cases [OF assms(1,2)]) (auto simp: in_range_def)
qed

lemma solver_inv_newVar:
  assumes "solver_inv S" "newVar d S = (v, S')"
  shows "solver_inv S'"
proof -
  note S = solver_invD [OF assms(1)]
  note n = newVar_wf [OF S(1) assms(2)]
  have nt: "v \<notin> var ` set (trail S)" using n live_trail [OF S(2)] by auto
  have eq: "trail S' = trail S" "trail_lim S' = trail_lim S" "qhead S' = qhead S" "db S' = db S" "ca S' = ca S" "ok S' = ok S"
    by (cases rule: newVar_cases [OF assms(2) S(2)]; simp)+
  have vd: "level S' (var l) = level S (var l)" "reason S' (var l) = reason S (var l)" if "l \<in> set (trail S)" for l
  proof -
    have "in_range S l" "var l \<noteq> v" "length (vardata S) = nVars S" "0 \<le> v"
      using that S(5,6) nt n by (auto simp: wf_trail_def wf_vars_def)
    then show "level S' (var l) = level S (var l)" "reason S' (var l) = reason S (var l)"
      by (cases rule: newVar_cases [OF assms(2) S(2)];
          auto simp: level_def reason_def in_range_def nth_list_update nth_append)+
  qed
  have "trail_levels S'" using S(9) vd(1) by (simp add: trail_levels_def level_at_def eq)
  moreover have "reasons_ok S'"
    using S(10) vd by (simp add: reasons_ok_def explains_def eq cong: option.case_cong)
  moreover have "blockers_in S' (watch_list S')"
    using S(8) newVar_watch_list [OF assms(2) S(2)] by (auto simp: cdcl_inv_def blockers_in_def eq split: if_splits)
  moreover have "settled S'" if "settled S"
    unfolding settled_def watched_in_def eq
  proof (intro ballI)
    fix p w assume p: "p \<in> set (take (qhead S) (trail S))" and w: "w \<in> set (watch_list S' p)"
    then have t: "p \<in> set (trail S)" by (auto dest: in_set_takeD)
    then have "in_range S' p" "var p \<noteq> v" using nt n eq(1) by (auto simp: wf_solver_def wf_trail_def)
    then have "w \<in> set (watch_list S p)" using w newVar_watch_list(1) [OF assms(2) S(2)] by simp
    then have "blocker w \<in> set (trail S)" "level S (var (blocker w)) \<le> level S (var p)"
      using that p by (auto simp: settled_def watched_in_def)
    then show "blocker w \<in> set (trail S) \<and> level S' (var (blocker w)) \<le> level S' (var p)"
      using vd(1) t by simp
  qed
  ultimately show ?thesis using n S(11) eq(6) by (simp add: solver_inv_def cdcl_inv_def)
qed

lemma addClause_impl_search:
  assumes wf: "wf_base S" "trail_lim S = []" and ps: "list_all (live S) ps"
    and inv: "cdcl_inv S" "ok S \<longrightarrow> settled S" and r: "addClause_impl ps S = Some (b, S')"
  shows "cdcl_inv S' \<and> (ok S' \<longrightarrow> settled S')"
proof (cases "ok S")
  case True
  have core: "wf_core S" "wf_vars S" "wf_trail S" "distinct (db S)" "length (ca S) \<notin> set (db S)"
    using wf by (auto simp: wf_base_def wf_core_def wf_clauses_def)
  have rng: "list_all (in_range S) ps" using ps by (auto simp: list_all_iff live_def)
  have st: "settled S" using inv(2) True by simp
  show ?thesis
  proof (cases "simplify_clause S lit_Undef (sort ps)")
    case None
    then show ?thesis using r True rng inv by (simp add: addClause_impl_def)
  next
    case (Some qs)
    have shape: "set qs \<subseteq> set ps" "sorted_wrt (<) qs"
      "\<And>q. q \<in> set qs \<Longrightarrow> \<not> lbool_eq (lit_value S q) l_True \<and> \<not> lbool_eq (lit_value S q) l_False"
      using simplify_clause_shape [OF Some sorted_Undef [OF rng]] by auto
    have lv: "list_all (live S) qs" using shape(1) ps by (auto simp: list_all_iff)
    have und: "in_range S q" "lbool_eq (lit_value S q) l_Undef" if "q \<in> set qs" for q
    proof -
      show "in_range S q" using shape(1) that rng by (auto simp: list_all_iff)
      show "lbool_eq (lit_value S q) l_Undef"
        using shape(3) [OF that] core(2) by (cases "tri (lit_value S q)") auto
    qed
    consider "qs = []" | q where "qs = [q]" | a c r where "qs = a # c # r" by (metis list.exhaust)
    then show ?thesis
    proof cases
      case 1
      then show ?thesis using r True rng Some inv by (auto simp: addClause_impl_def)
    next
      case (2 q)
      let ?U = "uncheckedEnqueue q None S"
      have q: "in_range S q" "lbool_eq (lit_value S q) l_Undef" using und 2 by auto
      have U: "cdcl_inv ?U" "settled ?U"
        using enqueue_search [OF core(1) q inv(1) st, of None] wf(2) by auto
      have "wf_core ?U"
        using wf_base_uncheckedEnqueue [OF wf(1), of q None] lv q 2 by (simp add: wf_base_def)
      from propagate_loop_search [OF this U] obtain confl T where
        T: "propagate ?U = Some (confl, T)" "cdcl_inv T" "confl = None \<longrightarrow> settled T"
        unfolding propagate_def by (auto split: option.splits)
      then have "S' = T\<lparr>ok := (confl = None)\<rparr>" using r True rng Some 2 by (auto simp: addClause_impl_def)
      then show ?thesis using T by simp
    next
      case 3
      let ?T = "S\<lparr>ca := ca S @ [mkClause qs False False], clauses := clauses S @ [length (ca S)]\<rparr>"
      have S': "S' = attachClause (length (ca S)) ?T"
        using r Some True rng 3 by (simp add: addClause_impl_def alloc_clause_def)
      have d: "2 \<le> length qs" "distinct qs" using 3 shape(2) by (auto simp: strict_sorted_iff)
      have T: "ca ?T = ca S @ [mkClause qs False False]" "lits (mkClause qs False False) = qs"
        "set (db ?T) = insert (length (ca S)) (set (db S))" "trail ?T = trail S" "trail_lim ?T = trail_lim S"
        "qhead ?T = qhead S" "vardata ?T = vardata S" "watches ?T = watches S" "nVars ?T = nVars S" "wf_vars ?T"
        using core(2) by (auto simp: db_def wf_vars_def)
      note at = attach_search [OF wf(1) d lv inv(1) T S']
      have q01: "qs ! 0 \<in> set qs" "qs ! 1 \<in> set qs" using 3 by auto
      have "settled S'"
      proof (rule attach_settled [OF core(3) st at(4)])
        show "trail S' = trail S" "qhead S' = qhead S" "level S' = level S"
          by (simp_all add: S' level_def fun_eq_iff)
        show "neg (qs ! 0) \<notin> set (trail S)" "neg (qs ! 1) \<notin> set (trail S)"
          using value_Undef [OF core(2,3)] und q01 by auto
      qed
      then show ?thesis using at(1) by simp
    qed
  qed
qed (use r inv in \<open>auto simp: addClause_impl_def\<close>)

lemma solver_inv_addClause:
  assumes "solver_inv S" "list_all (live S) ps" "addClause ps S = Some S'"
  shows "solver_inv S'"
proof -
  note S = solver_invD [OF assms(1)]
  let ?C = "cancelUntil 0 S"
  note C = solver_invD [OF solver_inv_backtrack [OF assms(1), of 0]]
  obtain b where b: "addClause_impl ps ?C = Some (b, S')" using assms(3) by (auto simp: addClause_def)
  have "cdcl_inv S' \<and> (ok S' \<longrightarrow> settled S')"
    using addClause_impl_search [OF C(2) _ _ C(8) _ b] C(11) assms(2) by simp
  moreover have "wf_solver S'" using addClause_wf [OF S(1) assms(2)] assms(3) by auto
  ultimately show ?thesis by (simp add: solver_inv_def)
qed

text \<open>A decision of the search: a new level with an unassigned literal.\<close>

definition decide :: "Lit \<Rightarrow> Solver \<Rightarrow> Solver" where
  "decide l S = uncheckedEnqueue l None (newDecisionLevel S)"

lemma solver_inv_decide:
  assumes inv: "solver_inv S" and ok: "ok S" and q: "qhead S = length (trail S)"
    and l: "live S l" "lbool_eq (lit_value S l) l_Undef"
  shows "solver_inv (newDecisionLevel S)" "solver_inv (decide l S)" "models (decide l S) = models S"
proof -
  note S = solver_invD [OF inv]
  let ?N = "newDecisionLevel S"
  have N: "wf_solver ?N" "cdcl_inv ?N" "settled ?N"
    using newDecisionLevel_wf [OF S(1)] newDecisionLevel_search [OF S(8) q] S(11) ok by simp_all
  then show inv_N: "solver_inv ?N" by (simp add: solver_inv_def)
  note N' = solver_invD [OF inv_N]
  have lN: "live ?N l" "in_range ?N l" "lbool_eq (lit_value ?N l) l_Undef"
    using l by (simp_all add: live_def)
  have dec: "decide l S = uncheckedEnqueue l None ?N" by (simp add: decide_def)
  have fx: "models (decide l S) = models ?N"
    unfolding dec by (rule models_enqueue_above [OF N'(5,6) lN(2,3)]) simp
  then show "models (decide l S) = models S" by simp
  have "fixed_lits ?N \<subseteq> fixed_lits (decide l S)"
    using enqueue_frame(1) [OF N'(5,6) lN(2,3)] by (auto simp: dec fixed_lits_def)
  then have "wf_const (decide l S)" using N'(4) by (auto simp: wf_const_def dec)
  moreover have "wf_base (decide l S)" using wf_base_uncheckedEnqueue [OF N'(2) lN(1,3)] by (simp add: dec)
  moreover have "cdcl_inv (decide l S)" "settled (decide l S)"
    using enqueue_search [OF N'(3) lN(2,3) N(2,3), of None] by (simp_all add: dec)
  ultimately show "solver_inv (decide l S)" by (simp add: solver_inv_def wf_solver_base)
qed

text \<open>What \<open>propagate\<close> does at any decision level, for the clients that call it during search.\<close>

lemma prop_rel_level:
  assumes "prop_rel S S'" "trail_levels S" "trail_levels S'" "l \<in> set (trail S)"
  shows "l \<in> set (trail S')" "level S' (var l) = level S (var l)"
proof -
  obtain ls where tr: "trail S' = trail S @ ls" "trail_lim S' = trail_lim S" using assms(1) by (auto simp: prop_rel_def)
  obtain i where i: "i < length (trail S)" "l = trail S ! i" using assms(4) by (auto simp: in_set_conv_nth)
  show "l \<in> set (trail S')" using assms(4) tr(1) by simp
  have "l = trail S' ! i" "i < length (trail S')" using i tr(1) by (simp_all add: nth_append)
  then have "level S' (var l) = level_at S' i" using level_nth [OF assms(3)] by simp
  also have "\<dots> = level S (var l)" using i level_nth [OF assms(2)] tr(2) by (simp add: level_at_def)
  finally show "level S' (var l) = level S (var l)" .
qed

lemma prop_rel_fixed: "prop_rel S S' \<Longrightarrow> trail_levels S \<Longrightarrow> trail_levels S' \<Longrightarrow> fixed_lits S \<subseteq> fixed_lits S'"
  using prop_rel_level by (fastforce simp: fixed_lits_def)

lemma propagate_search:
  assumes "solver_inv S" "ok S"
  shows "\<exists>confl S'. propagate S = Some (confl, S') \<and> wf_solver S' \<and> cdcl_inv S' \<and> prop_rel S S' \<and>
    decisions S' \<subseteq> decisions S \<and> qhead S' = length (trail S') \<and>
    (case confl of None \<Rightarrow> solver_inv S' \<and> propagated S' | Some cr \<Rightarrow> current_conflict S' cr \<and> settled_below S')"
proof -
  note S = solver_invD [OF assms(1)]
  from propagate_loop_search [OF S(3,8) S(11) [OF assms(2)]] obtain confl S' where
    S': "propagate S = Some (confl, S')" "wf_core S'" "prop_rel S S'" "cdcl_inv S'" "qhead S' = length (trail S')"
    "decisions S' \<subseteq> decisions S" "case confl of None \<Rightarrow> settled S' | Some cr \<Rightarrow> current_conflict S' cr \<and> settled_below S'"
    unfolding propagate_def by blast
  have "wf_base S'" by (rule prop_rel_wf [OF S'(3,2) S(2)])
  moreover have "fixed_lits S \<subseteq> fixed_lits S'"
    using prop_rel_fixed [OF S'(3) S(9)] S'(4) by (simp add: cdcl_inv_def)
  then have "wf_const S'" using S(4) S'(3) by (auto simp: wf_const_def prop_rel_def in_range_def)
  ultimately have wf: "wf_solver S'" by (simp add: wf_solver_base)
  have "case confl of None \<Rightarrow> solver_inv S' \<and> propagated S' | Some cr \<Rightarrow> current_conflict S' cr \<and> settled_below S'"
    using S' wf settled_propagated [OF S'(2,4) _ S'(5)] by (cases confl) (simp_all add: solver_inv_def)
  then show ?thesis using S' wf by blast
qed

subsection \<open>Properties\<close>

text \<open>C5: Propagation at any decision level always returns, extends the trail, empties the queue and keeps
  the invariant and the models. Without a conflict it is complete: every clause has a true literal or two
  literals that are not false, so no unit clause is missed. A reported conflict is a clause of the database
  all of whose literals are false, at least one of them at the current decision level.\<close>

theorem propagation_complete:
  assumes "solver_inv S" "ok S"
  shows "\<exists>confl S' ls. propagate S = Some (confl, S') \<and> wf_solver S' \<and> cdcl_inv S' \<and> models S' = models S \<and>
    trail S' = trail S @ ls \<and> trail_lim S' = trail_lim S \<and> qhead S' = length (trail S') \<and>
    (case confl of
       None \<Rightarrow> solver_inv S' \<and> (\<forall>cr \<in> set (db S'). (\<exists>l \<in> set (clause_of S' cr). l \<in> set (trail S')) \<or>
         (\<exists>i j. i < j \<and> j < length (clause_of S' cr) \<and> neg (clause_of S' cr ! i) \<notin> set (trail S') \<and>
            neg (clause_of S' cr ! j) \<notin> set (trail S')))
     | Some cr \<Rightarrow> cr \<in> set (db S') \<and> (\<forall>l \<in> set (clause_of S' cr). neg l \<in> set (trail S')) \<and>
         (\<exists>l \<in> set (clause_of S' cr). level S' (var l) = decisionLevel S'))"
proof -
  from propagate_search [OF assms] obtain confl S' where
    S': "propagate S = Some (confl, S')" "wf_solver S'" "cdcl_inv S'" "prop_rel S S'" "qhead S' = length (trail S')"
    "case confl of None \<Rightarrow> solver_inv S' \<and> propagated S' | Some cr \<Rightarrow> current_conflict S' cr \<and> settled_below S'"
    by blast
  obtain ls where rel: "trail S' = trail S @ ls" "trail_lim S' = trail_lim S" "models S' = models S"
    using S'(4) by (auto simp: prop_rel_def)
  have len: "1 < length (clause_of S' cr)" if "cr \<in> set (db S')" for cr
    using that S'(2) by (force simp: wf_solver_def wf_clauses_def)
  show ?thesis
  proof (cases confl)
    case None
    have "(\<exists>l \<in> set (clause_of S' cr). l \<in> set (trail S')) \<or>
         (\<exists>i j. i < j \<and> j < length (clause_of S' cr) \<and> neg (clause_of S' cr ! i) \<notin> set (trail S') \<and>
            neg (clause_of S' cr ! j) \<notin> set (trail S'))" if "cr \<in> set (db S')" for cr
      using S'(6) None that len [OF that] zero_less_one unfolding propagated_def by auto
    then show ?thesis using S' rel None by auto
  next
    case (Some cr)
    then show ?thesis using S' rel by (auto simp: current_conflict_def falsified_def)
  qed
qed

text \<open>The clauses \<open>~x0 | x1\<close> and \<open>~x0 | ~x1\<close>, and the decision \<open>x0\<close>: propagation runs into a conflict at level 1.\<close>

definition two_clauses :: Solver where
  "two_clauses = the (addClause [mkLit 0 True, mkLit 1 True] (the (addClause [mkLit 0 True, mkLit 1 False] three_vars)))"

definition decided_x0 :: Solver where
  "decided_x0 = decide (mkLit 0 False) two_clauses"

lemma three_vars_inv: "solver_inv three_vars"
  unfolding three_vars_def by (metis prod.collapse solver_inv_init solver_inv_newVar)

declare sort_vec_eq [code]

lemma two_clauses_facts:
  "trail two_clauses = []" "qhead two_clauses = 0" "ok two_clauses" "assigns two_clauses = [l_Undef, l_Undef, l_Undef]"
  "free_vars two_clauses = []"
  by code_simp+

lemma two_clauses_inv: "solver_inv two_clauses"
proof -
  let ?a = "[mkLit 0 True, mkLit 1 False]" and ?b = "[mkLit 0 True, mkLit 1 True]"
  have a: "list_all (live three_vars) ?a" by (simp add: three_vars_live lit_simps)
  from addClause_wf [OF three_vars_wf a] obtain S where S: "addClause ?a three_vars = Some S" "live S = live three_vars"
    by blast
  have b: "list_all (live S) ?b" using S(2) by (simp add: three_vars_live lit_simps)
  have inv: "solver_inv S" by (rule solver_inv_addClause [OF three_vars_inv a S(1)])
  from addClause_wf [OF solver_invD(1) [OF inv] b] obtain T where "addClause ?b S = Some T" by blast
  then show ?thesis using solver_inv_addClause [OF inv b] S(1) by (simp add: two_clauses_def)
qed

lemma decided_x0_inv: "solver_inv decided_x0" "ok decided_x0"
proof -
  have "live two_clauses (mkLit 0 False)" "lbool_eq (lit_value two_clauses (mkLit 0 False)) l_Undef"
    using two_clauses_facts by (simp_all add: live_def in_range_def lit_value_def lit_simps)
  from solver_inv_decide(2) [OF two_clauses_inv _ _ this] show "solver_inv decided_x0"
    using two_clauses_facts by (simp add: decided_x0_def)
  show "ok decided_x0" using two_clauses_facts by (simp add: decided_x0_def decide_def)
qed

lemma decided_x0_propagate: "map_option fst (propagate decided_x0) = Some (Some 1)"
  by code_simp

theorem propagation_complete_witness:
  "\<exists>S'. propagate decided_x0 = Some (Some 1, S') \<and> wf_solver S' \<and> models S' = models decided_x0 \<and>
     qhead S' = length (trail S') \<and> (\<forall>l \<in> set (clause_of S' 1). neg l \<in> set (trail S')) \<and>
     (\<exists>l \<in> set (clause_of S' 1). level S' (var l) = decisionLevel S')"
  using propagation_complete [OF decided_x0_inv] decided_x0_propagate by (auto split: option.splits)

end
