(* ===== verification/Conflict_Analysis.thy ===== *)
theory Conflict_Analysis
  imports Implication_Trail
begin

unbundle bit_operations_syntax

text \<open>
  Conflict analysis of \<open>core/Solver.cc\<close>: \<open>analyze\<close> with its three modes of clause minimisation,
  \<open>litRedundant\<close>, and both versions of \<open>analyzeFinal\<close>.

  As in \<open>Solver_Core\<close> no theory solver is attached: a reason is a clause or \<open>CRef_Undef\<close>, it is never
  constructed on demand, and so the level of a variable does not change during the analysis
  (\<open>possibly_missed_1uip\<close> stays false). Activities and statistics are left out. The vectors \<open>seen\<close> and
  \<open>analyze_toclear\<close> of the solver are passed explicitly. \<open>analyze\<close> is undefined where the code would
  read \<open>trail_lim\<close> or \<open>trail\<close> out of range.
\<close>

subsection \<open>The marks\<close>

abbreviation seen_lit :: "bool list \<Rightarrow> Lit \<Rightarrow> bool" where
  "seen_lit sn l \<equiv> sn ! nat (var l)"

abbreviation set_seen :: "bool \<Rightarrow> Lit \<Rightarrow> bool list \<Rightarrow> bool list" where
  "set_seen b l sn \<equiv> sn[nat (var l) := b]"

definition mark_all :: "bool \<Rightarrow> Lit list \<Rightarrow> bool list \<Rightarrow> bool list" where
  "mark_all b ls sn = foldl (\<lambda>sn l. set_seen b l sn) sn ls"

subsection \<open>First unique implication point\<close>

text \<open>The literals of a clause that is resolved on: those of the current level are counted in \<open>pathC\<close>,
  the others go into the learnt clause.\<close>

type_synonym analysis = "bool list \<times> Lit list \<times> int"

fun resolve_lit :: "Solver \<Rightarrow> Lit \<Rightarrow> analysis \<Rightarrow> analysis" where
  "resolve_lit S q (sn, out, pathC) =
     (if \<not> seen_lit sn q \<and> level S (var q) > 0 then
        if level S (var q) \<ge> decisionLevel S then (set_seen True q sn, out, pathC + 1)
        else (set_seen True q sn, out @ [q], pathC)
      else (sn, out, pathC))"

fun resolve_clause :: "Solver \<Rightarrow> nat option \<Rightarrow> Lit \<Rightarrow> analysis \<Rightarrow> analysis" where
  "resolve_clause S confl p (sn, out, pathC) =
     (case confl of
        Some cr \<Rightarrow> fold (resolve_lit S) (drop (if p = lit_Undef then 0 else 1) (clause_of S cr)) (sn, out, pathC)
      | None \<Rightarrow> (sn, out @ [neg p], pathC))"

text \<open>\<open>while(index >= stop && (!seen[var(trail[index--])] || ...));\<close> with \<open>index + 1\<close> as the counter.\<close>

fun select_index :: "Solver \<Rightarrow> bool list \<Rightarrow> nat \<Rightarrow> nat \<Rightarrow> nat" where
  "select_index S sn stop 0 = 0"
| "select_index S sn stop (Suc i) =
     (if stop \<le> i then
        if \<not> seen_lit sn (trail S ! i) \<or> level S (var (trail S ! i)) < decisionLevel S
        then select_index S sn stop i else i
      else Suc i)"

partial_function (option) next_seen ::
  "Solver \<Rightarrow> nat \<Rightarrow> nat \<Rightarrow> bool list \<Rightarrow> int \<Rightarrow> (nat \<times> bool list) option" where
  [code]: "next_seen S stop i1 sn pathC =
     (let i = select_index S sn stop i1
      in if \<not> i < length (trail S) then None
         else if level S (var (trail S ! i)) < decisionLevel S then
           (if pathC > 0 then next_seen S stop i (set_seen False (trail S ! i) sn) pathC
            else Some (i, set_seen False (trail S ! i) sn))
         else Some (i, sn))"

partial_function (option) analyze_loop ::
  "Solver \<Rightarrow> nat \<Rightarrow> nat option \<Rightarrow> Lit \<Rightarrow> nat \<Rightarrow> analysis \<Rightarrow> (Lit \<times> bool list \<times> Lit list) option" where
  [code]: "analyze_loop S stop confl p i1 A =
     (let A1 = resolve_clause S confl p A; out = fst (snd A1); pathC = snd (snd A1)
      in Option.bind (next_seen S stop i1 (fst A1) pathC)
           (\<lambda>r. let i = fst r; p' = trail S ! i; sn = set_seen False p' (snd r)
                in if pathC - 1 > 0 then analyze_loop S stop (reason S (var p')) p' i (sn, out, pathC - 1)
                   else Some (p', sn, out)))"

subsection \<open>Minimisation\<close>

definition abstractLevel :: "Solver \<Rightarrow> int \<Rightarrow> 32 word" where
  "abstractLevel S x = push_bit (nat (int (level S x) AND 31)) 1"

text \<open>\<open>litRedundant\<close>: the literals of a reason, then the loop over the stack. The first component is false
  if the literal cannot be removed; the marks set since the entry (\<open>top\<close>) are then undone.\<close>

type_synonym redundancy = "Lit list \<times> bool list \<times> Lit list"

fun expand_reason :: "Solver \<Rightarrow> 32 word \<Rightarrow> Lit list \<Rightarrow> redundancy \<Rightarrow> bool \<times> redundancy" where
  "expand_reason S al [] R = (True, R)"
| "expand_reason S al (p # ps) (stack, sn, toclear) =
     (if \<not> seen_lit sn p \<and> level S (var p) > 0 then
        if reason S (var p) \<noteq> None \<and> (abstractLevel S (var p) AND al) \<noteq> 0
        then expand_reason S al ps (stack @ [p], set_seen True p sn, toclear @ [p])
        else (False, (stack, sn, toclear))
      else expand_reason S al ps (stack, sn, toclear))"

definition undo_marks :: "nat \<Rightarrow> bool list \<Rightarrow> Lit list \<Rightarrow> bool list \<times> Lit list" where
  "undo_marks start sn toclear = (mark_all False (drop start toclear) sn, take start toclear)"

partial_function (option) redundant_loop ::
  "Solver \<Rightarrow> 32 word \<Rightarrow> nat \<Rightarrow> redundancy \<Rightarrow> (bool \<times> bool list \<times> Lit list) option" where
  [code]: "redundant_loop S al start R =
     (if fst R = [] then Some (True, snd R)
      else (case reason S (var (last (fst R))) of
              None \<Rightarrow> Some (False, undo_marks start (fst (snd R)) (snd (snd R)))
            | Some cr \<Rightarrow>
                let r = expand_reason S al (drop 1 (clause_of S cr)) (butlast (fst R), snd R)
                in if fst r then redundant_loop S al start (snd r)
                   else Some (False, undo_marks start (fst (snd (snd r))) (snd (snd (snd r))))))"

definition litRedundant ::
  "Solver \<Rightarrow> Lit \<Rightarrow> 32 word \<Rightarrow> bool list \<Rightarrow> Lit list \<Rightarrow> (bool \<times> bool list \<times> Lit list) option" where
  "litRedundant S p al sn toclear = redundant_loop S al (length toclear) ([p], sn, toclear)"

fun minimise_deep ::
  "Solver \<Rightarrow> 32 word \<Rightarrow> Lit list \<Rightarrow> bool list \<Rightarrow> Lit list \<Rightarrow> (Lit list \<times> bool list \<times> Lit list) option" where
  "minimise_deep S al [] sn toclear = Some ([], sn, toclear)"
| "minimise_deep S al (l # ls) sn toclear =
     (if reason S (var l) = None then
        map_option (\<lambda>(ks, R). (l # ks, R)) (minimise_deep S al ls sn toclear)
      else do {
        (b, sn', toclear') \<leftarrow> litRedundant S l al sn toclear;
        (ks, R) \<leftarrow> minimise_deep S al ls sn' toclear';
        Some (if b then ks else l # ks, R)
      })"

definition minimise_local :: "Solver \<Rightarrow> Lit list \<Rightarrow> bool list \<Rightarrow> Lit list" where
  "minimise_local S ls sn = filter (\<lambda>l. case reason S (var l) of None \<Rightarrow> True
     | Some cr \<Rightarrow> list_ex (\<lambda>k. \<not> seen_lit sn k \<and> level S (var k) > 0) (drop 1 (clause_of S cr))) ls"

definition minimise ::
  "nat \<Rightarrow> Solver \<Rightarrow> Lit list \<Rightarrow> bool list \<Rightarrow> (Lit list \<times> bool list \<times> Lit list) option" where
  "minimise ccmin_mode S out sn =
     (if ccmin_mode = 2 then
        map_option (\<lambda>(ks, R). (hd out # ks, R))
          (minimise_deep S (foldl (\<lambda>a l. a OR abstractLevel S (var l)) 0 (tl out)) (tl out) sn out)
      else if ccmin_mode = 1 then Some (hd out # minimise_local S (tl out) sn, sn, out)
      else Some (out, sn, out))"

subsection \<open>Backtrack level\<close>

definition max_level_index :: "Solver \<Rightarrow> Lit list \<Rightarrow> nat" where
  "max_level_index S out =
     foldl (\<lambda>m i. if level S (var (out ! i)) > level S (var (out ! m)) then i else m) 1 [2..<length out]"

definition asserting_level :: "Solver \<Rightarrow> Lit list \<Rightarrow> Lit list \<times> nat" where
  "asserting_level S out =
     (if length out = 1 then (out, 0)
      else let m = max_level_index S out; p = out ! m
           in (out[m := out ! 1, 1 := p], level S (var p)))"

definition analyze ::
  "nat \<Rightarrow> nat \<Rightarrow> bool list \<Rightarrow> Solver \<Rightarrow> (Lit list \<times> nat \<times> bool list \<times> Solver) option" where
  "analyze ccmin_mode confl sn S0 =
     (let maxlev = foldl (\<lambda>m l. if level S0 (var l) > m then level S0 (var l) else m) 0 (clause_of S0 confl);
          S = cancelUntil maxlev S0
      in if trail_lim S = [] then None
         else do {
           (p, sn1, out) \<leftarrow> analyze_loop S (last (trail_lim S)) (Some confl) lit_Undef (length (trail S)) (sn, [lit_Undef], 0);
           (out1, sn2, toclear) \<leftarrow> minimise ccmin_mode S (out[0 := neg p]) sn1;
           let (learnt_clause, btlevel) = asserting_level S out1;
           Some (learnt_clause, btlevel, mark_all False toclear sn2, S)
         })"

subsection \<open>Final analysis\<close>

text \<open>\<open>analyzeFinal\<close> expresses a conflict in terms of decisions (the assumptions): one step of its loop over the
  trail, from the last literal down to the first of level 1. The two versions differ in the literals of the
  reason they visit (from index \<open>j0\<close> on) and in what they start from.\<close>

definition final_step :: "Solver \<Rightarrow> nat \<Rightarrow> nat \<Rightarrow> bool list \<times> Lit list \<Rightarrow> bool list \<times> Lit list" where
  "final_step S j0 i F =
     (let (sn, out) = F; x = trail S ! i
      in if seen_lit sn x then
           (case reason S (var x) of
              None \<Rightarrow> (set_seen False x sn, out @ [neg x])
            | Some cr \<Rightarrow>
                (set_seen False x (mark_all True (filter (\<lambda>l. level S (var l) > 0) (drop j0 (clause_of S cr))) sn), out))
         else (sn, out))"

definition final_loop :: "Solver \<Rightarrow> nat \<Rightarrow> bool list \<times> Lit list \<Rightarrow> bool list \<times> Lit list" where
  "final_loop S j0 F = fold (final_step S j0) (rev [hd (trail_lim S)..<length (trail S)]) F"

definition analyzeFinal :: "Lit \<Rightarrow> bool list \<Rightarrow> Solver \<Rightarrow> Lit list \<times> bool list" where
  "analyzeFinal p sn S =
     (if decisionLevel S = 0 then ([p], sn)
      else let (sn', out) = final_loop S 1 (set_seen True p sn, [p])
           in (out, set_seen False p sn'))"

definition analyzeFinal_clause :: "nat \<Rightarrow> Lit \<Rightarrow> bool list \<Rightarrow> Solver \<Rightarrow> Lit list \<times> bool list" where
  "analyzeFinal_clause confl skip_lit sn S =
     (if decisionLevel S = 0 then ([], sn)
      else let cs = filter (\<lambda>l. var l \<noteq> var skip_lit \<and> level S (var l) > 0) (clause_of S confl);
               (sn', out) = final_loop S 0 (mark_all True cs sn, [])
           in (out, sn'))"

subsection \<open>The state during the analysis\<close>

definition analysable :: "Solver \<Rightarrow> bool" where
  "analysable S \<longleftrightarrow> wf_vars S \<and> wf_trail S \<and> wf_clauses S \<and> trail_levels S \<and> reasons_ok S \<and> trail_lim S \<noteq> []"

lemma analysableD:
  assumes "analysable S"
  shows "wf_vars S" "wf_trail S" "wf_clauses S" "trail_levels S" "reasons_ok S" "trail_lim S \<noteq> []"
  using assms by (auto simp: analysable_def)

lemma trail_lit_unique:
  "wf_trail S \<Longrightarrow> neg q \<in> set (trail S) \<Longrightarrow> neg r \<in> set (trail S) \<Longrightarrow> var q = var r \<Longrightarrow> q = r"
  using same_var_cases [of q r] trail_consistent [of S "neg q"] by auto

lemma trail_in_range: "wf_trail S \<Longrightarrow> neg q \<in> set (trail S) \<Longrightarrow> in_range S q"
  by (metis in_range_neg wf_trail_def)

lemma trail_index: "wf_trail S \<Longrightarrow> neg q \<in> set (trail S) \<Longrightarrow> nat (var q) < nVars S"
  using trail_in_range var_index by blast

lemma trail_index_eq:
  "wf_trail S \<Longrightarrow> neg q \<in> set (trail S) \<Longrightarrow> neg r \<in> set (trail S) \<Longrightarrow> nat (var q) = nat (var r) \<longleftrightarrow> q = r"
  using trail_lit_unique [of S q r] trail_in_range [of S q] trail_in_range [of S r]
  by (auto simp: in_range_def)

lemma seen_mark:
  assumes "wf_trail S" "neg q \<in> set (trail S)" "neg r \<in> set (trail S)" "length sn = nVars S"
  shows "seen_lit (set_seen b q sn) r = (if r = q then b else seen_lit sn r)"
  using assms trail_index [OF assms(1,2)] trail_index_eq [OF assms(1-3)] by (auto simp: nth_list_update)

text \<open>The positions of the current level that are marked below \<open>i\<close>, and the literals of the clause that is being
  derived.\<close>

definition marks :: "Solver \<Rightarrow> nat \<Rightarrow> bool list \<Rightarrow> nat set" where
  "marks S i sn = {j. last (trail_lim S) \<le> j \<and> j < i \<and> seen_lit sn (trail S ! j)}"

definition open_lits :: "Solver \<Rightarrow> nat \<Rightarrow> bool list \<Rightarrow> Lit list \<Rightarrow> Lit set" where
  "open_lits S i sn out = set (tl out) \<union> (\<lambda>j. neg (trail S ! j)) ` marks S i sn"

definition learnt_ok :: "Solver \<Rightarrow> Lit list \<Rightarrow> bool" where
  "learnt_ok S ls \<longleftrightarrow> distinct ls \<and>
     (\<forall>q \<in> set ls. neg q \<in> set (trail S) \<and> 0 < level S (var q) \<and> level S (var q) < decisionLevel S)"

definition seen_ok :: "Solver \<Rightarrow> bool list \<Rightarrow> Lit set \<Rightarrow> bool" where
  "seen_ok S sn Q \<longleftrightarrow> length sn = nVars S \<and> (\<forall>x < nVars S. sn ! x \<longrightarrow> int x \<in> var ` Q) \<and>
     (\<forall>q \<in> Q. neg q \<in> set (trail S) \<and> seen_lit sn q)"

definition uip_inv :: "Solver \<Rightarrow> nat \<Rightarrow> analysis \<Rightarrow> bool" where
  "uip_inv S i A \<longleftrightarrow> (case A of (sn, out, pathC) \<Rightarrow>
     i \<le> length (trail S) \<and> out \<noteq> [] \<and> learnt_ok S (tl out) \<and> seen_ok S sn (open_lits S i sn out) \<and>
     pathC = int (card (marks S i sn)))"

lemma finite_marks [simp]: "finite (marks S i sn)"
  by (rule finite_subset [of _ "{..<i}"]) (auto simp: marks_def)

lemma seen_ok_mem:
  assumes "seen_ok S sn Q" "wf_trail S" "neg q \<in> set (trail S)"
  shows "seen_lit sn q \<longleftrightarrow> q \<in> Q"
proof
  assume "seen_lit sn q"
  then have "int (nat (var q)) \<in> var ` Q"
    using assms trail_index [OF assms(2,3)] unfolding seen_ok_def by blast
  moreover have "0 \<le> var q" using trail_in_range [OF assms(2,3)] by (simp add: in_range_def)
  ultimately obtain r where "r \<in> Q" "var r = var q" by auto
  then show "q \<in> Q" using assms trail_lit_unique [of S r q] by (auto simp: seen_ok_def)
qed (use assms in \<open>simp add: seen_ok_def\<close>)

lemma seen_ok_mark:
  assumes "seen_ok S sn Q" "wf_trail S" "neg q \<in> set (trail S)"
  shows "seen_ok S (set_seen True q sn) (insert q Q)" "seen_ok S (set_seen False q sn) (Q - {q})"
proof -
  have len: "length sn = nVars S" and Q: "\<forall>q \<in> Q. neg q \<in> set (trail S) \<and> seen_lit sn q"
    and ex: "\<And>x. x < nVars S \<Longrightarrow> sn ! x \<Longrightarrow> int x \<in> var ` Q"
    using assms(1) by (auto simp: seen_ok_def)
  have q: "int (nat (var q)) = var q" "nat (var q) < length sn"
    using trail_in_range [OF assms(2,3)] trail_index [OF assms(2,3)] len by (simp_all add: in_range_def)
  have "int x \<in> var ` insert q Q" if "x < nVars S" "set_seen True q sn ! x" for x
    using that ex [of x] q by (cases "x = nat (var q)") auto
  then show "seen_ok S (set_seen True q sn) (insert q Q)"
    using len Q assms(3) seen_mark [OF assms(2,3) _ len] by (simp add: seen_ok_def)
  have "int x \<in> var ` (Q - {q})" if "x < nVars S" "set_seen False q sn ! x" for x
    using that ex [of x] q by (cases "x = nat (var q)") auto
  then show "seen_ok S (set_seen False q sn) (Q - {q})"
    using len Q seen_mark [OF assms(2,3) _ len] by (simp add: seen_ok_def)
qed

lemma trail_nth_neg: "j < length (trail S) \<Longrightarrow> neg (neg (trail S ! j)) \<in> set (trail S)"
  by simp

lemma marks_mark:
  assumes "analysable S" "length sn = nVars S" "i \<le> length (trail S)" "k < length (trail S)"
  shows "marks S i (set_seen b (trail S ! k) sn) =
    (if b \<and> last (trail_lim S) \<le> k \<and> k < i then insert k (marks S i sn) else if b then marks S i sn else marks S i sn - {k})"
proof -
  note wf = analysableD [OF assms(1)]
  have d: "distinct (trail S)" using wf(2) by (auto simp: wf_trail_def distinct_map)
  have "seen_lit (set_seen b (trail S ! k) sn) (trail S ! j) = (if j = k then b else seen_lit sn (trail S ! j))"
    if "j < i" for j
    using seen_mark [OF wf(2) trail_nth_neg [OF assms(4)] trail_nth_neg [of j S] assms(2), of b] that assms(3,4)
      nth_eq_iff_index_eq [OF d, of j k] by simp
  then show ?thesis by (cases b) (auto simp: marks_def split: if_splits)
qed

lemma clause_trail_nth:
  assumes "neg q \<in> set (take i (trail S))"
  obtains k where "k < i" "k < length (trail S)" "q = neg (trail S ! k)"
proof -
  from assms obtain k where "k < length (take i (trail S))" "neg q = take i (trail S) ! k"
    by (metis in_set_conv_nth)
  then show ?thesis using that [of k] by (simp add: neg_swap)
qed

lemma resolve_lit_inv:
  assumes S: "analysable S" and inv: "uip_inv S i (sn, out, c)" and q: "neg q \<in> set (take i (trail S))"
    and r: "resolve_lit S q (sn, out, c) = (sn', out', c')"
  shows "uip_inv S i (sn', out', c')" "open_lits S i sn out \<subseteq> open_lits S i sn' out'"
    "level S (var q) > 0 \<longrightarrow> q \<in> open_lits S i sn' out'"
proof -
  note wf = analysableD [OF S]
  have I: "i \<le> length (trail S)" "out \<noteq> []" "learnt_ok S (tl out)" "seen_ok S sn (open_lits S i sn out)"
    "c = int (card (marks S i sn))" "length sn = nVars S"
    using inv by (auto simp: uip_inv_def seen_ok_def)
  obtain k where k: "k < i" "k < length (trail S)" "q = neg (trail S ! k)" using clause_trail_nth [OF q] .
  have nq: "neg q \<in> set (trail S)" using k by simp
  have cur: "level S (var q) \<ge> decisionLevel S \<longleftrightarrow> last (trail_lim S) \<le> k"
    using level_current_iff [OF wf(4) k(2) wf(6)] level_le [OF wf(4), of "trail S ! k"] k by auto
  have mk: "seen_ok S (set_seen True q sn) (insert q (open_lits S i sn out))"
    using seen_ok_mark(1) [OF I(4) wf(2) nq] .
  have mem: "seen_lit sn q \<longleftrightarrow> q \<in> open_lits S i sn out" using seen_ok_mem [OF I(4) wf(2) nq] .
  have m: "marks S i (set_seen True q sn) = (if last (trail_lim S) \<le> k then insert k (marks S i sn) else marks S i sn)"
    using marks_mark [OF S I(6,1) k(2), of True] k by simp
  consider (skip) "seen_lit sn q \<or> level S (var q) = 0" | (current) "\<not> seen_lit sn q" "level S (var q) > 0" "last (trail_lim S) \<le> k"
    | (lower) "\<not> seen_lit sn q" "level S (var q) > 0" "\<not> last (trail_lim S) \<le> k" by blast
  then have "uip_inv S i (sn', out', c') \<and> open_lits S i sn out \<subseteq> open_lits S i sn' out' \<and>
    (level S (var q) > 0 \<longrightarrow> q \<in> open_lits S i sn' out')"
  proof cases
    case skip
    then show ?thesis using r inv mem by auto
  next
    case current
    then have eq: "sn' = set_seen True q sn" "out' = out" "c' = c + 1" using r cur by auto
    have o: "open_lits S i sn' out' = insert q (open_lits S i sn out)"
      using m current k by (simp add: eq open_lits_def)
    have "k \<notin> marks S i sn" using current k by (simp add: marks_def)
    then show ?thesis using I mk m current o eq by (auto simp: uip_inv_def)
  next
    case lower
    then have eq: "sn' = set_seen True q sn" "out' = out @ [q]" "c' = c" using r cur by auto
    have tl: "tl out' = tl out @ [q]" using I(2) by (simp add: eq)
    have o: "open_lits S i sn' out' = insert q (open_lits S i sn out)"
      using m lower tl by (auto simp: eq(1) open_lits_def)
    have "q \<notin> set (tl out)" using lower(1) mem by (auto simp: open_lits_def)
    moreover have "level S (var q) < decisionLevel S" using cur lower(3) by simp
    ultimately have "learnt_ok S (tl out')" using I(3) nq lower(2) tl by (auto simp: learnt_ok_def)
    then show ?thesis using I mk m lower o eq by (auto simp: uip_inv_def)
  qed
  then show "uip_inv S i (sn', out', c')" "open_lits S i sn out \<subseteq> open_lits S i sn' out'"
    "level S (var q) > 0 \<longrightarrow> q \<in> open_lits S i sn' out'" by auto
qed

lemma resolve_lits_inv:
  assumes S: "analysable S" and "uip_inv S i (sn, out, c)" "\<forall>q \<in> set qs. neg q \<in> set (take i (trail S))"
    "fold (resolve_lit S) qs (sn, out, c) = (sn', out', c')"
  shows "uip_inv S i (sn', out', c') \<and> open_lits S i sn out \<subseteq> open_lits S i sn' out' \<and>
    (\<forall>q \<in> set qs. level S (var q) > 0 \<longrightarrow> q \<in> open_lits S i sn' out')"
  using assms(2-)
proof (induction qs arbitrary: sn out c)
  case (Cons q qs)
  obtain sn1 out1 c1 where r: "resolve_lit S q (sn, out, c) = (sn1, out1, c1)" by (metis prod_cases3)
  note st = resolve_lit_inv [OF S Cons.prems(1) _ r]
  have "uip_inv S i (sn', out', c') \<and> open_lits S i sn1 out1 \<subseteq> open_lits S i sn' out' \<and>
    (\<forall>q \<in> set qs. level S (var q) > 0 \<longrightarrow> q \<in> open_lits S i sn' out')"
    using Cons.IH [OF st(1)] Cons.prems r by simp
  then show ?case using st(2,3) Cons.prems(2) by auto
qed simp

text \<open>The search for the next marked literal finds the last one.\<close>

lemma select_index_max:
  assumes S: "analysable S" and "i \<le> length (trail S)" "marks S i sn \<noteq> {}"
  shows "select_index S sn (last (trail_lim S)) i \<in> marks S i sn \<and>
    marks S i sn \<subseteq> insert (select_index S sn (last (trail_lim S)) i) (marks S (select_index S sn (last (trail_lim S)) i) sn)"
  using assms(2,3)
proof (induction i)
  case (Suc i)
  note wf = analysableD [OF S]
  have st: "last (trail_lim S) \<le> i" using Suc.prems(2) by (auto simp: marks_def)
  have lev: "level S (var (trail S ! i)) = decisionLevel S"
    using level_current_iff [OF wf(4) _ wf(6), of i] Suc.prems(1) st by simp
  show ?case
  proof (cases "seen_lit sn (trail S ! i)")
    case True
    then show ?thesis using st lev by (auto simp: marks_def)
  next
    case False
    then have "marks S (Suc i) sn = marks S i sn" by (auto simp: marks_def less_Suc_eq)
    then show ?thesis using Suc False st by simp
  qed
qed (simp add: marks_def)

text \<open>What holds before a clause is resolved on: the clause derived so far, together with its literals, holds in
  every model, and a literal of the current level is left.\<close>

definition pending_reason :: "Solver \<Rightarrow> nat \<Rightarrow> nat option \<Rightarrow> Lit \<Rightarrow> bool list \<Rightarrow> Lit list \<Rightarrow> bool" where
  "pending_reason S i confl p sn out \<longleftrightarrow> (\<exists>cr. confl = Some cr \<and>
     (let qs = drop (if p = lit_Undef then 0 else 1) (clause_of S cr)
      in (\<forall>q \<in> set qs. neg q \<in> set (take i (trail S))) \<and>
         (\<forall>\<sigma> \<in> models S. \<exists>l \<in> open_lits S i sn out \<union> set qs. lit_holds \<sigma> l) \<and>
         (marks S i sn \<noteq> {} \<or> (\<exists>q \<in> set qs. level S (var q) = decisionLevel S))))"

lemma level0_false:
  assumes "\<sigma> \<in> models S" "neg q \<in> set (trail S)" "level S (var q) = 0"
  shows "\<not> lit_holds \<sigma> q"
proof -
  have "neg q \<in> fixed_lits S" using assms by (simp add: fixed_lits_def)
  then have "lit_holds \<sigma> (neg q)" using assms(1) models_fixed by blast
  then show ?thesis by simp
qed

lemma open_current:
  assumes S: "analysable S" and q: "q \<in> open_lits S i sn out" "level S (var q) = decisionLevel S" "learnt_ok S (tl out)"
  shows "marks S i sn \<noteq> {}"
  using q by (auto simp: open_lits_def learnt_ok_def)

lemma resolve_clause_inv:
  assumes S: "analysable S" and inv: "uip_inv S i (sn, out, c)" and pend: "pending_reason S i confl p sn out"
    and r: "resolve_clause S confl p (sn, out, c) = (sn', out', c')"
  shows "uip_inv S i (sn', out', c')" "marks S i sn' \<noteq> {}"
    "\<sigma> \<in> models S \<Longrightarrow> \<exists>l \<in> open_lits S i sn' out'. lit_holds \<sigma> l"
proof -
  obtain cr qs where qs: "confl = Some cr" "qs = drop (if p = lit_Undef then 0 else 1) (clause_of S cr)"
    "\<forall>q \<in> set qs. neg q \<in> set (take i (trail S))"
    "\<And>\<sigma>. \<sigma> \<in> models S \<Longrightarrow> \<exists>l \<in> open_lits S i sn out \<union> set qs. lit_holds \<sigma> l"
    "marks S i sn \<noteq> {} \<or> (\<exists>q \<in> set qs. level S (var q) = decisionLevel S)"
    using pend unfolding pending_reason_def Let_def by blast
  have "fold (resolve_lit S) qs (sn, out, c) = (sn', out', c')" using r qs(1,2) by simp
  from resolve_lits_inv [OF S inv qs(3) this]
  have st: "uip_inv S i (sn', out', c')" "open_lits S i sn out \<subseteq> open_lits S i sn' out'"
    "\<And>q. q \<in> set qs \<Longrightarrow> level S (var q) > 0 \<Longrightarrow> q \<in> open_lits S i sn' out'" by auto
  show "uip_inv S i (sn', out', c')" by (rule st(1))
  have D: "0 < decisionLevel S" using analysableD(6) [OF S] by simp
  show "\<exists>l \<in> open_lits S i sn' out'. lit_holds \<sigma> l" if m: "\<sigma> \<in> models S"
  proof -
    obtain l where l: "l \<in> open_lits S i sn out \<union> set qs" "lit_holds \<sigma> l" using qs(4) [OF m] by blast
    have "level S (var l) > 0" if "l \<in> set qs"
      using level0_false [OF m, of l] qs(3) that l(2) by (auto dest: in_set_takeD)
    then show ?thesis using l st(2,3) by blast
  qed
  have ok: "learnt_ok S (tl out')" "learnt_ok S (tl out)" using st(1) inv by (auto simp: uip_inv_def)
  show "marks S i sn' \<noteq> {}"
  proof (cases "marks S i sn = {}")
    case True
    then obtain q where "q \<in> set qs" "level S (var q) = decisionLevel S" using qs(5) by blast
    then show ?thesis using open_current [OF S _ _ ok(1)] st(3) D by metis
  next
    case False
    then obtain j where j: "j \<in> marks S i sn" by blast
    then have "neg (trail S ! j) \<in> open_lits S i sn' out'" using st(2) by (auto simp: open_lits_def)
    moreover have "j < length (trail S)" "last (trail_lim S) \<le> j" using j inv by (auto simp: marks_def uip_inv_def)
    then have "level S (var (neg (trail S ! j))) = decisionLevel S"
      using level_current_iff [of S j] analysableD(4,6) [OF S] by simp
    ultimately show ?thesis using open_current [OF S _ _ ok(1)] by blast
  qed
qed

text \<open>The next literal: its mark is removed and its negation takes its place.\<close>

lemma next_seen_inv:
  assumes S: "analysable S" and inv: "uip_inv S i (sn, out, c)" and m: "marks S i sn \<noteq> {}"
  shows "\<exists>k. next_seen S (last (trail_lim S)) i sn c = Some (k, sn) \<and> k < i \<and> k \<in> marks S i sn \<and>
    uip_inv S k (set_seen False (trail S ! k) sn, out, c - 1) \<and>
    open_lits S i sn out = insert (neg (trail S ! k)) (open_lits S k (set_seen False (trail S ! k) sn) out)"
proof -
  note wf = analysableD [OF S]
  have I: "i \<le> length (trail S)" "learnt_ok S (tl out)" "seen_ok S sn (open_lits S i sn out)" "length sn = nVars S"
    "c = int (card (marks S i sn))" "out \<noteq> []"
    using inv by (auto simp: uip_inv_def seen_ok_def)
  define k where "k = select_index S sn (last (trail_lim S)) i"
  have k: "k \<in> marks S i sn" "marks S i sn \<subseteq> insert k (marks S k sn)"
    using select_index_max [OF S I(1) m] by (auto simp: k_def)
  then have kb: "last (trail_lim S) \<le> k" "k < i" "k < length (trail S)" using I(1) by (auto simp: marks_def)
  have lev: "level S (var (trail S ! k)) = decisionLevel S"
    using level_current_iff [OF wf(4) kb(3) wf(6)] kb(1) by simp
  have eq: "next_seen S (last (trail_lim S)) i sn c = Some (k, sn)"
    by (subst next_seen.simps) (use kb lev in \<open>simp add: Let_def k_def [symmetric]\<close>)
  let ?sn = "set_seen False (trail S ! k) sn"
  have mk: "marks S k ?sn = marks S i sn - {k}"
  proof -
    have "marks S k ?sn = marks S k sn - {k}" using marks_mark [OF S I(4) _ kb(3), of k False] kb(3) by simp
    moreover have "marks S k sn \<subseteq> marks S i sn" using kb(2) by (auto simp: marks_def)
    ultimately show ?thesis using k(2) by auto
  qed
  let ?q = "neg (trail S ! k)"
  have nq: "?q \<notin> set (tl out)" using I(2) lev by (auto simp: learnt_ok_def)
  have d: "distinct (trail S)" using wf(2) by (auto simp: wf_trail_def distinct_map)
  have o: "open_lits S k ?sn out = open_lits S i sn out - {?q}"
  proof -
    have "trail S ! j \<noteq> trail S ! k" if "j \<in> marks S i sn" "j \<noteq> k" for j
      using that kb(3) I(1) nth_eq_iff_index_eq [OF d, of j k] by (auto simp: marks_def)
    then have "(\<lambda>j. neg (trail S ! j)) ` (marks S i sn - {k}) = (\<lambda>j. neg (trail S ! j)) ` marks S i sn - {?q}"
      by (auto simp: image_iff)
    then show ?thesis using nq unfolding open_lits_def mk by auto
  qed
  have "?q \<in> open_lits S i sn out" using k(1) by (auto simp: open_lits_def)
  moreover have "seen_ok S ?sn (open_lits S i sn out - {?q})"
    using seen_ok_mark(2) [OF I(3) wf(2), of ?q] kb(3) by simp
  moreover have "int (card (marks S i sn - {k})) = c - 1"
    using k(1) card_gt_0_iff [of "marks S i sn"] by (auto simp: I(5) card_Diff_singleton)
  ultimately show ?thesis
    using eq k(1) kb I o mk by (intro exI [of _ k]) (auto simp: uip_inv_def)
qed

lemma reason_pending:
  assumes S: "analysable S" and inv: "uip_inv S k (sn, out, c)" "c > 0" and k: "k < length (trail S)" "last (trail_lim S) \<le> k"
    and mod: "\<And>\<sigma>. \<sigma> \<in> models S \<Longrightarrow> \<exists>l \<in> insert (neg (trail S ! k)) (open_lits S k sn out). lit_holds \<sigma> l"
  shows "pending_reason S k (reason S (var (trail S ! k))) (trail S ! k) sn out"
proof -
  note wf = analysableD [OF S]
  have m: "marks S k sn \<noteq> {}" using inv by (auto simp: uip_inv_def)
  then have "last (trail_lim S) < k" by (auto simp: marks_def)
  moreover have "n \<le> last (trail_lim S)" if "n \<in> set (trail_lim S)" for n
  proof -
    have srt: "sorted (trail_lim S)" using wf(4) by (simp add: trail_levels_def)
    from that obtain a where "a < length (trail_lim S)" "n = trail_lim S ! a" by (auto simp: in_set_conv_nth)
    then show ?thesis using srt wf(6) by (auto simp: last_conv_nth intro!: sorted_nth_mono)
  qed
  ultimately have nl: "k \<notin> set (trail_lim S)" by force
  have lev: "level S (var (trail S ! k)) = decisionLevel S"
    using level_current_iff [OF wf(4) k(1) wf(6)] k(2) by simp
  then obtain cr where cr: "reason S (var (trail S ! k)) = Some cr" "explains S cr k"
    using wf(5,6) k(1) nl by (auto simp: reasons_ok_def split: option.splits)
  have "in_range S (trail S ! k)" using wf(2) k(1) by (simp add: wf_trail_def)
  then have nu: "trail S ! k \<noteq> lit_Undef" by simp
  have cl: "clause_of S cr = trail S ! k # drop 1 (clause_of S cr)"
    using cr(2) wf(3) by (cases "clause_of S cr") (auto simp: explains_def wf_clauses_def)
  have "\<exists>l \<in> open_lits S k sn out \<union> set (drop 1 (clause_of S cr)). lit_holds \<sigma> l" if "\<sigma> \<in> models S" for \<sigma>
  proof -
    have "\<exists>l \<in> set (trail S ! k # drop 1 (clause_of S cr)). lit_holds \<sigma> l"
      using that cr(2) cl by (simp add: models_def explains_def clause_holds_def)
    then show ?thesis using mod [OF that] by auto
  qed
  moreover have "\<forall>q \<in> set (drop 1 (clause_of S cr)). neg q \<in> set (take k (trail S))"
    using cr(2) by (simp add: explains_def drop_Suc)
  ultimately show ?thesis using cr(1) nu m by (simp add: pending_reason_def Let_def)
qed

lemma analyze_loop_correct:
  assumes S: "analysable S" and "uip_inv S i (sn, out, c)" "pending_reason S i confl p sn out"
  shows "\<exists>p' sn' out'. analyze_loop S (last (trail_lim S)) confl p i (sn, out, c) = Some (p', sn', out') \<and>
    p' \<in> set (trail S) \<and> level S (var p') = decisionLevel S \<and> out' \<noteq> [] \<and> learnt_ok S (tl out') \<and>
    seen_ok S sn' (set (tl out')) \<and> (\<forall>\<sigma> \<in> models S. clause_holds \<sigma> (neg p' # tl out'))"
  using assms(2,3)
proof (induction i arbitrary: confl p sn out c rule: less_induct)
  case (less i)
  note wf = analysableD [OF S]
  obtain sn1 out1 c1 where r: "resolve_clause S confl p (sn, out, c) = (sn1, out1, c1)" by (metis prod_cases3)
  note R = resolve_clause_inv [OF S less.prems r]
  from next_seen_inv [OF S R(1,2)] obtain k where
    k: "next_seen S (last (trail_lim S)) i sn1 c1 = Some (k, sn1)" "k < i" "k \<in> marks S i sn1"
      "uip_inv S k (set_seen False (trail S ! k) sn1, out1, c1 - 1)"
      "open_lits S i sn1 out1 = insert (neg (trail S ! k)) (open_lits S k (set_seen False (trail S ! k) sn1) out1)"
    by blast
  let ?p = "trail S ! k" and ?sn = "set_seen False (trail S ! k) sn1"
  have kb: "k < length (trail S)" "last (trail_lim S) \<le> k" using k(3) R(1) by (auto simp: marks_def uip_inv_def)
  have mod: "\<exists>l \<in> insert (neg ?p) (open_lits S k ?sn out1). lit_holds \<sigma> l" if "\<sigma> \<in> models S" for \<sigma>
    using R(3) [OF that] k(5) by simp
  show ?case
  proof (cases "c1 - 1 > 0")
    case True
    have eq: "analyze_loop S (last (trail_lim S)) confl p i (sn, out, c) =
        analyze_loop S (last (trail_lim S)) (reason S (var ?p)) ?p k (?sn, out1, c1 - 1)"
      by (subst analyze_loop.simps) (use r k(1) True in \<open>simp add: Let_def\<close>)
    show ?thesis
      using less.IH [OF k(2,4) reason_pending [OF S k(4) True kb mod]] by (simp only: eq)
  next
    case False
    have eq: "analyze_loop S (last (trail_lim S)) confl p i (sn, out, c) = Some (?p, ?sn, out1)"
      by (subst analyze_loop.simps) (use r k(1) False in \<open>simp add: Let_def\<close>)
    have "marks S k ?sn = {}" using k(4) False by (simp add: uip_inv_def)
    then have o: "open_lits S k ?sn out1 = set (tl out1)" by (simp add: open_lits_def)
    have "level S (var ?p) = decisionLevel S"
      using level_current_iff [OF wf(4) kb(1) wf(6)] kb(2) by simp
    then show ?thesis
      using k(4) o mod kb(1) eq by (auto simp: uip_inv_def clause_holds_def)
  qed
qed

subsection \<open>Minimisation removes only implied literals\<close>

text \<open>A literal is accounted for if it has a reason whose other literals are marked or false at level 0. In a
  model that falsifies the literals \<open>K\<close>, every marked literal is then false: by induction along the trail.\<close>

definition accounted :: "Solver \<Rightarrow> bool list \<Rightarrow> Lit \<Rightarrow> bool" where
  "accounted S sn q \<longleftrightarrow> (\<exists>cr. reason S (var q) = Some cr \<and>
     (\<forall>r \<in> set (drop 1 (clause_of S cr)). seen_lit sn r \<or> level S (var r) = 0))"

definition redundancy_inv :: "Solver \<Rightarrow> bool list \<Rightarrow> Lit set \<Rightarrow> bool" where
  "redundancy_inv S sn K \<longleftrightarrow> (\<forall>q. neg q \<in> set (trail S) \<longrightarrow> seen_lit sn q \<longrightarrow> q \<in> K \<or> accounted S sn q)"

lemma reason_explains:
  assumes "reasons_ok S" "k < length (trail S)" "reason S (var (trail S ! k)) = Some cr"
  shows "explains S cr k"
  using assms unfolding reasons_ok_def by (metis option.simps(5))

lemma explains_drop:
  assumes "explains S cr k" "wf_clauses S"
  shows "\<forall>q \<in> set (drop 1 (clause_of S cr)). neg q \<in> set (take k (trail S))"
    "\<sigma> \<in> models S \<Longrightarrow> \<forall>q \<in> set (drop 1 (clause_of S cr)). \<not> lit_holds \<sigma> q \<Longrightarrow> lit_holds \<sigma> (trail S ! k)"
proof -
  show "\<forall>q \<in> set (drop 1 (clause_of S cr)). neg q \<in> set (take k (trail S))"
    using assms(1) by (simp add: explains_def drop_Suc)
  have "clause_of S cr = trail S ! k # drop 1 (clause_of S cr)"
    using assms by (cases "clause_of S cr") (auto simp: explains_def wf_clauses_def)
  moreover assume "\<sigma> \<in> models S" "\<forall>q \<in> set (drop 1 (clause_of S cr)). \<not> lit_holds \<sigma> q"
  then have "\<exists>l \<in> set (clause_of S cr). lit_holds \<sigma> l" "\<forall>q \<in> set (drop 1 (clause_of S cr)). \<not> lit_holds \<sigma> q"
    using assms(1) by (auto simp: models_def explains_def clause_holds_def)
  ultimately show "lit_holds \<sigma> (trail S ! k)" by (metis set_ConsD)
qed

lemma redundant_implied:
  assumes S: "analysable S" and inv: "redundancy_inv S sn K" and m: "\<sigma> \<in> models S" "\<forall>q \<in> K. \<not> lit_holds \<sigma> q"
    and "k < length (trail S)" "seen_lit sn (trail S ! k)"
  shows "lit_holds \<sigma> (trail S ! k)"
  using assms(5-)
proof (induction k rule: less_induct)
  case (less k)
  note wf = analysableD [OF S]
  let ?q = "neg (trail S ! k)"
  have "?q \<in> K \<or> accounted S sn ?q" using inv less.prems by (simp add: redundancy_inv_def)
  then show ?case
  proof
    assume "?q \<in> K"
    then show ?thesis using m(2) by force
  next
    assume "accounted S sn ?q"
    then obtain cr where cr: "reason S (var (trail S ! k)) = Some cr"
      "\<forall>r \<in> set (drop 1 (clause_of S cr)). seen_lit sn r \<or> level S (var r) = 0"
      by (auto simp: accounted_def)
    note ex = reason_explains [OF wf(5) less.prems(1) cr(1)]
    have "\<not> lit_holds \<sigma> r" if r: "r \<in> set (drop 1 (clause_of S cr))" for r
    proof -
      have nr: "neg r \<in> set (take k (trail S))" using explains_drop(1) [OF ex wf(3)] r by blast
      obtain j where j: "j < k" "j < length (trail S)" "r = neg (trail S ! j)" using clause_trail_nth [OF nr] .
      show ?thesis
      proof (cases "level S (var r) = 0")
        case True
        then show ?thesis using level0_false [OF m(1), of r] j by simp
      next
        case False
        then have "seen_lit sn (trail S ! j)" using cr(2) r j(3) by auto
        then show ?thesis using less.IH [OF j(1,2)] j(3) by simp
      qed
    qed
    then show ?thesis using explains_drop(2) [OF ex wf(3) m(1)] by blast
  qed
qed

text \<open>Setting a list of marks, and what remains of them.\<close>

lemma length_mark_all [simp]: "length (mark_all b ls sn) = length sn"
  unfolding mark_all_def by (induction ls arbitrary: sn) auto

lemma nth_mark_all:
  "x < length sn \<Longrightarrow> mark_all b ls sn ! x = (if x \<in> nat ` var ` set ls then b else sn ! x)"
  unfolding mark_all_def by (induction ls arbitrary: sn) (auto simp: nth_list_update)

lemma mark_all_append: "mark_all b (ls @ ms) sn = mark_all b ms (mark_all b ls sn)"
  by (simp add: mark_all_def)

lemma mark_all_undo:
  assumes "\<forall>l \<in> set ls. \<not> seen_lit sn l \<and> nat (var l) < length sn"
  shows "mark_all False ls (mark_all True ls sn) = sn"
  using assms by (intro nth_equalityI) (auto simp: nth_mark_all)

lemma seen_mono: "sn ! x \<Longrightarrow> sn[y := True] ! x"
  by (cases "y < length sn") (auto simp: nth_list_update list_update_beyond)

lemma accounted_mono: "accounted S sn q \<Longrightarrow> (\<And>x. sn ! x \<Longrightarrow> sn' ! x) \<Longrightarrow> accounted S sn' q"
  by (fastforce simp: accounted_def)

text \<open>The loop of \<open>litRedundant\<close> for \<open>l\<close>: \<open>ms\<close> are the literals marked since it began, \<open>X\<close> the literal whose
  reason is being visited.\<close>

definition stack_inv ::
  "Solver \<Rightarrow> bool list \<Rightarrow> Lit \<Rightarrow> Lit set \<Rightarrow> Lit list \<Rightarrow> bool list \<Rightarrow> Lit list \<Rightarrow> bool" where
  "stack_inv S sn0 l X stack sn ms \<longleftrightarrow> sn = mark_all True ms sn0 \<and> distinct ms \<and>
     (\<forall>q \<in> set ms. neg q \<in> set (trail S) \<and> \<not> seen_lit sn0 q) \<and>
     (\<forall>q \<in> set stack. neg q \<in> set (trail S) \<and> reason S (var q) \<noteq> None) \<and>
     (\<forall>q \<in> insert l (set ms). q \<in> set stack \<or> q \<in> X \<or> accounted S sn q)"

definition stack_measure :: "Solver \<Rightarrow> Lit list \<Rightarrow> Lit list \<Rightarrow> nat" where
  "stack_measure S stack ms = 2 * (length (trail S) - length ms) + length stack"

lemma marked_le_trail:
  assumes "distinct ms" "\<forall>q \<in> set ms. neg q \<in> set (trail S)"
  shows "length ms \<le> length (trail S)"
proof -
  have "length ms = card (neg ` set ms)"
    using assms(1) by (simp add: card_image distinct_card inj_on_def)
  also have "\<dots> \<le> card (set (trail S))" using assms(2) by (intro card_mono) auto
  also have "\<dots> \<le> length (trail S)" by (rule card_length)
  finally show ?thesis .
qed

lemma stack_inv_push:
  assumes S: "analysable S" and len: "length sn0 = nVars S" and inv: "stack_inv S sn0 l X stack sn ms"
    and p: "neg p \<in> set (trail S)" "\<not> seen_lit sn p" "reason S (var p) \<noteq> None"
  shows "stack_inv S sn0 l X (stack @ [p]) (set_seen True p sn) (ms @ [p])"
    "stack_measure S (stack @ [p]) (ms @ [p]) \<le> stack_measure S stack ms"
proof -
  note wf = analysableD [OF S]
  have I: "sn = mark_all True ms sn0" "distinct ms" "\<forall>q \<in> set ms. neg q \<in> set (trail S) \<and> \<not> seen_lit sn0 q"
    using inv by (auto simp: stack_inv_def)
  have idx: "nat (var p) < length sn0" using trail_index [OF wf(2) p(1)] len by simp
  have new: "p \<notin> set ms" "\<not> seen_lit sn0 p"
    using p(2) idx unfolding I(1) by (auto simp: nth_mark_all split: if_splits)
  have sn': "set_seen True p sn = mark_all True (ms @ [p]) sn0" by (simp add: I(1) mark_all_def)
  have acc: "accounted S (set_seen True p sn) q" if "accounted S sn q" for q
    using that seen_mono by (rule accounted_mono)
  then show "stack_inv S sn0 l X (stack @ [p]) (set_seen True p sn) (ms @ [p])"
    using inv new p sn' unfolding stack_inv_def by auto
  have "length (ms @ [p]) \<le> length (trail S)"
    using I(2,3) new p(1) by (intro marked_le_trail) auto
  then show "stack_measure S (stack @ [p]) (ms @ [p]) \<le> stack_measure S stack ms"
    by (simp add: stack_measure_def)
qed

lemma expand_reason_inv:
  assumes S: "analysable S" and len: "length sn0 = nVars S" and "stack_inv S sn0 l X stack sn ms"
    "\<forall>r \<in> set ps. neg r \<in> set (trail S)" "expand_reason S al ps (stack, sn, tc @ ms) = (b, stack', sn', tc')"
  shows "\<exists>ms'. tc' = tc @ ms' \<and> stack_inv S sn0 l X stack' sn' ms' \<and>
    stack_measure S stack' ms' \<le> stack_measure S stack ms \<and>
    (b \<longrightarrow> (\<forall>r \<in> set ps. seen_lit sn' r \<or> level S (var r) = 0)) \<and> (\<forall>x. sn ! x \<longrightarrow> sn' ! x)"
  using assms(3-)
proof (induction ps arbitrary: stack sn ms)
  case Nil
  then show ?case by auto
next
  case (Cons p ps)
  have np: "neg p \<in> set (trail S)" "\<forall>r \<in> set ps. neg r \<in> set (trail S)" using Cons.prems(2) by auto
  consider (skip) "seen_lit sn p \<or> level S (var p) = 0"
    | (push) "\<not> seen_lit sn p" "level S (var p) > 0" "reason S (var p) \<noteq> None \<and> (abstractLevel S (var p) AND al) \<noteq> 0"
    | (fail) "\<not> seen_lit sn p" "level S (var p) > 0" "\<not> (reason S (var p) \<noteq> None \<and> (abstractLevel S (var p) AND al) \<noteq> 0)"
    by blast
  then show ?case
  proof cases
    case skip
    then have e: "expand_reason S al ps (stack, sn, tc @ ms) = (b, stack', sn', tc')" using Cons.prems(3) by auto
    from Cons.IH [OF Cons.prems(1) np(2) e] show ?thesis using skip by auto
  next
    case push
    then have e: "expand_reason S al ps (stack @ [p], set_seen True p sn, tc @ (ms @ [p])) = (b, stack', sn', tc')"
      using Cons.prems(3) by simp
    note st = stack_inv_push [OF S len Cons.prems(1) np(1) push(1)]
    have "seen_lit (set_seen True p sn) p"
      using trail_index [OF analysableD(2) [OF S] np(1)] Cons.prems(1) len by (simp add: stack_inv_def)
    then show ?thesis
      using Cons.IH [OF st(1) np(2) e] push(3) st(2) seen_mono [of sn _ "nat (var p)"] by fastforce
  next
    case fail
    then show ?thesis using Cons.prems by auto
  qed
qed

lemma redundant_loop_correct:
  assumes S: "analysable S" and len: "length sn0 = nVars S" and "stack_inv S sn0 l {} stack sn ms"
  shows "\<exists>b sn' tc'. redundant_loop S al (length tc) (stack, sn, tc @ ms) = Some (b, sn', tc') \<and>
    (\<not> b \<longrightarrow> sn' = sn0 \<and> tc' = tc) \<and>
    (b \<longrightarrow> (\<exists>ms. tc' = tc @ ms \<and> sn' = mark_all True ms sn0 \<and> (\<forall>q \<in> set ms. neg q \<in> set (trail S)) \<and>
       (\<forall>q \<in> insert l (set ms). accounted S sn' q)))"
  using assms(3)
proof (induction "stack_measure S stack ms" arbitrary: stack sn ms rule: less_induct)
  case less
  note wf = analysableD [OF S]
  have undo: "undo_marks (length tc) sn1 (tc @ ms1) = (sn0, tc)" if "stack_inv S sn0 l X st1 sn1 ms1" for X st1 sn1 ms1
  proof -
    have "\<forall>q \<in> set ms1. \<not> seen_lit sn0 q \<and> nat (var q) < length sn0" "sn1 = mark_all True ms1 sn0"
      using that len trail_index [OF wf(2)] by (auto simp: stack_inv_def)
    then show ?thesis by (simp add: undo_marks_def mark_all_undo)
  qed
  show ?case
  proof (cases "stack = []")
    case True
    have "redundant_loop S al (length tc) (stack, sn, tc @ ms) = Some (True, sn, tc @ ms)"
      by (subst redundant_loop.simps) (simp add: True)
    then show ?thesis using less.prems True by (auto simp: stack_inv_def)
  next
    case False
    let ?p = "last stack"
    have p: "neg ?p \<in> set (trail S)" "reason S (var ?p) \<noteq> None" using False less.prems by (auto simp: stack_inv_def)
    then obtain cr where cr: "reason S (var ?p) = Some cr" by blast
    obtain k where k: "k < length (trail S)" "trail S ! k = neg ?p" using p(1) by (auto simp: in_set_conv_nth)
    have "explains S cr k" using reason_explains [OF wf(5) k(1)] cr k(2) by simp
    then have rs: "\<forall>r \<in> set (drop 1 (clause_of S cr)). neg r \<in> set (trail S)"
      using explains_drop(1) [OF _ wf(3)] by (blast dest: in_set_takeD)
    obtain b stack' sn' tc' where e:
      "expand_reason S al (drop 1 (clause_of S cr)) (butlast stack, sn, tc @ ms) = (b, stack', sn', tc')"
      by (metis prod_cases4)
    have "set stack \<subseteq> insert ?p (set (butlast stack))"
      using False append_butlast_last_id [of stack] set_append [of "butlast stack" "[?p]"] by auto
    then have inv: "stack_inv S sn0 l {?p} (butlast stack) sn ms"
      using less.prems in_set_butlastD [of _ stack] unfolding stack_inv_def by blast
    from expand_reason_inv [OF S len inv rs e] obtain ms' where ms':
      "tc' = tc @ ms'" "stack_inv S sn0 l {?p} stack' sn' ms'"
      "stack_measure S stack' ms' \<le> stack_measure S (butlast stack) ms"
      "b \<longrightarrow> (\<forall>r \<in> set (drop 1 (clause_of S cr)). seen_lit sn' r \<or> level S (var r) = 0)" "\<forall>x. sn ! x \<longrightarrow> sn' ! x"
      by blast
    show ?thesis
    proof (cases b)
      case True
      have eq: "redundant_loop S al (length tc) (stack, sn, tc @ ms) = redundant_loop S al (length tc) (stack', sn', tc @ ms')"
        by (subst redundant_loop.simps) (use False cr e True ms'(1) in \<open>simp add: Let_def\<close>)
      have "accounted S sn' ?p" using ms'(4) True cr by (auto simp: accounted_def)
      then have inv': "stack_inv S sn0 l {} stack' sn' ms'" using ms'(2) by (auto simp: stack_inv_def)
      have "stack_measure S stack' ms' < stack_measure S stack ms"
        using ms'(3) False by (simp add: stack_measure_def) (metis Suc_pred diff_Suc_1 length_greater_0_conv le_imp_less_Suc add_Suc_right)
      from less.hyps [OF this inv'] show ?thesis unfolding eq by blast
    next
      case nb: False
      have "redundant_loop S al (length tc) (stack, sn, tc @ ms) = Some (False, undo_marks (length tc) sn' tc')"
        by (subst redundant_loop.simps) (use False cr e nb in \<open>simp add: Let_def\<close>)
      then show ?thesis
        using undo [OF ms'(2)] ms'(1) by (intro exI [of _ False] exI [of _ sn0] exI [of _ tc]) simp
    qed
  qed
qed

lemma litRedundant_correct:
  assumes S: "analysable S" and len: "length sn = nVars S" and l: "neg l \<in> set (trail S)" "reason S (var l) \<noteq> None"
    and inv: "redundancy_inv S sn (insert l K)"
  shows "\<exists>b sn' ms. litRedundant S l al sn tc = Some (b, sn', tc @ ms) \<and> sn' = mark_all True ms sn \<and>
    (\<forall>q \<in> set ms. neg q \<in> set (trail S)) \<and> redundancy_inv S sn' (if b then K else insert l K)"
proof -
  have "stack_inv S sn l {} [l] sn []" using l by (simp add: stack_inv_def mark_all_def)
  from redundant_loop_correct [OF S len this, of al tc] obtain b sn' tc' where
    r: "litRedundant S l al sn tc = Some (b, sn', tc')" "\<not> b \<longrightarrow> sn' = sn \<and> tc' = tc"
      "b \<longrightarrow> (\<exists>ms. tc' = tc @ ms \<and> sn' = mark_all True ms sn \<and> (\<forall>q \<in> set ms. neg q \<in> set (trail S)) \<and>
         (\<forall>q \<in> insert l (set ms). accounted S sn' q))"
    by (auto simp: litRedundant_def)
  show ?thesis
  proof (cases b)
    case True
    then obtain ms where ms: "tc' = tc @ ms" "sn' = mark_all True ms sn" "\<forall>q \<in> set ms. neg q \<in> set (trail S)"
      "\<forall>q \<in> insert l (set ms). accounted S sn' q" using r(3) by blast
    have "q \<in> K \<or> accounted S sn' q" if q: "neg q \<in> set (trail S)" "seen_lit sn' q" for q
    proof (cases "seen_lit sn q")
      case True
      have "accounted S sn' q" if "accounted S sn q"
        using that unfolding ms(2) mark_all_def
        by (rule accounted_mono) (induction ms arbitrary: sn; simp add: seen_mono)
      then show ?thesis using inv q(1) True ms(4) unfolding redundancy_inv_def by blast
    next
      case False
      then have "nat (var q) \<in> nat ` var ` set ms"
        using q(2) trail_index [OF analysableD(2) [OF S] q(1)] len ms(2) by (simp add: nth_mark_all split: if_splits)
      then obtain m where "m \<in> set ms" "nat (var q) = nat (var m)" by auto
      then have "q \<in> set ms" using trail_index_eq [OF analysableD(2) [OF S] q(1), of m] ms(3) by simp
      then show ?thesis using ms(4) by blast
    qed
    then show ?thesis using r(1) ms True by (auto simp: redundancy_inv_def)
  next
    case False
    then show ?thesis using r inv by (auto simp: mark_all_def intro!: exI [of _ "[]"])
  qed
qed

lemma minimise_deep_correct:
  assumes S: "analysable S" and "length sn = nVars S" "\<forall>l \<in> set ls. neg l \<in> set (trail S)" "distinct ls"
    "redundancy_inv S sn (K \<union> set ls)"
  shows "\<exists>ks sn' ms. minimise_deep S al ls sn tc = Some (ks, sn', tc @ ms) \<and> set ks \<subseteq> set ls \<and> distinct ks \<and>
    sn' = mark_all True ms sn \<and> redundancy_inv S sn' (K \<union> set ks)"
  using assms(2-)
proof (induction ls arbitrary: sn tc K)
  case Nil
  then show ?case by (auto simp: mark_all_def intro!: exI [of _ "[]"])
next
  case (Cons l ls)
  have l: "neg l \<in> set (trail S)" "\<forall>l \<in> set ls. neg l \<in> set (trail S)" "l \<notin> set ls" "distinct ls"
    using Cons.prems by auto
  show ?case
  proof (cases "reason S (var l) = None")
    case True
    have "redundancy_inv S sn (insert l K \<union> set ls)" using Cons.prems(4) by simp
    from Cons.IH [OF Cons.prems(1) l(2,4) this, of tc] obtain ks sn' ms where
      "minimise_deep S al ls sn tc = Some (ks, sn', tc @ ms)" "set ks \<subseteq> set ls" "distinct ks"
      "sn' = mark_all True ms sn" "redundancy_inv S sn' (insert l K \<union> set ks)" by blast
    then show ?thesis using True l(3) by (intro exI [of _ "l # ks"] exI [of _ sn'] exI [of _ ms]) auto
  next
    case False
    have "redundancy_inv S sn (insert l (K \<union> set ls))" using Cons.prems(4) by simp
    from litRedundant_correct [OF S Cons.prems(1) l(1) False this, of al tc] obtain b sn1 ms1 where
      r: "litRedundant S l al sn tc = Some (b, sn1, tc @ ms1)" "sn1 = mark_all True ms1 sn"
        "redundancy_inv S sn1 (if b then K \<union> set ls else insert l (K \<union> set ls))" by blast
    let ?K = "if b then K else insert l K"
    have "redundancy_inv S sn1 (?K \<union> set ls)" "length sn1 = nVars S" using r(2,3) Cons.prems(1) by (simp_all split: if_splits)
    from Cons.IH [OF this(2) l(2,4) this(1), of "tc @ ms1"] obtain ks sn' ms where
      IH: "minimise_deep S al ls sn1 (tc @ ms1) = Some (ks, sn', (tc @ ms1) @ ms)" "set ks \<subseteq> set ls" "distinct ks"
        "sn' = mark_all True ms sn1" "redundancy_inv S sn' (?K \<union> set ks)" by blast
    have "minimise_deep S al (l # ls) sn tc = Some (if b then ks else l # ks, sn', tc @ (ms1 @ ms))"
      using r(1) IH(1) False by auto
    then show ?thesis
      using IH(2-5) r(2) l(3)
      by (intro exI [of _ "if b then ks else l # ks"] exI [of _ sn'] exI [of _ "ms1 @ ms"])
        (auto simp: mark_all_append split: if_splits)
  qed
qed

lemma minimise_local_inv:
  assumes "redundancy_inv S sn (set ls)"
  shows "redundancy_inv S sn (set (minimise_local S ls sn))"
  unfolding redundancy_inv_def
proof (intro allI impI)
  fix q assume q: "neg q \<in> set (trail S)" "seen_lit sn q"
  show "q \<in> set (minimise_local S ls sn) \<or> accounted S sn q"
  proof (cases "q \<in> set ls \<and> q \<notin> set (minimise_local S ls sn)")
    case True
    then show ?thesis
      by (auto simp: minimise_local_def accounted_def list_ex_iff split: option.splits)
  next
    case False
    then show ?thesis using assms q by (auto simp: redundancy_inv_def)
  qed
qed

lemma minimised_holds:
  assumes S: "analysable S" and rest: "learnt_ok S rest" "seen_ok S sn (set rest)"
    and sn': "\<And>x. sn ! x \<Longrightarrow> sn' ! x" "redundancy_inv S sn' (set ks)"
    and m: "\<sigma> \<in> models S" "clause_holds \<sigma> (p # rest)"
  shows "clause_holds \<sigma> (p # ks)"
proof (rule ccontr)
  assume neg: "\<not> clause_holds \<sigma> (p # ks)"
  then obtain q where q: "q \<in> set rest" "lit_holds \<sigma> q" using m(2) by (auto simp: clause_holds_def)
  then have "neg q \<in> set (trail S)" "seen_lit sn' q" using rest(2) sn'(1) by (auto simp: seen_ok_def)
  then obtain k where k: "k < length (trail S)" "trail S ! k = neg q" "seen_lit sn' (trail S ! k)"
    by (metis in_set_conv_nth var_neg)
  have "\<forall>q \<in> set ks. \<not> lit_holds \<sigma> q" using neg by (simp add: clause_holds_def)
  then have "lit_holds \<sigma> (neg q)" using redundant_implied [OF S sn'(2) m(1) _ k(1,3)] k(2) by simp
  then show False using q(2) by simp
qed

lemma mark_all_mono: "sn ! x \<Longrightarrow> mark_all True ms sn ! x"
  unfolding mark_all_def by (induction ms arbitrary: sn) (auto simp: seen_mono)

lemma minimise_correct:
  assumes S: "analysable S" and rest: "learnt_ok S rest" "seen_ok S sn (set rest)"
  shows "\<exists>ks sn' ms. minimise mode S (p # rest) sn = Some (p # ks, sn', p # rest @ ms) \<and> set ks \<subseteq> set rest \<and>
    distinct ks \<and> sn' = mark_all True ms sn \<and> (\<forall>\<sigma> \<in> models S. clause_holds \<sigma> (p # rest) \<longrightarrow> clause_holds \<sigma> (p # ks))"
proof -
  have len: "length sn = nVars S" and nt: "\<forall>l \<in> set rest. neg l \<in> set (trail S)" and d: "distinct rest"
    using rest by (auto simp: seen_ok_def learnt_ok_def)
  have inv: "redundancy_inv S sn (set rest)"
    using seen_ok_mem [OF rest(2) analysableD(2) [OF S]] by (auto simp: redundancy_inv_def)
  note holds = minimised_holds [OF S rest]
  consider "mode = 2" | "mode = 1" | "mode \<noteq> 1" "mode \<noteq> 2" by blast
  then show ?thesis
  proof cases
    case 1
    let ?al = "foldl (\<lambda>a l. a OR abstractLevel S (var l)) 0 rest"
    from minimise_deep_correct [OF S len nt d, of "{}" ?al "p # rest"] inv obtain ks sn' ms where
      "minimise_deep S ?al rest sn (p # rest) = Some (ks, sn', p # rest @ ms)" "set ks \<subseteq> set rest" "distinct ks"
      "sn' = mark_all True ms sn" "redundancy_inv S sn' (set ks)" by auto
    then show ?thesis using 1 holds [of sn' ks _ p] mark_all_mono by (auto simp: minimise_def)
  next
    case 2
    then show ?thesis
      using holds [OF _ minimise_local_inv [OF inv], of _ p] d
      by (auto simp: minimise_def mark_all_def minimise_local_def intro!: exI [of _ "[]"])
  next
    case 3
    then show ?thesis using d by (auto simp: minimise_def mark_all_def intro!: exI [of _ "[]"])
  qed
qed

subsection \<open>Backtrack level\<close>

lemma max_level_index:
  assumes "2 \<le> length out"
  shows "1 \<le> max_level_index S out \<and> max_level_index S out < length out \<and>
    (\<forall>i. 1 \<le> i \<and> i < length out \<longrightarrow> level S (var (out ! i)) \<le> level S (var (out ! max_level_index S out)))"
proof -
  let ?f = "\<lambda>m i. if level S (var (out ! i)) > level S (var (out ! m)) then i else m"
  have "1 \<le> foldl ?f 1 [2..<n] \<and> foldl ?f 1 [2..<n] < n \<and>
    (\<forall>i. 1 \<le> i \<and> i < n \<longrightarrow> level S (var (out ! i)) \<le> level S (var (out ! foldl ?f 1 [2..<n])))" if "2 \<le> n" for n
    using that
  proof (induction n rule: dec_induct)
    case base
    then show ?case by (auto simp: less_Suc_eq numeral_2_eq_2)
  next
    case (step n)
    then show ?case by (auto simp: less_Suc_eq)
  qed
  from this [OF assms] show ?thesis by (simp add: max_level_index_def)
qed

lemma asserting_level_correct:
  assumes ok: "learnt_ok S ks" and r: "asserting_level S (p # ks) = (lc, bt)"
    and D: "0 < decisionLevel S"
  shows "lc ! 0 = p" "lc \<noteq> []" "set (tl lc) = set ks" "distinct ks \<Longrightarrow> distinct (tl lc)" "length lc = length (p # ks)"
    "bt < decisionLevel S" "\<forall>l \<in> set (tl lc). level S (var l) \<le> bt" "ks = [] \<Longrightarrow> bt = 0"
    "ks \<noteq> [] \<Longrightarrow> level S (var (lc ! 1)) = bt"
proof -
  have "lc ! 0 = p \<and> lc \<noteq> [] \<and> set (tl lc) = set ks \<and> (distinct ks \<longrightarrow> distinct (tl lc)) \<and> length lc = length (p # ks) \<and>
    bt < decisionLevel S \<and> (\<forall>l \<in> set (tl lc). level S (var l) \<le> bt) \<and> (ks = [] \<longrightarrow> bt = 0) \<and>
    (ks \<noteq> [] \<longrightarrow> level S (var (lc ! 1)) = bt)"
  proof (cases "ks = []")
    case True
    then show ?thesis using r D by (auto simp: asserting_level_def)
  next
    case False
    then have "2 \<le> length (p # ks)" by (cases ks) auto
    define m where "m = max_level_index S (p # ks)"
    have m: "1 \<le> m" "m < length (p # ks)" "\<And>i. 1 \<le> i \<Longrightarrow> i < length (p # ks) \<Longrightarrow>
        level S (var ((p # ks) ! i)) \<le> level S (var ((p # ks) ! m))"
      using max_level_index [OF \<open>2 \<le> _\<close>, of S] by (auto simp: m_def)
    have l: "lc = p # swap_at (m - 1) 0 ks" "bt = level S (var (ks ! (m - 1)))"
      using r False m(1) by (cases m; simp add: asserting_level_def Let_def m_def [symmetric] swap_at_def)+
    have idx: "m - 1 < length ks" "0 < length ks" using m(1,2) False by auto
    have "level S (var q) \<le> bt" if q: "q \<in> set ks" for q
    proof -
      obtain i where "i < length ks" "q = ks ! i" using q by (metis in_set_conv_nth)
      then show ?thesis using m(3) [of "Suc i"] m(1) l(2) by (simp add: nth_Cons')
    qed
    moreover have "ks ! (m - 1) \<in> set ks" using idx by simp
    then have "bt < decisionLevel S" using ok l(2) by (auto simp: learnt_ok_def)
    moreover have "distinct (swap_at (m - 1) 0 ks) = distinct ks"
      using mset_eq_imp_distinct_iff [OF mset_swap_at [OF idx]] .
    ultimately show ?thesis using l idx False by (simp add: nth_swap_at)
  qed
  then show "lc ! 0 = p" "lc \<noteq> []" "set (tl lc) = set ks" "distinct ks \<Longrightarrow> distinct (tl lc)" "length lc = length (p # ks)"
    "bt < decisionLevel S" "\<forall>l \<in> set (tl lc). level S (var l) \<le> bt" "ks = [] \<Longrightarrow> bt = 0"
    "ks \<noteq> [] \<Longrightarrow> level S (var (lc ! 1)) = bt" by auto
qed

subsection \<open>The learnt clause\<close>

definition learnt_clause_ok :: "Solver \<Rightarrow> Lit list \<Rightarrow> nat \<Rightarrow> bool" where
  "learnt_clause_ok S lc bt \<longleftrightarrow> lc \<noteq> [] \<and> distinct lc \<and> (\<forall>l \<in> set lc. neg l \<in> set (trail S)) \<and>
     level S (var (lc ! 0)) = decisionLevel S \<and> bt < decisionLevel S \<and>
     (\<forall>l \<in> set (tl lc). 0 < level S (var l) \<and> level S (var l) \<le> bt) \<and>
     (if length lc = 1 then bt = 0 else level S (var (lc ! 1)) = bt) \<and>
     (\<forall>\<sigma> \<in> models S. clause_holds \<sigma> lc)"

lemma marks_cleared:
  assumes "seen_ok S sn (set rest)"
  shows "mark_all False (p # rest @ ms) (mark_all True ms sn) = replicate (nVars S) False"
proof (rule nth_equalityI)
  have len: "length sn = nVars S" and sn: "\<And>x. x < nVars S \<Longrightarrow> sn ! x \<Longrightarrow> int x \<in> var ` set rest"
    using assms by (auto simp: seen_ok_def)
  show "length (mark_all False (p # rest @ ms) (mark_all True ms sn)) = length (replicate (nVars S) False)"
    using len by simp
  fix x assume "x < length (mark_all False (p # rest @ ms) (mark_all True ms sn))"
  then have x: "x < nVars S" using len by simp
  have "x \<in> nat ` var ` set rest" if "sn ! x" using sn [OF x that] by (metis image_eqI nat_int)
  then show "mark_all False (p # rest @ ms) (mark_all True ms sn) ! x = replicate (nVars S) False ! x"
    using x len by (auto simp: nth_mark_all)
qed

lemma max_fold:
  fixes f :: "'a \<Rightarrow> nat"
  shows "a \<le> foldl (\<lambda>m l. if f l > m then f l else m) a ls \<and>
    (\<forall>l \<in> set ls. f l \<le> foldl (\<lambda>m l. if f l > m then f l else m) a ls) \<and>
    (foldl (\<lambda>m l. if f l > m then f l else m) a ls = a \<or> (\<exists>l \<in> set ls. foldl (\<lambda>m l. if f l > m then f l else m) a ls = f l))"
proof (induction ls arbitrary: a)
  case (Cons l ls)
  show ?case using Cons [of "if f l > a then f l else a"] by (auto split: if_splits)
qed simp

lemma analyze_current:
  assumes S: "analysable S" and c: "current_conflict S cr"
  shows "\<exists>p sn out. analyze_loop S (last (trail_lim S)) (Some cr) lit_Undef (length (trail S))
      (replicate (nVars S) False, [lit_Undef], 0) = Some (p, sn, out) \<and>
    p \<in> set (trail S) \<and> level S (var p) = decisionLevel S \<and> out \<noteq> [] \<and> learnt_ok S (tl out) \<and>
    seen_ok S sn (set (tl out)) \<and> (\<forall>\<sigma> \<in> models S. clause_holds \<sigma> (neg p # tl out))"
proof (rule analyze_loop_correct [OF S])
  note wf = analysableD [OF S]
  let ?sn = "replicate (nVars S) False"
  have "\<not> seen_lit ?sn (trail S ! j)" if "j < length (trail S)" for j
    using trail_index [OF wf(2), of "neg (trail S ! j)"] that by simp
  then have mk: "marks S (length (trail S)) ?sn = {}" by (auto simp: marks_def)
  then show "uip_inv S (length (trail S)) (?sn, [lit_Undef], 0)"
    by (simp add: uip_inv_def learnt_ok_def seen_ok_def open_lits_def)
  have "clause_holds \<sigma> (clause_of S cr)" if "\<sigma> \<in> models S" for \<sigma>
    using that c by (auto simp: models_def current_conflict_def falsified_def)
  then show "pending_reason S (length (trail S)) (Some cr) lit_Undef ?sn [lit_Undef]"
    using c by (auto simp: pending_reason_def current_conflict_def falsified_def clause_holds_def)
qed

lemma backtrack_conflict:
  assumes wf: "wf_trail S" and inv: "cdcl_inv S" and f: "falsified S cr" and m: "\<forall>l \<in> set (clause_of S cr). level S (var l) \<le> lev"
    "l \<in> set (clause_of S cr)" "level S (var l) = lev"
  shows "current_conflict (cancelUntil lev S) cr" "decisionLevel (cancelUntil lev S) = lev"
proof -
  have lv: "trail_levels S" using inv by (simp add: cdcl_inv_def)
  have "neg l \<in> set (trail S)" using f m(2) by (simp add: falsified_def)
  then have le: "lev \<le> decisionLevel S" using level_le [OF lv, of "neg l"] m(3) by simp
  have "neg q \<in> set (trail (cancelUntil lev S))" if "q \<in> set (clause_of S cr)" for q
  proof (cases "lev < decisionLevel S")
    case True
    then show ?thesis
      using that f m(1) take_le_level [OF lv, of "neg q" lev] cancelUntil_cut(1) [OF lv wf True]
      by (simp add: falsified_def)
  next
    case False
    then show ?thesis using that f by (simp add: falsified_def)
  qed
  moreover show "decisionLevel (cancelUntil lev S) = lev"
    using le cancelUntil_cut(3) [OF lv wf] by (cases "lev < decisionLevel S") auto
  ultimately show "current_conflict (cancelUntil lev S) cr"
    using f m(2,3) by (auto simp: current_conflict_def falsified_def)
qed

lemma analyze_correct:
  assumes S: "wf_solver S" "cdcl_inv S" "falsified S cr" and pos: "\<exists>l \<in> set (clause_of S cr). 0 < level S (var l)"
  shows "\<exists>lc bt lev. analyze mode cr (replicate (nVars S) False) S =
      Some (lc, bt, replicate (nVars S) False, cancelUntil lev S) \<and> 0 < lev \<and> current_conflict (cancelUntil lev S) cr \<and>
    decisionLevel (cancelUntil lev S) = lev \<and> analysable (cancelUntil lev S) \<and>
    learnt_clause_ok (cancelUntil lev S) lc bt"
proof -
  define lev where "lev = foldl (\<lambda>m l. if level S (var l) > m then level S (var l) else m) 0 (clause_of S cr)"
  define T where "T = cancelUntil lev S"
  have wf: "wf_base S" "wf_vars S" "wf_trail S" "wf_clauses S" using S(1) by (auto simp: wf_solver_base wf_base_def wf_core_def)
  have lv: "trail_levels S" using S(2) by (simp add: cdcl_inv_def)
  have m: "\<forall>l \<in> set (clause_of S cr). level S (var l) \<le> lev" "0 < lev" "\<exists>l \<in> set (clause_of S cr). level S (var l) = lev"
    using max_fold [of 0 "\<lambda>l. level S (var l)" "clause_of S cr"] pos unfolding lev_def by force+
  then obtain l where l: "l \<in> set (clause_of S cr)" "level S (var l) = lev" by blast
  note T = backtrack_conflict [OF wf(3) S(2,3) m(1) l, folded T_def]
  have invT: "cdcl_inv T"
    using S(2) backtrack_search(1) [OF wf(3) S(2)] by (cases "lev < decisionLevel S") (simp_all add: T_def)
  have "trail_lim T \<noteq> []" using T(2) m(2) by auto
  moreover have "wf_vars T" "wf_trail T" "wf_clauses T"
    using backtrack_wf(1) [OF wf(1) lv, of lev] by (simp_all add: T_def wf_base_def wf_core_def)
  ultimately have an: "analysable T" using invT by (simp add: analysable_def cdcl_inv_def)
  have nV: "nVars T = nVars S" by (simp add: T_def)
  from analyze_current [OF an T(1)] obtain p sn out where
    A: "analyze_loop T (last (trail_lim T)) (Some cr) lit_Undef (length (trail T)) (replicate (nVars S) False, [lit_Undef], 0)
        = Some (p, sn, out)" "p \<in> set (trail T)" "level T (var p) = decisionLevel T" "out \<noteq> []" "learnt_ok T (tl out)"
      "seen_ok T sn (set (tl out))" "\<forall>\<sigma> \<in> models T. clause_holds \<sigma> (neg p # tl out)"
    unfolding nV by blast
  have out: "out[0 := neg p] = neg p # tl out" using A(4) by (cases out) auto
  from minimise_correct [OF an A(5,6), of mode "neg p"] obtain ks sn' ms where
    M: "minimise mode T (neg p # tl out) sn = Some (neg p # ks, sn', neg p # tl out @ ms)" "set ks \<subseteq> set (tl out)"
      "distinct ks" "sn' = mark_all True ms sn"
      "\<forall>\<sigma> \<in> models T. clause_holds \<sigma> (neg p # tl out) \<longrightarrow> clause_holds \<sigma> (neg p # ks)"
    by blast
  obtain lc bt where B: "asserting_level T (neg p # ks) = (lc, bt)" by fastforce
  have ks: "learnt_ok T ks" using A(5) M(2,3) by (auto simp: learnt_ok_def)
  note b = asserting_level_correct [OF ks B]
  have D: "0 < decisionLevel T" using T(2) m(2) by simp
  have lc: "lc = neg p # tl lc" using b(1,2) [OF D] by (cases lc) auto
  have set_lc: "set lc = set (neg p # ks)" using lc b(3) [OF D] by (metis list.simps(15))
  have np: "neg p \<notin> set ks" using ks A(3) by (auto simp: learnt_ok_def)
  have "learnt_clause_ok T lc bt"
    unfolding learnt_clause_ok_def
  proof (intro conjI)
    show "distinct lc" using lc b(3,4) [OF D] M(3) np by (metis distinct.simps(2))
    show "\<forall>l \<in> set lc. neg l \<in> set (trail T)" using set_lc ks A(2) by (auto simp: learnt_ok_def)
    show "\<forall>l \<in> set (tl lc). 0 < level T (var l) \<and> level T (var l) \<le> bt" using b(3,7) [OF D] ks by (auto simp: learnt_ok_def)
    show "if length lc = 1 then bt = 0 else level T (var (lc ! 1)) = bt" using b(5,8,9) [OF D] by auto
    show "\<forall>\<sigma> \<in> models T. clause_holds \<sigma> lc" using A(7) M(5) set_lc by (simp add: clause_holds_def)
  qed (use b(1,2,6) [OF D] A(3) in simp_all)
  moreover have "analyze mode cr (replicate (nVars S) False) S = Some (lc, bt, replicate (nVars S) False, T)"
    using A(1) M(1) B marks_cleared [OF A(6), of "neg p" ms] \<open>trail_lim T \<noteq> []\<close>
    by (simp add: analyze_def lev_def [symmetric] T_def [symmetric] out M(4) nV)
  ultimately show ?thesis using m(2) T an unfolding T_def by blast
qed

subsection \<open>The final conflict consists of decisions\<close>

text \<open>Below \<open>i\<close> the marked literals are what the conflict \<open>G\<close> still depends on.\<close>

definition final_inv :: "Solver \<Rightarrow> (assignment \<Rightarrow> bool) \<Rightarrow> Lit set \<Rightarrow> nat \<Rightarrow> bool list \<times> Lit list \<Rightarrow> bool" where
  "final_inv S G Q i F \<longleftrightarrow> (case F of (sn, out) \<Rightarrow>
     length sn = nVars S \<and> (\<forall>x < nVars S. sn ! x \<longrightarrow>
       (\<exists>j < i. int x = var (trail S ! j) \<and> (0 < level S (int x) \<or> trail S ! j \<in> Q))) \<and>
     (\<forall>\<sigma> \<in> models S. (\<forall>j < i. seen_lit sn (trail S ! j) \<longrightarrow> lit_holds \<sigma> (trail S ! j)) \<longrightarrow>
        (\<forall>l \<in> set out. \<not> lit_holds \<sigma> l) \<longrightarrow> G \<sigma>) \<and>
     set out \<subseteq> Q \<union> neg ` decisions S)"

lemma level_positive:
  assumes S: "analysable S" and "i < length (trail S)"
  shows "0 < level S (var (trail S ! i)) \<longleftrightarrow> hd (trail_lim S) \<le> i"
  using level_le_iff [OF analysableD(4) [OF S] assms(2), of 0] analysableD(6) [OF S] by (auto simp: hd_conv_nth)

lemma trail_var_index:
  assumes "wf_trail S" "i < length (trail S)" "j < length (trail S)"
  shows "nat (var (trail S ! i)) = nat (var (trail S ! j)) \<longleftrightarrow> i = j"
proof -
  have "distinct (trail S)" using assms(1) by (auto simp: wf_trail_def distinct_map)
  then show ?thesis
    using assms trail_index_eq [of S "neg (trail S ! i)" "neg (trail S ! j)"] nth_eq_iff_index_eq [of "trail S" i j]
    by (metis neg_neg nth_mem var_neg)
qed

lemma final_step_inv:
  assumes S: "analysable S" and i: "i < length (trail S)" "hd (trail_lim S) \<le> i" and j0: "j0 \<le> 1"
    and inv: "final_inv S G Q (Suc i) F"
  shows "final_inv S G Q i (final_step S j0 i F)"
proof -
  note wf = analysableD [OF S]
  obtain sn out where F: "F = (sn, out)" by fastforce
  let ?x = "trail S ! i"
  have I: "length sn = nVars S" "\<And>x. x < nVars S \<Longrightarrow> sn ! x \<Longrightarrow> \<exists>j < Suc i. int x = var (trail S ! j) \<and> (0 < level S (int x) \<or> trail S ! j \<in> Q)"
    "\<And>\<sigma>. \<sigma> \<in> models S \<Longrightarrow> \<forall>j < Suc i. seen_lit sn (trail S ! j) \<longrightarrow> lit_holds \<sigma> (trail S ! j) \<Longrightarrow>
        \<forall>l \<in> set out. \<not> lit_holds \<sigma> l \<Longrightarrow> G \<sigma>"
    "set out \<subseteq> Q \<union> neg ` decisions S"
    using inv by (auto simp: final_inv_def F)
  have below: "\<exists>j < i. int x = var (trail S ! j) \<and> (0 < level S (int x) \<or> trail S ! j \<in> Q)" if "x < nVars S" "sn ! x" "x \<noteq> nat (var ?x)" for x
    using I(2) [OF that(1,2)] that(3) by (metis less_Suc_eq nat_int)
  show ?thesis
  proof (cases "seen_lit sn ?x")
    case False
    have "final_step S j0 i F = (sn, out)" using False by (simp add: final_step_def F Let_def)
    moreover have "x \<noteq> nat (var ?x)" if "sn ! x" for x using that False by auto
    ultimately show ?thesis using I below False by (auto simp: final_inv_def less_Suc_eq)
  next
    case seen: True
    show ?thesis
    proof (cases "reason S (var ?x)")
      case None
      have fs: "final_step S j0 i F = (set_seen False ?x sn, out @ [neg ?x])" using seen None by (simp add: final_step_def F Let_def)
      have "level S (var ?x) > 0" using level_positive [OF S i(1)] i(2) by simp
      then have "?x \<in> decisions S" using i(1) None by (simp add: decisions_def)
      moreover have "seen_lit (set_seen False ?x sn) (trail S ! j) = seen_lit sn (trail S ! j)" if "j < i" for j
        using trail_var_index [OF wf(2), of i j] that i(1) by simp
      moreover have "\<exists>j < i. int x = var (trail S ! j) \<and> (0 < level S (int x) \<or> trail S ! j \<in> Q)" if "x < nVars S" "set_seen False ?x sn ! x" for x
        using below [of x] that I(1) by (cases "x = nat (var ?x)") auto
      ultimately show ?thesis using I i unfolding fs final_inv_def by (auto simp: less_Suc_eq)
    next
      case (Some cr)
      define cs where "cs = filter (\<lambda>l. level S (var l) > 0) (drop j0 (clause_of S cr))"
      define sn' where "sn' = set_seen False ?x (mark_all True cs sn)"
      have fs: "final_step S j0 i F = (sn', out)" using seen Some by (simp add: final_step_def F cs_def sn'_def Let_def)
      have ex: "explains S cr i" by (rule reason_explains [OF wf(5) i(1) Some])
      have cl: "clause_of S cr = ?x # drop 1 (clause_of S cr)"
        using ex wf(3) by (cases "clause_of S cr") (auto simp: explains_def wf_clauses_def)
      note before = explains_drop(1) [OF ex wf(3)]
      have len: "length sn' = nVars S" by (simp add: sn'_def I(1))
      have cs: "l = ?x \<or> (\<exists>j < i. l = neg (trail S ! j))" if "l \<in> set cs" for l
      proof -
        have "l \<in> set (clause_of S cr)" using that by (auto simp: cs_def dest: in_set_dropD)
        then have "l = ?x \<or> l \<in> set (drop 1 (clause_of S cr))" using cl by (metis set_ConsD)
        then show ?thesis using before clause_trail_nth by metis
      qed
      have nth: "sn' ! x = (if x = nat (var ?x) then False else x \<in> nat ` var ` set cs \<or> sn ! x)" if "x < nVars S" for x
        using that I(1) by (auto simp: sn'_def nth_list_update nth_mark_all)
      have idx: "nat (var (trail S ! j)) < nVars S" "nat (var (trail S ! j)) \<noteq> nat (var ?x)"
        "int (nat (var (trail S ! j))) = var (trail S ! j)" if "j < i" for j
        using that i(1) trail_var_index [OF wf(2), of j i] trail_index [OF wf(2), of "neg (trail S ! j)"]
          trail_in_range [OF wf(2), of "neg (trail S ! j)"] by (auto simp: in_range_def)
      have a: "\<exists>j < i. int x = var (trail S ! j) \<and> (0 < level S (int x) \<or> trail S ! j \<in> Q)" if "x < nVars S" "sn' ! x" for x
      proof -
        have x: "x \<noteq> nat (var ?x)" "x \<in> nat ` var ` set cs \<or> sn ! x" using nth [OF that(1)] that(2) by (auto split: if_splits)
        show ?thesis
        proof (cases "sn ! x")
          case False
          then obtain l where l: "l \<in> set cs" "x = nat (var l)" using x(2) by auto
          then obtain j where j: "j < i" "l = neg (trail S ! j)" using cs [of l] x(1) by auto
          then show ?thesis using l idx(3) [OF j(1)] by (auto simp: cs_def)
        qed (use below that x in blast)
      qed
      have b: "seen_lit sn' (trail S ! j)" if "j < i" "seen_lit sn (trail S ! j)" for j
        using nth [OF idx(1)] idx(2) that by simp
      have "G \<sigma>" if m: "\<sigma> \<in> models S" and h: "\<forall>j < i. seen_lit sn' (trail S ! j) \<longrightarrow> lit_holds \<sigma> (trail S ! j)"
        and o: "\<forall>l \<in> set out. \<not> lit_holds \<sigma> l" for \<sigma>
      proof -
        have "\<not> lit_holds \<sigma> l" if l: "l \<in> set (drop 1 (clause_of S cr))" for l
        proof -
          obtain j where j: "j < i" "j < length (trail S)" "l = neg (trail S ! j)" using before l clause_trail_nth by metis
          show ?thesis
          proof (cases "level S (var l) = 0")
            case True
            then show ?thesis using level0_false [OF m, of l] j by simp
          next
            case False
            have "l \<in> set (drop j0 (clause_of S cr))" using l j0 cl by (cases j0) (auto dest: in_set_dropD)
            then have "l \<in> set cs" using False by (simp add: cs_def)
            then have "nat (var l) \<in> nat ` var ` set cs" by blast
            then have "nat (var (trail S ! j)) \<in> nat ` var ` set cs" using j(3) by simp
            then have "seen_lit sn' (trail S ! j)" using nth [OF idx(1) [OF j(1)]] idx(2) [OF j(1)] by simp
            then show ?thesis using h j by simp
          qed
        qed
        then have "lit_holds \<sigma> ?x" using explains_drop(2) [OF ex wf(3) m] by blast
        then show ?thesis using I(3) [OF m _ o] h b by (auto simp: less_Suc_eq)
      qed
      then show ?thesis using len a I(4) unfolding fs final_inv_def by auto
    qed
  qed
qed

lemma final_loop_inv:
  assumes S: "analysable S" and j0: "j0 \<le> 1" and inv: "final_inv S G Q (length (trail S)) F"
  shows "final_inv S G Q (hd (trail_lim S)) (final_loop S j0 F)"
proof -
  have "final_inv S G Q a (fold (final_step S j0) (rev [a..<n]) F)"
    if "a \<le> n" "n \<le> length (trail S)" "hd (trail_lim S) \<le> a" "final_inv S G Q n F" for a n F
    using that
  proof (induction n arbitrary: F rule: dec_induct)
    case base
    then show ?case by simp
  next
    case (step n)
    have "final_inv S G Q n (final_step S j0 n F)"
      using step.prems step.hyps by (intro final_step_inv [OF S _ _ j0]) auto
    then show ?case using step by simp
  qed
  moreover have "hd (trail_lim S) \<le> length (trail S)"
    using analysableD(2,6) [OF S] by (simp add: wf_trail_def)
  ultimately show ?thesis using inv by (simp add: final_loop_def)
qed

lemma search_analysable:
  "wf_solver S \<Longrightarrow> cdcl_inv S \<Longrightarrow> decisionLevel S \<noteq> 0 \<Longrightarrow> analysable S"
  by (auto simp: analysable_def wf_solver_def cdcl_inv_def)

lemma final_cleared:
  assumes S: "analysable S" and inv: "final_inv S G Q (hd (trail_lim S)) (sn, out)"
    and x: "x < nVars S" "sn ! x"
  shows "\<exists>q \<in> Q \<inter> set (trail S). int x = var q"
proof -
  obtain j where j: "j < hd (trail_lim S)" "int x = var (trail S ! j)" "0 < level S (int x) \<or> trail S ! j \<in> Q"
    using inv x by (auto simp: final_inv_def)
  have "hd (trail_lim S) \<le> length (trail S)" using analysableD(2,6) [OF S] by (simp add: wf_trail_def)
  then have l: "j < length (trail S)" using j(1) by linarith
  then have "trail S ! j \<in> Q" using j level_positive [OF S l] by auto
  then show ?thesis using j(2) l by auto
qed

lemma first_level_holds:
  assumes S: "analysable S" and m: "\<sigma> \<in> models S" and j: "j < hd (trail_lim S)"
  shows "lit_holds \<sigma> (trail S ! j)"
proof -
  have "hd (trail_lim S) \<le> length (trail S)" using analysableD(2,6) [OF S] by (simp add: wf_trail_def)
  then have l: "j < length (trail S)" using j by linarith
  then have "level S (var (trail S ! j)) = 0" using level_positive [OF S l] j by simp
  then show ?thesis using level0_false [OF m, of "neg (trail S ! j)"] l by simp
qed

lemma analyzeFinal_correct:
  assumes wf: "wf_solver S" and inv: "cdcl_inv S" and p: "p \<in> set (trail S)"
  shows "\<exists>out. analyzeFinal p (replicate (nVars S) False) S = (out, replicate (nVars S) False) \<and>
    (\<forall>\<sigma> \<in> models S. clause_holds \<sigma> out) \<and>
    set out \<subseteq> insert p (neg ` decisions S)"
proof (cases "decisionLevel S = 0")
  case True
  then have "lit_holds \<sigma> p" if "\<sigma> \<in> models S" for \<sigma>
    using that p models_fixed fixed_lits_level0 [of S] wf by (auto simp: wf_solver_def)
  then show ?thesis using True by (auto simp: analyzeFinal_def clause_holds_def)
next
  case False
  have S: "analysable S" by (rule search_analysable [OF wf inv False])
  note w = analysableD [OF S]
  let ?sn = "set_seen True p (replicate (nVars S) False)"
  have np: "neg (neg p) \<in> set (trail S)" using p by simp
  obtain k where k: "k < length (trail S)" "trail S ! k = p" using p by (auto simp: in_set_conv_nth)
  have ip: "int (nat (var p)) = var p" "nat (var p) < nVars S"
    using trail_in_range [OF w(2) np] trail_index [OF w(2) np] by (auto simp: in_range_def)
  have "final_inv S (\<lambda>_. False) {p} (length (trail S)) (?sn, [p])"
    unfolding final_inv_def using k ip by (auto simp: nth_list_update split: if_splits)
  note L = final_loop_inv [OF S order_refl this]
  obtain sn out where r: "final_loop S 1 (?sn, [p]) = (sn, out)" by fastforce
  have len: "length sn = nVars S" using L r by (simp add: final_inv_def)
  have clear: "set_seen False p sn = replicate (nVars S) False"
  proof (rule nth_equalityI)
    fix x assume "x < length (set_seen False p sn)"
    then have x: "x < nVars S" using len by simp
    have "x = nat (var p)" if "sn ! x" using final_cleared [OF S L [unfolded r] x that] by (metis Int_iff nat_int singletonD)
    then show "set_seen False p sn ! x = replicate (nVars S) False ! x"
      using x len by (cases "x = nat (var p)") auto
  qed (simp add: len)
  have "clause_holds \<sigma> out" if m: "\<sigma> \<in> models S" for \<sigma>
  proof (rule ccontr)
    assume n: "\<not> clause_holds \<sigma> out"
    have "\<forall>j < hd (trail_lim S). lit_holds \<sigma> (trail S ! j)" using first_level_holds [OF S m] by blast
    then show False using L m n unfolding r final_inv_def clause_holds_def by auto
  qed
  moreover have "set out \<subseteq> insert p (neg ` decisions S)"
    using L r by (auto simp: final_inv_def)
  ultimately show ?thesis using r clear False by (auto simp: analyzeFinal_def)
qed

lemma analyzeFinal_clause_correct:
  assumes wf: "wf_solver S" and inv: "cdcl_inv S" and f: "falsified S cr"
  shows "\<exists>out. analyzeFinal_clause cr skip (replicate (nVars S) False) S = (out, replicate (nVars S) False) \<and>
    (\<forall>\<sigma> \<in> models S. clause_holds \<sigma> out \<or> (\<exists>l \<in> set (clause_of S cr). var l = var skip \<and> lit_holds \<sigma> l)) \<and>
    set out \<subseteq> neg ` decisions S"
proof -
  let ?G = "\<lambda>\<sigma>. \<exists>l \<in> set (clause_of S cr). var l = var skip \<and> lit_holds \<sigma> l"
  have cl: "\<exists>l \<in> set (clause_of S cr). lit_holds \<sigma> l" if "\<sigma> \<in> models S" for \<sigma>
    using that f by (auto simp: models_def falsified_def clause_holds_def)
  have nt: "neg l \<in> set (trail S)" if "l \<in> set (clause_of S cr)" for l using f that by (simp add: falsified_def)
  show ?thesis
  proof (cases "decisionLevel S = 0")
    case True
    have "?G \<sigma>" if m: "\<sigma> \<in> models S" for \<sigma>
    proof -
      obtain l where l: "l \<in> set (clause_of S cr)" "lit_holds \<sigma> l" using cl [OF m] by blast
      have "neg l \<in> fixed_lits S" using nt [OF l(1)] fixed_lits_level0 [of S] True wf by (simp add: wf_solver_def)
      then show ?thesis using models_fixed [OF m] l(2) by fastforce
    qed
    then show ?thesis using True by (simp add: analyzeFinal_clause_def)
  next
    case False
    have S: "analysable S" by (rule search_analysable [OF wf inv False])
    note w = analysableD [OF S]
    define cs where "cs = filter (\<lambda>l. var l \<noteq> var skip \<and> level S (var l) > 0) (clause_of S cr)"
    let ?sn = "mark_all True cs (replicate (nVars S) False)"
    have pos: "\<exists>j < length (trail S). l = neg (trail S ! j)" if "l \<in> set (clause_of S cr)" for l
      using nt [OF that] by (metis in_set_conv_nth neg_neg)
    have nn: "int (nat (var l)) = var l" "nat (var l) < nVars S" if "l \<in> set (clause_of S cr)" for l
      using trail_in_range [OF w(2) nt [OF that]] trail_index [OF w(2) nt [OF that]] by (auto simp: in_range_def)
    have "final_inv S ?G {} (length (trail S)) (?sn, [])"
      unfolding final_inv_def prod.case
    proof (intro conjI allI ballI impI)
      fix x assume x: "x < nVars S" "?sn ! x"
      then obtain l where l: "l \<in> set cs" "x = nat (var l)" by (auto simp: nth_mark_all split: if_splits)
      then have c: "l \<in> set (clause_of S cr)" "level S (var l) > 0" by (auto simp: cs_def)
      then show "\<exists>j < length (trail S). int x = var (trail S ! j) \<and> (0 < level S (int x) \<or> trail S ! j \<in> {})"
        using pos [OF c(1)] nn [OF c(1)] l(2) by auto
    next
      fix \<sigma> assume m: "\<sigma> \<in> models S" and h: "\<forall>j < length (trail S). seen_lit ?sn (trail S ! j) \<longrightarrow> lit_holds \<sigma> (trail S ! j)"
      obtain l where l: "l \<in> set (clause_of S cr)" "lit_holds \<sigma> l" using cl [OF m] by blast
      have "var l = var skip"
      proof (rule ccontr)
        assume ne: "var l \<noteq> var skip"
        have "level S (var l) > 0" using level0_false [OF m nt [OF l(1)]] l(2) by auto
        then have "l \<in> set cs" using ne l(1) by (simp add: cs_def)
        then have "?sn ! nat (var l)" using nn [OF l(1)] by (simp add: nth_mark_all)
        moreover obtain j where "j < length (trail S)" "l = neg (trail S ! j)" using pos [OF l(1)] by blast
        ultimately show False using h l(2) by auto
      qed
      then show "?G \<sigma>" using l by blast
    qed simp_all
    note L = final_loop_inv [OF S zero_le_one this]
    obtain sn out where r: "final_loop S 0 (?sn, []) = (sn, out)" by fastforce
    have clear: "sn = replicate (nVars S) False"
      using final_cleared [OF S L [unfolded r]] L r by (intro nth_equalityI) (auto simp: final_inv_def)
    have "clause_holds \<sigma> out \<or> ?G \<sigma>" if m: "\<sigma> \<in> models S" for \<sigma>
      using L m first_level_holds [OF S m] unfolding r final_inv_def clause_holds_def by auto
    moreover have "set out \<subseteq> neg ` decisions S"
      using L r by (auto simp: final_inv_def)
    moreover have "analyzeFinal_clause cr skip (replicate (nVars S) False) S = (out, sn)"
      using r False by (simp add: analyzeFinal_clause_def cs_def [symmetric])
    ultimately show ?thesis using clear by auto
  qed
qed

subsection \<open>Properties\<close>

text \<open>C4: Conflict analysis, in each mode of clause minimisation. For a clause of the database that is false under the
  trail, not by literals of level 0 alone, \<open>analyze\<close> returns a clause that every model satisfies; it is false under the
  trail, has exactly one literal of the conflict level, in front, and the others belong to levels between 1 and the
  backtrack level, which is below the conflict level; a literal of that level stands at index 1. The marks are as
  they were, and the solver has been backtracked to the conflict level.\<close>

theorem analyze_learns:
  assumes "wf_solver S" "cdcl_inv S" "cr \<in> set (db S)" "\<forall>l \<in> set (clause_of S cr). neg l \<in> set (trail S)"
    "\<exists>l \<in> set (clause_of S cr). 0 < level S (var l)"
  shows "\<exists>lc bt S'. analyze ccmin_mode cr (replicate (nVars S) False) S = Some (lc, bt, replicate (nVars S) False, S') \<and>
    (\<forall>\<sigma> \<in> models S. clause_holds \<sigma> lc) \<and> lc \<noteq> [] \<and> distinct lc \<and> (\<forall>l \<in> set lc. neg l \<in> set (trail S')) \<and>
    level S (var (lc ! 0)) = decisionLevel S' \<and> bt < decisionLevel S' \<and>
    (\<forall>l \<in> set (tl lc). 0 < level S (var l) \<and> level S (var l) \<le> bt) \<and>
    (if length lc = 1 then bt = 0 else level S (var (lc ! 1)) = bt) \<and>
    (\<exists>lev. S' = cancelUntil lev S \<and> lev = decisionLevel S' \<and> (\<forall>l \<in> set (clause_of S cr). level S (var l) \<le> lev) \<and>
       (\<exists>l \<in> set (clause_of S cr). level S (var l) = lev))"
proof -
  have f: "falsified S cr" using assms(3,4) by (simp add: falsified_def)
  from analyze_correct [OF assms(1,2) f assms(5), of ccmin_mode] obtain lc bt lev where
    A: "analyze ccmin_mode cr (replicate (nVars S) False) S = Some (lc, bt, replicate (nVars S) False, cancelUntil lev S)"
      "current_conflict (cancelUntil lev S) cr" "decisionLevel (cancelUntil lev S) = lev" "analysable (cancelUntil lev S)"
      "learnt_clause_ok (cancelUntil lev S) lc bt" by blast
  have lv: "wf_base S" "trail_levels S" using assms(1,2) by (auto simp: wf_solver_base cdcl_inv_def)
  have le: "level S (var l) \<le> lev" if "l \<in> set (clause_of S cr)" for l
  proof -
    have "neg l \<in> set (trail (cancelUntil lev S))" using A(2) that by (simp add: current_conflict_def falsified_def)
    from level_le [OF analysableD(4) [OF A(4)] this] show ?thesis using A(3) by simp
  qed
  have "\<exists>l \<in> set (clause_of S cr). level S (var l) = lev" using A(2,3) by (simp add: current_conflict_def)
  then show ?thesis
    using A(1,3,5) le backtrack_wf(2) [OF lv, of lev] unfolding learnt_clause_ok_def nVars_cancelUntil
    by (intro exI [of _ lc] exI [of _ bt] exI [of _ "cancelUntil lev S"]) auto
qed

definition conflict_x0 :: Solver where
  "conflict_x0 = snd (the (propagate decided_x0))"

lemma conflict_x0_facts:
  "wf_solver conflict_x0" "cdcl_inv conflict_x0" "current_conflict conflict_x0 1" "decisionLevel conflict_x0 = 1"
proof -
  from propagate_search [OF decided_x0_inv] obtain S' where
    S': "propagate decided_x0 = Some (Some 1, S')" "wf_solver S'" "cdcl_inv S'" "current_conflict S' 1" "prop_rel decided_x0 S'"
    using decided_x0_propagate by (auto split: option.splits)
  then show "wf_solver conflict_x0" "cdcl_inv conflict_x0" "current_conflict conflict_x0 1" by (simp_all add: conflict_x0_def)
  show "decisionLevel conflict_x0 = 1" by code_simp
qed

theorem analyze_learns_witness:
  "\<exists>lc bt S'. analyze 2 1 (replicate (nVars conflict_x0) False) conflict_x0 =
      Some (lc, bt, replicate (nVars conflict_x0) False, S') \<and> (\<forall>\<sigma> \<in> models conflict_x0. clause_holds \<sigma> lc) \<and>
    bt < decisionLevel S' \<and> level conflict_x0 (var (lc ! 0)) = decisionLevel S'"
proof -
  have c: "1 \<in> set (db conflict_x0)" "\<forall>l \<in> set (clause_of conflict_x0 1). neg l \<in> set (trail conflict_x0)"
    using conflict_x0_facts(3) by (simp_all add: current_conflict_def falsified_def)
  have "\<exists>l \<in> set (clause_of conflict_x0 1). level conflict_x0 (var l) = 1"
    using conflict_x0_facts(3,4) unfolding current_conflict_def by simp
  then have "\<exists>l \<in> set (clause_of conflict_x0 1). 0 < level conflict_x0 (var l)" by (metis zero_less_one)
  note c = c this
  show ?thesis using analyze_learns [OF conflict_x0_facts(1,2) c, of 2] by blast
qed

lemma analyze_example: "map_option fst (analyze 2 1 [False, False, False] conflict_x0) = Some [mkLit 0 True]"
  by code_simp

text \<open>C7: The final analysis expresses the assignment of a literal \<open>p\<close> on the trail in terms of decisions: the result
  holds in every model, its literals are \<open>p\<close> and negations of decision literals (those above level 0 without a reason), and the marks are cleared. The version
  that starts from a false clause gives a clause of negated decisions, which holds in every model in which no literal of
  the skipped variable makes the clause true.\<close>

theorem final_conflict_correct:
  assumes "wf_solver S" "cdcl_inv S" "p \<in> set (trail S)"
    "cr \<in> set (db S)" "\<forall>l \<in> set (clause_of S cr). neg l \<in> set (trail S)"
  shows "(\<exists>out. analyzeFinal p (replicate (nVars S) False) S = (out, replicate (nVars S) False) \<and>
      (\<forall>\<sigma> \<in> models S. clause_holds \<sigma> out) \<and>
      set out \<subseteq> insert p (neg ` decisions S)) \<and>
    (\<exists>out. analyzeFinal_clause cr skip (replicate (nVars S) False) S = (out, replicate (nVars S) False) \<and>
      (\<forall>\<sigma> \<in> models S. clause_holds \<sigma> out \<or> (\<exists>l \<in> set (clause_of S cr). var l = var skip \<and> lit_holds \<sigma> l)) \<and>
      set out \<subseteq> neg ` decisions S)"
  using analyzeFinal_correct [OF assms(1-3)] analyzeFinal_clause_correct [OF assms(1,2), of cr skip] assms(4,5)
  by (simp add: falsified_def)

theorem final_conflict_correct_witness:
  "\<exists>out. analyzeFinal_clause 1 lit_Undef (replicate (nVars conflict_x0) False) conflict_x0 =
      (out, replicate (nVars conflict_x0) False) \<and>
    (\<forall>\<sigma> \<in> models conflict_x0. clause_holds \<sigma> out \<or>
       (\<exists>l \<in> set (clause_of conflict_x0 1). var l = var lit_Undef \<and> lit_holds \<sigma> l))"
proof -
  have "trail conflict_x0 = [mkLit 0 False, mkLit 1 False]" by code_simp
  then show ?thesis
    using final_conflict_correct [of conflict_x0 "mkLit 0 False" 1 lit_Undef] conflict_x0_facts
    by (auto simp: current_conflict_def falsified_def)
qed

end
