(* ===== verification/Solver_Search.thy ===== *)
theory Solver_Search
  imports Conflict_Analysis
begin

text \<open>
  The search of \<open>core/Solver.cc\<close>: what \<open>search\<close> does with a conflict (\<open>analyze\<close>, backtracking, recording the learnt
  clause), how it takes the assumptions and decides, and \<open>solve_\<close> with its restarts.

  The loop is a step relation, because its heuristics (which variable \<open>pickBranchLit\<close> takes, when the bound on
  conflicts of this call is reached) are left open: a step may take any unassigned decision variable, in either
  polarity, and may restart after any propagation without conflict. Clause deletion (\<open>simplify\<close>, \<open>reduceDB\<close>) and
  everything that concerns theory solvers is left out; \<open>only_propagate_assumptions\<close> is off.
\<close>

subsection \<open>Recording a learnt clause\<close>

text \<open>The solver has already been backtracked. The exception stands for the clause that is not asserting.\<close>

definition record_learnt :: "Lit list \<Rightarrow> Solver \<Rightarrow> Solver option" where
  "record_learnt lc S =
     (if length lc = 1 then Some (uncheckedEnqueue (lc ! 0) None S)
      else let cr = length (ca S);
               S1 = attachClause cr (S\<lparr>ca := ca S @ [mkClause lc True True], learnts := learnts S @ [cr]\<rparr>)
           in if lbool_eq (lit_value S1 (lc ! 0)) l_Undef then Some (uncheckedEnqueue (lc ! 0) (Some cr) S1)
              else None)"

record Search =
  solver :: Solver
  seen_marks :: "bool list"
  assumptions :: "Lit list"
  conflict :: "Lit list"
  theories_during_assumptions :: bool

definition resolve_conflict :: "nat \<Rightarrow> nat \<Rightarrow> Search \<Rightarrow> Search option" where
  "resolve_conflict ccmin_mode confl P = do {
     (lc, bt, sn, S1) \<leftarrow> analyze ccmin_mode confl (seen_marks P) (solver P);
     S2 \<leftarrow> record_learnt lc (cancelUntil bt S1);
     let S3 = (if decisionLevel S1 > 0 \<and> decisionLevel S1 < decisionLevel S2
               then cancelUntil (decisionLevel S1 - 1) S2 else S2);
     let P1 = P\<lparr>solver := S3, seen_marks := sn\<rparr>;
     Some (if \<not> theories_during_assumptions P \<and> decisionLevel S3 > 0 \<and> decisionLevel S3 < length (assumptions P)
           then P1\<lparr>theories_during_assumptions := True, solver := cancelUntil 0 S3\<rparr> else P1)
   }"

subsection \<open>Assumptions and decisions\<close>

text \<open>The loop over the assumptions from the current level on: a true one opens a dummy level; the result is the solver,
  whether a dummy level was opened, and the assumption at which the loop stopped (false or unassigned).\<close>

fun take_assumptions :: "Lit list \<Rightarrow> bool \<Rightarrow> Solver \<Rightarrow> Solver \<times> bool \<times> Lit option" where
  "take_assumptions [] d S = (S, d, None)"
| "take_assumptions (p # ps) d S =
     (if lbool_eq (lit_value S p) l_True then take_assumptions ps True (newDecisionLevel S)
      else (S, d, Some p))"

definition choices :: "Solver \<Rightarrow> Lit set" where
  "choices S = {l. live S l \<and> decision S ! nat (var l) \<and> lbool_eq (lit_value S l) l_Undef}"

text \<open>A decision: the new level, the tests that throw, and the assignment. (The numbers are those of the code, where the level
  has already been increased.)\<close>

definition make_decision :: "Lit \<Rightarrow> nat \<Rightarrow> Solver \<Rightarrow> Solver option" where
  "make_decision p n S =
     (let S1 = newDecisionLevel S
      in if p = lit_Undef \<or> var p \<ge> int (nVars S1) \<or> \<not> lbool_eq (lit_value S1 p) l_Undef \<or> decisionLevel S1 > nVars S1 + n + 1
         then None else Some (snd (enqueue p None S1)))"

datatype step_result = Continue Search | Return lbool Search

inductive search_step :: "nat \<Rightarrow> Search \<Rightarrow> step_result \<Rightarrow> bool" for ccmin_mode where
  unsat: "\<lbrakk>propagate (solver P) = Some (Some cr, S); decisionLevel S = 0\<rbrakk> \<Longrightarrow>
    search_step ccmin_mode P (Return l_False (P\<lparr>solver := S\<rparr>))"
| learn: "\<lbrakk>propagate (solver P) = Some (Some cr, S); decisionLevel S > 0;
    resolve_conflict ccmin_mode cr (P\<lparr>solver := S\<rparr>) = Some P'\<rbrakk> \<Longrightarrow>
    search_step ccmin_mode P (Continue P')"
| restart: "propagate (solver P) = Some (None, S) \<Longrightarrow>
    search_step ccmin_mode P (Return l_Undef (P\<lparr>solver := cancelUntil 0 S\<rparr>))"
| failed: "\<lbrakk>propagate (solver P) = Some (None, S);
    take_assumptions (drop (decisionLevel S) (assumptions P)) False S = (S1, d, Some p);
    lbool_eq (lit_value S1 p) l_False;
    analyzeFinal (neg p) (seen_marks P) S1 = (out, sn)\<rbrakk> \<Longrightarrow>
    search_step ccmin_mode P (Return l_False (P\<lparr>solver := S1, conflict := out, seen_marks := sn\<rparr>))"
| assume_lit: "\<lbrakk>propagate (solver P) = Some (None, S);
    take_assumptions (drop (decisionLevel S) (assumptions P)) False S = (S1, d, Some p);
    \<not> lbool_eq (lit_value S1 p) l_False; make_decision p (length (assumptions P)) S1 = Some S2\<rbrakk> \<Longrightarrow>
    search_step ccmin_mode P (Continue (P\<lparr>solver := S2\<rparr>))"
| dummy: "\<lbrakk>propagate (solver P) = Some (None, S);
    take_assumptions (drop (decisionLevel S) (assumptions P)) False S = (S1, True, None)\<rbrakk> \<Longrightarrow>
    search_step ccmin_mode P (Continue (P\<lparr>solver := S1\<rparr>))"
| branch: "\<lbrakk>propagate (solver P) = Some (None, S);
    take_assumptions (drop (decisionLevel S) (assumptions P)) False S = (S1, False, None);
    l \<in> choices S1; make_decision l (length (assumptions P)) S1 = Some S2\<rbrakk> \<Longrightarrow>
    search_step ccmin_mode P (Continue (P\<lparr>solver := S2\<rparr>))"
| sat: "\<lbrakk>propagate (solver P) = Some (None, S);
    take_assumptions (drop (decisionLevel S) (assumptions P)) False S = (S1, False, None);
    choices S1 = {}\<rbrakk> \<Longrightarrow>
    search_step ccmin_mode P (Return l_True (P\<lparr>solver := newDecisionLevel S1\<rparr>))"

inductive search :: "nat \<Rightarrow> Search \<Rightarrow> lbool \<Rightarrow> Search \<Rightarrow> bool" for ccmin_mode where
  search_return: "search_step ccmin_mode P (Return r P') \<Longrightarrow> search ccmin_mode P r P'"
| search_continue: "search_step ccmin_mode P (Continue P1) \<Longrightarrow> search ccmin_mode P1 r P' \<Longrightarrow> search ccmin_mode P r P'"

text \<open>\<open>solve_\<close>: the calls of \<open>search\<close>, each with its own copy of the option that delays theory propagation, until one of
  them has an answer (or the budget is used up); then the model and the answer.\<close>

inductive solve_loop :: "nat \<Rightarrow> bool \<Rightarrow> Search \<Rightarrow> lbool \<Rightarrow> Search \<Rightarrow> bool" for ccmin_mode opt where
  solve_stop: "search ccmin_mode (P\<lparr>theories_during_assumptions := opt\<rparr>) r P' \<Longrightarrow> solve_loop ccmin_mode opt P r P'"
| solve_again: "search ccmin_mode (P\<lparr>theories_during_assumptions := opt\<rparr>) l_Undef P1 \<Longrightarrow>
    solve_loop ccmin_mode opt P1 r P' \<Longrightarrow> solve_loop ccmin_mode opt P r P'"

datatype solve_result = Solved lbool "lbool list" "Lit list" Solver | Inconsistent_Model

definition start_search :: "Lit list \<Rightarrow> Solver \<Rightarrow> Search" where
  "start_search assumps S = \<lparr>solver = cancelUntil 0 S, seen_marks = replicate (nVars S) False, assumptions = assumps,
     conflict = [], theories_during_assumptions = False\<rparr>"

definition finish_search :: "lbool \<Rightarrow> Search \<Rightarrow> solve_result" where
  "finish_search r P =
     (if r = l_True then
        if list_all (\<lambda>l. lbool_eq (lit_value (solver P) l) l_True) (assumptions P)
        then Solved r (assigns (solver P)) (conflict P) (solver P) else Inconsistent_Model
      else if r = l_False \<and> conflict P = [] then Solved r [] [] ((solver P)\<lparr>ok := False\<rparr>)
      else Solved r [] (conflict P) (solver P))"

inductive solve :: "nat \<Rightarrow> bool \<Rightarrow> Lit list \<Rightarrow> Solver \<Rightarrow> solve_result \<Rightarrow> bool" where
  solve_not_ok: "\<not> ok S \<Longrightarrow> solve ccmin_mode opt assumps S (Solved l_False [] [] (cancelUntil 0 S))"
| solve_run: "\<lbrakk>ok S; solve_loop ccmin_mode opt (start_search assumps S) r P\<rbrakk> \<Longrightarrow>
    solve ccmin_mode opt assumps S (finish_search r P)"

subsection \<open>A learnt clause is recorded\<close>

lemma record_unit:
  assumes inv: "solver_inv T" "ok T" and lim: "trail_lim T = []" and l: "live T l" "lbool_eq (lit_value T l) l_Undef"
    and m: "\<forall>\<sigma> \<in> models T. lit_holds \<sigma> l"
  shows "solver_inv (uncheckedEnqueue l None T)" "models (uncheckedEnqueue l None T) = models T"
proof -
  note T = solver_invD [OF inv(1)]
  have r: "in_range T l" using l(1) by (rule live_in_range)
  have s: "cdcl_inv (uncheckedEnqueue l None T)" "settled (uncheckedEnqueue l None T)"
    using enqueue_search [OF T(3) r l(2) T(8) T(11) [OF inv(2)], of None] lim by simp_all
  have "fixed_lits T \<subseteq> fixed_lits (uncheckedEnqueue l None T)"
    using enqueue_frame(1) [OF T(5,6) r l(2)] by (auto simp: fixed_lits_def)
  then have "wf_const (uncheckedEnqueue l None T)" using T(4) by (auto simp: wf_const_def)
  then show "solver_inv (uncheckedEnqueue l None T)"
    using s wf_base_uncheckedEnqueue [OF T(2) l, of None] by (simp add: solver_inv_def wf_solver_base)
  show "models (uncheckedEnqueue l None T) = models T"
    using models_uncheckedEnqueue [OF T(5,6) r l(2) lim] m by auto
qed

lemma record_attach:
  assumes inv: "solver_inv T" "ok T" and qs: "2 \<le> length qs" "distinct qs" "list_all (live T) qs"
    and u: "lbool_eq (lit_value T (qs ! 0)) l_Undef" and f: "\<forall>q \<in> set (tl qs). neg q \<in> set (trail T)"
    and lev: "level T (var (qs ! 1)) = decisionLevel T" "trail_lim T \<noteq> []"
    and m: "\<forall>\<sigma> \<in> models T. clause_holds \<sigma> qs"
    and A: "A = attachClause (length (ca T)) (T\<lparr>ca := ca T @ [mkClause qs True True], learnts := learnts T @ [length (ca T)]\<rparr>)"
  shows "solver_inv (uncheckedEnqueue (qs ! 0) (Some (length (ca T))) A)"
    "models (uncheckedEnqueue (qs ! 0) (Some (length (ca T))) A) = models T"
    "decisions A = decisions T" "trail A = trail T" "trail_lim A = trail_lim T" "nVars A = nVars T" "ok A" "live A = live T"
    "lit_value A = lit_value T" "level A = level T" "reason A = reason T" "wf_vars A" "wf_trail A" "in_range A (qs ! 0)"
proof -
  note I = solver_invD [OF inv(1)]
  let ?cr = "length (ca T)" and ?l = "qs ! 0"
  let ?B = "T\<lparr>ca := ca T @ [mkClause qs True True], learnts := learnts T @ [?cr]\<rparr>"
  let ?R = "uncheckedEnqueue ?l (Some ?cr) A"
  have fresh: "distinct (db T)" "?cr \<notin> set (db T)" using I(7) by (auto simp: wf_clauses_def)
  have at: "wf_base A" "models A = models T"
    using attach_wf [OF I(2) qs, of "clauses T" "learnts T @ [?cr]" True True] fresh m
    by (auto simp: db_def A)
  have B: "ca ?B = ca T @ [mkClause qs True True]" "lits (mkClause qs True True) = qs"
    "set (db ?B) = insert ?cr (set (db T))" "trail ?B = trail T" "trail_lim ?B = trail_lim T"
    "qhead ?B = qhead T" "vardata ?B = vardata T" "watches ?B = watches T" "nVars ?B = nVars T" "wf_vars ?B"
    using I(5) by (auto simp: db_def wf_vars_def)
  note as = attach_search [OF I(2) qs I(8) B A]
  have eq: "level A = level T" "reason A = reason T" "lit_value A = lit_value T" "in_range A = in_range T"
    by (simp_all add: A level_def reason_def lit_value_def in_range_def fun_eq_iff)
  show tr: "trail A = trail T" "trail_lim A = trail_lim T" "nVars A = nVars T" "ok A" "level A = level T"
    "reason A = reason T" "lit_value A = lit_value T"
    using inv(2) eq by (simp_all add: A)
  show "live A = live T" using eq(4) by (simp add: A live_def fun_eq_iff)
  have ir: "in_range T ?l" using qs by (cases qs) (auto simp: live_def)
  show rl: "in_range A ?l" using ir eq(4) by simp
  show wfA: "wf_vars A" "wf_trail A" using at(1) by (auto simp: wf_base_def wf_core_def)
  have uA: "lbool_eq (lit_value A ?l) l_Undef" using u eq(3) by simp
  show "decisions A = decisions T" by (simp add: decisions_def tr)
  have mR: "models ?R = models A" by (rule models_enqueue_above [OF wfA rl uA]) (use lev(2) tr(2) in simp)
  then show "models ?R = models T" using at(2) by simp
  have "live A ?l" using qs \<open>live A = live T\<close> by (cases qs) auto
  then have "wf_base ?R" using wf_base_uncheckedEnqueue [OF at(1) _ uA] by simp
  moreover have "fixed_lits T \<subseteq> fixed_lits ?R"
    using enqueue_frame(1) [OF wfA rl uA] tr(1) eq(1) by (auto simp: fixed_lits_def)
  then have "wf_const ?R" using I(4) eq(4) inv(2) tr(4) by (auto simp: wf_const_def A)
  moreover have "cdcl_inv ?R"
    using as(1) trail_levels_enqueue [OF wfA rl uA] reasons_ok_enqueue [OF wfA rl uA, of "Some ?cr"] as(2,3) f tr(1)
    by (simp add: cdcl_inv_def)
  moreover have "settled ?R"
    unfolding settled_def watched_in_def
  proof (intro ballI)
    fix p w assume "p \<in> set (take (qhead ?R) (trail ?R))" and w: "w \<in> set (watch_list ?R p)"
    moreover have "qhead A = qhead T" by (simp add: A)
    moreover have "qhead T \<le> length (trail T)" using I(6) by (simp add: wf_trail_def)
    ultimately have p: "p \<in> set (take (qhead T) (trail T))" using tr(1) by simp
    then have pt: "p \<in> set (trail T)" by (auto dest: in_set_takeD)
    then have rp: "in_range T p" using I(6) by (simp add: wf_trail_def)
    have "neg ?l \<notin> set (trail T)" using value_Undef [OF I(5,6) ir] u by simp
    then have np: "neg p \<noteq> ?l" using pt by (metis neg_neg)
    have fr: "level ?R (var q) = level T (var q)" if "q \<in> set (trail T)" for q
      using enqueue_frame(1) [OF wfA rl uA] that tr(1) eq(1) by simp
    have "w \<in> set (watch_list T p) \<or> neg p = qs ! 1 \<and> w = Watcher ?cr ?l"
      using w as(4) [OF rp] np by (auto split: if_splits)
    then show "blocker w \<in> set (trail ?R) \<and> level ?R (var (blocker w)) \<le> level ?R (var p)"
    proof
      assume "w \<in> set (watch_list T p)"
      then have "blocker w \<in> set (trail T)" "level T (var (blocker w)) \<le> level T (var p)"
        using I(11) [OF inv(2)] p by (auto simp: settled_def watched_in_def)
      then show ?thesis using fr pt tr(1) by simp
    next
      assume n: "neg p = qs ! 1 \<and> w = Watcher ?cr ?l"
      have "level ?R (var ?l) = decisionLevel T"
        using level_uncheckedEnqueue [OF wfA(1) rl, of "var ?l" "Some ?cr"] rl tr(2) by (simp add: in_range_def)
      moreover have "level ?R (var p) = decisionLevel T" using fr [OF pt] lev(1) n by (metis var_neg)
      ultimately show ?thesis using n by simp
    qed
  qed
  ultimately show "solver_inv ?R" by (simp add: solver_inv_def wf_solver_base)
qed

subsection \<open>The invariant of the search\<close>

text \<open>The first levels belong to the assumptions: those below the current level are true, and a decision of these
  levels is an assumption. Every other level has a literal.\<close>

definition assumed :: "Lit list \<Rightarrow> Solver \<Rightarrow> bool" where
  "assumed as S \<longleftrightarrow>
     (\<forall>k < length as. k < decisionLevel S \<longrightarrow> as ! k \<in> set (trail S) \<and> level S (var (as ! k)) \<le> Suc k) \<and>
     (\<forall>l \<in> decisions S. level S (var l) \<le> length as \<longrightarrow> l \<in> set as) \<and>
     (\<forall>k. length as < k \<and> k \<le> decisionLevel S \<longrightarrow> (\<exists>l \<in> set (trail S). level S (var l) = k))"

definition search_ok :: "Search \<Rightarrow> bool" where
  "search_ok P \<longleftrightarrow> solver_inv (solver P) \<and> ok (solver P) \<and>
     seen_marks P = replicate (nVars (solver P)) False \<and> list_all (live (solver P)) (assumptions P) \<and>
     assumed (assumptions P) (solver P) \<and> conflict P = []"

lemma assumed_backtrack:
  assumes lv: "trail_levels S" "wf_trail S" and a: "assumed as S"
  shows "assumed as (cancelUntil lev S)"
proof (cases "lev < decisionLevel S")
  case True
  note cut = cancelUntil_cut [OF lv True]
  have "decisions (cancelUntil lev S) \<subseteq> decisions S" by (auto simp: decisions_def cut(1) dest: in_set_takeD)
  moreover have "as ! k \<in> set (take (trail_lim S ! lev) (trail S)) \<and> level S (var (as ! k)) \<le> Suc k"
    if k: "k < length as" "k < lev" for k
  proof -
    have "as ! k \<in> set (trail S)" "level S (var (as ! k)) \<le> Suc k" using a k True by (auto simp: assumed_def)
    then show ?thesis using take_le_level [OF lv(1) _ True] k(2) by simp
  qed
  moreover have "\<exists>l \<in> set (take (trail_lim S ! lev) (trail S)). level S (var l) = k" if k: "length as < k" "k \<le> lev" for k
  proof -
    obtain l where "l \<in> set (trail S)" "level S (var l) = k" using a k True unfolding assumed_def by (meson le_trans less_imp_le)
    then show ?thesis using take_le_level [OF lv(1) _ True] k(2) by auto
  qed
  ultimately show ?thesis using a by (auto simp: assumed_def cut)
qed (use a in simp)

lemma level_bound:
  assumes "wf_vars S" "wf_trail S" "assumed as S" shows "decisionLevel S \<le> nVars S + length as"
proof -
  have "{length as<..decisionLevel S} \<subseteq> (\<lambda>l. level S (var l)) ` set (trail S)"
    using assms(3) by (auto simp: assumed_def)
  then have "card {length as<..decisionLevel S} \<le> card (set (trail S))" using surj_card_le by blast
  then show ?thesis using card_length [of "trail S"] wf_trail_length [OF assms(1,2)] by simp
qed

lemma assumed_extend:
  assumes a: "assumed as S" and lim: "trail_lim S' = trail_lim S" and d: "decisions S' \<subseteq> decisions S"
    and old: "\<And>l. l \<in> set (trail S) \<Longrightarrow> l \<in> set (trail S') \<and> level S' (var l) = level S (var l)"
  shows "assumed as S'"
proof -
  have d1: "level S' (var l) = level S (var l)" if "l \<in> decisions S" for l using that old by (auto simp: decisions_def)
  have "as ! k \<in> set (trail S') \<and> level S' (var (as ! k)) \<le> Suc k" if "k < length as" "k < decisionLevel S" for k
    using a that old [of "as ! k"] by (simp add: assumed_def)
  moreover have "l \<in> set as" if "l \<in> decisions S'" "level S' (var l) \<le> length as" for l
    using a that d d1 [of l] by (auto simp: assumed_def)
  moreover have "\<exists>l \<in> set (trail S'). level S' (var l) = k" if k: "length as < k" "k \<le> decisionLevel S" for k
  proof -
    obtain l where "l \<in> set (trail S)" "level S (var l) = k" using a k unfolding assumed_def by blast
    then show ?thesis using old [of l] by auto
  qed
  ultimately show ?thesis by (simp add: assumed_def lim)
qed

lemma search_okD:
  assumes "search_ok P"
  shows "solver_inv (solver P)" "ok (solver P)" "seen_marks P = replicate (nVars (solver P)) False"
    "list_all (live (solver P)) (assumptions P)" "assumed (assumptions P) (solver P)" "conflict P = []"
  using assms by (auto simp: search_ok_def)

lemma prop_rel_live: "prop_rel S S' \<Longrightarrow> live S' = live S"
  by (auto simp: prop_rel_def live_def in_range_def fun_eq_iff)

text \<open>Propagation during the search.\<close>

lemma search_propagate:
  assumes P: "search_ok P" and r: "propagate (solver P) = Some (confl, S)"
  shows "wf_solver S" "cdcl_inv S" "prop_rel (solver P) S" "assumed (assumptions P) S" "live S = live (solver P)"
    "nVars S = nVars (solver P)" "models S = models (solver P)" "ok S" "qhead S = length (trail S)"
    "confl = None \<Longrightarrow> search_ok (P\<lparr>solver := S\<rparr>) \<and> propagated S"
    "confl = Some cr \<Longrightarrow> current_conflict S cr \<and> settled_below S"
proof -
  note I = search_okD [OF P]
  from propagate_search [OF I(1,2)] r
  have S: "wf_solver S" "cdcl_inv S" "prop_rel (solver P) S" "decisions S \<subseteq> decisions (solver P)" "qhead S = length (trail S)"
    "case confl of None \<Rightarrow> solver_inv S \<and> propagated S | Some cr \<Rightarrow> current_conflict S cr \<and> settled_below S"
    by auto
  show "wf_solver S" "cdcl_inv S" "prop_rel (solver P) S" "qhead S = length (trail S)" by (fact S)+
  show eq: "live S = live (solver P)" "nVars S = nVars (solver P)" "models S = models (solver P)" "ok S"
    using prop_rel_live [OF S(3)] S(3) I(2) by (auto simp: prop_rel_def)
  have lv: "trail_levels S" "trail_levels (solver P)" using S(2) I(1) by (auto simp: cdcl_inv_def solver_inv_def)
  have "trail_lim S = trail_lim (solver P)" using S(3) by (simp add: prop_rel_def)
  then show as: "assumed (assumptions P) S"
    using prop_rel_level [OF S(3) lv(2,1)] by (intro assumed_extend [OF I(5) _ S(4)]) auto
  show "search_ok (P\<lparr>solver := S\<rparr>) \<and> propagated S" if "confl = None"
    using S(6) that as eq I by (simp add: search_ok_def)
  show "current_conflict S cr \<and> settled_below S" if "confl = Some cr" using S(6) that by simp
qed

lemma decision_frame [simp]:
  "decision (attachClause cr S) = decision S" "live (uncheckedEnqueue l r S) = live S" "live (cancelUntil lev S) = live S"
  by (simp_all add: attachClause_def Let_def live_def fun_eq_iff)

lemma enqueue_assumed:
  assumes wf: "wf_vars S" "wf_trail S" and l: "in_range S l" "lbool_eq (lit_value S l) l_Undef"
    and a: "assumed as S" "r \<noteq> None \<or> trail_lim S = []"
  shows "assumed as (uncheckedEnqueue l r S)"
proof (rule assumed_extend [OF a(1)])
  show "decisions (uncheckedEnqueue l r S) \<subseteq> decisions S"
    using decisions_enqueue [OF wf l, of r] a(2) by (auto split: if_splits)
qed (use enqueue_frame(1) [OF wf l] in auto)

lemma record_learnt_correct:
  assumes T: "solver_inv T" "ok T" "assumed as T" and lc: "lc \<noteq> []" "distinct lc" "list_all (live T) lc"
    and u: "lbool_eq (lit_value T (lc ! 0)) l_Undef" and f: "\<forall>q \<in> set (tl lc). neg q \<in> set (trail T) \<and> 0 < level T (var q)"
    and lev: "if length lc = 1 then decisionLevel T = 0 else level T (var (lc ! 1)) = decisionLevel T"
    and m: "\<forall>\<sigma> \<in> models T. clause_holds \<sigma> lc"
  shows "\<exists>R. record_learnt lc T = Some R \<and> solver_inv R \<and> ok R \<and> assumed as R \<and> models R = models T \<and>
    nVars R = nVars T \<and> live R = live T \<and> decision R = decision T \<and> trail_lim R = trail_lim T"
proof -
  note I = solver_invD [OF T(1)]
  have l0: "live T (lc ! 0)" using lc(1,3) by (cases lc) auto
  show ?thesis
  proof (cases "length lc = 1")
    case True
    then have lim: "trail_lim T = []" and one: "lc = [lc ! 0]" using lev by (auto simp: length_Suc_conv)
    have "\<forall>\<sigma> \<in> models T. lit_holds \<sigma> (lc ! 0)" using m one by (metis clause_holds_def empty_iff list.set(1) set_ConsD)
    note R = record_unit [OF T(1,2) lim l0 u this]
    show ?thesis
      using R True T(2) enqueue_assumed [OF I(5,6) live_in_range [OF l0] u T(3), of None] lim
      by (simp add: record_learnt_def)
  next
    case False
    then have two: "2 \<le> length lc" using lc(1) by (cases lc; cases "tl lc") auto
    then have l1: "lc ! 1 \<in> set (tl lc)" by (cases lc; cases "tl lc") auto
    have lv: "level T (var (lc ! 1)) = decisionLevel T" using lev False by simp
    then have lim: "trail_lim T \<noteq> []" using f l1 by force
    define A where "A = attachClause (length (ca T))
      (T\<lparr>ca := ca T @ [mkClause lc True True], learnts := learnts T @ [length (ca T)]\<rparr>)"
    have f': "\<forall>q \<in> set (tl lc). neg q \<in> set (trail T)" using f by blast
    note R = record_attach [OF T(1,2) two lc(2,3) u f' lv lim m A_def]
    have uA: "lbool_eq (lit_value A (lc ! 0)) l_Undef" using u R(9) by simp
    have "assumed as A" by (rule assumed_extend [OF T(3)]) (simp_all add: R)
    then have "assumed as (uncheckedEnqueue (lc ! 0) (Some (length (ca T))) A)"
      by (intro enqueue_assumed [OF R(12-14) uA]) simp_all
    moreover have "decision A = decision T" by (simp add: A_def)
    moreover have "record_learnt lc T = Some (uncheckedEnqueue (lc ! 0) (Some (length (ca T))) A)"
      unfolding record_learnt_def Let_def A_def [symmetric] using uA False by simp
    ultimately show ?thesis using R by simp
  qed
qed

lemma resolve_conflict_correct:
  assumes wf: "wf_solver S" "cdcl_inv S" "ok S" "settled_below S" and c: "current_conflict S cr" "0 < decisionLevel S"
    and as: "assumed (assumptions P) S" "list_all (live S) (assumptions P)"
    and P: "solver P = S" "seen_marks P = replicate (nVars S) False" "conflict P = []"
  shows "\<exists>P'. resolve_conflict mode cr P = Some P' \<and> search_ok P' \<and> assumptions P' = assumptions P \<and>
    models (solver P') = models S \<and> nVars (solver P') = nVars S \<and> live (solver P') = live S \<and>
    decision (solver P') = decision S"
proof -
  have b: "wf_base S" "wf_vars S" "wf_trail S" "wf_const S" "trail_levels S"
    using wf(1,2) by (auto simp: wf_solver_base wf_base_def wf_core_def cdcl_inv_def)
  obtain q where q: "q \<in> set (clause_of S cr)" "level S (var q) = decisionLevel S" and f: "falsified S cr"
    using c(1) by (auto simp: current_conflict_def)
  then have "\<exists>l \<in> set (clause_of S cr). 0 < level S (var l)" using c(2) by force
  from analyze_correct [OF wf(1,2) f this, of mode] obtain lc bt lev where
    A: "analyze mode cr (replicate (nVars S) False) S = Some (lc, bt, replicate (nVars S) False, cancelUntil lev S)"
      "current_conflict (cancelUntil lev S) cr" "decisionLevel (cancelUntil lev S) = lev" "analysable (cancelUntil lev S)"
      "learnt_clause_ok (cancelUntil lev S) lc bt"
    by blast
  have "neg q \<in> set (trail (cancelUntil lev S))" using A(2) q(1) by (simp add: current_conflict_def falsified_def)
  from level_le [OF analysableD(4) [OF A(4)] this] have same: "cancelUntil lev S = S" using A(3) q(2) by simp
  have L: "lc \<noteq> []" "distinct lc" "\<forall>l \<in> set lc. neg l \<in> set (trail S)" "level S (var (lc ! 0)) = decisionLevel S"
    "bt < decisionLevel S" "\<forall>l \<in> set (tl lc). 0 < level S (var l) \<and> level S (var l) \<le> bt"
    "if length lc = 1 then bt = 0 else level S (var (lc ! 1)) = bt" "\<forall>\<sigma> \<in> models S. clause_holds \<sigma> lc"
    using A(5) same by (auto simp: learnt_clause_ok_def)
  define T where "T = cancelUntil bt S"
  note cut = cancelUntil_cut [OF b(5,3) L(5), folded T_def]
  have T: "solver_inv T" "ok T" "models T = models S" "live T = live S" "nVars T = nVars S" "decisionLevel T = bt"
    "level T = level S" "assumed (assumptions P) T" "decision T = decision S"
  proof -
    have "wf_const T" using b(4) fixed_backtrack [OF b(5,3), of bt] by (simp add: T_def wf_const_def)
    then show "solver_inv T"
      using backtrack_wf(1) [OF b(1,5), of bt] backtrack_search [OF b(3) wf(2) L(5)] wf(4)
      by (simp add: T_def solver_inv_def wf_solver_base)
    show "models T = models S" using backtrack_wf(2) [OF b(1,5), of bt] by (simp add: T_def)
    show "assumed (assumptions P) T" unfolding T_def by (rule assumed_backtrack [OF b(5,3) as(1)])
  qed (use wf(3) cut(3) L(5) in \<open>simp_all add: T_def\<close>)
  have inT: "neg l \<in> set (trail T)" if "l \<in> set (tl lc)" for l
  proof -
    have "l \<in> set lc" using that L(1) by (cases lc) auto
    then show ?thesis using take_le_level [OF b(5) _ L(5), of "neg l"] L(3,6) that cut(1) by simp
  qed
  have lv: "list_all (live T) lc"
    using L(3) live_trail [OF b(1)] T(4) by (auto simp: list_all_iff) (metis live_neg)
  have und: "lbool_eq (lit_value T (lc ! 0)) l_Undef"
  proof -
    have l0: "lc ! 0 \<in> set lc" "in_range T (lc ! 0)" using L(1) lv live_in_range by (cases lc; auto)+
    have "level T (var l) \<le> bt" if "l \<in> set (trail T)" for l
      using level_le [OF solver_invD(9) [OF T(1)] that] T(6) by simp
    then have "lc ! 0 \<notin> set (trail T)" "neg (lc ! 0) \<notin> set (trail T)" using L(4,5) T(7) by (metis not_le var_neg)+
    then show ?thesis using value_Undef [OF solver_invD(5,6) [OF T(1)] l0(2)] by simp
  qed
  have f: "\<forall>q \<in> set (tl lc). neg q \<in> set (trail T) \<and> 0 < level T (var q)" using inT L(6) T(7) by simp
  have bl: "if length lc = 1 then decisionLevel T = 0 else level T (var (lc ! 1)) = decisionLevel T"
    using L(7) T(6,7) by (simp split: if_splits)
  have m: "\<forall>\<sigma> \<in> models T. clause_holds \<sigma> lc" using L(8) T(3) by simp
  from record_learnt_correct [OF T(1,2,8) L(1,2) lv und f bl m] obtain R where
    R: "record_learnt lc T = Some R" "solver_inv R" "ok R" "assumed (assumptions P) R" "models R = models T"
      "nVars R = nVars T" "live R = live T" "decision R = decision T" "trail_lim R = trail_lim T"
    by blast
  then have R: "record_learnt lc T = Some R" "solver_inv R" "ok R" "assumed (assumptions P) R" "models R = models S"
      "nVars R = nVars S" "live R = live S" "decision R = decision S" "decisionLevel R = bt"
    using T by simp_all
  define P1 where "P1 = P\<lparr>solver := R, seen_marks := replicate (nVars S) False\<rparr>"
  have ok1: "search_ok P1" using R as(2) P(3) by (simp add: search_ok_def P1_def)
  have lim0: "trail_lim R = [] \<longleftrightarrow> bt = 0" using R(9) by auto
  have "resolve_conflict mode cr P =
    Some (if \<not> theories_during_assumptions P \<and> bt > 0 \<and> bt < length (assumptions P)
      then P1\<lparr>theories_during_assumptions := True, solver := cancelUntil 0 R\<rparr> else P1)"
    using A(1) R(1,9) L(5) same P(1,2) lim0 by (simp add: resolve_conflict_def T_def [symmetric] P1_def Let_def)
  moreover have "search_ok (P1\<lparr>theories_during_assumptions := True, solver := cancelUntil 0 R\<rparr>)"
    using ok1 R solver_inv_backtrack [OF R(2), of 0] assumed_backtrack [OF solver_invD(9,6) [OF R(2)] R(4), of 0]
    by (simp add: search_ok_def P1_def)
  moreover have "models (cancelUntil 0 R) = models S"
    using backtrack_wf(2) [OF solver_invD(2,9) [OF R(2)], of 0] R(5) by simp
  ultimately show ?thesis using ok1 R by (simp add: P1_def)
qed

subsection \<open>Assumptions and decisions\<close>

text \<open>What the steps of the search leave as it is.\<close>

definition same_problem :: "Solver \<Rightarrow> Solver \<Rightarrow> bool" where
  "same_problem S S' \<longleftrightarrow> models S' = models S \<and> nVars S' = nVars S \<and> live S' = live S \<and> decision S' = decision S"

lemma same_problem_trans: "same_problem S T \<Longrightarrow> same_problem T U \<Longrightarrow> same_problem S U"
  by (simp add: same_problem_def)

lemma newDecisionLevel_frame [simp]:
  "live (newDecisionLevel S) = live S" "decision (newDecisionLevel S) = decision S" "decisions (newDecisionLevel S) = decisions S"
  "propagated (newDecisionLevel S) = propagated S" "choices (newDecisionLevel S) = choices S"
  "same_problem S (newDecisionLevel S)"
  by (simp_all add: live_def fun_eq_iff decisions_def propagated_def choices_def same_problem_def)
    (simp_all add: newDecisionLevel_def)

lemma solver_inv_level:
  assumes "solver_inv S" "qhead S = length (trail S)" shows "solver_inv (newDecisionLevel S)"
  using assms newDecisionLevel_wf newDecisionLevel_search [of S] by (simp add: solver_inv_def)

lemma assumed_level:
  assumes "assumed as S" "decisionLevel S < length as" "as ! decisionLevel S \<in> set (trail S)"
    "level S (var (as ! decisionLevel S)) \<le> Suc (decisionLevel S)"
  shows "assumed as (newDecisionLevel S)"
  using assms by (auto simp: assumed_def less_Suc_eq)

lemma take_assumptions_correct:
  assumes "solver_inv S" "qhead S = length (trail S)" "assumed as S" "ps = drop (decisionLevel S) as" "list_all (live S) as"
    "take_assumptions ps d S = (S1, d', r)"
  shows "solver_inv S1 \<and> qhead S1 = length (trail S1) \<and> assumed as S1 \<and> same_problem S S1 \<and> ok S1 = ok S \<and>
    trail S1 = trail S \<and> (propagated S \<longrightarrow> propagated S1) \<and>
    (case r of None \<Rightarrow> length as \<le> decisionLevel S1 \<and> (\<not> d' \<longrightarrow> \<not> d \<and> S1 = S)
     | Some p \<Rightarrow> decisionLevel S1 < length as \<and> p = as ! decisionLevel S1 \<and> \<not> lbool_eq (lit_value S1 p) l_True)"
  using assms
proof (induction ps arbitrary: S d)
  case Nil
  then show ?case by (auto simp: same_problem_def)
next
  case (Cons p ps)
  have lt: "decisionLevel S < length as" using Cons.prems(4) by (metis drop_all list.distinct(1) not_le)
  then have p: "p = as ! decisionLevel S" "ps = drop (Suc (decisionLevel S)) as"
    using Cons.prems(4) by (simp_all add: Cons_nth_drop_Suc [symmetric])
  show ?case
  proof (cases "lbool_eq (lit_value S p) l_True")
    case True
    note I = solver_invD [OF Cons.prems(1)]
    have "live S p" using Cons.prems(5) lt p(1) by (simp add: list_all_length)
    then have "p \<in> set (trail S)" using True value_True [OF I(5,6)] live_in_range by blast
    then have "p \<in> set (trail S)" "level S (var p) \<le> Suc (decisionLevel S)" using level_le [OF I(9)] by force+
    then have as: "assumed as (newDecisionLevel S)" using Cons.prems(3) p(1) lt by (intro assumed_level) auto
    have eq: "take_assumptions ps True (newDecisionLevel S) = (S1, d', r)" using Cons.prems(6) True by simp
    have "solver_inv S1 \<and> qhead S1 = length (trail S1) \<and> assumed as S1 \<and> same_problem (newDecisionLevel S) S1 \<and>
      ok S1 = ok (newDecisionLevel S) \<and> trail S1 = trail (newDecisionLevel S) \<and> (propagated (newDecisionLevel S) \<longrightarrow> propagated S1) \<and>
      (case r of None \<Rightarrow> length as \<le> decisionLevel S1 \<and> (\<not> d' \<longrightarrow> \<not> True \<and> S1 = newDecisionLevel S)
       | Some p \<Rightarrow> decisionLevel S1 < length as \<and> p = as ! decisionLevel S1 \<and> \<not> lbool_eq (lit_value S1 p) l_True)"
      using Cons.prems(2,5) p(2) by (intro Cons.IH [OF solver_inv_level [OF Cons.prems(1,2)] _ as _ _ eq]) simp_all
    then show ?thesis using same_problem_trans [of S "newDecisionLevel S" S1] by (auto split: option.splits)
  next
    case False
    then have "S1 = S" "d' = d" "r = Some p" using Cons.prems(6) by simp_all
    then show ?thesis using Cons.prems(1-3) lt p(1) False by (simp add: same_problem_def)
  qed
qed

lemma make_decision_eq:
  assumes "make_decision l n S = Some S2" shows "S2 = decide l S"
  using assms by (auto simp: make_decision_def enqueue_def decide_def Let_def split: if_splits)

lemma make_decision_returns:
  assumes "wf_vars S" "wf_trail S" "assumed as S" "live S l" "lbool_eq (lit_value S l) l_Undef"
  shows "make_decision l (length as) S = Some (decide l S)"
proof -
  have "in_range S l" by (rule live_in_range [OF assms(4)])
  moreover from this have "l \<noteq> lit_Undef" by (auto simp: in_range_def var_Undef_def)
  ultimately show ?thesis using level_bound [OF assms(1-3)] assms(5)
    by (simp add: make_decision_def enqueue_def decide_def Let_def in_range_def)
qed

lemma decide_correct:
  assumes S: "solver_inv S" "ok S" "qhead S = length (trail S)" "assumed as S" and l: "live S l" "lbool_eq (lit_value S l) l_Undef"
    and a: "decisionLevel S < length as \<Longrightarrow> l = as ! decisionLevel S"
  shows "solver_inv (decide l S)" "assumed as (decide l S)" "same_problem S (decide l S)" "ok (decide l S)"
proof -
  note D = solver_inv_decide [OF S(1-3) l]
  show "solver_inv (decide l S)" by (rule D(2))
  show "same_problem S (decide l S)" "ok (decide l S)"
    using D(3) S(2) by (simp_all add: same_problem_def decide_def)
  let ?N = "newDecisionLevel S"
  note N = solver_invD [OF D(1)]
  have lN: "in_range ?N l" "lbool_eq (lit_value ?N l) l_Undef" using l live_in_range [of S l] by simp_all
  have lev: "level (decide l S) (var l) = Suc (decisionLevel S)"
    using level_uncheckedEnqueue [OF N(5) lN(1), of "var l" None] lN(1) by (simp add: decide_def in_range_def)
  have old: "level (decide l S) (var q) = level S (var q)" if "q \<in> set (trail S)" for q
    using enqueue_frame(1) [OF N(5,6) lN] that by (simp add: decide_def)
  have dec: "decisions (decide l S) \<subseteq> insert l (decisions S)"
    using decisions_enqueue [OF N(5,6) lN, of None] by (simp add: decide_def)
  have tr: "trail (decide l S) = trail S @ [l]" "trail_lim (decide l S) = trail_lim S @ [length (trail S)]"
    by (simp_all add: decide_def)
  show "assumed as (decide l S)"
    unfolding assumed_def
  proof (intro conjI allI impI ballI)
    fix k assume k: "k < length as" "k < decisionLevel (decide l S)"
    then have "k < decisionLevel S \<or> k = decisionLevel S" by (auto simp: tr(2))
    then show "as ! k \<in> set (trail (decide l S))" "level (decide l S) (var (as ! k)) \<le> Suc k"
      using S(4) k(1) old a lev tr(1) by (auto simp: assumed_def)
  next
    fix q assume q: "q \<in> decisions (decide l S)" "level (decide l S) (var q) \<le> length as"
    show "q \<in> set as"
    proof (cases "q = l")
      case True
      then have "decisionLevel S < length as" using q(2) lev by simp
      then show ?thesis using a True by simp
    next
      case False
      then have "q \<in> decisions S" using q(1) dec by auto
      then show ?thesis using S(4) q(2) old by (auto simp: assumed_def decisions_def)
    qed
  next
    fix k assume k: "length as < k \<and> k \<le> decisionLevel (decide l S)"
    show "\<exists>q \<in> set (trail (decide l S)). level (decide l S) (var q) = k"
    proof (cases "k \<le> decisionLevel S")
      case True
      then obtain q where "q \<in> set (trail S)" "level S (var q) = k" using S(4) k unfolding assumed_def by blast
      then show ?thesis using old tr(1) by auto
    qed (use k lev tr in auto)
  qed
qed

subsection \<open>Every step is sound\<close>

text \<open>What an answer says of the state \<open>P\<close> in which the search began.\<close>

definition answer_ok :: "Search \<Rightarrow> lbool \<Rightarrow> Search \<Rightarrow> bool" where
  "answer_ok P r P' \<longleftrightarrow> assumptions P' = assumptions P \<and> same_problem (solver P) (solver P') \<and>
     wf_solver (solver P') \<and> cdcl_inv (solver P') \<and> ok (solver P') \<and>
     (if r = l_Undef then search_ok P' \<and> decisionLevel (solver P') = 0
      else if r = l_False then
        (if conflict P' = [] then models (solver P) = {}
         else settled (solver P') \<and> set (conflict P') \<subseteq> neg ` set (assumptions P) \<and>
           (\<forall>\<sigma> \<in> models (solver P). clause_holds \<sigma> (conflict P')))
      else settled (solver P') \<and> propagated (solver P') \<and> set (assumptions P) \<subseteq> set (trail (solver P')) \<and>
        choices (solver P') = {})"

lemma lbool_distinct [simp]:
  "l_True \<noteq> l_Undef" "l_False \<noteq> l_Undef" "l_True \<noteq> l_False" "l_Undef \<noteq> l_True" "l_Undef \<noteq> l_False" "l_False \<noteq> l_True"
  by (simp_all add: l_True_def l_False_def l_Undef_def)

lemma final_loop_keeps: "set (snd F) \<subseteq> set (snd (final_loop S j0 F))"
proof -
  have "set (snd F) \<subseteq> set (snd (fold (final_step S j0) is F))" for "is"
  proof (induction "is" arbitrary: F)
    case (Cons i "is")
    have "set (snd F) \<subseteq> set (snd (final_step S j0 i F))"
      by (cases F) (auto simp: final_step_def Let_def split: option.splits)
    then show ?case using Cons [of "final_step S j0 i F"] by auto
  qed simp
  then show ?thesis by (simp add: final_loop_def)
qed

lemma analyzeFinal_mem: "p \<in> set (fst (analyzeFinal p sn S))"
  using final_loop_keeps [of "(set_seen True p sn, [p])" S 1] by (auto simp: analyzeFinal_def split: prod.split)

lemma propagate_watches_decision:
  "decision (fst (snd (propagate_watches p xs js S))) = decision S"
proof -
  have step: "decision S' = decision S" if "watch_step p (xs, js, S) (is', js', S')" for xs js S is' js' S'
    using that by cases (simp_all add: swapped_state_def)
  have steps: "decision S' = decision S" if "(watch_step p)\<^sup>*\<^sup>* (xs, js, S) (is', js', S')" for is' js' S'
    using that
  proof (induction "(is', js', S')" arbitrary: is' js' S')
    case (step y)
    then show ?case using \<open>\<And>xs js S is' js' S'. watch_step p (xs, js, S) (is', js', S') \<Longrightarrow> _\<close> by (cases y) metis
  qed simp
  obtain js' S' c where r: "propagate_watches p xs js S = (js', S', c)" by (metis prod_cases3)
  show ?thesis
  proof (cases c)
    case None
    then show ?thesis using steps propagate_watches_steps [of p xs js S] unfolding r by simp
  next
    case (Some cr)
    then obtain w is1 js1 S1 where "(watch_step p)\<^sup>*\<^sup>* (xs, js, S) (w # is1, js1, S1)"
      "S' = (swapped_state p w S1)\<lparr>qhead := length (trail S1)\<rparr>"
      using propagate_watches_steps [of p xs js S] unfolding r by auto
    then show ?thesis using steps unfolding r by (simp add: swapped_state_def)
  qed
qed

lemma propagate_decision:
  assumes "propagate S = Some (confl, S')" shows "decision S' = decision S"
proof -
  have "decision (snd r) = decision S" if "propagate_loop c S = Some r" for c S r
  proof (rule propagate_loop.raw_induct [where P = "\<lambda>c S r. decision (snd r) = decision S", OF _ that])
    fix f c S r
    assume IH: "\<And>c T y. f c T = Some y \<Longrightarrow> decision (snd y) = decision (T :: Solver)"
      and eq: "(if qhead S < length (trail S)
        then let p = trail S ! qhead S; S1 = S\<lparr>qhead := Suc (qhead S)\<rparr>;
                 r = propagate_watches p (watches S1 ! nat (toInt p)) [] S1
             in Let (set_watches p (fst r) (fst (snd r))) (f (case snd (snd r) of None \<Rightarrow> c | Some cr \<Rightarrow> Some cr))
        else Some (c, S)) = Some r"
    show "decision (snd r) = decision S"
      using eq by (auto simp: Let_def propagate_watches_decision dest: IH split: if_splits)
  qed
  then show ?thesis using assms by (fastforce simp: propagate_def)
qed

lemma prop_rel_problem: "prop_rel S S' \<Longrightarrow> decision S' = decision S \<Longrightarrow> same_problem S S'"
  using prop_rel_live [of S S'] by (simp add: same_problem_def prop_rel_def)

text \<open>After a propagation without conflict, and the assumptions.\<close>

lemma search_assumptions:
  assumes P: "search_ok P" and p: "propagate (solver P) = Some (None, S)"
    and t: "take_assumptions (drop (decisionLevel S) (assumptions P)) False S = (S1, d, r)"
  shows "solver_inv S1" "qhead S1 = length (trail S1)" "assumed (assumptions P) S1" "same_problem (solver P) S1" "ok S1"
    "propagated S1" "seen_marks P = replicate (nVars S1) False" "list_all (live S1) (assumptions P)"
    "r = None \<Longrightarrow> length (assumptions P) \<le> decisionLevel S1"
    "r = Some q \<Longrightarrow> decisionLevel S1 < length (assumptions P) \<and> q = assumptions P ! decisionLevel S1 \<and>
       \<not> lbool_eq (lit_value S1 q) l_True"
proof -
  note I = search_propagate [OF P p] and J = search_okD [OF P]
  have S: "solver_inv S" "assumed (assumptions P) S" "propagated S" "list_all (live S) (assumptions P)" "ok S"
    using I(10) by (auto simp: search_ok_def)
  note T = take_assumptions_correct [OF S(1) I(9) S(2) refl S(4) t]
  have "same_problem (solver P) S" using prop_rel_problem [OF I(3) propagate_decision [OF p]] .
  then show sp: "same_problem (solver P) S1" using T same_problem_trans by blast
  show "solver_inv S1" "qhead S1 = length (trail S1)" "assumed (assumptions P) S1" "ok S1" "propagated S1"
    using T S(3,5) by simp_all
  show "seen_marks P = replicate (nVars S1) False" "list_all (live S1) (assumptions P)"
    using J(3,4) sp by (simp_all add: same_problem_def)
  show "r = None \<Longrightarrow> length (assumptions P) \<le> decisionLevel S1" using T by simp
  show "r = Some q \<Longrightarrow> decisionLevel S1 < length (assumptions P) \<and> q = assumptions P ! decisionLevel S1 \<and>
       \<not> lbool_eq (lit_value S1 q) l_True" using T by auto
qed

lemma lit_value_cases:
  assumes "wf_vars S" "\<not> lbool_eq (lit_value S p) l_True" "\<not> lbool_eq (lit_value S p) l_False"
  shows "lbool_eq (lit_value S p) l_Undef"
  using assms by (cases "tri (lit_value S p)") auto

lemma search_decide:
  assumes S: "solver_inv S1" "qhead S1 = length (trail S1)" "assumed (assumptions P) S1" "same_problem (solver P) S1" "ok S1"
    "seen_marks P = replicate (nVars S1) False" "list_all (live S1) (assumptions P)" "conflict P = []"
    and l: "live S1 l" "lbool_eq (lit_value S1 l) l_Undef" "decisionLevel S1 < length (assumptions P) \<Longrightarrow> l = assumptions P ! decisionLevel S1"
  shows "search_ok (P\<lparr>solver := decide l S1\<rparr>) \<and> same_problem (solver P) (decide l S1)"
proof -
  note D = decide_correct [OF S(1,5,2,3) l]
  have "same_problem (solver P) (decide l S1)" using S(4) D(3) by (rule same_problem_trans)
  moreover have "nVars (decide l S1) = nVars S1" "live (decide l S1) = live S1" using D(3) by (auto simp: same_problem_def)
  ultimately show ?thesis using D S(6-8) by (simp add: search_ok_def)
qed

lemma search_failed:
  assumes S: "solver_inv S1" "assumed (assumptions P) S1" "list_all (live S1) (assumptions P)" "seen_marks P = replicate (nVars S1) False"
    and p: "decisionLevel S1 < length (assumptions P)" "p = assumptions P ! decisionLevel S1" "lbool_eq (lit_value S1 p) l_False"
    and r: "analyzeFinal (neg p) (seen_marks P) S1 = (out, sn)"
  shows "out \<noteq> [] \<and> set out \<subseteq> neg ` set (assumptions P) \<and> (\<forall>\<sigma> \<in> models S1. clause_holds \<sigma> out) \<and> sn = replicate (nVars S1) False"
proof -
  note I = solver_invD [OF S(1)]
  have pA: "p \<in> set (assumptions P)" using p by simp
  then have "live S1 p" using S(3) by (simp add: list_all_iff)
  then have np: "neg p \<in> set (trail S1)" using value_False [OF I(5,6) live_in_range] p(3) by blast
  from analyzeFinal_correct [OF I(1,8) np] r S(4) have
    R: "sn = replicate (nVars S1) False" "\<forall>\<sigma> \<in> models S1. clause_holds \<sigma> out" "set out \<subseteq> insert (neg p) (neg ` decisions S1)"
    by auto
  have "l \<in> set (assumptions P)" if "l \<in> decisions S1" for l
  proof -
    have "level S1 (var l) \<le> decisionLevel S1" using that level_le [OF I(9)] by (auto simp: decisions_def)
    then show ?thesis using S(2) that p(1) by (auto simp: assumed_def)
  qed
  moreover have "neg p \<in> set out" using analyzeFinal_mem [of "neg p" "seen_marks P" S1] r by simp
  ultimately show ?thesis using R pA by (cases out) auto
qed

lemma search_step_correct:
  assumes P: "search_ok P" and st: "search_step mode P res"
  shows "case res of
      Continue P' \<Rightarrow> search_ok P' \<and> assumptions P' = assumptions P \<and> same_problem (solver P) (solver P')
    | Return r P' \<Rightarrow> answer_ok P r P'"
  using st
proof cases
  case (unsat cr S)
  note I = search_propagate [OF P unsat(2)]
  have "models S = {}"
    using I(11) [of cr] I(1) unsat(3) models_conflict [of S cr] by (auto simp: current_conflict_def falsified_def wf_solver_def)
  then show ?thesis
    using I unsat search_okD [OF P] prop_rel_problem [OF I(3) propagate_decision [OF unsat(2)]] by (simp add: answer_ok_def)
next
  case (learn cr S P')
  note I = search_propagate [OF P learn(2)] and J = search_okD [OF P]
  have c: "current_conflict S cr" "settled_below S" using I(11) [of cr] by auto
  from resolve_conflict_correct [OF I(1,2,8) c(2,1) learn(3), of "P\<lparr>solver := S\<rparr>" mode] I(4-6) J learn(4)
  have "search_ok P'" "assumptions P' = assumptions P" "same_problem S (solver P')"
    by (auto simp: same_problem_def)
  then show ?thesis
    using learn(1) same_problem_trans [OF prop_rel_problem [OF I(3) propagate_decision [OF learn(2)]]] by simp
next
  case (restart S)
  note I = search_propagate [OF P restart(2)] and J = search_okD [OF P]
  have S: "solver_inv S" using I(10) by (simp add: search_ok_def)
  note D = solver_invD [OF solver_inv_backtrack [OF S, of 0]]
  have "models (cancelUntil 0 S) = models S" using backtrack_wf(2) [OF solver_invD(2,9) [OF S], of 0] .
  then have sp: "same_problem (solver P) (cancelUntil 0 S)"
    using prop_rel_problem [OF I(3) propagate_decision [OF restart(2)]] by (simp add: same_problem_def)
  then have "search_ok (P\<lparr>solver := cancelUntil 0 S\<rparr>)"
    using J solver_inv_backtrack [OF S, of 0] assumed_backtrack [OF solver_invD(9,6) [OF S] I(4), of 0] I(8)
    by (simp add: search_ok_def same_problem_def)
  then show ?thesis using sp D(1,8) I(8) restart(1) by (simp add: answer_ok_def)
next
  case (failed S S1 d p out sn)
  note A = search_assumptions [OF P failed(2,3)] and J = search_okD [OF P]
  have q: "decisionLevel S1 < length (assumptions P)" "p = assumptions P ! decisionLevel S1" using A(10) [OF refl] by auto
  note F = search_failed [OF A(1,3,8,7) q failed(4,5)]
  have "models S1 = models (solver P)" using A(4) by (simp add: same_problem_def)
  then show ?thesis using A(4,5) F failed(1) solver_invD [OF A(1)] by (simp add: answer_ok_def)
next
  case (assume_lit S S1 d p S2)
  note A = search_assumptions [OF P assume_lit(2,3)] and J = search_okD [OF P]
  have q: "decisionLevel S1 < length (assumptions P)" "p = assumptions P ! decisionLevel S1"
    "\<not> lbool_eq (lit_value S1 p) l_True" using A(10) [OF refl] by auto
  have "live S1 p" using A(8) q by (simp add: list_all_length)
  moreover have "lbool_eq (lit_value S1 p) l_Undef"
    by (rule lit_value_cases [OF solver_invD(5) [OF A(1)] q(3) assume_lit(4)])
  ultimately show ?thesis
    using search_decide [OF A(1-5,7,8) J(6), of p] q(2) assume_lit(1) make_decision_eq [OF assume_lit(5)] by simp
next
  case (dummy S S1)
  note A = search_assumptions [OF P dummy(2,3)] and J = search_okD [OF P]
  then show ?thesis using dummy(1) by (simp add: search_ok_def)
next
  case (branch S S1 l S2)
  note A = search_assumptions [OF P branch(2,3)] and J = search_okD [OF P]
  have l: "live S1 l" "lbool_eq (lit_value S1 l) l_Undef" using branch(4) by (auto simp: choices_def)
  have "\<not> decisionLevel S1 < length (assumptions P)" using A(9) by simp
  then show ?thesis using search_decide [OF A(1-5,7,8) J(6) l] branch(1) make_decision_eq [OF branch(5)] by simp
next
  case (sat S S1)
  note A = search_assumptions [OF P sat(2,3)] and J = search_okD [OF P]
  have "set (assumptions P) \<subseteq> set (trail S1)"
    using A(3,9) by (auto simp: assumed_def in_set_conv_nth)
  moreover have "solver_inv (newDecisionLevel S1)" by (rule solver_inv_level [OF A(1,2)])
  ultimately show ?thesis
    using sat(1,4) A(4-6) solver_invD [OF \<open>solver_inv (newDecisionLevel S1)\<close>] same_problem_trans [OF A(4)]
    by (simp add: answer_ok_def)
qed

lemma answer_trans:
  assumes "assumptions P1 = assumptions P" "same_problem (solver P) (solver P1)" "answer_ok P1 r P'"
  shows "answer_ok P r P'"
proof -
  have "models (solver P1) = models (solver P)" using assms(2) by (simp add: same_problem_def)
  then show ?thesis using assms same_problem_trans [OF assms(2)] by (auto simp: answer_ok_def)
qed

lemma search_answer_ok:
  assumes "search mode P r P'" "search_ok P"
  shows "answer_ok P r P'"
  using assms
proof (induction rule: search.induct)
  case (search_return P r P')
  then show ?case using search_step_correct by fastforce
next
  case (search_continue P P1 r P')
  then show ?case using search_step_correct [OF search_continue.prems search_continue.hyps(1)] answer_trans by auto
qed

lemma search_ok_option [simp]: "search_ok (P\<lparr>theories_during_assumptions := b\<rparr>) = search_ok P"
  "answer_ok (P\<lparr>theories_during_assumptions := b\<rparr>) r P' = answer_ok P r P'"
  by (simp_all add: search_ok_def answer_ok_def)

lemma solve_loop_correct:
  assumes "solve_loop mode opt P r P'" "search_ok P"
  shows "answer_ok P r P'"
  using assms
proof (induction rule: solve_loop.induct)
  case (solve_stop P r P')
  then show ?case using search_answer_ok by fastforce
next
  case (solve_again P P1 r P')
  then have "answer_ok P l_Undef P1" using search_answer_ok by fastforce
  then have "assumptions P1 = assumptions P" "same_problem (solver P) (solver P1)" "search_ok P1" by (auto simp: answer_ok_def)
  then show ?case using answer_trans solve_again.IH by blast
qed

lemma start_search_ok:
  assumes "solver_inv S" "ok S" "list_all (live S) as"
  shows "search_ok (start_search as S)" "same_problem S (solver (start_search as S))"
proof -
  note I = solver_invD [OF assms(1)] and C = solver_inv_backtrack [OF assms(1), of 0]
  have "decisions (cancelUntil 0 S) = {}"
    using level_le [OF solver_invD(9) [OF C]] by (force simp: decisions_def)
  then have "assumed as (cancelUntil 0 S)" by (simp add: assumed_def)
  then show "search_ok (start_search as S)" using assms C by (simp add: search_ok_def start_search_def)
  show "same_problem S (solver (start_search as S))"
    using backtrack_wf(2) [OF I(2,9), of 0] by (simp add: same_problem_def start_search_def)
qed

text \<open>The assignment that a vector of lifted booleans describes; it is a model when every clause has a true literal.\<close>

definition model_of :: "lbool list \<Rightarrow> assignment" where
  "model_of m = (\<lambda>x. lbool_eq (m ! nat x) l_True)"

lemma model_of_trail:
  assumes wf: "wf_vars S" "wf_trail S" and l: "l \<in> set (trail S)"
  shows "lit_holds (model_of (assigns S)) l"
proof -
  have r: "in_range S l" using wf(2) l by (simp add: wf_trail_def)
  then have "tri (lit_value S l) = Some True" using wf(2) l by (simp add: wf_trail_def)
  then show ?thesis
    using r wf(1) var_index [OF r] by (auto simp: model_of_def lit_holds_def lit_value_def wf_vars_def)
qed

lemma propagated_model:
  assumes inv: "wf_solver S" "ok S" "propagated S" and all: "\<forall>l. live S l \<longrightarrow> l \<in> set (trail S) \<or> neg l \<in> set (trail S)"
  shows "model_of (assigns S) \<in> models S"
proof -
  have wf: "wf_vars S" "wf_trail S" "wf_clauses S" "wf_base S" using inv(1) by (auto simp: wf_solver_base wf_base_def wf_core_def)
  have "\<exists>l \<in> set (clause_of S cr). l \<in> set (trail S)" if cr: "cr \<in> set (db S)" for cr
  proof -
    have "0 < length (clause_of S cr)" using wf(3) cr by (force simp: wf_clauses_def)
    then have c0: "clause_of S cr ! 0 \<in> set (clause_of S cr)" by simp
    then have "live S (clause_of S cr ! 0)" using live_clause [OF wf(4) cr] by blast
    then show ?thesis using inv(3) cr c0 all unfolding propagated_def by blast
  qed
  then show ?thesis
    using inv(2) model_of_trail [OF wf(1,2)] by (auto simp: models_def clause_holds_def fixed_lits_def)
qed

lemma choices_complete:
  assumes wf: "wf_solver S" and d: "\<forall>l. live S l \<longrightarrow> decision S ! nat (var l)" and c: "choices S = {}" and l: "live S l"
  shows "l \<in> set (trail S) \<or> neg l \<in> set (trail S)"
proof -
  have "\<not> lbool_eq (lit_value S l) l_Undef" using c d l by (auto simp: choices_def)
  then show ?thesis using value_Undef [of S l] wf live_in_range [OF l] by (auto simp: wf_solver_def)
qed

text \<open>The answer of \<open>solve_\<close>, made of the last answer of \<open>search\<close>.\<close>

definition solved_ok :: "Lit list \<Rightarrow> Solver \<Rightarrow> solve_result \<Rightarrow> bool" where
  "solved_ok as S res \<longleftrightarrow> (\<exists>r m c S'. res = Solved r m c S' \<and> solver_inv S' \<and> models S' = models S \<and>
    (r = l_False \<longrightarrow> set c \<subseteq> neg ` set as \<and> (\<forall>\<sigma> \<in> models S. clause_holds \<sigma> c) \<and> (c = [] \<longrightarrow> \<not> ok S')) \<and>
    (r = l_True \<longrightarrow> (\<forall>l \<in> set as. lit_holds (model_of m) l) \<and>
       ((\<forall>l. live S l \<longrightarrow> decision S ! nat (var l)) \<longrightarrow> model_of m \<in> models S)))"

lemma finish_false:
  assumes A: "answer_ok P0 l_False P" and m: "models (solver P0) = models S" "assumptions P0 = as"
  shows "solved_ok as S (finish_search l_False P)"
proof (cases "conflict P = []")
  case True
  let ?S = "(solver P)\<lparr>ok := False\<rparr>"
  have "models S = {}" using A True m by (simp add: answer_ok_def)
  moreover have "solver_inv ?S"
    using A by (simp add: answer_ok_def solver_inv_def wf_solver_base wf_base_ok) (auto simp: wf_const_def in_range_def)
  moreover have "models ?S = {}" by (simp add: models_def)
  ultimately show ?thesis using True by (simp add: finish_search_def solved_ok_def)
next
  case False
  then show ?thesis
    using A m by (auto simp: finish_search_def answer_ok_def solver_inv_def solved_ok_def same_problem_def)
qed

lemma finish_true:
  assumes A: "answer_ok P0 r P" "r \<noteq> l_Undef" "r \<noteq> l_False" and s: "same_problem S (solver P0)" "assumptions P0 = as"
  shows "solved_ok as S (finish_search r P)"
proof -
  let ?S = "solver P"
  have P: "settled ?S" "propagated ?S" "set as \<subseteq> set (trail ?S)" "choices ?S = {}" "assumptions P = as"
    "wf_solver ?S" "cdcl_inv ?S" "ok ?S" "wf_vars ?S" "wf_trail ?S"
    using A s(2) by (auto simp: answer_ok_def wf_solver_def)
  have same: "same_problem S ?S" using A(1) same_problem_trans [OF s(1)] by (auto simp: answer_ok_def)
  then have "model_of (assigns ?S) \<in> models S" if "\<forall>l. live S l \<longrightarrow> decision S ! nat (var l)"
    using propagated_model [OF P(6,8,2)] choices_complete [OF P(6) _ P(4)] that by (auto simp: same_problem_def)
  moreover have "list_all (\<lambda>l. lbool_eq (lit_value ?S l) l_True) (assumptions P)"
    using P(3,5) value_True [OF P(9,10)] P(10) by (auto simp: list_all_iff wf_trail_def)
  ultimately show ?thesis
    using P model_of_trail [OF P(9,10)] A(2,3) same by (auto simp: finish_search_def solver_inv_def solved_ok_def same_problem_def)
qed

lemma solve_solved:
  assumes "solver_inv S" "list_all (live S) as" "solve mode opt as S res"
  shows "solved_ok as S res"
  using assms(3)
proof cases
  case solve_not_ok
  then show ?thesis
    using solver_inv_backtrack [OF assms(1), of 0] backtrack_wf(2) [OF solver_invD(2,9) [OF assms(1)], of 0]
    by (auto simp: models_def solved_ok_def)
next
  case (solve_run r P)
  note st = start_search_ok [OF assms(1) solve_run(2) assms(2)]
  have A: "answer_ok (start_search as S) r P" by (rule solve_loop_correct [OF solve_run(3) st(1)])
  have as: "assumptions (start_search as S) = as" by (simp add: start_search_def)
  have m: "models (solver (start_search as S)) = models S" using st(2) by (simp add: same_problem_def)
  consider (undef) "r = l_Undef" | (false) "r = l_False" | (true) "r \<noteq> l_Undef" "r \<noteq> l_False" by blast
  then show ?thesis
  proof cases
    case undef
    then show ?thesis
      using A solve_run(1) m by (auto simp: finish_search_def answer_ok_def search_ok_def solved_ok_def same_problem_def)
  next
    case false
    then show ?thesis using finish_false [OF _ m as] A solve_run(1) by simp
  next
    case true
    then show ?thesis using finish_true [OF A true st(2) as] solve_run(1) by simp
  qed
qed

subsection \<open>Properties\<close>


text \<open>A run on the clauses \<open>~x0 | x1\<close> and \<open>~x0 | ~x1\<close> under the assumption \<open>x0\<close>: the assumption is taken, propagation finds a
  conflict, \<open>~x0\<close> is learnt, and the assumption fails.\<close>

definition run0 :: Search where
  "run0 = (start_search [mkLit 0 False] two_clauses)\<lparr>theories_during_assumptions := True\<rparr>"

definition run1 :: Search where
  "run1 = run0\<lparr>solver := snd (enqueue (mkLit 0 False) None (newDecisionLevel (solver run0)))\<rparr>"

definition run2 :: Search where
  "run2 = the (resolve_conflict 2 1 (run1\<lparr>solver := snd (the (propagate (solver run1)))\<rparr>))"

definition run3 :: Search where
  "run3 = run2\<lparr>solver := snd (the (propagate (solver run2))), conflict := [mkLit 0 True], seen_marks := [False, False, False]\<rparr>"

lemma run0_step: "search_step 2 run0 (Continue run1)"
proof -
  have "propagate (solver run0) = Some (None, solver run0)"
    "take_assumptions (drop (decisionLevel (solver run0)) (assumptions run0)) False (solver run0) = (solver run0, False, Some (mkLit 0 False))"
    "\<not> lbool_eq (lit_value (solver run0) (mkLit 0 False)) l_False"
    "make_decision (mkLit 0 False) (length (assumptions run0)) (solver run0) = Some (solver run1)" by code_simp+
  from search_step.assume_lit [OF this] show ?thesis by (simp add: run1_def)
qed

lemma run1_step: "search_step 2 run1 (Continue run2)"
proof -
  let ?S = "snd (the (propagate (solver run1)))"
  have "propagate (solver run1) = Some (Some 1, ?S)" "decisionLevel ?S > 0"
    "resolve_conflict 2 1 (run1\<lparr>solver := ?S\<rparr>) = Some run2" by code_simp+
  from search_step.learn [OF this] show ?thesis .
qed

lemma run2_step: "search_step 2 run2 (Return l_False run3)"
proof -
  let ?S = "snd (the (propagate (solver run2)))"
  have "propagate (solver run2) = Some (None, ?S)"
    "take_assumptions (drop (decisionLevel ?S) (assumptions run2)) False ?S = (?S, False, Some (mkLit 0 False))"
    "lbool_eq (lit_value ?S (mkLit 0 False)) l_False"
    "analyzeFinal (neg (mkLit 0 False)) (seen_marks run2) ?S = ([mkLit 0 True], [False, False, False])" by code_simp+
  from search_step.failed [OF this] show ?thesis by (simp add: run3_def)
qed

lemma run_solve: "solve 2 True [mkLit 0 False] two_clauses (Solved l_False [] [mkLit 0 True] (solver run3))"
proof -
  have "search 2 run0 l_False run3"
    using run0_step run1_step run2_step by (blast intro: search.intros)
  then have "solve_loop 2 True (start_search [mkLit 0 False] two_clauses) l_False run3"
    by (intro solve_stop) (simp add: run0_def)
  from solve_run [OF two_clauses_facts(3) this] show ?thesis
    by (simp add: finish_search_def run3_def)
qed


text \<open>Every state has a next step: after a conflict, and after a propagation without one.\<close>

lemma conflict_resolved:
  assumes ok: "search_ok P" and p: "propagate (solver P) = Some (Some cr, T)" "decisionLevel T > 0"
  shows "\<exists>P'. resolve_conflict mode cr (P\<lparr>solver := T\<rparr>) = Some P'"
proof -
  note I = search_propagate [OF ok p(1)]
  have "current_conflict T cr" "settled_below T" using I(11) [of cr] by auto
  from resolve_conflict_correct [OF I(1,2,8) this(2,1) p(2), of "P\<lparr>solver := T\<rparr>" mode] show ?thesis
    using I(4-6) search_okD [OF ok] by auto
qed

lemma choice_decided:
  assumes ok: "search_ok P" and p: "propagate (solver P) = Some (None, T)"
    and t: "take_assumptions (drop (decisionLevel T) (assumptions P)) False T = (S1, d, None)" and l: "l \<in> choices S1"
  shows "make_decision l (length (assumptions P)) S1 = Some (decide l S1)"
proof -
  note A = search_assumptions [OF ok p t]
  show ?thesis by (rule make_decision_returns [OF solver_invD(5,6) [OF A(1)] A(3)]) (use l in \<open>simp_all add: choices_def\<close>)
qed

lemma assumption_step:
  assumes ok: "search_ok P" and p: "propagate (solver P) = Some (None, T)"
    and t: "take_assumptions (drop (decisionLevel T) (assumptions P)) False T = (S1, d, Some a)"
  shows "\<exists>res. search_step mode P res \<and> (\<forall>P'. res \<noteq> Return l_Undef P')"
proof (cases "lbool_eq (lit_value S1 a) l_False")
  case True
  obtain out sn where "analyzeFinal (neg a) (seen_marks P) S1 = (out, sn)" by fastforce
  from search_step.failed [OF p t True this, of mode] show ?thesis
    by (intro exI [of _ "Return l_False (P\<lparr>solver := S1, conflict := out, seen_marks := sn\<rparr>)"]) simp
next
  case False
  note A = search_assumptions [OF ok p t]
  have a: "decisionLevel S1 < length (assumptions P)" "a = assumptions P ! decisionLevel S1" "\<not> lbool_eq (lit_value S1 a) l_True"
    using A(10) [OF refl] by auto
  have "live S1 a" using A(8) a by (simp add: list_all_length)
  from make_decision_returns [OF solver_invD(5,6) [OF A(1)] A(3) this lit_value_cases [OF solver_invD(5) [OF A(1)] a(3) False]]
  show ?thesis using search_step.assume_lit [OF p t False] by blast
qed

lemma decision_step:
  assumes ok: "search_ok P" and p: "propagate (solver P) = Some (None, T)"
    and t: "take_assumptions (drop (decisionLevel T) (assumptions P)) False T = (S1, d, None)"
  shows "\<exists>res. search_step mode P res \<and> (\<forall>P'. res \<noteq> Return l_Undef P')"
proof -
  consider d | "\<not> d" "choices S1 = {}" | l where "\<not> d" "l \<in> choices S1" by blast
  then show ?thesis
  proof cases
    case 1
    then show ?thesis using search_step.dummy [OF p, of S1 mode] t by simp blast
  next
    case 2
    then show ?thesis
      using search_step.sat [OF p, of S1 mode] t by (intro exI [of _ "Return l_True (P\<lparr>solver := newDecisionLevel S1\<rparr>)"]) simp
  next
    case 3
    then show ?thesis using search_step.branch [OF p _ 3(2) choice_decided [OF ok p t 3(2)], of mode] t by simp blast
  qed
qed

lemma search_progress:
  assumes ok: "search_ok P"
  shows "\<exists>res. search_step mode P res \<and> (\<forall>P'. res \<noteq> Return l_Undef P')"
proof -
  from propagate_search [OF search_okD(1,2) [OF ok]] obtain confl T where p: "propagate (solver P) = Some (confl, T)" by blast
  obtain S1 d q where t: "take_assumptions (drop (decisionLevel T) (assumptions P)) False T = (S1, d, q)" by (metis prod_cases3)
  consider (none) "confl = None" | (unsat) cr where "confl = Some cr" "decisionLevel T = 0"
    | (learn) cr where "confl = Some cr" "decisionLevel T > 0" by (cases confl) auto
  then show ?thesis
  proof cases
    case none
    then show ?thesis using assumption_step [OF ok] decision_step [OF ok] p t by (cases q) auto
  next
    case unsat
    then show ?thesis
      using search_step.unsat [of P cr T mode] p by (intro exI [of _ "Return l_False (P\<lparr>solver := T\<rparr>)"]) simp
  next
    case learn
    then show ?thesis using conflict_resolved [OF ok, of cr T mode] search_step.learn [of P cr T mode] p by blast
  qed
qed

text \<open>C6: The search never gets stuck: in every state it can reach, propagation returns and one of the branches of the loop
  applies (without counting restarts). In particular no exception is raised: conflict analysis succeeds and the learnt clause
  is asserting, and whatever variable \<open>pickBranchLit\<close> takes, the decision passes the tests for a bad decision and a bad
  decision level.\<close>

theorem search_not_stuck:
  assumes "solver_inv S" "ok S" "list_all (live S) as"
    "(\<lambda>P P'. search_step ccmin_mode P (Continue P'))\<^sup>*\<^sup>* ((start_search as S)\<lparr>theories_during_assumptions := opt\<rparr>) P"
  shows "(\<exists>res. search_step ccmin_mode P res \<and> (\<forall>P'. res \<noteq> Return l_Undef P')) \<and>
    (\<forall>cr T. propagate (solver P) = Some (Some cr, T) \<and> decisionLevel T > 0 \<longrightarrow>
       resolve_conflict ccmin_mode cr (P\<lparr>solver := T\<rparr>) \<noteq> None) \<and>
    (\<forall>T S1 d l. propagate (solver P) = Some (None, T) \<and>
       take_assumptions (drop (decisionLevel T) (assumptions P)) False T = (S1, d, None) \<and> l \<in> choices S1 \<longrightarrow>
       make_decision l (length (assumptions P)) S1 \<noteq> None)"
proof -
  have ok: "search_ok P"
    using assms(4)
  proof (induction rule: rtranclp_induct)
    case base
    then show ?case using start_search_ok(1) [OF assms(1-3)] by simp
  next
    case (step P1 P2)
    then show ?case using search_step_correct [OF step.IH step.hyps(2)] by simp
  qed
  show ?thesis
    using search_progress [OF ok, of ccmin_mode] conflict_resolved [OF ok, of _ _ ccmin_mode] choice_decided [OF ok] by fastforce
qed

theorem search_not_stuck_witness:
  "\<exists>res. search_step 2 run2 res \<and> (\<forall>P'. res \<noteq> Return l_Undef P')"
proof -
  have "list_all (live two_clauses) [mkLit 0 False]"
    using two_clauses_facts by (simp add: live_def in_range_def lit_simps)
  moreover have "(\<lambda>P P'. search_step 2 P (Continue P'))\<^sup>*\<^sup>* run0 run2"
    using run0_step run1_step by (metis (mono_tags) r_into_rtranclp rtranclp.rtrancl_into_rtrancl)
  ultimately show ?thesis
    using search_not_stuck [OF two_clauses_inv two_clauses_facts(3), of "[mkLit 0 False]" 2 True run2] by (simp add: run0_def)
qed

end
