(* ===== verification/Order_Heap.thy ===== *)
theory Order_Heap
  imports Complex_Main Monosat_Prelude
begin

text \<open>
  The binary heap of \<open>mtl/Heap.h\<close> (with \<open>mtl/IntMap.h\<close>), which holds the variables and the decision heuristics that
  the solver can decide next, and its two orders \<open>VarOrderLt\<close> and \<open>HeuristicOrderLt\<close> of \<open>core/Solver.h\<close>.

  A key is its index. The object has the array of keys and the position of each key (\<open>-1\<close> for a key that is not in the
  heap); the order is an argument, since it refers to vectors outside of the heap that change. Operations that would
  read or write outside of an array (at position \<open>-1\<close>, say) have the result \<open>None\<close>. A loop of the source moves keys and
  writes the sifted key once at the end; \<open>put\<close> is one such write.
\<close>

subsection \<open>Definitions\<close>

record KeyHeap =
  heap :: "nat list"
  indices :: "int list"

definition KeyHeap_init :: KeyHeap where
  "KeyHeap_init = \<lparr>heap = [], indices = []\<rparr>"

definition left_child :: "nat \<Rightarrow> nat" where
  "left_child i = i * 2 + 1"

definition right_child :: "nat \<Rightarrow> nat" where
  "right_child i = (i + 1) * 2"

definition parent :: "nat \<Rightarrow> nat" where
  "parent i = (i - 1) div 2"

definition put :: "nat \<Rightarrow> nat \<Rightarrow> KeyHeap \<Rightarrow> KeyHeap" where
  "put x i H = H\<lparr>heap := (heap H)[i := x], indices := (indices H)[x := int i]\<rparr>"

function up_loop :: "(nat \<Rightarrow> nat \<Rightarrow> bool) \<Rightarrow> nat \<Rightarrow> nat \<Rightarrow> KeyHeap \<Rightarrow> nat \<times> KeyHeap" where
  "up_loop lt x i H =
     (if i \<noteq> 0 \<and> lt x (heap H ! parent i) then up_loop lt x (parent i) (put (heap H ! parent i) i H) else (i, H))"
  by pat_completeness auto

termination by (relation "measure (\<lambda>(lt, x, i, H). i)") (auto simp: parent_def)

definition percolateUp :: "(nat \<Rightarrow> nat \<Rightarrow> bool) \<Rightarrow> nat \<Rightarrow> KeyHeap \<Rightarrow> KeyHeap" where
  "percolateUp lt i H = (let x = heap H ! i; (j, H') = up_loop lt x i H in put x j H')"

definition min_child :: "(nat \<Rightarrow> nat \<Rightarrow> bool) \<Rightarrow> nat \<Rightarrow> nat list \<Rightarrow> nat" where
  "min_child lt i h =
     (if right_child i < length h \<and> lt (h ! right_child i) (h ! left_child i) then right_child i else left_child i)"

lemma length_put [simp]: "length (heap (put x i H)) = length (heap H)" "length (indices (put x i H)) = length (indices H)"
  by (simp_all add: put_def)

function down_loop :: "(nat \<Rightarrow> nat \<Rightarrow> bool) \<Rightarrow> nat \<Rightarrow> nat \<Rightarrow> KeyHeap \<Rightarrow> nat \<times> KeyHeap" where
  "down_loop lt x i H =
     (if left_child i < length (heap H) then
        let child = min_child lt i (heap H)
        in if \<not> lt (heap H ! child) x then (i, H) else down_loop lt x child (put (heap H ! child) i H)
      else (i, H))"
  by pat_completeness auto

termination
  by (relation "measure (\<lambda>(lt, x, i, H). length (heap H) - i)") (auto simp: min_child_def left_child_def right_child_def)

definition percolateDown :: "(nat \<Rightarrow> nat \<Rightarrow> bool) \<Rightarrow> nat \<Rightarrow> KeyHeap \<Rightarrow> KeyHeap" where
  "percolateDown lt i H = (let x = heap H ! i; (j, H') = down_loop lt x i H in put x j H')"

definition inHeap :: "KeyHeap \<Rightarrow> nat \<Rightarrow> bool" where
  "inHeap H k \<longleftrightarrow> k < length (indices H) \<and> indices H ! k \<ge> 0"

definition decrease :: "(nat \<Rightarrow> nat \<Rightarrow> bool) \<Rightarrow> nat \<Rightarrow> KeyHeap \<Rightarrow> KeyHeap option" where
  "decrease lt k H = (if inHeap H k then Some (percolateUp lt (nat (indices H ! k)) H) else None)"

definition increase :: "(nat \<Rightarrow> nat \<Rightarrow> bool) \<Rightarrow> nat \<Rightarrow> KeyHeap \<Rightarrow> KeyHeap option" where
  "increase lt k H = (if inHeap H k then Some (percolateDown lt (nat (indices H ! k)) H) else None)"

definition insert_key :: "(nat \<Rightarrow> nat \<Rightarrow> bool) \<Rightarrow> nat \<Rightarrow> KeyHeap \<Rightarrow> KeyHeap option" where
  "insert_key lt k H =
     (let H1 = H\<lparr>indices := vec_grow (k + 1) (-1) (indices H)\<rparr>
      in Some (percolateUp lt (length (heap H))
           (H1\<lparr>indices := (indices H1)[k := int (length (heap H))], heap := heap H @ [k]\<rparr>)))"

definition update_key :: "(nat \<Rightarrow> nat \<Rightarrow> bool) \<Rightarrow> nat \<Rightarrow> KeyHeap \<Rightarrow> KeyHeap option" where
  "update_key lt k H =
     (if \<not> inHeap H k then insert_key lt k H
      else let H1 = percolateUp lt (nat (indices H ! k)) H in Some (percolateDown lt (nat (indices H1 ! k)) H1))"

definition remove_key :: "(nat \<Rightarrow> nat \<Rightarrow> bool) \<Rightarrow> nat \<Rightarrow> KeyHeap \<Rightarrow> KeyHeap option" where
  "remove_key lt k H =
     (if \<not> inHeap H k then None
      else let k_pos = nat (indices H ! k); H1 = H\<lparr>indices := (indices H)[k := -1]\<rparr>
           in if k_pos < length (heap H) - 1
              then let H2 = put (last (heap H)) k_pos H1 in Some (percolateDown lt k_pos (H2\<lparr>heap := butlast (heap H2)\<rparr>))
              else Some (H1\<lparr>heap := butlast (heap H1)\<rparr>))"

definition removeMin :: "(nat \<Rightarrow> nat \<Rightarrow> bool) \<Rightarrow> KeyHeap \<Rightarrow> (nat \<times> KeyHeap) option" where
  "removeMin lt H =
     (if heap H = [] then None
      else let x = heap H ! 0; H1 = put (last (heap H)) 0 H;
               H2 = H1\<lparr>indices := (indices H1)[x := -1], heap := butlast (heap H1)\<rparr>
           in Some (x, if length (heap H2) > 1 then percolateDown lt 0 H2 else H2))"

definition clear_heap :: "KeyHeap \<Rightarrow> KeyHeap" where
  "clear_heap H = \<lparr>heap = [], indices = foldl (\<lambda>ind k. ind[k := -1]) (indices H) (heap H)\<rparr>"

definition push_key :: "KeyHeap \<Rightarrow> nat \<Rightarrow> KeyHeap" where
  "push_key H k = \<lparr>heap = heap H @ [k], indices = (indices H)[k := int (length (heap H))]\<rparr>"

definition build :: "(nat \<Rightarrow> nat \<Rightarrow> bool) \<Rightarrow> nat list \<Rightarrow> KeyHeap \<Rightarrow> KeyHeap option" where
  "build lt ns H =
     (if list_all (\<lambda>k. k < length (indices H)) ns
      then let H1 = foldl push_key (clear_heap H) ns
           in Some (fold (percolateDown lt) (rev [0..<length (heap H1) div 2]) H1)
      else None)"

declare up_loop.simps [simp del] down_loop.simps [simp del]

subsection \<open>Invariant\<close>

text \<open>The positions and the array agree; no key is smaller than its parent.\<close>

definition wf_heap :: "KeyHeap \<Rightarrow> bool" where
  "wf_heap H \<longleftrightarrow> distinct (heap H) \<and> (\<forall>i < length (heap H). heap H ! i < length (indices H) \<and> indices H ! (heap H ! i) = int i) \<and>
     (\<forall>k < length (indices H). k \<notin> set (heap H) \<longrightarrow> indices H ! k = -1)"

definition ordered_at :: "(nat \<Rightarrow> nat \<Rightarrow> bool) \<Rightarrow> nat list \<Rightarrow> nat \<Rightarrow> bool" where
  "ordered_at lt h k \<longleftrightarrow> (0 < k \<and> k < length h \<longrightarrow> \<not> lt (h ! k) (h ! parent k))"

definition heap_inv :: "(nat \<Rightarrow> nat \<Rightarrow> bool) \<Rightarrow> KeyHeap \<Rightarrow> bool" where
  "heap_inv lt H \<longleftrightarrow> wf_heap H \<and> (\<forall>k. ordered_at lt (heap H) k)"

lemma wf_heapD:
  assumes "wf_heap H"
  shows "distinct (heap H)" "i < length (heap H) \<Longrightarrow> heap H ! i < length (indices H)"
    "i < length (heap H) \<Longrightarrow> indices H ! (heap H ! i) = int i"
    "k < length (indices H) \<Longrightarrow> k \<notin> set (heap H) \<Longrightarrow> indices H ! k = -1"
  using assms by (auto simp: wf_heap_def)

lemma inHeap_iff: "wf_heap H \<Longrightarrow> inHeap H k \<longleftrightarrow> k \<in> set (heap H)"
proof -
  assume W: "wf_heap H"
  have "inHeap H k" if "k \<in> set (heap H)" using that wf_heapD(2,3) [OF W] by (auto simp: in_set_conv_nth inHeap_def)
  moreover have "k \<in> set (heap H)" if "inHeap H k"
  proof (rule ccontr)
    assume "k \<notin> set (heap H)"
    then have "indices H ! k = -1" using wf_heapD(4) [OF W, of k] that by (simp add: inHeap_def)
    then show False using that by (simp add: inHeap_def)
  qed
  ultimately show ?thesis by blast
qed

lemma inHeap_position:
  assumes "wf_heap H" "inHeap H k"
  shows "nat (indices H ! k) < length (heap H)" "heap H ! nat (indices H ! k) = k"
proof -
  obtain i where "i < length (heap H)" "heap H ! i = k" using inHeap_iff [OF assms(1)] assms(2) by (auto simp: in_set_conv_nth)
  then show "nat (indices H ! k) < length (heap H)" "heap H ! nat (indices H ! k) = k" using wf_heapD(3) [OF assms(1)] by force+
qed

lemma parent_less: "0 < i \<Longrightarrow> parent i < i"
  by (simp add: parent_def)

lemma children: "0 < k \<Longrightarrow> parent k = i \<longleftrightarrow> k = left_child i \<or> k = right_child i"
  by (auto simp: parent_def left_child_def right_child_def)

text \<open>Moving a key into the place of the sifted key exchanges the two.\<close>

definition swap_keys :: "nat \<Rightarrow> nat \<Rightarrow> KeyHeap \<Rightarrow> KeyHeap" where
  "swap_keys i j H = H\<lparr>heap := swap_at i j (heap H), indices := (indices H)[heap H ! j := int i, heap H ! i := int j]\<rparr>"

lemma wf_swap_keys:
  assumes "wf_heap H" "i < length (heap H)" "j < length (heap H)" "i \<noteq> j"
  shows "wf_heap (swap_keys i j H)"
proof -
  note W = wf_heapD [OF assms(1)]
  have ne: "heap H ! i \<noteq> heap H ! j" using W(1) assms(2-4) by (simp add: nth_eq_iff_index_eq)
  have inj: "heap H ! k = heap H ! l \<longleftrightarrow> k = l" if "k < length (heap H)" "l < length (heap H)" for k l
    using W(1) that by (simp add: nth_eq_iff_index_eq)
  have "distinct (swap_at i j (heap H))" using W(1) assms(2,3) by (simp add: swap_at_def distinct_swap)
  then show ?thesis
    unfolding wf_heap_def using W(2-4) assms(2-4) ne
    by (auto simp: swap_keys_def nth_swap_at nth_list_update inj)
qed

lemma put_swap:
  assumes "wf_heap (put x i H)" "i < length (heap H)" "j < length (heap H)" "i \<noteq> j"
  shows "put x j (put (heap H ! j) i H) = swap_keys i j (put x i H)"
proof -
  have "x \<noteq> heap H ! j" using wf_heapD(1) [OF assms(1)] assms(2-4) nth_eq_iff_index_eq [of "heap (put x i H)" i j]
    by (simp add: put_def)
  then show ?thesis using assms(2-4)
    by (simp add: put_def swap_keys_def swap_at_def list_update_swap [of x "heap H ! j" "indices H"])
qed

lemma put_self:
  assumes "wf_heap H" "i < length (heap H)" shows "put (heap H ! i) i H = H"
proof -
  have "(indices H)[heap H ! i := int i] = indices H"
    by (intro list_update_same_conv [THEN iffD2]) (use wf_heapD(2,3) [OF assms(1,2)] in auto)
  then show ?thesis by (simp add: put_def)
qed

text \<open>The last key takes the place \<open>i\<close> of the key \<open>x\<close> that is removed.\<close>

definition drop_last :: "nat \<Rightarrow> nat \<Rightarrow> KeyHeap \<Rightarrow> KeyHeap" where
  "drop_last i x H = (let H1 = put (last (heap H)) i H in H1\<lparr>indices := (indices H1)[x := -1], heap := butlast (heap H1)\<rparr>)"

lemma drop_last:
  assumes "wf_heap H" "i < length (heap H)"
  shows "wf_heap (drop_last i (heap H ! i) H)"
    "length (heap (drop_last i (heap H ! i) H)) = length (heap H) - 1"
    "k < length (heap H) - 1 \<Longrightarrow> heap (drop_last i (heap H ! i) H) ! k = (if k = i then last (heap H) else heap H ! k)"
    "set (heap (drop_last i (heap H ! i) H)) = set (heap H) - {heap H ! i}"
    "length (indices (drop_last i (heap H ! i) H)) = length (indices H)"
proof -
  let ?h = "heap H" and ?n = "length (heap H) - 1"
  let ?D = "drop_last i (?h ! i) H"
  note W = wf_heapD [OF assms(1)]
  have "?h \<noteq> []" using assms(2) by auto
  then have l: "last ?h = ?h ! ?n" "?n < length ?h" by (simp_all add: last_conv_nth)
  have h: "heap ?D = butlast (?h[i := ?h ! ?n])" "indices ?D = (indices H)[?h ! ?n := int i, ?h ! i := -1]"
    using l by (simp_all add: drop_last_def put_def Let_def)
  show len: "length (heap ?D) = ?n" and "length (indices ?D) = length (indices H)" by (simp_all add: h)
  show nth: "heap ?D ! k = (if k = i then last ?h else ?h ! k)" if "k < ?n" for k
    using that l by (simp add: h nth_butlast nth_list_update)
  have inj: "?h ! j = ?h ! k \<longleftrightarrow> j = k" if "j < length ?h" "k < length ?h" for j k
    using W(1) that by (simp add: nth_eq_iff_index_eq)
  show st: "set (heap ?D) = set ?h - {?h ! i}"
  proof (intro set_eqI iffI)
    fix y assume "y \<in> set (heap ?D)"
    then obtain k where "k < ?n" "y = heap ?D ! k" using len by (auto simp: in_set_conv_nth)
    then show "y \<in> set ?h - {?h ! i}" using nth [of k] inj [of k i] inj [of ?n i] l assms(2) by (cases "k = i") auto
  next
    fix y assume "y \<in> set ?h - {?h ! i}"
    then obtain k where k: "k < length ?h" "y = ?h ! k" "k \<noteq> i" by (auto simp: in_set_conv_nth)
    then have "y = heap ?D ! (if k = ?n then i else k)" "(if k = ?n then i else k) < ?n"
      using nth [of "if k = ?n then i else k"] l assms(2) by auto
    then show "y \<in> set (heap ?D)" using len by (metis nth_mem)
  qed
  have "distinct (heap ?D)"
    unfolding distinct_conv_nth len
  proof (intro allI impI)
    fix j k assume "j < ?n" "k < ?n" "j \<noteq> k"
    then show "heap ?D ! j \<noteq> heap ?D ! k" using nth inj l by auto
  qed
  moreover have "heap ?D ! k < length (indices ?D) \<and> indices ?D ! (heap ?D ! k) = int k" if "k < ?n" for k
    using that nth [OF that] W(2,3) [of k] W(2,3) [of ?n] l inj [of k i] inj [of k ?n] inj [of ?n i] assms(2)
    by (auto simp: h(2) nth_list_update)
  moreover have "indices ?D ! j = -1" if "j < length (indices ?D)" "j \<notin> set (heap ?D)" for j
  proof (cases "j = ?h ! i")
    case True
    then show ?thesis using W(2) [OF assms(2)] by (simp add: h(2))
  next
    case False
    then have "j \<notin> set ?h" using that(2) st by auto
    moreover from this have "j \<noteq> ?h ! ?n" using l by auto
    ultimately show ?thesis using W(4) [of j] that(1) False by (simp add: h(2))
  qed
  ultimately show "wf_heap ?D" using len by (simp add: wf_heap_def)
qed

text \<open>Emptying the heap and filling it.\<close>

lemma fold_clear: "length (foldl (\<lambda>ind k. ind[k := -1]) ind ks) = length ind"
  "j < length ind \<Longrightarrow> foldl (\<lambda>ind k. ind[k := -1 :: int]) ind ks ! j = (if j \<in> set ks then -1 else ind ! j)"
  by (induction ks arbitrary: ind) (auto simp: nth_list_update)

lemma clear_heap_correct:
  assumes "wf_heap H"
  shows "wf_heap (clear_heap H)" "heap (clear_heap H) = []" "length (indices (clear_heap H)) = length (indices H)"
  using wf_heapD(4) [OF assms] by (auto simp: clear_heap_def wf_heap_def fold_clear)

lemma push_key_wf:
  assumes wf: "wf_heap H" and k: "k \<notin> set (heap H)" "k < length (indices H)"
  shows "wf_heap (push_key H k)"
proof -
  note W = wf_heapD [OF wf]
  have "heap (push_key H k) ! i < length (indices H) \<and> indices (push_key H k) ! (heap (push_key H k) ! i) = int i"
    if i: "i < Suc (length (heap H))" for i
  proof (cases "i < length (heap H)")
    case True
    then have "heap H ! i \<noteq> k" using k(1) by force
    then show ?thesis using True W(2,3) [OF True] by (simp add: push_key_def nth_append)
  next
    case False
    then have "i = length (heap H)" using i by simp
    then show ?thesis using k(2) by (simp add: push_key_def)
  qed
  then show ?thesis using W(1,4) k by (auto simp: wf_heap_def push_key_def nth_list_update)
qed

lemma fold_push_key:
  assumes "wf_heap H" "distinct ks" "set ks \<inter> set (heap H) = {}" "list_all (\<lambda>k. k < length (indices H)) ks"
  shows "wf_heap (foldl push_key H ks) \<and> set (heap (foldl push_key H ks)) = set (heap H) \<union> set ks \<and>
    length (indices (foldl push_key H ks)) = length (indices H)"
  using assms
proof (induction ks arbitrary: H)
  case (Cons k ks)
  have "wf_heap (push_key H k)" using push_key_wf [OF Cons.prems(1), of k] Cons.prems by simp
  then show ?case using Cons.IH [of "push_key H k"] Cons.prems by (auto simp: push_key_def)
qed simp

subsection \<open>The two loops\<close>

text \<open>The order may fail only between position \<open>i\<close> and its neighbours; the children of \<open>i\<close> are in order with its parent.\<close>

definition around :: "(nat \<Rightarrow> nat \<Rightarrow> bool) \<Rightarrow> nat list \<Rightarrow> nat \<Rightarrow> bool" where
  "around lt h i \<longleftrightarrow> (\<forall>k. k \<noteq> i \<and> parent k \<noteq> i \<longrightarrow> ordered_at lt h k) \<and>
     (\<forall>k. 0 < i \<and> 0 < k \<and> k < length h \<and> parent k = i \<longrightarrow> \<not> lt (h ! k) (h ! parent i))"

text \<open>The same for sifting down, in the part of the heap from position \<open>b\<close> on: the order may fail between \<open>i\<close> and its children.\<close>

definition below :: "(nat \<Rightarrow> nat \<Rightarrow> bool) \<Rightarrow> nat \<Rightarrow> nat list \<Rightarrow> nat \<Rightarrow> bool" where
  "below lt b h i \<longleftrightarrow> (\<forall>k. b \<le> parent k \<and> parent k \<noteq> i \<longrightarrow> ordered_at lt h k) \<and>
     (\<forall>k. 0 < i \<and> b \<le> parent i \<and> 0 < k \<and> k < length h \<and> parent k = i \<longrightarrow> \<not> lt (h ! k) (h ! parent i))"

text \<open>What the heap relies on: the order is a strict weak order.\<close>

locale key_order =
  fixes lt :: "nat \<Rightarrow> nat \<Rightarrow> bool"
  assumes lt_asym: "lt x y \<Longrightarrow> \<not> lt y x"
    and not_lt_trans: "\<not> lt x y \<Longrightarrow> \<not> lt y z \<Longrightarrow> \<not> lt x z"
begin

lemma lt_irrefl: "\<not> lt x x"
  using lt_asym by blast

lemma lt_trans: "lt x y \<Longrightarrow> lt y z \<Longrightarrow> lt x z"
  using lt_asym not_lt_trans by blast

lemma up_step:
  assumes a: "around lt h i" and i: "0 < i" "i < length h" and l: "lt (h ! i) (h ! parent i)"
  shows "around lt (swap_at i (parent i) h) (parent i)"
    "parent k = parent i \<Longrightarrow> ordered_at lt (swap_at i (parent i) h) k"
proof -
  let ?p = "parent i" and ?h = "swap_at i (parent i) h"
  have p: "?p < i" "?p < length h" using parent_less [OF i(1)] i(2) by auto
  have nth: "?h ! k = (if k = i then h ! ?p else if k = ?p then h ! i else h ! k)" if "k < length h" for k
    using nth_swap_at [of i h ?p k] i p that by simp
  have out: "\<not> lt (h ! k) (h ! parent k)" if "0 < k" "k < length h" "k \<noteq> i" "parent k \<noteq> i" for k
    using a that by (simp add: around_def ordered_at_def)
  have gp: "\<not> lt (h ! k) (h ! ?p)" if "0 < k" "k < length h" "parent k = i" for k using a i that by (simp add: around_def)
  have ord: "ordered_at lt ?h k" if "k \<noteq> ?p" "parent k \<noteq> ?p" for k
    unfolding ordered_at_def
  proof
    assume k: "0 < k \<and> k < length ?h"
    then have "parent k < k" "parent k < length h" "k \<noteq> i" using parent_less [of k] that by auto
    then show "\<not> lt (?h ! k) (?h ! parent k)" using k that out gp by (simp add: nth)
  qed
  moreover have "\<not> lt (?h ! k) (?h ! parent ?p)" if k: "0 < ?p" "0 < k" "k < length h" "parent k = ?p" for k
  proof -
    have pp: "parent ?p < ?p" using parent_less [OF k(1)] .
    have up: "\<not> lt (h ! ?p) (h ! parent ?p)" using out [of ?p] k(1) p pp by simp
    have "k \<noteq> ?p" using parent_less [OF k(2)] k(4) by simp
    then show ?thesis using up out [of k] not_lt_trans [of "h ! k" "h ! ?p" "h ! parent ?p"] k p pp by (auto simp: nth)
  qed
  ultimately show "around lt ?h ?p" by (simp add: around_def)
  show "ordered_at lt ?h k" if k: "parent k = ?p"
    unfolding ordered_at_def
  proof
    assume kl: "0 < k \<and> k < length ?h"
    then have "k \<noteq> ?p" using parent_less [of k] k by auto
    moreover have "\<not> lt (h ! k) (h ! i)" if "k \<noteq> i" using out [of k] that k kl p lt_trans [OF _ l, of "h ! k"] by auto
    ultimately show "\<not> lt (?h ! k) (?h ! parent k)" using kl k p lt_asym [OF l] by (simp add: nth)
  qed
qed

text \<open>Sifting up.\<close>

lemma up_loop_correct:
  assumes "wf_heap (put x i H)" "i < length (heap H)" "around lt (heap (put x i H)) i" "up_loop lt x i H = (j, H')"
  shows "wf_heap (put x j H') \<and> set (heap (put x j H')) = set (heap (put x i H)) \<and>
    length (indices H') = length (indices H) \<and> length (heap H') = length (heap H) \<and> j < length (heap H) \<and>
    around lt (heap (put x j H')) j \<and> ordered_at lt (heap (put x j H')) j \<and>
    ((\<forall>k. parent k = i \<longrightarrow> ordered_at lt (heap (put x i H)) k) \<longrightarrow> (\<forall>k. ordered_at lt (heap (put x j H')) k))"
  using assms
proof (induction i arbitrary: H rule: less_induct)
  case (less i)
  let ?W = "put x i H" and ?p = "parent i"
  have x: "heap ?W ! i = x" using less.prems(2) by (simp add: put_def)
  show ?case
  proof (cases "i \<noteq> 0 \<and> lt x (heap H ! ?p)")
    case True
    then have p: "?p < i" "?p < length (heap H)" using parent_less [of i] less.prems(2) by auto
    let ?H = "put (heap H ! ?p) i H"
    have s: "put x ?p ?H = swap_keys i ?p ?W" using put_swap [OF less.prems(1,2) p(2)] p(1) by simp
    have h: "heap (put x ?p ?H) = swap_at i ?p (heap ?W)" by (simp add: s swap_keys_def)
    have "heap ?W ! ?p = heap H ! ?p" using p by (simp add: put_def)
    then have l: "lt (heap ?W ! i) (heap ?W ! ?p)" using True x by simp
    have st: "around lt (heap (put x ?p ?H)) ?p" "\<forall>k. parent k = ?p \<longrightarrow> ordered_at lt (heap (put x ?p ?H)) k"
      unfolding h using up_step [OF less.prems(3) _ _ l] True less.prems(2) by auto
    have wf: "wf_heap (put x ?p ?H)" unfolding s by (rule wf_swap_keys [OF less.prems(1)]) (use p less.prems(2) in auto)
    have "up_loop lt x ?p ?H = (j, H')" using less.prems(4) True by (simp add: up_loop.simps [of lt x i H])
    from less.IH [OF p(1) wf _ st(1) this] st(2) p(2) show ?thesis
      using less.prems(2) p(2) by (simp add: h [symmetric]) (simp add: h)
  next
    case False
    then have r: "j = i" "H' = H" using less.prems(4) by (auto simp: up_loop.simps [of lt x i H] split: if_splits)
    have "ordered_at lt (heap ?W) i"
      unfolding ordered_at_def
    proof
      assume i: "0 < i \<and> i < length (heap ?W)"
      then have "heap ?W ! ?p = heap H ! ?p" using parent_less [of i] by (simp add: put_def)
      then show "\<not> lt (heap ?W ! i) (heap ?W ! ?p)" using False i x by simp
    qed
    then show ?thesis using less.prems r by (auto simp: around_def)
  qed
qed

lemma down_step:
  assumes a: "below lt b h i" and i: "b \<le> i" and c: "0 < c" "c < length h" "parent c = i"
    and m: "\<And>k. 0 < k \<Longrightarrow> k < length h \<Longrightarrow> parent k = i \<Longrightarrow> \<not> lt (h ! k) (h ! c)" and l: "lt (h ! c) (h ! i)"
  shows "below lt b (swap_at i c h) c"
proof -
  let ?h = "swap_at i c h"
  have ic: "i < c" "i < length h" using parent_less [OF c(1)] c(2,3) by auto
  have nth: "?h ! k = (if k = i then h ! c else if k = c then h ! i else h ! k)" if "k < length h" for k
    using nth_swap_at [of i h c k] ic c that by simp
  have out: "\<not> lt (h ! k) (h ! parent k)" if "0 < k" "k < length h" "b \<le> parent k" "parent k \<noteq> i" for k
    using a that by (simp add: below_def ordered_at_def)
  have "ordered_at lt ?h k" if k: "b \<le> parent k" "parent k \<noteq> c" for k
    unfolding ordered_at_def
  proof
    assume kl: "0 < k \<and> k < length ?h"
    then have kp: "parent k < k" "parent k < length h" "k < length h" using parent_less [of k] by auto
    consider (chosen) "k = c" | (sibling) "k \<noteq> c" "parent k = i" | (self) "k = i" | (other) "k \<noteq> c" "parent k \<noteq> i" "k \<noteq> i" by blast
    then show "\<not> lt (?h ! k) (?h ! parent k)"
    proof cases
      case chosen
      then show ?thesis using kp c ic lt_asym [OF l] by (simp add: nth)
    next
      case sibling
      then show ?thesis using kp m [of k] kl by (simp add: nth)
    next
      case self
      then show ?thesis using kp a kl k c ic by (simp add: nth below_def)
    next
      case other
      then show ?thesis using kp out [of k] kl k by (simp add: nth)
    qed
  qed
  moreover have "\<not> lt (?h ! k) (?h ! parent c)" if k: "0 < k" "k < length h" "parent k = c" for k
  proof -
    have "k \<noteq> i" "k \<noteq> c" using parent_less [OF k(1)] k(3) ic by auto
    then show ?thesis using out [of k] k c ic i by (simp add: nth)
  qed
  ultimately show ?thesis by (simp add: below_def)
qed

lemma min_child:
  assumes "left_child i < length h"
  shows "0 < min_child lt i h" "min_child lt i h < length h" "parent (min_child lt i h) = i"
    "0 < k \<Longrightarrow> k < length h \<Longrightarrow> parent k = i \<Longrightarrow> \<not> lt (h ! k) (h ! min_child lt i h)"
proof -
  show c: "0 < min_child lt i h" "min_child lt i h < length h" using assms by (auto simp: min_child_def left_child_def right_child_def)
  show "parent (min_child lt i h) = i" using children [OF c(1)] by (auto simp: min_child_def)
  show "\<not> lt (h ! k) (h ! min_child lt i h)" if "0 < k" "k < length h" "parent k = i"
    using children [OF that(1), of i] that lt_asym lt_irrefl by (auto simp: min_child_def)
qed

text \<open>Sifting down.\<close>

lemma down_loop_correct:
  assumes "wf_heap (put x i H)" "i < length (heap H)" "b \<le> i" "below lt b (heap (put x i H)) i" "down_loop lt x i H = (j, H')"
  shows "wf_heap (put x j H') \<and> set (heap (put x j H')) = set (heap (put x i H)) \<and>
    length (indices H') = length (indices H) \<and> length (heap H') = length (heap H) \<and>
    (\<forall>k. b \<le> parent k \<longrightarrow> ordered_at lt (heap (put x j H')) k)"
  using assms
proof (induction "length (heap H) - i" arbitrary: i H rule: less_induct)
  case less
  let ?W = "put x i H" and ?c = "min_child lt i (heap H)"
  have x: "heap ?W ! i = x" using less.prems(2) by (simp add: put_def)
  show ?case
  proof (cases "left_child i < length (heap H)")
    case True
    note c = min_child [OF True]
    have ic: "i < ?c" using parent_less [OF c(1)] c(3) by simp
    have eq: "heap ?W ! k = heap H ! k" if "i < k" for k using that by (simp add: put_def)
    have m: "\<not> lt (heap ?W ! k) (heap ?W ! ?c)" if "0 < k" "k < length (heap ?W)" "parent k = i" for k
      using c(4) [of k] that eq [of k] eq [OF ic] parent_less [of k] by simp
    show ?thesis
    proof (cases "lt (heap H ! ?c) x")
      case l: True
      let ?H = "put (heap H ! ?c) i H"
      have s: "put x ?c ?H = swap_keys i ?c ?W" using put_swap [OF less.prems(1,2) c(2)] ic by simp
      have h: "heap (put x ?c ?H) = swap_at i ?c (heap ?W)" by (simp add: s swap_keys_def)
      have wf: "wf_heap (put x ?c ?H)" unfolding s by (rule wf_swap_keys [OF less.prems(1)]) (use c ic less.prems(2) in auto)
      have "below lt b (heap (put x ?c ?H)) ?c"
        unfolding h by (rule down_step [OF less.prems(4,3) c(1) _ c(3)]) (use m c(2) l x eq [OF ic] in simp_all)
      moreover have "down_loop lt x ?c ?H = (j, H')" using less.prems(5) True l by (simp add: down_loop.simps [of lt x i H] Let_def)
      moreover have "set (heap (put x ?c ?H)) = set (heap ?W)" unfolding h using c(2) less.prems(2) by simp
      moreover have "length (heap ?H) - ?c < length (heap H) - i" "?c < length (heap ?H)" "b \<le> ?c" using c(2) ic less.prems(3) by auto
      ultimately show ?thesis using less.hyps [of ?H ?c] wf by simp
    next
      case l: False
      then have r: "j = i" "H' = H" using less.prems(5) True by (simp_all add: down_loop.simps [of lt x i H] Let_def)
      have "ordered_at lt (heap ?W) k" if "b \<le> parent k" for k
        using less.prems(4) that m [of k] not_lt_trans [of "heap ?W ! k" "heap ?W ! ?c" x] l x eq [OF ic]
        by (cases "parent k = i") (auto simp: below_def ordered_at_def)
      then show ?thesis using less.prems r by simp
    qed
  next
    case False
    then have r: "j = i" "H' = H" using less.prems(5) by (simp_all add: down_loop.simps [of lt x i H])
    have "ordered_at lt (heap ?W) k" if "b \<le> parent k" for k
    proof (cases "parent k = i")
      case True
      then have "\<not> (0 < k \<and> k < length (heap H))" using children [of k i] False by (auto simp: left_child_def right_child_def)
      then show ?thesis by (auto simp: ordered_at_def)
    qed (use less.prems(4) that in \<open>simp add: below_def\<close>)
    then show ?thesis using less.prems r by simp
  qed
qed

lemma percolateUp_correct:
  assumes "wf_heap H" "i < length (heap H)" "around lt (heap H) i"
  shows "wf_heap (percolateUp lt i H)" "set (heap (percolateUp lt i H)) = set (heap H)"
    "length (indices (percolateUp lt i H)) = length (indices H)"
    "(\<forall>k. parent k = i \<longrightarrow> ordered_at lt (heap H) k) \<Longrightarrow> heap_inv lt (percolateUp lt i H)"
    "\<exists>j < length (heap (percolateUp lt i H)). heap (percolateUp lt i H) ! j = heap H ! i \<and> below lt 0 (heap (percolateUp lt i H)) j"
proof -
  obtain j H' where r: "up_loop lt (heap H ! i) i H = (j, H')" by fastforce
  note self = put_self [OF assms(1,2)]
  have eq: "percolateUp lt i H = put (heap H ! i) j H'" using r by (simp add: percolateUp_def Let_def)
  from up_loop_correct [of "heap H ! i" i H j H'] assms r
  have R: "wf_heap (put (heap H ! i) j H')" "set (heap (put (heap H ! i) j H')) = set (heap H)"
    "length (indices H') = length (indices H)" "length (heap H') = length (heap H)" "j < length (heap H)"
    "around lt (heap (put (heap H ! i) j H')) j" "ordered_at lt (heap (put (heap H ! i) j H')) j"
    "(\<forall>k. parent k = i \<longrightarrow> ordered_at lt (heap H) k) \<longrightarrow> (\<forall>k. ordered_at lt (heap (put (heap H ! i) j H')) k)"
    by (simp_all add: self)
  show "wf_heap (percolateUp lt i H)" "set (heap (percolateUp lt i H)) = set (heap H)"
    "length (indices (percolateUp lt i H)) = length (indices H)" using R by (simp_all add: eq)
  show "heap_inv lt (percolateUp lt i H)" if "\<forall>k. parent k = i \<longrightarrow> ordered_at lt (heap H) k"
    using R(1,8) that by (simp add: eq heap_inv_def)
  have "below lt 0 (heap (put (heap H ! i) j H')) j"
    unfolding below_def
  proof (intro conjI allI impI)
    fix k assume "0 \<le> parent k \<and> parent k \<noteq> j"
    then show "ordered_at lt (heap (put (heap H ! i) j H')) k" using R(6,7) by (cases "k = j") (auto simp: around_def)
  qed (use R(6) in \<open>simp add: around_def\<close>)
  then show "\<exists>j < length (heap (percolateUp lt i H)). heap (percolateUp lt i H) ! j = heap H ! i \<and> below lt 0 (heap (percolateUp lt i H)) j"
    unfolding eq using R(4,5) by (intro exI [of _ j]) (simp add: put_def)
qed

lemma percolateDown_correct:
  assumes "wf_heap H" "i < length (heap H)" "b \<le> i" "below lt b (heap H) i"
  shows "wf_heap (percolateDown lt i H)" "set (heap (percolateDown lt i H)) = set (heap H)"
    "length (indices (percolateDown lt i H)) = length (indices H)" "length (heap (percolateDown lt i H)) = length (heap H)"
    "b \<le> parent k \<Longrightarrow> ordered_at lt (heap (percolateDown lt i H)) k"
proof -
  obtain j H' where r: "down_loop lt (heap H ! i) i H = (j, H')" by fastforce
  note self = put_self [OF assms(1,2)]
  have eq: "percolateDown lt i H = put (heap H ! i) j H'" using r by (simp add: percolateDown_def Let_def)
  from down_loop_correct [of "heap H ! i" i H b j H'] assms r
  show "wf_heap (percolateDown lt i H)" "set (heap (percolateDown lt i H)) = set (heap H)"
    "length (indices (percolateDown lt i H)) = length (indices H)" "length (heap (percolateDown lt i H)) = length (heap H)"
    "b \<le> parent k \<Longrightarrow> ordered_at lt (heap (percolateDown lt i H)) k"
    by (simp_all add: self eq)
qed

lemma down_all:
  assumes "wf_heap H" "i < length (heap H)" "below lt 0 (heap H) i"
  shows "heap_inv lt (percolateDown lt i H)"
  using percolateDown_correct(1,5) [OF assms(1,2) _ assms(3)] by (simp add: heap_inv_def)

subsubsection \<open>Operations\<close>

text \<open>The root is a least key.\<close>

lemma root_least:
  assumes "\<forall>k. ordered_at lt h k" "k < length h" shows "\<not> lt (h ! k) (h ! 0)"
  using assms(2)
proof (induction k rule: less_induct)
  case (less k)
  show ?case
  proof (cases "k = 0")
    case False
    then have "parent k < k" by (simp add: parent_less)
    moreover have "\<not> lt (h ! k) (h ! parent k)" using assms(1) less.prems False by (simp add: ordered_at_def)
    ultimately show ?thesis using less.IH [of "parent k"] less.prems not_lt_trans by (meson less_trans)
  qed (simp add: lt_irrefl)
qed

lemma insert_key_correct:
  assumes inv: "heap_inv lt H" and k: "k \<notin> set (heap H)"
  shows "\<exists>H'. insert_key lt k H = Some H' \<and> heap_inv lt H' \<and> set (heap H') = insert k (set (heap H)) \<and>
    length (indices H') = max (k + 1) (length (indices H))"
proof -
  note W = wf_heapD [OF conjunct1 [OF inv [unfolded heap_inv_def]]]
  let ?g = "vec_grow (k + 1) (-1) (indices H)"
  let ?H = "H\<lparr>indices := ?g[k := int (length (heap H))], heap := heap H @ [k]\<rparr>"
  have g: "?g ! j = (if j < length (indices H) then indices H ! j else -1)" if "j < max (k + 1) (length (indices H))" for j
    using that by (rule nth_vec_grow)
  have new: "heap ?H ! i < length (indices ?H) \<and> indices ?H ! (heap ?H ! i) = int i" if "i < length (heap ?H)" for i
  proof (cases "i < length (heap H)")
    case True
    then have "heap H ! i \<noteq> k" using k by force
    then show ?thesis using True W(2,3) [OF True] g [of "heap H ! i"] by (simp add: nth_append)
  next
    case False
    then have "i = length (heap H)" using that by simp
    then show ?thesis by simp
  qed
  have "indices ?H ! j = -1" if "j < length (indices ?H)" "j \<notin> set (heap ?H)" for j
    using that g [of j] W(4) [of j] by auto
  then have wf: "wf_heap ?H" using W(1) k new by (simp add: wf_heap_def)
  have ord: "ordered_at lt (heap ?H) j" if "j \<noteq> length (heap H)" for j
    using inv that parent_less [of j] by (auto simp: heap_inv_def ordered_at_def nth_append)
  have none: "\<not> (0 < j \<and> j < length (heap ?H))" if "parent j = length (heap H)" for j
    using parent_less [of j] that by auto
  have "around lt (heap ?H) (length (heap H))" using ord none by (auto simp: around_def)
  moreover have "\<forall>j. parent j = length (heap H) \<longrightarrow> ordered_at lt (heap ?H) j" using none by (auto simp: ordered_at_def)
  moreover have "insert_key lt k H = Some (percolateUp lt (length (heap H)) ?H)"
    by (simp add: insert_key_def Let_def)
  ultimately show ?thesis
    using percolateUp_correct [OF wf, of "length (heap H)"] by simp
qed

lemma removeMin_correct:
  assumes inv: "heap_inv lt H" and ne: "heap H \<noteq> []"
  shows "\<exists>x H'. removeMin lt H = Some (x, H') \<and> heap_inv lt H' \<and> x \<in> set (heap H) \<and> set (heap H') = set (heap H) - {x} \<and>
    length (indices H') = length (indices H) \<and> (\<forall>y \<in> set (heap H). \<not> lt y x)"
proof -
  have wf: "wf_heap H" and ord: "\<forall>k. ordered_at lt (heap H) k" using inv by (auto simp: heap_inv_def)
  let ?x = "heap H ! 0" and ?n = "length (heap H) - 1"
  let ?H = "drop_last 0 ?x H"
  have 0: "0 < length (heap H)" using ne by simp
  have least: "\<forall>y \<in> set (heap H). \<not> lt y ?x" using root_least [OF ord] by (auto simp: in_set_conv_nth)
  note D = drop_last [OF wf 0]
  have "below lt 0 (heap ?H) 0"
    unfolding below_def
  proof (intro conjI allI impI)
    fix k assume k: "0 \<le> parent k \<and> parent k \<noteq> 0"
    show "ordered_at lt (heap ?H) k" using ord D(3) k parent_less [of k] D(2) by (auto simp: ordered_at_def)
  qed simp
  then have "length (heap ?H) > 1 \<Longrightarrow> heap_inv lt (percolateDown lt 0 ?H)" by (intro down_all [OF D(1)]) auto
  then have "heap_inv lt (if length (heap ?H) > 1 then percolateDown lt 0 ?H else ?H)"
    using D(1) by (cases "length (heap ?H) > 1") (simp, auto simp: heap_inv_def ordered_at_def)
  moreover have "set (heap (percolateDown lt 0 ?H)) = set (heap ?H) \<and> length (indices (percolateDown lt 0 ?H)) = length (indices ?H)"
    if "length (heap ?H) > 1"
    using percolateDown_correct(2,3) [OF D(1) _ _ \<open>below lt 0 (heap ?H) 0\<close>] that by force
  moreover have "removeMin lt H = Some (?x, if length (heap ?H) > 1 then percolateDown lt 0 ?H else ?H)"
    using ne by (simp add: removeMin_def drop_last_def Let_def)
  ultimately show ?thesis using least D(4,5) ne by auto
qed

text \<open>The order of one key \<open>k\<close> has changed since the heap was built for the order \<open>lt0\<close>.\<close>

lemma changed_around:
  assumes inv: "heap_inv lt0 H" "key_order lt0" and i: "i < length (heap H)"
    and ch: "\<And>x y. x \<in> set (heap H) \<Longrightarrow> y \<in> set (heap H) \<Longrightarrow> x \<noteq> heap H ! i \<Longrightarrow> y \<noteq> heap H ! i \<Longrightarrow> lt x y \<Longrightarrow> lt0 x y"
  shows "around lt (heap H) i"
proof -
  have W: "distinct (heap H)" "\<forall>k. ordered_at lt0 (heap H) k" using inv(1) by (auto simp: heap_inv_def wf_heap_def)
  have ne: "heap H ! k \<noteq> heap H ! i" if "k < length (heap H)" "k \<noteq> i" for k using W(1) i that by (simp add: nth_eq_iff_index_eq)
  have o: "\<not> lt0 (heap H ! k) (heap H ! parent k)" "parent k < k" if "0 < k" "k < length (heap H)" for k
    using W(2) that parent_less by (auto simp: ordered_at_def)
  have "ordered_at lt (heap H) k" if "k \<noteq> i" "parent k \<noteq> i" for k
    unfolding ordered_at_def using ch [of "heap H ! k" "heap H ! parent k"] ne [of k] ne [of "parent k"] o [of k] that by auto
  moreover have "\<not> lt (heap H ! k) (heap H ! parent i)" if k: "0 < i" "0 < k" "k < length (heap H)" "parent k = i" for k
  proof -
    have "\<not> lt0 (heap H ! k) (heap H ! i)" "\<not> lt0 (heap H ! i) (heap H ! parent i)" using o [of k] o [of i] k i by auto
    then have "\<not> lt0 (heap H ! k) (heap H ! parent i)" using key_order.not_lt_trans [OF inv(2)] by blast
    then show ?thesis using ch [of "heap H ! k" "heap H ! parent i"] ne [of k] ne [of "parent i"] o [of k] o [of i] k i by auto
  qed
  ultimately show ?thesis by (auto simp: around_def)
qed

lemma decrease_correct:
  assumes inv: "heap_inv lt0 H" "key_order lt0" and k: "k \<in> set (heap H)"
    and ch: "\<And>x y. x \<in> set (heap H) \<Longrightarrow> y \<in> set (heap H) \<Longrightarrow> x \<noteq> k \<Longrightarrow> lt x y \<Longrightarrow> lt0 x y"
  shows "\<exists>H'. decrease lt k H = Some H' \<and> heap_inv lt H' \<and> set (heap H') = set (heap H) \<and> length (indices H') = length (indices H)"
proof -
  have wf: "wf_heap H" "inHeap H k" using inv(1) k inHeap_iff by (auto simp: heap_inv_def)
  note pos = inHeap_position [OF wf]
  let ?i = "nat (indices H ! k)"
  have "around lt (heap H) ?i" by (rule changed_around [OF inv pos(1)]) (use ch pos(2) in auto)
  note U = percolateUp_correct [OF wf(1) pos(1) this]
  have "ordered_at lt (heap H) j" if "parent j = ?i" for j
    unfolding ordered_at_def
  proof
    assume j: "0 < j \<and> j < length (heap H)"
    then have "j \<noteq> ?i" using parent_less [of j] that by auto
    then have "heap H ! j \<noteq> k" using pos wf_heapD(1) [OF wf(1)] j by (metis nth_eq_iff_index_eq)
    moreover have "heap H ! j \<in> set (heap H)" "heap H ! parent j \<in> set (heap H)" using j parent_less [of j] by simp_all
    ultimately show "\<not> lt (heap H ! j) (heap H ! parent j)" using ch inv(1) j by (auto simp: heap_inv_def ordered_at_def)
  qed
  then show ?thesis using U(2-4) wf(2) by (simp add: decrease_def)
qed

lemma increase_correct:
  assumes inv: "heap_inv lt0 H" "key_order lt0" and k: "k \<in> set (heap H)"
    and ch: "\<And>x y. x \<in> set (heap H) \<Longrightarrow> y \<in> set (heap H) \<Longrightarrow> y \<noteq> k \<Longrightarrow> lt x y \<Longrightarrow> lt0 x y"
  shows "\<exists>H'. increase lt k H = Some H' \<and> heap_inv lt H' \<and> set (heap H') = set (heap H) \<and> length (indices H') = length (indices H)"
proof -
  have wf: "wf_heap H" "inHeap H k" using inv(1) k inHeap_iff by (auto simp: heap_inv_def)
  note pos = inHeap_position [OF wf]
  let ?i = "nat (indices H ! k)"
  have a: "around lt (heap H) ?i" by (rule changed_around [OF inv pos(1)]) (use ch pos(2) in auto)
  have "ordered_at lt (heap H) j" if "parent j \<noteq> ?i" for j
    unfolding ordered_at_def
  proof
    assume j: "0 < j \<and> j < length (heap H)"
    then have "heap H ! parent j \<noteq> k" using pos wf_heapD(1) [OF wf(1)] that parent_less [of j] by (metis less_trans nth_eq_iff_index_eq)
    moreover have "heap H ! j \<in> set (heap H)" "heap H ! parent j \<in> set (heap H)" using j parent_less [of j] by simp_all
    ultimately show "\<not> lt (heap H ! j) (heap H ! parent j)" using ch inv(1) j by (auto simp: heap_inv_def ordered_at_def)
  qed
  then have b: "below lt 0 (heap H) ?i" using a by (auto simp: below_def around_def)
  show ?thesis
    using down_all [OF wf(1) pos(1) b] percolateDown_correct(2,3) [OF wf(1) pos(1) _ b] wf(2) by (simp add: increase_def)
qed

lemma update_key_correct:
  assumes inv: "heap_inv lt0 H" "key_order lt0"
    and ch: "\<And>x y. x \<in> set (heap H) \<Longrightarrow> y \<in> set (heap H) \<Longrightarrow> x \<noteq> k \<Longrightarrow> y \<noteq> k \<Longrightarrow> lt x y \<Longrightarrow> lt0 x y"
    and k: "k \<in> set (heap H)"
  shows "\<exists>H'. update_key lt k H = Some H' \<and> heap_inv lt H' \<and> set (heap H') = set (heap H)"
proof -
  have wf: "wf_heap H" "inHeap H k" using inv(1) k inHeap_iff by (auto simp: heap_inv_def)
  note pos = inHeap_position [OF wf]
  let ?i = "nat (indices H ! k)"
  let ?U = "percolateUp lt ?i H"
  have "around lt (heap H) ?i" by (rule changed_around [OF inv pos(1)]) (use ch pos(2) in auto)
  note U = percolateUp_correct [OF wf(1) pos(1) this]
  obtain j where j: "j < length (heap ?U)" "heap ?U ! j = k" "below lt 0 (heap ?U) j" using U(5) pos(2) by auto
  then have "nat (indices ?U ! k) = j" using wf_heapD(3) [OF U(1) j(1)] by simp
  then show ?thesis
    using down_all [OF U(1) j(1,3)] percolateDown_correct(2) [OF U(1) j(1) _ j(3)] U(2) wf(2)
    by (simp add: update_key_def Let_def)
qed

text \<open>Building the heap bottom up.\<close>

lemma heapify_correct:
  assumes "wf_heap H" "n \<le> length (heap H)" "\<forall>k. n \<le> parent k \<longrightarrow> ordered_at lt (heap H) k"
  shows "heap_inv lt (fold (percolateDown lt) (rev [0..<n]) H) \<and> set (heap (fold (percolateDown lt) (rev [0..<n]) H)) = set (heap H) \<and>
    length (indices (fold (percolateDown lt) (rev [0..<n]) H)) = length (indices H)"
  using assms
proof (induction n arbitrary: H)
  case (Suc n)
  have "below lt n (heap H) n" using Suc.prems(3) parent_less [of n] by (auto simp: below_def)
  note D = percolateDown_correct [OF Suc.prems(1) _ _ this]
  then show ?case using Suc.IH [of "percolateDown lt n H"] Suc.prems(2) by simp
qed (simp add: heap_inv_def)

lemma build_correct:
  assumes "wf_heap H" "distinct ns" "list_all (\<lambda>k. k < length (indices H)) ns"
  shows "\<exists>H'. build lt ns H = Some H' \<and> heap_inv lt H' \<and> set (heap H') = set ns \<and> length (indices H') = length (indices H)"
proof -
  note C = clear_heap_correct [OF assms(1)]
  let ?F = "foldl push_key (clear_heap H) ns"
  have F: "wf_heap ?F" "set (heap ?F) = set ns" "length (indices ?F) = length (indices H)"
    using fold_push_key [OF C(1) assms(2)] C(2,3) assms(3) by auto
  have "ordered_at lt (heap ?F) k" if "length (heap ?F) div 2 \<le> parent k" for k
    using that by (auto simp: ordered_at_def parent_def)
  then show ?thesis
    using heapify_correct [OF F(1), of "length (heap ?F) div 2"] F(2,3) assms(3) by (simp add: build_def Let_def)
qed

lemma remove_key_correct:
  assumes inv: "heap_inv lt H" and k: "k \<in> set (heap H)"
    and up: "0 < nat (indices H ! k) \<Longrightarrow> \<not> lt (last (heap H)) (heap H ! parent (nat (indices H ! k)))"
  shows "\<exists>H'. remove_key lt k H = Some H' \<and> heap_inv lt H' \<and> set (heap H') = set (heap H) - {k}"
proof -
  have wf: "wf_heap H" "inHeap H k" and ord: "\<forall>k. ordered_at lt (heap H) k" using inv k inHeap_iff by (auto simp: heap_inv_def)
  note pos = inHeap_position [OF wf] and W = wf_heapD [OF wf(1)]
  let ?i = "nat (indices H ! k)" and ?n = "length (heap H) - 1"
  let ?D = "drop_last ?i k H"
  note D = drop_last [OF wf(1) pos(1), unfolded pos(2)]
  have "heap H \<noteq> []" using k by auto
  then have l: "last (heap H) = heap H ! ?n" "?n < length (heap H)" by (simp_all add: last_conv_nth)
  have o: "\<not> lt (heap H ! j) (heap H ! parent j)" "parent j < j" if "0 < j" "j < length (heap H)" for j
    using ord that parent_less by (auto simp: ordered_at_def)
  show ?thesis
  proof (cases "?i < ?n")
    case True
    then have "heap H ! ?n \<noteq> k" using W(1) pos l(2) by (metis nat_neq_iff nth_eq_iff_index_eq)
    then have eq: "remove_key lt k H = Some (percolateDown lt ?i ?D)"
      using True wf(2) l by (simp add: remove_key_def drop_last_def put_def Let_def list_update_swap)
    have "ordered_at lt (heap ?D) j" if np: "parent j \<noteq> ?i" for j
      unfolding ordered_at_def
    proof
      assume "0 < j \<and> j < length (heap ?D)"
      then have j: "0 < j" "j < ?n" "parent j < ?n" "j < length (heap H)" using D(2) parent_less [of j] by auto
      then show "\<not> lt (heap ?D ! j) (heap ?D ! parent j)"
        using o(1) [of j] D(3) [OF j(2)] D(3) [OF j(3)] np up by (cases "j = ?i") auto
    qed
    moreover have "\<not> lt (heap ?D ! j) (heap ?D ! parent ?i)" if j: "0 < ?i" "0 < j" "j < length (heap ?D)" "parent j = ?i" for j
    proof -
      have "?i < j" "parent ?i < ?i" using parent_less [of j] parent_less [of ?i] j by auto
      then show ?thesis using o(1) [of j] o(1) [of ?i] j pos D(2,3) not_lt_trans [of "heap H ! j" k "heap H ! parent ?i"] by simp
    qed
    ultimately have b: "below lt 0 (heap ?D) ?i" by (simp add: below_def)
    have "?i < length (heap ?D)" using True D(2) by simp
    from down_all [OF D(1) this b] percolateDown_correct(2) [OF D(1) this _ b] show ?thesis using eq D(4) by simp
  next
    case False
    then have i: "?i = ?n" using pos(1) by simp
    then have kn: "k = heap H ! ?n" using pos(2) by simp
    have "(indices H)[k := int ?n, k := -1] = (indices H)[k := -1]" by simp
    then have "remove_key lt k H = Some ?D"
      using False wf(2) l i kn by (simp add: remove_key_def drop_last_def put_def Let_def)
    moreover have "ordered_at lt (heap ?D) j" for j
      unfolding ordered_at_def
    proof
      assume "0 < j \<and> j < length (heap ?D)"
      then have j: "0 < j" "j < ?n" "parent j < ?n" "j < length (heap H)" using D(2) parent_less [of j] by auto
      then show "\<not> lt (heap ?D ! j) (heap ?D ! parent j)" using o(1) [of j] D(3) [OF j(2)] D(3) [OF j(3)] i by simp
    qed
    ultimately show ?thesis using D(1,4) by (auto simp: heap_inv_def)
  qed
qed

end

subsection \<open>The orders of the solver\<close>

text \<open>Variables with a higher priority come first, then those with a higher activity. Activities are rational numbers here (the
  rounding of \<open>double\<close> is left out).\<close>

definition VarOrderLt :: "rat list \<Rightarrow> int list \<Rightarrow> nat \<Rightarrow> nat \<Rightarrow> bool" where
  "VarOrderLt activity priority x y =
     (if priority ! x = priority ! y then activity ! x > activity ! y else priority ! x > priority ! y)"

interpretation var_order: key_order "VarOrderLt activity priority" for activity priority
  by unfold_locales (auto simp: VarOrderLt_def split: if_splits)

record Heuristic =
  h_priority :: int
  h_order :: int
  h_activity :: rat

definition HeuristicOrderLt :: "Heuristic list \<Rightarrow> nat \<Rightarrow> nat \<Rightarrow> bool" where
  "HeuristicOrderLt hs x y =
     (if h_priority (hs ! x) = h_priority (hs ! y) then
        if h_order (hs ! x) = h_order (hs ! y) then h_activity (hs ! x) > h_activity (hs ! y)
        else h_order (hs ! x) < h_order (hs ! y)
      else h_priority (hs ! x) > h_priority (hs ! y))"

interpretation heuristic_order: key_order "HeuristicOrderLt hs" for hs
  by unfold_locales (auto simp: HeuristicOrderLt_def split: if_splits)

subsection \<open>Properties\<close>

text \<open>C12: The heap is a priority queue: for every strict weak order, \<open>insert\<close> adds a key, \<open>removeMin\<close> returns a least key and
  removes it, \<open>build\<close> makes a heap of the given keys, and after the order of one key has changed, \<open>decrease\<close> (if it came
  forward), \<open>increase\<close> (if it fell back) and \<open>update\<close> (in either case) restore the heap without adding or losing a key. Each operation
  returns, and the invariant holds afterwards for the order that is then in force.\<close>

theorem heap_operations_correct:
  assumes "key_order lt" "heap_inv lt H"
  shows "(k \<notin> set (heap H) \<longrightarrow> (\<exists>H'. insert_key lt k H = Some H' \<and> heap_inv lt H' \<and> set (heap H') = insert k (set (heap H)))) \<and>
    (heap H \<noteq> [] \<longrightarrow> (\<exists>x H'. removeMin lt H = Some (x, H') \<and> heap_inv lt H' \<and> x \<in> set (heap H) \<and>
       set (heap H') = set (heap H) - {x} \<and> (\<forall>y \<in> set (heap H). \<not> lt y x))) \<and>
    (distinct ns \<and> list_all (\<lambda>k. k < length (indices H)) ns \<longrightarrow>
       (\<exists>H'. build lt ns H = Some H' \<and> heap_inv lt H' \<and> set (heap H') = set ns)) \<and>
    (k \<in> set (heap H) \<and> key_order lt' \<and> (\<forall>x y. x \<noteq> k \<and> y \<noteq> k \<longrightarrow> lt' x y = lt x y) \<longrightarrow>
       (\<exists>H'. update_key lt' k H = Some H' \<and> heap_inv lt' H' \<and> set (heap H') = set (heap H)) \<and>
       ((\<forall>x. lt' x k \<longrightarrow> lt x k) \<longrightarrow> (\<exists>H'. decrease lt' k H = Some H' \<and> heap_inv lt' H' \<and> set (heap H') = set (heap H))) \<and>
       ((\<forall>x. lt' k x \<longrightarrow> lt k x) \<longrightarrow> (\<exists>H'. increase lt' k H = Some H' \<and> heap_inv lt' H' \<and> set (heap H') = set (heap H))))"
proof (intro conjI impI)
  have wf: "wf_heap H" using assms(2) by (simp add: heap_inv_def)
  assume "k \<notin> set (heap H)"
  then show "\<exists>H'. insert_key lt k H = Some H' \<and> heap_inv lt H' \<and> set (heap H') = insert k (set (heap H))"
    using key_order.insert_key_correct [OF assms] by blast
next
  assume "heap H \<noteq> []"
  then show "\<exists>x H'. removeMin lt H = Some (x, H') \<and> heap_inv lt H' \<and> x \<in> set (heap H) \<and>
       set (heap H') = set (heap H) - {x} \<and> (\<forall>y \<in> set (heap H). \<not> lt y x)"
    using key_order.removeMin_correct [OF assms] by blast
next
  assume "distinct ns \<and> list_all (\<lambda>k. k < length (indices H)) ns"
  then show "\<exists>H'. build lt ns H = Some H' \<and> heap_inv lt H' \<and> set (heap H') = set ns"
    using key_order.build_correct [OF assms(1), of H ns] assms(2) by (auto simp: heap_inv_def)
next
  assume a: "k \<in> set (heap H) \<and> key_order lt' \<and> (\<forall>x y. x \<noteq> k \<and> y \<noteq> k \<longrightarrow> lt' x y = lt x y)"
  then have k: "k \<in> set (heap H)" "key_order lt'" "\<And>x y. x \<noteq> k \<Longrightarrow> y \<noteq> k \<Longrightarrow> lt' x y \<Longrightarrow> lt x y" by auto
  show "\<exists>H'. update_key lt' k H = Some H' \<and> heap_inv lt' H' \<and> set (heap H') = set (heap H)"
    using key_order.update_key_correct [OF k(2) assms(2,1) _ k(1)] k(3) by blast
  show "\<exists>H'. decrease lt' k H = Some H' \<and> heap_inv lt' H' \<and> set (heap H') = set (heap H)" if "\<forall>x. lt' x k \<longrightarrow> lt x k"
    using key_order.decrease_correct [OF k(2) assms(2,1) k(1)] k(3) that by metis
  show "\<exists>H'. increase lt' k H = Some H' \<and> heap_inv lt' H' \<and> set (heap H') = set (heap H)" if "\<forall>x. lt' k x \<longrightarrow> lt k x"
    using key_order.increase_correct [OF k(2) assms(2,1) k(1)] k(3) that by metis
qed

text \<open>The keys in the order in which \<open>removeMin\<close> returns them.\<close>

fun removeMins :: "(nat \<Rightarrow> nat \<Rightarrow> bool) \<Rightarrow> nat \<Rightarrow> KeyHeap \<Rightarrow> nat list option" where
  "removeMins lt 0 H = Some []"
| "removeMins lt (Suc n) H = do { (x, H') \<leftarrow> removeMin lt H; xs \<leftarrow> removeMins lt n H'; Some (x # xs) }"

text \<open>Variables 0 to 6 with these activities, in the heap in this order.\<close>

definition acts :: "rat list" where
  "acts = [0, -4, -1, -5, -6, -3, -2]"

definition seven :: KeyHeap where
  "seven = \<lparr>heap = [0, 1, 2, 3, 4, 5, 6], indices = [0, 1, 2, 3, 4, 5, 6]\<rparr>"

abbreviation "no_prio \<equiv> [0, 0, 0, 0, 0, 0, 0] :: int list"

lemma less_seven: "k < 7 \<longleftrightarrow> k = 0 \<or> k = 1 \<or> k = 2 \<or> k = 3 \<or> k = 4 \<or> k = 5 \<or> k = (6::nat)"
  by auto

lemma seven_inv: "heap_inv (VarOrderLt acts no_prio) seven"
proof -
  have "wf_heap seven" by (simp add: wf_heap_def seven_def All_less_Suc)
  moreover have "ordered_at (VarOrderLt acts no_prio) (heap seven) k" for k
  proof (cases "k < 7")
    case True
    then show ?thesis by (auto simp: less_seven ordered_at_def seven_def parent_def VarOrderLt_def acts_def)
  qed (simp add: ordered_at_def seven_def)
  ultimately show ?thesis by (simp add: heap_inv_def)
qed

theorem heap_operations_correct_witness:
  "\<exists>x H'. removeMin (VarOrderLt acts no_prio) seven = Some (x, H') \<and> heap_inv (VarOrderLt acts no_prio) H' \<and>
     set (heap H') = {0, 1, 2, 3, 4, 5, 6} - {x}"
proof -
  have "heap seven \<noteq> []" "set (heap seven) = {0, 1, 2, 3, 4, 5, 6}" by (simp_all add: seven_def)
  then show ?thesis
    using heap_operations_correct [OF var_order.key_order_axioms seven_inv, THEN conjunct2, THEN conjunct1] by auto
qed

text \<open>C28: Two ways to lose the order of the heap. \<open>remove\<close> puts the last key in the place of the removed one and only sifts it
  down, but it can be smaller than its new parent; \<open>decrease\<close> does not restore the order after a key has fallen back
  (\<open>setDecisionPriority\<close> calls it after lowering a priority). In both cases \<open>removeMin\<close> later returns a key (5 and 0) although
  one that comes before it (6 and 1) is in the heap.\<close>

theorem heap_order_lost:
  "heap_inv (VarOrderLt acts no_prio) seven \<and>
   Option.bind (remove_key (VarOrderLt acts no_prio) 3 seven) (removeMins (VarOrderLt acts no_prio) 4) = Some [0, 2, 5, 6] \<and>
   VarOrderLt acts no_prio 6 5 \<and>
   Option.bind (decrease (VarOrderLt acts (no_prio[0 := -1])) 0 seven) (removeMins (VarOrderLt acts (no_prio[0 := -1])) 1) = Some [0] \<and>
   VarOrderLt acts (no_prio[0 := -1]) 1 0"
proof (intro conjI)
  show "heap_inv (VarOrderLt acts no_prio) seven" by (rule seven_inv)
qed code_simp+

end
