(* ===== verification/Decision_Order.thy ===== *)
theory Decision_Order
  imports Solver_Search Order_Heap
begin

text \<open>
  The decision order of \<open>core/Solver.cc\<close> and \<open>core/Solver.h\<close>: the heap of variables with their activities and priorities, the
  operations that keep it up to date (\<open>insertVarOrder\<close>, \<open>varBumpActivity\<close>, \<open>setDecisionPriority\<close>, \<open>rebuildOrderHeap\<close>, the part of
  \<open>cancelUntil\<close> that concerns it), and \<open>pickBranchLit\<close>, for which \<open>Solver_Search\<close> uses the set \<open>choices\<close>.

  These fields of the solver form a record of their own, next to the record \<open>Solver\<close>. What the random generator returns is an argument. Activities are
  rational numbers; the option \<open>vsids-both\<close>, which also rescales the activities of the heuristics, is off.
\<close>

subsection \<open>Definitions\<close>

record Order =
  order_heap :: KeyHeap
  activity :: "rat list"
  priority :: "int list"
  polarity :: "bool list"
  var_inc :: rat

abbreviation order_lt :: "Order \<Rightarrow> nat \<Rightarrow> nat \<Rightarrow> bool" where
  "order_lt D \<equiv> VarOrderLt (activity D) (priority D)"

definition insertVarOrder :: "Solver \<Rightarrow> nat \<Rightarrow> Order \<Rightarrow> Order option" where
  "insertVarOrder S x D =
     (if \<not> inHeap (order_heap D) x \<and> decision S ! x
      then map_option (\<lambda>H. D\<lparr>order_heap := H\<rparr>) (insert_key (order_lt D) x (order_heap D)) else Some D)"

definition setDecisionVar :: "nat \<Rightarrow> bool \<Rightarrow> Solver \<Rightarrow> Order \<Rightarrow> (Solver \<times> Order) option" where
  "setDecisionVar v b S D =
     (let S1 = S\<lparr>decision := (decision S)[v := b]\<rparr> in map_option (Pair S1) (insertVarOrder S1 v D))"

text \<open>What \<open>newVar\<close> does to the order: \<open>p\<close>, \<open>act\<close> and \<open>pol\<close> are the priority, activity and polarity that its options give.\<close>

definition newVar_order :: "bool \<Rightarrow> int \<Rightarrow> rat \<Rightarrow> bool \<Rightarrow> Solver \<Rightarrow> Order \<Rightarrow> Order option" where
  "newVar_order dvar p act pol S D =
     (let (v, S1) = newVar dvar S; v = nat v;
          D1 = (if free_vars S \<noteq> [] then D
                else D\<lparr>priority := priority D @ [0], activity := activity D @ [0], polarity := polarity D @ [False]\<rparr>)
      in insertVarOrder S1 v (D1\<lparr>priority := (priority D1)[v := p], activity := (activity D1)[v := act], polarity := (polarity D1)[v := pol]\<rparr>))"

definition Order_init :: Order where
  "Order_init = \<lparr>order_heap = KeyHeap_init, activity = [], priority = [], polarity = [], var_inc = 1\<rparr>"

definition varBumpActivity :: "nat \<Rightarrow> rat \<Rightarrow> Order \<Rightarrow> Order option" where
  "varBumpActivity v inc D =
     (let act = (activity D)[v := activity D ! v + inc];
          D1 = (if act ! v > 10 ^ 100
                then D\<lparr>activity := map (\<lambda>a. a * (1 / 10 ^ 100)) act, var_inc := var_inc D * (1 / 10 ^ 100)\<rparr>
                else D\<lparr>activity := act\<rparr>)
      in if inHeap (order_heap D1) v
         then map_option (\<lambda>H. D1\<lparr>order_heap := H\<rparr>) (decrease (order_lt D1) v (order_heap D1)) else Some D1)"

definition varDecayActivity :: "rat \<Rightarrow> Order \<Rightarrow> Order" where
  "varDecayActivity var_decay D = D\<lparr>var_inc := var_inc D * (1 / var_decay)\<rparr>"

definition setDecisionPriority :: "Solver \<Rightarrow> nat \<Rightarrow> int \<Rightarrow> Order \<Rightarrow> Order option" where
  "setDecisionPriority S v p D =
     (let D1 = D\<lparr>priority := (priority D)[v := p]\<rparr>
      in if decision S ! v
         then map_option (\<lambda>H. D1\<lparr>order_heap := H\<rparr>)
           (if inHeap (order_heap D1) v then decrease (order_lt D1) v (order_heap D1) else insert_key (order_lt D1) v (order_heap D1))
         else Some D1)"

definition open_vars :: "Solver \<Rightarrow> nat list" where
  "open_vars S = filter (\<lambda>v. decision S ! v \<and> lbool_eq (assigns S ! v) l_Undef) [0..<nVars S]"

definition rebuildOrderHeap :: "Solver \<Rightarrow> Order \<Rightarrow> Order option" where
  "rebuildOrderHeap S D = map_option (\<lambda>H. D\<lparr>order_heap := H\<rparr>) (build (order_lt D) (open_vars S) (order_heap D))"

text \<open>What \<open>cancelUntil\<close> does with the positions of the trail that it visits.\<close>

fun undo_order :: "nat \<Rightarrow> nat \<Rightarrow> Solver \<Rightarrow> nat list \<Rightarrow> Order \<Rightarrow> Order option" where
  "undo_order phase_saving lev S [] D = Some D"
| "undo_order phase_saving lev S (c # cs) D =
     (let l = trail S ! c; x = nat (var l)
      in if level S (var l) \<le> lev then undo_order phase_saving lev S cs D
         else Option.bind
           (insertVarOrder S x (if phase_saving > 1 \<or> phase_saving = 1 \<and> c > last (trail_lim S)
              then D\<lparr>polarity := (polarity D)[x := sign l]\<rparr> else D))
           (undo_order phase_saving lev S cs))"

definition cancel_order :: "nat \<Rightarrow> nat \<Rightarrow> Solver \<Rightarrow> Order \<Rightarrow> Order option" where
  "cancel_order phase_saving lev S D =
     (if decisionLevel S > lev then undo_order phase_saving lev S (rev [trail_lim S ! lev..<length (trail S)]) D else Some D)"

lemma length_down_loop: "length (heap (snd (down_loop lt x i H))) = length (heap H)"
proof (induction lt x i H rule: down_loop.induct)
  case (1 lt x i H)
  show ?case by (subst down_loop.simps) (use 1 in \<open>simp add: Let_def\<close>)
qed

lemma length_percolateDown [simp]: "length (heap (percolateDown lt i H)) = length (heap H)"
  using length_down_loop [of lt "heap H ! i" i H] by (auto simp: percolateDown_def Let_def split: prod.splits)

lemma removeMin_length:
  assumes "removeMin lt H = Some (x, H')" shows "length (heap H') < length (heap H)"
proof -
  have ne: "heap H \<noteq> []" using assms by (auto simp: removeMin_def)
  then have "length (heap H') = length (heap H) - 1"
    using assms by (auto simp: removeMin_def Let_def put_def split: if_splits)
  then show ?thesis using ne by simp
qed

text \<open>\<open>next\<close> is \<open>None\<close> for \<open>var_Undef\<close>.\<close>

function pick_loop :: "Solver \<Rightarrow> nat option \<Rightarrow> Order \<Rightarrow> nat option \<times> Order" where
  "pick_loop S next D =
     (if (case next of None \<Rightarrow> True | Some v \<Rightarrow> \<not> lbool_eq (assigns S ! v) l_Undef \<or> \<not> decision S ! v)
      then (case removeMin (order_lt D) (order_heap D) of
              None \<Rightarrow> (None, D)
            | Some r \<Rightarrow> pick_loop S (Some (fst r)) (D\<lparr>order_heap := snd r\<rparr>))
      else (next, D))"
  by pat_completeness auto

termination
  by (relation "measure (\<lambda>(S, next, D). length (heap (order_heap D)))") (auto dest: removeMin_length)

text \<open>\<open>rnd\<close> is the position of a random decision, if one is made; \<open>rnd_pol\<close> a random polarity, if the option is set.\<close>

definition pickBranchLit :: "nat option \<Rightarrow> bool option \<Rightarrow> Solver \<Rightarrow> Order \<Rightarrow> Lit option \<times> Order" where
  "pickBranchLit rnd rnd_pol S D =
     (let next = (case rnd of Some j \<Rightarrow> if heap (order_heap D) \<noteq> [] then Some (heap (order_heap D) ! j) else None | None \<Rightarrow> None);
          (next', D') = pick_loop S next D
      in (map_option (\<lambda>v. mkLit (int v) (case rnd_pol of Some b \<Rightarrow> b | None \<Rightarrow> polarity D ! v)) next', D'))"

declare pick_loop.simps [simp del]

subsection \<open>Invariant\<close>

text \<open>The heap is ordered by the current activities and priorities, and every variable that can be decided, except those of
  \<open>X\<close>, is in it.\<close>

definition order_inv :: "nat set \<Rightarrow> Solver \<Rightarrow> Order \<Rightarrow> bool" where
  "order_inv X S D \<longleftrightarrow> heap_inv (order_lt D) (order_heap D) \<and> length (activity D) = nVars S \<and> length (priority D) = nVars S \<and>
     length (decision S) = nVars S \<and> set (heap (order_heap D)) \<subseteq> {..<nVars S} \<and>
     (\<forall>v < nVars S. decision S ! v \<longrightarrow> v < length (indices (order_heap D)) \<and>
        (v \<notin> X \<longrightarrow> lbool_eq (assigns S ! v) l_Undef \<longrightarrow> v \<in> set (heap (order_heap D))))"

lemma order_invD:
  assumes "order_inv X S D"
  shows "heap_inv (order_lt D) (order_heap D)" "length (activity D) = nVars S" "length (priority D) = nVars S"
    "set (heap (order_heap D)) \<subseteq> {..<nVars S}"
    "v < nVars S \<Longrightarrow> decision S ! v \<Longrightarrow> v < length (indices (order_heap D))"
    "v < nVars S \<Longrightarrow> decision S ! v \<Longrightarrow> v \<notin> X \<Longrightarrow> lbool_eq (assigns S ! v) l_Undef \<Longrightarrow> v \<in> set (heap (order_heap D))"
    "inHeap (order_heap D) v \<longleftrightarrow> v \<in> set (heap (order_heap D))" "wf_heap (order_heap D)" "length (decision S) = nVars S"
  using assms inHeap_iff by (auto simp: order_inv_def heap_inv_def)

lemma set_open_vars: "v \<in> set (open_vars S) \<longleftrightarrow> v < nVars S \<and> decision S ! v \<and> lbool_eq (assigns S ! v) l_Undef"
  by (auto simp: open_vars_def)

text \<open>A variable that is in the heap has a position.\<close>

lemma in_heap_indices: "wf_heap H \<Longrightarrow> k \<in> set (heap H) \<Longrightarrow> k < length (indices H)"
  using wf_heapD(2) by (metis in_set_conv_nth)

text \<open>The variable may have become a decision variable just now.\<close>

lemma insertVarOrder_new:
  assumes inv: "order_inv X (S\<lparr>decision := (decision S)[x := False]\<rparr>) D" and x: "x < nVars S"
  shows "\<exists>D'. insertVarOrder S x D = Some D' \<and> order_inv (X - {x}) S D'"
proof -
  let ?S = "S\<lparr>decision := (decision S)[x := False]\<rparr>"
  note I = order_invD [OF inv]
  have old: "v < length (indices (order_heap D)) \<and> (v \<notin> X \<longrightarrow> lbool_eq (assigns S ! v) l_Undef \<longrightarrow> v \<in> set (heap (order_heap D)))"
    if "v < nVars S" "decision S ! v" "v \<noteq> x" for v
    using I(5,6) [of v] that by simp
  show ?thesis
  proof (cases "inHeap (order_heap D) x \<or> \<not> decision S ! x")
    case True
    then have "decision S ! x \<Longrightarrow> x \<in> set (heap (order_heap D)) \<and> x < length (indices (order_heap D))"
      using I(7) in_heap_indices [OF I(8)] by auto
    then have "v < length (indices (order_heap D)) \<and> (v \<notin> X - {x} \<longrightarrow> lbool_eq (assigns S ! v) l_Undef \<longrightarrow> v \<in> set (heap (order_heap D)))"
      if "v < nVars S" "decision S ! v" for v
      using old [OF that] that by (cases "v = x") auto
    then have "order_inv (X - {x}) S D" unfolding order_inv_def using I(1-4,9) by simp
    then show ?thesis using True by (auto simp: insertVarOrder_def)
  next
    case False
    from var_order.insert_key_correct [OF I(1), of x] False I(7) obtain H' where
      H: "insert_key (order_lt D) x (order_heap D) = Some H'" "heap_inv (order_lt D) H'" "set (heap H') = insert x (set (heap (order_heap D)))"
        "length (indices H') = max (x + 1) (length (indices (order_heap D)))" by auto
    have "v < length (indices H') \<and> (v \<notin> X - {x} \<longrightarrow> lbool_eq (assigns S ! v) l_Undef \<longrightarrow> v \<in> set (heap H'))"
      if "v < nVars S" "decision S ! v" for v
      using old [OF that] H(3,4) by (cases "v = x") auto
    then have "order_inv (X - {x}) S (D\<lparr>order_heap := H'\<rparr>)"
      unfolding order_inv_def using H(2,3) I(2-4,9) x by simp
    then show ?thesis using H(1) False by (simp add: insertVarOrder_def)
  qed
qed

lemma insertVarOrder_inv:
  assumes inv: "order_inv X S D" and x: "x < nVars S"
  shows "\<exists>D'. insertVarOrder S x D = Some D' \<and> order_inv (X - {x}) S D'"
proof (rule insertVarOrder_new [OF _ x])
  have "decision S ! v" if "v < nVars S" "(decision S)[x := False] ! v" for v
    using that x order_invD(9) [OF inv] by (cases "v = x") (simp_all add: nth_list_update)
  then show "order_inv X (S\<lparr>decision := (decision S)[x := False]\<rparr>) D" using inv by (simp add: order_inv_def)
qed

lemma order_inv_cong:
  assumes "order_inv X S D" "nVars S' = nVars S" "decision S' = decision S" "order_heap D' = order_heap D" "activity D' = activity D"
    "priority D' = priority D"
    and "\<And>v. v < nVars S \<Longrightarrow> decision S ! v \<Longrightarrow> lbool_eq (assigns S' ! v) l_Undef \<Longrightarrow> v \<notin> Y \<Longrightarrow> v \<notin> X \<and> lbool_eq (assigns S ! v) l_Undef"
  shows "order_inv Y S' D'"
  using assms unfolding order_inv_def by auto

lemma undo_order_inv:
  assumes "order_inv X T D" "decision T = decision S" "nVars T = nVars S"
    "\<forall>c \<in> set cs. nat (var (trail S ! c)) < nVars S \<and> lev < level S (var (trail S ! c))"
  shows "\<exists>D'. undo_order ps lev S cs D = Some D' \<and> order_inv (X - (\<lambda>c. nat (var (trail S ! c))) ` set cs) T D'"
  using assms
proof (induction cs arbitrary: X D)
  case (Cons c cs)
  let ?x = "nat (var (trail S ! c))"
  let ?D = "if ps > 1 \<or> ps = 1 \<and> c > last (trail_lim S) then D\<lparr>polarity := (polarity D)[?x := sign (trail S ! c)]\<rparr> else D"
  have "order_inv X T ?D" using Cons.prems(1) by (auto simp: order_inv_def)
  from insertVarOrder_inv [OF this, of ?x] Cons.prems(3,4) obtain D1 where
    D1: "insertVarOrder T ?x ?D = Some D1" "order_inv (X - {?x}) T D1" by auto
  have "insertVarOrder S ?x ?D = Some D1" using D1(1) Cons.prems(2) by (simp add: insertVarOrder_def)
  moreover from Cons.IH [OF D1(2)] Cons.prems obtain D' where
    "undo_order ps lev S cs D1 = Some D'" "order_inv (X - {?x} - (\<lambda>c. nat (var (trail S ! c))) ` set cs) T D'" by auto
  moreover have "X - (\<lambda>c. nat (var (trail S ! c))) ` set (c # cs) = X - {?x} - (\<lambda>c. nat (var (trail S ! c))) ` set cs" by auto
  moreover have "\<not> level S (var (trail S ! c)) \<le> lev" using Cons.prems(4) by simp
  ultimately show ?case by (simp add: Let_def)
qed simp

lemma cancel_order_inv:
  assumes S: "solver_inv S" and inv: "order_inv {} S D"
  shows "\<exists>D'. cancel_order ps lev S D = Some D' \<and> order_inv {} (cancelUntil lev S) D'"
proof (cases "lev < decisionLevel S")
  case True
  note I = solver_invD [OF S]
  let ?T = "cancelUntil lev S" and ?n = "trail_lim S ! lev"
  let ?cs = "rev [?n..<length (trail S)]" and ?x = "\<lambda>c. nat (var (trail S ! c))"
  have rng: "0 \<le> var l \<and> nat (var l) < nVars S" if "l \<in> set (trail S)" for l
    using I(6) that by (auto simp: wf_trail_def in_range_def)
  have lv: "lev < level S (var (trail S ! c))" if "c \<in> set ?cs" for c
  proof (rule ccontr)
    assume "\<not> lev < level S (var (trail S ! c))"
    moreover have c: "c < length (trail S)" "?n \<le> c" using that by auto
    ultimately have "trail S ! c \<in> set (take ?n (trail S))" using take_le_level [OF I(9) _ True, of "trail S ! c"] by simp
    then obtain i where "i < ?n" "i < length (trail S)" "trail S ! i = trail S ! c" by (auto simp: in_set_conv_nth)
    moreover have "distinct (trail S)" using I(6) by (auto simp: wf_trail_def distinct_map)
    ultimately show False using c by (simp add: nth_eq_iff_index_eq)
  qed
  let ?X = "?x ` set ?cs"
  have drp: "(\<lambda>l. nat (var l)) ` set (drop ?n (trail S)) = ?X"
  proof -
    have "drop ?n (trail S) = map ((!) (trail S)) [?n..<length (trail S)]" by (simp add: list_eq_iff_nth_eq)
    then show ?thesis by (simp add: image_image)
  qed
  have "order_inv ?X ?T D"
  proof (rule order_inv_cong [OF inv])
    fix v assume v: "v < nVars S" "lbool_eq (assigns ?T ! v) l_Undef" "v \<notin> ?X"
    have "\<forall>l \<in> set (drop ?n (trail S)). 0 \<le> var l" using rng by (auto dest: in_set_dropD)
    moreover have "int v \<notin> var ` set (drop ?n (trail S))" using v(3) drp by (metis (no_types, lifting) imageE imageI nat_int)
    ultimately have "assigns ?T ! v = assigns S ! v"
      using nth_fold_undef [of "drop ?n (trail S)" "int v" "assigns S"] cancelUntil_cut(4) [OF I(9,6) True] v(1) by simp
    then show "v \<notin> {} \<and> lbool_eq (assigns S ! v) l_Undef" using v by simp
  qed simp_all
  from undo_order_inv [OF this, of S ?cs lev ps] lv rng show ?thesis
    using True by (auto simp: cancel_order_def)
next
  case False
  then show ?thesis using inv by (simp add: cancel_order_def)
qed

text \<open>A change of the order that moves the variable \<open>v\<close> forward, followed by \<open>decrease\<close>.\<close>

lemma order_inv_forward:
  assumes inv: "order_inv X S D" and E: "order_heap E = order_heap D" "length (activity E) = nVars S" "length (priority E) = nVars S"
    and ch: "\<And>x y. x < nVars S \<Longrightarrow> y < nVars S \<Longrightarrow> x \<noteq> v \<Longrightarrow> order_lt E x y \<Longrightarrow> order_lt D x y"
  shows "v \<in> set (heap (order_heap D)) \<Longrightarrow> \<exists>H. decrease (order_lt E) v (order_heap E) = Some H \<and> order_inv X S (E\<lparr>order_heap := H\<rparr>)"
    "v \<notin> set (heap (order_heap D)) \<Longrightarrow> order_inv X S E"
proof -
  note I = order_invD [OF inv]
  have sub: "x < nVars S" if "x \<in> set (heap (order_heap D))" for x using I(4) that by auto
  show "\<exists>H. decrease (order_lt E) v (order_heap E) = Some H \<and> order_inv X S (E\<lparr>order_heap := H\<rparr>)" if v: "v \<in> set (heap (order_heap D))"
  proof -
    from var_order.decrease_correct [OF I(1) var_order.key_order_axioms v, of "activity E" "priority E"] ch sub
    obtain H where H: "decrease (order_lt E) v (order_heap D) = Some H" "heap_inv (order_lt E) H"
      "set (heap H) = set (heap (order_heap D))" "length (indices H) = length (indices (order_heap D))" by blast
    then show ?thesis using E inv by (auto simp: order_inv_def)
  qed
  show "order_inv X S E" if v: "v \<notin> set (heap (order_heap D))"
  proof -
    have "ordered_at (order_lt E) (heap (order_heap D)) k" for k
      unfolding ordered_at_def
    proof
      assume k: "0 < k \<and> k < length (heap (order_heap D))"
      then have m: "heap (order_heap D) ! k \<in> set (heap (order_heap D))" "heap (order_heap D) ! parent k \<in> set (heap (order_heap D))"
        using parent_less [of k] by simp_all
      then show "\<not> order_lt E (heap (order_heap D) ! k) (heap (order_heap D) ! parent k)"
        using I(1) k ch [OF sub [OF m(1)] sub [OF m(2)]] v m(1) unfolding heap_inv_def ordered_at_def by metis
    qed
    then show ?thesis using inv E by (auto simp: order_inv_def heap_inv_def)
  qed
qed

lemma varBumpActivity_inv:
  assumes inv: "order_inv X S D" and v: "v < nVars S" "0 \<le> inc"
  shows "\<exists>D'. varBumpActivity v inc D = Some D' \<and> order_inv X S D'"
proof -
  note I = order_invD [OF inv]
  let ?act = "(activity D)[v := activity D ! v + inc]"
  define E where "E = (if ?act ! v > 10 ^ 100
    then D\<lparr>activity := map (\<lambda>a. a * (1 / 10 ^ 100)) ?act, var_inc := var_inc D * (1 / 10 ^ 100)\<rparr> else D\<lparr>activity := ?act\<rparr>)"
  have act: "activity E ! x < activity E ! y \<longleftrightarrow> ?act ! x < ?act ! y" if "x < nVars S" "y < nVars S" for x y
    using that I(2) by (simp add: E_def divide_less_cancel)
  have E: "order_heap E = order_heap D" "length (activity E) = nVars S" "length (priority E) = nVars S" "priority E = priority D"
    using I(2,3) by (simp_all add: E_def)
  have "order_lt D x y" if x: "x < nVars S" "y < nVars S" "x \<noteq> v" "order_lt E x y" for x y
  proof -
    have "activity D ! y \<le> ?act ! y" "?act ! x = activity D ! x" using x v I(2) by (auto simp: nth_list_update)
    then show ?thesis using x(4) act [OF x(2,1)] by (auto simp: VarOrderLt_def E(4) split: if_splits)
  qed
  note F = order_inv_forward [OF inv E(1-3), of v, OF this]
  have "varBumpActivity v inc D = (if inHeap (order_heap E) v
    then map_option (\<lambda>H. E\<lparr>order_heap := H\<rparr>) (decrease (order_lt E) v (order_heap E)) else Some E)"
    by (simp only: varBumpActivity_def E_def Let_def)
  then show ?thesis using F E(1) I(7) by (cases "v \<in> set (heap (order_heap D))") auto
qed

lemma setDecisionPriority_inv:
  assumes inv: "order_inv X S D" and v: "v < nVars S" "priority D ! v \<le> p" and d: "decision S ! v"
  shows "\<exists>D'. setDecisionPriority S v p D = Some D' \<and> order_inv X S D'"
proof -
  note I = order_invD [OF inv]
  define E where "E = D\<lparr>priority := (priority D)[v := p]\<rparr>"
  have E: "order_heap E = order_heap D" "length (activity E) = nVars S" "length (priority E) = nVars S"
    using I(2,3) by (simp_all add: E_def)
  have "order_lt D x y" if x: "x < nVars S" "y < nVars S" "x \<noteq> v" "order_lt E x y" for x y
    using x v I(3) by (auto simp: VarOrderLt_def E_def nth_list_update split: if_splits)
  note F = order_inv_forward [OF inv E, of v, OF this]
  show ?thesis
  proof (cases "decision S ! v \<and> v \<notin> set (heap (order_heap D))")
    case True
    from insertVarOrder_inv [OF F(2) v(1)] True I(7) E(1) obtain D' where
      "insertVarOrder S v E = Some D'" "order_inv (X - {v}) S D'" by auto
    moreover from this have "order_inv X S D'" by (auto simp: order_inv_def)
    ultimately show ?thesis using True I(7) E(1) by (auto simp: setDecisionPriority_def insertVarOrder_def E_def [symmetric] Let_def)
  next
    case False
    then show ?thesis
      using F(1) I(7) E(1) d by (auto simp: setDecisionPriority_def E_def [symmetric] Let_def)
  qed
qed

lemma rebuildOrderHeap_inv:
  assumes inv: "order_inv {} S D"
  shows "\<exists>D'. rebuildOrderHeap S D = Some D' \<and> order_inv {} S D' \<and> set (heap (order_heap D')) = set (open_vars S)"
proof -
  note I = order_invD [OF inv]
  have "distinct (open_vars S)" by (simp add: open_vars_def)
  moreover have "list_all (\<lambda>k. k < length (indices (order_heap D))) (open_vars S)" using I(5) set_open_vars by (auto simp: list_all_iff)
  ultimately obtain H where H: "build (order_lt D) (open_vars S) (order_heap D) = Some H" "heap_inv (order_lt D) H"
    "set (heap H) = set (open_vars S)" "length (indices H) = length (indices (order_heap D))"
    using var_order.build_correct [OF I(8)] by blast
  then have "order_inv {} S (D\<lparr>order_heap := H\<rparr>)" using I set_open_vars by (auto simp: order_inv_def)
  then show ?thesis using H by (simp add: rebuildOrderHeap_def)
qed

text \<open>Propagation only assigns variables.\<close>

lemma propagate_order_inv:
  assumes "wf_solver S" "wf_solver S'" "prop_rel S S'" "decision S' = decision S" and inv: "order_inv X S D"
  shows "order_inv X S' D"
proof (rule order_inv_cong [OF inv])
  show n: "nVars S' = nVars S" using assms(3) by (simp add: prop_rel_def)
  fix v assume v: "v < nVars S" "lbool_eq (assigns S' ! v) l_Undef" "v \<notin> X"
  have wf: "wf_vars S" "wf_trail S" "wf_vars S'" "wf_trail S'" using assms(1,2) by (auto simp: wf_solver_def)
  let ?l = "mkLit (int v) False"
  have r: "in_range S ?l" "in_range S' ?l" using v(1) n by (simp_all add: in_range_def lit_simps)
  have val: "lbool_eq (lit_value T ?l) l_Undef \<longleftrightarrow> lbool_eq (assigns T ! v) l_Undef" if "in_range T ?l" for T
    using that by (simp add: lit_value_def lit_simps lbool_xor_def)
  have "set (trail S) \<subseteq> set (trail S')" using assms(3) by (auto simp: prop_rel_def)
  then show "v \<notin> X \<and> lbool_eq (assigns S ! v) l_Undef"
    using v val [OF r(1)] val [OF r(2)] value_Undef [OF wf(1,2) r(1)] value_Undef [OF wf(3,4) r(2)] by auto
qed (use assms in simp_all)

lemma setDecisionVar_inv:
  assumes inv: "order_inv {} S D" and v: "v < nVars S"
  shows "\<exists>S' D'. setDecisionVar v b S D = Some (S', D') \<and> order_inv {} S' D'"
proof -
  let ?S = "S\<lparr>decision := (decision S)[v := b]\<rparr>"
  have "decision S ! u" if "u < nVars S" "(decision S)[v := False] ! u" for u
    using that v order_invD(9) [OF inv] by (cases "u = v") (simp_all add: nth_list_update)
  then have "order_inv {} (?S\<lparr>decision := (decision ?S)[v := False]\<rparr>) D" using inv by (simp add: order_inv_def)
  from insertVarOrder_new [OF this] v show ?thesis by (auto simp: setDecisionVar_def Let_def)
qed

lemma newVar_order_inv:
  assumes inv: "order_inv {} S D" and f: "free_vars S = []"
  shows "\<exists>D'. newVar_order dvar p act pol S D = Some D' \<and> order_inv {} (snd (newVar dvar S)) D'"
proof -
  note I = order_invD [OF inv]
  let ?n = "nVars S" and ?S = "snd (newVar dvar S)"
  let ?D = "D\<lparr>priority := priority D @ [p], activity := activity D @ [act], polarity := (polarity D @ [False])[?n := pol]\<rparr>"
  have S: "assigns ?S = assigns S @ [l_Undef]" "decision ?S = decision S @ [dvar]" "fst (newVar dvar S) = int ?n"
    using f I(9) by (simp_all add: newVar_def Let_def list_update_append)
  have lt: "order_lt ?D x y = order_lt D x y" if "x < ?n" "y < ?n" for x y
    using that I(2,3) by (simp add: VarOrderLt_def nth_append)
  have sub: "heap (order_heap D) ! k < ?n" if "k < length (heap (order_heap D))" for k using I(4) nth_mem [OF that] by auto
  have "ordered_at (order_lt ?D) (heap (order_heap D)) k" for k
    using I(1) lt [OF sub sub] parent_less [of k] by (auto simp: heap_inv_def ordered_at_def)
  then have "heap_inv (order_lt ?D) (order_heap D)" using I(8) by (auto simp: heap_inv_def)
  then have "order_inv {} (?S\<lparr>decision := (decision ?S)[?n := False]\<rparr>) ?D"
    unfolding order_inv_def using S(1,2) I by (auto simp: nth_append less_Suc_eq)
  moreover have "(priority D @ [0])[?n := p] = priority D @ [p]" "(activity D @ [0])[?n := act] = activity D @ [act]"
    using I(2,3) by (simp_all add: list_update_append)
  ultimately show ?thesis
    using insertVarOrder_new [of "{}" ?S ?n ?D] S(1,3) f by (auto simp: newVar_order_def Let_def split: prod.splits)
qed

lemma Order_init_inv: "order_inv {} init_solver Order_init"
  by (simp add: order_inv_def Order_init_def init_solver_def heap_inv_def wf_heap_def KeyHeap_init_def ordered_at_def)

subsection \<open>The choice\<close>

lemma pick_loop_correct:
  assumes "order_inv (set_option next) S D" "\<And>v. next = Some v \<Longrightarrow> v < nVars S" "pick_loop S next D = (next', D')"
  shows "order_inv (set_option next') S D' \<and> (case next' of None \<Rightarrow> open_vars S = [] | Some v \<Rightarrow> v \<in> set (open_vars S)) \<and>
    activity D' = activity D \<and> priority D' = priority D \<and>
    (next' = next \<or> (\<forall>v. next' = Some v \<longrightarrow> (\<forall>u \<in> set (open_vars S). \<not> order_lt D u v)))"
  using assms
proof (induction S "next" D rule: pick_loop.induct)
  case (1 S "next" D)
  note I = order_invD [OF 1(2)]
  show ?case
  proof (cases "case next of None \<Rightarrow> True | Some v \<Rightarrow> \<not> lbool_eq (assigns S ! v) l_Undef \<or> \<not> decision S ! v")
    case False
    then obtain v where v: "next = Some v" "lbool_eq (assigns S ! v) l_Undef" "decision S ! v" by (auto split: option.splits)
    then have "next' = next" "D' = D" using 1(4) by (simp_all add: pick_loop.simps [of S "Some v" D])
    then show ?thesis using 1(2,3) v by (simp add: set_open_vars)
  next
    case True
    have cov: "u \<in> set (heap (order_heap D))" if "u \<in> set (open_vars S)" for u
      using that I(6) [of u] True set_open_vars [of u S] by (auto split: option.splits)
    show ?thesis
    proof (cases "heap (order_heap D) = []")
      case e: True
      then have "open_vars S = []" using cov by (cases "open_vars S") auto
      moreover have "removeMin (order_lt D) (order_heap D) = None" using e by (simp add: removeMin_def)
      then have "next' = None" "D' = D" using 1(4) True by (simp_all add: pick_loop.simps [of S "next" D])
      moreover have "order_inv {} S D" using 1(2) \<open>open_vars S = []\<close> set_open_vars [of _ S] by (auto simp: order_inv_def)
      ultimately show ?thesis by simp
    next
      case False
      from var_order.removeMin_correct [OF I(1) False] obtain x H where
        H: "removeMin (order_lt D) (order_heap D) = Some (x, H)" "heap_inv (order_lt D) H" "x \<in> set (heap (order_heap D))"
          "set (heap H) = set (heap (order_heap D)) - {x}" "length (indices H) = length (indices (order_heap D))"
          "\<forall>y \<in> set (heap (order_heap D)). \<not> order_lt D y x" by blast
      let ?D = "D\<lparr>order_heap := H\<rparr>"
      have x: "x < nVars S" using H(3) I(4) by auto
      have inv: "order_inv {x} S ?D"
        unfolding order_inv_def using I H cov set_open_vars [of _ S] by auto
      have "pick_loop S (Some x) ?D = (next', D')" using 1(4) True H(1) by (simp add: pick_loop.simps [of S "next" D])
      from 1(1) [OF True H(1)] inv x this have R: "order_inv (set_option next') S D' \<and>
        (case next' of None \<Rightarrow> open_vars S = [] | Some v \<Rightarrow> v \<in> set (open_vars S)) \<and> activity D' = activity D \<and> priority D' = priority D \<and>
        (next' = Some x \<or> (\<forall>v. next' = Some v \<longrightarrow> (\<forall>u \<in> set (open_vars S). \<not> order_lt D u v)))" by simp
      moreover have "\<forall>u \<in> set (open_vars S). \<not> order_lt D u x" using cov H(6) by blast
      ultimately show ?thesis by blast
    qed
  qed
qed

text \<open>The variables that can be decided are those of \<open>choices\<close>.\<close>

lemma choices_open:
  assumes "wf_vars S" "\<forall>v \<in> set (open_vars S). int v \<notin> set (free_vars S)"
  shows "l \<in> choices S \<longleftrightarrow> 0 \<le> var l \<and> nat (var l) \<in> set (open_vars S)"
proof -
  have "lbool_eq (lit_value S l) l_Undef \<longleftrightarrow> lbool_eq (assigns S ! nat (var l)) l_Undef" if r: "in_range S l"
  proof -
    have "nat (var l) < nVars S" using r by (auto simp: in_range_def)
    then have "wf_lbool (assigns S ! nat (var l))" using assms(1) by (simp add: wf_vars_def)
    then show ?thesis using r by (simp add: lit_value_def)
  qed
  moreover have "var l \<notin> set (free_vars S)" if "0 \<le> var l" "nat (var l) \<in> set (open_vars S)" using assms(2) that by force
  ultimately show ?thesis by (auto simp: choices_def live_def in_range_def set_open_vars)
qed

lemma decide_order_inv:
  assumes wf: "wf_vars S" and l: "0 \<le> var l" "nat (var l) < nVars S" and inv: "order_inv {nat (var l)} S D"
  shows "order_inv {} (decide l S) D"
proof (rule order_inv_cong [OF inv])
  have a: "assigns (decide l S) = (assigns S)[nat (var l) := lbool_of (\<not> sign l)]"
    by (simp add: decide_def uncheckedEnqueue_def newDecisionLevel_def)
  fix v assume v: "v < nVars S" "lbool_eq (assigns (decide l S) ! v) l_Undef"
  then have "v \<noteq> nat (var l)" using a l by (cases "sign l") (auto simp: lbool_of_def lbool_eq_def l_Undef_def)
  then show "v \<notin> {nat (var l)} \<and> lbool_eq (assigns S ! v) l_Undef" using v a by simp
qed (simp_all add: decide_def uncheckedEnqueue_def newDecisionLevel_def)

subsection \<open>Properties\<close>

text \<open>C13: \<open>pickBranchLit\<close> meets the contract of the search: it returns a literal of an unassigned decision variable, and
  \<open>lit_Undef\<close> only if there is none. Unless the choice is random, no other such variable comes before it in the order of
  priorities and activities. After the decision the heap again has every variable that can still be decided. (A variable that is free
  for reuse is not unassigned.)\<close>

theorem pickBranchLit_correct:
  assumes "solver_inv S" "order_inv {} S D" "\<forall>v \<in> set (open_vars S). int v \<notin> set (free_vars S)"
    "\<forall>j. rnd = Some j \<longrightarrow> heap (order_heap D) = [] \<or> j < length (heap (order_heap D))"
  shows "\<exists>next D'. pickBranchLit rnd rnd_pol S D = (next, D') \<and>
    (case next of None \<Rightarrow> choices S = {} \<and> order_inv {} S D'
     | Some l \<Rightarrow> l \<in> choices S \<and> order_inv {} (decide l S) D' \<and>
         (rnd = None \<longrightarrow> (\<forall>l' \<in> choices S. \<not> order_lt D (nat (var l')) (nat (var l)))))"
proof -
  note I = order_invD [OF assms(2)] and wf = solver_invD(5) [OF assms(1)]
  note ch = choices_open [OF wf assms(3)]
  define nx where "nx = (case rnd of Some j \<Rightarrow> if heap (order_heap D) \<noteq> [] then Some (heap (order_heap D) ! j) else None | None \<Rightarrow> None)"
  obtain v D' where p: "pick_loop S nx D = (v, D')" by fastforce
  have "order_inv (set_option nx) S D" using assms(2) by (auto simp: order_inv_def)
  moreover have "x < nVars S" if "nx = Some x" for x
    using that assms(4) subsetD [OF I(4) nth_mem] by (fastforce simp: nx_def split: option.splits if_splits)
  ultimately have R: "order_inv (set_option v) S D'" "case v of None \<Rightarrow> open_vars S = [] | Some v \<Rightarrow> v \<in> set (open_vars S)"
    "v = nx \<or> (\<forall>x. v = Some x \<longrightarrow> (\<forall>u \<in> set (open_vars S). \<not> order_lt D u x))"
    using pick_loop_correct [OF _ _ p] by blast+
  have eq: "pickBranchLit rnd rnd_pol S D = (map_option (\<lambda>v. mkLit (int v) (case rnd_pol of Some b \<Rightarrow> b | None \<Rightarrow> polarity D ! v)) v, D')"
    using p by (simp add: pickBranchLit_def nx_def [symmetric] Let_def)
  show ?thesis
  proof (cases v)
    case None
    then have "choices S = {}" using R(2) ch by auto
    then show ?thesis using R(1) None eq by simp
  next
    case (Some x)
    let ?l = "mkLit (int x) (case rnd_pol of Some b \<Rightarrow> b | None \<Rightarrow> polarity D ! x)"
    have x: "x \<in> set (open_vars S)" "x < nVars S" using R(2) Some set_open_vars [of x S] by auto
    have "order_inv {} (decide ?l S) D'" using decide_order_inv [OF wf, of ?l D'] R(1) Some x by (simp add: lit_simps)
    moreover have "?l \<in> choices S" using ch x by (simp add: lit_simps)
    moreover have "\<forall>l' \<in> choices S. \<not> order_lt D (nat (var l')) x" if "rnd = None"
      using that R(3) Some ch by (auto simp: nx_def)
    ultimately show ?thesis using eq Some by (simp add: lit_simps)
  qed
qed

text \<open>Three variables without priorities, and their heap.\<close>

definition three_order :: Order where
  "three_order = \<lparr>order_heap = \<lparr>heap = [2, 0, 1], indices = [1, 2, 0]\<rparr>, activity = [1, 1, 2], priority = [0, 0, 0],
     polarity = [True, True, True], var_inc = 1\<rparr>"

lemma three_order_inv: "order_inv {} two_clauses three_order"
proof -
  have "wf_heap (order_heap three_order)" by (auto simp: wf_heap_def three_order_def less_Suc_eq numeral_3_eq_3)
  moreover have "ordered_at (order_lt three_order) (heap (order_heap three_order)) k" for k
    unfolding ordered_at_def by (auto simp: three_order_def less_Suc_eq parent_def VarOrderLt_def)
  moreover have "length (decision two_clauses) = 3" by code_simp
  ultimately show ?thesis
    by (auto simp: order_inv_def heap_inv_def two_clauses_facts three_order_def less_Suc_eq)
qed

theorem pickBranchLit_correct_witness:
  "\<exists>next D'. pickBranchLit None None two_clauses three_order = (next, D') \<and>
    (case next of None \<Rightarrow> choices two_clauses = {} \<and> order_inv {} two_clauses D'
     | Some l \<Rightarrow> l \<in> choices two_clauses \<and> order_inv {} (decide l two_clauses) D')"
proof -
  have "\<forall>v \<in> set (open_vars two_clauses). int v \<notin> set (free_vars two_clauses)" by (simp add: two_clauses_facts)
  from pickBranchLit_correct [OF two_clauses_inv three_order_inv this, of None None] show ?thesis by (auto split: option.splits)
qed

text \<open>C14: The decision order is kept up to date. Backtracking, propagation, a rebuild of the heap, a new variable, a change of
  what may be decided, the bump of a variable's activity (with
  its rescaling) and raising the priority of a decision variable all return, and afterwards the heap is ordered by the current
  activities and priorities and has every variable that can be decided.\<close>

theorem decision_order_kept:
  assumes "solver_inv S" "order_inv {} S D" "v < nVars S"
  shows "(\<exists>D'. cancel_order phase_saving lev S D = Some D' \<and> order_inv {} (cancelUntil lev S) D') \<and>
    (ok S \<longrightarrow> (\<exists>confl S'. propagate S = Some (confl, S') \<and> order_inv {} S' D)) \<and>
    (\<exists>D'. rebuildOrderHeap S D = Some D' \<and> order_inv {} S D' \<and> set (heap (order_heap D')) = set (open_vars S)) \<and>
    (free_vars S = [] \<longrightarrow> (\<exists>D'. newVar_order dvar p act pol S D = Some D' \<and> order_inv {} (snd (newVar dvar S)) D')) \<and>
    (\<exists>S' D'. setDecisionVar v b S D = Some (S', D') \<and> order_inv {} S' D') \<and>
    (0 \<le> inc \<longrightarrow> (\<exists>D'. varBumpActivity v inc D = Some D' \<and> order_inv {} S D')) \<and>
    (decision S ! v \<and> priority D ! v \<le> p \<longrightarrow> (\<exists>D'. setDecisionPriority S v p D = Some D' \<and> order_inv {} S D'))"
proof -
  have "\<exists>confl S'. propagate S = Some (confl, S') \<and> order_inv {} S' D" if "ok S"
  proof -
    from propagate_search [OF assms(1) that] obtain confl S' where
      S': "propagate S = Some (confl, S')" "wf_solver S'" "prop_rel S S'" by blast
    then show ?thesis
      using propagate_order_inv [OF solver_invD(1) [OF assms(1)] S'(2,3) propagate_decision [OF S'(1)] assms(2)] by blast
  qed
  then show ?thesis
    using cancel_order_inv [OF assms(1,2)] rebuildOrderHeap_inv [OF assms(2)] varBumpActivity_inv [OF assms(2,3)]
      setDecisionPriority_inv [OF assms(2,3)] newVar_order_inv [OF assms(2)] setDecisionVar_inv [OF assms(2,3)] by simp
qed

theorem decision_order_kept_witness:
  "\<exists>D'. varBumpActivity 1 (10 ^ 101) three_order = Some D' \<and> order_inv {} two_clauses D'"
proof -
  have "1 < nVars two_clauses" "(0::rat) \<le> 10 ^ 101" by (simp_all add: two_clauses_facts)
  then show ?thesis using decision_order_kept [OF two_clauses_inv three_order_inv, of 1 0 0 False 0 0 False False "10 ^ 101"] by blast
qed

end
