(* ===== verification/Spec2Isabelle.thy ===== *)
theory Spec2Isabelle
  imports Circuit_Assert Graph_Problem PK_Update Decision_Order
begin

text \<open>
  A verification library for the constraint-solving core of Viper.

  Viper checks database histories for snapshot isolation. It encodes a history as a graph whose edges are
  boolean variables, asserts that the graph is acyclic, and hands the problem to the SMT solver MonoSAT, which is
  part of the repository (\<open>resources/monosat\<close>). Whether Viper's verdict can be trusted rests on that C++ code. This
  library models the path that Viper's problems take through it. All files named below are in
  \<open>resources/monosat/src/monosat\<close>.

  \<^bold>\<open>The parts and how they interact.\<close> The client builds gates, arithmetic and assertions with \<open>Circuit\<close>
  (\<open>api/Circuit.h\<close>), which adds variables and clauses to \<open>Solver\<close> (\<open>core/Solver.cc\<close>), the MiniSat core. Edges and
  the acyclicity constraint are declared in \<open>GraphTheorySolver\<close> (\<open>graph/GraphTheory.h\<close>), a theory of the solver. The
  solver notifies the theory of every assignment of an edge variable (\<open>enqueueTheory\<close>) and of every backtrack
  (\<open>backtrackUntil\<close>). The theory keeps two graphs (\<open>dgl/DynamicGraph.h\<close>): \<open>g_under\<close> with the edges assigned true and
  \<open>g_over\<close> with the edges not assigned false. In \<open>propagateTheory\<close> it asks its detectors, here \<open>CycleDetector\<close>
  (\<open>graph/CycleDetector.cpp\<close>), which asks for a cycle in both graphs, by depth-first search (\<open>dgl/DFSCycle.h\<close>) or by the
  incremental topological sort (\<open>dgl/PKTopologicalSort.h\<close>), and either assigns the acyclicity literal, or reports a conflict clause, or does nothing.

  \<^bold>\<open>The theories.\<close>
  \<^item> \<open>Monosat_Prelude\<close>: C++ vectors as lists, collections of simplification rules, generic lemmas.
  \<^item> \<open>Solver_Types\<close> (\<open>core/SolverTypes.h\<close>, \<open>mtl/Alg.h\<close>): literals, lifted booleans, clauses, subsumption. Literals are
    over \<open>int\<close>; \<open>literal_encoding_bounds\<close> states exactly when the 32-bit encoding agrees.
  \<^item> \<open>Vec_Sort\<close> (\<open>mtl/Sort.h\<close>): selection sort and the quicksort.
  \<^item> \<open>Sat_Interface\<close>: the contract of a clause database, as a locale; \<open>Solver_Core\<close> (\<open>core/Solver.cc\<close>, \<open>core/Solver.h\<close>)
    models variables, trail, two-watched-literal propagation, backtracking and clause addition, and interprets it.
  \<^item> \<open>Implication_Trail\<close>: the invariant \<open>solver_inv\<close> of the solver during the search (levels and reasons of the trail, the watches of
    assigned literals) and that propagation, backtracking, decisions and new clauses keep it; propagation misses no unit clause.
    \<open>Conflict_Analysis\<close> (\<open>analyze\<close>, \<open>litRedundant\<close>, both \<open>analyzeFinal\<close>): learnt clauses are asserting consequences of the
    clauses, whatever the mode of minimisation; final conflicts are consequences over negated decisions.
    \<open>Solver_Search\<close> (\<open>search\<close>, \<open>solve_\<close>): the loop as a step relation that leaves the heuristics open. Every answer is
    right, with its model or its conflict over the assumptions, and the search never gets stuck.
  \<^item> \<open>Order_Heap\<close> (\<open>mtl/Heap.h\<close>, \<open>mtl/IntMap.h\<close>): the binary heap, proved for every strict weak order (the locale
    \<open>key_order\<close>, interpreted by the two comparison operators of the solver), and two ways to lose its order.
    \<open>Decision_Order\<close>: activities, priorities and \<open>pickBranchLit\<close>, which meets the contract that \<open>Solver_Search\<close> states for it.
  \<^item> \<open>Circuit_Base\<close>, \<open>Circuit_Gates\<close>, \<open>Circuit_Arith\<close>, \<open>Circuit_Assert\<close> (\<open>api/Circuit.h\<close>): built with the
    lemmas of that locale on extending a clause database, interpreted for the solver under a circuit. Each gate is a definitional extension whose result has the value of the
    gate in every model; each assertion cuts the models down to the asserted formula.
  \<^item> \<open>Dynamic_Graph\<close> (\<open>dgl/Graph.h\<close>, \<open>dgl/DynamicGraph.h\<close>): the multigraph with its modification counter and change log;
    well-formedness of every reachable graph, refinement of the abstract set \<open>arcs\<close>, soundness of the counter and the log.
  \<^item> \<open>Graph_Walks\<close>: walks and cycles over \<open>arcs\<close>, the specification. \<open>DFS_Cycle\<close> (\<open>dgl/DFSCycle.h\<close>): the search
    terminates and decides directed and undirected cyclicity.
  \<^item> \<open>Theory_Trail\<close>: the trail of the graph theory, one circular doubly linked list per level in an array.
    \<open>Graph_Theory\<close>: the rest of \<open>graph/GraphTheory.h\<close> that follows the solver, with the base class of \<open>graph/Detector.h\<close>.
    \<open>Graph_Sync\<close>: the invariant \<open>synced\<close> (graphs and assignment match) and that every operation keeps it, for the
    default options and, for assignment and backtracking, with lazy backtracking too.
  \<^item> \<open>Cycle_Detector\<close> (\<open>graph/CycleDetector.cpp\<close> and what it calls in the theory and the solver), with the contract of a
    cycle algorithm as the locale \<open>cycle_algorithm\<close>, interpreted by the depth-first search. \<open>Cycle_Propagation\<close>: one half
    of \<open>propagate\<close> is sound and complete for the two graphs; conflict clauses are falsified theory lemmas.
  \<^item> \<open>PK_Topological_Sort\<close>, \<open>PK_Reordering\<close>, \<open>PK_Update\<close> (\<open>dgl/PKTopologicalSort.h\<close>): the incremental algorithm that the default
    options use for directed cycles. Sorting from scratch, the two searches and the reordering; the invariant of the
    object against the change log; the same contract \<open>cycle_algorithm\<close> on graphs without self-loops, and two ways in which the
    object fails outside of it.
  \<^item> \<open>Graph_Problem\<close>: solver, theory and detector together. \<open>gp_step\<close> is the relation of all steps (declarations,
    decisions, assignments, propagation, backtracking), \<open>gp_inv\<close> its invariant, \<open>gp_reachable\<close> the reachable states.
  \<^item> This theory: the properties of reachable problems.

  \<^bold>\<open>Conventions.\<close> Objects are records, methods are functions that return the changed record. A result \<open>None\<close>
  is an exception, an access outside a vector, or a loop that does not end; so \<open>\<exists>x. f s = Some x\<close> says that the code
  returns normally. Loops are \<open>partial_function (option)\<close> or structural recursion; no fuel is used. Assertions of the
  source are compiled out in its release build and are not part of the model. Counters and variables are unbounded
  integers, statistics and log files are left out.

  \<^bold>\<open>Not modelled.\<close> Clause deletion (\<open>simplify\<close>, \<open>reduceDB\<close>), and the calls of
  theory solvers inside \<open>search\<close> (search and conflict analysis are modelled for a solver without theories, \<open>Graph_Problem\<close>
  models the interplay of assignment, propagation and backtracking with the graph theory); the
  preprocessing of \<open>simp/\<close>; the other detectors (reachability, distance, flow, trees) and their algorithms in
  \<open>dgl/\<close>; the steps of \<open>Graph_Problem\<close> use the depth-first search for both kinds of cycles (option \<open>-cycles=dfs\<close>), the incremental
  algorithm is verified against the same contract; bit vectors (\<open>bv/\<close>), pseudo-boolean constraints (\<open>pb/\<close>), finite automata (\<open>fsm/\<close>),
  geometry, routing, parsers and language bindings; the solver Z3
  (\<open>resources/z3\<close>), an alternative back end; and the Python code of Viper itself.
\<close>







text \<open>A conflict leaves no admissible assignment that extends the state.\<close>

lemma conflicting_no_extension:
  assumes "conflicting G D c" "extends G \<tau>" "synced G"
  shows "\<not> admissible G D \<tau>"
proof
  assume "admissible G D \<tau>"
  then obtain tc l where l: "l \<in> set tc" "tlit \<tau> l" "\<forall>l \<in> set tc. \<exists>b. gvalue G l = Some b \<and> tri b = Some False"
    using assms(1) unfolding conflicting_def by blast
  then obtain b where b: "gvalue G l = Some b" "tri b = Some False" by blast
  then have r: "0 \<le> var l" "nat (var l) < length (gvars G)"
    using syncedD(3) [OF assms(3)] by (auto simp: gvalue_def gvalue_var_def split: if_splits)
  then have "mkLit (int (nat (var l))) (sign l) = l" by simp
  then have "map_option (\<lambda>x. x \<noteq> sign l) (tri (gassigns G ! nat (var l))) = Some False"
    using gvalue_lit [OF assms(3) r(2), of "sign l"] b by (metis option.inject)
  then have "tri (gassigns G ! nat (var l)) = Some (sign l)" by auto
  then show False using assms(2) r(2) l(2) by (simp add: extends_def tlit_def)
qed



text \<open>C17: a decision is undone exactly: in every reachable state, assigning a free theory variable at a new level and
  cancelling that level gives back the values and both graphs.\<close>
theorem decision_undone:
  assumes "solver_ok S" "gp_reachable S P" "v < length (gvars (gp_theory P))" "tri (gassigns (gp_theory P) ! v) = None"
    and "solverVar (gvars (gp_theory P) ! v) = var p"
  shows "\<exists>Q G'. solver_enqueue p r (P\<lparr>gp_solver := newDecisionLevel (gp_solver P)\<rparr>) = Some (True, Q) \<and>
     tri (gassigns (gp_theory Q) ! v) = Some (\<not> sign p) \<and>
     cancelTheory (decisionLevel (gp_solver P)) (gp_solver Q) (gp_theory Q) = Some G' \<and>
     arcs (g_under G') = arcs (g_under (gp_theory P)) \<and> arcs (g_over G') = arcs (g_over (gp_theory P)) \<and>
     map tri (gassigns G') = map tri (gassigns (gp_theory P))"
proof -
  have inv: "gp_inv P" by (rule reachable_inv [OF assms(1,2)])
  have syn: "synced (gp_theory P)" using inv in_step_synced by (auto simp: gp_inv_def)
  obtain Q G' where Q: "solver_enqueue p r (P\<lparr>gp_solver := newDecisionLevel (gp_solver P)\<rparr>) = Some (True, Q)"
    "cancelTheory (decisionLevel (gp_solver P)) (gp_solver Q) (gp_theory Q) = Some G'"
    "in_step (cancelUntil (decisionLevel (gp_solver P)) (gp_solver Q)) G'" "same_gvars (gp_theory P) G'"
    "tri (gassigns (gp_theory Q) ! v) = Some (\<not> sign p)"
    "\<forall>x < length (gvars (gp_theory P)). tri (gassigns G' ! x) = tri (gassigns (gp_theory P) ! x)"
    by (rule decide_backtrack [OF inv assms(3-5), of r])
  have syn': "synced G'" by (rule in_step_synced [OF Q(3)])
  have "length (gassigns G') = length (gvars (gp_theory P))" "length (gassigns (gp_theory P)) = length (gvars (gp_theory P))"
    using syncedD(3) [OF syn] syncedD(3) [OF syn'] Q(4) by (simp_all add: same_gvars_def)
  then have "map tri (gassigns G') = map tri (gassigns (gp_theory P))" using Q(6) by (simp add: list_eq_iff_nth_eq)
  then show ?thesis using Q(1,2,5) arcs_determined [OF syn syn' Q(4)] Q(6) by blast
qed

theorem decision_undone_witness:
  "\<exists>P p Q G'. gp_reachable four_vars P \<and> solver_enqueue p 0 (P\<lparr>gp_solver := newDecisionLevel (gp_solver P)\<rparr>) = Some (True, Q) \<and>
     cancelTheory (decisionLevel (gp_solver P)) (gp_solver Q) (gp_theory Q) = Some G' \<and> (0, 0, 0) \<in> arcs (g_under G')"
proof -
  obtain P D v where P: "gp_reachable four_vars P" "v < length (gvars (gp_theory P))" "tri (gassigns (gp_theory P) ! v) = None"
    "(0, 0, 0) \<in> arcs (g_under (gp_theory P))" by (rule loop_problem)
  have "solverVar (gvars (gp_theory P) ! v) = var (mkLit (solverVar (gvars (gp_theory P) ! v)) False)" by simp
  from decision_undone [OF four_vars_ok P(1-3) this, of 0] P(1,4) show ?thesis by blast
qed

text \<open>C18: \<open>newEdge\<close> on a frozen graph throws; otherwise, for a free solver variable at level 0, it declares the next edge, which
  is in \<open>g_over\<close> and not in \<open>g_under\<close> until its variable is assigned, and leaves every other edge as it was.\<close>
theorem newEdge_declares:
  assumes "solver_ok S" "gp_reachable S P" "decisionLevel (gp_solver P) = 0" "free_var sv (gp_solver P) (gp_theory P)"
  shows "if frozen (gp_theory P) then problem_newEdge u w sv weight P = None
    else \<exists>P'. problem_newEdge u w sv weight P = Some (mkLit (int (length (gvars (gp_theory P)))) False, P') \<and>
      arcs (g_under (gp_theory P')) = arcs (g_under (gp_theory P)) \<and>
      arcs (g_over (gp_theory P')) = insert (u, length (edge_list (gp_theory P)), w) (arcs (g_over (gp_theory P)))"
proof (cases "frozen (gp_theory P)")
  case True
  then show ?thesis by (simp add: problem_newEdge_def newEdge_def checkFrozen_def)
next
  case False
  have inv: "gp_inv P" by (rule reachable_inv [OF assms(1,2)])
  let ?G = "gp_theory P"
  obtain P' e where P': "problem_newEdge u w sv weight P = Some (mkLit (int (length (gvars ?G))) False, P')" "gp_inv P'"
    "edge_list (gp_theory P') = edge_list ?G @ [e]" "ge_v e = int (length (gvars ?G))" "ge_from e = int u" "ge_to e = int w"
    "gassigns (gp_theory P') = gassigns ?G @ [l_Undef]"
    by (rule problem_newEdge_correct [OF inv False assms(3,4), of u w weight]) blast
  have syn: "synced ?G" "synced (gp_theory P')" using inv P'(2) in_step_synced by (auto simp: gp_inv_def)
  have old: "gassigns (gp_theory P') ! nat (ge_v (edge_list ?G ! i)) = gassigns ?G ! nat (ge_v (edge_list ?G ! i))" if "i < length (edge_list ?G)" for i
    using syncedD(7) [OF syn(1) that] syncedD(3) [OF syn(1)] P'(7) by (auto simp: edge_synced_def nth_append)
  have new: "gassigns (gp_theory P') ! nat (ge_v e) = l_Undef" using P'(4,7) syncedD(3) [OF syn(1)] by (simp add: nth_append)
  have "arcs (g_under (gp_theory P')) = arcs (g_under ?G)"
    unfolding arcs_synced(1) [OF syn(1)] arcs_synced(1) [OF syn(2)] P'(3) using old new
    by (auto simp: nth_append less_Suc_eq split: if_splits)
  moreover have "arcs (g_over (gp_theory P')) = insert (u, length (edge_list ?G), w) (arcs (g_over ?G))"
    unfolding arcs_synced(2) [OF syn(1)] arcs_synced(2) [OF syn(2)] P'(3) using old new P'(5,6)
    by (auto simp: nth_append less_Suc_eq split: if_splits)
  ultimately show ?thesis using False P'(1) by auto
qed

theorem newEdge_declares_witness:
  "\<exists>P'. problem_newEdge 2 5 3 7 (GraphProblem_init four_vars) = Some (mkLit 0 False, P') \<and>
     arcs (g_under (gp_theory P')) = {} \<and> arcs (g_over (gp_theory P')) = {(2, 0, 5)}"
proof -
  have "free_var 3 four_vars GraphTheory_init" using four_vars_free [of GraphTheory_init 3] by (simp add: GraphTheory_init_def)
  moreover have "decisionLevel four_vars = 0" by (simp add: four_vars_def init_solver_def)
  moreover have "arcs DynamicGraph_init = {}" by (simp add: arcs_def DynamicGraph_init_def)
  ultimately show ?thesis
    using newEdge_declares [OF four_vars_ok reachable_init, of 3 2 5 7] by (simp add: GraphProblem_init_def GraphTheory_init_def)
qed

text \<open>The assignment with no edge and both acyclicity literals true is admissible.\<close>

lemma no_edges_admissible:
  assumes "synced G" "lits_ok G D"
  shows "admissible G D (\<lambda>x. x < length (gvars G) \<and> \<not> gisEdge (gvars G ! x))" (is "admissible G D ?\<tau>")
proof -
  have "gisEdge (gvars G ! nat (ge_v (edge_list G ! i)))" if "i < length (edge_list G)" for i
    using syncedD(7) [OF assms(1) that] by (auto simp: edge_synced_def)
  then have "true_arcs G ?\<tau> = {}" by (auto simp: true_arcs_def)
  then have "\<not> is_cycle u (true_arcs G ?\<tau>) c" for u c using is_cycle_edges [of u _ c "hd c"]
    by (cases c) (auto simp: is_cycle_def dicycle_def ucycle_def undir_def)
  moreover have "tlit ?\<tau> (acyclic_lit u D)" if "acyclic_lit u D \<noteq> lit_Undef" for u
    using assms(2) that by (auto simp: lits_ok_def tlit_def)
  ultimately show ?thesis by (auto simp: admissible_def)
qed

text \<open>C25: the reason that \<open>propagate\<close> records when it assigns the negated acyclicity literal is the wrong marker. From the cycle in
  \<open>g_under\<close> it enqueues the literal with \<open>no_directed_cycle_marker\<close>, and the clause that \<open>buildReason\<close> makes of this marker, in
  every state of the theory, is falsified by an admissible assignment.\<close>
theorem cycle_reason_unsound:
  assumes "solver_ok S" "gp_reachable S P" "cycle_detector P = Some D" "acyclic_lit False D = mkLit (int v) False"
    and "tri (gassigns (gp_theory P) ! v) = None" "is_cycle False (arcs (g_under (gp_theory P))) c"
    and "no_directed_cycle_marker D \<noteq> directed_cycle_marker D"
  shows "\<exists>D' P' sv. propagate_half False (D, P) = Some (None, D', P') \<and>
      vd_reason (vardata (gp_solver P') ! nat sv) = Some (no_directed_cycle_marker D) \<and> sv = solverVar (gvars (gp_theory P) ! v) \<and>
      (\<forall>G. synced G \<and> lits_ok G D' \<longrightarrow> (\<exists>tc reason \<tau>.
         buildReason (mkLit (int v) True) (no_directed_cycle_marker D) G D' = Some (reason, D') \<and> toSolver G tc = Some reason \<and>
         admissible G D' \<tau> \<and> (\<forall>l \<in> set tc. \<not> tlit \<tau> l)))"
proof -
  let ?G = "gp_theory P"
  have inv: "gp_inv P" by (rule reachable_inv [OF assms(1,2)])
  have pi: "problem_inv D P" by (rule gp_inv_problem [OF inv assms(3)])
  then have syn: "synced ?G" and det: "det_ready ?G D" and ok: "lits_ok ?G D" and ln: "linked (gp_solver P) ?G"
    using in_step_synced by (auto simp: problem_inv_def in_step_def)
  have v: "v < length (gvars ?G)" "\<not> gisEdge (gvars ?G ! v)"
    using ok assms(4) unfolding lits_ok_def by (metis mkLit_int_inject mkLit_not_Undef)+
  obtain uc where uc: "hasCycle False (g_under ?G) (under_cycle False D) = Some (True, uc)" "det_ready ?G (set_under_cycle False uc D)"
    by (rule has_under [OF syn det, of False]) (use assms(6) in auto)
  let ?D = "set_under_cycle False uc D"
  obtain P' where P': "theory_enqueue (mkLit (int v) True) (no_directed_cycle_marker D) P = Some (True, P')"
    "gp_solver P' = uncheckedEnqueue (mkLit (solverVar (gvars ?G ! v)) True) (Some (no_directed_cycle_marker D)) (gp_solver P)"
    by (rule half_outcome_enqueue [OF pi uc(2), of False v True "no_directed_cycle_marker D"]) (use assms(4-6) v in auto)
  obtain val nval where val: "gvalue ?G (mkLit (int v) False) = Some val" "wf_lbool val" "tri val = None"
    "gvalue ?G (mkLit (int v) True) = Some nval" "wf_lbool nval" "tri nval = None"
    using gvalue_lit [OF syn v(1), of False] gvalue_lit [OF syn v(1), of True] assms(5) by (metis option.map(1))
  have "propagate_half False (D, P) = Some (None, ?D, P')"
    using assms(4) val uc(1) P'(1) by (simp add: propagate_half_def)
  moreover have "vd_reason (vardata (gp_solver P') ! nat (solverVar (gvars ?G ! v))) = Some (no_directed_cycle_marker D)"
    using P'(2) linkedD(2,5) [OF ln v(1)] by (simp add: uncheckedEnqueue_def)
  moreover have "\<exists>tc reason \<tau>. buildReason (mkLit (int v) True) (no_directed_cycle_marker D) G ?D = Some (reason, ?D) \<and>
      toSolver G tc = Some reason \<and> admissible G ?D \<tau> \<and> (\<forall>l \<in> set tc. \<not> tlit \<tau> l)" if G: "synced G" "lits_ok G ?D" for G
  proof -
    let ?tc = "mkLit (int v) True # map (edge_lit G) (filter (\<lambda>i. \<not> edge_status (g_over G) ! i) [0..<length (edge_list G)])"
    let ?\<tau> = "\<lambda>x. x < length (gvars G) \<and> \<not> gisEdge (gvars G ! x)"
    have vG: "v < length (gvars G)" "\<not> gisEdge (gvars G ! v)"
      using G(2) assms(4) unfolding lits_ok_def by (metis acyclic_lit_set(1) mkLit_int_inject mkLit_not_Undef)+
    have e: "\<exists>x. edge_lit G i = mkLit (int x) False \<and> x < length (gvars G) \<and> gisEdge (gvars G ! x)" if "i < length (edge_list G)" for i
      using syncedD(7) [OF G(1) that] by (auto simp: edge_synced_def)
    have "\<forall>l \<in> set ?tc. 0 \<le> var l \<and> nat (var l) < length (gvars G)" using vG(1) e by force
    then obtain reason where r: "toSolver G ?tc = Some reason" by (rule toSolver_total)
    have "\<forall>l \<in> set ?tc. \<not> tlit ?\<tau> l" using vG e by (force simp: tlit_def)
    moreover have "buildReason (mkLit (int v) True) (no_directed_cycle_marker D) G ?D = Some (reason, ?D)"
      using assms(7) r by (simp add: buildReason_def buildNoCycleReason_eq [OF G(1)])
    ultimately show ?thesis using r no_edges_admissible [OF G] by blast
  qed
  ultimately show ?thesis by blast
qed

theorem cycle_reason_unsound_witness:
  "\<exists>P D D' P' v reason tc \<tau>. gp_reachable four_vars P \<and> propagate_half False (D, P) = Some (None, D', P') \<and>
     buildReason (mkLit (int v) True) (no_directed_cycle_marker D) (gp_theory P) D' = Some (reason, D') \<and>
     toSolver (gp_theory P) tc = Some reason \<and> admissible (gp_theory P) D' \<tau> \<and> (\<forall>l \<in> set tc. \<not> tlit \<tau> l)"
proof -
  obtain P D v where P: "gp_reachable four_vars P" "cycle_detector P = Some D" "acyclic_lit False D = mkLit (int v) False"
    "tri (gassigns (gp_theory P) ! v) = None" "no_directed_cycle_marker D \<noteq> directed_cycle_marker D"
    "(0, 0, 0) \<in> arcs (g_under (gp_theory P))" by (rule loop_problem)
  have "is_cycle False (arcs (g_under (gp_theory P))) [0]" using P(6) by (auto simp: is_cycle_def dicycle_def)
  from cycle_reason_unsound [OF four_vars_ok P(1-4) this P(5)] obtain D' P' where
    h: "propagate_half False (D, P) = Some (None, D', P')" "synced (gp_theory P) \<and> lits_ok (gp_theory P) D' \<longrightarrow> (\<exists>tc reason \<tau>.
         buildReason (mkLit (int v) True) (no_directed_cycle_marker D) (gp_theory P) D' = Some (reason, D') \<and>
         toSolver (gp_theory P) tc = Some reason \<and> admissible (gp_theory P) D' \<tau> \<and> (\<forall>l \<in> set tc. \<not> tlit \<tau> l))" by blast
  have inv: "gp_inv P" by (rule reachable_inv [OF four_vars_ok P(1)])
  have "half_outcome False D P None D' P'"
    by (rule propagate_half_correct [OF gp_inv_problem [OF inv P(2)], of False]) (use h(1) in simp)
  then have "acyclic_lit u D' = acyclic_lit u D" for u by (rule half_outcomeD(2))
  then have "synced (gp_theory P) \<and> lits_ok (gp_theory P) D'"
    using inv P(2) in_step_synced by (auto simp: gp_inv_def det_ok_def lits_ok_def)
  with h P(1) show ?thesis by blast
qed

end
